(* ===== verification/Prelude.thy ===== *)
theory Prelude
  imports Main "HOL-Library.Word" "HOL-Library.Sublist"
begin

text \<open>
  What the theories of the development share: the types that stand for Rust's own types, the
  functions of Rust's standard library that the modelled code calls, and the generic lemmas on
  lists and options that several components use.

  A Rust \<open>char\<close> is a Unicode scalar value; it is modelled as its code point, a \<^typ>\<open>nat\<close>, and a
  \<open>String\<close> or \<open>&str\<close> as the list of its scalar values. \<open>usize\<close> quantities that count or index
  elements held in memory are \<^typ>\<open>nat\<close>; where the source relies on \<open>saturating_sub\<close>, subtraction on
  \<^typ>\<open>nat\<close> is that operation. Where a bounded integer could overflow the width is written out.
\<close>

section \<open>Characters and strings\<close>

type_synonym rchar = nat
type_synonym rstr = "rchar list"

text \<open>\<open>rc CHR ''a''\<close> and \<open>rs ''abc''\<close> are the literals \<open>'a'\<close> and \<open>"abc"\<close> of the source.\<close>

definition rc :: "char \<Rightarrow> rchar" where
  "rc c = of_char c"

definition rs :: "string \<Rightarrow> rstr" where
  "rs s = map of_char s"

lemma rc_simps [simp]: "rc (Char b0 b1 b2 b3 b4 b5 b6 b7) = of_char (Char b0 b1 b2 b3 b4 b5 b6 b7)"
  by (simp add: rc_def)

lemma rs_simps [simp]:
  "rs [] = []"
  "rs (c # s) = rc c # rs s"
  by (simp_all add: rs_def rc_def)

definition is_ascii_digit :: "rchar \<Rightarrow> bool" where
  "is_ascii_digit c \<longleftrightarrow> 48 \<le> c \<and> c \<le> 57"

definition is_ascii_lowercase :: "rchar \<Rightarrow> bool" where
  "is_ascii_lowercase c \<longleftrightarrow> 97 \<le> c \<and> c \<le> 122"

definition is_ascii_uppercase :: "rchar \<Rightarrow> bool" where
  "is_ascii_uppercase c \<longleftrightarrow> 65 \<le> c \<and> c \<le> 90"

definition is_ascii_alphabetic :: "rchar \<Rightarrow> bool" where
  "is_ascii_alphabetic c \<longleftrightarrow> is_ascii_lowercase c \<or> is_ascii_uppercase c"

definition is_ascii_alphanumeric :: "rchar \<Rightarrow> bool" where
  "is_ascii_alphanumeric c \<longleftrightarrow> is_ascii_alphabetic c \<or> is_ascii_digit c"

definition is_ascii_hexdigit :: "rchar \<Rightarrow> bool" where
  "is_ascii_hexdigit c \<longleftrightarrow> is_ascii_digit c \<or> (97 \<le> c \<and> c \<le> 102) \<or> (65 \<le> c \<and> c \<le> 70)"

definition to_ascii_lowercase :: "rchar \<Rightarrow> rchar" where
  "to_ascii_lowercase c = (if is_ascii_uppercase c then c + 32 else c)"

text \<open>\<open>char::is_whitespace\<close>: the Unicode property White_Space, which is a fixed short list.\<close>

definition is_whitespace :: "rchar \<Rightarrow> bool" where
  "is_whitespace c \<longleftrightarrow>
     9 \<le> c \<and> c \<le> 13 \<or> c = 32 \<or> c = 133 \<or> c = 160 \<or> c = 5760 \<or> 8192 \<le> c \<and> c \<le> 8202
     \<or> c = 8232 \<or> c = 8233 \<or> c = 8239 \<or> c = 8287 \<or> c = 12288"

lemmas ascii_defs = is_ascii_digit_def is_ascii_lowercase_def is_ascii_uppercase_def
  is_ascii_alphabetic_def is_ascii_alphanumeric_def is_ascii_hexdigit_def

lemma to_ascii_lowercase_lower [simp]:
  "is_ascii_lowercase c \<Longrightarrow> to_ascii_lowercase c = c"
  by (auto simp: to_ascii_lowercase_def ascii_defs)

lemma is_ascii_lowercase_to_lower [simp]:
  "is_ascii_uppercase c \<Longrightarrow> is_ascii_lowercase (to_ascii_lowercase c)"
  by (auto simp: to_ascii_lowercase_def ascii_defs)

lemma ascii_disjoint:
  "is_ascii_lowercase c \<Longrightarrow> \<not> is_ascii_uppercase c"
  "is_ascii_lowercase c \<Longrightarrow> \<not> is_ascii_digit c"
  "is_ascii_uppercase c \<Longrightarrow> \<not> is_ascii_digit c"
  by (auto simp: ascii_defs)

text \<open>\<open>s.ends_with(c)\<close> for a character.\<close>

definition ends_with_char :: "rstr \<Rightarrow> rchar \<Rightarrow> bool" where
  "ends_with_char s c \<longleftrightarrow> s \<noteq> [] \<and> last s = c"

lemma ends_with_char_snoc [simp]: "ends_with_char (s @ [c]) d \<longleftrightarrow> c = d"
  by (simp add: ends_with_char_def)

lemma ends_with_char_Nil [simp]: "\<not> ends_with_char [] c"
  by (simp add: ends_with_char_def)

section \<open>Refinement of fallible steps\<close>

text \<open>
  A component whose operations may panic (\<open>None\<close>) implements an abstract one: from related states
  no operation panics, the results are related, and the operation reports whether it changed
  anything.
\<close>

fun run_steps :: "('op \<Rightarrow> 's \<Rightarrow> (bool \<times> 's) option) \<Rightarrow> 'op list \<Rightarrow> 's \<Rightarrow> 's option" where
  "run_steps step [] s = Some s"
| "run_steps step (op # ops) s =
     (case step op s of None \<Rightarrow> None | Some (_, s') \<Rightarrow> run_steps step ops s')"

locale step_refinement =
  fixes step :: "'op \<Rightarrow> 's \<Rightarrow> (bool \<times> 's) option"
    and astep :: "'op \<Rightarrow> 'a \<Rightarrow> 'a"
    and rel :: "'s \<Rightarrow> 'a \<Rightarrow> bool"
  assumes refines: "rel s a \<Longrightarrow> \<exists>s'. step op s = Some (astep op a \<noteq> a, s') \<and> rel s' (astep op a)"
begin

lemma run_refines: "rel s a \<Longrightarrow> \<exists>s'. run_steps step ops s = Some s' \<and> rel s' (fold astep ops a)"
proof (induction ops arbitrary: s a)
  case (Cons op ops)
  then obtain s1 where "step op s = Some (astep op a \<noteq> a, s1)" "rel s1 (astep op a)"
    using refines by blast
  with Cons.IH show ?case by simp
qed simp

lemma step_total: "rel s a \<Longrightarrow> step op s \<noteq> None"
  using refines by fastforce

end

end
