(* ===== verification/Clipboard.thy ===== *)
theory Clipboard
  imports Prelude
begin

text \<open>
  The clipboard behind the registers \<open>"+\<close> and \<open>"*\<close> (ovim-core/src/editor/clipboard.rs): the
  synchronisation state, the operations of the type \<open>Clipboard\<close> and the scopes whose guards run
  \<open>end_execution\<close> and \<open>invalidate_snapshot\<close> when they are dropped.

  The trait \<open>ClipboardBackend\<close> is a record of its two methods over the state \<open>'b\<close> of the external
  clipboard; the process-local \<open>MemoryClipboard\<close> is the instance whose code the source contains.
  The operating system's clipboard (crate arboard) is any other value of the record. The mutex
  around the state makes every operation atomic, so an execution is a sequence of operations.
\<close>

section \<open>The backend\<close>

record 'b clipboard_backend =
  backend_read :: "'b \<Rightarrow> rstr option"
  backend_write :: "'b \<Rightarrow> rstr \<Rightarrow> 'b \<times> bool"

definition memory_clipboard :: "rstr option clipboard_backend" where
  "memory_clipboard = \<lparr>backend_read = (\<lambda>text. text), backend_write = (\<lambda>_ text. (Some text, True))\<rparr>"

section \<open>State and operations\<close>

record clipboard_state =
  fallback :: rstr
  snapshot_valid :: bool
  pending_write :: bool
  execution_depth :: nat

record 'b clipboard =
  cb_backend :: 'b
  cb_state :: clipboard_state

definition clipboard_state_default :: clipboard_state where
  "clipboard_state_default =
     \<lparr>fallback = [], snapshot_valid = False, pending_write = False, execution_depth = 0\<rparr>"

definition clipboard_with_backend :: "'b \<Rightarrow> 'b clipboard" where
  "clipboard_with_backend b = \<lparr>cb_backend = b, cb_state = clipboard_state_default\<rparr>"

text \<open>\<open>Clone\<close>: the copy keeps the text but not the responsibility for an open scope.\<close>

definition clipboard_clone :: "'b clipboard \<Rightarrow> 'b clipboard" where
  "clipboard_clone cb =
     cb\<lparr>cb_state := clipboard_state_default\<lparr>fallback := fallback (cb_state cb)\<rparr>\<rparr>"

definition clipboard_begin_execution :: "'b clipboard \<Rightarrow> 'b clipboard" where
  "clipboard_begin_execution cb =
     (let st = cb_state cb;
          st = (if execution_depth st = 0 then st\<lparr>snapshot_valid := False\<rparr> else st)
      in cb\<lparr>cb_state := st\<lparr>execution_depth := execution_depth st + 1\<rparr>\<rparr>)"

definition clipboard_flush :: "'b clipboard_backend \<Rightarrow> 'b clipboard \<Rightarrow> 'b clipboard" where
  "clipboard_flush ops cb =
     (let st = cb_state cb
      in if pending_write st
         then \<lparr>cb_backend = fst (backend_write ops (cb_backend cb) (fallback st)),
               cb_state = st\<lparr>pending_write := False\<rparr>\<rparr>
         else cb)"

text \<open>\<open>end_execution\<close> asserts that a scope is open: \<open>None\<close> is the panic.\<close>

definition clipboard_end_execution ::
  "'b clipboard_backend \<Rightarrow> 'b clipboard \<Rightarrow> 'b clipboard option" where
  "clipboard_end_execution ops cb =
     (let st = cb_state cb
      in if execution_depth st > 0
         then let st = st\<lparr>execution_depth := execution_depth st - 1\<rparr>;
                  cb = cb\<lparr>cb_state := st\<rparr>
              in Some (if execution_depth st = 0
                       then let cb = clipboard_flush ops cb
                            in cb\<lparr>cb_state := (cb_state cb)\<lparr>snapshot_valid := False\<rparr>\<rparr>
                       else cb)
         else None)"

definition clipboard_read ::
  "'b clipboard_backend \<Rightarrow> 'b clipboard \<Rightarrow> rstr \<times> 'b clipboard" where
  "clipboard_read ops cb =
     (let st = cb_state cb
      in if execution_depth st > 0 \<and> (pending_write st \<or> snapshot_valid st)
         then (fallback st, cb)
         else let text = (case backend_read ops (cb_backend cb) of
                            Some t \<Rightarrow> t | None \<Rightarrow> fallback st);
                  st = st\<lparr>fallback := text\<rparr>;
                  st = (if execution_depth st > 0 then st\<lparr>snapshot_valid := True\<rparr> else st)
              in (text, cb\<lparr>cb_state := st\<rparr>))"

definition clipboard_write ::
  "'b clipboard_backend \<Rightarrow> 'b clipboard \<Rightarrow> rstr \<Rightarrow> 'b clipboard" where
  "clipboard_write ops cb text =
     (let st = (cb_state cb)\<lparr>fallback := text\<rparr>
      in if execution_depth st > 0
         then cb\<lparr>cb_state := st\<lparr>snapshot_valid := True, pending_write := True\<rparr>\<rparr>
         else \<lparr>cb_backend = fst (backend_write ops (cb_backend cb) text), cb_state = st\<rparr>)"

definition clipboard_invalidate_snapshot :: "'b clipboard \<Rightarrow> 'b clipboard" where
  "clipboard_invalidate_snapshot cb =
     cb\<lparr>cb_state := (cb_state cb)\<lparr>snapshot_valid := False\<rparr>\<rparr>"

section \<open>Executions\<close>

text \<open>
  The operations a command can trigger, in the order the source runs them: opening a scope, the
  drop of its guard, reads and writes of \<open>"+\<close>, and the two ends of an external scope. Between any
  two of them another program may change the external clipboard.
\<close>

datatype 'b clip_event =
    BeginExec | EndExec | ReadClip | WriteClip rstr | ExternalEnter | ExternalLeave | OtherProgram "'b \<Rightarrow> 'b"

fun clip_step :: "'b clipboard_backend \<Rightarrow> 'b clipboard \<Rightarrow> 'b clip_event \<Rightarrow> 'b clipboard option" where
  "clip_step ops cb BeginExec = Some (clipboard_begin_execution cb)"
| "clip_step ops cb EndExec = clipboard_end_execution ops cb"
| "clip_step ops cb ReadClip = Some (snd (clipboard_read ops cb))"
| "clip_step ops cb (WriteClip t) = Some (clipboard_write ops cb t)"
| "clip_step ops cb ExternalEnter = Some (clipboard_flush ops cb)"
| "clip_step ops cb ExternalLeave = Some (clipboard_invalidate_snapshot cb)"
| "clip_step ops cb (OtherProgram f) = Some (cb\<lparr>cb_backend := f (cb_backend cb)\<rparr>)"

fun clip_run :: "'b clipboard_backend \<Rightarrow> 'b clipboard \<Rightarrow> 'b clip_event list \<Rightarrow> 'b clipboard option" where
  "clip_run ops cb [] = Some cb"
| "clip_run ops cb (e # es) =
     (case clip_step ops cb e of None \<Rightarrow> None | Some cb' \<Rightarrow> clip_run ops cb' es)"

section \<open>Lemmas\<close>

text \<open>
  The interface: a backend that keeps what it is given. The client lemmas are about the
  operations of \<open>Clipboard\<close> over any such backend.
\<close>

locale faithful_backend =
  fixes ops :: "'b clipboard_backend"
  assumes read_back: "backend_write ops b t = (b', True) \<Longrightarrow> backend_read ops b' = Some t"
begin

lemma write_then_read:
  assumes "execution_depth (cb_state cb) > 0 \<or> snd (backend_write ops (cb_backend cb) t)"
  shows "fst (clipboard_read ops (clipboard_write ops cb t)) = t"
proof (cases "backend_write ops (cb_backend cb) t")
  case (Pair b' ok)
  then show ?thesis
    using assms read_back [of "cb_backend cb" t b']
    by (auto simp: clipboard_read_def clipboard_write_def Let_def)
qed

end

interpretation memory: faithful_backend memory_clipboard
  by unfold_locales (auto simp: memory_clipboard_def)

text \<open>Reading twice gives the same text: the first read is the snapshot.\<close>

lemma clipboard_read_twice:
  "backend_read ops (cb_backend cb) = r \<Longrightarrow>
   fst (clipboard_read ops (snd (clipboard_read ops cb))) = fst (clipboard_read ops cb)"
  by (auto simp: clipboard_read_def Let_def split: option.splits)

text \<open>
  The depth an event list reaches from a relative depth \<open>d\<close>, \<open>None\<close> when a guard of an enclosing
  scope would be dropped, and the last text written since the last external scope was entered.
\<close>

fun nesting :: "nat \<Rightarrow> 'b clip_event list \<Rightarrow> nat option" where
  "nesting d [] = Some d"
| "nesting d (BeginExec # es) = nesting (Suc d) es"
| "nesting d (EndExec # es) = (case d of 0 \<Rightarrow> None | Suc d' \<Rightarrow> nesting d' es)"
| "nesting d (_ # es) = nesting d es"

fun last_write :: "rstr option \<Rightarrow> 'b clip_event list \<Rightarrow> rstr option" where
  "last_write w [] = w"
| "last_write w (WriteClip t # es) = last_write (Some t) es"
| "last_write w (ExternalEnter # es) = last_write None es"
| "last_write w (_ # es) = last_write w es"

text \<open>
  What happens to the external clipboard within a scope: the changes of other programs, and at the
  entry of an external scope the last text written since the entry before, if any.
\<close>

datatype 'b backend_event = Publish rstr | Changed "'b \<Rightarrow> 'b"

definition publish_last :: "rstr option \<Rightarrow> 'b backend_event list" where
  "publish_last w = (case w of None \<Rightarrow> [] | Some t \<Rightarrow> [Publish t])"

fun backend_events :: "rstr option \<Rightarrow> 'b clip_event list \<Rightarrow> 'b backend_event list" where
  "backend_events w [] = []"
| "backend_events w (WriteClip t # es) = backend_events (Some t) es"
| "backend_events w (ExternalEnter # es) = publish_last w @ backend_events None es"
| "backend_events w (OtherProgram f # es) = Changed f # backend_events w es"
| "backend_events w (_ # es) = backend_events w es"

fun apply_backend :: "'b clipboard_backend \<Rightarrow> 'b backend_event \<Rightarrow> 'b \<Rightarrow> 'b" where
  "apply_backend ops (Publish t) b = fst (backend_write ops b t)"
| "apply_backend ops (Changed f) b = f b"

definition scope_view :: "'b \<Rightarrow> nat \<Rightarrow> rstr option \<Rightarrow> 'b clipboard \<Rightarrow> bool" where
  "scope_view b d w cb \<longleftrightarrow>
     cb_backend cb = b \<and> execution_depth (cb_state cb) = Suc d \<and>
     pending_write (cb_state cb) = (w \<noteq> None) \<and> (\<forall>t. w = Some t \<longrightarrow> fallback (cb_state cb) = t)"

lemma scope_view_intro:
  "cb_backend cb = b \<Longrightarrow> execution_depth (cb_state cb) = 0 \<Longrightarrow> \<not> pending_write (cb_state cb) \<Longrightarrow>
   scope_view b 0 None (clipboard_begin_execution cb)"
  by (simp add: scope_view_def clipboard_begin_execution_def Let_def)

lemma scope_view_step:
  assumes "scope_view b d w cb" and "nesting d (e # es) = Some d''"
  shows "\<exists>d' cb'. clip_step ops cb e = Some cb' \<and>
           scope_view (fold (apply_backend ops) (backend_events w [e]) b) d' (last_write w [e]) cb' \<and>
           nesting d' es = Some d''"
  using assms
  by (cases e)
    (auto simp: scope_view_def clipboard_begin_execution_def clipboard_end_execution_def
      clipboard_read_def clipboard_write_def clipboard_flush_def clipboard_invalidate_snapshot_def publish_last_def
      Let_def split: nat.splits)

lemma last_write_Cons: "last_write w (e # es) = last_write (last_write w [e]) es"
  by (cases e) auto

lemma backend_events_Cons: "backend_events w (e # es) = backend_events w [e] @ backend_events (last_write w [e]) es"
  by (cases e) auto

lemma scope_view_run:
  "scope_view b d w cb \<Longrightarrow> nesting d es = Some d' \<Longrightarrow>
   \<exists>cb'. clip_run ops cb es = Some cb' \<and>
     scope_view (fold (apply_backend ops) (backend_events w es) b) d' (last_write w es) cb'"
proof (induction es arbitrary: b d w cb)
  case Nil
  then show ?case by simp
next
  case (Cons e es)
  obtain d1 cb1 where step: "clip_step ops cb e = Some cb1"
      "scope_view (fold (apply_backend ops) (backend_events w [e]) b) d1 (last_write w [e]) cb1" "nesting d1 es = Some d'"
    using scope_view_step [OF Cons.prems] by blast
  obtain cb' where "clip_run ops cb1 es = Some cb'"
      "scope_view (fold (apply_backend ops) (backend_events (last_write w [e]) es)
         (fold (apply_backend ops) (backend_events w [e]) b)) d' (last_write (last_write w [e]) es) cb'"
    using Cons.IH [OF step(2,3)] by blast
  then show ?case
    using step(1) by (auto simp: last_write_Cons [of w e es] backend_events_Cons [of w e es])
qed

lemma clip_run_append:
  "clip_run ops cb (es @ es') =
     (case clip_run ops cb es of None \<Rightarrow> None | Some cb' \<Rightarrow> clip_run ops cb' es')"
  by (induction es arbitrary: cb) (auto split: option.splits)

lemma scope_view_end:
  assumes "scope_view b 0 w cb"
  shows "\<exists>cb'. clipboard_end_execution ops cb = Some cb' \<and>
           cb_backend cb' = fold (apply_backend ops) (publish_last w) b \<and>
           execution_depth (cb_state cb') = 0 \<and> \<not> pending_write (cb_state cb') \<and>
           \<not> snapshot_valid (cb_state cb')"
  using assms
  by (auto simp: scope_view_def clipboard_end_execution_def clipboard_flush_def publish_last_def Let_def
      split: option.splits)

section \<open>Properties\<close>

text \<open>
  C1. A command synchronises the external clipboard only where it must: when the outermost
  execution scope closes, whatever nested scopes, reads, writes and external scopes (\<open>:!\<close> commands,
  which publish what was written before them) ran inside it, and whatever other programs did to the
  clipboard meanwhile, the editor has written to it exactly at the entry of every external scope and
  at the end, each time the last text written since the time before and nothing if there was none.
  No write is left pending and the next scope starts without a stale snapshot.
\<close>

theorem scope_publishes_last_write:
  assumes "execution_depth (cb_state cb) = 0" and "\<not> pending_write (cb_state cb)"
    and "nesting 0 es = Some 0"
  shows "\<exists>cb'. clip_run ops cb (BeginExec # es @ [EndExec]) = Some cb' \<and>
           cb_backend cb' = fold (apply_backend ops) (backend_events None es @ publish_last (last_write None es)) (cb_backend cb) \<and>
           execution_depth (cb_state cb') = 0 \<and> \<not> pending_write (cb_state cb') \<and>
           \<not> snapshot_valid (cb_state cb')"
proof -
  have "scope_view (cb_backend cb) 0 None (clipboard_begin_execution cb)"
    using assms(1,2) by (intro scope_view_intro) auto
  then obtain cb1 where run: "clip_run ops (clipboard_begin_execution cb) es = Some cb1"
    and view: "scope_view (fold (apply_backend ops) (backend_events None es) (cb_backend cb)) 0 (last_write None es) cb1"
    using scope_view_run [OF _ assms(3), of _ _ _ ops] by blast
  from scope_view_end [OF view, of ops] run show ?thesis
    by (auto simp: clip_run_append)
qed

text \<open>A backend that keeps the texts written to it: the two writes around an external command, of three.\<close>

definition logging_clipboard :: "rstr list clipboard_backend" where
  "logging_clipboard = \<lparr>backend_read = (\<lambda>log. if log = [] then None else Some (last log)),
     backend_write = (\<lambda>log text. (log @ [text], True))\<rparr>"

theorem scope_publishes_last_write_witness:
  "\<exists>cb'. clip_run logging_clipboard (clipboard_with_backend [])
           (BeginExec # [WriteClip (rs ''a''), BeginExec, WriteClip (rs ''b''), EndExec, ExternalEnter, ExternalLeave,
              ReadClip, WriteClip (rs ''c'')] @ [EndExec]) = Some cb'
         \<and> cb_backend cb' = [rs ''b'', rs ''c'']"
  using scope_publishes_last_write
    [of "clipboard_with_backend []" "[WriteClip (rs ''a''), BeginExec, WriteClip (rs ''b''), EndExec, ExternalEnter,
      ExternalLeave, ReadClip, WriteClip (rs ''c'')]" logging_clipboard]
  by (fastforce simp: clipboard_with_backend_def clipboard_state_default_def logging_clipboard_def publish_last_def)

text \<open>
  A command reads its own clipboard writes: once a text has been written inside a scope, every
  later read before an external scope returns the last one, even after the snapshot is invalidated,
  and no matter what the external clipboard holds.
\<close>

theorem scope_reads_own_writes:
  assumes "execution_depth (cb_state cb) = 0" and "\<not> pending_write (cb_state cb)"
    and "nesting 0 es = Some d" and "last_write None es = Some t"
  shows "\<exists>cb'. clip_run ops cb (BeginExec # es) = Some cb' \<and> fst (clipboard_read ops cb') = t \<and>
           fst (clipboard_read ops (clipboard_invalidate_snapshot cb')) = t"
proof -
  have "scope_view (cb_backend cb) 0 None (clipboard_begin_execution cb)"
    using assms(1,2) by (intro scope_view_intro) auto
  then obtain cb1 where run: "clip_run ops (clipboard_begin_execution cb) es = Some cb1"
    and view: "scope_view (fold (apply_backend ops) (backend_events None es) (cb_backend cb)) d (last_write None es) cb1"
    using scope_view_run [OF _ assms(3), of _ _ _ ops] by blast
  then show ?thesis
    using assms(4)
    by (auto simp: scope_view_def clipboard_read_def clipboard_invalidate_snapshot_def Let_def)
qed

theorem scope_reads_own_writes_witness:
  "\<exists>cb'. clip_run memory_clipboard (clipboard_with_backend (Some (rs ''x'')))
           (BeginExec # [ReadClip, WriteClip (rs ''a''), BeginExec]) = Some cb'
         \<and> fst (clipboard_read memory_clipboard cb') = rs ''a''"
  using scope_reads_own_writes
    [of "clipboard_with_backend (Some (rs ''x''))" "[ReadClip, WriteClip (rs ''a''), BeginExec]"
      1 "rs ''a''" memory_clipboard]
  by (fastforce simp: clipboard_with_backend_def clipboard_state_default_def)

end
