(* ===== verification/Registers.thy ===== *)
theory Registers
  imports Clipboard
begin

text \<open>
  The register manager (ovim-core/src/editor/register.rs): the named, unnamed, yank, numbered,
  small-delete and read-only registers and the two that reach the clipboard. The named registers
  are a map (the source's \<open>HashMap\<close>), whose keys are lower-case letters: \<open>registers_wf\<close>, kept by
  every operation. Every operation of \<open>RegisterManager\<close> that stores or reads text is here.
\<close>

section \<open>State\<close>

datatype register_type = Character | Line | Block

record register_content =
  reg_text :: rstr
  reg_type :: register_type

record register_storage =
  registers :: "rchar \<rightharpoonup> register_content"
  unnamed :: register_content
  yank_reg :: register_content
  delete_history :: "register_content list"
  small_delete :: register_content
  current_file :: rstr
  alternate_file :: rstr
  last_inserted :: rstr
  last_command :: rstr
  last_search :: rstr

record 'b register_manager =
  storage :: register_storage
  reg_clipboard :: "'b clipboard"

definition register_content_new :: "rstr \<Rightarrow> register_type \<Rightarrow> register_content" where
  "register_content_new text ty = \<lparr>reg_text = text, reg_type = ty\<rparr>"

definition empty_content :: register_content where
  "empty_content = register_content_new [] Character"

definition register_manager_new :: "'b \<Rightarrow> 'b register_manager" where
  "register_manager_new backend =
     \<lparr>storage = \<lparr>registers = Map.empty, unnamed = empty_content, yank_reg = empty_content,
        delete_history = [], small_delete = empty_content, current_file = [],
        alternate_file = [], last_inserted = [], last_command = [], last_search = []\<rparr>,
      reg_clipboard = clipboard_with_backend backend\<rparr>"

section \<open>Operations\<close>

text \<open>\<open>RegisterContent::append\<close>, the write of an upper-case register name.\<close>

definition register_content_append ::
  "register_content \<Rightarrow> rstr \<Rightarrow> register_type \<Rightarrow> register_content" where
  "register_content_append rcont text ty =
     (if reg_type rcont = Line \<or> ty = Line
      then let old = reg_text rcont;
               old = (if old \<noteq> [] \<and> \<not> ends_with_char old 10 then old @ [10] else old);
               new = old @ text;
               new = (if \<not> ends_with_char new 10 then new @ [10] else new)
           in \<lparr>reg_text = new, reg_type = Line\<rparr>
      else \<lparr>reg_text = reg_text rcont @ text, reg_type = ty\<rparr>)"

definition register_is_valid_name :: "rchar \<Rightarrow> bool" where
  "register_is_valid_name r \<longleftrightarrow>
     is_ascii_alphanumeric r \<or> r \<in> set (rs ''\"_-+*%.:#/'')"

definition register_is_read_only :: "rchar \<Rightarrow> bool" where
  "register_is_read_only r \<longleftrightarrow> r \<in> set (rs ''%.:/#'')"

definition register_set_with_type ::
  "'b clipboard_backend \<Rightarrow> 'b register_manager \<Rightarrow> rchar option \<Rightarrow> rstr \<Rightarrow> register_type
    \<Rightarrow> 'b register_manager" where
  "register_set_with_type ops m register value ty =
     (let content = register_content_new value ty; s = storage m in
      case register of
        None \<Rightarrow> m\<lparr>storage := s\<lparr>unnamed := content\<rparr>\<rparr>
      | Some r \<Rightarrow>
         if register_is_read_only r then m
         else if r = rc CHR 0x22 then m\<lparr>storage := s\<lparr>unnamed := content\<rparr>\<rparr>
         else if r = rc CHR ''0'' then m\<lparr>storage := s\<lparr>yank_reg := content\<rparr>\<rparr>
         else if r = rc CHR ''+'' \<or> r = rc CHR ''*'' then
           m\<lparr>reg_clipboard := clipboard_write ops (reg_clipboard m) value\<rparr>
         else if r = rc CHR ''-'' then m\<lparr>storage := s\<lparr>small_delete := content\<rparr>\<rparr>
         else if r = rc CHR ''_'' then m
         else if is_ascii_lowercase r then
           m\<lparr>storage := s\<lparr>registers := (registers s)(r \<mapsto> content)\<rparr>\<rparr>
         else if is_ascii_uppercase r then
           (let l = to_ascii_lowercase r;
                entry = (case registers s l of
                           Some v \<Rightarrow> register_content_append v value ty
                         | None \<Rightarrow> content)
            in m\<lparr>storage := s\<lparr>registers := (registers s)(l \<mapsto> entry)\<rparr>\<rparr>)
         else m)"

definition register_set ::
  "'b clipboard_backend \<Rightarrow> 'b register_manager \<Rightarrow> rchar option \<Rightarrow> rstr \<Rightarrow> 'b register_manager" where
  "register_set ops m register value = register_set_with_type ops m register value Character"

text \<open>
  Reading register \<open>+\<close> synchronises the clipboard, so a read returns the manager too. The value
  is the text and its type; \<open>register_get\<close> drops the type.
\<close>

definition register_get_with_type ::
  "'b clipboard_backend \<Rightarrow> 'b register_manager \<Rightarrow> rchar option
    \<Rightarrow> (rstr \<times> register_type) \<times> 'b register_manager" where
  "register_get_with_type ops m register =
     (let s = storage m;
          of_content = (\<lambda>c. ((reg_text c, reg_type c), m));
          of_text = (\<lambda>t. ((t, Character), m));
          of_name = (\<lambda>l. case registers s l of
                       Some c \<Rightarrow> ((reg_text c, reg_type c), m) | None \<Rightarrow> (([], Character), m))
      in case register of
           None \<Rightarrow> of_content (unnamed s)
         | Some r \<Rightarrow>
            if r = rc CHR 0x22 then of_content (unnamed s)
            else if r = rc CHR ''0'' then of_content (yank_reg s)
            else if r = rc CHR ''%'' then of_text (current_file s)
            else if r = rc CHR ''#'' then of_text (alternate_file s)
            else if r = rc CHR ''.'' then of_text (last_inserted s)
            else if r = rc CHR '':'' then of_text (last_command s)
            else if r = rc CHR ''/'' then of_text (last_search s)
            else if r = rc CHR ''+'' \<or> r = rc CHR ''*'' then
              (let (t, cb) = clipboard_read ops (reg_clipboard m)
               in ((t, Character), m\<lparr>reg_clipboard := cb\<rparr>))
            else if r = rc CHR ''_'' then of_text []
            else if r = rc CHR ''-'' then of_content (small_delete s)
            else if is_ascii_digit r then
              (let idx = r - 48
               in if idx > 0 \<and> idx \<le> length (delete_history s)
                  then of_content (delete_history s ! (idx - 1)) else of_text [])
            else if is_ascii_lowercase r then of_name r
            else if is_ascii_uppercase r then of_name (to_ascii_lowercase r)
            else of_text [])"

definition register_get ::
  "'b clipboard_backend \<Rightarrow> 'b register_manager \<Rightarrow> rchar option \<Rightarrow> rstr \<times> 'b register_manager" where
  "register_get ops m register =
     (let s = storage m;
          of_content = (\<lambda>c. (reg_text c, m));
          of_text = (\<lambda>t. (t, m));
          of_name = (\<lambda>l. case registers s l of Some c \<Rightarrow> (reg_text c, m) | None \<Rightarrow> ([], m))
      in case register of
           None \<Rightarrow> of_content (unnamed s)
         | Some r \<Rightarrow>
            if r = rc CHR 0x22 then of_content (unnamed s)
            else if r = rc CHR ''0'' then of_content (yank_reg s)
            else if r = rc CHR ''%'' then of_text (current_file s)
            else if r = rc CHR ''#'' then of_text (alternate_file s)
            else if r = rc CHR ''.'' then of_text (last_inserted s)
            else if r = rc CHR '':'' then of_text (last_command s)
            else if r = rc CHR ''/'' then of_text (last_search s)
            else if r = rc CHR ''+'' \<or> r = rc CHR ''*'' then
              (let (t, cb) = clipboard_read ops (reg_clipboard m)
               in (t, m\<lparr>reg_clipboard := cb\<rparr>))
            else if r = rc CHR ''_'' then of_text []
            else if r = rc CHR ''-'' then of_content (small_delete s)
            else if is_ascii_digit r then
              (let idx = r - 48
               in if idx > 0 \<and> idx \<le> length (delete_history s)
                  then of_content (delete_history s ! (idx - 1)) else of_text [])
            else if is_ascii_lowercase r then of_name r
            else if is_ascii_uppercase r then of_name (to_ascii_lowercase r)
            else of_text [])"

definition register_yank_with_type ::
  "'b register_manager \<Rightarrow> rstr \<Rightarrow> register_type \<Rightarrow> 'b register_manager" where
  "register_yank_with_type m text ty =
     (let content = register_content_new text ty
      in m\<lparr>storage := (storage m)\<lparr>unnamed := content, yank_reg := content\<rparr>\<rparr>)"

definition register_delete_with_type ::
  "'b register_manager \<Rightarrow> rstr \<Rightarrow> register_type \<Rightarrow> 'b register_manager" where
  "register_delete_with_type m text ty =
     (let content = register_content_new text ty;
          s = (storage m)\<lparr>unnamed := content\<rparr>
      in if ty = Character \<and> 10 \<notin> set text
         then m\<lparr>storage := s\<lparr>small_delete := content\<rparr>\<rparr>
         else let h = content # delete_history s;
                  h = (if length h > 9 then take 9 h else h)
              in m\<lparr>storage := s\<lparr>delete_history := h\<rparr>\<rparr>)"

definition register_set_current_file :: "'b register_manager \<Rightarrow> rstr \<Rightarrow> 'b register_manager" where
  "register_set_current_file m path = m\<lparr>storage := (storage m)\<lparr>current_file := path\<rparr>\<rparr>"

definition register_set_alternate_file :: "'b register_manager \<Rightarrow> rstr \<Rightarrow> 'b register_manager" where
  "register_set_alternate_file m path = m\<lparr>storage := (storage m)\<lparr>alternate_file := path\<rparr>\<rparr>"

definition register_set_last_inserted :: "'b register_manager \<Rightarrow> rstr \<Rightarrow> 'b register_manager" where
  "register_set_last_inserted m text = m\<lparr>storage := (storage m)\<lparr>last_inserted := text\<rparr>\<rparr>"

definition register_set_last_command :: "'b register_manager \<Rightarrow> rstr \<Rightarrow> 'b register_manager" where
  "register_set_last_command m command = m\<lparr>storage := (storage m)\<lparr>last_command := command\<rparr>\<rparr>"

definition register_set_last_search :: "'b register_manager \<Rightarrow> rstr \<Rightarrow> 'b register_manager" where
  "register_set_last_search m pattern = m\<lparr>storage := (storage m)\<lparr>last_search := pattern\<rparr>\<rparr>"

definition register_set_clipboard ::
  "'b clipboard_backend \<Rightarrow> 'b register_manager \<Rightarrow> rstr \<Rightarrow> 'b register_manager" where
  "register_set_clipboard ops m text =
     m\<lparr>reg_clipboard := clipboard_write ops (reg_clipboard m) text\<rparr>"

text \<open>
  \<open>list_registers\<close> and its helper: a line break is shown as \<open>^J\<close> and the text is cut to fifty
  characters. The named registers are listed in the order of their names.
\<close>

definition truncate_display :: "rstr \<Rightarrow> nat \<Rightarrow> rstr" where
  "truncate_display s max_chars =
     (let s = concat (map (\<lambda>c. if c = 10 then rs ''^J'' else [c]) s)
      in if length s > max_chars then take max_chars s @ rs ''...'' else s)"

definition list_entry :: "rchar \<Rightarrow> rstr \<Rightarrow> (rstr \<times> rstr) list" where
  "list_entry name text = (if text = [] then [] else [([34, name], truncate_display text 50)])"

definition register_list ::
  "'b clipboard_backend \<Rightarrow> 'b register_manager \<Rightarrow> (rstr \<times> rstr) list \<times> 'b register_manager" where
  "register_list ops m =
     (let s = storage m;
          (clip, cb) = clipboard_read ops (reg_clipboard m)
      in (list_entry (rc CHR 0x22) (reg_text (unnamed s)) @
          list_entry (rc CHR ''0'') (reg_text (yank_reg s)) @
          concat (map (\<lambda>(i, e). list_entry (rc CHR ''0'' + i + 1) (reg_text e))
                   (enumerate 0 (delete_history s))) @
          list_entry (rc CHR ''-'') (reg_text (small_delete s)) @
          concat (map (\<lambda>name. case registers s name of
                              Some c \<Rightarrow> list_entry name (reg_text c) | None \<Rightarrow> [])
                   [97..<123]) @
          list_entry (rc CHR ''%'') (current_file s) @
          list_entry (rc CHR ''/'') (last_search s) @
          list_entry (rc CHR '':'') (last_command s) @
          list_entry (rc CHR ''+'') clip, m\<lparr>reg_clipboard := cb\<rparr>))"

section \<open>Lemmas\<close>

lemmas register_set_defs = register_set_with_type_def register_content_new_def Let_def

definition registers_wf :: "'b register_manager \<Rightarrow> bool" where
  "registers_wf m \<longleftrightarrow>
     length (delete_history (storage m)) \<le> 9 \<and>
     (\<forall>r \<in> dom (registers (storage m)). is_ascii_lowercase r) \<and>
     (\<forall>c \<in> set (delete_history (storage m)). reg_type c \<noteq> Character \<or> 10 \<in> set (reg_text c))"

lemma register_new_wf: "registers_wf (register_manager_new b)"
  by (simp add: registers_wf_def register_manager_new_def)

lemma register_set_wf: "registers_wf m \<Longrightarrow> registers_wf (register_set_with_type ops m r v ty)"
  by (auto simp: registers_wf_def register_set_defs split: option.splits)

lemma register_delete_wf: "registers_wf m \<Longrightarrow> registers_wf (register_delete_with_type m t ty)"
  by (auto simp: registers_wf_def register_delete_with_type_def register_content_new_def Let_def
      dest: in_set_takeD)

lemma register_yank_wf: "registers_wf m \<Longrightarrow> registers_wf (register_yank_with_type m t ty)"
  by (simp add: registers_wf_def register_yank_with_type_def Let_def)

text \<open>The two read functions agree: \<open>get\<close> is \<open>get_with_type\<close> without the type.\<close>

lemma register_get_eq:
  "register_get ops m r =
     (fst (fst (register_get_with_type ops m r)), snd (register_get_with_type ops m r))"
  by (auto simp: register_get_def register_get_with_type_def Let_def
      split: option.splits prod.splits)

lemma register_get_storage: "storage (snd (register_get ops m r)) = storage m"
  by (auto simp: register_get_def Let_def split: option.splits prod.splits)

text \<open>
  The register a name stands for: \<open>None\<close> and \<open>"\<close> are the unnamed register, \<open>*\<close> is \<open>+\<close>, and an
  upper-case letter is its lower-case register.
\<close>

definition canonical_register :: "rchar option \<Rightarrow> rchar" where
  "canonical_register r =
     (case r of None \<Rightarrow> rc CHR 0x22
      | Some c \<Rightarrow> if c = rc CHR ''*'' then rc CHR ''+'' else to_ascii_lowercase c)"

definition register_value :: "'b clipboard_backend \<Rightarrow> 'b register_manager \<Rightarrow> rchar option \<Rightarrow> rstr \<times> register_type" where
  "register_value ops m r = fst (register_get_with_type ops m r)"

lemma canonical_char:
  "canonical_register (Some c) = k \<Longrightarrow> \<not> is_ascii_lowercase k \<Longrightarrow> k \<noteq> 43 \<Longrightarrow> c = k"
  by (auto simp: canonical_register_def to_ascii_lowercase_def ascii_defs split: if_splits)

lemma canonical_char_self:
  "\<not> is_ascii_uppercase k \<Longrightarrow> k \<noteq> 42 \<Longrightarrow> canonical_register (Some k) = k"
  by (auto simp: canonical_register_def to_ascii_lowercase_def)

text \<open>The value read, without the manager the read returns.\<close>

definition content_value :: "register_content option \<Rightarrow> rstr \<times> register_type" where
  "content_value x = (case x of None \<Rightarrow> ([], Character) | Some c \<Rightarrow> (reg_text c, reg_type c))"

lemma register_value_None: "register_value ops m None = content_value (Some (unnamed (storage m)))"
  by (simp add: register_value_def register_get_with_type_def content_value_def Let_def)

lemma register_value_Some:
  "register_value ops m (Some c) =
     (let s = storage m in
      if c = 34 then content_value (Some (unnamed s))
      else if c = 48 then content_value (Some (yank_reg s))
      else if c = 37 then (current_file s, Character)
      else if c = 35 then (alternate_file s, Character)
      else if c = 46 then (last_inserted s, Character)
      else if c = 58 then (last_command s, Character)
      else if c = 47 then (last_search s, Character)
      else if c = 43 \<or> c = 42 then (fst (clipboard_read ops (reg_clipboard m)), Character)
      else if c = 95 then ([], Character)
      else if c = 45 then content_value (Some (small_delete s))
      else if is_ascii_digit c then
        (if c - 48 > 0 \<and> c - 48 \<le> length (delete_history s)
         then content_value (Some (delete_history s ! (c - 48 - 1))) else ([], Character))
      else if is_ascii_lowercase c then content_value (registers s c)
      else if is_ascii_uppercase c then content_value (registers s (to_ascii_lowercase c))
      else ([], Character))"
  by (simp add: register_value_def register_get_with_type_def content_value_def Let_def
      case_prod_beta split: option.split)

lemma canonical_ne: "canonical_register (Some c) \<noteq> k \<Longrightarrow> \<not> is_ascii_uppercase k \<Longrightarrow> k \<noteq> 42 \<Longrightarrow> c \<noteq> k"
  using canonical_char_self by blast

lemma not_upper_nums [simp]:
  "\<not> is_ascii_uppercase 34" "\<not> is_ascii_uppercase 48" "\<not> is_ascii_uppercase 45" "\<not> is_ascii_uppercase 43"
  by (simp_all add: is_ascii_uppercase_def)

lemma canonical_plus: "canonical_register (Some 42) = 43" "canonical_register (Some 43) = 43"
  by (simp_all add: canonical_register_def to_ascii_lowercase_def is_ascii_uppercase_def)

text \<open>What a change of one field does to the values that are read.\<close>

lemma value_unnamed:
  assumes "canonical_register r \<noteq> 34"
  shows "register_value ops (m\<lparr>storage := (storage m)\<lparr>unnamed := x\<rparr>\<rparr>) r = register_value ops m r"
  using assms canonical_ne [of _ 34]
  by (cases r) (auto simp: register_value_Some canonical_register_def [of None] Let_def)

lemma value_yank:
  assumes "canonical_register r \<noteq> 48"
  shows "register_value ops (m\<lparr>storage := (storage m)\<lparr>yank_reg := x\<rparr>\<rparr>) r = register_value ops m r"
  using assms canonical_ne [of _ 48]
  by (cases r) (simp_all add: register_value_Some register_value_None Let_def)

lemma value_small:
  assumes "canonical_register r \<noteq> 45"
  shows "register_value ops (m\<lparr>storage := (storage m)\<lparr>small_delete := x\<rparr>\<rparr>) r = register_value ops m r"
  using assms canonical_ne [of _ 45]
  by (cases r) (simp_all add: register_value_Some register_value_None Let_def)

lemma value_clipboard:
  assumes "canonical_register r \<noteq> 43"
  shows "register_value ops (m\<lparr>reg_clipboard := cb\<rparr>) r = register_value ops m r"
proof (cases r)
  case None
  then show ?thesis by (simp add: register_value_None)
next
  case (Some c)
  with assms have "c \<noteq> 42" "c \<noteq> 43"
    using canonical_plus by auto
  with Some show ?thesis by (simp add: register_value_Some Let_def)
qed

lemma value_named:
  assumes "canonical_register r \<noteq> l" and "is_ascii_lowercase l"
  shows "register_value ops (m\<lparr>storage := (storage m)\<lparr>registers := (registers (storage m))(l \<mapsto> x)\<rparr>\<rparr>) r
     = register_value ops m r"
proof (cases r)
  case None
  then show ?thesis by (simp add: register_value_None)
next
  case (Some c)
  have "c \<noteq> 42 \<Longrightarrow> to_ascii_lowercase c \<noteq> l" and "is_ascii_lowercase c \<Longrightarrow> c \<noteq> l"
    using assms(1) by (auto simp: Some canonical_register_def ascii_defs)
  with Some show ?thesis by (simp add: register_value_Some Let_def cong: if_cong)
qed

lemmas value_frames = value_unnamed value_yank value_small value_clipboard value_named

text \<open>A write to one register leaves every other register's value alone.\<close>

lemma register_set_frame:
  assumes "canonical_register r \<noteq> canonical_register r'"
  shows "register_value ops (register_set_with_type ops m r v ty) r' = register_value ops m r'"
proof (cases r)
  case None
  with assms show ?thesis
    by (simp add: register_set_with_type_def value_frames canonical_register_def Let_def)
next
  case (Some c)
  note r = assms [unfolded Some]
  consider "c = 34" | "c = 48" | "c = 42 \<or> c = 43" | "c = 45"
    | (letter) "is_ascii_lowercase (to_ascii_lowercase c)" "is_ascii_alphabetic c"
    | (none) "c \<notin> {34, 48, 42, 43, 45}" "\<not> is_ascii_alphabetic c"
    by (fastforce simp: is_ascii_alphabetic_def)
  then show ?thesis
  proof cases
    case letter
    then have "c \<notin> {34, 48, 42, 43, 45, 95}" and "\<not> register_is_read_only c"
      by (auto simp: ascii_defs register_is_read_only_def)
    moreover have "canonical_register (Some c) = to_ascii_lowercase c"
      using letter(2) by (auto simp: canonical_register_def ascii_defs)
    moreover have "\<not> is_ascii_lowercase c \<Longrightarrow> is_ascii_uppercase c"
      using letter(2) by (simp add: is_ascii_alphabetic_def)
    ultimately show ?thesis
      using r letter(1)
      by (cases "is_ascii_lowercase c") (simp_all add: Some register_set_with_type_def Let_def value_named)
  next
    case none
    then show ?thesis
      by (simp add: Some register_set_with_type_def Let_def is_ascii_alphabetic_def)
  qed (use r in \<open>auto simp: Some register_set_with_type_def Let_def register_is_read_only_def
      value_frames canonical_char_self canonical_plus\<close>)
qed

definition register_writable :: "rchar option \<Rightarrow> bool" where
  "register_writable r \<longleftrightarrow>
     (case r of None \<Rightarrow> True
      | Some c \<Rightarrow> is_ascii_lowercase c \<or> c = rc CHR 0x22 \<or> c = rc CHR ''0'' \<or> c = rc CHR ''-'')"

lemma register_set_get:
  "register_writable r \<Longrightarrow>
   register_value ops (register_set_with_type ops m r v ty) r = (v, ty)"
  by (cases r)
    (auto simp: register_writable_def register_value_def register_get_with_type_def
      register_set_with_type_def register_content_new_def Let_def register_is_read_only_def
      is_ascii_digit_def is_ascii_lowercase_def split: option.splits)

lemma register_set_append:
  "is_ascii_uppercase c \<Longrightarrow> registers (storage m) (to_ascii_lowercase c) = Some old \<Longrightarrow>
   register_value ops (register_set_with_type ops m (Some c) v ty) (Some (to_ascii_lowercase c)) =
     (reg_text (register_content_append old v ty), reg_type (register_content_append old v ty))"
  by (auto simp: register_value_def register_get_with_type_def register_set_with_type_def Let_def
      register_is_read_only_def to_ascii_lowercase_def ascii_disjoint is_ascii_uppercase_def
      is_ascii_lowercase_def is_ascii_digit_def)

text \<open>The managers a session can reach from a new one, with any backend.\<close>

inductive register_reachable :: "'b clipboard_backend \<Rightarrow> 'b register_manager \<Rightarrow> bool"
  for ops :: "'b clipboard_backend" where
  reg_new: "register_reachable ops (register_manager_new b)"
| reg_set: "register_reachable ops m \<Longrightarrow> register_reachable ops (register_set_with_type ops m r v ty)"
| reg_get: "register_reachable ops m \<Longrightarrow> register_reachable ops (snd (register_get_with_type ops m r))"
| reg_yank: "register_reachable ops m \<Longrightarrow> register_reachable ops (register_yank_with_type m t ty)"
| reg_delete: "register_reachable ops m \<Longrightarrow> register_reachable ops (register_delete_with_type m t ty)"
| reg_file: "register_reachable ops m \<Longrightarrow> register_reachable ops (register_set_current_file m t)"
| reg_alt: "register_reachable ops m \<Longrightarrow> register_reachable ops (register_set_alternate_file m t)"
| reg_inserted: "register_reachable ops m \<Longrightarrow> register_reachable ops (register_set_last_inserted m t)"
| reg_command: "register_reachable ops m \<Longrightarrow> register_reachable ops (register_set_last_command m t)"
| reg_search: "register_reachable ops m \<Longrightarrow> register_reachable ops (register_set_last_search m t)"
| reg_clip: "register_reachable ops m \<Longrightarrow>
    clip_step ops (reg_clipboard m) e = Some cb \<Longrightarrow> register_reachable ops (m\<lparr>reg_clipboard := cb\<rparr>)"

lemma register_get_with_type_storage: "storage (snd (register_get_with_type ops m r)) = storage m"
  using register_get_storage [of ops m r] by (simp add: register_get_eq)

lemma register_value_digit:
  "1 \<le> k \<Longrightarrow> k \<le> 9 \<Longrightarrow> k \<le> length (delete_history (storage m)) \<Longrightarrow>
   register_value ops m (Some (48 + k)) = content_value (Some (delete_history (storage m) ! (k - 1)))"
  by (simp add: register_value_Some Let_def is_ascii_digit_def)

section \<open>Properties\<close>

text \<open>
  C2. Whatever a session does with the registers, at most nine deletes are kept, every one of them
  linewise, blockwise or with a line break (so small deletes never enter the numbered registers),
  and the named registers are exactly lower-case letters.
\<close>

theorem registers_invariant:
  assumes "register_reachable ops m"
  shows "registers_wf m"
  using assms
  by (induction rule: register_reachable.induct)
    (auto simp: register_new_wf register_set_wf register_yank_wf register_delete_wf,
     auto simp: registers_wf_def register_get_with_type_storage register_set_current_file_def
       register_set_alternate_file_def register_set_last_inserted_def
       register_set_last_command_def register_set_last_search_def)

theorem registers_invariant_witness:
  "registers_wf (register_delete_with_type
     (register_set_with_type memory_clipboard (register_manager_new None)
       (Some (rc CHR ''A'')) (rs ''x'') Line) (rs ''y'') Line)"
  by (rule registers_invariant [of memory_clipboard]) (intro register_reachable.intros)

text \<open>
  Writing a register and reading it back gives the text and the type that were written, and
  every register that the name does not stand for keeps its value, whatever the name is.
\<close>

theorem register_write_read:
  assumes "register_writable r"
  shows "register_value ops (register_set_with_type ops m r v ty) r = (v, ty) \<and>
         (\<forall>r'. canonical_register r' \<noteq> canonical_register r \<longrightarrow>
            register_value ops (register_set_with_type ops m r v ty) r' = register_value ops m r')"
  using assms register_set_get [of r ops m v ty] register_set_frame [of r _ ops m v ty] by auto

theorem register_write_read_witness:
  "register_value memory_clipboard
     (register_set_with_type memory_clipboard (register_manager_new None) (Some (rc CHR ''q'')) (rs ''dd'') Line)
     (Some (rc CHR ''q'')) = (rs ''dd'', Line)"
  using register_write_read [of "Some (rc CHR ''q'')" memory_clipboard "register_manager_new None"
      "rs ''dd''" Line]
  by (simp add: register_writable_def is_ascii_lowercase_def)

text \<open>
  A delete that spans lines enters the numbered registers: it becomes register 1 and the
  unnamed register, the earlier deletes move up by one (the ninth is dropped), and the yank
  register 0 and the small-delete register keep their values.
\<close>

theorem delete_rotates_history:
  assumes "ty \<noteq> Character \<or> 10 \<in> set text"
  shows "register_value ops (register_delete_with_type m text ty) (Some 49) = (text, ty) \<and>
         register_value ops (register_delete_with_type m text ty) None = (text, ty) \<and>
         (\<forall>k \<in> {1..8}. k \<le> length (delete_history (storage m)) \<longrightarrow>
            register_value ops (register_delete_with_type m text ty) (Some (48 + (k + 1))) =
            register_value ops m (Some (48 + k))) \<and>
         register_value ops (register_delete_with_type m text ty) (Some 48) =
           register_value ops m (Some 48) \<and>
         register_value ops (register_delete_with_type m text ty) (Some 45) =
           register_value ops m (Some 45)"
proof -
  let ?m = "register_delete_with_type m text ty"
  let ?h = "register_content_new text ty # delete_history (storage m)"
  have h: "delete_history (storage ?m) = take 9 ?h"
    using assms by (auto simp: register_delete_with_type_def Let_def)
  have unn: "unnamed (storage ?m) = register_content_new text ty"
    and keep: "yank_reg (storage ?m) = yank_reg (storage m)" "small_delete (storage ?m) = small_delete (storage m)"
    using assms by (auto simp: register_delete_with_type_def Let_def)
  have "register_value ops ?m (Some (48 + 1)) = (text, ty)"
    using h by (subst register_value_digit) (auto simp: content_value_def register_content_new_def)
  moreover have "register_value ops ?m (Some (48 + (k + 1))) = register_value ops m (Some (48 + k))"
    if "k \<in> {1..8}" "k \<le> length (delete_history (storage m))" for k
    using that h by (subst register_value_digit, simp, simp, simp, subst register_value_digit)
      (auto simp: nth_Cons split: nat.split)
  ultimately show ?thesis
    by (auto simp: register_value_None register_value_Some Let_def unn keep content_value_def
        register_content_new_def)
qed

theorem delete_rotates_history_witness:
  "register_value memory_clipboard
     (register_delete_with_type
        (register_delete_with_type (register_manager_new None) (rs ''one'') Line) (rs ''two'') Line)
     (Some (48 + (1 + 1))) = (rs ''one'', Line)"
proof -
  let ?m = "register_delete_with_type (register_manager_new (None :: rstr option)) (rs ''one'') Line"
  have "length (delete_history (storage ?m)) = 1"
    by (simp add: register_delete_with_type_def register_manager_new_def Let_def)
  then have "register_value memory_clipboard (register_delete_with_type ?m (rs ''two'') Line)
      (Some (48 + (1 + 1))) = register_value memory_clipboard ?m (Some (48 + 1))"
    using delete_rotates_history [of Line "rs ''two''" memory_clipboard ?m,
        THEN conjunct2, THEN conjunct2, THEN conjunct1, THEN bspec, of 1] by simp
  also have "\<dots> = (rs ''one'', Line)"
    by (simp add: register_delete_with_type_def register_manager_new_def register_content_new_def
        register_value_Some content_value_def is_ascii_digit_def Let_def)
  finally show ?thesis .
qed

end
