(* ===== verification/Macros.thy ===== *)
theory Macros
  imports Registers
begin

text \<open>
  Keyboard events (ovim-core/src/key.rs) and macros (ovim-core/src/editor/macros.rs): the text a
  macro register holds, the keys it replays, recording and playback. Playback dispatches every key
  to the editor's input handler, which is a parameter here: a function from the editor and a key
  to the editor afterwards and an error, if the dispatch returned one.
\<close>

section \<open>Keys\<close>

datatype key_code =
    KeyChar rchar | KeyEnter | KeyEsc | KeyTab | KeyBackTab | KeyBackspace | KeyDelete
  | KeyLeft | KeyRight | KeyUp | KeyDown | KeyHome | KeyEnd | KeyPageUp | KeyPageDown
  | KeyF "8 word" | KeyNull

type_synonym modifiers = "8 word"

definition mod_none :: modifiers where "mod_none = 0"
definition mod_shift :: modifiers where "mod_shift = 1"
definition mod_control :: modifiers where "mod_control = 2"
definition mod_alt :: modifiers where "mod_alt = 4"
definition mod_super :: modifiers where "mod_super = 8"

definition mod_contains :: "modifiers \<Rightarrow> modifiers \<Rightarrow> bool" where
  "mod_contains m flag \<longleftrightarrow> and m flag = flag"

record key_event =
  key_code :: key_code
  key_modifiers :: modifiers

definition key_event_new :: "key_code \<Rightarrow> modifiers \<Rightarrow> key_event" where
  "key_event_new code mods = \<lparr>key_code = code, key_modifiers = mods\<rparr>"

section \<open>The text of keys\<close>

definition key_to_char :: "key_event \<Rightarrow> rchar option" where
  "key_to_char event =
     (case key_code event of
        KeyChar c \<Rightarrow>
          if mod_contains (key_modifiers event) mod_control
          then let c = to_ascii_lowercase c
               in if 97 \<le> c \<and> c \<le> 122 \<or> c \<in> set (rs ''[]^_'') \<or> c = 92
                  then Some (c mod 32) else None
          else Some c
      | KeyEsc \<Rightarrow> Some 27
      | KeyEnter \<Rightarrow> Some 13
      | KeyTab \<Rightarrow> Some 9
      | KeyBackspace \<Rightarrow> Some 127
      | _ \<Rightarrow> None)"

definition keys_to_text :: "key_event list \<Rightarrow> rstr" where
  "keys_to_text events = List.map_filter key_to_char events"

definition char_to_key :: "rchar \<Rightarrow> key_event" where
  "char_to_key c =
     (if c = 27 then key_event_new KeyEsc mod_none
      else if c = 13 \<or> c = 10 then key_event_new KeyEnter mod_none
      else if c = 9 then key_event_new KeyTab mod_none
      else if c = 127 \<or> c = 8 then key_event_new KeyBackspace mod_none
      else if 1 \<le> c \<and> c \<le> 26 then key_event_new (KeyChar (c + 97 - 1)) mod_control
      else if 28 \<le> c \<and> c \<le> 31 then key_event_new (KeyChar (c + 64)) mod_control
      else key_event_new (KeyChar c) mod_none)"

definition text_to_keys :: "rstr \<Rightarrow> key_event list" where
  "text_to_keys text = map char_to_key text"

section \<open>The macro manager\<close>

record recorded_keys =
  rk_events :: "key_event list"
  rk_text :: rstr

record macro_manager =
  mm_macros :: "rchar \<rightharpoonup> recorded_keys"
  mm_recording :: "rchar option"
  mm_current :: "key_event list"
  mm_last_played :: "rchar option"
  mm_aborted :: bool

definition macro_manager_new :: macro_manager where
  "macro_manager_new = \<lparr>mm_macros = Map.empty, mm_recording = None, mm_current = [],
     mm_last_played = None, mm_aborted = False\<rparr>"

definition macro_start_recording :: "macro_manager \<Rightarrow> rchar \<Rightarrow> macro_manager \<times> bool" where
  "macro_start_recording mm register =
     (if is_ascii_alphabetic register
      then (mm\<lparr>mm_recording := Some register, mm_current := []\<rparr>, True)
      else (mm, False))"

definition macro_stop_recording ::
  "macro_manager \<Rightarrow> macro_manager \<times> (rchar \<times> key_event list) option" where
  "macro_stop_recording mm =
     (case mm_recording mm of
        None \<Rightarrow> (mm, None)
      | Some register \<Rightarrow>
          (mm\<lparr>mm_recording := None, mm_current := []\<rparr>, Some (register, mm_current mm)))"

definition macro_record_event :: "macro_manager \<Rightarrow> key_event \<Rightarrow> macro_manager" where
  "macro_record_event mm event =
     (if mm_recording mm \<noteq> None then mm\<lparr>mm_current := mm_current mm @ [event]\<rparr> else mm)"

definition macro_recorded_keys :: "macro_manager \<Rightarrow> rchar \<Rightarrow> rstr \<Rightarrow> key_event list option" where
  "macro_recorded_keys mm register text =
     (case mm_macros mm register of
        Some r \<Rightarrow> if rk_text r = text then Some (rk_events r) else None
      | None \<Rightarrow> None)"

definition macro_remember ::
  "macro_manager \<Rightarrow> rchar \<Rightarrow> key_event list \<Rightarrow> rstr \<Rightarrow> macro_manager" where
  "macro_remember mm register events text =
     mm\<lparr>mm_macros := (mm_macros mm)(register \<mapsto> \<lparr>rk_events = events, rk_text = text\<rparr>)\<rparr>"

definition macro_set_last_played :: "macro_manager \<Rightarrow> rchar \<Rightarrow> macro_manager" where
  "macro_set_last_played mm register = mm\<lparr>mm_last_played := Some register\<rparr>"

definition macro_clear :: "macro_manager \<Rightarrow> macro_manager" where
  "macro_clear mm = mm\<lparr>mm_macros := Map.empty, mm_recording := None, mm_current := [],
     mm_last_played := None, mm_aborted := False\<rparr>"

definition macro_signal_abort :: "macro_manager \<Rightarrow> macro_manager" where
  "macro_signal_abort mm = mm\<lparr>mm_aborted := True\<rparr>"

definition macro_clear_abort :: "macro_manager \<Rightarrow> macro_manager" where
  "macro_clear_abort mm = mm\<lparr>mm_aborted := False\<rparr>"

section \<open>Macros in the editor\<close>

text \<open>The fields of \<open>Editor\<close> the macro commands use; \<open>'e\<close> is the rest of it.\<close>

record ('b, 'e) macro_editor =
  me_macros :: macro_manager
  me_registers :: "'b register_manager"
  me_rest :: 'e

definition get_macro ::
  "'b clipboard_backend \<Rightarrow> ('b, 'e) macro_editor \<Rightarrow> rchar
    \<Rightarrow> key_event list option \<times> ('b, 'e) macro_editor" where
  "get_macro ops ed register =
     (let (text, regs) = register_get ops (me_registers ed) (Some register);
          ed = ed\<lparr>me_registers := regs\<rparr>
      in if text = [] then (None, ed)
         else (Some (case macro_recorded_keys (me_macros ed) register text of
                       Some events \<Rightarrow> events | None \<Rightarrow> text_to_keys text), ed))"

definition stop_macro_recording ::
  "'b clipboard_backend \<Rightarrow> ('b, 'e) macro_editor \<Rightarrow> ('b, 'e) macro_editor" where
  "stop_macro_recording ops ed =
     (case macro_stop_recording (me_macros ed) of
        (mm, None) \<Rightarrow> ed\<lparr>me_macros := mm\<rparr>
      | (mm, Some (register, events)) \<Rightarrow>
          (let ed = ed\<lparr>me_macros := mm\<rparr>;
               name = to_ascii_lowercase register;
               (keys, ed) = (if is_ascii_uppercase register
                             then (case get_macro ops ed name of
                                     (Some ks, ed) \<Rightarrow> (ks, ed) | (None, ed) \<Rightarrow> ([], ed))
                             else ([], ed));
               ed = ed\<lparr>me_registers := register_set_with_type ops (me_registers ed) (Some register)
                          (keys_to_text events) Character\<rparr>;
               (text, regs) = register_get ops (me_registers ed) (Some name)
           in ed\<lparr>me_registers := regs,
                 me_macros := macro_remember (me_macros ed) name (keys @ events) text\<rparr>))"

text \<open>The inner loops of \<open>play_macro\<close>: keys until one fails or signals an abort.\<close>

type_synonym ('b, 'e, 'x) key_handler =
  "('b, 'e) macro_editor \<Rightarrow> key_event \<Rightarrow> ('b, 'e) macro_editor \<times> 'x option"

fun play_keys ::
  "('b, 'e, 'x) key_handler \<Rightarrow> ('b, 'e) macro_editor \<Rightarrow> key_event list
    \<Rightarrow> ('b, 'e) macro_editor \<times> ('x + bool)" where
  "play_keys handle ed [] = (ed, Inr True)"
| "play_keys handle ed (k # ks) =
     (case handle ed k of
        (ed', Some err) \<Rightarrow> (ed', Inl err)
      | (ed', None) \<Rightarrow> if mm_aborted (me_macros ed') then (ed', Inr False) else play_keys handle ed' ks)"

fun play_count ::
  "('b, 'e, 'x) key_handler \<Rightarrow> ('b, 'e) macro_editor \<Rightarrow> key_event list \<Rightarrow> nat
    \<Rightarrow> ('b, 'e) macro_editor \<times> 'x option" where
  "play_count handle ed ks 0 = (ed, None)"
| "play_count handle ed ks (Suc n) =
     (case play_keys handle ed ks of
        (ed', Inl err) \<Rightarrow> (ed', Some err)
      | (ed', Inr False) \<Rightarrow> (ed', None)
      | (ed', Inr True) \<Rightarrow> play_count handle ed' ks n)"

definition with_registers_clipboard ::
  "('b clipboard \<Rightarrow> 'b clipboard) \<Rightarrow> ('b, 'e) macro_editor \<Rightarrow> ('b, 'e) macro_editor" where
  "with_registers_clipboard f ed =
     ed\<lparr>me_registers := (me_registers ed)\<lparr>reg_clipboard := f (reg_clipboard (me_registers ed))\<rparr>\<rparr>"

text \<open>
  \<open>play_macro\<close>: \<open>None\<close> is the panic of an unbalanced clipboard scope, which needs a handler that
  closes scopes it did not open.
\<close>

definition play_macro ::
  "'b clipboard_backend \<Rightarrow> ('b, 'e, 'x) key_handler \<Rightarrow> ('b, 'e) macro_editor \<Rightarrow> rchar \<Rightarrow> nat
    \<Rightarrow> (('b, 'e) macro_editor \<times> 'x option) option" where
  "play_macro ops handle ed register count =
     (case get_macro ops ed register of
        (None, ed) \<Rightarrow> Some (ed, None)
      | (Some events, ed) \<Rightarrow>
          (let ed = with_registers_clipboard clipboard_begin_execution ed;
               ed = ed\<lparr>me_macros := macro_clear_abort (me_macros ed)\<rparr>;
               (ed, result) = play_count handle ed events count;
               ed = ed\<lparr>me_macros := macro_clear_abort (me_macros ed)\<rparr>
           in case clipboard_end_execution ops (reg_clipboard (me_registers ed)) of
                None \<Rightarrow> None
              | Some cb \<Rightarrow> Some (with_registers_clipboard (\<lambda>_. cb) ed, result)))"

section \<open>Lemmas\<close>

definition normal_key_char :: "rchar \<Rightarrow> rchar" where
  "normal_key_char c = (if c = 10 then 13 else if c = 8 then 127 else c)"

lemma mod_contains_none [simp]: "\<not> mod_contains mod_none mod_control"
  by (simp add: mod_contains_def mod_none_def mod_control_def)

lemma mod_contains_self [simp]: "mod_contains mod_control mod_control"
  by (simp add: mod_contains_def)

lemma key_to_char_of_char: "key_to_char (char_to_key c) = Some (normal_key_char c)"
proof -
  have "(96 + c) mod 32 = c" if "c \<le> 26"
    using that by (simp add: mod_add_left_eq [symmetric, of 96 c 32])
  moreover have "(c + 64) mod 32 = c" "c + 64 \<in> {92, 93, 94, 95}" if "28 \<le> c" "c \<le> 31"
    using that by (auto simp: mod_add_right_eq [symmetric, of c 64 32])
  ultimately show ?thesis
    by (auto simp: key_to_char_def char_to_key_def key_event_new_def normal_key_char_def
        to_ascii_lowercase_def is_ascii_uppercase_def Let_def)
qed

lemma macro_record_run:
  "mm_recording mm = Some r \<Longrightarrow>
   fold (\<lambda>e mm. macro_record_event mm e) es mm = mm\<lparr>mm_current := mm_current mm @ es\<rparr>"
  by (induction es arbitrary: mm) (auto simp: macro_record_event_def)

lemma register_get_value: "register_get ops m r = (fst (register_value ops m r), snd (register_get ops m r))"
  by (simp add: register_get_eq register_value_def)

lemma register_get_letter:
  assumes "is_ascii_alphabetic c"
  shows "register_get ops m (Some c) = (fst (register_value ops m (Some c)), m)"
proof -
  have "c \<notin> {34, 48, 37, 35, 46, 58, 47, 43, 42, 95, 45}" "\<not> is_ascii_digit c"
    using assms by (auto simp: ascii_defs)
  then show ?thesis
    by (simp add: register_get_def register_value_Some content_value_def Let_def split: option.split)
qed

lemma get_macro_letter:
  assumes "is_ascii_alphabetic c"
  shows "get_macro ops ed c =
     (let text = fst (register_value ops (me_registers ed) (Some c)) in
      if text = [] then None
      else Some (case macro_recorded_keys (me_macros ed) c text of
                   Some events \<Rightarrow> events | None \<Rightarrow> text_to_keys text), ed)"
  by (simp add: get_macro_def register_get_letter [OF assms] Let_def)

lemma lowercase_alphabetic: "is_ascii_lowercase c \<Longrightarrow> is_ascii_alphabetic c"
  by (simp add: is_ascii_alphabetic_def)

lemma to_lower_alphabetic:
  "is_ascii_alphabetic c \<Longrightarrow> is_ascii_lowercase (to_ascii_lowercase c)"
  by (auto simp: is_ascii_alphabetic_def)

text \<open>What stopping a recording leaves in the register and in the manager.\<close>

lemma stop_recording_eq:
  assumes "mm_recording (me_macros ed) = Some r" and "is_ascii_alphabetic r"
  shows "stop_macro_recording ops ed =
     (let name = to_ascii_lowercase r;
          mm = (me_macros ed)\<lparr>mm_recording := None, mm_current := []\<rparr>;
          old = (if is_ascii_uppercase r
                 then (case fst (get_macro ops ed name) of Some ks \<Rightarrow> ks | None \<Rightarrow> []) else []);
          events = mm_current (me_macros ed);
          regs = register_set_with_type ops (me_registers ed) (Some r) (keys_to_text events) Character
      in ed\<lparr>me_registers := regs,
            me_macros := macro_remember mm name (old @ events)
              (fst (register_value ops regs (Some name)))\<rparr>)"
  using assms to_lower_alphabetic [OF assms(2)]
  by (simp add: stop_macro_recording_def macro_stop_recording_def register_get_letter
      lowercase_alphabetic get_macro_letter macro_recorded_keys_def Let_def split: option.split)

lemma get_macro_after_stop:
  assumes "mm_recording (me_macros ed) = Some r" and "is_ascii_alphabetic r"
    and "fst (register_value ops (me_registers (stop_macro_recording ops ed))
           (Some (to_ascii_lowercase r))) \<noteq> []"
  shows "fst (get_macro ops (stop_macro_recording ops ed) (to_ascii_lowercase r)) =
     Some ((if is_ascii_uppercase r
            then (case fst (get_macro ops ed (to_ascii_lowercase r)) of Some ks \<Rightarrow> ks | None \<Rightarrow> [])
            else []) @ mm_current (me_macros ed))"
  using assms(3) lowercase_alphabetic [OF to_lower_alphabetic [OF assms(2)]]
  by (simp add: stop_recording_eq [OF assms(1,2)] get_macro_letter macro_recorded_keys_def
      macro_remember_def Let_def)

text \<open>Playback runs a prefix of the keys, and all of them unless one fails or aborts.\<close>

abbreviation run_keys :: "('b, 'e, 'x) key_handler \<Rightarrow> ('b, 'e) macro_editor \<Rightarrow> key_event list
    \<Rightarrow> ('b, 'e) macro_editor" where
  "run_keys handle \<equiv> foldl (\<lambda>ed k. fst (handle ed k))"

lemma play_keys_prefix:
  "\<exists>n \<le> length ks. fst (play_keys handle ed ks) = run_keys handle ed (take n ks) \<and>
     (snd (play_keys handle ed ks) = Inr True \<longrightarrow> n = length ks)"
proof (induction handle ed ks rule: play_keys.induct)
  case (1 handle ed)
  then show ?case by simp
next
  case (2 handle ed k ks)
  obtain ed' r where h: "handle ed k = (ed', r)" by fastforce
  show ?case
  proof (cases "r = None \<and> \<not> mm_aborted (me_macros ed')")
    case True
    then obtain n where "n \<le> length ks"
      "fst (play_keys handle ed' ks) = run_keys handle ed' (take n ks)"
      "snd (play_keys handle ed' ks) = Inr True \<longrightarrow> n = length ks"
      using "2.IH" [OF h [symmetric]] by auto
    then show ?thesis
      using True h by (intro exI [of _ "Suc n"]) auto
  next
    case False
    then show ?thesis
      using h by (intro exI [of _ 1]) (auto split: option.split)
  qed
qed

lemma play_count_prefix:
  "\<exists>n \<le> count * length ks.
     fst (play_count handle ed ks count) =
       run_keys handle ed (take n (concat (replicate count ks)))"
proof (induction count arbitrary: ed)
  case 0
  then show ?case by simp
next
  case (Suc count)
  obtain ed' r where p: "play_keys handle ed ks = (ed', r)" by fastforce
  obtain n where n: "n \<le> length ks" "ed' = run_keys handle ed (take n ks)" "r = Inr True \<longrightarrow> n = length ks"
    using play_keys_prefix [of ks handle ed] p by auto
  show ?case
  proof (cases "r = Inr True")
    case True
    obtain m where "m \<le> count * length ks"
      "fst (play_count handle ed' ks count) = run_keys handle ed' (take m (concat (replicate count ks)))"
      using Suc.IH by blast
    then show ?thesis
      using True n p by (intro exI [of _ "length ks + m"]) simp
  next
    case False
    then have "fst (play_count handle ed ks (Suc count)) = ed'"
      using p by (auto split: sum.splits bool.splits)
    then show ?thesis
      using n by (intro exI [of _ n]) (auto simp: take_append)
  qed
qed

text \<open>With a handler that reports nothing and never aborts, every key is played.\<close>

lemma play_keys_quiet:
  assumes "\<And>ed k. snd (handle ed k) = None" and "\<And>ed k. \<not> mm_aborted (me_macros (fst (handle ed k)))"
  shows "play_keys handle ed ks = (run_keys handle ed ks, Inr True)"
proof (induction ks arbitrary: ed)
  case Nil
  then show ?case by simp
next
  case (Cons k ks)
  show ?case
    using assms [of ed k] Cons.IH by (cases "handle ed k") auto
qed

lemma play_count_quiet:
  assumes "\<And>ed k. snd (handle ed k) = None" and "\<And>ed k. \<not> mm_aborted (me_macros (fst (handle ed k)))"
  shows "play_count handle ed ks count = (run_keys handle ed (concat (replicate count ks)), None)"
  by (induction count arbitrary: ed) (simp_all add: play_keys_quiet [OF assms])

definition record_macro ::
  "'b clipboard_backend \<Rightarrow> ('b, 'e) macro_editor \<Rightarrow> rchar \<Rightarrow> key_event list \<Rightarrow> ('b, 'e) macro_editor" where
  "record_macro ops ed r es =
     stop_macro_recording ops
       (ed\<lparr>me_macros := fold (\<lambda>e mm. macro_record_event mm e) es
                          (fst (macro_start_recording (me_macros ed) r))\<rparr>)"

lemma append_text_nonempty: "text \<noteq> [] \<Longrightarrow> reg_text (register_content_append c text ty) \<noteq> []"
  by (simp add: register_content_append_def Let_def)

lemma letter_set_value:
  assumes "is_ascii_alphabetic r"
  shows "register_value ops (register_set_with_type ops m (Some r) text ty) (Some (to_ascii_lowercase r)) =
     (if is_ascii_uppercase r
      then (case registers (storage m) (to_ascii_lowercase r) of
              Some c \<Rightarrow> (reg_text (register_content_append c text ty), reg_type (register_content_append c text ty))
            | None \<Rightarrow> (text, ty))
      else (text, ty))"
proof -
  have "r \<notin> {34, 48, 37, 35, 46, 58, 47, 43, 42, 95, 45}"
       "to_ascii_lowercase r \<notin> {34, 48, 37, 35, 46, 58, 47, 43, 42, 95, 45}"
       "\<not> is_ascii_digit (to_ascii_lowercase r)"
    using assms by (auto simp: ascii_defs to_ascii_lowercase_def)
  moreover have "\<not> is_ascii_uppercase r \<Longrightarrow> is_ascii_lowercase r \<and> to_ascii_lowercase r = r"
    using assms by (auto simp: is_ascii_alphabetic_def)
  moreover have "is_ascii_uppercase r \<Longrightarrow> \<not> is_ascii_lowercase r"
    using ascii_disjoint(1) by blast
  ultimately show ?thesis
    by (auto simp: register_set_with_type_def register_value_Some register_is_read_only_def
        content_value_def register_content_new_def Let_def split: option.split)
qed

lemma get_macro_same_registers:
  assumes "is_ascii_alphabetic c" and "me_registers ed' = me_registers ed"
    and "mm_macros (me_macros ed') = mm_macros (me_macros ed)"
  shows "fst (get_macro ops ed' c) = fst (get_macro ops ed c)"
  using assms(2,3) by (simp add: get_macro_letter [OF assms(1)] macro_recorded_keys_def Let_def)

section \<open>Properties\<close>

text \<open>
  C3. The text a register holds and the keys it types correspond: typing a text and recording the
  keys gives the text back, up to the two characters that stand for the same key as another (a
  line feed is typed as Enter, a backspace as Backspace).
\<close>

theorem text_keys_roundtrip: "keys_to_text (text_to_keys t) = map normal_key_char t"
  unfolding keys_to_text_def text_to_keys_def
  by (induction t) (auto simp: List.map_filter_def key_to_char_of_char)

text \<open>
  What was recorded is what is replayed: after recording keys into a register, the macro of
  that register is exactly those keys, the ones without a character included; recording under the
  upper-case name appends them to the macro that was there.
\<close>

theorem recorded_macro_replays:
  assumes "is_ascii_alphabetic r" and "keys_to_text es \<noteq> []"
  shows "fst (get_macro ops (record_macro ops ed r es) (to_ascii_lowercase r)) =
     Some ((if is_ascii_uppercase r
            then (case fst (get_macro ops ed (to_ascii_lowercase r)) of Some ks \<Rightarrow> ks | None \<Rightarrow> [])
            else []) @ es)"
proof -
  let ?mm = "(me_macros ed)\<lparr>mm_recording := Some r, mm_current := es\<rparr>"
  let ?ed = "ed\<lparr>me_macros := ?mm\<rparr>"
  have rec: "record_macro ops ed r es = stop_macro_recording ops ?ed"
    using assms(1) by (simp add: record_macro_def macro_start_recording_def macro_record_run)
  have low: "is_ascii_alphabetic (to_ascii_lowercase r)"
    using assms(1) by (simp add: lowercase_alphabetic to_lower_alphabetic)
  have "fst (register_value ops (me_registers (stop_macro_recording ops ?ed))
           (Some (to_ascii_lowercase r))) \<noteq> []"
    using assms
    by (simp add: stop_recording_eq [of ?ed r] letter_set_value append_text_nonempty Let_def
        split: option.split)
  then show ?thesis
    using get_macro_after_stop [of ?ed r ops] assms(1) get_macro_same_registers [OF low, of ?ed ed ops]
    by (simp add: rec)
qed

definition demo_editor :: "(rstr option, unit) macro_editor" where
  "demo_editor = \<lparr>me_macros = macro_manager_new, me_registers = register_manager_new None, me_rest = ()\<rparr>"

theorem recorded_macro_replays_witness:
  "fst (get_macro memory_clipboard
     (record_macro memory_clipboard demo_editor (rc CHR ''q'')
        [key_event_new (KeyChar (rc CHR ''x'')) mod_none, key_event_new KeyDown mod_none])
     (to_ascii_lowercase (rc CHR ''q''))) =
   Some ([] @ [key_event_new (KeyChar (rc CHR ''x'')) mod_none, key_event_new KeyDown mod_none])"
  using recorded_macro_replays [of "rc CHR ''q''" "[key_event_new (KeyChar (rc CHR ''x'')) mod_none,
      key_event_new KeyDown mod_none]" memory_clipboard demo_editor]
  by (simp add: is_ascii_alphabetic_def is_ascii_lowercase_def is_ascii_uppercase_def
      keys_to_text_def List.map_filter_def key_to_char_def key_event_new_def)

text \<open>
  A macro of keys that have no character is lost: recording only such keys (the arrows, say)
  leaves the register empty, and an empty register has no macro to play.
\<close>

theorem keyless_macro_is_lost:
  assumes "is_ascii_lowercase r" and "keys_to_text es = []"
  shows "fst (get_macro ops (record_macro ops ed r es) r) = None"
proof -
  let ?mm = "(me_macros ed)\<lparr>mm_recording := Some r, mm_current := es\<rparr>"
  let ?ed = "ed\<lparr>me_macros := ?mm\<rparr>"
  have rec: "record_macro ops ed r es = stop_macro_recording ops ?ed"
    using assms(1)
    by (simp add: record_macro_def macro_start_recording_def macro_record_run lowercase_alphabetic)
  have "\<not> is_ascii_uppercase r"
    using assms(1) ascii_disjoint(1) by blast
  then show ?thesis
    using assms letter_set_value [OF lowercase_alphabetic, of r ops "me_registers ed" "[]" Character]
    by (simp add: rec stop_recording_eq [of ?ed r] get_macro_letter lowercase_alphabetic Let_def)
qed

theorem keyless_macro_is_lost_witness:
  "fst (get_macro memory_clipboard
     (record_macro memory_clipboard demo_editor (rc CHR ''q'') [key_event_new KeyDown mod_none])
     (rc CHR ''q'')) = None"
  by (rule keyless_macro_is_lost)
    (simp_all add: is_ascii_lowercase_def keys_to_text_def List.map_filter_def key_to_char_def
      key_event_new_def)

text \<open>A handler that reports no error and never signals an abort.\<close>

definition quiet_handler :: "('b, 'e, 'x) key_handler \<Rightarrow> bool" where
  "quiet_handler handle \<longleftrightarrow>
     (\<forall>ed k. snd (handle ed k) = None \<and> \<not> mm_aborted (me_macros (fst (handle ed k))))"

lemma play_count_dispatches:
  "\<exists>n \<le> count * length ks.
     fst (play_count handle ed ks count) =
       run_keys handle ed (take n (concat (replicate count ks))) \<and>
     (quiet_handler handle \<longrightarrow> n = count * length ks)"
proof (cases "quiet_handler handle")
  case True
  then have "play_count handle ed ks count = (run_keys handle ed (concat (replicate count ks)), None)"
    by (intro play_count_quiet) (auto simp: quiet_handler_def)
  moreover have "length (concat (replicate count ks)) = count * length ks"
    by (induction count) auto
  ultimately show ?thesis by (intro exI [of _ "count * length ks"]) simp
next
  case False
  then show ?thesis using play_count_prefix by blast
qed

abbreviation scope_depth :: "('b, 'e) macro_editor \<Rightarrow> nat" where
  "scope_depth ed \<equiv> execution_depth (cb_state (reg_clipboard (me_registers ed)))"

text \<open>
  Playing a macro is total and bounded: with a handler that keeps clipboard scopes balanced it
  returns without a panic, the keys dispatched are a prefix of the macro repeated \<open>count\<close> times
  (all of them when no key fails or aborts), and afterwards the abort flag is clear and the
  clipboard scope that playback opened is closed.
\<close>

theorem play_macro_total:
  assumes "\<And>ed k. scope_depth (fst (handle ed k)) = scope_depth ed"
    and "get_macro ops ed r = (Some ks, ed0)"
  shows "\<exists>ed' res n. play_macro ops handle ed r count = Some (ed', res) \<and>
           \<not> mm_aborted (me_macros ed') \<and> scope_depth ed' = scope_depth ed0 \<and>
           n \<le> count * length ks \<and> (quiet_handler handle \<longrightarrow> n = count * length ks) \<and>
           me_rest ed' = me_rest (run_keys handle
             ((with_registers_clipboard clipboard_begin_execution ed0)
                \<lparr>me_macros := macro_clear_abort (me_macros ed0)\<rparr>)
             (take n (concat (replicate count ks))))"
proof -
  let ?ed1 = "(with_registers_clipboard clipboard_begin_execution ed0)
                \<lparr>me_macros := macro_clear_abort (me_macros ed0)\<rparr>"
  obtain ed2 res where pc: "play_count handle ?ed1 ks count = (ed2, res)" by fastforce
  obtain n where n: "n \<le> count * length ks" "quiet_handler handle \<longrightarrow> n = count * length ks"
      "ed2 = run_keys handle ?ed1 (take n (concat (replicate count ks)))"
    using play_count_dispatches [of count ks handle ?ed1] pc by auto
  have keep: "scope_depth (run_keys handle e xs) = scope_depth e" for e xs
    using assms(1) by (induction xs arbitrary: e) auto
  have depth: "scope_depth ed2 = Suc (scope_depth ed0)"
    using n(3) keep by (simp add: with_registers_clipboard_def clipboard_begin_execution_def Let_def)
  obtain cb where cb: "clipboard_end_execution ops (reg_clipboard (me_registers ed2)) = Some cb"
      "execution_depth (cb_state cb) = scope_depth ed0"
    using depth by (auto simp: clipboard_end_execution_def clipboard_flush_def Let_def)
  let ?fin = "with_registers_clipboard (\<lambda>_. cb) (ed2\<lparr>me_macros := macro_clear_abort (me_macros ed2)\<rparr>)"
  have "play_macro ops handle ed r count = Some (?fin, res)"
    using assms(2) pc cb by (simp add: play_macro_def with_registers_clipboard_def Let_def)
  moreover have "\<not> mm_aborted (me_macros ?fin)" "scope_depth ?fin = scope_depth ed0"
    and "me_rest ?fin = me_rest ed2"
    using cb(2) by (simp_all add: with_registers_clipboard_def macro_clear_abort_def)
  ultimately show ?thesis using n by blast
qed

definition demo_handler :: "(rstr option, rstr, unit) key_handler" where
  "demo_handler ed k = (ed\<lparr>me_rest := me_rest ed @ keys_to_text [k]\<rparr>, None)"

definition demo_typed :: "(rstr option, rstr) macro_editor" where
  "demo_typed = \<lparr>me_macros = macro_manager_new,
     me_registers = register_set memory_clipboard (register_manager_new None) (Some (rc CHR ''q'')) (rs ''ab''),
     me_rest = []\<rparr>"

theorem play_macro_total_witness:
  "\<exists>ed' res n. play_macro memory_clipboard demo_handler demo_typed (rc CHR ''q'') 2 = Some (ed', res) \<and>
     \<not> mm_aborted (me_macros ed') \<and> n \<le> 2 * length (text_to_keys (rs ''ab'')) \<and>
     me_rest ed' = me_rest (run_keys demo_handler
       ((with_registers_clipboard clipboard_begin_execution demo_typed)
          \<lparr>me_macros := macro_clear_abort (me_macros demo_typed)\<rparr>)
       (take n (concat (replicate 2 (text_to_keys (rs ''ab''))))))"
proof -
  have g: "get_macro memory_clipboard demo_typed (rc CHR ''q'') = (Some (text_to_keys (rs ''ab'')), demo_typed)"
    by (simp add: get_macro_def demo_typed_def register_get_def register_set_def
        register_set_with_type_def register_manager_new_def register_content_new_def
        register_is_read_only_def macro_recorded_keys_def macro_manager_new_def
        is_ascii_lowercase_def is_ascii_digit_def Let_def)
  show ?thesis
    using play_macro_total [of demo_handler, OF _ g, of 2] by (fastforce simp: demo_handler_def)
qed

end
