(* ===== verification/Edits.thy ===== *)
theory Edits
  imports Prelude
begin

text \<open>
  Mechanical edits (ovim-core/src/edit.rs) and the ring of recent edit groups
  (ovim-core/src/edit_log.rs). An edit names an absolute character offset; \<open>edit_text_apply\<close> is its
  meaning on a plain text, which the buffer's \<open>Edit::apply\<close> refines (theory TextBuffers).
\<close>

section \<open>Edits\<close>

datatype edit = Insert (edit_offset: nat) (edit_text: rstr) | Delete (edit_offset: nat) (edit_text: rstr)

fun edit_inverse :: "edit \<Rightarrow> edit" where
  "edit_inverse (Insert offset t) = Delete offset t"
| "edit_inverse (Delete offset t) = Insert offset t"

text \<open>
  \<open>surviving_inserted_text\<close>: a span of optional characters, rebased to the smallest offset, in
  which each edit is replayed. \<open>resize_none\<close> is \<open>Vec::resize(n, None)\<close> to at least the length.
\<close>

definition resize_none :: "rchar option list \<Rightarrow> nat \<Rightarrow> rchar option list" where
  "resize_none span n = span @ replicate (n - length span) None"

fun surviving_step :: "nat \<Rightarrow> rchar option list \<Rightarrow> edit \<Rightarrow> rchar option list" where
  "surviving_step origin span (Insert offset t) =
     (let start = offset - origin; span = resize_none span start
      in take start span @ map Some t @ drop start span)"
| "surviving_step origin span (Delete offset t) =
     (let start = offset - origin; last = start + length t; span = resize_none span last
      in take start span @ drop last span)"

definition surviving_inserted_text :: "edit list \<Rightarrow> rstr" where
  "surviving_inserted_text edits =
     (if edits = [] then []
      else let origin = Min (set (map edit_offset edits))
           in List.map_filter id (foldl (surviving_step origin) [] edits))"

section \<open>The edit log\<close>

record edit_log =
  log_entries :: "(nat \<times> edit list) list"
  log_capacity :: nat

definition default_capacity :: nat where "default_capacity = 64"

definition edit_log_with_capacity :: "nat \<Rightarrow> edit_log" where
  "edit_log_with_capacity capacity = \<lparr>log_entries = [], log_capacity = max capacity 1\<rparr>"

definition edit_log_new :: edit_log where
  "edit_log_new = edit_log_with_capacity default_capacity"

definition edit_log_push :: "edit_log \<Rightarrow> nat \<Rightarrow> edit list \<Rightarrow> edit_log" where
  "edit_log_push log post_version edits =
     (if edits = [] then log
      else let es = log_entries log;
               es = (if length es = log_capacity log then tl es else es)
           in log\<lparr>log_entries := es @ [(post_version, edits)]\<rparr>)"

definition edit_log_edits_since :: "edit_log \<Rightarrow> nat \<Rightarrow> edit list option" where
  "edit_log_edits_since log base_version =
     (case log_entries log of
        [] \<Rightarrow> Some []
      | (oldest_post, oldest_edits) # _ \<Rightarrow>
          (let oldest_pre = oldest_post - length oldest_edits
           in if base_version < oldest_pre then None
              else Some (concat (map (\<lambda>(post_version, edits).
                     if post_version > base_version then edits else []) (log_entries log)))))"

definition edit_log_clear :: "edit_log \<Rightarrow> edit_log" where
  "edit_log_clear log = log\<lparr>log_entries := []\<rparr>"

definition edit_log_latest_version :: "edit_log \<Rightarrow> nat option" where
  "edit_log_latest_version log =
     (if log_entries log = [] then None else Some (fst (last (log_entries log))))"

section \<open>Edits on a plain text\<close>

text \<open>
  The meaning of an edit on a text (of characters, or of tagged characters): offsets are clamped
  to the end, as the buffer clamps them. \<open>edit_fits\<close>: the edit is one the text can have seen.
\<close>

fun text_edit :: "(rchar \<Rightarrow> 'a) \<Rightarrow> 'a list \<Rightarrow> edit \<Rightarrow> 'a list" where
  "text_edit f s (Insert offset t) = (let pos = min offset (length s) in take pos s @ map f t @ drop pos s)"
| "text_edit f s (Delete offset t) = take offset s @ drop (offset + length t) s"

abbreviation edit_text_apply :: "rstr \<Rightarrow> edit \<Rightarrow> rstr" where
  "edit_text_apply \<equiv> text_edit (\<lambda>c. c)"

fun edit_fits :: "nat \<Rightarrow> edit \<Rightarrow> bool" where
  "edit_fits n (Insert offset t) \<longleftrightarrow> offset \<le> n"
| "edit_fits n (Delete offset t) \<longleftrightarrow> offset + length t \<le> n"

fun edit_valid :: "rstr \<Rightarrow> edit \<Rightarrow> bool" where
  "edit_valid s (Insert offset t) \<longleftrightarrow> offset \<le> length s"
| "edit_valid s (Delete offset t) \<longleftrightarrow> offset + length t \<le> length s \<and> take (length t) (drop offset s) = t"

fun edits_valid :: "rstr \<Rightarrow> edit list \<Rightarrow> bool" where
  "edits_valid s [] \<longleftrightarrow> True"
| "edits_valid s (e # es) \<longleftrightarrow> edit_valid s e \<and> edits_valid (edit_text_apply s e) es"

definition replay :: "rstr \<Rightarrow> edit list \<Rightarrow> rstr" where
  "replay s es = foldl edit_text_apply s es"

definition unreplay :: "rstr \<Rightarrow> edit list \<Rightarrow> rstr" where
  "unreplay s es = foldl edit_text_apply s (map edit_inverse (rev es))"

lemma replay_simps [simp]:
  "replay s [] = s" "replay s (e # es) = replay (edit_text_apply s e) es"
  "replay s (es @ es') = replay (replay s es) es'"
  by (simp_all add: replay_def)

lemma unreplay_simps [simp]:
  "unreplay s [] = s" "unreplay s (es @ [e]) = unreplay (edit_text_apply s (edit_inverse e)) es"
  by (simp_all add: unreplay_def)

lemma edits_valid_append [simp]:
  "edits_valid s (es @ es') \<longleftrightarrow> edits_valid s es \<and> edits_valid (replay s es) es'"
  by (induction es arbitrary: s) auto

lemma edit_inverse_inverse [simp]: "edit_inverse (edit_inverse e) = e"
  by (cases e) auto

lemma take_drop_shift: "take n (drop k s) @ drop (k + n) s = drop k s"
  by (metis append_take_drop_id drop_drop add.commute)

lemma edit_undo: "edit_valid s e \<Longrightarrow> edit_text_apply (edit_text_apply s e) (edit_inverse e) = s"
proof (cases e)
  case (Delete offset t)
  assume "edit_valid s e"
  with Delete have fit: "offset + length t \<le> length s" and t: "take (length t) (drop offset s) = t"
    by auto
  have "t @ drop (offset + length t) s = drop offset s"
    using take_drop_shift [of "length t" offset s] by (simp add: t)
  moreover have "min offset (length (take offset s @ drop (offset + length t) s)) = offset"
    using fit by simp
  ultimately show ?thesis
    using fit by (simp add: Delete Let_def)
qed (auto simp: Let_def min_def)

lemma edit_valid_inverse: "edit_valid s e \<Longrightarrow> edit_valid (edit_text_apply s e) (edit_inverse e)"
  by (cases e) (auto simp: Let_def min_def)

lemma unreplay_replay: "edits_valid s es \<Longrightarrow> unreplay (replay s es) es = s"
proof (induction es arbitrary: s rule: rev_induct)
  case (snoc e es)
  then show ?case by (simp add: edit_undo)
qed simp

section \<open>Lemmas on the surviving text\<close>

text \<open>
  The specification: replay the edits on a document whose original characters are unknown
  (\<open>None\<close>) and collect the known characters that are left.
\<close>

fun edits_fit :: "nat \<Rightarrow> edit list \<Rightarrow> bool" where
  "edits_fit n [] \<longleftrightarrow> True"
| "edits_fit n (Insert offset t # es) \<longleftrightarrow> offset \<le> n \<and> edits_fit (n + length t) es"
| "edits_fit n (Delete offset t # es) \<longleftrightarrow> offset + length t \<le> n \<and> edits_fit (n - length t) es"

definition tagged_replay :: "nat \<Rightarrow> edit list \<Rightarrow> rchar option list" where
  "tagged_replay n es = foldl (text_edit Some) (replicate n None) es"

text \<open>A span stands for a document: the \<open>o\<close> characters before it and those after it are unknown.\<close>

definition span_of :: "nat \<Rightarrow> rchar option list \<Rightarrow> rchar option list \<Rightarrow> bool" where
  "span_of org span doc \<longleftrightarrow>
     (\<exists>k. doc = replicate org None @ span @ replicate k None)"

lemma resize_none_span:
  assumes "span_of org span doc" and "org + n \<le> length doc"
  shows "span_of org (resize_none span n) doc"
proof -
  obtain k where k: "doc = replicate org None @ span @ replicate k None"
    using assms(1) by (auto simp: span_of_def)
  define d where "d = n - length span"
  have "d \<le> k" using assms(2) k by (simp add: d_def)
  then have "replicate k (None :: rchar option) = replicate d None @ replicate (k - d) None"
    by (metis le_add_diff_inverse replicate_add)
  then show ?thesis
    using k by (auto simp: span_of_def resize_none_def d_def [symmetric])
qed

lemma length_resize_none: "n \<le> length (resize_none span n)"
  by (simp add: resize_none_def)

lemma surviving_step_span:
  assumes "span_of org span doc" and "edit_fits (length doc) e" and "org \<le> edit_offset e"
  shows "span_of org (surviving_step org span e) (text_edit Some doc e)"
proof (cases e)
  case (Insert offset t)
  let ?start = "offset - org" let ?span = "resize_none span ?start"
  have "span_of org ?span doc"
    using assms Insert by (intro resize_none_span) auto
  then obtain k where k: "doc = replicate org None @ ?span @ replicate k None"
    by (auto simp: span_of_def)
  have "offset = org + ?start" "?start \<le> length ?span" "offset \<le> length doc"
    using assms(2,3) Insert length_resize_none [of ?start span] by auto
  then have "take offset doc = replicate org None @ take ?start ?span"
    and "drop offset doc = drop ?start ?span @ replicate k None"
    by (subst k, simp)+
  with Insert \<open>offset \<le> length doc\<close> show ?thesis
    by (auto simp: span_of_def Let_def min_def)
next
  case (Delete offset t)
  let ?start = "offset - org" let ?last = "?start + length t" let ?span = "resize_none span ?last"
  have "span_of org ?span doc"
    using assms Delete by (intro resize_none_span) auto
  then obtain k where k: "doc = replicate org None @ ?span @ replicate k None"
    by (auto simp: span_of_def)
  have "offset = org + ?start" "?last \<le> length ?span"
    using assms(3) Delete length_resize_none [of ?last span] by auto
  then have "take offset doc = replicate org None @ take ?start ?span"
    and "drop (offset + length t) doc = drop ?last ?span @ replicate k None"
    by (subst k, simp)+
  with Delete show ?thesis
    by (auto simp: span_of_def Let_def)
qed

lemma length_text_edit:
  "edit_fits (length doc) e \<Longrightarrow> length (text_edit f doc e) =
     (case e of Insert offset t \<Rightarrow> length doc + length t | Delete offset t \<Rightarrow> length doc - length t)"
  by (cases e) (auto simp: Let_def)

lemma edits_fit_Cons:
  "edits_fit n (e # es) \<Longrightarrow> length doc = n \<Longrightarrow>
   edit_fits n e \<and> edits_fit (length (text_edit f doc e)) es"
  by (cases e) (auto simp: length_text_edit simp del: text_edit.simps)

lemma surviving_fold_span:
  "span_of org span doc \<Longrightarrow> edits_fit (length doc) es \<Longrightarrow> \<forall>e \<in> set es. org \<le> edit_offset e \<Longrightarrow>
   span_of org (foldl (surviving_step org) span es) (foldl (text_edit Some) doc es)"
proof (induction es arbitrary: span doc)
  case (Cons e es)
  then show ?case
    using edits_fit_Cons [OF Cons.prems(2) refl, where f = Some] surviving_step_span by simp
qed simp

lemma map_filter_span: "span_of org span doc \<Longrightarrow> List.map_filter id doc = List.map_filter id span"
  by (auto simp: span_of_def List.map_filter_def)

section \<open>Lemmas on the edit log\<close>

text \<open>
  The abstract log: every group ever pushed, with the version before the first. Versions are
  contiguous: a group of \<open>n\<close> edits raises the version by \<open>n\<close>.
\<close>

fun contiguous :: "nat \<Rightarrow> (nat \<times> edit list) list \<Rightarrow> bool" where
  "contiguous v [] \<longleftrightarrow> True"
| "contiguous v ((p, es) # h) \<longleftrightarrow> es \<noteq> [] \<and> p = v + length es \<and> contiguous p h"

definition pushes :: "edit_log \<Rightarrow> (nat \<times> edit list) list \<Rightarrow> edit_log" where
  "pushes log h = foldl (\<lambda>log (v, es). edit_log_push log v es) log h"

definition edits_after :: "nat \<Rightarrow> (nat \<times> edit list) list \<Rightarrow> edit list" where
  "edits_after base h = concat (map (\<lambda>(v, es). if v > base then es else []) h)"

lemma edits_after_append [simp]: "edits_after base (h @ h') = edits_after base h @ edits_after base h'"
  by (simp add: edits_after_def)

lemma contiguous_append:
  "contiguous v (h @ h') \<longleftrightarrow> contiguous v h \<and> contiguous (if h = [] then v else fst (last h)) h'"
  by (induction v h rule: contiguous.induct) auto

lemma contiguous_ge: "contiguous v h \<Longrightarrow> (p, es) \<in> set h \<Longrightarrow> v < p"
proof (induction v h rule: contiguous.induct)
  case (2 v p' es' h)
  then show ?case by (cases "es' = []") fastforce+
qed simp

lemma contiguous_le_last: "contiguous v h \<Longrightarrow> (p, es) \<in> set h \<Longrightarrow> p \<le> fst (last h)"
proof (induction v h rule: contiguous.induct)
  case (2 v p' es' h)
  then show ?case
    using contiguous_ge [of p' h] by (cases "h = []") (auto dest: last_in_set less_imp_le, (metis
      last_in_set less_imp_le prod.collapse))
qed simp

lemma pushes_capacity: "log_capacity (pushes log h) = log_capacity log"
  by (induction h arbitrary: log) (auto simp: pushes_def edit_log_push_def Let_def)

text \<open>The ring holds the most recent groups, at most \<open>capacity\<close> of them.\<close>

lemma pushes_entries:
  assumes "\<forall>(v, es) \<in> set h. es \<noteq> []" and "log_capacity log > 0"
    and "length (log_entries log) \<le> log_capacity log"
  shows "log_entries (pushes log h) =
     drop (length (log_entries log @ h) - log_capacity log) (log_entries log @ h)"
  using assms
proof (induction h arbitrary: log)
  case Nil
  then show ?case by (simp add: pushes_def)
next
  case (Cons g h)
  obtain v es where g: "g = (v, es)" by fastforce
  let ?log = "edit_log_push log v es"
  have log: "log_entries ?log =
      drop (Suc (length (log_entries log)) - log_capacity log) (log_entries log @ [g])"
    using Cons.prems g by (auto simp: edit_log_push_def Let_def drop_Suc)
  have len: "length (log_entries ?log) \<le> log_capacity ?log" "log_capacity ?log = log_capacity log"
    using Cons.prems by (auto simp: log edit_log_push_def Let_def)
  have "log_entries (pushes ?log h) =
      drop (length (log_entries ?log @ h) - log_capacity ?log) (log_entries ?log @ h)"
    using Cons.IH [of ?log] Cons.prems len by auto
  also have "\<dots> = drop (length (log_entries log @ g # h) - log_capacity log) (log_entries log @ g # h)"
    using Cons.prems(2,3) len(2)
    by (cases "log_capacity log"; cases "length (log_entries log) = log_capacity log")
      (simp_all add: log add.commute)
  finally show ?case by (simp add: pushes_def g)
qed

lemma edits_since_kept:
  assumes cont: "contiguous v (h1 @ h2)" and "v \<le> base" and entries: "log_entries log = h2"
    and "h2 = [] \<Longrightarrow> h1 = []"
  shows "edit_log_edits_since log base =
     (if \<exists>g \<in> set h1. fst g > base then None else Some (edits_after base (h1 @ h2)))"
proof -
  let ?w = "if h1 = [] then v else fst (last h1)"
  have c: "contiguous v h1" "contiguous ?w h2"
    using cont by (auto simp: contiguous_append)
  have lost: "(\<exists>g \<in> set h1. fst g > base) \<longleftrightarrow> base < ?w"
  proof
    assume "\<exists>g \<in> set h1. fst g > base"
    then show "base < ?w"
      using contiguous_le_last [OF c(1)] by fastforce
  next
    assume "base < ?w"
    then show "\<exists>g \<in> set h1. fst g > base"
      using assms(2) by (cases "h1 = []") (auto intro: bexI [of _ "last h1"])
  qed
  then have early: "edits_after base h1 = []" if "\<not> base < ?w"
    using that by (auto simp: edits_after_def)
  show ?thesis
  proof (cases h2)
    case Nil
    with assms(4) entries show ?thesis
      by (simp add: edit_log_edits_since_def edits_after_def)
  next
    case (Cons g h3)
    then show ?thesis
      using c(2) entries lost early
      by (cases g) (auto simp: edit_log_edits_since_def edits_after_def Let_def)
  qed
qed

lemma contiguous_nonempty: "contiguous v h \<Longrightarrow> \<forall>(v, es) \<in> set h. es \<noteq> []"
  by (induction v h rule: contiguous.induct) auto

lemma edits_since_pushes:
  assumes "contiguous v h" and "v \<le> base"
  shows "edit_log_edits_since (pushes (edit_log_with_capacity c) h) base =
     (if \<exists>g \<in> set (take (length h - max c 1) h). fst g > base then None
      else Some (edits_after base h))"
proof -
  let ?log = "pushes (edit_log_with_capacity c) h" and ?n = "length h - max c 1"
  have "log_entries ?log = drop ?n h"
    using pushes_entries [of h "edit_log_with_capacity c"] contiguous_nonempty [OF assms(1)]
    by (simp add: edit_log_with_capacity_def)
  then show ?thesis
    using edits_since_kept [of v "take ?n h" "drop ?n h" base ?log] assms by auto
qed

section \<open>Properties\<close>

text \<open>
  C4. The text an insert session types (the register \<open>"."\<close>) is exactly the typed text that is
  still in the document when the session ends: for every sequence of edits that a document of
  \<open>n\<close> characters can have seen, it is what is left of the inserted characters after replaying the
  edits, in document order, and never an original character.
\<close>

theorem surviving_text_correct:
  assumes "edits_fit n es"
  shows "surviving_inserted_text es = List.map_filter id (tagged_replay n es)"
proof (cases es)
  case Nil
  then show ?thesis
    by (simp add: surviving_inserted_text_def tagged_replay_def List.map_filter_def)
next
  case (Cons e es')
  let ?org = "Min (set (map edit_offset es))"
  have min: "\<forall>e \<in> set es. ?org \<le> edit_offset e" by simp
  have "edit_offset e \<le> n" using assms Cons by (cases e) auto
  moreover have "?org \<le> edit_offset e" using min Cons by (intro min [THEN bspec]) simp
  ultimately have "?org \<le> n" by (rule order_trans [rotated])
  then have "span_of ?org [] (replicate n None)"
    by (auto simp: span_of_def replicate_add [symmetric] intro!: exI [of _ "n - ?org"])
  then have "span_of ?org (foldl (surviving_step ?org) [] es) (tagged_replay n es)"
    unfolding tagged_replay_def using assms min by (intro surviving_fold_span) auto
  then show ?thesis
    using Cons map_filter_span by (simp add: surviving_inserted_text_def Let_def)
qed

theorem surviving_text_correct_witness:
  "surviving_inserted_text [Insert 3 (rs ''abc''), Delete 4 (rs ''b''), Delete 2 (rs ''x'')] = rs ''ac''"
proof -
  have "surviving_inserted_text [Insert 3 (rs ''abc''), Delete 4 (rs ''b''), Delete 2 (rs ''x'')] =
      List.map_filter id (tagged_replay 5 [Insert 3 (rs ''abc''), Delete 4 (rs ''b''), Delete 2 (rs ''x'')])"
    by (rule surviving_text_correct) simp
  also have "\<dots> = rs ''ac''"
    by (simp add: tagged_replay_def eval_nat_numeral List.map_filter_def)
  finally show ?thesis .
qed

text \<open>
  The edit log is sound and complete: for a history of groups with contiguous versions, a
  query from any version since the start returns either exactly the edits of every group that
  raised the version past it (evicted groups included, so none can be missing), or \<open>None\<close>, and it
  returns \<open>None\<close> exactly when a group it would need has left the ring.
\<close>

theorem edits_since_sound_complete:
  assumes "contiguous v h" and "v \<le> base"
  shows "(\<forall>es. edit_log_edits_since (pushes (edit_log_with_capacity c) h) base = Some es \<longrightarrow>
                es = edits_after base h) \<and>
         (edit_log_edits_since (pushes (edit_log_with_capacity c) h) base = None \<longleftrightarrow>
            (\<exists>g \<in> set (take (length h - max c 1) h). fst g > base))"
  by (simp add: edits_since_pushes [OF assms])

theorem edits_since_sound_complete_witness:
  "edit_log_edits_since (pushes (edit_log_with_capacity 1)
     [(1, [Insert 0 [97]]), (3, [Insert 1 [98], Insert 2 [99]])]) 0 = None"
  using edits_since_sound_complete [of 0 "[(1, [Insert 0 [97]]), (3, [Insert 1 [98], Insert 2 [99]])]" 0 1]
  by simp

end
