(* ===== verification/TextBuffers.thy ===== *)
theory TextBuffers
  imports Edits
begin

text \<open>
  The text of a buffer (ovim-core/src/buffer/mod.rs, buffer/text_ops.rs, buffer/cursor.rs): line
  counts and lengths, the two primitive mutations \<open>insert_text_at\<close> and \<open>delete_char_range\<close>, the
  recording sessions that capture them, and \<open>Edit::apply\<close>.

  The rope is the crate ropey, which the source only calls: its methods are the fields of the
  parameter \<open>rope_ops\<close>, and what ropey documents about them is the locale \<open>rope_contract\<close>. The
  number of graphemes of a line (crate unicode-segmentation) is a field of the same record.
  Syntax highlighting, tree-sitter, marks and metrics, which the mutations also notify, are not
  part of the modelled state.
\<close>

section \<open>The rope\<close>

record 'r rope_ops =
  rope_len_chars :: "'r \<Rightarrow> nat"
  rope_len_lines :: "'r \<Rightarrow> nat"
  rope_line_to_char :: "'r \<Rightarrow> nat \<Rightarrow> nat"
  rope_char_to_line :: "'r \<Rightarrow> nat \<Rightarrow> nat"
  rope_line :: "'r \<Rightarrow> nat \<Rightarrow> rstr"
  rope_char :: "'r \<Rightarrow> nat \<Rightarrow> rchar"
  rope_slice :: "'r \<Rightarrow> nat \<Rightarrow> nat \<Rightarrow> rstr"
  rope_insert :: "'r \<Rightarrow> nat \<Rightarrow> rstr \<Rightarrow> 'r"
  rope_remove :: "'r \<Rightarrow> nat \<Rightarrow> nat \<Rightarrow> 'r"
  rope_line_graphemes :: "'r \<Rightarrow> nat \<Rightarrow> nat"

section \<open>State\<close>

record cursor =
  cur_line :: nat
  cur_col :: nat
  cur_visual_col :: nat
  cur_desired_col :: nat

record cursor_pos =
  pos_line :: nat
  pos_col :: nat

record recording_session =
  rec_edits :: "edit list"
  rec_origin :: "nat option"
  rec_origin_cursor :: "cursor_pos option"

record 'r buffer =
  buf_rope :: 'r
  buf_cursor :: cursor
  buf_modified :: bool
  buf_modifiable :: bool
  buf_refused_edit :: bool
  buf_version :: nat
  buf_recording :: "recording_session option"
  buf_edit_log :: edit_log

section \<open>The cursor\<close>

definition cursor_new :: "nat \<Rightarrow> nat \<Rightarrow> cursor" where
  "cursor_new line col =
     \<lparr>cur_line = line, cur_col = col, cur_visual_col = col, cur_desired_col = col\<rparr>"

definition cursor_set_line :: "cursor \<Rightarrow> nat \<Rightarrow> cursor" where
  "cursor_set_line c line = c\<lparr>cur_line := line\<rparr>"

definition cursor_set_col :: "cursor \<Rightarrow> nat \<Rightarrow> cursor" where
  "cursor_set_col c col = c\<lparr>cur_col := col, cur_visual_col := col, cur_desired_col := col\<rparr>"

definition cursor_set_position :: "cursor \<Rightarrow> nat \<Rightarrow> nat \<Rightarrow> cursor" where
  "cursor_set_position c line col =
     c\<lparr>cur_line := line, cur_col := col, cur_visual_col := col, cur_desired_col := col\<rparr>"

section \<open>Lines\<close>

definition buffer_line_count :: "'r rope_ops \<Rightarrow> 'r buffer \<Rightarrow> nat" where
  "buffer_line_count R b =
     (let raw_count = rope_len_lines R (buf_rope b); n = rope_len_chars R (buf_rope b)
      in if raw_count > 1 \<and> n > 0 \<and> rope_char R (buf_rope b) (n - 1) = 10 then raw_count - 1
         else raw_count)"

definition buffer_raw_line_count :: "'r rope_ops \<Rightarrow> 'r buffer \<Rightarrow> nat" where
  "buffer_raw_line_count R b = rope_len_lines R (buf_rope b)"

definition buffer_line_content_len :: "'r rope_ops \<Rightarrow> 'r buffer \<Rightarrow> nat \<Rightarrow> nat" where
  "buffer_line_content_len R b idx =
     (if idx \<ge> buffer_line_count R b then 0
      else let line = rope_line R (buf_rope b) idx; len = length line
           in if len > 0 \<and> line ! (len - 1) = 10 then len - 1 else len)"

definition buffer_line_len :: "'r rope_ops \<Rightarrow> 'r buffer \<Rightarrow> nat \<Rightarrow> nat" where
  "buffer_line_len R b idx = buffer_line_content_len R b idx"

definition buffer_validate_cursor_position :: "'r rope_ops \<Rightarrow> 'r buffer \<Rightarrow> 'r buffer" where
  "buffer_validate_cursor_position R b =
     (let c = buf_cursor b; line = cur_line c; col = cur_col c;
          max_line = buffer_line_count R b - 1;
          c = (if line > max_line then cursor_set_line c max_line else c);
          line_len = rope_line_graphemes R (buf_rope b) (cur_line c);
          c = (if col > 0 \<and> col \<ge> line_len
               then cursor_set_col c (if line_len > 0 then line_len - 1 else 0) else c)
      in b\<lparr>buf_cursor := c\<rparr>)"

section \<open>Mutations\<close>

definition buffer_accepts_edits :: "'r buffer \<Rightarrow> bool \<times> 'r buffer" where
  "buffer_accepts_edits b =
     (buf_modifiable b, if buf_modifiable b then b else b\<lparr>buf_refused_edit := True\<rparr>)"

definition session_push :: "recording_session option \<Rightarrow> edit \<Rightarrow> recording_session option" where
  "session_push r e = map_option (\<lambda>s. s\<lparr>rec_edits := rec_edits s @ [e]\<rparr>) r"

text \<open>What both mutations do once the rope has changed: record, count and log the edit.\<close>

definition buffer_note_edit :: "'r buffer \<Rightarrow> 'r \<Rightarrow> edit \<Rightarrow> 'r buffer" where
  "buffer_note_edit b r e =
     (let v = buf_version b + 1
      in b\<lparr>buf_rope := r, buf_modified := True, buf_recording := session_push (buf_recording b) e,
           buf_version := v, buf_edit_log := edit_log_push (buf_edit_log b) v [e]\<rparr>)"

definition buffer_insert_text_at ::
  "'r rope_ops \<Rightarrow> 'r buffer \<Rightarrow> nat \<Rightarrow> nat \<Rightarrow> rstr \<Rightarrow> 'r buffer" where
  "buffer_insert_text_at R b line col t =
     (if t = [] then b
      else case buffer_accepts_edits b of
        (False, b) \<Rightarrow> b
      | (True, b) \<Rightarrow>
          if line \<ge> buffer_raw_line_count R b then b
          else let line_start = rope_line_to_char R (buf_rope b) line;
                   col_clamped = min col (buffer_line_len R b line);
                   insert_pos = line_start + col_clamped
               in buffer_note_edit b (rope_insert R (buf_rope b) insert_pos t) (Insert insert_pos t))"

definition buffer_delete_char_range ::
  "'r rope_ops \<Rightarrow> 'r buffer \<Rightarrow> nat \<Rightarrow> nat \<Rightarrow> 'r buffer" where
  "buffer_delete_char_range R b start_char end_char =
     (case buffer_accepts_edits b of
        (False, b) \<Rightarrow> b
      | (True, b) \<Rightarrow>
          (let start_pos = min start_char (rope_len_chars R (buf_rope b));
               end_pos = min end_char (rope_len_chars R (buf_rope b))
           in if start_pos \<ge> end_pos then b
              else let deleted = rope_slice R (buf_rope b) start_pos end_pos
                   in buffer_note_edit b (rope_remove R (buf_rope b) start_pos end_pos)
                        (Delete start_pos deleted)))"

fun edit_apply :: "'r rope_ops \<Rightarrow> edit \<Rightarrow> 'r buffer \<Rightarrow> 'r buffer" where
  "edit_apply R (Insert offset t) b =
     (let pos = min offset (rope_len_chars R (buf_rope b));
          line = rope_char_to_line R (buf_rope b) pos;
          col = pos - rope_line_to_char R (buf_rope b) line
      in buffer_insert_text_at R b line col t)"
| "edit_apply R (Delete offset t) b = buffer_delete_char_range R b offset (offset + length t)"

section \<open>Recording sessions\<close>

definition recording_session_default :: recording_session where
  "recording_session_default = \<lparr>rec_edits = [], rec_origin = None, rec_origin_cursor = None\<rparr>"

definition buffer_begin_recording :: "'r buffer \<Rightarrow> 'r buffer" where
  "buffer_begin_recording b = b\<lparr>buf_recording := Some recording_session_default\<rparr>"

definition buffer_set_recording_origin :: "'r buffer \<Rightarrow> nat \<Rightarrow> cursor_pos \<Rightarrow> 'r buffer" where
  "buffer_set_recording_origin b offset cur =
     b\<lparr>buf_recording := map_option (\<lambda>s. s\<lparr>rec_origin := Some offset, rec_origin_cursor := Some cur\<rparr>)
                          (buf_recording b)\<rparr>"

definition buffer_end_recording :: "'r buffer \<Rightarrow> edit list \<times> 'r buffer" where
  "buffer_end_recording b =
     (case buf_recording b of None \<Rightarrow> [] | Some s \<Rightarrow> rec_edits s, b\<lparr>buf_recording := None\<rparr>)"

definition buffer_record :: "('r buffer \<Rightarrow> 'a \<times> 'r buffer) \<Rightarrow> 'r buffer \<Rightarrow> ('a \<times> edit list) \<times> 'r buffer" where
  "buffer_record f b =
     (let (result, b) = f (b\<lparr>buf_recording := Some recording_session_default\<rparr>);
          (edits, b) = buffer_end_recording b
      in ((result, edits), b))"

section \<open>The contract of the rope\<close>

text \<open>
  What ropey documents: \<open>chs\<close> is the character sequence of a rope; lines are the pieces between
  line starts; a character index belongs to the last line that starts at or before it, and one
  past the end to the last line; a text that ends in a line feed has an empty last line.
\<close>

locale rope_contract =
  fixes R :: "'r rope_ops" and chs :: "'r \<Rightarrow> rstr"
  assumes len_chars: "rope_len_chars R r = length (chs r)"
    and char_at: "i < length (chs r) \<Longrightarrow> rope_char R r i = chs r ! i"
    and slice: "a \<le> b \<Longrightarrow> b \<le> length (chs r) \<Longrightarrow> rope_slice R r a b = take (b - a) (drop a (chs r))"
    and insert: "i \<le> length (chs r) \<Longrightarrow> chs (rope_insert R r i t) = take i (chs r) @ t @ drop i (chs r)"
    and remove: "a \<le> b \<Longrightarrow> b \<le> length (chs r) \<Longrightarrow> chs (rope_remove R r a b) = take a (chs r) @ drop b (chs r)"
    and line: "l < rope_len_lines R r \<Longrightarrow> rope_line R r l =
      take (rope_line_to_char R r (Suc l) - rope_line_to_char R r l) (drop (rope_line_to_char R r l) (chs r))"
    and line_to_char_le: "l \<le> rope_len_lines R r \<Longrightarrow> rope_line_to_char R r l \<le> length (chs r)"
    and line_to_char_end: "rope_line_to_char R r (rope_len_lines R r) = length (chs r)"
    and char_to_line_less: "i \<le> length (chs r) \<Longrightarrow> rope_char_to_line R r i < rope_len_lines R r"
    and char_to_line_start: "i \<le> length (chs r) \<Longrightarrow> rope_line_to_char R r (rope_char_to_line R r i) \<le> i"
    and char_to_line_end: "i < length (chs r) \<Longrightarrow> i < rope_line_to_char R r (Suc (rope_char_to_line R r i))"
    and char_to_line_last: "rope_char_to_line R r (length (chs r)) = rope_len_lines R r - 1"
    and final_break: "chs r \<noteq> [] \<Longrightarrow> last (chs r) = 10 \<Longrightarrow>
      rope_len_lines R r > 1 \<and> rope_line_to_char R r (rope_len_lines R r - 1) = length (chs r)"
begin

lemma column_fits:
  assumes "i \<le> length (chs (buf_rope b))"
  shows "i - rope_line_to_char R (buf_rope b) (rope_char_to_line R (buf_rope b) i) \<le>
         buffer_line_len R b (rope_char_to_line R (buf_rope b) i)"
proof -
  let ?r = "buf_rope b" let ?t = "chs ?r" let ?l = "rope_char_to_line R ?r i"
  let ?s = "rope_line_to_char R ?r ?l" and ?e = "rope_line_to_char R ?r (Suc ?l)"
  have l: "?l < rope_len_lines R ?r" and s: "?s \<le> i"
    using assms by (simp_all add: char_to_line_less char_to_line_start)
  have e: "?e \<le> length ?t" using l by (simp add: line_to_char_le)
  have len: "length (rope_line R ?r ?l) = ?e - ?s"
    using l e s assms by (simp add: line)
  have count: "buffer_line_count R b =
      (if ?t \<noteq> [] \<and> last ?t = 10 then rope_len_lines R ?r - 1 else rope_len_lines R ?r)"
    using final_break [of ?r]
    by (auto simp: buffer_line_count_def len_chars char_at last_conv_nth Let_def)
  show ?thesis
  proof (cases "i < length ?t")
    case True
    then have i: "i < ?e" by (rule char_to_line_end)
    have "\<not> (?t \<noteq> [] \<and> last ?t = 10 \<and> ?l = rope_len_lines R ?r - 1)"
      using final_break [of ?r] s True by auto
    then have "?l < buffer_line_count R b"
      using l by (auto simp: count)
    then show ?thesis
      using len i s by (auto simp: buffer_line_len_def buffer_line_content_len_def Let_def)
  next
    case False
    then have i: "i = length ?t" and ll: "?l = rope_len_lines R ?r - 1"
      using assms by (auto simp: char_to_line_last)
    then have e_end: "?e = length ?t"
      using l line_to_char_end [of ?r] by (cases "rope_len_lines R ?r") auto
    show ?thesis
    proof (cases "?t \<noteq> [] \<and> last ?t = 10")
      case True
      then show ?thesis using final_break [of ?r] ll i by auto
    next
      case False
      have "rope_line R ?r ?l = drop ?s ?t"
        using l e_end by (simp add: line)
      then have "\<not> (rope_line R ?r ?l \<noteq> [] \<and> last (rope_line R ?r ?l) = 10)"
        using False by (auto simp: last_drop)
      then have "buffer_line_len R b ?l = ?e - ?s"
        using l len False
        by (auto simp: buffer_line_len_def buffer_line_content_len_def count Let_def last_conv_nth)
      then show ?thesis using i e_end by simp
    qed
  qed
qed

text \<open>The edit a buffer performs: the one it was asked for, clamped to its text.\<close>

definition clamp_edit :: "rstr \<Rightarrow> edit \<Rightarrow> edit" where
  "clamp_edit s e = (case e of
     Insert offset t \<Rightarrow> Insert (min offset (length s)) t
   | Delete offset t \<Rightarrow> Delete (min offset (length s)) (take (length t) (drop offset s)))"

definition edit_noop :: "rstr \<Rightarrow> edit \<Rightarrow> bool" where
  "edit_noop s e = (case e of Insert offset t \<Rightarrow> t = [] | Delete offset t \<Rightarrow> t = [] \<or> length s \<le> offset)"

lemma edit_apply_eq:
  assumes "buf_modifiable b"
  shows "\<exists>r. chs r = edit_text_apply (chs (buf_rope b)) e \<and>
     edit_apply R e b =
       (if edit_noop (chs (buf_rope b)) e then b
        else buffer_note_edit b r (clamp_edit (chs (buf_rope b)) e))"
proof (cases e)
  case (Insert offset t)
  let ?r = "buf_rope b"
  let ?pos = "min offset (length (chs ?r))"
  let ?l = "rope_char_to_line R ?r ?pos"
  have "rope_line_to_char R ?r ?l + min (?pos - rope_line_to_char R ?r ?l) (buffer_line_len R b ?l) = ?pos"
    using column_fits [of ?pos b] char_to_line_start [of ?pos ?r] by simp
  then have "edit_apply R e b =
      (if t = [] then b else buffer_note_edit b (rope_insert R ?r ?pos t) (Insert ?pos t))"
    using Insert assms char_to_line_less [of ?pos ?r]
    by (simp add: buffer_insert_text_at_def buffer_accepts_edits_def buffer_raw_line_count_def
        len_chars Let_def)
  then show ?thesis
    using Insert insert [of ?pos ?r t]
    by (intro exI [of _ "rope_insert R ?r ?pos t"]) (simp add: edit_noop_def clamp_edit_def Let_def)
next
  case (Delete offset t)
  let ?r = "buf_rope b"
  let ?s = "min offset (length (chs ?r))" and ?e = "min (offset + length t) (length (chs ?r))"
  have "take (?e - ?s) (drop ?s (chs ?r)) = take (length t) (drop offset (chs ?r))"
    by (cases "offset \<le> length (chs ?r)") (auto simp: min_def)
  then have "rope_slice R ?r ?s ?e = take (length t) (drop offset (chs ?r))"
    using slice [of ?s ?e ?r] by simp
  then have "edit_apply R e b =
      (if ?s \<ge> ?e then b
       else buffer_note_edit b (rope_remove R ?r ?s ?e) (Delete ?s (take (length t) (drop offset (chs ?r)))))"
    using assms unfolding Delete edit_apply.simps buffer_delete_char_range_def
      buffer_accepts_edits_def len_chars Let_def
    by (simp only: prod.case bool.case if_True)
  moreover have "chs (rope_remove R ?r ?s ?e) = edit_text_apply (chs ?r) e"
    using Delete by (auto simp: remove min_def)
  moreover have "?s \<ge> ?e \<longleftrightarrow> edit_noop (chs ?r) e"
    using Delete by (auto simp: edit_noop_def min_def split: if_splits)
  ultimately show ?thesis
    using Delete by (intro exI [of _ "rope_remove R ?r ?s ?e"]) (simp add: clamp_edit_def)
qed

lemma edit_noop_text: "edit_noop s e \<Longrightarrow> edit_text_apply s e = s"
  by (cases e) (auto simp: edit_noop_def)

lemma edit_apply_text:
  "buf_modifiable b \<Longrightarrow> chs (buf_rope (edit_apply R e b)) = edit_text_apply (chs (buf_rope b)) e"
  using edit_apply_eq [of b e] edit_noop_text by (auto simp: buffer_note_edit_def Let_def)

lemma edits_apply_text:
  "buf_modifiable b \<Longrightarrow>
   chs (buf_rope (foldl (\<lambda>b e. edit_apply R e b) b es)) = replay (chs (buf_rope b)) es"
proof (induction es arbitrary: b)
  case (Cons e es)
  have "buf_modifiable (edit_apply R e b)"
    using edit_apply_eq [OF Cons.prems, of e] Cons.prems by (auto simp: buffer_note_edit_def Let_def)
  then show ?case
    using Cons by (simp add: edit_apply_text)
qed simp

lemma line_len_fits:
  assumes "l < rope_len_lines R (buf_rope b)"
  shows "rope_line_to_char R (buf_rope b) l + buffer_line_len R b l \<le> length (chs (buf_rope b))"
proof -
  have "rope_line_to_char R (buf_rope b) l \<le> length (chs (buf_rope b))"
    and "rope_line_to_char R (buf_rope b) (Suc l) \<le> length (chs (buf_rope b))"
    using assms by (simp_all add: line_to_char_le)
  then show ?thesis
    using assms
    by (auto simp: buffer_line_len_def buffer_line_content_len_def line Let_def)
qed

text \<open>Both mutations perform a valid edit or nothing.\<close>

definition performs :: "'r buffer \<Rightarrow> 'r buffer \<Rightarrow> bool" where
  "performs b b' \<longleftrightarrow>
     b' = b \<or> b' = b\<lparr>buf_refused_edit := True\<rparr> \<and> \<not> buf_modifiable b \<or>
     (\<exists>r e. b' = buffer_note_edit b r e \<and> buf_modifiable b \<and> edit_valid (chs (buf_rope b)) e \<and>
        chs r = edit_text_apply (chs (buf_rope b)) e)"

lemma insert_performs: "performs b (buffer_insert_text_at R b l c t)"
proof (cases "t \<noteq> [] \<and> buf_modifiable b \<and> l < rope_len_lines R (buf_rope b)")
  case True
  let ?pos = "rope_line_to_char R (buf_rope b) l + min c (buffer_line_len R b l)"
  have pos: "?pos \<le> length (chs (buf_rope b))"
    using line_len_fits [of l b] True by auto
  then have "chs (rope_insert R (buf_rope b) ?pos t) =
      edit_text_apply (chs (buf_rope b)) (Insert ?pos t)"
    by (simp add: insert Let_def min_absorb1)
  moreover have "edit_valid (chs (buf_rope b)) (Insert ?pos t)"
    using pos by simp
  moreover have "buffer_insert_text_at R b l c t =
      buffer_note_edit b (rope_insert R (buf_rope b) ?pos t) (Insert ?pos t)"
    using True by (simp add: buffer_insert_text_at_def buffer_accepts_edits_def
        buffer_raw_line_count_def Let_def)
  ultimately show ?thesis
    using True unfolding performs_def by blast
next
  case False
  then show ?thesis
    by (auto simp: performs_def buffer_insert_text_at_def buffer_accepts_edits_def
        buffer_raw_line_count_def)
qed

lemma delete_performs: "performs b (buffer_delete_char_range R b i j)"
proof -
  let ?r = "buf_rope b"
  define s e where se: "s = min i (length (chs ?r))" "e = min j (length (chs ?r))"
  have eq: "buffer_delete_char_range R b i j =
      (if \<not> buf_modifiable b then b\<lparr>buf_refused_edit := True\<rparr>
       else if s \<ge> e then b
       else buffer_note_edit b (rope_remove R ?r s e) (Delete s (rope_slice R ?r s e)))"
    by (simp add: buffer_delete_char_range_def buffer_accepts_edits_def len_chars Let_def se)
  consider "\<not> buf_modifiable b" | "buf_modifiable b" "e \<le> s" | "buf_modifiable b" "s < e"
    by linarith
  then show ?thesis
  proof cases
    case 3
    have e: "e \<le> length (chs ?r)" by (simp add: se)
    then have "rope_slice R ?r s e = take (e - s) (drop s (chs ?r))"
      using 3 slice by simp
    moreover have "chs (rope_remove R ?r s e) =
        edit_text_apply (chs ?r) (Delete s (take (e - s) (drop s (chs ?r))))"
      using 3 e by (simp add: remove)
    moreover have "edit_valid (chs ?r) (Delete s (take (e - s) (drop s (chs ?r))))"
      using 3 e by simp
    ultimately show ?thesis
      using 3 unfolding eq performs_def by (metis not_le)
  qed (simp_all add: eq performs_def)
qed

end

section \<open>Mutation sequences\<close>

text \<open>What code that only edits through the two primitives can do to a buffer: it may also move the
  cursor, and note where an insert session began.\<close>

inductive mutates :: "'r rope_ops \<Rightarrow> 'r buffer \<Rightarrow> 'r buffer \<Rightarrow> bool" for R :: "'r rope_ops" where
  mut_refl: "mutates R b b"
| mut_insert: "mutates R b b' \<Longrightarrow> mutates R b (buffer_insert_text_at R b' l c t)"
| mut_delete: "mutates R b b' \<Longrightarrow> mutates R b (buffer_delete_char_range R b' i j)"
| mut_cursor: "mutates R b b' \<Longrightarrow> mutates R b (b'\<lparr>buf_cursor := c\<rparr>)"
| mut_origin: "mutates R b b' \<Longrightarrow> mutates R b (buffer_set_recording_origin b' off cur)"

text \<open>The log entries single edits make from version \<open>v\<close> on.\<close>

fun singles :: "nat \<Rightarrow> edit list \<Rightarrow> (nat \<times> edit list) list" where
  "singles v [] = []"
| "singles v (e # es) = (Suc v, [e]) # singles (Suc v) es"

lemma singles_append: "singles v (es @ [e]) = singles v es @ [(Suc (v + length es), [e])]"
  by (induction es arbitrary: v) auto

lemma singles_append2: "singles v (es @ es') = singles v es @ singles (v + length es) es'"
  by (induction es arbitrary: v) auto

lemma contiguous_singles: "contiguous v (singles v es)"
  by (induction es arbitrary: v) auto

definition session_edits :: "recording_session option \<Rightarrow> edit list option" where
  "session_edits r = map_option rec_edits r"

lemma session_edits_simps [simp]:
  "session_edits None = None" "session_edits (Some s) = Some (rec_edits s)"
  "session_edits (session_push r e) = map_option (\<lambda>es. es @ [e]) (session_edits r)"
  "session_edits (map_option (\<lambda>s. s\<lparr>rec_origin := off, rec_origin_cursor := cur\<rparr>) r) = session_edits r"
  by (cases r; simp add: session_edits_def session_push_def)+

context rope_contract
begin

definition evolves :: "'r buffer \<Rightarrow> edit list \<Rightarrow> 'r buffer \<Rightarrow> bool" where
  "evolves b es b' \<longleftrightarrow>
     edits_valid (chs (buf_rope b)) es \<and> chs (buf_rope b') = replay (chs (buf_rope b)) es \<and>
     session_edits (buf_recording b') = map_option (\<lambda>s. s @ es) (session_edits (buf_recording b)) \<and>
     buf_version b' = buf_version b + length es \<and>
     buf_edit_log b' = pushes (buf_edit_log b) (singles (buf_version b) es) \<and>
     buf_modifiable b' = buf_modifiable b \<and>
     buf_modified b' = (buf_modified b \<or> es \<noteq> [])"

lemma evolves_step: "evolves b es b' \<Longrightarrow> performs b' b'' \<Longrightarrow> \<exists>es'. evolves b (es @ es') b''"
  unfolding performs_def
proof (elim disjE exE conjE)
  fix r e
  assume ev: "evolves b es b'" and b'': "b'' = buffer_note_edit b' r e"
    and e: "edit_valid (chs (buf_rope b')) e" "chs r = edit_text_apply (chs (buf_rope b')) e"
  have "evolves b (es @ [e]) b''"
    using ev e by (auto simp: evolves_def b'' buffer_note_edit_def singles_append pushes_def Let_def option.map_comp comp_def)
  then show ?thesis by blast
qed (auto simp: evolves_def intro: exI [of _ "[]"])

lemma evolves_refl: "evolves b [] b"
  by (cases "buf_recording b") (simp_all add: evolves_def pushes_def)

lemma mutates_evolves: "mutates R b b' \<Longrightarrow> \<exists>es. evolves b es b'"
proof (induction rule: mutates.induct)
  case (mut_refl b)
  then show ?case using evolves_refl by blast
next
  case (mut_insert b b' l c t)
  then show ?case using evolves_step insert_performs by blast
next
  case (mut_delete b b' i j)
  then show ?case using evolves_step delete_performs by blast
next
  case (mut_cursor b b' c)
  then show ?case by (auto simp: evolves_def)
next
  case (mut_origin b b' off cur)
  then show ?case
    by (auto simp: evolves_def buffer_set_recording_origin_def)
qed

end

section \<open>A concrete rope\<close>

text \<open>
  A text in which line feeds are the only line breaks, as a list of characters. It satisfies the
  contract, so what is proved from the contract is not vacuous.
\<close>

definition count_breaks :: "rstr \<Rightarrow> nat" where
  "count_breaks t = length (filter (\<lambda>c. c = 10) t)"

fun line_start :: "rstr \<Rightarrow> nat \<Rightarrow> nat" where
  "line_start t 0 = 0"
| "line_start [] (Suc l) = 0"
| "line_start (c # t) (Suc l) = Suc (line_start t (if c = 10 then l else Suc l))"

definition list_rope :: "rstr rope_ops" where
  "list_rope =
     \<lparr>rope_len_chars = length,
      rope_len_lines = \<lambda>t. Suc (count_breaks t),
      rope_line_to_char = line_start,
      rope_char_to_line = \<lambda>t i. count_breaks (take i t),
      rope_line = \<lambda>t l. take (line_start t (Suc l) - line_start t l) (drop (line_start t l) t),
      rope_char = \<lambda>t i. t ! i,
      rope_slice = \<lambda>t a b. take (b - a) (drop a t),
      rope_insert = \<lambda>t i s. take i t @ s @ drop i t,
      rope_remove = \<lambda>t a b. take a t @ drop b t,
      rope_line_graphemes = \<lambda>t l.
        length (filter (\<lambda>c. c \<noteq> 10) (take (line_start t (Suc l) - line_start t l) (drop (line_start t l) t)))\<rparr>"

lemma count_breaks_simps [simp]:
  "count_breaks [] = 0" "count_breaks (c # t) = (if c = 10 then Suc (count_breaks t) else count_breaks t)"
  by (simp_all add: count_breaks_def)

lemma line_start_0 [simp]: "line_start t 0 = 0"
  by (cases t) auto

lemma line_start_le: "line_start t l \<le> length t"
  by (induction t l rule: line_start.induct) auto

lemma line_start_all: "line_start t (Suc (count_breaks t)) = length t"
  by (induction t) auto

lemma count_breaks_take: "count_breaks (take i t) \<le> count_breaks t"
  by (induction t arbitrary: i) (auto simp: take_Cons split: nat.splits)

lemma line_start_take: "line_start t (count_breaks (take i t)) \<le> i"
proof (induction t arbitrary: i)
  case (Cons c t)
  show ?case
  proof (cases i)
    case (Suc j)
    then show ?thesis
      using Cons [of j] by (cases "count_breaks (take j t)") auto
  qed simp
qed simp

lemma line_start_Suc_take: "i < length t \<Longrightarrow> i < line_start t (Suc (count_breaks (take i t)))"
proof (induction t arbitrary: i)
  case (Cons c t)
  then show ?case by (cases i) auto
qed simp

lemma line_start_last: "t \<noteq> [] \<Longrightarrow> last t = 10 \<Longrightarrow> 0 < count_breaks t \<and> line_start t (count_breaks t) = length t"
proof (induction t)
  case (Cons c t)
  then show ?case
    by (cases "t = []"; cases "count_breaks t") (auto split: if_splits)
qed simp

interpretation lr: rope_contract list_rope "\<lambda>t. t"
  by unfold_locales
    (simp_all add: list_rope_def line_start_le line_start_all count_breaks_take less_Suc_eq_le
      line_start_take line_start_Suc_take line_start_last Suc_leI)

section \<open>Logs of mutation sequences\<close>

lemma edits_after_Cons: "edits_after base ((v, es) # h) = (if v > base then es else []) @ edits_after base h"
  by (simp add: edits_after_def)

lemma edits_after_singles_early: "v + length es \<le> base \<Longrightarrow> edits_after base (singles v es) = []"
proof (induction es arbitrary: v)
  case (Cons e es)
  then show ?case using Cons.IH [of "Suc v"] by (simp add: edits_after_Cons)
qed (simp add: edits_after_def)

lemma edits_after_singles_late: "base \<le> v \<Longrightarrow> edits_after base (singles v es) = es"
proof (induction es arbitrary: v)
  case (Cons e es)
  then show ?case using Cons.IH [of "Suc v"] by (simp add: edits_after_def)
qed (simp add: edits_after_def)

lemma pushes_append: "pushes log (h @ h') = pushes (pushes log h) h'"
  by (simp add: pushes_def)

lemma mutates_trans: "mutates R b b' \<Longrightarrow> mutates R a b \<Longrightarrow> mutates R a b'"
  by (induction rule: mutates.induct) (auto intro: mutates.intros)

definition buffer_fresh :: "'r buffer \<Rightarrow> nat \<Rightarrow> bool" where
  "buffer_fresh b c \<longleftrightarrow> buf_edit_log b = edit_log_with_capacity c"

context rope_contract
begin

lemma log_projects:
  assumes "buffer_fresh b0 c" "evolves b0 es1 b1" "evolves b1 es2 b2"
    and "edit_log_edits_since (buf_edit_log b2) (buf_version b1) = Some es"
  shows "es = es2"
proof -
  have "buf_edit_log b2 = pushes (edit_log_with_capacity c) (singles (buf_version b0) (es1 @ es2))"
    using assms by (simp add: evolves_def buffer_fresh_def pushes_append singles_append2)
  then have "es = edits_after (buf_version b1) (singles (buf_version b0) (es1 @ es2))"
    using assms edits_since_pushes [OF contiguous_singles [of "buf_version b0" "es1 @ es2"],
        of "buf_version b1" c]
    by (auto simp: evolves_def split: if_splits)
  then show ?thesis
    using assms(2) by (simp add: evolves_def singles_append2 edits_after_singles_early edits_after_singles_late)
qed

lemma recorded_edits:
  assumes "mutates R (b\<lparr>buf_recording := Some recording_session_default\<rparr>)
             (snd (f (b\<lparr>buf_recording := Some recording_session_default\<rparr>)))"
    and "buffer_record f b = ((result, es), b')"
  shows "edits_valid (chs (buf_rope b)) es \<and> chs (buf_rope b') = replay (chs (buf_rope b)) es \<and>
     buf_modifiable b' = buf_modifiable b \<and> buf_modified b' = (buf_modified b \<or> es \<noteq> [])"
proof -
  obtain es' where "evolves (b\<lparr>buf_recording := Some recording_session_default\<rparr>) es'
      (snd (f (b\<lparr>buf_recording := Some recording_session_default\<rparr>)))"
    using mutates_evolves [OF assms(1)] by blast
  then show ?thesis
    using assms(2)
    by (auto simp: evolves_def buffer_record_def buffer_end_recording_def
        recording_session_default_def Let_def split: prod.splits option.splits)
qed

end

section \<open>Properties\<close>

text \<open>
  C5. Applying an edit to a buffer has the meaning it has on the plain text, whatever rope keeps
  the characters: the line/column detour of \<open>Edit::apply\<close> inserts at exactly the clamped offset
  (the column is never cut short by the line's length, not at a line break and not past a final
  one), and a deletion removes exactly the clamped range.
\<close>

theorem edit_apply_refines:
  assumes "rope_contract R chs" and "buf_modifiable b"
  shows "chs (buf_rope (edit_apply R e b)) = edit_text_apply (chs (buf_rope b)) e"
  using assms by (rule rope_contract.edit_apply_text)

definition sample_buffer :: "rstr \<Rightarrow> rstr buffer" where
  "sample_buffer t =
     \<lparr>buf_rope = t, buf_cursor = cursor_new 0 0, buf_modified = False, buf_modifiable = True,
      buf_refused_edit = False, buf_version = 0, buf_recording = None,
      buf_edit_log = edit_log_with_capacity 2\<rparr>"

theorem edit_apply_refines_witness:
  "buf_rope (edit_apply list_rope (Insert 3 (rs ''xy'')) (sample_buffer [97, 98, 10])) =
     [97, 98, 10] @ rs ''xy''"
  using edit_apply_refines [of list_rope "\<lambda>t. t" "sample_buffer [97, 98, 10]" "Insert 3 (rs ''xy'')"]
    lr.rope_contract_axioms
  by (simp add: sample_buffer_def)

text \<open>
  Recording is faithful: whatever a recorded operation did through the two mutation
  primitives, the edits it reports were each valid where they applied, replaying them on the old
  text gives the new one, and applying their inverses backwards to the buffer gives the old text
  back. This is what undo and redo of a change rest on.
\<close>

theorem recording_faithful:
  assumes "rope_contract R chs" and "buf_modifiable b"
    and "mutates R (b\<lparr>buf_recording := Some recording_session_default\<rparr>)
           (snd (f (b\<lparr>buf_recording := Some recording_session_default\<rparr>)))"
    and "buffer_record f b = ((result, es), b')"
  shows "edits_valid (chs (buf_rope b)) es \<and> chs (buf_rope b') = replay (chs (buf_rope b)) es \<and>
    chs (buf_rope (foldl (\<lambda>b e. edit_apply R e b) b' (map edit_inverse (rev es)))) = chs (buf_rope b)"
  using rope_contract.recorded_edits [OF assms(1,3,4)] assms(2)
    rope_contract.edits_apply_text [OF assms(1), of b' "map edit_inverse (rev es)"]
    unreplay_replay [of "chs (buf_rope b)" es]
  by (simp add: unreplay_def replay_def)

definition sample_change :: "rstr buffer \<Rightarrow> unit \<times> rstr buffer" where
  "sample_change b =
     ((), buffer_delete_char_range list_rope (buffer_insert_text_at list_rope b 0 1 (rs ''xy'')) 0 2)"

lemma sample_change_edits:
  "snd (fst (buffer_record sample_change (sample_buffer [97, 98]))) =
     [Insert 1 (rs ''xy''), Delete 0 (rs ''ax'')]"
  by (simp add: sample_buffer_def sample_change_def buffer_record_def buffer_end_recording_def buffer_insert_text_at_def
      buffer_delete_char_range_def buffer_accepts_edits_def buffer_raw_line_count_def
      buffer_line_len_def buffer_line_content_len_def buffer_line_count_def buffer_note_edit_def
      session_push_def recording_session_default_def list_rope_def Let_def eval_nat_numeral)

theorem recording_faithful_witness:
  "buf_rope (foldl (\<lambda>b e. edit_apply list_rope e b)
      (snd (buffer_record sample_change (sample_buffer [97, 98])))
      (map edit_inverse (rev (snd (fst (buffer_record sample_change (sample_buffer [97, 98]))))))) = [97, 98]"
proof -
  let ?b = "sample_buffer [97, 98]"
  obtain r es b' where rec: "buffer_record sample_change ?b = ((r, es), b')"
    by (metis surj_pair)
  have "mutates list_rope b (snd (sample_change b))" for b
    unfolding sample_change_def snd_conv by (intro mutates.intros)
  then have "buf_rope (foldl (\<lambda>b e. edit_apply list_rope e b) b' (map edit_inverse (rev es))) = buf_rope ?b"
    using recording_faithful [of list_rope "\<lambda>t. t" ?b sample_change r es b'] rec lr.rope_contract_axioms
    by (simp add: sample_buffer_def)
  then show ?thesis
    unfolding rec by (simp add: sample_buffer_def)
qed

text \<open>
  The edit log projects versions: for a buffer changed only through the two primitives since
  its log was empty, when the log answers a query from an earlier version, replaying the answer
  on the text the buffer had at that version gives its present text.
\<close>

theorem edit_log_projects:
  assumes "rope_contract R chs" and "buffer_fresh b0 c"
    and "mutates R b0 b1" and "mutates R b1 b2"
    and "edit_log_edits_since (buf_edit_log b2) (buf_version b1) = Some es"
  shows "replay (chs (buf_rope b1)) es = chs (buf_rope b2)"
proof -
  obtain es1 es2 where "rope_contract.evolves chs b0 es1 b1" and e2: "rope_contract.evolves chs b1 es2 b2"
    using rope_contract.mutates_evolves [OF assms(1)] assms(3,4) by blast
  then have "es = es2"
    using rope_contract.log_projects [OF assms(1,2)] assms(5) by blast
  then show ?thesis
    using e2 rope_contract.evolves_def [OF assms(1)] by metis
qed

theorem edit_log_projects_witness:
  "replay [97] [Delete 0 [97]] = ([] :: rstr)"
proof -
  let ?b1 = "buffer_insert_text_at list_rope (sample_buffer []) 0 0 [97]"
  let ?b2 = "buffer_delete_char_range list_rope ?b1 0 1"
  have b1: "buf_rope ?b1 = [97]" "buf_version ?b1 = 1"
    and b2: "buf_rope ?b2 = []" "edit_log_edits_since (buf_edit_log ?b2) 1 = Some [Delete 0 [97]]"
    by (simp_all add: sample_buffer_def buffer_insert_text_at_def
        buffer_delete_char_range_def buffer_accepts_edits_def buffer_raw_line_count_def
        buffer_line_len_def buffer_line_content_len_def buffer_line_count_def buffer_note_edit_def
        session_push_def list_rope_def Let_def edit_log_push_def edit_log_with_capacity_def
        edit_log_edits_since_def)
  show ?thesis
    using edit_log_projects [of list_rope "\<lambda>t. t" "sample_buffer []" 2 ?b1 ?b2 "[Delete 0 [97]]"]
      lr.rope_contract_axioms b1 b2
    by (simp add: mutates.intros buffer_fresh_def sample_buffer_def)
qed

end
