(* ===== verification/Undo.thy ===== *)
theory Undo
  imports TextBuffers Registers
begin

text \<open>
  Undo and redo (ovim-core/src/change.rs, editor/change_tracking.rs, editor/change_building.rs and
  the merge of a change's delete and insert in editor/input/insert_mode.rs).

  A stack is a list with its top first. The filesystem behind a \<open>ResourceOp\<close> is the record
  \<open>fs_ops\<close> of the functions of \<open>std::fs\<close> and \<open>std::path\<close> the code calls; an I/O error is a text.
  Toasts, the hover cache, LSP invalidation and the dirty flag of the renderer are not modelled.
\<close>

section \<open>Changes\<close>

record 'f fs_ops =
  fs_parent :: "rstr \<Rightarrow> rstr option"
  fs_exists :: "rstr \<Rightarrow> 'f \<Rightarrow> bool"
  fs_is_dir :: "rstr \<Rightarrow> 'f \<Rightarrow> bool"
  fs_create_dir_all :: "rstr \<Rightarrow> 'f \<Rightarrow> rstr option \<times> 'f"
  fs_write :: "rstr \<Rightarrow> nat list \<Rightarrow> 'f \<Rightarrow> rstr option \<times> 'f"
  fs_remove_dir_all :: "rstr \<Rightarrow> 'f \<Rightarrow> rstr option \<times> 'f"
  fs_remove_file :: "rstr \<Rightarrow> 'f \<Rightarrow> rstr option \<times> 'f"

record resource_snapshot =
  snap_path :: rstr
  snap_before :: "nat list option"
  snap_after :: "nat list option"

datatype insert_entry_mode =
  EnterInsert | EnterAppend | EnterFirstNonBlank | EnterEndOfLine | EnterOpenBelow | EnterOpenAbove

datatype change =
  Recorded (recorded_edits: "edit list") (change_cursor_before: cursor_pos)
    (change_cursor_after: cursor_pos) (recorded_group: "nat option") (recorded_edit_start: "cursor_pos option")
| ResourceOp (resource_snapshots: "resource_snapshot list") (change_cursor_before: cursor_pos)
    (change_cursor_after: cursor_pos)

definition change_recorded :: "edit list \<Rightarrow> cursor_pos \<Rightarrow> cursor_pos \<Rightarrow> change" where
  "change_recorded edits before after = Recorded edits before after None None"

definition change_recorded_with_edit_start ::
  "edit list \<Rightarrow> cursor_pos \<Rightarrow> cursor_pos \<Rightarrow> cursor_pos \<Rightarrow> change" where
  "change_recorded_with_edit_start edits before after edit_start =
     Recorded edits before after None (Some edit_start)"

definition change_recorded_grouped :: "edit list \<Rightarrow> cursor_pos \<Rightarrow> cursor_pos \<Rightarrow> nat \<Rightarrow> change" where
  "change_recorded_grouped edits before after group_id = Recorded edits before after (Some group_id) None"

fun change_undo_group_id :: "change \<Rightarrow> nat option" where
  "change_undo_group_id (Recorded _ _ _ g _) = g"
| "change_undo_group_id (ResourceOp _ _ _) = None"

fun change_edit_position :: "change \<Rightarrow> cursor_pos" where
  "change_edit_position (Recorded _ before _ _ start) = (case start of Some p \<Rightarrow> p | None \<Rightarrow> before)"
| "change_edit_position (ResourceOp _ before _) = before"

fun change_into_edits :: "change \<Rightarrow> edit list option" where
  "change_into_edits (Recorded edits _ _ _ _) = Some edits"
| "change_into_edits (ResourceOp _ _ _) = None"

fun change_get_inserted_text :: "change \<Rightarrow> rstr" where
  "change_get_inserted_text (Recorded edits _ _ _ _) = surviving_inserted_text edits"
| "change_get_inserted_text (ResourceOp _ _ _) = []"

definition restore_file_snapshot ::
  "'f fs_ops \<Rightarrow> rstr \<Rightarrow> nat list option \<Rightarrow> 'f \<Rightarrow> rstr option \<times> 'f" where
  "restore_file_snapshot F path snapshot fs =
     (case snapshot of
        Some bytes \<Rightarrow>
          (let (err, fs) = (case fs_parent F path of
               Some parent \<Rightarrow> if parent \<noteq> [] then fs_create_dir_all F parent fs else (None, fs)
             | None \<Rightarrow> (None, fs))
           in case err of Some e \<Rightarrow> (Some e, fs) | None \<Rightarrow> fs_write F path bytes fs)
      | None \<Rightarrow>
          if \<not> fs_exists F path fs then (None, fs)
          else if fs_is_dir F path fs then fs_remove_dir_all F path fs
          else fs_remove_file F path fs)"

fun restore_snapshots :: "'f fs_ops \<Rightarrow> (rstr \<times> nat list option) list \<Rightarrow> 'f \<Rightarrow> rstr option \<times> 'f" where
  "restore_snapshots F [] fs = (None, fs)"
| "restore_snapshots F ((path, s) # rest) fs =
     (case restore_file_snapshot F path s fs of
        (Some e, fs) \<Rightarrow> (Some e, fs)
      | (None, fs) \<Rightarrow> restore_snapshots F rest fs)"

definition buffer_set_cursor :: "'r buffer \<Rightarrow> cursor_pos \<Rightarrow> 'r buffer" where
  "buffer_set_cursor b p = b\<lparr>buf_cursor := cursor_set_position (buf_cursor b) (pos_line p) (pos_col p)\<rparr>"

fun change_apply ::
  "'r rope_ops \<Rightarrow> 'f fs_ops \<Rightarrow> change \<Rightarrow> 'r buffer \<times> 'f \<Rightarrow> rstr option \<times> 'r buffer \<times> 'f" where
  "change_apply R F (Recorded edits _ after _ _) (b, fs) =
     (None, buffer_set_cursor (foldl (\<lambda>b e. edit_apply R e b) b edits) after, fs)"
| "change_apply R F (ResourceOp snaps _ after) (b, fs) =
     (case restore_snapshots F (map (\<lambda>s. (snap_path s, snap_after s)) snaps) fs of
        (Some e, fs) \<Rightarrow> (Some e, b, fs)
      | (None, fs) \<Rightarrow> (None, buffer_set_cursor b after, fs))"

fun change_undo ::
  "'r rope_ops \<Rightarrow> 'f fs_ops \<Rightarrow> change \<Rightarrow> 'r buffer \<times> 'f \<Rightarrow> rstr option \<times> 'r buffer \<times> 'f" where
  "change_undo R F (Recorded edits before _ _ _) (b, fs) =
     (let b = foldl (\<lambda>b e. edit_apply R (edit_inverse e) b) b (rev edits)
      in (None, buffer_validate_cursor_position R (buffer_set_cursor b before), fs))"
| "change_undo R F (ResourceOp snaps before _) (b, fs) =
     (case restore_snapshots F (map (\<lambda>s. (snap_path s, snap_before s)) (rev snaps)) fs of
        (Some e, fs) \<Rightarrow> (Some e, b, fs)
      | (None, fs) \<Rightarrow> (None, buffer_validate_cursor_position R (buffer_set_cursor b before), fs))"

section \<open>The change manager\<close>

record change_builder =
  bld_cursor_before :: cursor_pos
  bld_entry_mode :: insert_entry_mode

datatype undo_outcome = UndoNothing | UndoDone | UndoFailed rstr

record undo_entry =
  ent_change :: change
  ent_seq :: nat

text \<open>
  Of the repeat actions only the insert session is built here; the others, which the commands
  build and \<open>.\<close> executes, are values of the type variable.
\<close>

datatype 'a repeat_action = InsertSession nat insert_entry_mode nat "edit list" | OtherRepeat 'a

record 'a change_manager =
  cm_undo_stack :: "undo_entry list"
  cm_redo_stack :: "undo_entry list"
  cm_current_builder :: "change_builder option"
  cm_save_point :: "nat option"
  cm_next_seq :: nat
  cm_last_edit_position :: "cursor_pos option"
  cm_change_list :: "cursor_pos list"
  cm_change_list_index :: "nat option"
  cm_last_repeat_action :: "'a repeat_action option"
  cm_last_repeat_register :: "rchar option"
  cm_repeat_generation :: nat

definition change_manager_new :: "'a change_manager" where
  "change_manager_new =
     \<lparr>cm_undo_stack = [], cm_redo_stack = [], cm_current_builder = None, cm_save_point = Some 0,
      cm_next_seq = 1, cm_last_edit_position = None, cm_change_list = [], cm_change_list_index = None,
      cm_last_repeat_action = None, cm_last_repeat_register = None, cm_repeat_generation = 0\<rparr>"

definition change_set_repeat_action :: "'a repeat_action option \<Rightarrow> 'a change_manager \<Rightarrow> 'a change_manager" where
  "change_set_repeat_action action m =
     m\<lparr>cm_last_repeat_action := action, cm_repeat_generation := cm_repeat_generation m + 1\<rparr>"

definition change_note_repeat_ran :: "'a change_manager \<Rightarrow> 'a change_manager" where
  "change_note_repeat_ran m = m\<lparr>cm_repeat_generation := cm_repeat_generation m + 1\<rparr>"

definition change_repeat_checkpoint :: "'a change_manager \<Rightarrow> nat \<times> nat" where
  "change_repeat_checkpoint m = (cm_next_seq m, cm_repeat_generation m)"

definition change_forget_unrecorded :: "nat \<times> nat \<Rightarrow> 'a change_manager \<Rightarrow> 'a change_manager" where
  "change_forget_unrecorded checkpoint m =
     (if cm_next_seq m \<noteq> fst checkpoint \<and> cm_repeat_generation m = snd checkpoint
      then m\<lparr>cm_last_repeat_action := None\<rparr> else m)"

definition change_start_building :: "cursor_pos \<Rightarrow> 'a change_manager \<Rightarrow> 'a change_manager" where
  "change_start_building before m =
     m\<lparr>cm_current_builder := Some \<lparr>bld_cursor_before = before, bld_entry_mode = EnterInsert\<rparr>\<rparr>"

definition change_set_entry_mode :: "insert_entry_mode \<Rightarrow> 'a change_manager \<Rightarrow> 'a change_manager" where
  "change_set_entry_mode mode m =
     m\<lparr>cm_current_builder := map_option (\<lambda>b. b\<lparr>bld_entry_mode := mode\<rparr>) (cm_current_builder m)\<rparr>"

definition note_edit_position :: "cursor_pos \<Rightarrow> 'a change_manager \<Rightarrow> 'a change_manager" where
  "note_edit_position p m =
     (let list = cm_change_list m;
          list = (case cm_change_list_index m of
                    Some idx \<Rightarrow> if idx + 1 < length list then take (idx + 1) list else list
                  | None \<Rightarrow> list);
          list = (if list = [] \<or> last list \<noteq> p then list @ [p] else list)
      in m\<lparr>cm_last_edit_position := Some p, cm_change_list := list,
           cm_change_list_index := if length list = 0 then None else Some (length list - 1)\<rparr>)"

definition push_change :: "change \<Rightarrow> 'a change_manager \<Rightarrow> nat \<times> 'a change_manager" where
  "push_change c m =
     (let m = note_edit_position (change_edit_position c) m; seq = cm_next_seq m
      in (seq, m\<lparr>cm_next_seq := seq + 1,
                 cm_undo_stack := \<lparr>ent_change = c, ent_seq = seq\<rparr> # cm_undo_stack m,
                 cm_redo_stack := []\<rparr>))"

fun set_group :: "nat \<Rightarrow> change \<Rightarrow> change" where
  "set_group g (Recorded edits before after _ start) = Recorded edits before after (Some g) start"
| "set_group g (ResourceOp snaps before after) = ResourceOp snaps before after"

fun group_entries :: "nat \<Rightarrow> nat \<Rightarrow> undo_entry list \<Rightarrow> undo_entry list" where
  "group_entries since g [] = []"
| "group_entries since g (e # us) =
     (if ent_seq e \<le> since then e # us
      else e\<lparr>ent_change := set_group g (ent_change e)\<rparr> # group_entries since g us)"

definition group_since :: "nat \<Rightarrow> 'a change_manager \<Rightarrow> 'a change_manager" where
  "group_since since m =
     m\<lparr>cm_undo_stack := group_entries since (2 ^ 64 - 1 - since) (cm_undo_stack m)\<rparr>"

definition stack_top_seq :: "undo_entry list \<Rightarrow> nat" where
  "stack_top_seq us = (case us of [] \<Rightarrow> 0 | e # _ \<Rightarrow> ent_seq e)"

definition change_top_seq :: "'a change_manager \<Rightarrow> nat" where
  "change_top_seq m = stack_top_seq (cm_undo_stack m)"

definition jump_change_older :: "nat \<Rightarrow> 'a change_manager \<Rightarrow> cursor_pos option \<times> 'a change_manager" where
  "jump_change_older count m =
     (let len = length (cm_change_list m)
      in if len = 0 then (None, m)
         else let idx = (case cm_change_list_index m of Some i \<Rightarrow> i | None \<Rightarrow> len - 1);
                  next_idx = idx - max count 1
              in (if next_idx < len then Some (cm_change_list m ! next_idx) else None,
                  m\<lparr>cm_change_list_index := Some next_idx\<rparr>))"

definition jump_change_newer :: "nat \<Rightarrow> 'a change_manager \<Rightarrow> cursor_pos option \<times> 'a change_manager" where
  "jump_change_newer count m =
     (let len = length (cm_change_list m)
      in if len = 0 then (None, m)
         else let idx = (case cm_change_list_index m of Some i \<Rightarrow> i | None \<Rightarrow> len - 1);
                  next_idx = min (idx + max count 1) (len - 1)
              in (if next_idx < len then Some (cm_change_list m ! next_idx) else None,
                  m\<lparr>cm_change_list_index := Some next_idx\<rparr>))"

text \<open>
  The group loops of \<open>undo\<close> and \<open>redo\<close>: they run down the stack they pop from while its top has
  the group id, pushing onto the other one.
\<close>

fun undo_group ::
  "'r rope_ops \<Rightarrow> 'f fs_ops \<Rightarrow> nat \<Rightarrow> undo_entry list \<Rightarrow> undo_entry list \<Rightarrow> 'r buffer \<times> 'f \<Rightarrow>
   undo_outcome \<times> undo_entry list \<times> undo_entry list \<times> 'r buffer \<times> 'f" where
  "undo_group R F gid [] redo w = (UndoDone, [], redo, w)"
| "undo_group R F gid (e # us) redo w =
     (if change_undo_group_id (ent_change e) = Some gid
      then (case change_undo R F (ent_change e) w of
              (Some err, w) \<Rightarrow> (UndoFailed err, e # us, redo, w)
            | (None, w) \<Rightarrow> undo_group R F gid us (e # redo) w)
      else (UndoDone, e # us, redo, w))"

fun redo_group ::
  "'r rope_ops \<Rightarrow> 'f fs_ops \<Rightarrow> nat \<Rightarrow> undo_entry list \<Rightarrow> undo_entry list \<Rightarrow> 'r buffer \<times> 'f \<Rightarrow>
   undo_outcome \<times> undo_entry list \<times> undo_entry list \<times> 'r buffer \<times> 'f" where
  "redo_group R F gid undo [] w = (UndoDone, undo, [], w)"
| "redo_group R F gid undo (e # rd) w =
     (if change_undo_group_id (ent_change e) = Some gid
      then (case change_apply R F (ent_change e) w of
              (Some err, w) \<Rightarrow> (UndoFailed err, undo, e # rd, w)
            | (None, w) \<Rightarrow> redo_group R F gid (e # undo) rd w)
      else (UndoDone, undo, e # rd, w))"

definition change_manager_undo ::
  "'r rope_ops \<Rightarrow> 'f fs_ops \<Rightarrow> 'a change_manager \<Rightarrow> 'r buffer \<times> 'f \<Rightarrow>
   undo_outcome \<times> 'a change_manager \<times> 'r buffer \<times> 'f" where
  "change_manager_undo R F m w =
     (case cm_undo_stack m of
        [] \<Rightarrow> (UndoNothing, m, w)
      | e # us \<Rightarrow>
          (case change_undo R F (ent_change e) w of
             (Some err, w) \<Rightarrow> (UndoFailed err, m, w)
           | (None, w) \<Rightarrow>
               (let (outcome, us, rd, w) =
                  (case change_undo_group_id (ent_change e) of
                     Some gid \<Rightarrow> undo_group R F gid us (e # cm_redo_stack m) w
                   | None \<Rightarrow> (UndoDone, us, e # cm_redo_stack m, w))
                in (outcome, m\<lparr>cm_undo_stack := us, cm_redo_stack := rd\<rparr>, w))))"

definition change_manager_redo ::
  "'r rope_ops \<Rightarrow> 'f fs_ops \<Rightarrow> 'a change_manager \<Rightarrow> 'r buffer \<times> 'f \<Rightarrow>
   undo_outcome \<times> 'a change_manager \<times> 'r buffer \<times> 'f" where
  "change_manager_redo R F m w =
     (case cm_redo_stack m of
        [] \<Rightarrow> (UndoNothing, m, w)
      | e # rd \<Rightarrow>
          (case change_apply R F (ent_change e) w of
             (Some err, w) \<Rightarrow> (UndoFailed err, m, w)
           | (None, w) \<Rightarrow>
               (let (outcome, us, rd, w) =
                  (case change_undo_group_id (ent_change e) of
                     Some gid \<Rightarrow> redo_group R F gid (e # cm_undo_stack m) rd w
                   | None \<Rightarrow> (UndoDone, e # cm_undo_stack m, rd, w))
                in (outcome, m\<lparr>cm_undo_stack := us, cm_redo_stack := rd\<rparr>, w))))"

definition change_mark_saved :: "'a change_manager \<Rightarrow> 'a change_manager" where
  "change_mark_saved m = m\<lparr>cm_save_point := Some (change_top_seq m)\<rparr>"

definition is_at_save_point :: "'a change_manager \<Rightarrow> bool" where
  "is_at_save_point m \<longleftrightarrow> cm_save_point m = Some (change_top_seq m)"

definition change_clear_save_point :: "'a change_manager \<Rightarrow> 'a change_manager" where
  "change_clear_save_point m = m\<lparr>cm_save_point := None\<rparr>"

definition change_pop_by_token :: "nat \<Rightarrow> 'a change_manager \<Rightarrow> change option \<times> 'a change_manager" where
  "change_pop_by_token token m =
     (if change_top_seq m = token \<and> token \<noteq> 0
      then case cm_undo_stack m of
             [] \<Rightarrow> (None, m)
           | e # us \<Rightarrow> (Some (ent_change e), m\<lparr>cm_undo_stack := us\<rparr>)
      else (None, m))"

section \<open>The editor's operations on a document\<close>

text \<open>
  A document is a buffer with its change manager, the editor's registers and the undo group of the
  agent turn that runs, if one does.
\<close>

record ('r, 'f, 'a, 'g) doc =
  doc_buffer :: "'r buffer"
  doc_changes :: "'a change_manager"
  doc_fs :: 'f
  doc_registers :: "'g register_manager"
  doc_undo_group :: "nat option"

definition buffer_undo ::
  "'r rope_ops \<Rightarrow> 'f fs_ops \<Rightarrow> ('r, 'f, 'a, 'g) doc \<Rightarrow> (undo_outcome \<times> edit list) \<times> ('r, 'f, 'a, 'g) doc" where
  "buffer_undo R F d =
     (let (((outcome, m, fs), edits), b) =
        buffer_record (\<lambda>b. let (outcome, m, b, fs) = change_manager_undo R F (doc_changes d) (b, doc_fs d)
                           in ((outcome, m, fs), b)) (doc_buffer d);
          b = (if outcome \<noteq> UndoNothing then buffer_validate_cursor_position R b else b)
      in ((outcome, edits), d\<lparr>doc_buffer := b, doc_changes := m, doc_fs := fs\<rparr>))"

definition buffer_redo ::
  "'r rope_ops \<Rightarrow> 'f fs_ops \<Rightarrow> ('r, 'f, 'a, 'g) doc \<Rightarrow> (undo_outcome \<times> edit list) \<times> ('r, 'f, 'a, 'g) doc" where
  "buffer_redo R F d =
     (let (((outcome, m, fs), edits), b) =
        buffer_record (\<lambda>b. let (outcome, m, b, fs) = change_manager_redo R F (doc_changes d) (b, doc_fs d)
                           in ((outcome, m, fs), b)) (doc_buffer d);
          b = (if outcome \<noteq> UndoNothing then buffer_validate_cursor_position R b else b)
      in ((outcome, edits), d\<lparr>doc_buffer := b, doc_changes := m, doc_fs := fs\<rparr>))"

definition sync_modified_flag :: "('r, 'f, 'a, 'g) doc \<Rightarrow> ('r, 'f, 'a, 'g) doc" where
  "sync_modified_flag d =
     (if is_at_save_point (doc_changes d) then d\<lparr>doc_buffer := doc_buffer d\<lparr>buf_modified := False\<rparr>\<rparr> else d)"

fun undo_loop :: "'r rope_ops \<Rightarrow> 'f fs_ops \<Rightarrow> nat \<Rightarrow> ('r, 'f, 'a, 'g) doc \<Rightarrow> ('r, 'f, 'a, 'g) doc" where
  "undo_loop R F 0 d = d"
| "undo_loop R F (Suc n) d =
     (let ((outcome, _), d) = buffer_undo R F d in if outcome = UndoDone then undo_loop R F n d else d)"

fun redo_loop :: "'r rope_ops \<Rightarrow> 'f fs_ops \<Rightarrow> nat \<Rightarrow> ('r, 'f, 'a, 'g) doc \<Rightarrow> ('r, 'f, 'a, 'g) doc" where
  "redo_loop R F 0 d = d"
| "redo_loop R F (Suc n) d =
     (let ((outcome, _), d) = buffer_redo R F d in if outcome = UndoDone then redo_loop R F n d else d)"

definition undo_count :: "'r rope_ops \<Rightarrow> 'f fs_ops \<Rightarrow> nat \<Rightarrow> ('r, 'f, 'a, 'g) doc \<Rightarrow> ('r, 'f, 'a, 'g) doc" where
  "undo_count R F count d = sync_modified_flag (undo_loop R F count d)"

definition redo_count :: "'r rope_ops \<Rightarrow> 'f fs_ops \<Rightarrow> nat \<Rightarrow> ('r, 'f, 'a, 'g) doc \<Rightarrow> ('r, 'f, 'a, 'g) doc" where
  "redo_count R F count d = sync_modified_flag (redo_loop R F count d)"

definition cursor_position :: "('r, 'f, 'a, 'g) doc \<Rightarrow> cursor_pos" where
  "cursor_position d = \<lparr>pos_line = cur_line (buf_cursor (doc_buffer d)), pos_col = cur_col (buf_cursor (doc_buffer d))\<rparr>"

definition push_recorded_undo ::
  "edit list \<Rightarrow> cursor_pos \<Rightarrow> cursor_pos \<Rightarrow> ('r, 'f, 'a, 'g) doc \<Rightarrow> nat \<times> ('r, 'f, 'a, 'g) doc" where
  "push_recorded_undo edits before after d =
     (let change = (case doc_undo_group d of
                      Some gid \<Rightarrow> change_recorded_grouped edits before after gid
                    | None \<Rightarrow> change_recorded edits before after);
          (token, m) = push_change change (doc_changes d)
      in (token, d\<lparr>doc_changes := m\<rparr>))"

definition record_operation ::
  "('r buffer \<Rightarrow> 'b \<times> 'r buffer) \<Rightarrow> 'a repeat_action option \<Rightarrow> ('r, 'f, 'a, 'g) doc \<Rightarrow> 'b \<times> ('r, 'f, 'a, 'g) doc" where
  "record_operation f repeat d =
     (let before = cursor_position d;
          ((result, edits), b) = buffer_record f (doc_buffer d);
          d = d\<lparr>doc_buffer := b\<rparr>
      in if edits = [] then (result, d)
         else let (_, d) = push_recorded_undo edits before (cursor_position d) d
              in (result, case repeat of None \<Rightarrow> d
                    | Some action \<Rightarrow> d\<lparr>doc_changes := change_set_repeat_action (Some action) (doc_changes d)\<rparr>))"

definition start_change_building :: "cursor_pos \<Rightarrow> ('r, 'f, 'a, 'g) doc \<Rightarrow> ('r, 'f, 'a, 'g) doc" where
  "start_change_building before d =
     d\<lparr>doc_changes := change_start_building before (doc_changes d),
       doc_buffer := if buf_recording (doc_buffer d) = None then buffer_begin_recording (doc_buffer d)
                     else doc_buffer d\<rparr>"

definition finalize_change_building :: "('r, 'f, 'a, 'g) doc \<Rightarrow> nat option \<times> ('r, 'f, 'a, 'g) doc" where
  "finalize_change_building d =
     (let after = cursor_position d;
          origin = Option.bind (buf_recording (doc_buffer d)) rec_origin;
          origin_cursor = Option.bind (buf_recording (doc_buffer d)) rec_origin_cursor;
          (edits, b) = buffer_end_recording (doc_buffer d)
      in case cm_current_builder (doc_changes d) of
           None \<Rightarrow> (None, d\<lparr>doc_buffer := b\<rparr>)
         | Some builder \<Rightarrow>
             (let m = (doc_changes d)\<lparr>cm_current_builder := None\<rparr>;
                  mode = bld_entry_mode builder;
                  opens = (mode = EnterOpenBelow \<or> mode = EnterOpenAbove);
                  typed = (if opens then (if edits = [] then [] else tl edits) else edits);
                  d = d\<lparr>doc_buffer := b, doc_changes := m,
                        doc_registers := register_set_last_inserted (doc_registers d) (surviving_inserted_text typed)\<rparr>
              in if edits = [] then
                   (None, if opens then d
                          else d\<lparr>doc_changes := change_set_repeat_action (Some (InsertSession 1 mode 0 edits)) m\<rparr>)
                 else
                   let change = (case origin_cursor of
                          Some start \<Rightarrow> change_recorded_with_edit_start edits (bld_cursor_before builder) after start
                        | None \<Rightarrow> change_recorded edits (bld_cursor_before builder) after);
                       (token, m) = push_change change m;
                       m = change_set_repeat_action
                             (map_option (\<lambda>o_offset. InsertSession 1 mode o_offset edits) origin) m
                   in (Some token, d\<lparr>doc_changes := m\<rparr>)))"

text \<open>Leaving insert mode after \<open>c\<close>, \<open>C\<close>, \<open>s\<close> and the like: the delete and the insert become one change.\<close>

definition pop_token :: "nat option \<Rightarrow> 'a change_manager \<Rightarrow> change option \<times> 'a change_manager" where
  "pop_token token m = (case token of None \<Rightarrow> (None, m) | Some t \<Rightarrow> change_pop_by_token t m)"

definition popped_edits :: "change option \<Rightarrow> edit list" where
  "popped_edits c = (case Option.bind c change_into_edits of None \<Rightarrow> [] | Some es \<Rightarrow> es)"

definition merge_change :: "nat option \<Rightarrow> nat option \<Rightarrow> ('r, 'f, 'a, 'g) doc \<Rightarrow> ('r, 'f, 'a, 'g) doc" where
  "merge_change session delete_token d =
     (let (insert_undo, m) = pop_token session (doc_changes d);
          (delete_undo, m) = pop_token delete_token m;
          before = (case delete_undo of Some c \<Rightarrow> change_cursor_before c
                    | None \<Rightarrow> (case insert_undo of Some c \<Rightarrow> change_cursor_before c
                              | None \<Rightarrow> cursor_position d));
          merged = popped_edits delete_undo @ popped_edits insert_undo;
          m = (if merged \<noteq> [] then snd (push_change (change_recorded merged before (cursor_position d)) m)
               else m)
      in d\<lparr>doc_changes := m\<rparr>)"

definition doc_mark_saved :: "('r, 'f, 'a, 'g) doc \<Rightarrow> ('r, 'f, 'a, 'g) doc" where
  "doc_mark_saved d =
     d\<lparr>doc_changes := change_mark_saved (doc_changes d), doc_buffer := doc_buffer d\<lparr>buf_modified := False\<rparr>\<rparr>"

definition fixup_after_bypass_mutation :: "('r, 'f, 'a, 'g) doc \<Rightarrow> ('r, 'f, 'a, 'g) doc" where
  "fixup_after_bypass_mutation d =
     d\<lparr>doc_buffer := doc_buffer d\<lparr>buf_edit_log := edit_log_clear (buf_edit_log (doc_buffer d))\<rparr>,
       doc_changes := change_clear_save_point (doc_changes d)\<rparr>"

definition editor_is_modified :: "('r, 'f, 'a, 'g) doc \<Rightarrow> bool" where
  "editor_is_modified d \<longleftrightarrow> buf_modified (doc_buffer d) \<or> \<not> is_at_save_point (doc_changes d)"

end
