(* ===== verification/UndoLaws.thy ===== *)
theory UndoLaws
  imports Undo
begin

text \<open>
  What undo and redo guarantee: no state of the history is lost or reordered, the texts the stacks
  stand for are the texts the buffer had, and the save point and the modified flag tell whether the
  text is the one last saved.
\<close>

section \<open>The texts a history stands for\<close>

text \<open>
  \<open>T\<close> gives the text of each state, by sequence number. An entry leads from the state below it to
  its own: forwards by replaying its edits, backwards by their inverses.
\<close>

definition change_edits :: "change \<Rightarrow> edit list" where
  "change_edits c = (case change_into_edits c of None \<Rightarrow> [] | Some es \<Rightarrow> es)"

lemma change_edits_simps [simp]:
  "change_edits (Recorded es before after gid start) = es" "change_edits (ResourceOp snaps before after) = []"
  "change_edits (set_group g c) = change_edits c"
  by (cases c; simp add: change_edits_def)+

definition entry_leads :: "(nat \<Rightarrow> rstr) \<Rightarrow> nat \<Rightarrow> undo_entry \<Rightarrow> bool" where
  "entry_leads T below e \<longleftrightarrow>
     edits_valid (T below) (change_edits (ent_change e)) \<and>
     T (ent_seq e) = replay (T below) (change_edits (ent_change e))"

fun undo_chain :: "(nat \<Rightarrow> rstr) \<Rightarrow> undo_entry list \<Rightarrow> bool" where
  "undo_chain T [] \<longleftrightarrow> True"
| "undo_chain T (e # us) \<longleftrightarrow> entry_leads T (stack_top_seq us) e \<and> undo_chain T us"

fun redo_chain :: "(nat \<Rightarrow> rstr) \<Rightarrow> nat \<Rightarrow> undo_entry list \<Rightarrow> bool" where
  "redo_chain T s [] \<longleftrightarrow> True"
| "redo_chain T s (e # rd) \<longleftrightarrow> entry_leads T s e \<and> redo_chain T (ent_seq e) rd"

definition chain :: "(nat \<Rightarrow> rstr) \<Rightarrow> undo_entry list \<Rightarrow> undo_entry list \<Rightarrow> bool" where
  "chain T us rd \<longleftrightarrow> undo_chain T us \<and> redo_chain T (stack_top_seq us) rd"

lemma stack_top_seq_simps [simp]: "stack_top_seq [] = 0" "stack_top_seq (e # us) = ent_seq e"
  by (simp_all add: stack_top_seq_def)

lemma chain_move: "chain T (e # us) rd \<longleftrightarrow> chain T us (e # rd)"
  by (auto simp: chain_def)

lemma chain_leads: "chain T (e # us) rd \<Longrightarrow> entry_leads T (stack_top_seq us) e"
  by (simp add: chain_def)

lemma entry_leads_back:
  "entry_leads T below e \<Longrightarrow> unreplay (T (ent_seq e)) (change_edits (ent_change e)) = T below"
  by (simp add: entry_leads_def unreplay_replay)

lemma undo_chain_cong:
  "undo_chain T us \<Longrightarrow> \<forall>e \<in> set us. T' (ent_seq e) = T (ent_seq e) \<Longrightarrow> T' 0 = T 0 \<Longrightarrow> undo_chain T' us"
proof (induction us)
  case (Cons e us)
  then have "T' (stack_top_seq us) = T (stack_top_seq us)" by (cases us) auto
  with Cons show ?case by (simp add: entry_leads_def)
qed simp

lemma undo_chain_group: "undo_chain T (group_entries since g us) \<longleftrightarrow> undo_chain T us"
  and group_top: "stack_top_seq (group_entries since g us) = stack_top_seq us"
proof (induction us)
  case (Cons e us)
  { case 1 then show ?case using Cons by (simp add: entry_leads_def)
  next case 2 then show ?case by simp }
qed simp_all

lemma group_seqs: "ent_seq ` set (group_entries since g us) = ent_seq ` set us"
  by (induction us) (simp_all)

section \<open>One change\<close>

context rope_contract
begin

text \<open>The modified flag may only stay down while the text stays the same.\<close>

definition touches :: "'r buffer \<Rightarrow> 'r buffer \<Rightarrow> bool" where
  "touches b b' \<longleftrightarrow> buf_modifiable b' = buf_modifiable b \<and>
     (\<not> buf_modified b' \<longrightarrow> \<not> buf_modified b \<and> chs (buf_rope b') = chs (buf_rope b))"

lemma touches_refl [simp]: "touches b b"
  and touches_cursor [simp]: "touches b (buffer_set_cursor b' p) = touches b b'"
    "touches b (buffer_validate_cursor_position R b') = touches b b'"
  by (simp_all add: touches_def buffer_set_cursor_def buffer_validate_cursor_position_def Let_def)

lemma touches_trans: "touches b b' \<Longrightarrow> touches b' b'' \<Longrightarrow> touches b b''"
  by (auto simp: touches_def)

lemma cursor_keeps_rope [simp]:
  "buf_rope (buffer_set_cursor b p) = buf_rope b"
  "buf_rope (buffer_validate_cursor_position R b) = buf_rope b"
  by (simp_all add: buffer_set_cursor_def buffer_validate_cursor_position_def Let_def)

lemma edit_apply_touches: "buf_modifiable b \<Longrightarrow> touches b (edit_apply R e b)"
proof -
  assume "buf_modifiable b"
  then obtain r where "edit_apply R e b = (if edit_noop (chs (buf_rope b)) e then b
      else buffer_note_edit b r (clamp_edit (chs (buf_rope b)) e))"
    using edit_apply_eq by blast
  then show ?thesis
    by (cases "edit_noop (chs (buf_rope b)) e") (simp_all add: touches_def buffer_note_edit_def Let_def)
qed

lemma edits_apply_touches: "buf_modifiable b \<Longrightarrow> touches b (foldl (\<lambda>b e. edit_apply R e b) b es)"
proof (induction es arbitrary: b)
  case (Cons e es)
  then have "touches b (edit_apply R e b)" by (simp add: edit_apply_touches)
  then show ?case
    using Cons.IH [of "edit_apply R e b"] Cons.prems touches_trans by (auto simp: touches_def)
qed simp

lemma foldl_inverse:
  "foldl (\<lambda>b e. edit_apply R (edit_inverse e) b) b (rev es) =
   foldl (\<lambda>b e. edit_apply R e b) b (map edit_inverse (rev es))"
  by (simp add: foldl_map)

lemma change_undo_text:
  assumes "buf_modifiable b" and "change_undo R F c (b, fs) = (err, b', fs')"
  shows "touches b b' \<and> chs (buf_rope b') =
     (if err = None then unreplay (chs (buf_rope b)) (change_edits c) else chs (buf_rope b))"
proof (cases c)
  case (Recorded es before after g start)
  then show ?thesis
    using assms edits_apply_text [of b "map edit_inverse (rev es)"]
      edits_apply_touches [of b "map edit_inverse (rev es)"]
    by (auto simp: Let_def foldl_inverse unreplay_def replay_def)
next
  case (ResourceOp snaps before after)
  then show ?thesis
    using assms by (auto split: prod.splits option.splits)
qed

lemma change_apply_text:
  assumes "buf_modifiable b" and "change_apply R F c (b, fs) = (err, b', fs')"
  shows "touches b b' \<and> chs (buf_rope b') =
     (if err = None then replay (chs (buf_rope b)) (change_edits c) else chs (buf_rope b))"
proof (cases c)
  case (Recorded es before after g start)
  then show ?thesis
    using assms edits_apply_text [of b es] edits_apply_touches [of b es] by auto
next
  case (ResourceOp snaps before after)
  then show ?thesis
    using assms by (auto split: prod.splits option.splits)
qed

section \<open>Runs of changes\<close>

text \<open>The stacks and the buffer stand at the same state of the history.\<close>

definition stands :: "(nat \<Rightarrow> rstr) \<Rightarrow> undo_entry list \<Rightarrow> undo_entry list \<Rightarrow> 'r buffer \<Rightarrow> bool" where
  "stands T us rd b \<longleftrightarrow> chain T us rd \<and> chs (buf_rope b) = T (stack_top_seq us) \<and> buf_modifiable b"

lemma undo_one:
  assumes "stands T (e # us) rd b" and "change_undo R F (ent_change e) (b, fs) = (None, b', fs')"
  shows "stands T us (e # rd) b' \<and> touches b b'"
proof -
  have "T (stack_top_seq us) = unreplay (T (ent_seq e)) (change_edits (ent_change e))"
    using assms(1) entry_leads_back chain_leads unfolding stands_def by metis
  then show ?thesis
    using assms change_undo_text [of b F "ent_change e" fs None b' fs']
    by (auto simp: stands_def chain_move touches_def)
qed

lemma redo_one:
  assumes "stands T us (e # rd) b" and "change_apply R F (ent_change e) (b, fs) = (None, b', fs')"
  shows "stands T (e # us) rd b' \<and> touches b b'"
  using assms change_apply_text [of b F "ent_change e" fs None b' fs']
  by (auto simp: stands_def chain_move [symmetric] touches_def chain_def entry_leads_def)

lemma undo_failed:
  assumes "stands T us rd b" and "change_undo R F c (b, fs) = (Some err, b', fs')"
  shows "stands T us rd b' \<and> touches b b'"
  using assms change_undo_text [of b F c fs "Some err" b' fs'] by (auto simp: stands_def touches_def)

lemma redo_failed:
  assumes "stands T us rd b" and "change_apply R F c (b, fs) = (Some err, b', fs')"
  shows "stands T us rd b' \<and> touches b b'"
  using assms change_apply_text [of b F c fs "Some err" b' fs'] by (auto simp: stands_def touches_def)

lemma undo_group_stands:
  "stands T us rd b \<Longrightarrow> undo_group R F gid us rd (b, fs) = (out, us', rd', b', fs') \<Longrightarrow>
   stands T us' rd' b' \<and> touches b b'"
proof (induction us arbitrary: rd b fs)
  case (Cons e us)
  show ?case
  proof (cases "change_undo_group_id (ent_change e) = Some gid")
    case True
    obtain err b1 fs1 where c: "change_undo R F (ent_change e) (b, fs) = (err, b1, fs1)"
      by (metis surj_pair)
    show ?thesis
    proof (cases err)
      case None
      then have "stands T us (e # rd) b1" "touches b b1"
        using undo_one [OF Cons.prems(1), of F fs b1 fs1] c by auto
      moreover have "undo_group R F gid us (e # rd) (b1, fs1) = (out, us', rd', b', fs')"
        using Cons.prems(2) c None True by simp
      ultimately show ?thesis using Cons.IH touches_trans by blast
    next
      case (Some x)
      then show ?thesis
        using undo_failed [OF Cons.prems(1), of F _ fs x b1 fs1] c Cons.prems(2) True by auto
    qed
  qed (use Cons.prems in auto)
qed auto

lemma redo_group_stands:
  "stands T us rd b \<Longrightarrow> redo_group R F gid us rd (b, fs) = (out, us', rd', b', fs') \<Longrightarrow>
   stands T us' rd' b' \<and> touches b b'"
proof (induction rd arbitrary: us b fs)
  case (Cons e rd)
  show ?case
  proof (cases "change_undo_group_id (ent_change e) = Some gid")
    case True
    obtain err b1 fs1 where c: "change_apply R F (ent_change e) (b, fs) = (err, b1, fs1)"
      by (metis surj_pair)
    show ?thesis
    proof (cases err)
      case None
      then have "stands T (e # us) rd b1" "touches b b1"
        using redo_one [OF Cons.prems(1), of F fs b1 fs1] c by auto
      moreover have "redo_group R F gid (e # us) rd (b1, fs1) = (out, us', rd', b', fs')"
        using Cons.prems(2) c None True by simp
      ultimately show ?thesis using Cons.IH touches_trans by blast
    next
      case (Some x)
      then show ?thesis
        using redo_failed [OF Cons.prems(1), of F _ fs x b1 fs1] c Cons.prems(2) True by auto
    qed
  qed (use Cons.prems in auto)
qed auto

lemma manager_undo_stands:
  assumes "stands T (cm_undo_stack m) (cm_redo_stack m) b"
    and "change_manager_undo R F m (b, fs) = (out, m', b', fs')"
  shows "stands T (cm_undo_stack m') (cm_redo_stack m') b' \<and> touches b b'"
proof (cases "cm_undo_stack m")
  case (Cons e us)
  obtain err b1 fs1 where c: "change_undo R F (ent_change e) (b, fs) = (err, b1, fs1)"
    by (metis surj_pair)
  show ?thesis
  proof (cases err)
    case None
    then have one: "stands T us (e # cm_redo_stack m) b1" "touches b b1"
      using undo_one [of T e us "cm_redo_stack m" b F fs b1 fs1] assms(1) c Cons by auto
    then show ?thesis
      using assms(2) c None Cons touches_trans [OF one(2)]
      by (cases "change_undo_group_id (ent_change e)")
        (auto simp: change_manager_undo_def Let_def split: prod.splits
          dest: undo_group_stands [OF one(1)])
  next
    case (Some x)
    then show ?thesis
      using undo_failed [OF assms(1), of F _ fs x b1 fs1] c Cons assms(2) by (auto simp: change_manager_undo_def)
  qed
qed (use assms in \<open>auto simp: change_manager_undo_def\<close>)

lemma manager_redo_stands:
  assumes "stands T (cm_undo_stack m) (cm_redo_stack m) b"
    and "change_manager_redo R F m (b, fs) = (out, m', b', fs')"
  shows "stands T (cm_undo_stack m') (cm_redo_stack m') b' \<and> touches b b'"
proof (cases "cm_redo_stack m")
  case (Cons e rd)
  obtain err b1 fs1 where c: "change_apply R F (ent_change e) (b, fs) = (err, b1, fs1)"
    by (metis surj_pair)
  show ?thesis
  proof (cases err)
    case None
    then have one: "stands T (e # cm_undo_stack m) rd b1" "touches b b1"
      using redo_one [of T "cm_undo_stack m" e rd b F fs b1 fs1] assms(1) c Cons by auto
    then show ?thesis
      using assms(2) c None Cons touches_trans [OF one(2)]
      by (cases "change_undo_group_id (ent_change e)")
        (auto simp: change_manager_redo_def Let_def split: prod.splits
          dest: redo_group_stands [OF one(1)])
  next
    case (Some x)
    then show ?thesis
      using redo_failed [OF assms(1), of F _ fs x b1 fs1] c Cons assms(2) by (auto simp: change_manager_redo_def)
  qed
qed (use assms in \<open>auto simp: change_manager_redo_def\<close>)

end

section \<open>Editing sessions\<close>

text \<open>
  The documents an editing session can reach from one just opened, each with the rope as it was
  last saved. Commands edit through \<open>record_operation\<close> or an insert session.
\<close>

inductive undo_reach ::
  "'r rope_ops \<Rightarrow> 'f fs_ops \<Rightarrow> ('r, 'f, 'a, 'g) doc \<Rightarrow> 'r \<Rightarrow> bool"
  for R :: "'r rope_ops" and F :: "'f fs_ops" where
  opened: "doc_changes d = change_manager_new \<Longrightarrow> buf_modifiable (doc_buffer d) \<Longrightarrow>
    buf_recording (doc_buffer d) = None \<Longrightarrow> undo_reach R F d (buf_rope (doc_buffer d))"
| command: "undo_reach R F d s \<Longrightarrow>
    mutates R ((doc_buffer d)\<lparr>buf_recording := Some recording_session_default\<rparr>)
      (snd (f ((doc_buffer d)\<lparr>buf_recording := Some recording_session_default\<rparr>))) \<Longrightarrow>
    undo_reach R F (snd (record_operation (f :: 'r buffer \<Rightarrow> unit \<times> 'r buffer) repeat d)) s"
| insert_session: "undo_reach R F d s \<Longrightarrow>
    d1 = start_change_building p d \<Longrightarrow>
    mutates R (doc_buffer d1) b \<Longrightarrow>
    undo_reach R F (snd (finalize_change_building
      (d1\<lparr>doc_buffer := b, doc_changes := change_set_entry_mode mode (doc_changes d1)\<rparr>))) s"
| merged: "undo_reach R F d s \<Longrightarrow> undo_reach R F (merge_change session delete_token d) s"
| undone: "undo_reach R F d s \<Longrightarrow> undo_reach R F (undo_count R F n d) s"
| redone: "undo_reach R F d s \<Longrightarrow> undo_reach R F (redo_count R F n d) s"
| saved: "undo_reach R F d s \<Longrightarrow> undo_reach R F (doc_mark_saved d) (buf_rope (doc_buffer d))"
| grouped: "undo_reach R F d s \<Longrightarrow>
    undo_reach R F (d\<lparr>doc_changes := group_since since (doc_changes d)\<rparr>) s"
| moved: "undo_reach R F d s \<Longrightarrow>
    undo_reach R F (d\<lparr>doc_buffer := (doc_buffer d)\<lparr>buf_cursor := c\<rparr>, doc_undo_group := g\<rparr>) s"
| noted: "undo_reach R F d s \<Longrightarrow>
    undo_reach R F (d\<lparr>doc_registers := m,
      doc_changes := (doc_changes d)\<lparr>cm_last_repeat_register := register\<rparr>\<rparr>) s"
| jumped_older: "undo_reach R F d s \<Longrightarrow>
    undo_reach R F (d\<lparr>doc_changes := snd (jump_change_older n (doc_changes d))\<rparr>) s"
| jumped_newer: "undo_reach R F d s \<Longrightarrow>
    undo_reach R F (d\<lparr>doc_changes := snd (jump_change_newer n (doc_changes d))\<rparr>) s"

lemma note_edit_position_stacks [simp]:
  "cm_undo_stack (note_edit_position p m) = cm_undo_stack m"
  "cm_redo_stack (note_edit_position p m) = cm_redo_stack m"
  "cm_next_seq (note_edit_position p m) = cm_next_seq m"
  "cm_save_point (note_edit_position p m) = cm_save_point m"
  by (simp_all add: note_edit_position_def Let_def)

lemma push_change_fields:
  "cm_undo_stack (snd (push_change c m)) = \<lparr>ent_change = c, ent_seq = cm_next_seq m\<rparr> # cm_undo_stack m"
  "cm_redo_stack (snd (push_change c m)) = []"
  "cm_next_seq (snd (push_change c m)) = cm_next_seq m + 1"
  "cm_save_point (snd (push_change c m)) = cm_save_point m"
  by (simp_all add: push_change_def Let_def)

lemma set_repeat_action_stacks [simp]:
  "cm_undo_stack (change_set_repeat_action act m) = cm_undo_stack m"
  "cm_redo_stack (change_set_repeat_action act m) = cm_redo_stack m"
  "cm_next_seq (change_set_repeat_action act m) = cm_next_seq m"
  "cm_save_point (change_set_repeat_action act m) = cm_save_point m"
  by (simp_all add: change_set_repeat_action_def)

text \<open>Undo and redo only rotate entries between the stacks.\<close>

abbreviation zipper :: "undo_entry list \<Rightarrow> undo_entry list \<Rightarrow> undo_entry list" where
  "zipper us rd \<equiv> rev us @ rd"

lemma undo_group_zipper: "undo_group R F g us rd w = (out, us', rd', w') \<Longrightarrow> zipper us' rd' = zipper us rd"
  by (induction us arbitrary: rd w) (fastforce split: if_splits prod.splits option.splits)+

lemma redo_group_zipper: "redo_group R F g us rd w = (out, us', rd', w') \<Longrightarrow> zipper us' rd' = zipper us rd"
  by (induction rd arbitrary: us w) (fastforce split: if_splits prod.splits option.splits)+

lemma manager_undo_zipper:
  assumes "change_manager_undo R F m w = (out, m', w')"
  shows "zipper (cm_undo_stack m') (cm_redo_stack m') = zipper (cm_undo_stack m) (cm_redo_stack m)"
    and "cm_next_seq m' = cm_next_seq m" and "cm_save_point m' = cm_save_point m"
  using assms
  by (auto simp: change_manager_undo_def Let_def dest: undo_group_zipper
      split: list.splits prod.splits option.splits)

lemma manager_redo_zipper:
  assumes "change_manager_redo R F m w = (out, m', w')"
  shows "zipper (cm_undo_stack m') (cm_redo_stack m') = zipper (cm_undo_stack m) (cm_redo_stack m)"
    and "cm_next_seq m' = cm_next_seq m" and "cm_save_point m' = cm_save_point m"
  using assms
  by (auto simp: change_manager_redo_def Let_def dest: redo_group_zipper
      split: list.splits prod.splits option.splits)

lemma zipper_set: "zipper us' rd' = zipper us rd \<Longrightarrow> set us' \<union> set rd' = set us \<union> set rd"
  by (metis set_append set_rev)

context rope_contract
begin

definition seqs_below :: "'a change_manager \<Rightarrow> bool" where
  "seqs_below m \<longleftrightarrow> 0 < cm_next_seq m \<and>
     (\<forall>e \<in> set (cm_undo_stack m) \<union> set (cm_redo_stack m). ent_seq e < cm_next_seq m)"

definition save_known :: "(nat \<Rightarrow> rstr) \<Rightarrow> rstr \<Rightarrow> 'a change_manager \<Rightarrow> bool" where
  "save_known T saved m \<longleftrightarrow> (\<forall>s. cm_save_point m = Some s \<longrightarrow> s < cm_next_seq m \<and> T s = saved)"

definition doc_ok :: "(nat \<Rightarrow> rstr) \<Rightarrow> rstr \<Rightarrow> ('r, 'f, 'a, 'g) doc \<Rightarrow> bool" where
  "doc_ok T saved d \<longleftrightarrow>
     stands T (cm_undo_stack (doc_changes d)) (cm_redo_stack (doc_changes d)) (doc_buffer d) \<and>
     seqs_below (doc_changes d) \<and> save_known T saved (doc_changes d) \<and>
     buf_recording (doc_buffer d) = None \<and>
     (\<not> buf_modified (doc_buffer d) \<longrightarrow> chs (buf_rope (doc_buffer d)) = saved)"

lemma doc_ok_save_point:
  "doc_ok T saved d \<Longrightarrow> is_at_save_point (doc_changes d) \<Longrightarrow> chs (buf_rope (doc_buffer d)) = saved"
  by (auto simp: doc_ok_def is_at_save_point_def save_known_def stands_def change_top_seq_def)

text \<open>Pushing a change that leads from the top of the history to the text.\<close>

lemma push_ok:
  assumes "undo_chain T (cm_undo_stack m)" and below: "seqs_below m" and "save_known T saved m"
    and "edits_valid (T (change_top_seq m)) (change_edits c)"
    and "s = replay (T (change_top_seq m)) (change_edits c)"
  defines "T' \<equiv> T (cm_next_seq m := s)" and "m' \<equiv> snd (push_change c m)"
  shows "chain T' (cm_undo_stack m') (cm_redo_stack m') \<and> T' (change_top_seq m') = s \<and>
    seqs_below m' \<and> save_known T' saved m'"
proof -
  have same: "\<forall>e \<in> set (cm_undo_stack m). T' (ent_seq e) = T (ent_seq e)" "T' 0 = T 0"
    using below unfolding T'_def seqs_below_def by (metis UnI1 fun_upd_apply nat_neq_iff)+
  have top: "T' (change_top_seq m) = T (change_top_seq m)"
    using same by (cases "cm_undo_stack m") (auto simp: change_top_seq_def)
  have "undo_chain T' (cm_undo_stack m)"
    using undo_chain_cong [OF assms(1) same] .
  then have "chain T' (cm_undo_stack m') (cm_redo_stack m')"
    using assms(4,5) top
    by (simp add: chain_def m'_def push_change_fields entry_leads_def T'_def change_top_seq_def)
  moreover have "T' (change_top_seq m') = s"
    by (simp add: change_top_seq_def m'_def push_change_fields T'_def)
  moreover have "seqs_below m'"
    using below by (auto simp: seqs_below_def m'_def push_change_fields intro: less_SucI)
  moreover have "save_known T' saved m'"
    using assms(3) by (auto simp: save_known_def m'_def push_change_fields T'_def)
  ultimately show ?thesis by blast
qed

lemma record_effect:
  assumes "mutates R (b\<lparr>buf_recording := Some recording_session_default\<rparr>)
             (snd (f (b\<lparr>buf_recording := Some recording_session_default\<rparr>)))"
    and "buffer_record f b = ((result, es), b')"
  shows "edits_valid (chs (buf_rope b)) es" "chs (buf_rope b') = replay (chs (buf_rope b)) es"
    "buf_modifiable b' = buf_modifiable b" "buf_modified b' = (buf_modified b \<or> es \<noteq> [])"
    "buf_recording b' = None"
  using recorded_edits [OF assms] assms(2)
  by (auto simp: buffer_record_def buffer_end_recording_def Let_def split: prod.splits)

end

section \<open>Every operation keeps the history sound\<close>

lemma redo_chain_cong: "T s = T s' \<Longrightarrow> redo_chain T s rd = redo_chain T s' rd"
  by (cases rd) (auto simp: entry_leads_def)

lemma popped_edits_Some [simp]: "popped_edits (Some c) = change_edits c" "popped_edits None = []"
  by (simp_all add: popped_edits_def change_edits_def)

text \<open>What closing an insert session does to the document.\<close>

lemma finalize_buffer:
  "doc_buffer (snd (finalize_change_building d)) = (doc_buffer d)\<lparr>buf_recording := None\<rparr>"
  by (simp add: finalize_change_building_def buffer_end_recording_def Let_def case_prod_beta split: option.split)

lemma finalize_empty:
  assumes "buf_recording (doc_buffer d) = Some ses" and "cm_current_builder (doc_changes d) = Some bld"
    and "rec_edits ses = []"
  defines "m \<equiv> (doc_changes d)\<lparr>cm_current_builder := None\<rparr>"
  shows "doc_changes (snd (finalize_change_building d)) = m \<or>
    (\<exists>act. doc_changes (snd (finalize_change_building d)) = change_set_repeat_action act m)"
  using assms by (simp add: finalize_change_building_def buffer_end_recording_def Let_def) blast

lemma finalize_pushes:
  assumes "buf_recording (doc_buffer d) = Some ses" and "cm_current_builder (doc_changes d) = Some bld"
    and "rec_edits ses \<noteq> []"
  defines "m \<equiv> (doc_changes d)\<lparr>cm_current_builder := None\<rparr>"
  shows "\<exists>c act. change_edits c = rec_edits ses \<and>
    doc_changes (snd (finalize_change_building d)) = change_set_repeat_action act (snd (push_change c m))"
proof -
  define c where "c = (case rec_origin_cursor ses of
      Some start \<Rightarrow> change_recorded_with_edit_start (rec_edits ses) (bld_cursor_before bld) (cursor_position d) start
    | None \<Rightarrow> change_recorded (rec_edits ses) (bld_cursor_before bld) (cursor_position d))"
  have "change_edits c = rec_edits ses"
    by (simp add: c_def change_recorded_def change_recorded_with_edit_start_def split: option.split)
  moreover have "doc_changes (snd (finalize_change_building d)) =
      change_set_repeat_action
        (map_option (\<lambda>off. InsertSession 1 (bld_entry_mode bld) off (rec_edits ses)) (rec_origin ses))
        (snd (push_change c m))"
    using assms(1-3)
    by (simp add: finalize_change_building_def buffer_end_recording_def Let_def case_prod_beta m_def c_def
        split: option.split)
  ultimately show ?thesis by blast
qed

context rope_contract
begin

text \<open>The text is ahead of the history by the edits \<open>pend\<close>, which a push would make a change.\<close>

definition ahead :: "(nat \<Rightarrow> rstr) \<Rightarrow> rstr \<Rightarrow> 'a change_manager \<Rightarrow> edit list \<Rightarrow> rstr \<Rightarrow> bool" where
  "ahead T saved m pend s \<longleftrightarrow>
     undo_chain T (cm_undo_stack m) \<and> seqs_below m \<and> save_known T saved m \<and>
     edits_valid (T (change_top_seq m)) pend \<and> s = replay (T (change_top_seq m)) pend \<and>
     (pend = [] \<longrightarrow> redo_chain T (change_top_seq m) (cm_redo_stack m))"

lemma ahead_doc_ok:
  "ahead T saved (doc_changes d) [] (chs (buf_rope (doc_buffer d))) \<Longrightarrow>
   buf_modifiable (doc_buffer d) \<Longrightarrow> buf_recording (doc_buffer d) = None \<Longrightarrow>
   \<not> buf_modified (doc_buffer d) \<longrightarrow> chs (buf_rope (doc_buffer d)) = saved \<Longrightarrow> doc_ok T saved d"
  by (simp add: ahead_def doc_ok_def stands_def chain_def change_top_seq_def)

lemma doc_ok_ahead:
  "doc_ok T saved d \<Longrightarrow> ahead T saved (doc_changes d) [] (chs (buf_rope (doc_buffer d)))"
  by (simp add: ahead_def doc_ok_def stands_def chain_def change_top_seq_def)

lemma ahead_edits:
  "ahead T saved m [] s \<Longrightarrow> edits_valid s es \<Longrightarrow> s' = replay s es \<Longrightarrow> ahead T saved m es s'"
  by (auto simp: ahead_def)

lemma ahead_push:
  assumes "ahead T saved m (change_edits c) s"
  shows "\<exists>T'. ahead T' saved (snd (push_change c m)) [] s"
proof -
  let ?T = "T (cm_next_seq m := s)"
  have "chain ?T (cm_undo_stack (snd (push_change c m))) (cm_redo_stack (snd (push_change c m))) \<and>
      ?T (change_top_seq (snd (push_change c m))) = s \<and> seqs_below (snd (push_change c m)) \<and>
      save_known ?T saved (snd (push_change c m))"
    using assms by (intro push_ok) (auto simp: ahead_def)
  then show ?thesis
    by (intro exI [of _ ?T]) (simp add: ahead_def chain_def push_change_fields)
qed

lemma ahead_stacks:
  "ahead T saved m pend s \<Longrightarrow> cm_undo_stack m' = cm_undo_stack m \<Longrightarrow> cm_redo_stack m' = cm_redo_stack m \<Longrightarrow>
   cm_next_seq m' = cm_next_seq m \<Longrightarrow> cm_save_point m' = cm_save_point m \<Longrightarrow> ahead T saved m' pend s"
  by (simp add: ahead_def seqs_below_def save_known_def change_top_seq_def)

lemma ahead_pop:
  assumes "ahead T saved m pend s" and "pop_token token m = (c, m')"
  shows "ahead T saved m' (popped_edits c @ pend) s"
proof (cases "c")
  case None
  then show ?thesis
    using assms by (auto simp: pop_token_def change_pop_by_token_def split: option.splits if_splits list.splits)
next
  case (Some ch)
  then obtain e us where us: "cm_undo_stack m = e # us" "ch = ent_change e" "m' = m\<lparr>cm_undo_stack := us\<rparr>"
    using assms(2) by (auto simp: pop_token_def change_pop_by_token_def split: option.splits if_splits list.splits)
  then have lead: "entry_leads T (stack_top_seq us) e" and "undo_chain T us"
    using assms(1) by (auto simp: ahead_def)
  moreover have "redo_chain T (stack_top_seq us) (cm_redo_stack m)"
    if "change_edits ch = []" "pend = []"
    using that lead assms(1) us redo_chain_cong [of T "ent_seq e" "stack_top_seq us"]
    by (auto simp: ahead_def entry_leads_def change_top_seq_def)
  ultimately show ?thesis
    using assms(1) us Some
    by (auto simp: ahead_def seqs_below_def save_known_def entry_leads_def change_top_seq_def)
qed

lemma record_operation_ok:
  assumes ok: "doc_ok T saved d"
    and f: "mutates R ((doc_buffer d)\<lparr>buf_recording := Some recording_session_default\<rparr>)
      (snd (f ((doc_buffer d)\<lparr>buf_recording := Some recording_session_default\<rparr>)))"
  shows "\<exists>T'. doc_ok T' saved (snd (record_operation f repeat d))"
proof -
  obtain r es b where rec: "buffer_record f (doc_buffer d) = ((r, es), b)"
    by (metis surj_pair)
  note eff = record_effect [OF f rec]
  let ?d = "snd (record_operation f repeat d)"
  have b: "doc_buffer ?d = b"
    by (simp add: record_operation_def rec push_recorded_undo_def Let_def split: prod.splits option.splits)
  have ah: "ahead T saved (doc_changes d) es (chs (buf_rope b))"
    using ahead_edits [OF doc_ok_ahead [OF ok]] eff by simp
  have flag: "\<not> buf_modified b \<longrightarrow> chs (buf_rope b) = saved"
    using ok eff by (auto simp: doc_ok_def)
  have "\<exists>T'. ahead T' saved (doc_changes ?d) [] (chs (buf_rope b))"
  proof (cases "es = []")
    case True
    then show ?thesis using ah by (auto simp: record_operation_def rec)
  next
    case False
    define c where "c = (case doc_undo_group d of
        Some gid \<Rightarrow> change_recorded_grouped es (cursor_position d) (cursor_position (d\<lparr>doc_buffer := b\<rparr>)) gid
      | None \<Rightarrow> change_recorded es (cursor_position d) (cursor_position (d\<lparr>doc_buffer := b\<rparr>)))"
    then have "change_edits c = es"
      by (simp add: change_recorded_grouped_def change_recorded_def split: option.splits)
    then obtain T' where "ahead T' saved (snd (push_change c (doc_changes d))) [] (chs (buf_rope b))"
      using ahead_push ah by blast
    moreover have "doc_changes ?d = (case repeat of None \<Rightarrow> snd (push_change c (doc_changes d))
        | Some action \<Rightarrow> change_set_repeat_action (Some action) (snd (push_change c (doc_changes d))))"
      using False
      by (simp add: record_operation_def rec push_recorded_undo_def c_def Let_def case_prod_beta split: option.splits)
    ultimately show ?thesis
      by (intro exI [of _ T']) (auto intro: ahead_stacks split: option.splits)
  qed
  then show ?thesis
    using ahead_doc_ok [of _ saved ?d] b eff flag ok by (auto simp: doc_ok_def stands_def)
qed

lemma finalize_ok:
  assumes ok: "doc_ok T saved d" and d1: "d1 = start_change_building p d"
    and mut: "mutates R (doc_buffer d1) b"
    and d2: "d2 = d1\<lparr>doc_buffer := b, doc_changes := change_set_entry_mode mode (doc_changes d1)\<rparr>"
  shows "\<exists>T'. doc_ok T' saved (snd (finalize_change_building d2))"
proof -
  obtain es where ev: "evolves (doc_buffer d1) es b"
    using mutates_evolves [OF mut] by blast
  have b1: "doc_buffer d1 = buffer_begin_recording (doc_buffer d)"
    using ok d1 by (simp add: start_change_building_def doc_ok_def)
  obtain ses where ses: "buf_recording b = Some ses" "rec_edits ses = es"
    using ev b1
    by (cases "buf_recording b") (auto simp: evolves_def buffer_begin_recording_def recording_session_default_def)
  have rec: "buf_recording (doc_buffer d2) = Some ses" using ses d2 by simp
  let ?d = "snd (finalize_change_building d2)"
  let ?b = "b\<lparr>buf_recording := None\<rparr>"
  let ?m = "(doc_changes d2)\<lparr>cm_current_builder := None\<rparr>"
  have b: "doc_buffer ?d = ?b"
    using finalize_buffer [of d2] by (simp add: d2)
  have eff: "edits_valid (chs (buf_rope (doc_buffer d))) es"
      "chs (buf_rope b) = replay (chs (buf_rope (doc_buffer d))) es"
      "buf_modifiable b = buf_modifiable (doc_buffer d)"
      "buf_modified b = (buf_modified (doc_buffer d) \<or> es \<noteq> [])"
    using ev b1 by (auto simp: evolves_def buffer_begin_recording_def)
  have stacks: "cm_undo_stack ?m = cm_undo_stack (doc_changes d)" "cm_redo_stack ?m = cm_redo_stack (doc_changes d)"
      "cm_next_seq ?m = cm_next_seq (doc_changes d)" "cm_save_point ?m = cm_save_point (doc_changes d)"
    by (simp_all add: d2 d1 start_change_building_def change_set_entry_mode_def change_start_building_def)
  have ah: "ahead T saved ?m es (chs (buf_rope b))"
    using ahead_stacks [OF ahead_edits [OF doc_ok_ahead [OF ok] eff(1,2)]] stacks by blast
  obtain bld where bld: "cm_current_builder (doc_changes d2) = Some bld"
    by (simp add: d2 d1 start_change_building_def change_set_entry_mode_def change_start_building_def)
  have "\<exists>T'. ahead T' saved (doc_changes ?d) [] (chs (buf_rope b))"
  proof (cases "es = []")
    case True
    have "doc_changes ?d = ?m \<or> (\<exists>act. doc_changes ?d = change_set_repeat_action act ?m)"
      using finalize_empty [OF rec bld] True ses(2) by blast
    then show ?thesis using ah True ahead_stacks set_repeat_action_stacks by metis
  next
    case False
    have "\<exists>c act. change_edits c = es \<and>
        doc_changes ?d = change_set_repeat_action act (snd (push_change c ?m))"
      using finalize_pushes [OF rec bld] False ses(2) by blast
    then obtain c act where "change_edits c = es"
        "doc_changes ?d = change_set_repeat_action act (snd (push_change c ?m))" by blast
    moreover obtain T' where "ahead T' saved (snd (push_change c ?m)) [] (chs (buf_rope b))"
      using ahead_push ah \<open>change_edits c = es\<close> by blast
    ultimately show ?thesis by (intro exI [of _ T']) (auto intro: ahead_stacks)
  qed
  moreover have "\<not> buf_modified b \<longrightarrow> chs (buf_rope b) = saved"
    using ok eff by (auto simp: doc_ok_def)
  ultimately show ?thesis
    using ahead_doc_ok [of _ saved ?d] b eff ok by (auto simp: doc_ok_def stands_def)
qed

end

lemma group_redo [simp]:
  "cm_redo_stack (group_since since m) = cm_redo_stack m" "cm_next_seq (group_since since m) = cm_next_seq m"
  "cm_save_point (group_since since m) = cm_save_point m"
  "cm_undo_stack (group_since since m) = group_entries since (2 ^ 64 - 1 - since) (cm_undo_stack m)"
  by (simp_all add: group_since_def)

lemma jump_stacks:
  "cm_undo_stack (snd (jump_change_older n m)) = cm_undo_stack m"
  "cm_redo_stack (snd (jump_change_older n m)) = cm_redo_stack m"
  "cm_next_seq (snd (jump_change_older n m)) = cm_next_seq m"
  "cm_save_point (snd (jump_change_older n m)) = cm_save_point m"
  "cm_undo_stack (snd (jump_change_newer n m)) = cm_undo_stack m"
  "cm_redo_stack (snd (jump_change_newer n m)) = cm_redo_stack m"
  "cm_next_seq (snd (jump_change_newer n m)) = cm_next_seq m"
  "cm_save_point (snd (jump_change_newer n m)) = cm_save_point m"
  by (simp_all add: jump_change_older_def jump_change_newer_def Let_def)

context rope_contract
begin

lemma merge_ok:
  assumes ok: "doc_ok T saved d"
  shows "\<exists>T'. doc_ok T' saved (merge_change session delete_token d)"
proof -
  let ?s = "chs (buf_rope (doc_buffer d))"
  obtain ins m1 where p1: "pop_token session (doc_changes d) = (ins, m1)" by fastforce
  obtain del m2 where p2: "pop_token delete_token m1 = (del, m2)" by fastforce
  let ?merged = "popped_edits del @ popped_edits ins"
  have ah: "ahead T saved m2 ?merged ?s"
    using ahead_pop [OF ahead_pop [OF doc_ok_ahead [OF ok] p1] p2] by simp
  let ?d = "merge_change session delete_token d"
  have "\<exists>c. change_edits c = ?merged \<and>
      doc_changes ?d = (if ?merged = [] then m2 else snd (push_change c m2))"
    unfolding merge_change_def p1 p2 Let_def prod.case
    by (intro exI [of _ "change_recorded ?merged _ _"] conjI) (auto simp: change_recorded_def)
  then obtain T' where T': "ahead T' saved (doc_changes ?d) [] ?s"
    using ah ahead_push by (metis (no_types, lifting))
  have "doc_buffer ?d = doc_buffer d"
    by (simp add: merge_change_def p1 p2 Let_def)
  then have "doc_ok T' saved ?d"
    using T' ok by (intro ahead_doc_ok) (auto simp: doc_ok_def stands_def)
  then show ?thesis by blast
qed

lemma buffer_undo_ok:
  assumes ok: "doc_ok T saved d"
  shows "doc_ok T saved (snd (buffer_undo R F d))"
proof -
  let ?b = "(doc_buffer d)\<lparr>buf_recording := Some recording_session_default\<rparr>"
  obtain out m b fs where u: "change_manager_undo R F (doc_changes d) (?b, doc_fs d) = (out, m, b, fs)"
    by (metis surj_pair)
  have "stands T (cm_undo_stack (doc_changes d)) (cm_redo_stack (doc_changes d)) ?b"
    using ok by (simp add: doc_ok_def stands_def)
  from manager_undo_stands [OF this u]
  have st: "stands T (cm_undo_stack m) (cm_redo_stack m) b" and t: "touches ?b b" by auto
  have "seqs_below m" "save_known T saved m"
    using ok manager_undo_zipper [OF u] zipper_set [OF manager_undo_zipper(1) [OF u]]
    by (auto simp: doc_ok_def seqs_below_def save_known_def)
  moreover have "doc_changes (snd (buffer_undo R F d)) = m"
    and "\<exists>b'. doc_buffer (snd (buffer_undo R F d)) = b' \<and> buf_rope b' = buf_rope b \<and>
      buf_modifiable b' = buf_modifiable b \<and> buf_modified b' = buf_modified b \<and> buf_recording b' = None"
    by (simp_all add: buffer_undo_def buffer_record_def u buffer_end_recording_def Let_def
        buffer_validate_cursor_position_def)
  ultimately show ?thesis
    using ok st t by (auto simp: doc_ok_def stands_def touches_def)
qed

lemma buffer_redo_ok:
  assumes ok: "doc_ok T saved d"
  shows "doc_ok T saved (snd (buffer_redo R F d))"
proof -
  let ?b = "(doc_buffer d)\<lparr>buf_recording := Some recording_session_default\<rparr>"
  obtain out m b fs where u: "change_manager_redo R F (doc_changes d) (?b, doc_fs d) = (out, m, b, fs)"
    by (metis surj_pair)
  have "stands T (cm_undo_stack (doc_changes d)) (cm_redo_stack (doc_changes d)) ?b"
    using ok by (simp add: doc_ok_def stands_def)
  from manager_redo_stands [OF this u]
  have st: "stands T (cm_undo_stack m) (cm_redo_stack m) b" and t: "touches ?b b" by auto
  have "seqs_below m" "save_known T saved m"
    using ok manager_redo_zipper [OF u] zipper_set [OF manager_redo_zipper(1) [OF u]]
    by (auto simp: doc_ok_def seqs_below_def save_known_def)
  moreover have "doc_changes (snd (buffer_redo R F d)) = m"
    and "\<exists>b'. doc_buffer (snd (buffer_redo R F d)) = b' \<and> buf_rope b' = buf_rope b \<and>
      buf_modifiable b' = buf_modifiable b \<and> buf_modified b' = buf_modified b \<and> buf_recording b' = None"
    by (simp_all add: buffer_redo_def buffer_record_def u buffer_end_recording_def Let_def
        buffer_validate_cursor_position_def)
  ultimately show ?thesis
    using ok st t by (auto simp: doc_ok_def stands_def touches_def)
qed

lemma undo_loop_ok: "doc_ok T saved d \<Longrightarrow> doc_ok T saved (undo_loop R F n d)"
proof (induction n arbitrary: d)
  case (Suc n)
  obtain out es d' where u: "buffer_undo R F d = ((out, es), d')" by (metis surj_pair)
  then have "doc_ok T saved d'" using buffer_undo_ok [OF Suc.prems, of F] by simp
  then show ?case using Suc.IH u by simp
qed simp

lemma redo_loop_ok: "doc_ok T saved d \<Longrightarrow> doc_ok T saved (redo_loop R F n d)"
proof (induction n arbitrary: d)
  case (Suc n)
  obtain out es d' where u: "buffer_redo R F d = ((out, es), d')" by (metis surj_pair)
  then have "doc_ok T saved d'" using buffer_redo_ok [OF Suc.prems, of F] by simp
  then show ?case using Suc.IH u by simp
qed simp

lemma sync_ok: "doc_ok T saved d \<Longrightarrow> doc_ok T saved (sync_modified_flag d)"
proof (cases "is_at_save_point (doc_changes d)")
  case True
  assume ok: "doc_ok T saved d"
  then have "chs (buf_rope (doc_buffer d)) = saved" using True by (rule doc_ok_save_point)
  with ok True show ?thesis by (auto simp: sync_modified_flag_def doc_ok_def stands_def)
qed (simp add: sync_modified_flag_def)

lemma saved_ok: "doc_ok T saved d \<Longrightarrow> doc_ok T (chs (buf_rope (doc_buffer d))) (doc_mark_saved d)"
proof -
  assume ok: "doc_ok T saved d"
  let ?m = "doc_changes d"
  have "change_top_seq ?m < cm_next_seq ?m"
    using ok by (cases "cm_undo_stack ?m") (simp_all add: change_top_seq_def doc_ok_def seqs_below_def)
  then have "save_known T (chs (buf_rope (doc_buffer d))) (change_mark_saved ?m)"
    using ok by (simp add: save_known_def change_mark_saved_def doc_ok_def stands_def change_top_seq_def)
  then show ?thesis
    using ok by (simp add: doc_mark_saved_def doc_ok_def change_mark_saved_def stands_def seqs_below_def)
qed

lemma group_ok: "doc_ok T saved d \<Longrightarrow> doc_ok T saved (d\<lparr>doc_changes := group_since since (doc_changes d)\<rparr>)"
proof -
  assume ok: "doc_ok T saved d"
  let ?us = "cm_undo_stack (doc_changes d)" let ?us' = "group_entries since (2 ^ 64 - 1 - since) ?us"
  have "ent_seq e < cm_next_seq (doc_changes d)" if "e \<in> set ?us'" for e
  proof -
    have "ent_seq e \<in> ent_seq ` set ?us"
      using that group_seqs [of since "2 ^ 64 - 1 - since" ?us] by blast
    then show ?thesis using ok by (auto simp: doc_ok_def seqs_below_def)
  qed
  then have "seqs_below (group_since since (doc_changes d))"
    using ok by (auto simp: seqs_below_def doc_ok_def)
  then show ?thesis
    using ok by (auto simp: doc_ok_def stands_def chain_def undo_chain_group group_top save_known_def)
qed

lemma doc_ok_stacks:
  "doc_ok T saved d \<Longrightarrow> cm_undo_stack m = cm_undo_stack (doc_changes d) \<Longrightarrow>
   cm_redo_stack m = cm_redo_stack (doc_changes d) \<Longrightarrow> cm_next_seq m = cm_next_seq (doc_changes d) \<Longrightarrow>
   cm_save_point m = cm_save_point (doc_changes d) \<Longrightarrow> doc_ok T saved (d\<lparr>doc_changes := m\<rparr>)"
  by (simp add: doc_ok_def seqs_below_def save_known_def)

lemma reach_ok: "undo_reach R F d s \<Longrightarrow> \<exists>T. doc_ok T (chs s) d"
proof (induction rule: undo_reach.induct)
  case (opened d)
  then have "doc_ok (\<lambda>_. chs (buf_rope (doc_buffer d))) (chs (buf_rope (doc_buffer d))) d"
    by (simp add: doc_ok_def stands_def chain_def seqs_below_def save_known_def change_manager_new_def)
  then show ?case by blast
next
  case (command d s f repeat)
  then show ?case using record_operation_ok by blast
next
  case (insert_session d s d1 p b mode)
  then show ?case using finalize_ok by blast
next
  case (merged d s session delete_token)
  then show ?case using merge_ok by blast
next
  case (undone d s n)
  then show ?case using undo_loop_ok sync_ok unfolding undo_count_def by blast
next
  case (redone d s n)
  then show ?case using redo_loop_ok sync_ok unfolding redo_count_def by blast
next
  case (saved d s)
  then show ?case using saved_ok by blast
next
  case (grouped d s since)
  then show ?case using group_ok by blast
next
  case (moved d s c g)
  then show ?case by (simp add: doc_ok_def stands_def)
next
  case noted
  then show ?case by (simp add: doc_ok_def seqs_below_def save_known_def)
next
  case (jumped_older d s n)
  then show ?case using doc_ok_stacks jump_stacks(1-4) by metis
next
  case (jumped_newer d s n)
  then show ?case using doc_ok_stacks jump_stacks(5-8) by metis
qed

end

section \<open>The shape of undo and redo without filesystem changes\<close>

definition is_recorded :: "undo_entry \<Rightarrow> bool" where
  "is_recorded e \<longleftrightarrow> change_into_edits (ent_change e) \<noteq> None"

definition in_group :: "nat \<Rightarrow> undo_entry \<Rightarrow> bool" where
  "in_group g e \<longleftrightarrow> change_undo_group_id (ent_change e) = Some g"

lemma recorded_undo: "is_recorded e \<Longrightarrow> \<exists>w'. change_undo R F (ent_change e) w = (None, w')"
  by (cases w; cases "ent_change e") (auto simp: is_recorded_def Let_def)

lemma recorded_apply: "is_recorded e \<Longrightarrow> \<exists>w'. change_apply R F (ent_change e) w = (None, w')"
  by (cases w; cases "ent_change e") (auto simp: is_recorded_def Let_def)

lemma undo_group_shape:
  "\<forall>e \<in> set us. is_recorded e \<Longrightarrow>
   \<exists>w'. undo_group R F g us rd w =
     (UndoDone, dropWhile (in_group g) us, rev (takeWhile (in_group g) us) @ rd, w')"
proof (induction us arbitrary: rd w)
  case (Cons e us)
  then obtain w1 where "change_undo R F (ent_change e) w = (None, w1)"
    using recorded_undo [of e R F w] by auto
  then show ?case
    using Cons.IH [of "e # rd" w1] Cons.prems by (auto simp: in_group_def)
qed simp

lemma redo_group_shape:
  "\<forall>e \<in> set xs. is_recorded e \<and> in_group g e \<Longrightarrow> (\<forall>e rd'. rd = e # rd' \<longrightarrow> \<not> in_group g e) \<Longrightarrow>
   \<exists>w'. redo_group R F g us (xs @ rd) w = (UndoDone, rev xs @ us, rd, w')"
proof (induction xs arbitrary: us w)
  case Nil
  then show ?case by (cases rd) (auto simp: in_group_def)
next
  case (Cons e xs)
  then obtain w1 where "change_apply R F (ent_change e) w = (None, w1)"
    using recorded_apply [of e R F w] by auto
  then show ?case
    using Cons.IH [of "e # us" w1] Cons.prems by (auto simp: in_group_def)
qed

text \<open>The entries one undo takes off the stack.\<close>

definition undo_block :: "undo_entry list \<Rightarrow> undo_entry list" where
  "undo_block us = (case us of [] \<Rightarrow> []
     | e # us' \<Rightarrow> e # (case change_undo_group_id (ent_change e) of
         None \<Rightarrow> [] | Some g \<Rightarrow> takeWhile (in_group g) us'))"

lemma undo_block_append: "undo_block us @ drop (length (undo_block us)) us = us"
proof (cases us)
  case (Cons e us')
  then show ?thesis
    by (simp add: undo_block_def split: option.split)
      (metis append_eq_conv_conj takeWhile_dropWhile_id)
qed (simp add: undo_block_def)

lemma dropWhile_drop: "dropWhile P xs = drop (length (takeWhile P xs)) xs"
  by (metis append_eq_conv_conj takeWhile_dropWhile_id)

lemma manager_undo_shape:
  assumes "\<forall>e \<in> set (cm_undo_stack m). is_recorded e" and "cm_undo_stack m \<noteq> []"
  shows "\<exists>w'. change_manager_undo R F m w =
    (UndoDone, m\<lparr>cm_undo_stack := drop (length (undo_block (cm_undo_stack m))) (cm_undo_stack m),
                cm_redo_stack := rev (undo_block (cm_undo_stack m)) @ cm_redo_stack m\<rparr>, w')"
proof -
  obtain e us where us: "cm_undo_stack m = e # us" using assms(2) by (cases "cm_undo_stack m") auto
  obtain w1 where w1: "change_undo R F (ent_change e) w = (None, w1)"
    using recorded_undo [of e R F w] assms(1) us by auto
  show ?thesis
  proof (cases "change_undo_group_id (ent_change e)")
    case (Some g)
    obtain w2 where "undo_group R F g us (e # cm_redo_stack m) w1 =
        (UndoDone, dropWhile (in_group g) us, rev (takeWhile (in_group g) us) @ e # cm_redo_stack m, w2)"
      using undo_group_shape [of us R F g "e # cm_redo_stack m" w1] assms(1) us by auto
    then show ?thesis
      using us w1 Some by (simp add: change_manager_undo_def undo_block_def dropWhile_drop)
  qed (use us w1 in \<open>simp add: change_manager_undo_def undo_block_def\<close>)
qed

lemma manager_redo_shape:
  assumes "cm_redo_stack m = rev (undo_block us) @ rd" and "us \<noteq> []"
    and "\<forall>e \<in> set us. is_recorded e"
    and "\<forall>e rd'. rd = e # rd' \<longrightarrow> change_undo_group_id (ent_change (hd us)) \<noteq> None \<longrightarrow>
      change_undo_group_id (ent_change e) \<noteq> change_undo_group_id (ent_change (hd us))"
  shows "\<exists>w'. change_manager_redo R F m w =
    (UndoDone, m\<lparr>cm_undo_stack := undo_block us @ cm_undo_stack m, cm_redo_stack := rd\<rparr>, w')"
proof -
  obtain e us' where us: "us = e # us'" using assms(2) by (cases us) auto
  show ?thesis
  proof (cases "change_undo_group_id (ent_change e)")
    case None
    then have "undo_block us = [e]" by (simp add: undo_block_def us)
    moreover obtain w1 where "change_apply R F (ent_change e) w = (None, w1)"
      using recorded_apply [of e R F w] assms(3) us by auto
    ultimately show ?thesis
      using assms(1) None by (simp add: change_manager_redo_def)
  next
    case (Some g)
    let ?xs = "rev (undo_block us)"
    have block: "undo_block us = e # takeWhile (in_group g) us'" by (simp add: undo_block_def us Some)
    have all: "\<forall>x \<in> set ?xs. is_recorded x \<and> in_group g x"
      unfolding set_rev block using assms(3) us Some by (auto simp: in_group_def dest: set_takeWhileD)
    obtain x xs where xs: "?xs = x # xs" by (cases ?xs) (auto simp: block)
    obtain w1 where w1: "change_apply R F (ent_change x) w = (None, w1)"
      using recorded_apply [of x R F w] all xs by auto
    have gx: "change_undo_group_id (ent_change x) = Some g"
      using all xs by (simp add: in_group_def)
    have "\<forall>x \<in> set xs. is_recorded x \<and> in_group g x" using all xs by simp
    moreover have "\<forall>e rd'. rd = e # rd' \<longrightarrow> \<not> in_group g e"
      using assms(4) Some us by (auto simp: in_group_def)
    ultimately obtain w2 where "redo_group R F g (x # cm_undo_stack m) (xs @ rd) w1 =
        (UndoDone, rev xs @ x # cm_undo_stack m, rd, w2)"
      using redo_group_shape [of xs g rd R F "x # cm_undo_stack m" w1] by blast
    moreover have "undo_block us = rev xs @ [x]" using xs by (metis rev.simps(2) rev_rev_ident)
    ultimately show ?thesis
      using assms(1) xs w1 gx by (simp add: change_manager_redo_def)
  qed
qed

lemma buffer_undo_shape:
  assumes "\<forall>e \<in> set (cm_undo_stack (doc_changes d)). is_recorded e"
    and "cm_undo_stack (doc_changes d) = us" and "us \<noteq> []"
  shows "fst (fst (buffer_undo R F d)) = UndoDone \<and>
    doc_changes (snd (buffer_undo R F d)) =
      (doc_changes d)\<lparr>cm_undo_stack := drop (length (undo_block us)) us,
                     cm_redo_stack := rev (undo_block us) @ cm_redo_stack (doc_changes d)\<rparr>"
proof -
  obtain w' where "change_manager_undo R F (doc_changes d)
      ((doc_buffer d)\<lparr>buf_recording := Some recording_session_default\<rparr>, doc_fs d) =
    (UndoDone, (doc_changes d)\<lparr>cm_undo_stack := drop (length (undo_block us)) us,
                     cm_redo_stack := rev (undo_block us) @ cm_redo_stack (doc_changes d)\<rparr>, w')"
    using manager_undo_shape assms by blast
  then show ?thesis
    by (cases w') (simp add: buffer_undo_def buffer_record_def buffer_end_recording_def Let_def)
qed

lemma buffer_redo_shape:
  assumes "cm_redo_stack (doc_changes d) = rev (undo_block us) @ rd" and "us \<noteq> []"
    and "\<forall>e \<in> set us. is_recorded e"
    and "\<forall>e rd'. rd = e # rd' \<longrightarrow> change_undo_group_id (ent_change (hd us)) \<noteq> None \<longrightarrow>
      change_undo_group_id (ent_change e) \<noteq> change_undo_group_id (ent_change (hd us))"
  shows "fst (fst (buffer_redo R F d)) = UndoDone \<and>
    doc_changes (snd (buffer_redo R F d)) =
      (doc_changes d)\<lparr>cm_undo_stack := undo_block us @ cm_undo_stack (doc_changes d), cm_redo_stack := rd\<rparr>"
proof -
  obtain w' where "change_manager_redo R F (doc_changes d)
      ((doc_buffer d)\<lparr>buf_recording := Some recording_session_default\<rparr>, doc_fs d) =
    (UndoDone, (doc_changes d)\<lparr>cm_undo_stack := undo_block us @ cm_undo_stack (doc_changes d),
                              cm_redo_stack := rd\<rparr>, w')"
    using manager_redo_shape [OF assms] by blast
  then show ?thesis
    by (cases w') (simp add: buffer_redo_def buffer_record_def buffer_end_recording_def Let_def)
qed

text \<open>The texts along the undo stack, read off its edits.\<close>

lemma undo_chain_replay:
  "undo_chain T (xs @ us) \<Longrightarrow>
   edits_valid (T (stack_top_seq us)) (concat (map (\<lambda>e. change_edits (ent_change e)) (rev xs))) \<and>
   T (stack_top_seq (xs @ us)) =
     replay (T (stack_top_seq us)) (concat (map (\<lambda>e. change_edits (ent_change e)) (rev xs)))"
  by (induction xs) (auto simp: entry_leads_def)

lemma undo_chain_unreplay:
  "undo_chain T (xs @ us) \<Longrightarrow>
   T (stack_top_seq us) =
     unreplay (T (stack_top_seq (xs @ us))) (concat (map (\<lambda>e. change_edits (ent_change e)) (rev xs)))"
  using undo_chain_replay [of T xs us] unreplay_replay by simp

section \<open>Lemmas for the properties\<close>

lemma group_entries_split:
  assumes "\<forall>e \<in> set new. is_recorded e \<and> since < ent_seq e" and "\<forall>e \<in> set old. is_recorded e \<and> ent_seq e \<le> since"
  shows "group_entries since g (new @ old) = map (\<lambda>e. e\<lparr>ent_change := set_group g (ent_change e)\<rparr>) new @ old"
  using assms by (induction new) (cases old, auto)

lemma recorded_set_group: "is_recorded e \<Longrightarrow> is_recorded (e\<lparr>ent_change := set_group g (ent_change e)\<rparr>)"
  by (cases "ent_change e") (auto simp: is_recorded_def)

lemma recorded_in_group: "is_recorded e \<Longrightarrow> in_group g (e\<lparr>ent_change := set_group g (ent_change e)\<rparr>)"
  by (cases "ent_change e") (auto simp: is_recorded_def in_group_def)

lemma grouped_block:
  assumes "new \<noteq> []" and "\<forall>e \<in> set new. is_recorded e \<and> since < ent_seq e"
    and "old = [] \<or> \<not> in_group g (hd old)"
  shows "undo_block (map (\<lambda>e. e\<lparr>ent_change := set_group g (ent_change e)\<rparr>) new @ old) =
    map (\<lambda>e. e\<lparr>ent_change := set_group g (ent_change e)\<rparr>) new"
proof -
  obtain e es where new: "new = e # es" using assms(1) by (cases new) auto
  have "change_undo_group_id (set_group g (ent_change e)) = Some g"
    using recorded_in_group [of e g] assms(2) new by (simp add: in_group_def)
  moreover have "takeWhile (in_group g) (map (\<lambda>e. e\<lparr>ent_change := set_group g (ent_change e)\<rparr>) es @ old) =
      map (\<lambda>e. e\<lparr>ent_change := set_group g (ent_change e)\<rparr>) es"
    using assms(2,3) new recorded_in_group by (cases old) (auto simp: takeWhile_append)
  ultimately show ?thesis by (simp add: new undo_block_def)
qed

text \<open>The change whose restore failed, with the state it left.\<close>

definition undo_fails :: "'r rope_ops \<Rightarrow> 'f fs_ops \<Rightarrow> undo_entry \<Rightarrow> rstr \<Rightarrow> 'r buffer \<times> 'f \<Rightarrow> bool" where
  "undo_fails R F e err w' \<longleftrightarrow> \<not> is_recorded e \<and> (\<exists>w. change_undo R F (ent_change e) w = (Some err, w'))"

definition redo_fails :: "'r rope_ops \<Rightarrow> 'f fs_ops \<Rightarrow> undo_entry \<Rightarrow> rstr \<Rightarrow> 'r buffer \<times> 'f \<Rightarrow> bool" where
  "redo_fails R F e err w' \<longleftrightarrow> \<not> is_recorded e \<and> (\<exists>w. change_apply R F (ent_change e) w = (Some err, w'))"

lemma undo_failsI: "change_undo R F (ent_change e) w = (Some err, w') \<Longrightarrow> undo_fails R F e err w'"
  unfolding undo_fails_def using recorded_undo [of e R F w] by fastforce

lemma redo_failsI: "change_apply R F (ent_change e) w = (Some err, w') \<Longrightarrow> redo_fails R F e err w'"
  unfolding redo_fails_def using recorded_apply [of e R F w] by fastforce

lemma undo_group_failed:
  "undo_group R F g us rd w = (UndoFailed err, us', rd', w') \<Longrightarrow> \<exists>e us0. us' = e # us0 \<and> undo_fails R F e err w'"
  by (induction us arbitrary: rd w)
    (auto split: if_splits prod.splits option.splits intro: undo_failsI)

lemma redo_group_failed:
  "redo_group R F g us rd w = (UndoFailed err, us', rd', w') \<Longrightarrow> \<exists>e rd0. rd' = e # rd0 \<and> redo_fails R F e err w'"
  by (induction rd arbitrary: us w)
    (auto split: if_splits prod.splits option.splits intro: redo_failsI)

lemma manager_undo_failed:
  "change_manager_undo R F m w = (UndoFailed err, m', w') \<Longrightarrow>
   \<exists>e us. cm_undo_stack m' = e # us \<and> undo_fails R F e err w'"
  by (auto simp: change_manager_undo_def Let_def split: list.splits prod.splits option.splits
      intro: undo_failsI dest: undo_group_failed)

lemma manager_redo_failed:
  "change_manager_redo R F m w = (UndoFailed err, m', w') \<Longrightarrow>
   \<exists>e rd. cm_redo_stack m' = e # rd \<and> redo_fails R F e err w'"
  by (auto simp: change_manager_redo_def Let_def split: list.splits prod.splits option.splits
      intro: redo_failsI dest: redo_group_failed)

text \<open>A buffer that is not modifiable refuses every edit.\<close>

lemma refused_edit: "\<not> buf_modifiable b \<Longrightarrow>
  buf_rope (edit_apply R e b) = buf_rope b \<and> buf_modifiable (edit_apply R e b) = buf_modifiable b"
  by (cases e) (auto simp: buffer_insert_text_at_def buffer_delete_char_range_def buffer_accepts_edits_def Let_def)

lemma refused_edits: "\<not> buf_modifiable b \<Longrightarrow>
  buf_rope (foldl (\<lambda>b e. edit_apply R (edit_inverse e) b) b es) = buf_rope b"
proof (induction es arbitrary: b)
  case (Cons e es)
  then show ?case using refused_edit [of b R "edit_inverse e"] by simp
qed simp

lemma refused_undo:
  assumes "\<not> buf_modifiable (doc_buffer d)" and "cm_undo_stack (doc_changes d) = [e]" and "is_recorded e"
  shows "buf_rope (doc_buffer (snd (buffer_undo R F d))) = buf_rope (doc_buffer d)"
proof -
  let ?b = "(doc_buffer d)\<lparr>buf_recording := Some recording_session_default\<rparr>"
  obtain es before after g start where e: "ent_change e = Recorded es before after g start"
    using assms(3) by (cases "ent_change e") (auto simp: is_recorded_def)
  have "buf_rope (foldl (\<lambda>b e. edit_apply R (edit_inverse e) b) ?b (rev es)) = buf_rope (doc_buffer d)"
    using refused_edits [of ?b R "rev es"] assms(1) by simp
  then show ?thesis
    using assms(2) e
    by (cases g) (simp_all add: buffer_undo_def buffer_record_def change_manager_undo_def buffer_end_recording_def
        buffer_validate_cursor_position_def buffer_set_cursor_def Let_def)
qed

section \<open>Properties\<close>

definition no_fs :: "unit fs_ops" where
  "no_fs = \<lparr>fs_parent = \<lambda>_. None, fs_exists = \<lambda>_ _. False, fs_is_dir = \<lambda>_ _. False,
     fs_create_dir_all = \<lambda>_ f. (None, f), fs_write = \<lambda>_ _ f. (Some (rs ''denied''), f),
     fs_remove_dir_all = \<lambda>_ f. (None, f), fs_remove_file = \<lambda>_ f. (None, f)\<rparr>"

definition sample_doc :: "rstr \<Rightarrow> (rstr, unit, unit, unit) doc" where
  "sample_doc t = \<lparr>doc_buffer = sample_buffer t, doc_changes = change_manager_new, doc_fs = (),
     doc_registers = register_manager_new (), doc_undo_group = None\<rparr>"

lemma sample_reach: "undo_reach list_rope no_fs (sample_doc t) t"
  using opened [of "sample_doc t" list_rope no_fs] by (simp add: sample_doc_def sample_buffer_def)

lemma sample_change_mutates: "mutates list_rope b (snd (sample_change b))"
  unfolding sample_change_def snd_conv by (intro mutates.intros)

definition edited_doc :: "(rstr, unit, unit, unit) doc" where
  "edited_doc = snd (record_operation sample_change None (sample_doc [97, 98]))"

lemma edited_reach: "undo_reach list_rope no_fs edited_doc [97, 98]"
  unfolding edited_doc_def by (intro command sample_reach sample_change_mutates)

lemma edited_stacks:
  "cm_undo_stack (doc_changes edited_doc) =
     [\<lparr>ent_change = Recorded [Insert 1 (rs ''xy''), Delete 0 (rs ''ax'')]
        \<lparr>pos_line = 0, pos_col = 0\<rparr> \<lparr>pos_line = 0, pos_col = 0\<rparr> None None, ent_seq = 1\<rparr>]"
  "cm_redo_stack (doc_changes edited_doc) = []" "cm_save_point (doc_changes edited_doc) = Some 0"
  "cm_next_seq (doc_changes edited_doc) = 2"
proof -
  obtain r es b where p: "buffer_record sample_change (sample_buffer [97, 98]) = ((r, es), b)"
    by (metis surj_pair)
  have es: "es = [Insert 1 (rs ''xy''), Delete 0 (rs ''ax'')]" using sample_change_edits p by simp
  have cur: "buf_cursor b = cursor_new 0 0"
  proof -
    have "buf_cursor (snd (buffer_record sample_change (sample_buffer [97, 98]))) = cursor_new 0 0"
      by (simp add: sample_buffer_def sample_change_def buffer_record_def buffer_end_recording_def
          buffer_insert_text_at_def buffer_delete_char_range_def buffer_accepts_edits_def
          buffer_note_edit_def Let_def case_prod_beta)
    then show ?thesis by (simp add: p)
  qed
  show "cm_undo_stack (doc_changes edited_doc) =
     [\<lparr>ent_change = Recorded [Insert 1 (rs ''xy''), Delete 0 (rs ''ax'')]
        \<lparr>pos_line = 0, pos_col = 0\<rparr> \<lparr>pos_line = 0, pos_col = 0\<rparr> None None, ent_seq = 1\<rparr>]"
  "cm_redo_stack (doc_changes edited_doc) = []" "cm_save_point (doc_changes edited_doc) = Some 0"
  "cm_next_seq (doc_changes edited_doc) = 2"
    using p es cur
    by (simp_all add: edited_doc_def record_operation_def sample_doc_def push_recorded_undo_def
        change_recorded_def push_change_def note_edit_position_def change_manager_new_def
        cursor_position_def sample_buffer_def cursor_new_def Let_def)
qed

text \<open>
  C6. The save point and the modified flag are sound. In whatever way a modifiable document was
  reached by commands, insert sessions, merges of a delete with an insert, undo, redo (of groups
  and of filesystem changes that fail half way too), grouping and saving: when the change manager
  is at its save point, or the buffer does not count as modified, the text is the one last saved.
\<close>

theorem save_point_sound:
  assumes "rope_contract R chs" and "undo_reach R F d s"
  shows "(is_at_save_point (doc_changes d) \<longrightarrow> chs (buf_rope (doc_buffer d)) = chs s) \<and>
    (\<not> buf_modified (doc_buffer d) \<longrightarrow> chs (buf_rope (doc_buffer d)) = chs s)"
proof -
  obtain T where ok: "rope_contract.doc_ok chs T (chs s) d"
    using rope_contract.reach_ok [OF assms] by blast
  then have "\<not> buf_modified (doc_buffer d) \<longrightarrow> chs (buf_rope (doc_buffer d)) = chs s"
    by (simp add: rope_contract.doc_ok_def [OF assms(1)])
  then show ?thesis
    using rope_contract.doc_ok_save_point [OF assms(1) ok] by blast
qed

theorem save_point_sound_witness:
  "buf_rope (doc_buffer (undo_count list_rope no_fs 1 edited_doc)) = [97, 98]"
proof -
  let ?d = "undo_count list_rope no_fs 1 edited_doc"
  have "doc_changes (snd (buffer_undo list_rope no_fs edited_doc)) = (doc_changes edited_doc)
      \<lparr>cm_undo_stack := [], cm_redo_stack := cm_undo_stack (doc_changes edited_doc)\<rparr>"
    using buffer_undo_shape [of edited_doc, OF _ edited_stacks(1), of list_rope no_fs]
    by (simp add: edited_stacks is_recorded_def undo_block_def)
  then have "is_at_save_point (doc_changes ?d)"
    by (simp add: undo_count_def sync_modified_flag_def is_at_save_point_def change_top_seq_def
        edited_stacks Let_def case_prod_beta)
  then show ?thesis
    using save_point_sound [of list_rope "\<lambda>t. t" no_fs ?d "[97, 98]"] lr.rope_contract_axioms
      undone [OF edited_reach] by blast
qed

text \<open>
  C7. Redo is the inverse of undo. When the changes on the undo stack are text changes, undo
  succeeds, takes off exactly the top change or the whole group at the top, and a redo puts the
  same changes back and restores the text, provided the change that was on top of the redo stack
  is not of the same group.
\<close>

theorem redo_inverts_undo:
  assumes "rope_contract R chs" and "undo_reach R F d s"
    and "cm_undo_stack (doc_changes d) = us" and "us \<noteq> []" and "\<forall>e \<in> set us. is_recorded e"
    and "\<forall>e rd'. cm_redo_stack (doc_changes d) = e # rd' \<longrightarrow>
      change_undo_group_id (ent_change (hd us)) \<noteq> None \<longrightarrow>
      change_undo_group_id (ent_change e) \<noteq> change_undo_group_id (ent_change (hd us))"
  defines "d1 \<equiv> snd (buffer_undo R F d)" and "d2 \<equiv> snd (buffer_redo R F (snd (buffer_undo R F d)))"
  shows "fst (fst (buffer_undo R F d)) = UndoDone \<and>
    cm_undo_stack (doc_changes d1) = drop (length (undo_block us)) us \<and>
    fst (fst (buffer_redo R F d1)) = UndoDone \<and> doc_changes d2 = doc_changes d \<and>
    chs (buf_rope (doc_buffer d2)) = chs (buf_rope (doc_buffer d))"
proof -
  note undo = buffer_undo_shape [of d us R F, unfolded assms(3), OF assms(5) refl assms(4)]
  note redo = buffer_redo_shape [of d1 us "cm_redo_stack (doc_changes d)" R F, OF _ assms(4-6)]
  have same: "doc_changes d2 = doc_changes d"
    using redo undo assms(3) undo_block_append [of us] by (simp add: d1_def d2_def)
  obtain T where ok: "rope_contract.doc_ok chs T (chs s) d"
    using rope_contract.reach_ok [OF assms(1,2)] by blast
  have "rope_contract.doc_ok chs T (chs s) d2"
    unfolding d2_def
    using rope_contract.buffer_redo_ok [OF assms(1) rope_contract.buffer_undo_ok [OF assms(1) ok]] .
  with ok same have "chs (buf_rope (doc_buffer d2)) = chs (buf_rope (doc_buffer d))"
    by (simp add: rope_contract.doc_ok_def [OF assms(1)] rope_contract.stands_def [OF assms(1)])
  then show ?thesis
    using undo redo same assms(3) by (simp add: d1_def)
qed

theorem redo_inverts_undo_witness:
  "doc_changes (snd (buffer_redo list_rope no_fs (snd (buffer_undo list_rope no_fs edited_doc)))) =
     doc_changes edited_doc"
  using redo_inverts_undo [of list_rope "\<lambda>t. t" no_fs edited_doc, OF lr.rope_contract_axioms edited_reach refl]
  by (simp add: edited_stacks is_recorded_def)

text \<open>
  \<open>group_since\<close> makes all text changes pushed after its mark one undo step: a single undo then
  leaves exactly the stack the mark was taken on, and the text with all those changes' edits
  undone, when the change below the mark is not already of that group.
\<close>

theorem grouped_changes_undo_as_one:
  assumes "rope_contract R chs" and "undo_reach R F d s"
    and "cm_undo_stack (doc_changes d) = new @ old" and "new \<noteq> []"
    and "\<forall>e \<in> set new. is_recorded e \<and> mark < ent_seq e" and "\<forall>e \<in> set old. is_recorded e \<and> ent_seq e \<le> mark"
    and "old = [] \<or> \<not> in_group (2 ^ 64 - 1 - mark) (hd old)"
  defines "d1 \<equiv> snd (buffer_undo R F (d\<lparr>doc_changes := group_since mark (doc_changes d)\<rparr>))"
  shows "cm_undo_stack (doc_changes d1) = old \<and>
    chs (buf_rope (doc_buffer d1)) =
      unreplay (chs (buf_rope (doc_buffer d))) (concat (map (\<lambda>e. change_edits (ent_change e)) (rev new)))"
proof -
  define g :: nat where "g = 2 ^ 64 - 1 - mark"
  let ?d = "d\<lparr>doc_changes := group_since mark (doc_changes d)\<rparr>"
  let ?new = "map (\<lambda>e. e\<lparr>ent_change := set_group g (ent_change e)\<rparr>) new"
  have "cm_undo_stack (doc_changes ?d) = group_entries mark g (new @ old)"
    using assms(3) by (simp add: g_def)
  then have us: "cm_undo_stack (doc_changes ?d) = ?new @ old"
    using group_entries_split [OF assms(5,6)] by (simp only:)
  have rec: "\<forall>e \<in> set (?new @ old). is_recorded e"
    using assms(5,6) recorded_set_group by auto
  have block: "undo_block (?new @ old) = ?new"
    using assms(4,5,7) grouped_block unfolding g_def [symmetric] by blast
  have undo: "cm_undo_stack (doc_changes d1) = old"
    using buffer_undo_shape [OF _ us, of R F] rec us assms(4) unfolding d1_def us
    by (simp add: block del: group_redo)
  obtain T where ok: "rope_contract.doc_ok chs T (chs s) d"
    using rope_contract.reach_ok [OF assms(1,2)] by blast
  have "rope_contract.doc_ok chs T (chs s) d1"
    unfolding d1_def
    using rope_contract.buffer_undo_ok [OF assms(1) rope_contract.group_ok [OF assms(1) ok]] .
  then have "chs (buf_rope (doc_buffer d1)) = T (stack_top_seq old)"
    using undo by (simp add: rope_contract.doc_ok_def [OF assms(1)] rope_contract.stands_def [OF assms(1)])
  moreover have "undo_chain T (new @ old)" "chs (buf_rope (doc_buffer d)) = T (stack_top_seq (new @ old))"
    using ok assms(3)
    by (simp_all add: rope_contract.doc_ok_def [OF assms(1)] rope_contract.stands_def [OF assms(1)] chain_def)
  ultimately show ?thesis using undo undo_chain_unreplay by metis
qed

theorem grouped_changes_undo_as_one_witness:
  "buf_rope (doc_buffer (snd (buffer_undo list_rope no_fs
     (edited_doc\<lparr>doc_changes := group_since 0 (doc_changes edited_doc)\<rparr>)))) =
   unreplay (buf_rope (doc_buffer edited_doc)) [Insert 1 (rs ''xy''), Delete 0 (rs ''ax'')]"
  using grouped_changes_undo_as_one [of list_rope "\<lambda>t. t" no_fs edited_doc, OF lr.rope_contract_axioms edited_reach,
      of "cm_undo_stack (doc_changes edited_doc)" "[]" 0]
  by (simp add: edited_stacks is_recorded_def)

text \<open>
  No history is lost: undo and redo, whatever fails, only move entries between the two
  stacks in order, push nothing and keep the save point; and when a filesystem restore fails the
  change that failed is left on top of the stack it came from, so that the command can be retried.
\<close>

theorem undo_failure_keeps_history:
  "(change_manager_undo R F m w = (out, m', w') \<longrightarrow>
      rev (cm_undo_stack m') @ cm_redo_stack m' = rev (cm_undo_stack m) @ cm_redo_stack m \<and>
      cm_save_point m' = cm_save_point m \<and>
      (\<forall>err. out = UndoFailed err \<longrightarrow>
        (\<exists>e us. cm_undo_stack m' = e # us \<and> undo_fails R F e err w'))) \<and>
   (change_manager_redo R F m w = (out, m', w') \<longrightarrow>
      rev (cm_undo_stack m') @ cm_redo_stack m' = rev (cm_undo_stack m) @ cm_redo_stack m \<and>
      cm_save_point m' = cm_save_point m \<and>
      (\<forall>err. out = UndoFailed err \<longrightarrow>
        (\<exists>e rd. cm_redo_stack m' = e # rd \<and> redo_fails R F e err w')))"
  using manager_undo_zipper [of R F m w out m' w'] manager_redo_zipper [of R F m w out m' w']
    manager_undo_failed [of R F m w _ m' w'] manager_redo_failed [of R F m w _ m' w'] by blast

definition denied_snapshot :: resource_snapshot where
  "denied_snapshot = \<lparr>snap_path = [97], snap_before = Some [1], snap_after = None\<rparr>"

definition denied_manager :: "unit change_manager" where
  "denied_manager = snd (push_change (ResourceOp [denied_snapshot] \<lparr>pos_line = 0, pos_col = 0\<rparr>
     \<lparr>pos_line = 0, pos_col = 0\<rparr>) change_manager_new)"

theorem undo_failure_keeps_history_witness:
  "\<exists>e us. cm_undo_stack (fst (snd (change_manager_undo list_rope no_fs denied_manager (sample_buffer [], ())))) = e # us \<and>
     \<not> is_recorded e"
proof -
  obtain out m w where u: "change_manager_undo list_rope no_fs denied_manager (sample_buffer [], ()) = (out, m, w)"
    by (metis surj_pair)
  have "fst (change_manager_undo list_rope no_fs denied_manager (sample_buffer [], ())) = UndoFailed (rs ''denied'')"
    by (simp add: denied_manager_def denied_snapshot_def change_manager_undo_def push_change_def
        change_manager_new_def restore_file_snapshot_def no_fs_def Let_def)
  then show ?thesis
    using undo_failure_keeps_history [of list_rope no_fs denied_manager "(sample_buffer [], ())" out m w] u
    by (auto simp: undo_fails_def)
qed

text \<open>
  The save point is not sound for a buffer that was made unmodifiable: undo of the only
  change changes no text, since every edit is refused, but takes the change off the undo stack,
  and the document then counts as saved although its text is not the saved one.
\<close>

theorem nomodifiable_undo_marks_clean:
  assumes "\<not> buf_modifiable (doc_buffer d)" and "cm_undo_stack (doc_changes d) = [e]" and "is_recorded e"
    and "cm_save_point (doc_changes d) = Some 0"
  shows "buf_rope (doc_buffer (undo_count R F 1 d)) = buf_rope (doc_buffer d) \<and>
    \<not> editor_is_modified (undo_count R F 1 d)"
proof -
  have shape: "doc_changes (snd (buffer_undo R F d)) = (doc_changes d)\<lparr>cm_undo_stack := [],
      cm_redo_stack := e # cm_redo_stack (doc_changes d)\<rparr>"
    using buffer_undo_shape [of d "[e]" R F] assms by (simp add: undo_block_def split: option.splits)
  have "buf_rope (doc_buffer (snd (buffer_undo R F d))) = buf_rope (doc_buffer d)"
    using assms(1-3) refused_undo [of d e R F] by blast
  moreover have "undo_count R F 1 d = sync_modified_flag (snd (buffer_undo R F d))"
    by (simp add: undo_count_def Let_def case_prod_beta)
  ultimately show ?thesis
    using shape assms(4)
    by (simp add: sync_modified_flag_def is_at_save_point_def change_top_seq_def editor_is_modified_def)
qed

definition locked_doc :: "(rstr, unit, unit, unit) doc" where
  "locked_doc = edited_doc\<lparr>doc_buffer := (doc_buffer edited_doc)\<lparr>buf_modifiable := False\<rparr>\<rparr>"

theorem nomodifiable_undo_marks_clean_witness:
  "\<not> editor_is_modified (undo_count list_rope no_fs 1 locked_doc)"
  using nomodifiable_undo_marks_clean [of locked_doc _ list_rope no_fs]
  by (simp add: locked_doc_def edited_stacks is_recorded_def)

definition changelist_ok :: "'a change_manager \<Rightarrow> bool" where
  "changelist_ok m \<longleftrightarrow>
     (cm_change_list_index m = None \<longleftrightarrow> cm_change_list m = []) \<and>
     (\<forall>i. cm_change_list_index m = Some i \<longrightarrow> i < length (cm_change_list m)) \<and>
     successively (\<noteq>) (cm_change_list m)"

lemma successively_take: "successively P xs \<Longrightarrow> successively P (take n xs)"
  by (metis append_take_drop_id successively_append_iff)

lemma note_edit_position_ok:
  assumes "changelist_ok m"
  shows "changelist_ok (note_edit_position p m) \<and> cm_change_list (note_edit_position p m) \<noteq> [] \<and>
    last (cm_change_list (note_edit_position p m)) = p \<and> cm_last_edit_position (note_edit_position p m) = Some p \<and>
    cm_change_list_index (note_edit_position p m) = Some (length (cm_change_list (note_edit_position p m)) - 1)"
proof -
  define kept where "kept = (case cm_change_list_index m of
      Some idx \<Rightarrow> if idx + 1 < length (cm_change_list m) then take (idx + 1) (cm_change_list m) else cm_change_list m
    | None \<Rightarrow> cm_change_list m)"
  have "successively (\<noteq>) kept"
    using assms by (auto simp: kept_def changelist_ok_def successively_take split: option.splits)
  moreover have "note_edit_position p m =
      (let list = (if kept = [] \<or> last kept \<noteq> p then kept @ [p] else kept)
       in m\<lparr>cm_last_edit_position := Some p, cm_change_list := list,
            cm_change_list_index := if length list = 0 then None else Some (length list - 1)\<rparr>)"
    by (simp only: note_edit_position_def kept_def Let_def)
  ultimately show ?thesis
    by (auto simp: changelist_ok_def successively_append_iff Let_def)
qed

text \<open>
  The changelist behind \<open>g;\<close> and \<open>g,\<close>: its index is always that of an entry and neighbouring
  entries differ. Noting an edit drops what is newer than the index and ends the list with the
  edit's position. Jumping returns the entry \<open>count\<close> steps older or newer, clamped to the ends of
  the list, fails only on the empty list, and older then newer by the same count returns.
\<close>

theorem changelist_navigation:
  assumes "changelist_ok m"
  shows "changelist_ok (note_edit_position p m) \<and> last (cm_change_list (note_edit_position p m)) = p \<and>
    (cm_change_list m = [] \<longrightarrow> fst (jump_change_older n m) = None \<and> fst (jump_change_newer n m) = None) \<and>
    (\<forall>i. cm_change_list_index m = Some i \<longrightarrow>
       fst (jump_change_older n m) = Some (cm_change_list m ! (i - max n 1)) \<and>
       fst (jump_change_newer n m) = Some (cm_change_list m ! min (i + max n 1) (length (cm_change_list m) - 1)) \<and>
       changelist_ok (snd (jump_change_older n m)) \<and> changelist_ok (snd (jump_change_newer n m)) \<and>
       (max n 1 \<le> i \<longrightarrow> fst (jump_change_newer n (snd (jump_change_older n m))) = Some (cm_change_list m ! i)))"
  using assms note_edit_position_ok [OF assms, of p]
  by (auto simp: changelist_ok_def jump_change_older_def jump_change_newer_def Let_def min_def)

theorem changelist_navigation_witness:
  "fst (jump_change_older 5 (note_edit_position \<lparr>pos_line = 3, pos_col = 0\<rparr> (change_manager_new :: unit change_manager))) =
     Some \<lparr>pos_line = 3, pos_col = 0\<rparr>"
proof -
  let ?m = "note_edit_position \<lparr>pos_line = 3, pos_col = 0\<rparr> (change_manager_new :: unit change_manager)"
  have m: "cm_change_list ?m = [\<lparr>pos_line = 3, pos_col = 0\<rparr>]" "cm_change_list_index ?m = Some 0"
    by (simp_all add: note_edit_position_def change_manager_new_def)
  then have "changelist_ok ?m" by (simp add: changelist_ok_def)
  then show ?thesis using changelist_navigation [of ?m _ 5] m by simp
qed

end
