(* ===== verification/Numbers.thy ===== *)
theory Numbers
  imports Prelude
begin

text \<open>
  The numbers under \<open>Ctrl-A\<close> and \<open>Ctrl-X\<close> (ovim-core/src/number_ops.rs, the handlers of
  editor/input/numbers.rs and \<open>modify_number_at_cursor\<close> of buffer/text_ops.rs): finding a literal in
  a line, parsing it, formatting the result.

  An \<open>i64\<close> is an \<^typ>\<open>int\<close> between \<open>-2^63\<close> and \<open>2^63 - 1\<close>; \<open>i64_wrap\<close> is the value a wrapping operation
  leaves. Columns are character columns.
\<close>

section \<open>Integers of the source\<close>

definition i64_range :: "int \<Rightarrow> bool" where
  "i64_range v \<longleftrightarrow> - (2 ^ 63) \<le> v \<and> v < 2 ^ 63"

definition i64_wrap :: "int \<Rightarrow> int" where
  "i64_wrap v = (v + 2 ^ 63) mod 2 ^ 64 - 2 ^ 63"

text \<open>\<open>char::to_digit\<close>, \<open>i64::from_str_radix\<close> and \<open>str::parse::<i64>\<close> of the standard library.\<close>

definition to_digit :: "nat \<Rightarrow> rchar \<Rightarrow> nat option" where
  "to_digit radix c =
     (let d = (if is_ascii_digit c then c - 48
               else if is_ascii_lowercase c then c - 87
               else if is_ascii_uppercase c then c - 55 else radix)
      in if d < radix then Some d else None)"

fun digits_value :: "nat \<Rightarrow> nat \<Rightarrow> rstr \<Rightarrow> nat option" where
  "digits_value radix acc [] = Some acc"
| "digits_value radix acc (c # s) =
     (case to_digit radix c of None \<Rightarrow> None | Some d \<Rightarrow> digits_value radix (acc * radix + d) s)"

definition from_str_radix :: "nat \<Rightarrow> rstr \<Rightarrow> int option" where
  "from_str_radix radix s =
     (let (neg, ds) = (case s of c # t \<Rightarrow> if c = rc CHR ''-'' then (True, t)
                         else if c = rc CHR ''+'' then (False, t) else (False, s)
                       | [] \<Rightarrow> (False, []))
      in if ds = [] then None
         else case digits_value radix 0 ds of
                None \<Rightarrow> None
              | Some n \<Rightarrow> (let v = (if neg then - int n else int n) in if i64_range v then Some v else None))"

section \<open>Finding a number\<close>

fun in_hex_back :: "rstr \<Rightarrow> nat \<Rightarrow> bool" where
  "in_hex_back chars 0 = False"
| "in_hex_back chars (Suc k) =
     (let prev = chars ! k
      in if is_ascii_hexdigit prev \<or> is_ascii_digit prev then in_hex_back chars k
         else Suc k \<ge> 2 \<and> (prev = rc CHR ''x'' \<or> prev = rc CHR ''X'') \<and> chars ! (k - 1) = rc CHR ''0'')"

definition is_base_letter :: "rchar \<Rightarrow> bool" where
  "is_base_letter c \<longleftrightarrow> c \<in> {rc CHR ''x'', rc CHR ''X'', rc CHR ''b'', rc CHR ''B'', rc CHR ''o'', rc CHR ''O''}"

definition is_sign :: "rchar \<Rightarrow> bool" where
  "is_sign c \<longleftrightarrow> c = rc CHR ''-'' \<or> c = rc CHR ''+''"

fun start_back :: "bool \<Rightarrow> rstr \<Rightarrow> nat \<Rightarrow> nat" where
  "start_back in_hex chars 0 = 0"
| "start_back in_hex chars (Suc k) =
     (let prev = chars ! k
      in if is_ascii_digit prev then start_back in_hex chars k
         else if in_hex \<and> is_ascii_hexdigit prev then start_back in_hex chars k
         else if is_sign prev then
           (if Suc k > 1 \<and> \<not> is_whitespace (chars ! (k - 1)) \<and> chars ! (k - 1) \<noteq> rc CHR ''(''
               \<and> chars ! (k - 1) \<noteq> rc CHR ''[''
            then Suc k else k)
         else if Suc k \<ge> 2 \<and> is_base_letter prev \<and> chars ! (k - 1) = rc CHR ''0'' then k - 1
         else Suc k)"

text \<open>The end of a run of characters from a position on: the loops that advance \<open>end_col\<close>.\<close>

definition scan_end :: "(rchar \<Rightarrow> bool) \<Rightarrow> rstr \<Rightarrow> nat \<Rightarrow> nat" where
  "scan_end P chars i = i + length (takeWhile P (drop i chars))"

datatype number_base = Hex | Binary | Octal

definition base_of_letter :: "rchar \<Rightarrow> number_base option" where
  "base_of_letter c =
     (if c = rc CHR ''x'' \<or> c = rc CHR ''X'' then Some Hex
      else if c = rc CHR ''b'' \<or> c = rc CHR ''B'' then Some Binary
      else if c = rc CHR ''o'' \<or> c = rc CHR ''O'' then Some Octal else None)"

fun base_digit :: "number_base \<Rightarrow> rchar \<Rightarrow> bool" where
  "base_digit Hex c = is_ascii_hexdigit c"
| "base_digit Binary c = (c = rc CHR ''0'' \<or> c = rc CHR ''1'')"
| "base_digit Octal c = (rc CHR ''0'' \<le> c \<and> c \<le> rc CHR ''7'')"

text \<open>The forward search accepts any decimal digit in an octal literal.\<close>

fun forward_digit :: "number_base \<Rightarrow> rchar \<Rightarrow> bool" where
  "forward_digit Hex c = is_ascii_hexdigit c"
| "forward_digit Binary c = (c = rc CHR ''0'' \<or> c = rc CHR ''1'')"
| "forward_digit Octal c = is_ascii_digit c"

definition chars_slice :: "rstr \<Rightarrow> nat \<Rightarrow> nat \<Rightarrow> rstr" where
  "chars_slice chars a b = take (b - a) (drop a chars)"

definition number_on_digit :: "rstr \<Rightarrow> nat \<Rightarrow> bool \<Rightarrow> nat \<times> nat \<times> rstr" where
  "number_on_digit chars cursor_col in_hex =
     (let start_col = start_back in_hex chars cursor_col;
          prefix = (if start_col + 1 < length chars \<and> chars ! start_col = rc CHR ''0''
                    then base_of_letter (chars ! (start_col + 1)) else None);
          end_col = (case prefix of
              Some base \<Rightarrow> scan_end (base_digit base) chars (start_col + 2)
            | None \<Rightarrow> scan_end is_ascii_digit chars (cursor_col + 1))
      in if prefix \<noteq> None \<and> end_col = start_col + 2
         then (start_col, start_col + 1, chars_slice chars start_col (start_col + 1))
         else (start_col, end_col, chars_slice chars start_col end_col))"

definition starts_number :: "rstr \<Rightarrow> nat \<Rightarrow> bool" where
  "starts_number chars i \<longleftrightarrow>
     is_ascii_digit (chars ! i) \<or> is_sign (chars ! i) \<or>
     (i + 1 < length chars \<and> chars ! i = rc CHR ''0'' \<and> is_base_letter (chars ! (i + 1)))"

definition decimal_from :: "rstr \<Rightarrow> nat \<Rightarrow> (nat \<times> nat \<times> rstr) option" where
  "decimal_from chars start_col =
     (let end_col = (if start_col < length chars \<and> is_sign (chars ! start_col) then start_col + 1 else start_col);
          end_col = scan_end is_ascii_digit chars end_col
      in if end_col > start_col then Some (start_col, end_col, chars_slice chars start_col end_col) else None)"

definition number_forward :: "rstr \<Rightarrow> nat \<Rightarrow> (nat \<times> nat \<times> rstr) option" where
  "number_forward chars col =
     (case find (starts_number chars) [col..<length chars] of
        None \<Rightarrow> None
      | Some search_col \<Rightarrow>
          (let start_col = (if is_sign (chars ! search_col) \<and>
                  \<not> (search_col + 1 < length chars \<and> is_ascii_digit (chars ! (search_col + 1)))
                then search_col + 1 else search_col)
           in if start_col \<ge> length chars then None
              else case (if chars ! start_col = rc CHR ''0'' \<and> start_col + 1 < length chars
                         then base_of_letter (chars ! (start_col + 1)) else None) of
                     Some base \<Rightarrow>
                       (let end_col = scan_end (forward_digit base) chars (start_col + 2)
                        in if end_col > start_col + 2
                           then Some (start_col, end_col, chars_slice chars start_col end_col)
                           else decimal_from chars start_col)
                   | None \<Rightarrow> decimal_from chars start_col))"

definition find_number_at_or_after :: "rstr \<Rightarrow> nat \<Rightarrow> (nat \<times> nat \<times> rstr) option" where
  "find_number_at_or_after chars col =
     (if chars = [] then None
      else let cursor_col = min col (length chars - 1);
               on_digit = is_ascii_digit (chars ! cursor_col);
               on_hex_digit = (is_ascii_hexdigit (chars ! cursor_col) \<and> \<not> is_ascii_digit (chars ! cursor_col));
               in_hex_number = (on_hex_digit \<and> in_hex_back chars cursor_col)
           in if on_digit \<or> in_hex_number then Some (number_on_digit chars cursor_col in_hex_number)
              else number_forward chars col)"

section \<open>Parsing and formatting\<close>

text \<open>The source counts bytes, which are the characters of a number that the search found: all ASCII.\<close>

definition parse_number :: "rstr \<Rightarrow> int \<times> nat \<times> nat" where
  "parse_number s =
     (let value = (\<lambda>radix t. case from_str_radix radix t of None \<Rightarrow> 0 | Some v \<Rightarrow> v);
          prefix = take 2 s; digits = drop 2 s
      in if length s \<ge> 3 \<and> (prefix = rs ''0x'' \<or> prefix = rs ''0X'') then (value 16 digits, 16, 2)
         else if length s \<ge> 3 \<and> (prefix = rs ''0b'' \<or> prefix = rs ''0B'') then (value 2 digits, 2, 2)
         else if length s \<ge> 3 \<and> (prefix = rs ''0o'' \<or> prefix = rs ''0O'') then (value 8 digits, 8, 2)
         else (value 10 s, 10, 0))"

definition digit_char :: "nat \<Rightarrow> rchar" where
  "digit_char d = (if d < 10 then 48 + d else 87 + d)"

function nat_digits :: "nat \<Rightarrow> nat \<Rightarrow> rstr" where
  "nat_digits b n = (if b < 2 \<or> n < b then [digit_char n] else nat_digits b (n div b) @ [digit_char (n mod b)])"
  by auto
termination by (relation "measure snd") auto

declare nat_digits.simps [simp del]

definition format_number :: "int \<Rightarrow> nat \<Rightarrow> nat \<Rightarrow> rstr" where
  "format_number value base prefix_len =
     (let sign = (if value < 0 then rs ''-'' else []);
          prefixed = (\<lambda>p. sign @ (if prefix_len > 0 then p else []) @ nat_digits base (nat \<bar>value\<bar>))
      in if base = 16 then prefixed (rs ''0x'')
         else if base = 2 then prefixed (rs ''0b'')
         else if base = 8 then prefixed (rs ''0o'')
         else sign @ nat_digits 10 (nat \<bar>value\<bar>))"

section \<open>Changing a number\<close>

datatype number_change = NoNumber | NumberOverflow | Replace nat nat rstr

definition keep_plus :: "rstr \<Rightarrow> int \<Rightarrow> rstr \<Rightarrow> rstr" where
  "keep_plus number_str value new =
     (if number_str \<noteq> [] \<and> hd number_str = rc CHR ''+'' \<and> value \<ge> 0 \<and> \<not> (new \<noteq> [] \<and> hd new = rc CHR ''+'')
      then rc CHR ''+'' # new else new)"

text \<open>
  \<open>modify_number_at_cursor\<close> adds with \<open>+=\<close>, which panics on overflow in a build with overflow checks
  (\<open>NumberOverflow\<close>); the visual commands add with \<open>wrapping_add\<close>.
\<close>

definition modify_number_at_cursor :: "rstr \<Rightarrow> nat \<Rightarrow> int \<Rightarrow> number_change" where
  "modify_number_at_cursor line col delta =
     (case find_number_at_or_after line col of
        None \<Rightarrow> NoNumber
      | Some (start_col, end_col, number_str) \<Rightarrow>
          (let (value, base, prefix_len) = parse_number number_str; value = value + delta
           in if \<not> i64_range value then NumberOverflow
              else Replace start_col end_col (keep_plus number_str value (format_number value base prefix_len))))"

definition modify_number_in_selection :: "rstr \<Rightarrow> nat \<Rightarrow> nat option \<Rightarrow> int \<Rightarrow> number_change" where
  "modify_number_in_selection line from_col to_col step =
     (case find_number_at_or_after line from_col of
        None \<Rightarrow> NoNumber
      | Some (start_col, end_col, number_str) \<Rightarrow>
          (if (case to_col of None \<Rightarrow> False | Some t \<Rightarrow> start_col \<ge> t) then NoNumber
           else let (value, base, prefix_len) = parse_number number_str; new_value = i64_wrap (value + step)
                in Replace start_col end_col (keep_plus number_str new_value (format_number new_value base prefix_len))))"

text \<open>\<open>delete_range\<close> and \<open>insert_text_at\<close> on one line, within its length.\<close>

fun apply_number_change :: "rstr \<Rightarrow> number_change \<Rightarrow> rstr" where
  "apply_number_change line (Replace s e new) = take s line @ new @ drop e line"
| "apply_number_change line _ = line"

section \<open>Lemmas on digits\<close>

lemma to_digit_char: "d < b \<Longrightarrow> b \<le> 16 \<Longrightarrow> to_digit b (digit_char d) = Some d"
  by (auto simp: to_digit_def digit_char_def ascii_defs Let_def)

lemma digit_char_hex: "d < 16 \<Longrightarrow> is_ascii_hexdigit (digit_char d)"
  by (auto simp: digit_char_def ascii_defs)

lemma digit_char_digit: "d < 10 \<Longrightarrow> is_ascii_digit (digit_char d)"
  by (auto simp: digit_char_def ascii_defs)

lemma digits_value_append:
  "digits_value b acc (s @ t) = Option.bind (digits_value b acc s) (\<lambda>n. digits_value b n t)"
  by (induction s arbitrary: acc) (auto split: option.splits)

lemma nat_digits_ne [simp]: "nat_digits b n \<noteq> []"
  by (subst nat_digits.simps) simp

lemma nat_digits_value: "2 \<le> b \<Longrightarrow> b \<le> 16 \<Longrightarrow> digits_value b 0 (nat_digits b n) = Some n"
proof (induction b n rule: nat_digits.induct)
  case (1 b n)
  show ?case
  proof (cases "n < b")
    case True
    with 1 show ?thesis by (subst nat_digits.simps) (simp add: to_digit_char)
  next
    case False
    with 1 have "digits_value b 0 (nat_digits b (n div b)) = Some (n div b)" by simp
    with 1 False show ?thesis
      by (subst nat_digits.simps) (simp add: digits_value_append to_digit_char)
  qed
qed

lemma nat_digits_hex: "2 \<le> b \<Longrightarrow> b \<le> 16 \<Longrightarrow> \<forall>c \<in> set (nat_digits b n). is_ascii_hexdigit c"
proof (induction b n rule: nat_digits.induct)
  case (1 b n)
  moreover have "n mod b < 16" using 1(2,3) mod_less_divisor [of b n] by linarith
  ultimately show ?case
    by (subst nat_digits.simps) (auto simp: digit_char_hex)
qed

lemma nat_digits_decimal: "\<forall>c \<in> set (nat_digits 10 n). is_ascii_digit c"
proof (induction n rule: less_induct)
  case (less n)
  have "\<forall>c \<in> set (nat_digits 10 (n div 10)). is_ascii_digit c" if "\<not> n < 10"
    using less [of "n div 10"] that by simp
  then show ?case
    by (subst nat_digits.simps) (auto simp: digit_char_digit)
qed

lemma from_str_radix_digits:
  assumes "2 \<le> b" "b \<le> 16"
  shows "from_str_radix b (nat_digits b n) = (if i64_range (int n) then Some (int n) else None)"
    and "from_str_radix b (rc CHR ''-'' # nat_digits b n) = (if i64_range (- int n) then Some (- int n) else None)"
    and "from_str_radix b (rc CHR ''+'' # nat_digits b n) = (if i64_range (int n) then Some (int n) else None)"
proof -
  obtain c t where ct: "nat_digits b n = c # t" by (cases "nat_digits b n") auto
  have "c \<noteq> 45 \<and> c \<noteq> 43"
    using nat_digits_hex [OF assms, of n] ct by (auto simp: ascii_defs)
  then show "from_str_radix b (nat_digits b n) = (if i64_range (int n) then Some (int n) else None)"
    using nat_digits_value [OF assms, of n] ct by (simp add: from_str_radix_def Let_def)
  show "from_str_radix b (rc CHR ''-'' # nat_digits b n) = (if i64_range (- int n) then Some (- int n) else None)"
    "from_str_radix b (rc CHR ''+'' # nat_digits b n) = (if i64_range (int n) then Some (int n) else None)"
    using nat_digits_value [OF assms, of n] by (simp_all add: from_str_radix_def Let_def)
qed

lemma parse_based:
  assumes "i64_range (int n)"
  shows "parse_number (rs ''0x'' @ nat_digits 16 n) = (int n, 16, 2)"
    and "parse_number (rs ''0b'' @ nat_digits 2 n) = (int n, 2, 2)"
    and "parse_number (rs ''0o'' @ nat_digits 8 n) = (int n, 8, 2)"
proof -
  have len: "0 < length (nat_digits b n)" for b by simp
  show "parse_number (rs ''0x'' @ nat_digits 16 n) = (int n, 16, 2)"
    using assms from_str_radix_digits(1) [of 16 n] len [of 16] by (simp add: parse_number_def Let_def Suc_le_eq)
  show "parse_number (rs ''0b'' @ nat_digits 2 n) = (int n, 2, 2)"
    using assms from_str_radix_digits(1) [of 2 n] len [of 2] by (simp add: parse_number_def Let_def Suc_le_eq)
  show "parse_number (rs ''0o'' @ nat_digits 8 n) = (int n, 8, 2)"
    using assms from_str_radix_digits(1) [of 8 n] len [of 8] by (simp add: parse_number_def Let_def Suc_le_eq)
qed

text \<open>A text without letters has no base prefix.\<close>

lemma parse_decimal:
  assumes "\<forall>c \<in> set s. c < 64"
  shows "parse_number s = (case from_str_radix 10 s of None \<Rightarrow> 0 | Some v \<Rightarrow> v, 10, 0)"
proof -
  have "take 2 s \<noteq> [48, c]" if "c \<ge> 64" for c
  proof
    assume "take 2 s = [48, c]"
    then have "c \<in> set s" by (metis in_set_takeD list.set_intros(1,2))
    then show False using assms that by force
  qed
  then show ?thesis by (simp add: parse_number_def Let_def)
qed

lemma decimal_small: "\<forall>c \<in> set (nat_digits 10 n). c < 64"
  using nat_digits_decimal [of n] by (auto simp: ascii_defs)

lemma parse_decimal_digits:
  "i64_range (int n) \<Longrightarrow> parse_number (nat_digits 10 n) = (int n, 10, 0)"
  "i64_range (- int n) \<Longrightarrow> parse_number (rc CHR ''-'' # nat_digits 10 n) = (- int n, 10, 0)"
  "i64_range (int n) \<Longrightarrow> parse_number (rc CHR ''+'' # nat_digits 10 n) = (int n, 10, 0)"
  using decimal_small [of n] parse_decimal [of "nat_digits 10 n"] parse_decimal [of "45 # nat_digits 10 n"]
    parse_decimal [of "43 # nat_digits 10 n"] from_str_radix_digits [of 10 n]
  by simp_all

lemma parse_format:
  assumes "i64_range v" and "base = 10 \<and> p = 0 \<or> base \<in> {2, 8, 16} \<and> p = 2 \<and> 0 \<le> v"
  shows "parse_number (format_number v base p) = (v, base, p)"
proof (cases "base = 10")
  case True
  then have p: "p = 0" using assms(2) by auto
  show ?thesis
  proof (cases "v < 0")
    case neg: True
    then show ?thesis
      using True p assms(1) parse_decimal_digits(2) [of "nat \<bar>v\<bar>"] by (simp add: format_number_def)
  next
    case False
    then show ?thesis
      using True p assms(1) parse_decimal_digits(1) [of "nat \<bar>v\<bar>"] by (simp add: format_number_def)
  qed
next
  case False
  then have "base = 2 \<or> base = 8 \<or> base = 16" "p = 2" "0 \<le> v" using assms(2) by auto
  then show ?thesis
    using assms(1) parse_based [of "nat \<bar>v\<bar>"] by (auto simp: format_number_def)
qed

section \<open>Lemmas on scanning\<close>

lemma scan_end_bounds: "i \<le> length s \<Longrightarrow> i \<le> scan_end P s i \<and> scan_end P s i \<le> length s"
  using length_takeWhile_le [of P "drop i s"] unfolding scan_end_def length_drop by linarith

lemma slice_scan: "chars_slice s i (scan_end P s i) = takeWhile P (drop i s)"
  by (simp add: chars_slice_def scan_end_def takeWhile_eq_take [symmetric])

lemma slice_append:
  assumes "a \<le> b" "b \<le> c"
  shows "chars_slice s a c = chars_slice s a b @ chars_slice s b c"
proof -
  have c: "c - a = (b - a) + (c - b)" and b: "(b - a) + a = b" using assms by auto
  show ?thesis unfolding chars_slice_def c take_add drop_drop b by simp
qed

lemma slice_one: "a < length s \<Longrightarrow> chars_slice s a (Suc a) = [s ! a]"
  by (simp add: chars_slice_def take_Suc_conv_app_nth)

section \<open>What a found number looks like\<close>

definition decimal_literal :: "rstr \<Rightarrow> bool" where
  "decimal_literal s \<longleftrightarrow>
     (\<exists>sgn ds. s = sgn @ ds \<and> (sgn = [] \<or> (\<exists>c. sgn = [c] \<and> is_sign c)) \<and> ds \<noteq> [] \<and> (\<forall>c \<in> set ds. is_ascii_digit c))"

definition based_literal :: "rstr \<Rightarrow> bool" where
  "based_literal s \<longleftrightarrow>
     (\<exists>l ds base. s = rc CHR ''0'' # l # ds \<and> base_of_letter l = Some base \<and> ds \<noteq> [] \<and>
        (\<forall>c \<in> set ds. forward_digit base c))"

definition lone_sign :: "rstr \<Rightarrow> bool" where
  "lone_sign s \<longleftrightarrow> (\<exists>c. s = [c] \<and> is_sign c)"

lemma slice_all: "b \<le> length s \<Longrightarrow> (\<forall>i. a \<le> i \<and> i < b \<longrightarrow> P (s ! i)) \<Longrightarrow> \<forall>c \<in> set (chars_slice s a b). P c"
  by (auto simp: chars_slice_def in_set_conv_nth)

lemma length_slice: "b \<le> length s \<Longrightarrow> length (chars_slice s a b) = b - a"
  by (simp add: chars_slice_def)

lemma scan_all: "\<forall>c \<in> set (chars_slice s i (scan_end P s i)). P c"
  unfolding slice_scan by (auto dest: set_takeWhileD)

lemma base_digit_forward: "base_digit base c \<Longrightarrow> forward_digit base c"
  by (cases base) (auto simp: ascii_defs)

lemma base_letter_some: "is_base_letter c \<longleftrightarrow> base_of_letter c \<noteq> None"
  by (auto simp: is_base_letter_def base_of_letter_def)

lemma base_letter_not_digit: "base_of_letter c = Some b \<Longrightarrow> \<not> is_ascii_digit c"
  by (auto simp: base_of_letter_def ascii_defs split: if_splits)

lemma in_hex_start:
  "in_hex_back chars n \<Longrightarrow> start_back True chars n + 2 \<le> n \<and> chars ! start_back True chars n = rc CHR ''0'' \<and>
   base_of_letter (chars ! (start_back True chars n + 1)) = Some Hex"
proof (induction n)
  case (Suc k)
  show ?case
  proof (cases "is_ascii_hexdigit (chars ! k)")
    case True
    with Suc have ih: "start_back True chars k + 2 \<le> k \<and> chars ! start_back True chars k = rc CHR ''0'' \<and>
        base_of_letter (chars ! (start_back True chars k + 1)) = Some Hex"
      by (simp add: Let_def)
    have "start_back True chars (Suc k) = start_back True chars k"
      using True by (simp add: Let_def)
    with ih show ?thesis by simp
  next
    case False
    then have "\<not> is_ascii_digit (chars ! k)" by (simp add: is_ascii_hexdigit_def)
    with False Suc.prems have x: "1 \<le> k" "chars ! k = 120 \<or> chars ! k = 88" "chars ! (k - 1) = 48"
      by (auto simp: Let_def)
    then have "start_back True chars (Suc k) = k - 1"
      by (auto simp: Let_def is_sign_def is_base_letter_def ascii_defs)
    with x show ?thesis by (auto simp: base_of_letter_def)
  qed
qed simp

definition starts_at :: "rstr \<Rightarrow> nat \<Rightarrow> nat \<Rightarrow> bool" where
  "starts_at chars s n \<longleftrightarrow> s \<le> n \<and>
     ((\<forall>i. s \<le> i \<and> i < n \<longrightarrow> is_ascii_digit (chars ! i)) \<or>
      s < n \<and> is_sign (chars ! s) \<and> (\<forall>i. s < i \<and> i < n \<longrightarrow> is_ascii_digit (chars ! i)) \<or>
      s + 2 \<le> n \<and> chars ! s = rc CHR ''0'' \<and> base_of_letter (chars ! (s + 1)) \<noteq> None)"

lemma starts_at_extend: "starts_at chars s k \<Longrightarrow> is_ascii_digit (chars ! k) \<Longrightarrow> starts_at chars s (Suc k)"
  by (auto simp: starts_at_def less_Suc_eq)

lemma start_back_decimal: "starts_at chars (start_back False chars n) n"
proof (induction n)
  case (Suc k)
  consider "is_ascii_digit (chars ! k)" | "\<not> is_ascii_digit (chars ! k)" "is_sign (chars ! k)"
    | "\<not> is_ascii_digit (chars ! k)" "\<not> is_sign (chars ! k)" by blast
  then show ?case
  proof cases
    case 1
    then show ?thesis using Suc starts_at_extend by (simp add: Let_def)
  next
    case 2
    then show ?thesis by (auto simp: Let_def starts_at_def)
  next
    case 3
    then show ?thesis
      by (cases "Suc k \<ge> 2 \<and> is_base_letter (chars ! k) \<and> chars ! (k - 1) = rc CHR ''0''")
        (auto simp: Let_def starts_at_def base_letter_some)
  qed
qed (simp add: starts_at_def)

definition number_found :: "rstr \<Rightarrow> nat \<times> nat \<times> rstr \<Rightarrow> bool" where
  "number_found chars r = (case r of (s, e, str) \<Rightarrow>
     s < e \<and> e \<le> length chars \<and> str = chars_slice chars s e \<and>
     (decimal_literal str \<or> based_literal str))"

lemma decimal_zero: "decimal_literal [48]"
  unfolding decimal_literal_def
  by (intro exI [of _ "[]"] exI [of _ "[48]"]) (simp add: ascii_defs)

lemma prefix_found:
  assumes "s + 1 < length chars" and "chars ! s = rc CHR ''0''" and "base_of_letter (chars ! (s + 1)) = Some base"
    and "\<And>c. P c \<Longrightarrow> forward_digit base c"
  shows "scan_end P chars (s + 2) = s + 2 \<Longrightarrow> number_found chars (s, s + 1, chars_slice chars s (s + 1))"
    and "scan_end P chars (s + 2) > s + 2 \<Longrightarrow>
      number_found chars (s, scan_end P chars (s + 2), chars_slice chars s (scan_end P chars (s + 2)))"
proof -
  show "number_found chars (s, s + 1, chars_slice chars s (s + 1))"
    using assms(1,2) slice_one [of s chars] decimal_zero by (simp add: number_found_def)
  let ?e = "scan_end P chars (s + 2)"
  assume e: "?e > s + 2"
  have le: "?e \<le> length chars" using scan_end_bounds [of "s + 2" chars P] assms(1) by simp
  have "chars_slice chars s ?e = chars_slice chars s (Suc s) @ chars_slice chars (Suc s) (Suc (Suc s)) @ chars_slice chars (s + 2) ?e"
    using slice_append [of s "Suc s" ?e chars] slice_append [of "Suc s" "Suc (Suc s)" ?e chars] e by simp
  then have sl: "chars_slice chars s ?e = rc CHR ''0'' # chars ! (s + 1) # chars_slice chars (s + 2) ?e"
    using assms(1,2) by (simp add: slice_one)
  have "chars_slice chars (s + 2) ?e \<noteq> []"
    using length_slice [OF le, of "s + 2"] e by auto
  moreover have "\<forall>c \<in> set (chars_slice chars (s + 2) ?e). forward_digit base c"
    using scan_all [of chars "s + 2" P] assms(4) by blast
  ultimately have "based_literal (chars_slice chars s ?e)"
    unfolding based_literal_def sl using assms(3) by blast
  then show "number_found chars (s, ?e, chars_slice chars s ?e)"
    using e le by (simp add: number_found_def)
qed

lemma decimal_found:
  assumes "s \<le> d" "d < e" "e \<le> length chars" and "s = d \<or> Suc s = d \<and> is_sign (chars ! s)"
    and "\<forall>i. d \<le> i \<and> i < e \<longrightarrow> is_ascii_digit (chars ! i)"
  shows "number_found chars (s, e, chars_slice chars s e)"
proof -
  have ds: "chars_slice chars d e \<noteq> []" "\<forall>c \<in> set (chars_slice chars d e). is_ascii_digit c"
    using assms(2,3,5) length_slice [of e chars d] slice_all [of e chars d is_ascii_digit] by auto
  have "chars_slice chars s e = chars_slice chars s d @ chars_slice chars d e"
    using assms by (intro slice_append) auto
  moreover have "chars_slice chars s d = [] \<or> (\<exists>c. chars_slice chars s d = [c] \<and> is_sign c)"
    using assms(2,3,4) slice_one [of s chars] by (auto simp: chars_slice_def)
  ultimately have "decimal_literal (chars_slice chars s e)"
    unfolding decimal_literal_def using ds by blast
  then show ?thesis using assms by (simp add: number_found_def)
qed

lemma scan_digit: "i \<le> length s \<Longrightarrow> i \<le> j \<Longrightarrow> j < scan_end P s i \<Longrightarrow> P (s ! j)"
proof -
  assume a: "i \<le> length s" "i \<le> j" "j < scan_end P s i"
  then have "j - i < length (takeWhile P (drop i s))" by (auto simp: scan_end_def)
  then have "P (takeWhile P (drop i s) ! (j - i))" using nth_mem set_takeWhileD by metis
  moreover have "takeWhile P (drop i s) ! (j - i) = s ! j"
    using \<open>j - i < _\<close> a takeWhile_nth [of "j - i" P "drop i s"] by simp
  ultimately show ?thesis by simp
qed

lemma on_digit_found:
  assumes n: "n < length chars" and "is_ascii_digit (chars ! n) \<and> \<not> in_hex \<or> in_hex \<and> in_hex_back chars n"
  shows "number_found chars (number_on_digit chars n in_hex)"
proof -
  let ?s = "start_back in_hex chars n"
  show ?thesis
  proof (cases "?s + 1 < length chars \<and> chars ! ?s = rc CHR ''0'' \<and> base_of_letter (chars ! (?s + 1)) \<noteq> None")
    case True
    then obtain base where b: "base_of_letter (chars ! (?s + 1)) = Some base" by auto
    have "scan_end (base_digit base) chars (?s + 2) \<ge> ?s + 2" by (simp add: scan_end_def)
    then show ?thesis
      using prefix_found [of ?s chars base "base_digit base"] True b base_digit_forward
      by (simp add: number_on_digit_def Let_def)
  next
    case False
    have "\<not> in_hex"
      using in_hex_start [of chars n] False assms n by auto
    then have dig: "is_ascii_digit (chars ! n)" and st: "starts_at chars ?s n"
      using assms start_back_decimal [of chars n] by auto
    let ?e = "scan_end is_ascii_digit chars (n + 1)"
    have e: "n + 1 \<le> ?e" "?e \<le> length chars" using scan_end_bounds [of "n + 1" chars is_ascii_digit] n by auto
    have r: "number_on_digit chars n in_hex = (?s, ?e, chars_slice chars ?s ?e)"
      using False by (auto simp: number_on_digit_def Let_def)
    have tail: "is_ascii_digit (chars ! i)" if "n \<le> i" "i < ?e" for i
      using that dig scan_digit [of "n + 1" chars i is_ascii_digit] n by (cases "i = n") auto
    have "(\<forall>i. ?s \<le> i \<and> i < n \<longrightarrow> is_ascii_digit (chars ! i)) \<or>
        ?s < n \<and> is_sign (chars ! ?s) \<and> (\<forall>i. ?s < i \<and> i < n \<longrightarrow> is_ascii_digit (chars ! i))"
      using st False n by (auto simp: starts_at_def)
    then show ?thesis
    proof
      assume "\<forall>i. ?s \<le> i \<and> i < n \<longrightarrow> is_ascii_digit (chars ! i)"
      then have "\<forall>i. ?s \<le> i \<and> i < ?e \<longrightarrow> is_ascii_digit (chars ! i)" using tail by (meson not_le)
      then show ?thesis
        unfolding r using st e by (intro decimal_found [of ?s ?s]) (auto simp: starts_at_def)
    next
      assume sg: "?s < n \<and> is_sign (chars ! ?s) \<and> (\<forall>i. ?s < i \<and> i < n \<longrightarrow> is_ascii_digit (chars ! i))"
      then have "\<forall>i. Suc ?s \<le> i \<and> i < ?e \<longrightarrow> is_ascii_digit (chars ! i)" using tail by (meson not_le Suc_le_eq)
      then show ?thesis
        unfolding r using sg e by (intro decimal_found [of ?s "Suc ?s"]) auto
    qed
  qed
qed

lemma decimal_from_found:
  assumes s: "s < length chars" and "decimal_from chars s = Some r"
  shows "number_found chars r \<or> is_sign (chars ! s) \<and> r = (s, s + 1, [chars ! s])"
proof -
  let ?d = "if is_sign (chars ! s) then s + 1 else s"
  let ?e = "scan_end is_ascii_digit chars ?d"
  have d: "?d \<le> length chars" using s by simp
  have r: "r = (s, ?e, chars_slice chars s ?e)" "?e > s"
    using assms by (auto simp: decimal_from_def Let_def split: if_splits)
  have e: "?d \<le> ?e" "?e \<le> length chars" using scan_end_bounds [OF d, of is_ascii_digit] by auto
  show ?thesis
  proof (cases "?d < ?e")
    case True
    have "s \<le> ?d" "s = ?d \<or> Suc s = ?d \<and> is_sign (chars ! s)" by auto
    moreover have "\<forall>i. ?d \<le> i \<and> i < ?e \<longrightarrow> is_ascii_digit (chars ! i)"
      using scan_digit [OF d, of _ is_ascii_digit] by blast
    ultimately show ?thesis
      unfolding r(1) using decimal_found [of s ?d ?e chars] True e(2) by blast
  next
    case False
    then have "?e = s + 1" "is_sign (chars ! s)" using e r(2) by (auto split: if_splits)
    then show ?thesis using r(1) slice_one [OF s] by simp
  qed
qed

lemma forward_found:
  assumes "number_forward chars col = Some r"
  shows "number_found chars r \<or> (\<exists>s. fst r = s \<and> snd r = (s + 1, [chars ! s]) \<and> s < length chars \<and>
    is_sign (chars ! s) \<and> 0 < s \<and> is_sign (chars ! (s - 1)))"
proof -
  obtain sc where sc: "find (starts_number chars) [col..<length chars] = Some sc"
    using assms by (auto simp: number_forward_def split: option.splits)
  let ?skip = "is_sign (chars ! sc) \<and> \<not> (sc + 1 < length chars \<and> is_ascii_digit (chars ! (sc + 1)))"
  let ?s = "if ?skip then sc + 1 else sc"
  have s: "?s < length chars"
    using assms sc by (auto simp: number_forward_def Let_def split: if_splits)
  let ?p = "if chars ! ?s = rc CHR ''0'' \<and> ?s + 1 < length chars then base_of_letter (chars ! (?s + 1)) else None"
  show ?thesis
  proof (cases "?p = None \<or> (\<exists>base. ?p = Some base \<and> \<not> scan_end (forward_digit base) chars (?s + 2) > ?s + 2)")
    case True
    then have "decimal_from chars ?s = Some r"
      using assms sc s unfolding number_forward_def sc option.case Let_def
      by (auto simp del: rc_simps split: option.splits)
    from decimal_from_found [OF s this] show ?thesis
    proof
      assume lone: "is_sign (chars ! ?s) \<and> r = (?s, ?s + 1, [chars ! ?s])"
      show ?thesis
      proof (cases ?skip)
        case True
        then show ?thesis using lone s by auto
      next
        case False
        then have "sc + 1 < length chars" "is_ascii_digit (chars ! (sc + 1))" using lone by auto
        moreover have "r = (sc, sc + 1, [chars ! sc])" using lone False by simp
        moreover have "decimal_from chars sc = Some r"
          using \<open>decimal_from chars ?s = Some r\<close> False by (simp only: if_False)
        ultimately show ?thesis
          using lone False by (auto simp: decimal_from_def scan_end_def Let_def Cons_nth_drop_Suc [symmetric])
      qed
    qed blast
  next
    case False
    then obtain base where base: "?p = Some base" "scan_end (forward_digit base) chars (?s + 2) > ?s + 2" by auto
    then have r: "r = (?s, scan_end (forward_digit base) chars (?s + 2), chars_slice chars ?s (scan_end (forward_digit base) chars (?s + 2)))"
      using assms sc s unfolding number_forward_def sc option.case Let_def
      by (auto simp del: rc_simps split: option.splits)
    have "number_found chars r"
      unfolding r using base by (intro prefix_found(2)) (auto split: if_splits)
    then show ?thesis by blast
  qed
qed

section \<open>Lemmas on changes\<close>

lemma parse_shape:
  "parse_number s = (v, b, p) \<Longrightarrow>
   b = 10 \<and> p = 0 \<or> b \<in> {2, 8, 16} \<and> p = 2 \<and> s \<noteq> [] \<and> hd s = rc CHR ''0''"
  by (cases s) (auto simp: parse_number_def Let_def split: if_splits)

lemma format_no_plus: "format_number v b p \<noteq> [] \<and> hd (format_number v b p) \<noteq> 43"
proof -
  have "hd (nat_digits b n) \<noteq> 43" if "2 \<le> b" "b \<le> 16" for b n
    using nat_digits_hex [OF that, of n] by (cases "nat_digits b n") (auto simp: ascii_defs)
  then show ?thesis
    by (auto simp: format_number_def Let_def hd_append)
qed

lemma changed_number_parses:
  assumes "parse_number s = (v, b, p)" and "i64_range w" and "b = 10 \<or> 0 \<le> w"
  shows "parse_number (keep_plus s w (format_number w b p)) = (w, b, p)"
proof (cases "s \<noteq> [] \<and> hd s = rc CHR ''+'' \<and> 0 \<le> w")
  case True
  then have b: "b = 10" "p = 0" using parse_shape [OF assms(1)] by auto
  have "keep_plus s w (format_number w b p) = rc CHR ''+'' # nat_digits 10 (nat \<bar>w\<bar>)"
    using True b format_no_plus [of w b p] by (simp add: keep_plus_def format_number_def)
  then show ?thesis
    using parse_decimal_digits(3) [of "nat \<bar>w\<bar>"] assms(2) True b by simp
next
  case False
  then have "keep_plus s w (format_number w b p) = format_number w b p"
    by (auto simp: keep_plus_def)
  then show ?thesis
    using parse_format [OF assms(2), of b p] parse_shape [OF assms(1)] assms(3) by auto
qed

lemma i64_wrap_range: "i64_range (i64_wrap v)"
proof -
  have "0 \<le> (v + 2 ^ 63) mod 2 ^ 64" "(v + 2 ^ 63) mod 2 ^ 64 < 2 ^ 64"
    by (rule pos_mod_sign, simp) (rule pos_mod_bound, simp)
  then show ?thesis by (simp add: i64_range_def i64_wrap_def)
qed

section \<open>Properties\<close>

text \<open>
  What the search for a number returns is a non-empty piece of the line, at the columns it
  says, and it is a number: optionally signed decimal digits, or a base prefix with digits of the
  base (with any decimal digit for octal). The one exception is a single sign character that
  follows another sign.
\<close>

theorem found_number_sound:
  assumes "find_number_at_or_after line col = Some (s, e, str)"
  shows "s < e \<and> e \<le> length line \<and> str = chars_slice line s e \<and>
    (decimal_literal str \<or> based_literal str \<or> lone_sign str \<and> 0 < s \<and> is_sign (line ! (s - 1)))"
proof -
  have ne: "line \<noteq> []" using assms by (auto simp: find_number_at_or_after_def)
  let ?n = "min col (length line - 1)"
  let ?h = "is_ascii_hexdigit (line ! ?n) \<and> \<not> is_ascii_digit (line ! ?n) \<and> in_hex_back line ?n"
  have n: "?n < length line" using ne by (cases line) auto
  show ?thesis
  proof (cases "is_ascii_digit (line ! ?n) \<or> ?h")
    case True
    then have "number_on_digit line ?n ?h = (s, e, str)"
      using assms ne by (simp add: find_number_at_or_after_def Let_def)
    then show ?thesis
      using on_digit_found [OF n, of ?h] True by (auto simp: number_found_def)
  next
    case False
    then have "number_forward line col = Some (s, e, str)"
      using assms ne by (auto simp: find_number_at_or_after_def Let_def)
    from forward_found [OF this] show ?thesis
      using slice_one [of s line] by (auto simp: number_found_def lone_sign_def)
  qed
qed

theorem found_number_sound_witness:
  "find_number_at_or_after (rs ''x 0x1f;'') 0 = Some (2, 6, rs ''0x1f'') \<and> (6 :: nat) \<le> length (rs ''x 0x1f;'')"
proof -
  have f: "find_number_at_or_after (rs ''x 0x1f;'') 0 = Some (2, 6, rs ''0x1f'')"
    by code_simp
  show ?thesis using found_number_sound [OF f] f by blast
qed

text \<open>
  C8. Formatting and parsing are inverse: every decimal \<open>i64\<close> (also \<open>i64::MIN\<close>), and every
  non-negative one in base 2, 8 or 16 with its prefix, is parsed back with its value and base.
\<close>

theorem number_roundtrip:
  assumes "i64_range v" and "base = 10 \<and> p = 0 \<or> base \<in> {2, 8, 16} \<and> p = 2 \<and> 0 \<le> v"
  shows "parse_number (format_number v base p) = (v, base, p)"
  using assms by (rule parse_format)

theorem number_roundtrip_witness:
  "parse_number (format_number (- (2 ^ 63)) 10 0) = (- (2 ^ 63), 10, 0)"
  by (rule number_roundtrip) (simp_all add: i64_range_def)

text \<open>
  \<open>Ctrl-A\<close> and \<open>Ctrl-X\<close> compute: the literal that replaces the number found denotes, in the
  same base, the number's value plus the count (wrapped to 64 bits in a visual selection, and
  overflow of the cursor command is detected exactly), unless the result is negative in another
  base than ten.
\<close>

theorem number_change_computes:
  assumes "find_number_at_or_after line col = Some (s, e, str)" and "parse_number str = (v, b, p)"
  shows "(\<not> i64_range (v + delta) \<longleftrightarrow> modify_number_at_cursor line col delta = NumberOverflow) \<and>
    (i64_range (v + delta) \<and> (b = 10 \<or> 0 \<le> v + delta) \<longrightarrow>
      (\<exists>new. modify_number_at_cursor line col delta = Replace s e new \<and> parse_number new = (v + delta, b, p))) \<and>
    (b = 10 \<or> 0 \<le> i64_wrap (v + delta) \<longrightarrow>
      (\<exists>new. modify_number_in_selection line col None delta = Replace s e new \<and>
         parse_number new = (i64_wrap (v + delta), b, p)))"
  using assms changed_number_parses [OF assms(2), of "v + delta"]
    changed_number_parses [OF assms(2) i64_wrap_range [of "v + delta"]]
  by (simp add: modify_number_at_cursor_def modify_number_in_selection_def Let_def)

theorem number_change_computes_witness:
  "\<exists>new. modify_number_at_cursor (rs ''x 0x1f;'') 0 1 = Replace 2 6 new \<and> parse_number new = (32, 16, 2)"
proof -
  have f: "find_number_at_or_after (rs ''x 0x1f;'') 0 = Some (2, 6, rs ''0x1f'')"
    and p: "parse_number (rs ''0x1f'') = (31, 16, 2)"
    by code_simp+
  show ?thesis using number_change_computes [OF f p, of 1] by (simp add: i64_range_def)
qed

text \<open>
  Four lines the commands damage: the sign after another sign is taken for a number; a decimal
  digit after a hexadecimal letter is incremented alone, without its carry; a hexadecimal number
  that was made negative is not read back, so that adding what was subtracted corrupts it; and the
  octal search takes a digit the octal parser refuses, which loses the value.
\<close>

theorem number_change_damages:
  "apply_number_change (rs ''-- x'') (modify_number_at_cursor (rs ''-- x'') 0 1) = rs ''-1 x'' \<and>
   apply_number_change (rs ''0xa9'') (modify_number_at_cursor (rs ''0xa9'') 3 1) = rs ''0xa10'' \<and>
   apply_number_change (rs ''0x0'') (modify_number_at_cursor (rs ''0x0'') 0 (-1)) = rs ''-0x1'' \<and>
   apply_number_change (rs ''-0x1'') (modify_number_at_cursor (rs ''-0x1'') 0 1) = rs ''1x1'' \<and>
   apply_number_change (rs ''x 0o18'') (modify_number_at_cursor (rs ''x 0o18'') 0 1) = rs ''x 0o1''"
  by code_simp

end
