(* ===== verification/CommandLine.thy ===== *)
theory CommandLine
  imports Prelude
begin

text \<open>
  The single-line text field behind the command line (ovim-core/src/editor/single_line_input.rs) and
  the command history (editor/command_history.rs).

  The cursor of the field is a byte offset into UTF-8 text. A Rust string operation at an offset
  that is not a character boundary panics; here it is \<open>None\<close>. \<open>char::is_alphanumeric\<close> is the
  parameter \<open>alnum\<close>.
\<close>

section \<open>UTF-8 offsets\<close>

definition utf8_len :: "rchar \<Rightarrow> nat" where
  "utf8_len c = (if c < 128 then 1 else if c < 2048 then 2 else if c < 65536 then 3 else 4)"

definition byte_len :: "rstr \<Rightarrow> nat" where
  "byte_len s = sum_list (map utf8_len s)"

text \<open>The number of characters before a byte offset, if the offset is a character boundary.\<close>

fun boundary :: "rstr \<Rightarrow> nat \<Rightarrow> nat option" where
  "boundary s 0 = Some 0"
| "boundary [] (Suc n) = None"
| "boundary (c # s) (Suc n) =
     (if Suc n < utf8_len c then None else map_option Suc (boundary s (Suc n - utf8_len c)))"

section \<open>The text field\<close>

record line_input =
  li_text :: rstr
  li_cursor :: nat

definition is_break :: "rchar \<Rightarrow> bool" where
  "is_break c \<longleftrightarrow> c = 10 \<or> c = 13"

definition line_input_new :: "rstr \<Rightarrow> line_input" where
  "line_input_new t =
     (let t = filter (\<lambda>c. \<not> is_break c) t in \<lparr>li_text = t, li_cursor = byte_len t\<rparr>)"

definition line_input_clear :: "line_input \<Rightarrow> line_input" where
  "line_input_clear i = i\<lparr>li_text := [], li_cursor := 0\<rparr>"

definition line_input_insert :: "rchar \<Rightarrow> line_input \<Rightarrow> (bool \<times> line_input) option" where
  "line_input_insert c i =
     (if is_break c then Some (False, i)
      else case boundary (li_text i) (li_cursor i) of
        None \<Rightarrow> None
      | Some k \<Rightarrow> Some (True, i\<lparr>li_text := take k (li_text i) @ c # drop k (li_text i),
                               li_cursor := li_cursor i + utf8_len c\<rparr>))"

definition line_input_insert_str :: "rstr \<Rightarrow> line_input \<Rightarrow> (bool \<times> line_input) option" where
  "line_input_insert_str t i =
     (if t = [] then Some (False, i)
      else let filtered = (if list_ex is_break t then filter (\<lambda>c. \<not> is_break c) t else t)
           in if filtered = [] then Some (False, i)
              else case boundary (li_text i) (li_cursor i) of
                None \<Rightarrow> None
              | Some k \<Rightarrow> Some (True, i\<lparr>li_text := take k (li_text i) @ filtered @ drop k (li_text i),
                                       li_cursor := li_cursor i + byte_len filtered\<rparr>))"

text \<open>\<open>previous_boundary\<close>: \<open>None\<close> is a panic, \<open>Some None\<close> the start of the text.\<close>

definition previous_boundary :: "line_input \<Rightarrow> nat option option" where
  "previous_boundary i =
     (if li_cursor i = 0 then Some None
      else case boundary (li_text i) (li_cursor i) of
        None \<Rightarrow> None
      | Some k \<Rightarrow> Some (if k = 0 then None else Some (byte_len (take (k - 1) (li_text i)))))"

text \<open>\<open>String::remove\<close>: the character at an offset.\<close>

definition string_remove :: "rstr \<Rightarrow> nat \<Rightarrow> rstr option" where
  "string_remove s b =
     (case boundary s b of None \<Rightarrow> None
      | Some k \<Rightarrow> if k < length s then Some (take k s @ drop (Suc k) s) else None)"

definition line_input_backspace :: "line_input \<Rightarrow> (bool \<times> line_input) option" where
  "line_input_backspace i =
     (case previous_boundary i of
        None \<Rightarrow> None
      | Some None \<Rightarrow> Some (False, i)
      | Some (Some previous) \<Rightarrow>
          map_option (\<lambda>t. (True, i\<lparr>li_text := t, li_cursor := previous\<rparr>)) (string_remove (li_text i) previous))"

definition line_input_delete :: "line_input \<Rightarrow> (bool \<times> line_input) option" where
  "line_input_delete i =
     (if li_cursor i \<ge> byte_len (li_text i) then Some (False, i)
      else map_option (\<lambda>t. (True, i\<lparr>li_text := t\<rparr>)) (string_remove (li_text i) (li_cursor i)))"

definition line_input_delete_to_start :: "line_input \<Rightarrow> (bool \<times> line_input) option" where
  "line_input_delete_to_start i =
     (if li_cursor i = 0 then Some (False, i)
      else case boundary (li_text i) (li_cursor i) of
        None \<Rightarrow> None
      | Some k \<Rightarrow> Some (True, i\<lparr>li_text := drop k (li_text i), li_cursor := 0\<rparr>))"

text \<open>
  The two loops of \<open>delete_word_backward\<close> run down the characters before the cursor, last first:
  they skip whitespace, then one run of word or of other characters.
\<close>

definition word_run :: "(rchar \<Rightarrow> bool) \<Rightarrow> rstr \<Rightarrow> nat" where
  "word_run alnum chars =
     (let is_word = (\<lambda>c. alnum c \<or> c = rc CHR ''_'');
          blanks = takeWhile is_whitespace chars;
          rest = dropWhile is_whitespace chars
      in length blanks +
         (case rest of [] \<Rightarrow> 0
          | first # _ \<Rightarrow> length (takeWhile (\<lambda>c. \<not> is_whitespace c \<and> is_word c = is_word first) rest)))"

definition line_input_delete_word :: "(rchar \<Rightarrow> bool) \<Rightarrow> line_input \<Rightarrow> (bool \<times> line_input) option" where
  "line_input_delete_word alnum i =
     (case boundary (li_text i) (li_cursor i) of
        None \<Rightarrow> None
      | Some k \<Rightarrow>
          (let n = word_run alnum (rev (take k (li_text i))); start = k - n
           in if n = 0 then Some (False, i)
              else Some (True, i\<lparr>li_text := take start (li_text i) @ drop k (li_text i),
                               li_cursor := byte_len (take start (li_text i))\<rparr>)))"

definition line_input_move_left :: "line_input \<Rightarrow> (bool \<times> line_input) option" where
  "line_input_move_left i =
     (case previous_boundary i of
        None \<Rightarrow> None
      | Some None \<Rightarrow> Some (False, i)
      | Some (Some previous) \<Rightarrow> Some (True, i\<lparr>li_cursor := previous\<rparr>))"

definition line_input_move_right :: "line_input \<Rightarrow> (bool \<times> line_input) option" where
  "line_input_move_right i =
     (if li_cursor i \<ge> byte_len (li_text i) then Some (False, i)
      else case boundary (li_text i) (li_cursor i) of
        None \<Rightarrow> None
      | Some k \<Rightarrow> Some (True, i\<lparr>li_cursor :=
          (if Suc k < length (li_text i) then li_cursor i + utf8_len (li_text i ! k)
           else byte_len (li_text i))\<rparr>))"

definition line_input_move_home :: "line_input \<Rightarrow> (bool \<times> line_input) option" where
  "line_input_move_home i = Some (if li_cursor i = 0 then (False, i) else (True, i\<lparr>li_cursor := 0\<rparr>))"

definition line_input_move_end :: "line_input \<Rightarrow> (bool \<times> line_input) option" where
  "line_input_move_end i =
     Some (if li_cursor i = byte_len (li_text i) then (False, i)
           else (True, i\<lparr>li_cursor := byte_len (li_text i)\<rparr>))"

datatype line_op =
  LineInsert rchar | LineInsertStr rstr | LineBackspace | LineDelete | LineDeleteToStart | LineDeleteWord
| LineLeft | LineRight | LineHome | LineEnd

fun line_op_run :: "(rchar \<Rightarrow> bool) \<Rightarrow> line_op \<Rightarrow> line_input \<Rightarrow> (bool \<times> line_input) option" where
  "line_op_run alnum (LineInsert c) i = line_input_insert c i"
| "line_op_run alnum (LineInsertStr t) i = line_input_insert_str t i"
| "line_op_run alnum LineBackspace i = line_input_backspace i"
| "line_op_run alnum LineDelete i = line_input_delete i"
| "line_op_run alnum LineDeleteToStart i = line_input_delete_to_start i"
| "line_op_run alnum LineDeleteWord i = line_input_delete_word alnum i"
| "line_op_run alnum LineLeft i = line_input_move_left i"
| "line_op_run alnum LineRight i = line_input_move_right i"
| "line_op_run alnum LineHome i = line_input_move_home i"
| "line_op_run alnum LineEnd i = line_input_move_end i"

section \<open>The command line of the editor\<close>

record command_state =
  cmd_input :: line_input
  cmd_history :: "rstr list"
  cmd_history_index :: "nat option"

definition command_clear :: "command_state \<Rightarrow> command_state" where
  "command_clear s = s\<lparr>cmd_input := line_input_clear (cmd_input s), cmd_history_index := None\<rparr>"

text \<open>An editing key of the command line: a change of the text leaves the history.\<close>

definition command_edit :: "(rchar \<Rightarrow> bool) \<Rightarrow> line_op \<Rightarrow> command_state \<Rightarrow> command_state option" where
  "command_edit alnum op s =
     map_option (\<lambda>(changed, i). if changed then s\<lparr>cmd_input := i, cmd_history_index := None\<rparr>
                                 else s\<lparr>cmd_input := i\<rparr>)
       (line_op_run alnum op (cmd_input s))"

definition command_move :: "(rchar \<Rightarrow> bool) \<Rightarrow> line_op \<Rightarrow> command_state \<Rightarrow> command_state option" where
  "command_move alnum op s =
     map_option (\<lambda>(_, i). s\<lparr>cmd_input := i\<rparr>) (line_op_run alnum op (cmd_input s))"

definition set_command_line :: "rstr \<Rightarrow> command_state \<Rightarrow> command_state" where
  "set_command_line cmd s = s\<lparr>cmd_input := line_input_new cmd\<rparr>"

definition str_trim :: "rstr \<Rightarrow> rstr" where
  "str_trim s = rev (dropWhile is_whitespace (rev (dropWhile is_whitespace s)))"

definition add_command_to_history :: "command_state \<Rightarrow> command_state" where
  "add_command_to_history s =
     (let cmd = str_trim (li_text (cmd_input s)); h = cmd_history s;
          h = (if cmd \<noteq> [] \<and> (h = [] \<or> last h \<noteq> cmd)
               then let h = h @ [cmd] in if length h > 100 then drop 1 h else h
               else h)
      in s\<lparr>cmd_history := h, cmd_history_index := None\<rparr>)"

definition history_goto :: "nat \<Rightarrow> command_state \<Rightarrow> command_state" where
  "history_goto idx s =
     (if idx < length (cmd_history s)
      then s\<lparr>cmd_input := line_input_new (cmd_history s ! idx), cmd_history_index := Some idx\<rparr> else s)"

definition history_prev :: "command_state \<Rightarrow> command_state" where
  "history_prev s =
     (if cmd_history s = [] then s
      else case cmd_history_index s of
        None \<Rightarrow> history_goto (length (cmd_history s) - 1) s
      | Some idx \<Rightarrow> if idx > 0 then history_goto (idx - 1) s else s)"

definition history_next :: "command_state \<Rightarrow> command_state" where
  "history_next s =
     (if cmd_history s = [] then s
      else case cmd_history_index s of
        None \<Rightarrow> s
      | Some idx \<Rightarrow>
          if idx < length (cmd_history s) - 1 then history_goto (idx + 1) s
          else s\<lparr>cmd_input := line_input_clear (cmd_input s), cmd_history_index := None\<rparr>)"

section \<open>The abstract field\<close>

text \<open>The characters before and after the cursor.\<close>

type_synonym line_zipper = "rstr \<times> rstr"

fun zipper_op :: "(rchar \<Rightarrow> bool) \<Rightarrow> line_op \<Rightarrow> line_zipper \<Rightarrow> line_zipper" where
  "zipper_op alnum (LineInsert c) (b, a) = (if is_break c then (b, a) else (b @ [c], a))"
| "zipper_op alnum (LineInsertStr t) (b, a) = (b @ filter (\<lambda>c. \<not> is_break c) t, a)"
| "zipper_op alnum LineBackspace (b, a) = (butlast b, a)"
| "zipper_op alnum LineDelete (b, a) = (b, tl a)"
| "zipper_op alnum LineDeleteToStart (b, a) = ([], a)"
| "zipper_op alnum LineDeleteWord (b, a) = (take (length b - word_run alnum (rev b)) b, a)"
| "zipper_op alnum LineLeft (b, a) = (if b = [] then (b, a) else (butlast b, last b # a))"
| "zipper_op alnum LineRight (b, a) = (if a = [] then (b, a) else (b @ [hd a], tl a))"
| "zipper_op alnum LineHome (b, a) = ([], b @ a)"
| "zipper_op alnum LineEnd (b, a) = (b @ a, [])"

definition field_is :: "line_input \<Rightarrow> line_zipper \<Rightarrow> bool" where
  "field_is i z \<longleftrightarrow> (case z of (b, a) \<Rightarrow>
     li_text i = b @ a \<and> li_cursor i = byte_len b \<and> (\<forall>c \<in> set (b @ a). \<not> is_break c))"

section \<open>Lemmas on offsets\<close>

lemma utf8_len_pos [simp]: "0 < utf8_len c" "utf8_len c \<noteq> 0"
  by (simp_all add: utf8_len_def)

lemma byte_len_simps [simp]:
  "byte_len [] = 0" "byte_len (c # s) = utf8_len c + byte_len s" "byte_len (s @ t) = byte_len s + byte_len t"
  by (simp_all add: byte_len_def)

lemma byte_len_0 [simp]: "byte_len s = 0 \<longleftrightarrow> s = []"
  by (cases s) (simp_all add: utf8_len_def)

lemma boundary_prefix [simp]: "boundary (b @ a) (byte_len b) = Some (length b)"
proof (induction b)
  case (Cons c b)
  obtain n where "utf8_len c + byte_len b = Suc n"
    by (cases "utf8_len c + byte_len b") auto
  moreover from this have "\<not> Suc n < utf8_len c" "Suc n - utf8_len c = byte_len b" by auto
  ultimately show ?case using Cons by simp
qed simp

lemma boundary_all [simp]: "boundary b (byte_len b) = Some (length b)"
  using boundary_prefix [of b "[]"] by simp

lemma string_remove_mid [simp]: "string_remove (b @ c # a) (byte_len b) = Some (b @ a)"
  by (simp add: string_remove_def)

lemma word_run_le: "word_run alnum s \<le> length s"
proof -
  let ?rest = "dropWhile is_whitespace s"
  have len: "length (takeWhile is_whitespace s) + length ?rest = length s"
    by (metis length_append takeWhile_dropWhile_id)
  show ?thesis
  proof (cases ?rest)
    case (Cons first u)
    let ?P = "\<lambda>c. \<not> is_whitespace c \<and> (alnum c \<or> c = rc CHR ''_'') = (alnum first \<or> first = rc CHR ''_'')"
    have "word_run alnum s = length (takeWhile is_whitespace s) + length (takeWhile ?P ?rest)"
      unfolding word_run_def Let_def Cons list.case by (rule refl)
    then show ?thesis using len length_takeWhile_le [of ?P ?rest] by linarith
    next
    case Nil
    then show ?thesis using len unfolding word_run_def Let_def Nil list.case by simp
  qed
qed

section \<open>The field refines the zipper\<close>

lemma field_previous:
  "field_is i (b, a) \<Longrightarrow> previous_boundary i = Some (if b = [] then None else Some (byte_len (butlast b)))"
  by (auto simp: field_is_def previous_boundary_def butlast_conv_take)

lemma field_backspace:
  assumes "field_is i (b, a)" and "b \<noteq> []"
  shows "\<exists>i'. line_input_backspace i = Some (True, i') \<and> field_is i' (butlast b, a)"
proof -
  have "li_text i = butlast b @ last b # a" using assms by (simp add: field_is_def)
  then have "string_remove (li_text i) (byte_len (butlast b)) = Some (butlast b @ a)"
    by (metis string_remove_mid)
  then show ?thesis
    using assms field_previous [OF assms(1)]
    by (auto simp: line_input_backspace_def field_is_def dest: in_set_butlastD)
qed

lemma take_length_minus: "n \<le> length b \<Longrightarrow> 0 < n \<Longrightarrow> take (length b - n) b \<noteq> b"
  by (metis diff_less length_take less_le_trans min.absorb2 diff_le_self nat_less_le)

lemma field_refines:
  assumes "field_is i z"
  shows "\<exists>i'. line_op_run alnum op i = Some (zipper_op alnum op z \<noteq> z, i') \<and> field_is i' (zipper_op alnum op z)"
proof -
  obtain b a where z: "z = (b, a)" by fastforce
  note f = assms [unfolded z]
  have ba: "li_text i = b @ a" "li_cursor i = byte_len b" "\<forall>c \<in> set b. \<not> is_break c" "\<forall>c \<in> set a. \<not> is_break c"
    using f by (auto simp: field_is_def)
  show ?thesis
  proof (cases op)
    case (LineInsert c)
    then show ?thesis using ba z by (auto simp: line_input_insert_def field_is_def)
  next
    case (LineInsertStr t)
    have "filter (\<lambda>c. \<not> is_break c) t = t" if "\<not> list_ex is_break t"
      using that by (auto simp: filter_id_conv list_ex_iff)
    then show ?thesis using ba z LineInsertStr
      by (auto simp: line_input_insert_str_def field_is_def Let_def)
  next
    case LineBackspace
    show ?thesis
    proof (cases "b = []")
      case True
      then show ?thesis using f z LineBackspace field_previous [OF f] by (simp add: line_input_backspace_def)
    next
      case False
      then have "butlast b \<noteq> b" by (metis append_butlast_last_id append_self_conv not_Cons_self2)
      then show ?thesis using field_backspace [OF f False] z LineBackspace by simp
    qed
  next
    case LineDelete
    then show ?thesis using ba z by (cases a) (auto simp: line_input_delete_def field_is_def)
  next
    case LineDeleteToStart
    then show ?thesis using ba z by (auto simp: line_input_delete_to_start_def field_is_def)
  next
    case LineDeleteWord
    let ?n = "word_run alnum (rev b)"
    have "?n \<le> length b" using word_run_le [of alnum "rev b"] by simp
    then show ?thesis using ba z LineDeleteWord take_length_minus [of ?n b]
      by (auto simp: line_input_delete_word_def field_is_def Let_def dest: in_set_takeD)
  next
    case LineLeft
    have "b \<noteq> [] \<Longrightarrow> butlast b @ last b # a = b @ a" by simp
    then show ?thesis using ba z LineLeft field_previous [OF f]
      by (cases "b = []") (auto simp: line_input_move_left_def field_is_def dest: in_set_butlastD)
  next
    case LineRight
    then show ?thesis using ba z
      by (cases a; cases "tl a") (auto simp: line_input_move_right_def field_is_def nth_append)
  next
    case LineHome
    then show ?thesis using ba z by (auto simp: line_input_move_home_def field_is_def)
  next
    case LineEnd
    then show ?thesis using ba z by (auto simp: line_input_move_end_def field_is_def)
  qed
qed

interpretation field: step_refinement "line_op_run alnum" "zipper_op alnum" field_is for alnum
  by unfold_locales (rule field_refines)

lemma field_new: "field_is (line_input_new t) (filter (\<lambda>c. \<not> is_break c) t, [])"
  by (simp add: field_is_def line_input_new_def Let_def)

section \<open>The history\<close>

inductive command_reach :: "(rchar \<Rightarrow> bool) \<Rightarrow> command_state \<Rightarrow> bool" for alnum :: "rchar \<Rightarrow> bool" where
  cr_new: "command_reach alnum \<lparr>cmd_input = line_input_new t, cmd_history = [], cmd_history_index = None\<rparr>"
| cr_edit: "command_reach alnum s \<Longrightarrow> command_edit alnum op s = Some s' \<Longrightarrow> command_reach alnum s'"
| cr_move: "command_reach alnum s \<Longrightarrow> command_move alnum op s = Some s' \<Longrightarrow> command_reach alnum s'"
| cr_clear: "command_reach alnum s \<Longrightarrow> command_reach alnum (command_clear s)"
| cr_set: "command_reach alnum s \<Longrightarrow> command_reach alnum (set_command_line t s)"
| cr_add: "command_reach alnum s \<Longrightarrow> command_reach alnum (add_command_to_history s)"
| cr_prev: "command_reach alnum s \<Longrightarrow> command_reach alnum (history_prev s)"
| cr_next: "command_reach alnum s \<Longrightarrow> command_reach alnum (history_next s)"

definition history_entry :: "rstr \<Rightarrow> bool" where
  "history_entry h \<longleftrightarrow> h \<noteq> [] \<and> \<not> is_whitespace (hd h) \<and> \<not> is_whitespace (last h) \<and> (\<forall>c \<in> set h. \<not> is_break c)"

definition history_ok :: "command_state \<Rightarrow> bool" where
  "history_ok s \<longleftrightarrow>
     length (cmd_history s) \<le> 100 \<and> successively (\<noteq>) (cmd_history s) \<and>
     (\<forall>h \<in> set (cmd_history s). history_entry h) \<and>
     (\<forall>i. cmd_history_index s = Some i \<longrightarrow> i < length (cmd_history s)) \<and>
     (\<exists>z. field_is (cmd_input s) z)"

lemma trim_entry:
  assumes "\<forall>c \<in> set t. \<not> is_break c" and "str_trim t \<noteq> []"
  shows "history_entry (str_trim t)"
proof -
  let ?u = "dropWhile is_whitespace t" let ?v = "dropWhile is_whitespace (rev ?u)"
  have v: "?v \<noteq> []" using assms(2) by (simp add: str_trim_def)
  have u: "?u \<noteq> []" using v by (metis dropWhile.simps(1) rev.simps(1))
  have "\<not> is_whitespace (hd ?v)" using v by (rule hd_dropWhile)
  then have "\<not> is_whitespace (last (str_trim t))" by (simp add: str_trim_def last_rev)
  moreover have "\<not> is_whitespace (hd (str_trim t))"
  proof -
    have "rev ?u = takeWhile is_whitespace (rev ?u) @ ?v" by simp
    then have "?u = rev ?v @ rev (takeWhile is_whitespace (rev ?u))" by (metis rev_append rev_rev_ident)
    then have "hd ?u = hd (rev ?v)" using v by (metis hd_append2 rev_is_Nil_conv)
    then show ?thesis using hd_dropWhile [OF u] by (simp add: str_trim_def)
  qed
  moreover have "set (str_trim t) \<subseteq> set t"
    unfolding str_trim_def set_rev using set_dropWhileD by (metis set_rev subsetI)
  ultimately show ?thesis using assms by (auto simp: history_entry_def)
qed

lemma field_no_breaks: "field_is i z \<Longrightarrow> \<forall>c \<in> set (li_text i). \<not> is_break c"
  by (auto simp: field_is_def split: prod.splits)

lemma successively_drop: "successively P xs \<Longrightarrow> successively P (drop n xs)"
  by (metis append_take_drop_id successively_append_iff)

lemma add_history_ok:
  assumes "history_ok s"
  shows "history_ok (add_command_to_history s)"
proof -
  let ?cmd = "str_trim (li_text (cmd_input s))"
  obtain z where "field_is (cmd_input s) z" using assms by (auto simp: history_ok_def)
  then have entry: "?cmd \<noteq> [] \<Longrightarrow> history_entry ?cmd" using trim_entry field_no_breaks by blast
  show ?thesis
  proof (cases "?cmd \<noteq> [] \<and> (cmd_history s = [] \<or> last (cmd_history s) \<noteq> ?cmd)")
    case True
    then have "successively (\<noteq>) (cmd_history s @ [?cmd])"
      using assms by (auto simp: history_ok_def successively_append_iff)
    then have succ: "successively (\<noteq>) (drop n (cmd_history s @ [?cmd]))" for n by (rule successively_drop)
    have ent: "\<forall>h \<in> set (drop n (cmd_history s @ [?cmd])). history_entry h" for n
      using assms True entry by (auto simp: history_ok_def simp del: drop_append dest!: in_set_dropD)
    have "\<exists>n. cmd_history (add_command_to_history s) = drop n (cmd_history s @ [?cmd]) \<and>
        length (drop n (cmd_history s @ [?cmd])) \<le> 100"
    proof (cases "length (cmd_history s @ [?cmd]) > 100")
      case big: True
      then show ?thesis using True assms
        by (intro exI [of _ 1]) (simp add: add_command_to_history_def history_ok_def Let_def del: drop_append)
    next
      case False
      then show ?thesis using True
        by (intro exI [of _ 0]) (simp add: add_command_to_history_def Let_def)
    qed
    then obtain n where h: "cmd_history (add_command_to_history s) = drop n (cmd_history s @ [?cmd])"
        "length (drop n (cmd_history s @ [?cmd])) \<le> 100" by blast
    have "cmd_history_index (add_command_to_history s) = None" "cmd_input (add_command_to_history s) = cmd_input s"
      by (simp_all add: add_command_to_history_def Let_def)
    then show ?thesis
      unfolding history_ok_def h(1) using h(2) succ ent \<open>field_is (cmd_input s) z\<close>
      by (intro conjI exI [of _ z]) simp_all
  next
    case False
    then have "cmd_history (add_command_to_history s) = cmd_history s"
        "cmd_history_index (add_command_to_history s) = None" "cmd_input (add_command_to_history s) = cmd_input s"
      by (auto simp: add_command_to_history_def Let_def)
    then show ?thesis
      using assms \<open>field_is (cmd_input s) z\<close> unfolding history_ok_def by (intro conjI exI [of _ z]) simp_all
  qed
qed

lemma history_ok_input:
  "history_ok s \<Longrightarrow> field_is i z \<Longrightarrow> history_ok (s\<lparr>cmd_input := i\<rparr>)"
  "history_ok s \<Longrightarrow> field_is i z \<Longrightarrow> history_ok (s\<lparr>cmd_input := i, cmd_history_index := None\<rparr>)"
  "history_ok s \<Longrightarrow> field_is i z \<Longrightarrow> j < length (cmd_history s) \<Longrightarrow>
   history_ok (s\<lparr>cmd_input := i, cmd_history_index := Some j\<rparr>)"
  by (cases z, auto simp: history_ok_def)+

lemma history_goto_ok: "history_ok s \<Longrightarrow> history_ok (history_goto i s)"
  unfolding history_goto_def using history_ok_input(3) [OF _ field_new] by simp

lemma field_clear: "field_is (line_input_clear i) ([], [])"
  by (simp add: field_is_def line_input_clear_def)

lemma command_reach_ok: "command_reach alnum s \<Longrightarrow> history_ok s"
proof (induction rule: command_reach.induct)
  case (cr_new t)
  then show ?case using field_new by (auto simp: history_ok_def)
next
  case (cr_edit s op s')
  then obtain z where z: "field_is (cmd_input s) z" by (auto simp: history_ok_def)
  obtain i' where i': "line_op_run alnum op (cmd_input s) = Some (zipper_op alnum op z \<noteq> z, i')"
      "field_is i' (zipper_op alnum op z)"
    using field_refines [OF z] by blast
  then show ?case
    using cr_edit.hyps history_ok_input(1,2) [OF cr_edit.IH i'(2)] by (auto simp: command_edit_def split: if_splits)
next
  case (cr_move s op s')
  then obtain z where z: "field_is (cmd_input s) z" by (auto simp: history_ok_def)
  obtain i' where i': "line_op_run alnum op (cmd_input s) = Some (zipper_op alnum op z \<noteq> z, i')"
      "field_is i' (zipper_op alnum op z)"
    using field_refines [OF z] by blast
  then show ?case
    using cr_move.hyps history_ok_input(1) [OF cr_move.IH i'(2)] by (auto simp: command_move_def)
next
  case (cr_clear s)
  then show ?case using history_ok_input(2) [OF _ field_clear] by (simp add: command_clear_def)
next
  case (cr_set s t)
  then show ?case using history_ok_input(1) [OF _ field_new] by (simp add: set_command_line_def)
next
  case (cr_add s)
  then show ?case using add_history_ok by blast
next
  case (cr_prev s)
  then show ?case using history_goto_ok by (simp add: history_prev_def split: option.split)
next
  case (cr_next s)
  then show ?case using history_goto_ok history_ok_input(2) [OF _ field_clear]
    by (simp add: history_next_def split: option.split)
qed

lemma history_prev_steps:
  assumes "cmd_history_index s = None" and "n < length (cmd_history s)"
  shows "(history_prev ^^ Suc n) s =
    s\<lparr>cmd_input := line_input_new (cmd_history s ! (length (cmd_history s) - Suc n)),
      cmd_history_index := Some (length (cmd_history s) - Suc n)\<rparr>"
  using assms(2)
proof (induction n)
  case 0
  then show ?case using assms(1) by (auto simp: history_prev_def history_goto_def)
next
  case (Suc n)
  then have "0 < length (cmd_history s) - Suc n"
    and "length (cmd_history s) - Suc n - 1 = length (cmd_history s) - Suc (Suc n)" by auto
  then show ?case using Suc by (auto simp: history_prev_def history_goto_def)
qed

lemma history_next_steps:
  assumes "cmd_history_index s = Some i" and "i + n < length (cmd_history s)"
    and "cmd_input s = line_input_new (cmd_history s ! i)"
  shows "(history_next ^^ n) s =
    s\<lparr>cmd_input := line_input_new (cmd_history s ! (i + n)), cmd_history_index := Some (i + n)\<rparr>"
  using assms(2)
proof (induction n)
  case 0
  then show ?case using assms(1,3) by simp
next
  case (Suc n)
  then show ?case by (auto simp: history_next_def history_goto_def)
qed

section \<open>Properties\<close>

text \<open>
  C9. The text field refines a zipper: from any initial text, no sequence of its operations
  panics (the byte cursor is always a character boundary), and the text before and after the cursor
  is what the zipper operations on characters give. Line breaks never get in.
\<close>

theorem line_input_refines_zipper:
  "\<exists>i. run_steps (line_op_run alnum) ops (line_input_new t) = Some i \<and>
     field_is i (fold (zipper_op alnum) ops (filter (\<lambda>c. \<not> is_break c) t, []))"
  by (rule field.run_refines [OF field_new])

text \<open>
  The command history of every reachable command line holds at most 100 entries, each trimmed,
  non-empty and without line breaks and different from its neighbours, and the navigation index is
  that of an entry.
\<close>

theorem command_history_invariant:
  assumes "command_reach alnum s"
  shows "length (cmd_history s) \<le> 100 \<and> successively (\<noteq>) (cmd_history s) \<and>
    (\<forall>h \<in> set (cmd_history s). history_entry h) \<and>
    (\<forall>i. cmd_history_index s = Some i \<longrightarrow> i < length (cmd_history s))"
  using command_reach_ok [OF assms] by (simp add: history_ok_def)

theorem command_history_invariant_witness:
  "length (cmd_history (add_command_to_history
     \<lparr>cmd_input = line_input_new (rs '' w ''), cmd_history = [], cmd_history_index = None\<rparr>)) \<le> 100"
  using command_history_invariant [OF cr_add [OF cr_new]] by blast

text \<open>
  History navigation: from a line that is not navigating, \<open>n + 1\<close> presses of the up key show
  the entry \<open>n + 1\<close> from the end (the oldest one at most), \<open>k\<close> presses of the down key after that
  show the entry \<open>k\<close> later, and one more press past the newest entry empties the line.
\<close>

theorem history_navigation:
  assumes "cmd_history_index s = None" and "n < length (cmd_history s)" and "k \<le> n"
  defines "up \<equiv> (history_prev ^^ Suc n) s"
  shows "cmd_input ((history_next ^^ k) up) = line_input_new (cmd_history s ! (length (cmd_history s) - Suc n + k)) \<and>
    cmd_history_index ((history_next ^^ k) up) = Some (length (cmd_history s) - Suc n + k) \<and>
    (n + 1 = length (cmd_history s) \<longrightarrow> history_prev up = up) \<and>
    li_text (cmd_input (history_next ((history_next ^^ n) up))) = [] \<and>
    cmd_history_index (history_next ((history_next ^^ n) up)) = None"
proof -
  let ?i = "length (cmd_history s) - Suc n"
  have up: "up = s\<lparr>cmd_input := line_input_new (cmd_history s ! ?i), cmd_history_index := Some ?i\<rparr>"
    unfolding up_def using history_prev_steps [OF assms(1,2)] .
  have steps: "(history_next ^^ j) up =
      up\<lparr>cmd_input := line_input_new (cmd_history s ! (?i + j)), cmd_history_index := Some (?i + j)\<rparr>" if "j \<le> n" for j
    using history_next_steps [of up ?i j] that assms(2) up by simp
  have newest: "?i + n = length (cmd_history s) - 1" using assms(2) by simp
  have ne: "cmd_history s \<noteq> []" using assms(2) by auto
  have "history_next ((history_next ^^ n) up) =
      ((history_next ^^ n) up)\<lparr>cmd_input := line_input_clear (cmd_input ((history_next ^^ n) up)), cmd_history_index := None\<rparr>"
    unfolding steps [OF order_refl] using newest ne by (simp add: history_next_def up)
  then show ?thesis
    using steps [OF assms(3)] up ne by (auto simp: history_prev_def line_input_clear_def)
qed

theorem history_navigation_witness:
  "cmd_history_index ((history_next ^^ 1) ((history_prev ^^ Suc 1)
     \<lparr>cmd_input = line_input_new [], cmd_history = [rs ''w'', rs ''q''], cmd_history_index = None\<rparr>)) = Some 1"
  using history_navigation [of "\<lparr>cmd_input = line_input_new [], cmd_history = [rs ''w'', rs ''q''], cmd_history_index = None\<rparr>" 1 1]
  by simp

end
