(* ===== verification/Marks.thy ===== *)
theory Marks
  imports TextBuffers
begin

text \<open>
  Marks and jumps: the local marks of a buffer (ovim-core/src/buffer/marks.rs), the global marks, the
  jump list and the tag stack (editor/marks.rs).

  A \<open>BTreeMap\<close> is its list of entries in key order. Whether two paths name the same file
  (\<open>paths_identify_same_file\<close>, which asks the filesystem) is the parameter \<open>same_file\<close>.
\<close>

section \<open>Local marks\<close>

record mark_pos =
  mk_line :: nat
  mk_col :: nat

type_synonym local_marks = "(rchar \<times> mark_pos) list"

fun btree_insert :: "rchar \<Rightarrow> 'v \<Rightarrow> (rchar \<times> 'v) list \<Rightarrow> (rchar \<times> 'v) list" where
  "btree_insert k v [] = [(k, v)]"
| "btree_insert k v ((k', v') # m) =
     (if k < k' then (k, v) # (k', v') # m else if k = k' then (k, v) # m
      else (k', v') # btree_insert k v m)"

definition marks_set :: "rchar \<Rightarrow> mark_pos \<Rightarrow> local_marks \<Rightarrow> local_marks" where
  "marks_set name pos m = btree_insert name pos m"

definition marks_get :: "rchar \<Rightarrow> local_marks \<Rightarrow> mark_pos option" where
  "marks_get name m = map_of m name"

definition marks_on_line :: "nat \<Rightarrow> local_marks \<Rightarrow> (rchar \<times> mark_pos) list" where
  "marks_on_line line m = filter (\<lambda>(_, pos). mk_line pos = line) m"

definition breaks_inserted :: "nat \<Rightarrow> nat \<Rightarrow> bool \<Rightarrow> local_marks \<Rightarrow> local_marks" where
  "breaks_inserted line breaks whole_lines m =
     map (\<lambda>(name, pos).
       (name, if mk_line pos > line \<or> whole_lines \<and> mk_line pos = line
              then pos\<lparr>mk_line := mk_line pos + breaks\<rparr> else pos)) m"

definition is_visual_mark :: "rchar \<Rightarrow> bool" where
  "is_visual_mark name \<longleftrightarrow> name = rc CHR ''<'' \<or> name = rc CHR ''>''"

text \<open>What \<open>lines_removed\<close> does with one mark: \<open>None\<close> deletes it.\<close>

definition removed_lines :: "nat \<times> nat \<Rightarrow> nat \<times> nat \<Rightarrow> nat \<Rightarrow> nat \<Rightarrow> (nat \<times> nat) option" where
  "removed_lines s e start_len end_len =
     (if snd s = 0 \<and> snd e = 0 then Some (fst s, fst e - 1)
      else if snd s = start_len \<and> snd e = end_len then Some (fst s + 1, fst e)
      else None)"

definition mark_after_removal ::
  "nat \<times> nat \<Rightarrow> nat \<times> nat \<Rightarrow> nat \<Rightarrow> nat \<Rightarrow> rchar \<Rightarrow> mark_pos \<Rightarrow> mark_pos option" where
  "mark_after_removal s e start_len end_len name pos =
     (let breaks = fst e - fst s; visual = is_visual_mark name
      in case removed_lines s e start_len end_len of
           Some (first, final) \<Rightarrow>
             if first \<le> mk_line pos \<and> mk_line pos \<le> final
             then (if visual then Some (pos\<lparr>mk_line := first\<rparr>) else None)
             else if mk_line pos > final then Some (pos\<lparr>mk_line := mk_line pos - breaks\<rparr>)
             else Some pos
         | None \<Rightarrow>
             if mk_line pos > fst s \<and> mk_line pos < fst e
             then (if visual then Some (pos\<lparr>mk_line := fst s\<rparr>) else None)
             else if mk_line pos = fst e
             then Some \<lparr>mk_line = fst s, mk_col = snd s + (mk_col pos - snd e)\<rparr>
             else if mk_line pos > fst e then Some (pos\<lparr>mk_line := mk_line pos - breaks\<rparr>)
             else Some pos)"

definition lines_removed ::
  "nat \<times> nat \<Rightarrow> nat \<times> nat \<Rightarrow> nat \<Rightarrow> nat \<Rightarrow> local_marks \<Rightarrow> local_marks" where
  "lines_removed s e start_len end_len m =
     List.map_filter (\<lambda>(name, pos). map_option (Pair name) (mark_after_removal s e start_len end_len name pos)) m"

definition adjust_marks_for_insert ::
  "'r rope_ops \<Rightarrow> 'r \<Rightarrow> nat \<Rightarrow> nat \<Rightarrow> rstr \<Rightarrow> nat \<Rightarrow> local_marks \<Rightarrow> local_marks" where
  "adjust_marks_for_insert R rope line col t lines_before m =
     (if m = [] then m
      else let breaks = rope_len_lines R rope - lines_before
           in if breaks = 0 then m
              else breaks_inserted line breaks
                     (col = 0 \<and> (ends_with_char t 10 \<or> ends_with_char t 13)) m)"

definition adjust_marks_for_removal ::
  "'r rope_ops \<Rightarrow> 'r buffer \<Rightarrow> nat \<Rightarrow> nat \<Rightarrow> local_marks \<Rightarrow> local_marks" where
  "adjust_marks_for_removal R b start_pos end_pos m =
     (if m = [] then m
      else let rope = buf_rope b;
               start_line = rope_char_to_line R rope start_pos;
               end_line = rope_char_to_line R rope end_pos
           in if start_line = end_line then m
              else lines_removed
                     (start_line, start_pos - rope_line_to_char R rope start_line)
                     (end_line, end_pos - rope_line_to_char R rope end_line)
                     (buffer_line_len R b start_line) (buffer_line_len R b end_line) m)"

definition restore_marks_on_line :: "nat \<Rightarrow> (rchar \<times> nat) list \<Rightarrow> local_marks \<Rightarrow> local_marks" where
  "restore_marks_on_line line marks m =
     foldl (\<lambda>m (name, col). marks_set name \<lparr>mk_line = line, mk_col = col\<rparr> m) m marks"

section \<open>Global marks\<close>

record global_mark =
  gm_file :: "rstr option"
  gm_line :: nat
  gm_col :: nat

definition set_global_mark ::
  "rchar \<Rightarrow> nat \<Rightarrow> nat \<Rightarrow> rstr option \<Rightarrow> (rchar \<rightharpoonup> global_mark) \<Rightarrow> bool \<times> (rchar \<rightharpoonup> global_mark)" where
  "set_global_mark name line col file m =
     (if \<not> is_ascii_uppercase name then (False, m)
      else (True, m(name \<mapsto> \<lparr>gm_file = file, gm_line = line, gm_col = col\<rparr>)))"

section \<open>The jump list\<close>

record jump_entry =
  je_file :: "rstr option"
  je_line :: nat
  je_col :: nat

definition same_place :: "(rstr \<Rightarrow> rstr \<Rightarrow> bool) \<Rightarrow> jump_entry \<Rightarrow> jump_entry \<Rightarrow> bool" where
  "same_place same_file x y \<longleftrightarrow>
     je_line x = je_line y \<and>
     (case (je_file x, je_file y) of
        (Some a, Some b) \<Rightarrow> same_file a b
      | (None, None) \<Rightarrow> True
      | _ \<Rightarrow> False)"

record jump_list =
  jl_jumps :: "jump_entry list"
  jl_current :: nat
  jl_max_size :: nat

definition jump_list_new :: jump_list where
  "jump_list_new = \<lparr>jl_jumps = [], jl_current = 0, jl_max_size = 100\<rparr>"

definition add_jump :: "jump_entry \<Rightarrow> jump_list \<Rightarrow> jump_list" where
  "add_jump entry l =
     (let jumps = jl_jumps l @ [entry];
          jumps = (if length jumps > max (jl_max_size l) 1 then tl jumps else jumps)
      in l\<lparr>jl_jumps := jumps, jl_current := length jumps\<rparr>)"

fun cleanup_loop ::
  "(rstr \<Rightarrow> rstr \<Rightarrow> bool) \<Rightarrow> nat \<Rightarrow> nat \<Rightarrow> jump_entry list \<Rightarrow> jump_entry list \<Rightarrow> nat option \<Rightarrow>
   jump_entry list \<times> nat option" where
  "cleanup_loop same_file current start [] kept new_current = (kept, new_current)"
| "cleanup_loop same_file current start (x # later) kept new_current =
     (let new_current = (if current = start then Some (length kept) else new_current);
          has_later_duplicate = list_ex (\<lambda>y. same_place same_file y x) later
      in cleanup_loop same_file current (Suc start) later
           (if has_later_duplicate then kept else kept @ [x]) new_current)"

definition jump_cleanup :: "(rstr \<Rightarrow> rstr \<Rightarrow> bool) \<Rightarrow> jump_list \<Rightarrow> jump_list" where
  "jump_cleanup same_file l =
     (let (kept, new_current) = cleanup_loop same_file (jl_current l) 0 (jl_jumps l) [] None
      in l\<lparr>jl_current := (case new_current of Some c \<Rightarrow> c | None \<Rightarrow> length kept), jl_jumps := kept\<rparr>)"

definition jump_step ::
  "(rstr \<Rightarrow> rstr \<Rightarrow> bool) \<Rightarrow> int \<Rightarrow> jump_entry \<Rightarrow> jump_list \<Rightarrow> jump_entry option \<times> jump_list" where
  "jump_step same_file count here l =
     (let l = jump_cleanup same_file l;
          l = (if jl_current l = length (jl_jumps l) \<and> jl_jumps l \<noteq> []
                  \<and> same_place same_file (last (jl_jumps l)) here
               then l\<lparr>jl_jumps := butlast (jl_jumps l), jl_current := length (jl_jumps l) - 1\<rparr> else l)
      in if jl_jumps l = [] then (None, l)
         else let idx = int (jl_current l)
              in if idx + count < 0 \<or> idx + count \<ge> int (length (jl_jumps l)) then (None, l)
                 else let (idx, l) = (if jl_current l = length (jl_jumps l)
                            then let l = add_jump here l in (int (length (jl_jumps l)) - 1, l)
                            else (idx, l))
                      in if idx + count < 0 then (None, l)
                         else let current = nat (idx + count); l = l\<lparr>jl_current := current\<rparr>
                              in (if current < length (jl_jumps l) then Some (jl_jumps l ! current) else None, l))"

definition jump_back :: "(rstr \<Rightarrow> rstr \<Rightarrow> bool) \<Rightarrow> jump_entry \<Rightarrow> jump_list \<Rightarrow> jump_entry option \<times> jump_list" where
  "jump_back same_file here l = jump_step same_file (-1) here l"

definition jump_forward :: "(rstr \<Rightarrow> rstr \<Rightarrow> bool) \<Rightarrow> jump_entry \<Rightarrow> jump_list \<Rightarrow> jump_entry option \<times> jump_list" where
  "jump_forward same_file here l = jump_step same_file 1 here l"

section \<open>The tag stack\<close>

record tag_entry =
  te_file :: rstr
  te_line :: nat
  te_col :: nat
  te_context :: rstr

text \<open>The most recent entry is at the end.\<close>

record tag_stack =
  ts_stack :: "tag_entry list"
  ts_max_size :: nat

definition tag_stack_new :: tag_stack where
  "tag_stack_new = \<lparr>ts_stack = [], ts_max_size = 100\<rparr>"

definition tag_push :: "tag_entry \<Rightarrow> tag_stack \<Rightarrow> tag_stack" where
  "tag_push entry t =
     (let stack = ts_stack t @ [entry]
      in t\<lparr>ts_stack := drop (length stack - ts_max_size t) stack\<rparr>)"

definition tag_pop :: "tag_stack \<Rightarrow> tag_entry option \<times> tag_stack" where
  "tag_pop t = (if ts_stack t = [] then (None, t)
                else (Some (last (ts_stack t)), t\<lparr>ts_stack := butlast (ts_stack t)\<rparr>))"

definition tag_peek :: "tag_stack \<Rightarrow> tag_entry option" where
  "tag_peek t = (if ts_stack t = [] then None else Some (last (ts_stack t)))"

definition tag_clear :: "tag_stack \<Rightarrow> tag_stack" where
  "tag_clear t = t\<lparr>ts_stack := []\<rparr>"

section \<open>Marks as characters of a text\<close>

text \<open>
  The text as its lines, without their breaks: what a removal from \<open>s\<close> to \<open>e\<close> leaves, and what the
  insertion of the pieces of a text between line breaks gives.
\<close>

definition remove_text :: "rstr list \<Rightarrow> nat \<times> nat \<Rightarrow> nat \<times> nat \<Rightarrow> rstr list" where
  "remove_text lines s e =
     take (fst s) lines @ (take (snd s) (lines ! fst s) @ drop (snd e) (lines ! fst e)) # drop (Suc (fst e)) lines"

definition insert_pieces :: "rstr list \<Rightarrow> nat \<Rightarrow> nat \<Rightarrow> rstr list \<Rightarrow> rstr list" where
  "insert_pieces lines line col pieces =
     take line lines @ (take col (lines ! line) @ hd pieces) # butlast (tl pieces) @
     (last pieces @ drop col (lines ! line)) # drop (Suc line) lines"

definition on_char :: "rstr list \<Rightarrow> mark_pos \<Rightarrow> bool" where
  "on_char lines pos \<longleftrightarrow> mk_line pos < length lines \<and> mk_col pos < length (lines ! mk_line pos)"

definition char_of :: "rstr list \<Rightarrow> mark_pos \<Rightarrow> rchar" where
  "char_of lines pos = lines ! mk_line pos ! mk_col pos"

text \<open>The character a mark is on is not in the removed range.\<close>

definition survives :: "nat \<times> nat \<Rightarrow> nat \<times> nat \<Rightarrow> mark_pos \<Rightarrow> bool" where
  "survives s e pos \<longleftrightarrow>
     mk_line pos < fst s \<or> mk_line pos = fst s \<and> mk_col pos < snd s \<or>
     mk_line pos = fst e \<and> snd e \<le> mk_col pos \<or> fst e < mk_line pos"

lemma map_of_map_filter:
  assumes "distinct (map fst m)"
  shows "map_of (List.map_filter (\<lambda>(k, v). map_option (Pair k) (f k v)) m) k =
    Option.bind (map_of m k) (f k)"
  using assms
proof (induction m)
  case (Cons e m)
  obtain k' v where e: "e = (k', v)" by fastforce
  have "k' \<noteq> k \<or> map_of m k = None" using Cons.prems e by (auto simp: map_of_eq_None_iff)
  then show ?case using Cons e by (cases "f k' v") (auto simp: List.map_filter_simps)
qed (simp add: List.map_filter_simps)

lemma map_filter_keys:
  "sorted_wrt (<) (map fst m) \<Longrightarrow>
   sorted_wrt (<) (map fst (List.map_filter (\<lambda>(k, v). map_option (Pair k) (f k v)) m))"
proof (induction m)
  case (Cons e m)
  let ?r = "List.map_filter (\<lambda>(k, v). map_option (Pair k) (f k v)) m"
  obtain k v where e: "e = (k, v)" by fastforce
  have "k < x" if "x \<in> fst ` set ?r" for x
  proof -
    have "x \<in> fst ` set m" using that by (force simp: List.map_filter_def)
    then show ?thesis using Cons.prems e by auto
  qed
  then show ?case using Cons e by (cases "f k v") (auto simp: List.map_filter_simps)
qed (simp add: List.map_filter_simps)

lemma sorted_keys_distinct: "sorted_wrt (<) (map fst m) \<Longrightarrow> distinct (map fst (m :: (nat \<times> 'v) list))"
  by (metis strict_sorted_iff)

lemma length_remove_text:
  "fst s < fst e \<Longrightarrow> fst e < length lines \<Longrightarrow> length (remove_text lines s e) = length lines - (fst e - fst s)"
  by (simp add: remove_text_def)

lemma nth_remove_text:
  assumes "fst s < fst e" "fst e < length lines"
  shows "i < fst s \<Longrightarrow> remove_text lines s e ! i = lines ! i"
    and "remove_text lines s e ! fst s = take (snd s) (lines ! fst s) @ drop (snd e) (lines ! fst e)"
    and "fst e < i \<Longrightarrow> i < length lines \<Longrightarrow> remove_text lines s e ! (i - (fst e - fst s)) = lines ! i"
proof -
  show "i < fst s \<Longrightarrow> remove_text lines s e ! i = lines ! i"
    using assms by (simp add: remove_text_def nth_append)
  show "remove_text lines s e ! fst s = take (snd s) (lines ! fst s) @ drop (snd e) (lines ! fst e)"
    using assms by (simp add: remove_text_def nth_append)
  assume i: "fst e < i" "i < length lines"
  then have "i - (fst e - fst s) - fst s = Suc (i - Suc (fst e))" "\<not> i - (fst e - fst s) < fst s"
    using assms by auto
  then show "remove_text lines s e ! (i - (fst e - fst s)) = lines ! i"
    using assms i by (simp add: remove_text_def nth_append)
qed

lemma mark_after_removal_char:
  assumes se: "fst s < fst e" "fst e < length lines"
    and cols: "snd s \<le> length (lines ! fst s)" "snd e \<le> length (lines ! fst e)"
    and pos: "on_char lines pos" "survives s e pos"
  shows "\<exists>pos'. mark_after_removal s e (length (lines ! fst s)) (length (lines ! fst e)) name pos = Some pos' \<and>
    on_char (remove_text lines s e) pos' \<and> char_of (remove_text lines s e) pos' = char_of lines pos"
proof -
  note nth = nth_remove_text [OF se] and len = length_remove_text [OF se]
  let ?len = "length (lines ! fst s)" and ?elen = "length (lines ! fst e)"
  let ?after = "mark_after_removal s e ?len ?elen name pos"
  consider (before) "mk_line pos < fst s" | (left) "mk_line pos = fst s" "mk_col pos < snd s"
    | (right) "mk_line pos = fst e" "snd e \<le> mk_col pos" | (after) "fst e < mk_line pos"
    using pos(2) by (auto simp: survives_def)
  then show ?thesis
  proof cases
    case before
    then have "?after = Some pos"
      using se by (auto simp: mark_after_removal_def removed_lines_def Let_def)
    then show ?thesis using before pos(1) se by (auto simp: on_char_def char_of_def nth(1) len)
  next
    case left
    then have "?after = Some pos"
      using se by (auto simp: mark_after_removal_def removed_lines_def Let_def)
    then show ?thesis using left pos(1) se cols
      by (auto simp: on_char_def char_of_def nth(2) len nth_append)
  next
    case right
    have col: "mk_col pos < ?elen" using pos(1) right by (simp add: on_char_def)
    then have "snd e \<noteq> ?elen" using right by simp
    then have "?after = Some \<lparr>mk_line = fst s, mk_col = snd s + (mk_col pos - snd e)\<rparr>"
      using right se by (cases pos) (auto simp: mark_after_removal_def removed_lines_def Let_def)
    then show ?thesis using right se cols col
      by (auto simp: on_char_def char_of_def nth(2) len nth_append)
  next
    case after
    then have "?after = Some (pos\<lparr>mk_line := mk_line pos - (fst e - fst s)\<rparr>)"
      using se by (auto simp: mark_after_removal_def removed_lines_def Let_def)
    moreover have "remove_text lines s e ! (mk_line pos - (fst e - fst s)) = lines ! mk_line pos"
      using after pos(1) by (intro nth(3)) (simp_all add: on_char_def)
    ultimately show ?thesis
      using after pos(1) se by (auto simp: on_char_def char_of_def len simp del: diff_diff_right)
  qed
qed

lemma length_insert_pieces:
  "line < length lines \<Longrightarrow> 2 \<le> length pieces \<Longrightarrow>
   length (insert_pieces lines line col pieces) = length lines + (length pieces - 1)"
  by (simp add: insert_pieces_def)

lemma nth_insert_pieces:
  assumes "line < length lines" "2 \<le> length pieces"
  shows "i < line \<Longrightarrow> insert_pieces lines line col pieces ! i = lines ! i"
    and "insert_pieces lines line col pieces ! line = take col (lines ! line) @ hd pieces"
    and "insert_pieces lines line col pieces ! (line + (length pieces - 1)) = last pieces @ drop col (lines ! line)"
    and "line < i \<Longrightarrow> i < length lines \<Longrightarrow> insert_pieces lines line col pieces ! (i + (length pieces - 1)) = lines ! i"
proof -
  show "i < line \<Longrightarrow> insert_pieces lines line col pieces ! i = lines ! i"
    using assms by (simp add: insert_pieces_def nth_append)
  show "insert_pieces lines line col pieces ! line = take col (lines ! line) @ hd pieces"
    using assms by (simp add: insert_pieces_def nth_append)
  define k where "k = length pieces - 2"
  have k: "length pieces = Suc (Suc k)" using assms(2) by (simp add: k_def)
  show "insert_pieces lines line col pieces ! (line + (length pieces - 1)) = last pieces @ drop col (lines ! line)"
    using assms k by (simp add: insert_pieces_def nth_append)
  assume i: "line < i" "i < length lines"
  then obtain j where j: "i = Suc (line + j)" using less_iff_Suc_add by auto
  then show "insert_pieces lines line col pieces ! (i + (length pieces - 1)) = lines ! i"
    using assms k i by (simp add: insert_pieces_def nth_append)
qed

section \<open>The jump list\<close>

text \<open>What \<open>cleanup\<close> keeps: of the entries of one place, the last.\<close>

fun dedup_places :: "(rstr \<Rightarrow> rstr \<Rightarrow> bool) \<Rightarrow> jump_entry list \<Rightarrow> jump_entry list" where
  "dedup_places same_file [] = []"
| "dedup_places same_file (x # later) =
     (if list_ex (\<lambda>y. same_place same_file y x) later then dedup_places same_file later
      else x # dedup_places same_file later)"

lemma dedup_suffix: "\<exists>p. dedup_places sf xs = p @ dedup_places sf (drop k xs)"
proof (induction xs arbitrary: k)
  case (Cons x xs)
  show ?case
  proof (cases k)
    case (Suc j)
    obtain p where "dedup_places sf xs = p @ dedup_places sf (drop j xs)" using Cons by blast
    then show ?thesis using Suc by (auto intro: exI [of _ p] exI [of _ "x # p"])
  qed simp
qed simp

lemma cleanup_loop_eq:
  "cleanup_loop sf cur start xs kept nc =
   (kept @ dedup_places sf xs,
    if start \<le> cur \<and> cur < start + length xs
    then Some (length kept + length (dedup_places sf xs) - length (dedup_places sf (drop (cur - start) xs)))
    else nc)"
proof (induction xs arbitrary: start kept nc)
  case (Cons x later)
  have le: "length (dedup_places sf (drop (cur - Suc start) later)) \<le> length (dedup_places sf later)"
    using dedup_suffix [of sf later "cur - Suc start"] by (metis le_add2 length_append)
  consider "cur = start" | "start < cur" | "cur < start" by linarith
  then show ?case
  proof cases
    case 2
    then have "cur - start = Suc (cur - Suc start)" by simp
    with 2 le show ?thesis
      by (cases "list_ex (\<lambda>y. same_place sf y x) later") (simp_all add: Cons Let_def Suc_le_eq)
  next
    case 1
    show ?thesis unfolding 1 [symmetric]
      by (cases "list_ex (\<lambda>y. same_place sf y x) later") (simp_all add: Cons Let_def)
  next
    case 3
    then have "cur \<noteq> start" "\<not> start \<le> cur" "\<not> Suc start \<le> cur" by auto
    then show ?thesis
      by (cases "list_ex (\<lambda>y. same_place sf y x) later") (simp_all add: Cons Let_def)
  qed
qed auto

lemma jump_cleanup_eq:
  "jump_cleanup sf l = l\<lparr>jl_jumps := dedup_places sf (jl_jumps l),
     jl_current := length (dedup_places sf (jl_jumps l)) - length (dedup_places sf (drop (jl_current l) (jl_jumps l)))\<rparr>"
  by (simp add: jump_cleanup_def cleanup_loop_eq Let_def)

lemma dedup_length: "length (dedup_places sf xs) \<le> length xs"
  by (induction xs) auto

lemma dedup_ne: "dedup_places sf xs = [] \<longleftrightarrow> xs = []"
  by (induction xs) (auto split: if_splits)

lemma set_dedup: "set (dedup_places sf xs) \<subseteq> set xs"
  by (induction xs) auto

lemma dedup_distinct: "sorted_wrt (\<lambda>x y. \<not> same_place sf y x) (dedup_places sf xs)"
  using set_dedup by (induction xs) (auto simp: list_ex_iff)

lemma dedup_end: "\<not> same_place sf h e \<Longrightarrow> dedup_places sf (ys @ [e, h]) = dedup_places sf (ys @ [e, h]) \<and>
   dedup_places sf [e, h] = [e, h]"
  by simp

definition jump_ok :: "jump_list \<Rightarrow> bool" where
  "jump_ok l \<longleftrightarrow> jl_current l \<le> length (jl_jumps l) \<and> length (jl_jumps l) \<le> max (jl_max_size l) 1"

lemma add_jump_ok: "jump_ok l \<Longrightarrow> jump_ok (add_jump e l)"
  by (auto simp: jump_ok_def add_jump_def Let_def)

lemma cleanup_ok: "jump_ok l \<Longrightarrow> jump_ok (jump_cleanup sf l)"
  using dedup_length [of sf "jl_jumps l"] by (auto simp: jump_ok_def jump_cleanup_eq)

lemma add_jump_last: "jl_jumps (add_jump e l) \<noteq> [] \<and> last (jl_jumps (add_jump e l)) = e \<and>
  jl_current (add_jump e l) = length (jl_jumps (add_jump e l))"
proof (cases "jl_jumps l")
  case Nil
  then show ?thesis by (simp add: add_jump_def)
next
  case (Cons x xs)
  then show ?thesis by (simp add: add_jump_def Let_def)
qed

text \<open>A step prepares the list, then moves in it.\<close>

definition jump_prepared :: "(rstr \<Rightarrow> rstr \<Rightarrow> bool) \<Rightarrow> jump_entry \<Rightarrow> jump_list \<Rightarrow> jump_list" where
  "jump_prepared sf here l =
     (let c = jump_cleanup sf l
      in if jl_current c = length (jl_jumps c) \<and> jl_jumps c \<noteq> [] \<and> same_place sf (last (jl_jumps c)) here
         then c\<lparr>jl_jumps := butlast (jl_jumps c), jl_current := length (jl_jumps c) - 1\<rparr> else c)"

definition jump_move :: "int \<Rightarrow> jump_entry \<Rightarrow> jump_list \<Rightarrow> jump_entry option \<times> jump_list" where
  "jump_move count here l =
     (if jl_jumps l = [] then (None, l)
      else let idx = int (jl_current l)
           in if idx + count < 0 \<or> idx + count \<ge> int (length (jl_jumps l)) then (None, l)
              else let (idx, l) = (if jl_current l = length (jl_jumps l)
                         then let l = add_jump here l in (int (length (jl_jumps l)) - 1, l)
                         else (idx, l))
                   in if idx + count < 0 then (None, l)
                      else let current = nat (idx + count); l = l\<lparr>jl_current := current\<rparr>
                           in (if current < length (jl_jumps l) then Some (jl_jumps l ! current) else None, l))"

lemma jump_step_move: "jump_step sf count here l = jump_move count here (jump_prepared sf here l)"
  by (simp only: jump_step_def jump_move_def jump_prepared_def Let_def)

lemma prepared_ok: "jump_ok l \<Longrightarrow> jump_ok (jump_prepared sf here l)"
  using cleanup_ok [of l sf]
  by (auto simp: jump_ok_def jump_prepared_def Let_def intro: le_trans [OF diff_le_self])

lemma jump_move_ok:
  assumes ok: "jump_ok l"
  shows "jump_ok (snd (jump_move count here l))"
proof (cases "jl_jumps l = [] \<or> int (jl_current l) + count < 0 \<or> int (length (jl_jumps l)) \<le> int (jl_current l) + count")
  case True
  then show ?thesis using ok by (auto simp: jump_move_def Let_def)
next
  case False
  have upd: "jump_ok (q\<lparr>jl_current := nat (i + count)\<rparr>)"
    if "jump_ok q" "i + count < int (length (jl_jumps q))" for q i
    using that by (auto simp: jump_ok_def)
  show ?thesis
  proof (cases "jl_current l = length (jl_jumps l)")
    case True
    let ?a = "add_jump here l"
    have "jump_ok (?a\<lparr>jl_current := nat (int (length (jl_jumps ?a)) - 1 + count)\<rparr>)"
      using False True by (intro upd add_jump_ok ok) simp
    then show ?thesis
      using True False add_jump_ok [OF ok] by (simp add: jump_move_def Let_def)
  next
    case nav: False
    then show ?thesis
      using False upd [OF ok, of "int (jl_current l)"] by (simp add: jump_move_def Let_def)
  qed
qed

lemma jump_step_ok: "jump_ok l \<Longrightarrow> jump_ok (snd (jump_step sf count here l))"
  by (simp add: jump_step_move jump_move_ok prepared_ok)

text \<open>A step back from the end of the list, and what a step forward then sees.\<close>

lemma prepared_at_end:
  assumes "jl_current l = length (jl_jumps l)"
  shows "jl_current (jump_prepared sf here l) = length (jl_jumps (jump_prepared sf here l))"
  using assms by (simp add: jump_prepared_def jump_cleanup_eq Let_def)

lemma prepared_last:
  assumes "jl_current l = length (jl_jumps l)" and eq: "equivp sf"
    and "jl_jumps (jump_prepared sf here l) \<noteq> []"
  shows "\<not> same_place sf (last (jl_jumps (jump_prepared sf here l))) here"
proof -
  let ?d = "dedup_places sf (jl_jumps l)"
  have c: "jump_cleanup sf l = l\<lparr>jl_jumps := ?d, jl_current := length ?d\<rparr>"
    using assms(1) by (simp add: jump_cleanup_eq)
  have sym: "same_place sf x y \<Longrightarrow> same_place sf y x" for x y
    using equivp_symp [OF eq] by (auto simp: same_place_def split: option.splits)
  have trans: "same_place sf x y \<Longrightarrow> same_place sf y z \<Longrightarrow> same_place sf x z" for x y z
    using equivp_transp [OF eq] by (auto simp: same_place_def split: option.splits)
  show ?thesis
  proof (cases "?d \<noteq> [] \<and> same_place sf (last ?d) here")
    case True
    then have p: "jl_jumps (jump_prepared sf here l) = butlast ?d"
      by (simp add: jump_prepared_def c)
    then obtain ys y where ys: "butlast ?d = ys @ [y]"
      using assms(3) by (metis append_butlast_last_id)
    then have "?d = ys @ [y, last ?d]" using True by (metis append_butlast_last_id append.assoc append_Cons append_Nil)
    then have "\<not> same_place sf (last ?d) y"
      using dedup_distinct [of sf "jl_jumps l"] by (metis sorted_wrt_append sorted_wrt.simps(2) list.set_intros(1))
    then have "\<not> same_place sf y here" using True sym trans by blast
    then show ?thesis using p ys by simp
  next
    case False
    then have "jump_prepared sf here l = jump_cleanup sf l"
      by (auto simp: jump_prepared_def c)
    then show ?thesis using False assms(3) by (simp add: c)
  qed
qed

lemma dedup_end_drop:
  assumes "\<not> same_place sf h e"
  shows "\<exists>p. dedup_places sf (ys @ [e, h]) = p @ [e, h]"
  using dedup_suffix [of sf "ys @ [e, h]" "length ys"] assms by simp

lemma back_then_forward:
  assumes eq: "equivp sf" and navigating: "jl_current l = length (jl_jumps l)"
    and bk: "jump_back sf here l = (Some e, l')"
  shows "fst (jump_forward sf e' l') = Some here"
proof -
  let ?p = "jump_prepared sf here l" let ?a = "add_jump here ?p"
  have p: "jl_current ?p = length (jl_jumps ?p)" using prepared_at_end [OF navigating] .
  have move: "jump_move (-1) here ?p = (Some e, l')"
    using bk by (simp add: jump_back_def jump_step_move)
  have ne: "jl_jumps ?p \<noteq> []" using move by (auto simp: jump_move_def)
  note a = add_jump_last [of here ?p]
  have len: "2 \<le> length (jl_jumps ?a)"
    using move ne p by (auto simp: jump_move_def Let_def split: if_splits)
  have l': "l' = ?a\<lparr>jl_current := length (jl_jumps ?a) - 2\<rparr>" and e: "e = jl_jumps ?a ! (length (jl_jumps ?a) - 2)"
    using move ne p len by (auto simp: jump_move_def Let_def nat_diff_distrib' split: if_splits)
  obtain ys x where ys: "jl_jumps ?a = ys @ [x, here]"
  proof -
    have "jl_jumps ?a = butlast (jl_jumps ?a) @ [here]" using a by (metis append_butlast_last_id)
    moreover have "butlast (jl_jumps ?a) \<noteq> []" using len by (metis length_butlast list.size(3) Suc_1 Suc_le_eq zero_less_diff less_irrefl)
    ultimately show ?thesis using that by (metis append_butlast_last_id append.assoc append_Cons append_Nil)
  qed
  then have x: "x = e" using e by (simp add: nth_append)
  have "x = last (jl_jumps ?p)"
  proof -
    have "jl_jumps ?a = jl_jumps ?p @ [here] \<or> jl_jumps ?a = tl (jl_jumps ?p @ [here])"
      by (simp add: add_jump_def Let_def)
    then show ?thesis
    proof
      assume "jl_jumps ?a = jl_jumps ?p @ [here]"
      then show ?thesis using ys by (metis append.assoc append_Cons append_Nil append1_eq_conv last_snoc)
    next
      assume t: "jl_jumps ?a = tl (jl_jumps ?p @ [here])"
      then have "tl (jl_jumps ?p) @ [here] = ys @ [x] @ [here]" using ne ys by simp
      then have "tl (jl_jumps ?p) = ys @ [x]" by simp
      then show ?thesis using ne by (metis last_snoc last_tl snoc_eq_iff_butlast)
    qed
  qed
  then have "\<not> same_place sf e here" using prepared_last [OF navigating eq ne] x by simp
  then have diff: "\<not> same_place sf here e"
    using equivp_symp [OF eq] by (auto simp: same_place_def split: option.splits)
  obtain q where q: "dedup_places sf (ys @ [e, here]) = q @ [e, here]" using dedup_end_drop [OF diff] by blast
  have c: "jump_cleanup sf l' = l'\<lparr>jl_jumps := q @ [e, here], jl_current := length q\<rparr>"
    using ys x q diff by (simp add: jump_cleanup_eq l')
  then have "jump_prepared sf e' l' = jump_cleanup sf l'" by (simp add: jump_prepared_def)
  moreover have "nat (int (length q) + 1) = Suc (length q)" by simp
  ultimately show ?thesis
    by (simp add: jump_forward_def jump_step_move jump_move_def c nth_append Let_def)
qed

lemma tag_push_all:
  "length (ts_stack t) \<le> ts_max_size t \<Longrightarrow>
   ts_stack (foldl (\<lambda>t e. tag_push e t) t es) = drop (length (ts_stack t @ es) - ts_max_size t) (ts_stack t @ es) \<and>
   ts_max_size (foldl (\<lambda>t e. tag_push e t) t es) = ts_max_size t"
proof (induction es arbitrary: t)
  case (Cons e es)
  let ?t = "tag_push e t"
  let ?s = "ts_stack t @ [e]" and ?m = "ts_max_size t"
  have t: "ts_stack ?t = drop (length ?s - ?m) ?s" "ts_max_size ?t = ?m"
    by (simp_all only: tag_push_def Let_def) simp_all
  have "length (ts_stack ?t) \<le> ts_max_size ?t" unfolding t by simp
  note ih = Cons.IH [OF this]
  have "drop (length (ts_stack ?t @ es) - ?m) (ts_stack ?t @ es) = drop (length (?s @ es) - ?m) (?s @ es)"
  proof (cases "length ?s \<le> ?m")
    case True
    then show ?thesis unfolding t(1) by simp
  next
    case False
    then have "length ?s = Suc ?m" using Cons.prems by simp
    then show ?thesis unfolding t(1) by (cases ?s) simp_all
  qed
  then show ?case using ih t(2) by simp
qed simp

section \<open>Properties\<close>

text \<open>
  Marks follow the text that is left. After text over several lines is removed, every mark on a
  character that survives is on that same character, whether whole lines went or parts of two lines
  were joined; a mark strictly inside the removed lines is deleted unless it is a Visual mark; the
  marks stay in key order.
\<close>

theorem marks_follow_removal:
  assumes "fst s < fst e" "fst e < length lines" "snd s \<le> length (lines ! fst s)" "snd e \<le> length (lines ! fst e)"
    and "sorted_wrt (<) (map fst m)" and "marks_get name m = Some pos"
  defines "m' \<equiv> lines_removed s e (length (lines ! fst s)) (length (lines ! fst e)) m"
    and "lines' \<equiv> remove_text lines s e"
  shows "sorted_wrt (<) (map fst m') \<and>
    (on_char lines pos \<and> survives s e pos \<longrightarrow>
      (\<exists>pos'. marks_get name m' = Some pos' \<and> on_char lines' pos' \<and> char_of lines' pos' = char_of lines pos)) \<and>
    (fst s < mk_line pos \<and> mk_line pos < fst e \<and> \<not> is_visual_mark name \<longrightarrow> marks_get name m' = None)"
proof (intro conjI impI)
  have get: "marks_get name m' = mark_after_removal s e (length (lines ! fst s)) (length (lines ! fst e)) name pos"
    using assms(6) map_of_map_filter [OF sorted_keys_distinct [OF assms(5)],
        of "mark_after_removal s e (length (lines ! fst s)) (length (lines ! fst e))" name]
    by (simp add: m'_def marks_get_def lines_removed_def)
  show "sorted_wrt (<) (map fst m')"
    unfolding m'_def lines_removed_def using assms(5) by (rule map_filter_keys)
  show "\<exists>pos'. marks_get name m' = Some pos' \<and> on_char lines' pos' \<and> char_of lines' pos' = char_of lines pos"
    if "on_char lines pos \<and> survives s e pos"
    unfolding get lines'_def using that mark_after_removal_char [OF assms(1-4)] by blast
  show "marks_get name m' = None" if "fst s < mk_line pos \<and> mk_line pos < fst e \<and> \<not> is_visual_mark name"
    unfolding get using that by (auto simp: mark_after_removal_def removed_lines_def Let_def)
qed

theorem marks_follow_removal_witness:
  "marks_get 97 (lines_removed (0, 1) (2, 1) 2 3
     [(97, \<lparr>mk_line = 2, mk_col = 2\<rparr>), (98, \<lparr>mk_line = 1, mk_col = 0\<rparr>)]) \<noteq> None"
proof -
  let ?lines = "[rs ''ab'', rs ''x'', rs ''cde'']"
  let ?m = "[(97, \<lparr>mk_line = 2, mk_col = 2\<rparr>), (98, \<lparr>mk_line = 1, mk_col = 0\<rparr>)]"
  show ?thesis
    using marks_follow_removal [of "(0, 1)" "(2, 1)" ?lines ?m 97 "\<lparr>mk_line = 2, mk_col = 2\<rparr>"]
    by (auto simp: marks_get_def on_char_def survives_def numeral_2_eq_2 numeral_3_eq_3)
qed

text \<open>
  Inserting text with line breaks moves the marks with their lines: a mark on another line, or
  on the line itself when whole lines went in before it or the mark is left of the insertion,
  stays on the same character.
\<close>

theorem marks_follow_insertion:
  assumes "line < length lines" "col \<le> length (lines ! line)" "2 \<le> length pieces"
    and "whole = (col = 0 \<and> last pieces = [])" and "(name, pos) \<in> set m" "on_char lines pos"
    and "mk_line pos \<noteq> line \<or> whole \<or> mk_col pos < col"
  shows "\<exists>pos'. (name, pos') \<in> set (breaks_inserted line (length pieces - 1) whole m) \<and>
    on_char (insert_pieces lines line col pieces) pos' \<and>
    char_of (insert_pieces lines line col pieces) pos' = char_of lines pos"
proof -
  note nth = nth_insert_pieces [OF assms(1,3), where col = col] and len = length_insert_pieces [OF assms(1,3), where col = col]
  let ?pos = "if mk_line pos > line \<or> whole \<and> mk_line pos = line
    then pos\<lparr>mk_line := mk_line pos + (length pieces - 1)\<rparr> else pos"
  have "(name, ?pos) \<in> set (breaks_inserted line (length pieces - 1) whole m)"
    using assms(5) by (force simp: breaks_inserted_def)
  moreover have "on_char (insert_pieces lines line col pieces) ?pos \<and>
      char_of (insert_pieces lines line col pieces) ?pos = char_of lines pos"
  proof -
    consider "mk_line pos < line" | "mk_line pos = line" whole | "mk_line pos = line" "\<not> whole" "mk_col pos < col"
      | "line < mk_line pos" using assms(7) by linarith
    then show ?thesis
      by cases (use assms(1,2,4,6) nth len in \<open>auto simp: on_char_def char_of_def nth_append\<close>)
  qed
  ultimately show ?thesis by blast
qed

theorem marks_follow_insertion_witness:
  "\<exists>pos'. (97, pos') \<in> set (breaks_inserted 0 1 True [(97, \<lparr>mk_line = 0, mk_col = 1\<rparr>)]) \<and>
     char_of (insert_pieces [rs ''ab''] 0 0 [rs ''x'', []]) pos' = 98"
  using marks_follow_insertion [of 0 "[rs ''ab'']" 0 "[rs ''x'', []]" True 97 "\<lparr>mk_line = 0, mk_col = 1\<rparr>"
      "[(97, \<lparr>mk_line = 0, mk_col = 1\<rparr>)]"]
  by (auto simp: on_char_def char_of_def)

text \<open>
  C10. \<open>Ctrl-O\<close> then \<open>Ctrl-I\<close> returns: when the user is not navigating the jump list and a jump back
  from \<open>here\<close> succeeds, a jump forward afterwards, from wherever, leads to \<open>here\<close>, also when the list
  is full or an older entry names the same place.
\<close>

theorem jump_back_forward:
  assumes "equivp same_file" and "jl_current l = length (jl_jumps l)"
    and "jump_back same_file here l = (Some e, l')"
  shows "fst (jump_forward same_file e' l') = Some here"
  using assms by (rule back_then_forward)

theorem jump_back_forward_witness:
  "fst (jump_forward (=) \<lparr>je_file = None, je_line = 1, je_col = 0\<rparr> (snd (jump_back (=) \<lparr>je_file = None, je_line = 5, je_col = 0\<rparr>
     (add_jump \<lparr>je_file = None, je_line = 1, je_col = 0\<rparr> jump_list_new)))) =
   Some \<lparr>je_file = None, je_line = 5, je_col = 0\<rparr>"
proof -
  let ?here = "\<lparr>je_file = None, je_line = 5, je_col = 0\<rparr>" let ?e = "\<lparr>je_file = None, je_line = 1, je_col = 0\<rparr>"
  let ?l = "add_jump ?e jump_list_new"
  have "fst (jump_back (=) ?here ?l) = Some ?e"
    by (simp add: jump_back_def jump_step_def jump_cleanup_def add_jump_def jump_list_new_def same_place_def Let_def)
  then obtain l' where l': "jump_back (=) ?here ?l = (Some ?e, l')" by (metis prod.collapse)
  have "jl_current ?l = length (jl_jumps ?l)" by (simp add: add_jump_def jump_list_new_def)
  from jump_back_forward [OF identity_equivp this l'] show ?thesis unfolding l' snd_conv .
qed

inductive jump_reach :: "(rstr \<Rightarrow> rstr \<Rightarrow> bool) \<Rightarrow> jump_list \<Rightarrow> bool" for same_file :: "rstr \<Rightarrow> rstr \<Rightarrow> bool" where
  jr_new: "jump_reach same_file jump_list_new"
| jr_add: "jump_reach same_file l \<Longrightarrow> jump_reach same_file (add_jump e l)"
| jr_back: "jump_reach same_file l \<Longrightarrow> jump_reach same_file (snd (jump_back same_file here l))"
| jr_forward: "jump_reach same_file l \<Longrightarrow> jump_reach same_file (snd (jump_forward same_file here l))"

lemma max_size_kept: "jl_max_size (add_jump e l) = jl_max_size l" "jl_max_size (snd (jump_step sf c h l)) = jl_max_size l"
proof -
  show add: "jl_max_size (add_jump e l) = jl_max_size l" for e l by (simp add: add_jump_def Let_def)
  show "jl_max_size (snd (jump_step sf c h l)) = jl_max_size l"
    by (simp add: jump_step_move jump_move_def jump_prepared_def jump_cleanup_eq add Let_def)
qed

lemma jump_reach_ok: "jump_reach sf l \<Longrightarrow> jump_ok l \<and> jl_max_size l = 100"
proof (induction rule: jump_reach.induct)
  case jr_new
  then show ?case by (simp add: jump_ok_def jump_list_new_def)
next
  case (jr_add l e)
  then show ?case by (simp add: add_jump_ok max_size_kept)
next
  case (jr_back l here)
  then show ?case by (simp add: jump_back_def jump_step_ok max_size_kept)
next
  case (jr_forward l here)
  then show ?case by (simp add: jump_forward_def jump_step_ok max_size_kept)
qed

lemma jump_move_result: "jump_move count here l = (Some e, l') \<Longrightarrow> e \<in> set (jl_jumps l')"
  by (auto simp: jump_move_def Let_def split: if_splits)

text \<open>
  The jump list of every session stays within its bounds: at most 100 entries and a position of
  at most their number; what a step back or forward returns is an entry of the list; and the tag
  stack holds exactly the 100 latest of the pushed locations, the last of which a pop returns.
\<close>

theorem jump_list_bounds:
  assumes "jump_reach same_file l"
  shows "length (jl_jumps l) \<le> 100 \<and> jl_current l \<le> length (jl_jumps l) \<and>
    (\<forall>here e l'. jump_back same_file here l = (Some e, l') \<or> jump_forward same_file here l = (Some e, l') \<longrightarrow>
       e \<in> set (jl_jumps l')) \<and>
    ts_stack (foldl (\<lambda>t x. tag_push x t) tag_stack_new xs) = drop (length xs - 100) xs \<and>
    (xs \<noteq> [] \<longrightarrow> fst (tag_pop (foldl (\<lambda>t x. tag_push x t) tag_stack_new xs)) = Some (last xs))"
proof -
  have tags: "ts_stack (foldl (\<lambda>t x. tag_push x t) tag_stack_new xs) = drop (length xs - 100) xs"
    using tag_push_all [of tag_stack_new xs] by (simp add: tag_stack_new_def)
  moreover have "drop (length xs - 100) xs \<noteq> []" if "xs \<noteq> []" using that by (cases xs) auto
  ultimately have "xs \<noteq> [] \<longrightarrow> fst (tag_pop (foldl (\<lambda>t x. tag_push x t) tag_stack_new xs)) = Some (last xs)"
    by (auto simp: tag_pop_def last_drop)
  moreover have "e \<in> set (jl_jumps l')"
    if "jump_back same_file here l = (Some e, l') \<or> jump_forward same_file here l = (Some e, l')" for here e l'
    using that jump_move_result by (auto simp: jump_back_def jump_forward_def jump_step_move)
  ultimately show ?thesis
    using jump_reach_ok [OF assms] tags by (auto simp: jump_ok_def)
qed

theorem jump_list_bounds_witness:
  "length (jl_jumps (add_jump \<lparr>je_file = None, je_line = 1, je_col = 0\<rparr> jump_list_new)) \<le> 100"
  using jump_list_bounds [OF jr_add [OF jr_new]] by blast

end
