(* ===== verification/Folds.thy ===== *)
theory Folds
  imports Prelude "HOL-Library.Product_Lexorder"
begin

text \<open>
  Code folding (ovim-core/src/fold.rs): the folds of a buffer, the index of the outermost closed
  folds that answers the queries of the renderer and the cursor, the \<open>z\<close> commands, and the automatic
  folds from indentation. The folds of a syntax tree come from tree-sitter and are not modelled.

  \<open>NEXT_GENERATION\<close>, the static counter the generations are drawn from, is the field
  \<open>fm_next_generation\<close> of the manager's state: its value when an operation of this manager runs.
\<close>

section \<open>Folds\<close>

datatype fold_origin = Manual | Auto

datatype gutter_mark = Blank | OpenStart | ClosedStart | Inside

fun glyph :: "gutter_mark \<Rightarrow> rchar" where
  "glyph Blank = rc CHR '' ''"
| "glyph OpenStart = rc CHR ''-''"
| "glyph ClosedStart = rc CHR ''+''"
| "glyph Inside = rc CHR ''|''"

datatype fold_source = Indent | Syntax | Lsp

record buf_fold =
  bf_start :: nat
  bf_end :: nat
  bf_open :: bool
  bf_origin :: fold_origin

definition fold_new :: "nat \<Rightarrow> nat \<Rightarrow> buf_fold" where
  "fold_new s e = \<lparr>bf_start = s, bf_end = e, bf_open = False, bf_origin = Manual\<rparr>"

definition fold_auto :: "nat \<Rightarrow> nat \<Rightarrow> bool \<Rightarrow> buf_fold" where
  "fold_auto s e opened = \<lparr>bf_start = s, bf_end = e, bf_open = opened, bf_origin = Auto\<rparr>"

definition contains_line :: "buf_fold \<Rightarrow> nat \<Rightarrow> bool" where
  "contains_line f line \<longleftrightarrow> line \<ge> bf_start f \<and> line \<le> bf_end f"

definition fold_overlaps :: "buf_fold \<Rightarrow> buf_fold \<Rightarrow> bool" where
  "fold_overlaps f g \<longleftrightarrow> \<not> (bf_end f < bf_start g \<or> bf_start f > bf_end g)"

definition fold_encloses :: "buf_fold \<Rightarrow> buf_fold \<Rightarrow> bool" where
  "fold_encloses f g \<longleftrightarrow> bf_start f \<le> bf_start g \<and> bf_end g \<le> bf_end f"

definition bf_range :: "buf_fold \<Rightarrow> nat \<times> nat" where
  "bf_range f = (bf_start f, bf_end f)"

section \<open>The index of the closed folds\<close>

record closed_index =
  ci_outer :: "(nat \<times> nat) list"
  ci_hidden :: "(nat \<times> nat) list"
  ci_hidden_before :: "nat list"

text \<open>One step of the sweeps of \<open>build\<close>: extend the last range or push a new one.\<close>

definition sweep_step :: "nat \<Rightarrow> (nat \<times> nat) list \<Rightarrow> nat \<times> nat \<Rightarrow> (nat \<times> nat) list" where
  "sweep_step gap acc r =
     (if acc \<noteq> [] \<and> fst r \<le> snd (last acc) + gap
      then butlast acc @ [(fst (last acc), max (snd (last acc)) (snd r))]
      else acc @ [r])"

fun hidden_totals :: "nat \<Rightarrow> (nat \<times> nat) list \<Rightarrow> nat list" where
  "hidden_totals n [] = []"
| "hidden_totals n ((s, e) # h) = n # hidden_totals (n + (e - s + 1)) h"

definition outer_ranges :: "buf_fold list \<Rightarrow> (nat \<times> nat) list" where
  "outer_ranges folds = foldl (sweep_step 0) [] (map bf_range (filter (\<lambda>f. \<not> bf_open f) folds))"

definition merge_hidden :: "(nat \<times> nat) list \<Rightarrow> (nat \<times> nat) list" where
  "merge_hidden outer = foldl (sweep_step 1) [] (map (\<lambda>(s, e). (s + 1, e)) outer)"

definition closed_index_build :: "buf_fold list \<Rightarrow> closed_index" where
  "closed_index_build folds =
     (let outer = outer_ranges folds; hidden = merge_hidden outer
      in \<lparr>ci_outer = outer, ci_hidden = hidden, ci_hidden_before = hidden_totals 0 hidden\<rparr>)"

section \<open>The fold manager\<close>

record fold_manager =
  fm_folds :: "buf_fold list"
  fm_enabled :: bool
  fm_synced_line_count :: nat
  fm_auto_version :: "nat option"
  fm_active :: bool
  fm_source :: fold_source
  fm_foldlevel :: "nat option"
  fm_generation :: nat
  fm_closed :: "closed_index option"
  fm_next_generation :: nat

definition fold_manager_new :: "nat \<Rightarrow> fold_manager" where
  "fold_manager_new g =
     \<lparr>fm_folds = [], fm_enabled = True, fm_synced_line_count = 0, fm_auto_version = None,
      fm_active = False, fm_source = Indent, fm_foldlevel = None, fm_generation = g,
      fm_closed = None, fm_next_generation = g + 1\<rparr>"

definition touch :: "fold_manager \<Rightarrow> fold_manager" where
  "touch m = m\<lparr>fm_generation := fm_next_generation m,
               fm_next_generation := fm_next_generation m + 1, fm_closed := None\<rparr>"

definition the_closed_index :: "fold_manager \<Rightarrow> closed_index" where
  "the_closed_index m =
     (case fm_closed m of Some c \<Rightarrow> c | None \<Rightarrow> closed_index_build (fm_folds m))"

text \<open>\<open>get_or_init\<close> stores the index a query computed.\<close>

definition fill_index :: "fold_manager \<Rightarrow> fold_manager" where
  "fill_index m = m\<lparr>fm_closed := Some (the_closed_index m)\<rparr>"

definition fold_key :: "buf_fold \<Rightarrow> nat \<times> int" where
  "fold_key f = (bf_start f, - int (bf_end f))"

definition sort_folds :: "fold_manager \<Rightarrow> fold_manager" where
  "sort_folds m = m\<lparr>fm_folds := sort_key fold_key (fm_folds m)\<rparr>"

definition insert_fold :: "buf_fold \<Rightarrow> fold_manager \<Rightarrow> fold_manager" where
  "insert_fold f m = sort_folds (m\<lparr>fm_folds := fm_folds m @ [f]\<rparr>)"

definition chain :: "buf_fold list \<Rightarrow> nat \<Rightarrow> nat list" where
  "chain folds line = filter (\<lambda>i. contains_line (folds ! i) line) [0..<length folds]"

definition create_fold :: "nat \<Rightarrow> nat \<Rightarrow> fold_manager \<Rightarrow> fold_manager" where
  "create_fold s e m =
     (if s \<ge> e then m
      else let f = fold_new s e;
               kept = filter (\<lambda>g. \<not> (bf_start g = s \<and> bf_end g = e)) (fm_folds m);
               kept = filter (\<lambda>g. \<not> fold_overlaps g f \<or> fold_encloses g f \<or> fold_encloses f g) kept
           in touch (insert_fold f (m\<lparr>fm_folds := kept\<rparr>)))"

definition set_enabled :: "bool \<Rightarrow> fold_manager \<Rightarrow> fold_manager" where
  "set_enabled enabled m = (if fm_enabled m \<noteq> enabled then touch (m\<lparr>fm_enabled := enabled\<rparr>) else m)"

section \<open>Queries\<close>

definition closed_fold_at :: "fold_manager \<Rightarrow> nat \<Rightarrow> (nat \<times> nat) option" where
  "closed_fold_at m line =
     (if \<not> fm_enabled m then None
      else let before = takeWhile (\<lambda>(s, _). s \<le> line) (ci_outer (the_closed_index m))
           in if before \<noteq> [] \<and> line \<le> snd (last before) then Some (last before) else None)"

definition closed_fold_headers :: "fold_manager \<Rightarrow> (nat \<times> nat) list" where
  "closed_fold_headers m =
     map (\<lambda>(s, e). (s, e - s)) (if fm_enabled m then ci_outer (the_closed_index m) else [])"

definition is_line_hidden :: "fold_manager \<Rightarrow> nat \<Rightarrow> bool" where
  "is_line_hidden m line = (case closed_fold_at m line of Some (s, _) \<Rightarrow> line > s | None \<Rightarrow> False)"

definition has_closed_fold_at :: "fold_manager \<Rightarrow> nat \<Rightarrow> bool" where
  "has_closed_fold_at m line \<longleftrightarrow>
     fm_enabled m \<and> list_ex (\<lambda>f. bf_start f = line \<and> \<not> bf_open f) (fm_folds m)"

definition fold_at :: "fold_manager \<Rightarrow> nat \<Rightarrow> buf_fold option" where
  "fold_at m line = List.find (\<lambda>f. bf_start f = line) (fm_folds m)"

definition folded_line_count_at :: "fold_manager \<Rightarrow> nat \<Rightarrow> nat option" where
  "folded_line_count_at m line =
     (case closed_fold_at m line of
        Some (s, e) \<Rightarrow> if s = line then Some (e - s) else None
      | None \<Rightarrow> None)"

fun gutter_marks :: "buf_fold list \<Rightarrow> nat \<Rightarrow> nat list \<Rightarrow> gutter_mark list" where
  "gutter_marks folds line [] = []"
| "gutter_marks folds line (i # is) =
     (if \<not> bf_open (folds ! i) then [ClosedStart]
      else (if bf_start (folds ! i) = line then OpenStart else Inside) # gutter_marks folds line is)"

definition gutter_chain :: "fold_manager \<Rightarrow> nat \<Rightarrow> gutter_mark list" where
  "gutter_chain m line =
     (if \<not> fm_enabled m then [] else gutter_marks (fm_folds m) line (chain (fm_folds m) line))"

definition hidden_ranges :: "fold_manager \<Rightarrow> (nat \<times> nat) list" where
  "hidden_ranges m = (if \<not> fm_enabled m then [] else ci_hidden (the_closed_index m))"

definition hidden_count_before :: "fold_manager \<Rightarrow> nat \<Rightarrow> nat" where
  "hidden_count_before m line =
     (if \<not> fm_enabled m then 0
      else let ix = the_closed_index m;
               before = length (takeWhile (\<lambda>(s, _). s < line) (ci_hidden ix))
           in if before = 0 then 0
              else let (s, e) = ci_hidden ix ! (before - 1)
                   in ci_hidden_before ix ! (before - 1) + min e (line - 1) - s + 1)"

definition visible_index :: "fold_manager \<Rightarrow> nat \<Rightarrow> nat" where
  "visible_index m line = line - min (hidden_count_before m line) line"

function shift_search :: "(nat \<times> nat) list \<Rightarrow> nat list \<Rightarrow> nat \<Rightarrow> nat \<Rightarrow> nat \<Rightarrow> nat" where
  "shift_search hidden before index low high =
     (if low < high
      then let mid = (low + high) div 2
           in if fst (hidden ! mid) - before ! mid \<le> index
              then shift_search hidden before index (mid + 1) high
              else shift_search hidden before index low mid
      else low)"
  by pat_completeness auto
termination
  by (relation "measure (\<lambda>(_, _, _, low, high). high - low)") (auto simp: less_diff_conv2)

declare shift_search.simps [simp del]

definition line_at_visible_index :: "fold_manager \<Rightarrow> nat \<Rightarrow> nat" where
  "line_at_visible_index m index =
     (if \<not> fm_enabled m then index
      else let ix = the_closed_index m; hidden = ci_hidden ix; before = ci_hidden_before ix;
               low = shift_search hidden before index 0 (length hidden)
           in if low = 0 then index
              else let (s, e) = hidden ! (low - 1)
                   in index + before ! (low - 1) + (e - s + 1))"

text \<open>The loop of \<open>next_visible_line\<close>; \<open>None\<close> outside: no result within the fuel.\<close>

fun next_visible_loop :: "nat \<Rightarrow> fold_manager \<Rightarrow> nat \<Rightarrow> nat \<Rightarrow> nat option option" where
  "next_visible_loop 0 m candidate line_count = None"
| "next_visible_loop (Suc fuel) m candidate line_count =
     (if candidate < line_count
      then case closed_fold_at m candidate of
             Some (s, e) \<Rightarrow>
               if candidate > s then next_visible_loop fuel m (e + 1) line_count
               else Some (Some candidate)
           | None \<Rightarrow> Some (Some candidate)
      else Some None)"

definition next_visible_line :: "fold_manager \<Rightarrow> nat \<Rightarrow> nat \<Rightarrow> nat option option" where
  "next_visible_line m line line_count = next_visible_loop (line_count + 1) m line line_count"

fun step_down :: "fold_manager \<Rightarrow> nat \<Rightarrow> nat \<Rightarrow> nat \<Rightarrow> nat" where
  "step_down m line 0 max_line = line"
| "step_down m line (Suc count) max_line =
     (let after = (case closed_fold_at m line of Some (_, e) \<Rightarrow> e + 1 | None \<Rightarrow> line + 1)
      in if after > max_line then line else step_down m after count max_line)"

fun step_up :: "fold_manager \<Rightarrow> nat \<Rightarrow> nat \<Rightarrow> nat" where
  "step_up m line 0 = line"
| "step_up m line (Suc count) =
     (if line = 0 then line
      else step_up m (case closed_fold_at m (line - 1) of Some (s, _) \<Rightarrow> s | None \<Rightarrow> line - 1) count)"

section \<open>Opening and closing\<close>

definition with_open :: "nat \<Rightarrow> bool \<Rightarrow> buf_fold list \<Rightarrow> buf_fold list" where
  "with_open i opened folds = folds[i := (folds ! i)\<lparr>bf_open := opened\<rparr>]"

definition open_one :: "nat \<Rightarrow> fold_manager \<Rightarrow> bool \<times> fold_manager" where
  "open_one line m =
     (case List.find (\<lambda>i. \<not> bf_open (fm_folds m ! i)) (chain (fm_folds m) line) of
        Some i \<Rightarrow> (True, touch (m\<lparr>fm_folds := with_open i True (fm_folds m)\<rparr>))
      | None \<Rightarrow> (False, m))"

fun close_target :: "buf_fold list \<Rightarrow> nat option \<Rightarrow> nat list \<Rightarrow> nat option" where
  "close_target folds target [] = target"
| "close_target folds target (i # is) =
     (if \<not> bf_open (folds ! i) then target else close_target folds (Some i) is)"

definition close_one :: "nat \<Rightarrow> fold_manager \<Rightarrow> bool \<times> fold_manager" where
  "close_one line m =
     (case close_target (fm_folds m) None (chain (fm_folds m) line) of
        Some i \<Rightarrow> (True, touch (m\<lparr>fm_folds := with_open i False (fm_folds m)\<rparr>))
      | None \<Rightarrow> (False, m))"

definition toggle_one :: "nat \<Rightarrow> fold_manager \<Rightarrow> bool \<times> fold_manager" where
  "toggle_one line m = (if closed_fold_at m line \<noteq> None then open_one line m else close_one line m)"

text \<open>The loop of \<open>open_recursive\<close> (\<open>opened\<close> true) and \<open>close_recursive\<close> (false).\<close>

fun switch_all :: "bool \<Rightarrow> nat list \<Rightarrow> bool \<times> buf_fold list \<Rightarrow> bool \<times> buf_fold list" where
  "switch_all opened [] s = s"
| "switch_all opened (i # is) (changed, folds) =
     switch_all opened is
       (if bf_open (folds ! i) \<noteq> opened then (True, with_open i opened folds) else (changed, folds))"

definition switch_recursive :: "bool \<Rightarrow> nat \<Rightarrow> fold_manager \<Rightarrow> bool \<times> fold_manager" where
  "switch_recursive opened line m =
     (let (changed, folds) = switch_all opened (chain (fm_folds m) line) (False, fm_folds m);
          m = m\<lparr>fm_folds := folds\<rparr>
      in (changed, if changed then touch m else m))"

definition open_recursive :: "nat \<Rightarrow> fold_manager \<Rightarrow> bool \<times> fold_manager" where
  "open_recursive = switch_recursive True"

definition close_recursive :: "nat \<Rightarrow> fold_manager \<Rightarrow> bool \<times> fold_manager" where
  "close_recursive = switch_recursive False"

definition toggle_recursive :: "nat \<Rightarrow> fold_manager \<Rightarrow> bool \<times> fold_manager" where
  "toggle_recursive line m =
     (if closed_fold_at m line \<noteq> None then open_recursive line m else close_recursive line m)"

definition closed_count :: "buf_fold list \<Rightarrow> nat" where
  "closed_count folds = length (filter (\<lambda>f. \<not> bf_open f) folds)"

lemma find_Some_in:
  "List.find P xs = Some x \<Longrightarrow> x \<in> set xs \<and> P x"
  by (auto simp: find_Some_iff)

lemma closed_count_with_open:
  assumes "i < length folds" "\<not> bf_open (folds ! i)"
  shows "closed_count (with_open i True folds) < closed_count folds"
proof -
  have 1: "closed_count (take i folds @ folds ! i # drop (Suc i) folds) = closed_count folds"
    using id_take_nth_drop [OF assms(1)] by simp
  have 2: "with_open i True folds =
      take i folds @ (folds ! i)\<lparr>bf_open := True\<rparr> # drop (Suc i) folds"
    using assms(1) by (simp add: with_open_def upd_conv_take_nth_drop)
  show ?thesis
    using assms(2) by (subst 1 [symmetric]) (simp add: 2 closed_count_def)
qed

lemma open_one_decreases:
  assumes "fst (open_one line m)"
  shows "closed_count (fm_folds (snd (open_one line m))) < closed_count (fm_folds m)"
proof -
  obtain i where i: "List.find (\<lambda>i. \<not> bf_open (fm_folds m ! i)) (chain (fm_folds m) line) = Some i"
    using assms by (auto simp: open_one_def split: option.splits)
  have "fm_folds (snd (open_one line m)) = with_open i True (fm_folds m)"
    by (simp add: open_one_def i touch_def)
  then show ?thesis
    using find_Some_in [OF i] by (simp add: chain_def closed_count_with_open)
qed

function reveal_loop :: "nat \<Rightarrow> bool \<Rightarrow> fold_manager \<Rightarrow> bool \<times> fold_manager" where
  "reveal_loop line changed m =
     (if is_line_hidden m line \<or> closed_fold_at m line \<noteq> None
      then if \<not> fst (open_one line m) then (changed, snd (open_one line m))
           else reveal_loop line True (snd (open_one line m))
      else (changed, m))"
  by pat_completeness auto
termination
  by (relation "measure (\<lambda>(_, _, m). closed_count (fm_folds m))")
    (auto intro: open_one_decreases)

declare reveal_loop.simps [simp del]

definition reveal :: "nat \<Rightarrow> fold_manager \<Rightarrow> bool \<times> fold_manager" where
  "reveal line m = reveal_loop line False m"

section \<open>Nesting and \<open>foldlevel\<close>\<close>

text \<open>The stack \<open>ends\<close> is listed from its top.\<close>

fun nesting_loop :: "nat list \<Rightarrow> buf_fold list \<Rightarrow> nat list" where
  "nesting_loop ends [] = []"
| "nesting_loop ends (f # fs) =
     (let ends = bf_end f # dropWhile (\<lambda>e. e < bf_start f) ends
      in length ends # nesting_loop ends fs)"

definition nesting_levels :: "fold_manager \<Rightarrow> nat list" where
  "nesting_levels m = nesting_loop [] (fm_folds m)"

definition deepest_nesting :: "fold_manager \<Rightarrow> nat" where
  "deepest_nesting m = foldl max 0 (nesting_levels m)"

definition foldlevel :: "fold_manager \<Rightarrow> nat" where
  "foldlevel m = (case fm_foldlevel m of Some l \<Rightarrow> l | None \<Rightarrow> deepest_nesting m)"

definition apply_foldlevel :: "fold_manager \<Rightarrow> fold_manager" where
  "apply_foldlevel m =
     (let level = foldlevel m; pairs = zip (fm_folds m) (nesting_levels m);
          changed = list_ex (\<lambda>(f, depth). bf_open f \<noteq> (depth \<le> level)) pairs;
          m = m\<lparr>fm_folds := map (\<lambda>(f, depth). f\<lparr>bf_open := (depth \<le> level)\<rparr>) pairs\<rparr>
      in if changed then touch m else m)"

definition open_all :: "fold_manager \<Rightarrow> fold_manager" where
  "open_all m = apply_foldlevel (m\<lparr>fm_foldlevel := Some (deepest_nesting m)\<rparr>)"

definition close_all :: "fold_manager \<Rightarrow> fold_manager" where
  "close_all m = apply_foldlevel (m\<lparr>fm_foldlevel := Some 0\<rparr>)"

definition reduce_folding :: "nat \<Rightarrow> fold_manager \<Rightarrow> fold_manager" where
  "reduce_folding count m =
     apply_foldlevel (m\<lparr>fm_foldlevel := Some (min (foldlevel m + count) (deepest_nesting m))\<rparr>)"

definition fold_more :: "nat \<Rightarrow> fold_manager \<Rightarrow> fold_manager" where
  "fold_more count m =
     apply_foldlevel
       (if foldlevel m > 0 then m\<lparr>fm_foldlevel := Some (foldlevel m - count)\<rparr> else m)"

section \<open>Deleting\<close>

definition delete_fold_at :: "nat \<Rightarrow> fold_manager \<Rightarrow> fold_manager" where
  "delete_fold_at line m =
     (let c = chain (fm_folds m) line
      in if c = [] then m
         else let i = last c
              in touch (m\<lparr>fm_folds := take i (fm_folds m) @ drop (Suc i) (fm_folds m)\<rparr>))"

definition delete_recursive :: "nat \<Rightarrow> fold_manager \<Rightarrow> fold_manager" where
  "delete_recursive line m =
     (case chain (fm_folds m) line of
        [] \<Rightarrow> m
      | i # _ \<Rightarrow>
          let outer = fm_folds m ! i
          in touch (m\<lparr>fm_folds := filter (\<lambda>f. \<not> fold_encloses outer f) (fm_folds m)\<rparr>))"

definition delete_all_folds :: "fold_manager \<Rightarrow> fold_manager" where
  "delete_all_folds m = touch (m\<lparr>fm_folds := [], fm_auto_version := None\<rparr>)"

section \<open>Motions\<close>

definition min_of :: "nat list \<Rightarrow> nat option" where
  "min_of xs = (case xs of [] \<Rightarrow> None | x # ys \<Rightarrow> Some (foldl min x ys))"

definition max_of :: "nat list \<Rightarrow> nat option" where
  "max_of xs = (case xs of [] \<Rightarrow> None | x # ys \<Rightarrow> Some (foldl max x ys))"

definition next_fold_start :: "fold_manager \<Rightarrow> nat \<Rightarrow> nat option" where
  "next_fold_start m line = min_of (filter (\<lambda>s. s > line) (map bf_start (fm_folds m)))"

definition previous_fold_end :: "fold_manager \<Rightarrow> nat \<Rightarrow> nat option" where
  "previous_fold_end m line = max_of (filter (\<lambda>e. e < line) (map bf_end (fm_folds m)))"

definition fold_edge_target :: "fold_manager \<Rightarrow> nat \<Rightarrow> bool \<Rightarrow> nat option" where
  "fold_edge_target m line to_end =
     (let open_chain = takeWhile bf_open (map ((!) (fm_folds m)) (chain (fm_folds m) line));
          hit = (\<lambda>f. if to_end then bf_end f > line else bf_start f < line)
      in map_option (\<lambda>f. if to_end then bf_end f else bf_start f) (List.find hit (rev open_chain)))"

section \<open>Automatic folds\<close>

definition keep_first :: "nat \<Rightarrow> bool \<Rightarrow> (nat \<rightharpoonup> bool) \<Rightarrow> (nat \<rightharpoonup> bool)" where
  "keep_first k v m = (case m k of Some _ \<Rightarrow> m | None \<Rightarrow> m(k \<mapsto> v))"

definition open_by_range :: "buf_fold list \<Rightarrow> (nat \<times> nat \<rightharpoonup> bool)" where
  "open_by_range auto = foldl (\<lambda>m f. m(bf_range f \<mapsto> bf_open f)) Map.empty auto"

definition open_by_start :: "buf_fold list \<Rightarrow> (nat \<rightharpoonup> bool)" where
  "open_by_start auto = foldl (\<lambda>m f. keep_first (bf_start f) (bf_open f) m) Map.empty auto"

text \<open>\<open>Vec::dedup\<close>: of equal neighbours the first stays.\<close>

fun dedup :: "'a list \<Rightarrow> 'a list" where
  "dedup (x # y # xs) = (if x = y then dedup (x # xs) else x # dedup (y # xs))"
| "dedup xs = xs"

definition incoming_ranges :: "(nat \<times> nat) list \<Rightarrow> nat \<Rightarrow> (nat \<times> nat) list" where
  "incoming_ranges ranges line_count =
     dedup (sort_key (\<lambda>(s, e). (s, - int e))
       (filter (\<lambda>(s, e). s < e \<and> e < line_count) ranges))"

definition crosses_manual :: "buf_fold list \<Rightarrow> buf_fold \<Rightarrow> bool" where
  "crosses_manual manual f \<longleftrightarrow>
     list_ex (\<lambda>g. fold_overlaps g f \<and> \<not> fold_encloses g f \<and> \<not> fold_encloses f g) manual"

text \<open>
  The loop over the candidates: the accepted folds, and the header lines of those nobody has opened
  or closed. \<open>ends\<close> is the stack \<open>enclosing_ends\<close>, listed from its top.
\<close>

fun accept_ranges ::
  "buf_fold list \<Rightarrow> (nat \<times> nat \<Rightarrow> bool option) \<Rightarrow> nat list \<Rightarrow> (nat \<times> nat) list \<Rightarrow>
    buf_fold list \<times> nat list" where
  "accept_ranges manual previous ends [] = ([], [])"
| "accept_ranges manual previous ends ((s, e) # rest) =
     (let ends = dropWhile (\<lambda>t. t < s) ends
      in if (ends \<noteq> [] \<and> hd ends < e) \<or> crosses_manual manual (fold_auto s e True)
         then accept_ranges manual previous ends rest
         else let opened = previous (s, e);
                  (accepted, fresh) = accept_ranges manual previous (e # ends) rest
              in (fold_auto s e (case opened of Some b \<Rightarrow> b | None \<Rightarrow> True) # accepted,
                  if opened = None then s # fresh else fresh))"

definition previous_state :: "buf_fold list \<Rightarrow> nat \<times> nat \<Rightarrow> bool option" where
  "previous_state auto r =
     (case open_by_range auto r of Some b \<Rightarrow> Some b | None \<Rightarrow> open_by_start auto (fst r))"

text \<open>A fold nobody has opened or closed follows \<open>foldlevel\<close>.\<close>

definition level_fresh :: "nat list \<Rightarrow> fold_manager \<Rightarrow> fold_manager" where
  "level_fresh fresh m =
     (if fm_foldlevel m = None then m
      else let level = foldlevel m
           in m\<lparr>fm_folds := map (\<lambda>(f, depth).
                 if bf_origin f = Auto \<and> bf_start f \<in> set fresh
                 then f\<lparr>bf_open := (depth \<le> level)\<rparr> else f) (zip (fm_folds m) (nesting_levels m))\<rparr>)"

definition set_auto_folds_from ::
  "(nat \<times> nat) list \<Rightarrow> nat \<Rightarrow> nat \<Rightarrow> fold_source \<Rightarrow> fold_manager \<Rightarrow> fold_manager" where
  "set_auto_folds_from ranges line_count version source m =
     (let before = fm_folds m;
          manual = filter (\<lambda>f. bf_origin f = Manual) before;
          auto = filter (\<lambda>f. bf_origin f \<noteq> Manual) before;
          (accepted, fresh) =
            accept_ranges manual (previous_state auto) [] (incoming_ranges ranges line_count);
          m = level_fresh fresh
                (sort_folds (m\<lparr>fm_source := source, fm_folds := manual @ accepted\<rparr>));
          m = m\<lparr>fm_synced_line_count := line_count, fm_auto_version := Some version\<rparr>
      in if fm_folds m \<noteq> before then touch m else m)"

definition set_auto_folds ::
  "(nat \<times> nat) list \<Rightarrow> nat \<Rightarrow> nat \<Rightarrow> bool \<Rightarrow> fold_manager \<Rightarrow> fold_manager" where
  "set_auto_folds ranges line_count version from_lsp m =
     set_auto_folds_from ranges line_count version (if from_lsp then Lsp else Indent) m"

section \<open>Following a change of the line count\<close>

definition shift_line :: "nat \<Rightarrow> nat \<Rightarrow> nat \<Rightarrow> nat" where
  "shift_line old new line = nat (max (int line + (int new - int old)) 0)"

definition shift_fold :: "nat \<Rightarrow> nat \<Rightarrow> nat \<Rightarrow> buf_fold \<Rightarrow> buf_fold" where
  "shift_fold old new pivot f =
     (if bf_start f > pivot
      then f\<lparr>bf_start := shift_line old new (bf_start f), bf_end := shift_line old new (bf_end f)\<rparr>
      else if bf_end f \<ge> pivot
      then f\<lparr>bf_end := max (shift_line old new (bf_end f)) (bf_start f)\<rparr>
      else f)"

definition adjust_for_line_count :: "nat \<Rightarrow> nat \<Rightarrow> fold_manager \<Rightarrow> fold_manager" where
  "adjust_for_line_count new pivot m =
     (let old = fm_synced_line_count m; m = m\<lparr>fm_synced_line_count := new\<rparr>
      in if old = 0 \<or> old = new \<or> fm_folds m = [] then m
         else let folds = map (shift_fold old new pivot) (fm_folds m);
                  folds = map (\<lambda>f. f\<lparr>bf_end := min (bf_end f) (new - 1)\<rparr>) folds;
                  folds = filter (\<lambda>f. bf_start f < bf_end f) folds
              in touch (sort_folds (m\<lparr>fm_folds := folds\<rparr>)))"

section \<open>Folds from indentation\<close>

text \<open>
  The width of a line's indentation; \<open>None\<close> is the panic of \<open>% 0\<close> on a tab when \<open>tab_width\<close> is 0.
\<close>

fun indent_width :: "nat \<Rightarrow> nat \<Rightarrow> rstr \<Rightarrow> nat option" where
  "indent_width tab width [] = Some width"
| "indent_width tab width (c # cs) =
     (if c = 32 then indent_width tab (width + 1) cs
      else if c = 9
      then (if tab = 0 then None else indent_width tab (width + (tab - width mod tab)) cs)
      else Some width)"

definition line_indent :: "nat \<Rightarrow> rstr \<Rightarrow> nat option option" where
  "line_indent tab line =
     (if list_all is_whitespace line then Some None
      else map_option Some (indent_width tab 0 line))"

text \<open>The inner loop: the last line below \<open>line\<close> that is indented deeper than the header.\<close>

fun indent_end :: "nat \<Rightarrow> nat \<Rightarrow> nat option \<Rightarrow> nat option list \<Rightarrow> nat option" where
  "indent_end header line acc [] = acc"
| "indent_end header line acc (None # rest) = indent_end header (line + 1) acc rest"
| "indent_end header line acc (Some width # rest) =
     (if width > header then indent_end header (line + 1) (Some line) rest else acc)"

fun indent_ranges :: "nat \<Rightarrow> nat option list \<Rightarrow> (nat \<times> nat) list" where
  "indent_ranges line [] = []"
| "indent_ranges line (None # rest) = indent_ranges (line + 1) rest"
| "indent_ranges line (Some header # rest) =
     (case indent_end header (line + 1) None rest of
        Some e \<Rightarrow> (line, e) # indent_ranges (line + 1) rest
      | None \<Rightarrow> indent_ranges (line + 1) rest)"

definition indent_fold_ranges :: "rstr list \<Rightarrow> nat \<Rightarrow> (nat \<times> nat) list option" where
  "indent_fold_ranges lines tab = map_option (indent_ranges 0) (those (map (line_indent tab) lines))"

end
