(* ===== verification/FoldLaws.thy ===== *)
theory FoldLaws
  imports Folds
begin

text \<open>
  What the folds promise: the index answers as the folds themselves would, visible lines and buffer
  lines correspond, the cursor walks over closed folds, \<open>zv\<close> ends with its line visible, and every
  operation keeps the folds ordered and the index up to date.
\<close>

section \<open>Separated ranges\<close>

definition covers :: "(nat \<times> nat) list \<Rightarrow> nat \<Rightarrow> bool" where
  "covers xs l \<longleftrightarrow> (\<exists>(s, e) \<in> set xs. s \<le> l \<and> l \<le> e)"

definition separated :: "(nat \<times> nat) list \<Rightarrow> bool" where
  "separated xs \<longleftrightarrow> sorted_wrt (\<lambda>a b. snd a < fst b) xs \<and> (\<forall>(s, e) \<in> set xs. s \<le> e)"

lemma covers_simps [simp]:
  "\<not> covers [] l"
  "covers (r # xs) l \<longleftrightarrow> fst r \<le> l \<and> l \<le> snd r \<or> covers xs l"
  "covers (xs @ ys) l \<longleftrightarrow> covers xs l \<or> covers ys l"
  by (auto simp: covers_def)

lemma separated_Nil [simp]: "separated []"
  by (simp add: separated_def)

lemma separated_Cons [simp]:
  "separated (r # xs) \<longleftrightarrow> fst r \<le> snd r \<and> (\<forall>q \<in> set xs. snd r < fst q) \<and> separated xs"
  by (auto simp: separated_def)

lemma separated_append [simp]:
  "separated (xs @ ys) \<longleftrightarrow>
     separated xs \<and> separated ys \<and> (\<forall>p \<in> set xs. \<forall>q \<in> set ys. snd p < fst q)"
  by (induction xs) auto

lemma covers_le: "covers xs l \<Longrightarrow> \<forall>q \<in> set xs. snd q < n \<Longrightarrow> l < n"
  by (auto simp: covers_def)

section \<open>The sweep\<close>

definition sweep :: "nat \<Rightarrow> (nat \<times> nat) list \<Rightarrow> (nat \<times> nat) list" where
  "sweep gap xs = foldl (sweep_step gap) [] xs"

lemma sweep_simps [simp]:
  "sweep gap [] = []"
  "sweep gap [r] = [r]"
  "sweep gap (xs @ [r]) = sweep_step gap (sweep gap xs) r"
  by (simp_all add: sweep_def sweep_step_def)

definition inner :: "(nat \<times> nat) list \<Rightarrow> nat \<Rightarrow> bool" where
  "inner xs l \<longleftrightarrow> (\<exists>(s, e) \<in> set xs. s < l \<and> l \<le> e)"

lemma inner_simps [simp]:
  "\<not> inner [] l"
  "inner (r # xs) l \<longleftrightarrow> fst r < l \<and> l \<le> snd r \<or> inner xs l"
  "inner (xs @ ys) l \<longleftrightarrow> inner xs l \<or> inner ys l"
  by (auto simp: inner_def)

text \<open>What the sweep over ranges in start order has built after each range.\<close>

lemma sweep_invariant:
  assumes "\<forall>(s, e) \<in> set xs. s < e" "sorted (map fst xs)"
  shows "separated (sweep 0 xs)
    \<and> (\<forall>(s, e) \<in> set (sweep 0 xs). s < e \<and> (\<exists>d. (s, d) \<in> set xs))
    \<and> (\<forall>l. covers (sweep 0 xs) l = covers xs l) \<and> (\<forall>l. inner (sweep 0 xs) l = inner xs l)"
  using assms
proof (induction xs rule: rev_induct)
  case (snoc r xs)
  then have IH: "separated (sweep 0 xs)" "\<forall>(s, e) \<in> set (sweep 0 xs). s < e \<and> (\<exists>d. (s, d) \<in> set xs)"
    "\<And>l. covers (sweep 0 xs) l = covers xs l" "\<And>l. inner (sweep 0 xs) l = inner xs l"
    by (auto simp: sorted_append)
  have r: "fst r < snd r" and le: "\<forall>q \<in> set xs. fst q \<le> fst r"
    using snoc.prems by (auto simp: sorted_append)
  have le': "\<forall>q \<in> set (sweep 0 xs). fst q \<le> fst r"
    using IH(2) le by fastforce
  show ?case
  proof (cases "sweep 0 xs" rule: rev_cases)
    case Nil
    then show ?thesis
      using IH r by (auto simp: sweep_step_def split: prod.splits simp flip: IH(3,4))
  next
    case (snoc ss q)
    have q: "fst q < snd q" "\<exists>d. (fst q, d) \<in> set xs" "fst q \<le> fst r"
      using IH(2) le' snoc by (auto split: prod.splits)
    have cov: "covers xs l = (covers ss l \<or> fst q \<le> l \<and> l \<le> snd q)"
      and inn: "inner xs l = (inner ss l \<or> fst q < l \<and> l \<le> snd q)" for l
      using IH(3,4) [of l] snoc by auto
    have sep: "separated ss" "\<forall>p \<in> set ss. snd p < fst q"
      using IH(1) snoc by auto
    have ss: "\<forall>(s, e) \<in> set ss. s < e \<and> (\<exists>d. (s, d) \<in> set xs)"
      using IH(2) snoc by auto
    show ?thesis
    proof (cases "fst r \<le> snd q")
      case True
      then have "sweep 0 (xs @ [r]) = ss @ [(fst q, max (snd q) (snd r))]"
        by (simp add: sweep_step_def snoc)
      then show ?thesis
        using True q r sep ss by (auto simp: cov inn)
    next
      case False
      have "\<forall>p \<in> set ss. snd p < fst r"
        using sep(2) q by fastforce
      moreover have "sweep 0 (xs @ [r]) = ss @ [q, r]"
        using False by (simp add: sweep_step_def snoc)
      ultimately show ?thesis
        using False q r sep ss by (auto simp: cov inn)
    qed
  qed
qed simp

text \<open>Ranges that do not cross are kept as they are.\<close>

definition crossing :: "nat \<times> nat \<Rightarrow> nat \<times> nat \<Rightarrow> bool" where
  "crossing a b \<longleftrightarrow>
     fst a \<le> snd b \<and> fst b \<le> snd a
     \<and> \<not> (fst a \<le> fst b \<and> snd b \<le> snd a) \<and> \<not> (fst b \<le> fst a \<and> snd a \<le> snd b)"

definition range_key :: "nat \<times> nat \<Rightarrow> nat \<times> int" where
  "range_key r = (fst r, - int (snd r))"

lemma sweep_nested:
  assumes "sorted (map range_key xs)" "\<forall>a \<in> set xs. \<forall>b \<in> set xs. \<not> crossing a b"
    "\<forall>(s, e) \<in> set xs. s < e"
  shows "set (sweep 0 xs) \<subseteq> set xs"
  using assms
proof (induction xs rule: rev_induct)
  case (snoc r xs)
  then have IH: "set (sweep 0 xs) \<subseteq> set xs" by (auto simp: sorted_append)
  show ?case
  proof (cases "sweep 0 xs" rule: rev_cases)
    case (snoc ss q)
    have q: "q \<in> set xs" using IH snoc by auto
    have "range_key q \<le> range_key r" "\<not> crossing q r"
      using snoc.prems q by (auto simp: sorted_append)
    then have "fst r \<le> snd q \<Longrightarrow> snd r \<le> snd q"
      by (auto simp: range_key_def crossing_def)
    then show ?thesis
      using IH snoc q by (auto simp: sweep_step_def max_def)
  qed (simp add: sweep_step_def)
qed simp

lemma sweep_gap_separated:
  assumes "separated xs" "\<forall>(s, e) \<in> set xs. s < e"
  shows "sweep 1 (map (\<lambda>r. (fst r + 1, snd r)) xs) = map (\<lambda>r. (fst r + 1, snd r)) xs"
  using assms
proof (induction xs rule: rev_induct)
  case (snoc r xs)
  then have IH: "sweep 1 (map (\<lambda>r. (fst r + 1, snd r)) xs) = map (\<lambda>r. (fst r + 1, snd r)) xs" by simp
  show ?case
  proof (cases xs rule: rev_cases)
    case (snoc ss q)
    have "snd q < fst r" using snoc.prems snoc by simp
    then have "sweep_step 1 (map (\<lambda>r. (fst r + 1, snd r)) xs) (fst r + 1, snd r) =
        map (\<lambda>r. (fst r + 1, snd r)) xs @ [(fst r + 1, snd r)]"
      by (simp add: sweep_step_def snoc)
    then show ?thesis
      using IH by simp
  qed (simp add: sweep_step_def)
qed simp

section \<open>Looking a line up\<close>

definition range_at :: "(nat \<times> nat) list \<Rightarrow> nat \<Rightarrow> (nat \<times> nat) option" where
  "range_at xs l = List.find (\<lambda>(s, e). s \<le> l \<and> l \<le> e) xs"

lemma range_at_simps [simp]:
  "range_at [] l = None"
  "range_at (r # xs) l = (if fst r \<le> l \<and> l \<le> snd r then Some r else range_at xs l)"
  by (auto simp: range_at_def)

lemma range_at_Some: "range_at xs l = Some r \<Longrightarrow> r \<in> set xs \<and> fst r \<le> l \<and> l \<le> snd r"
  by (induction xs) (auto split: if_splits)

lemma range_at_None [simp]:
  "range_at xs l = None \<longleftrightarrow> \<not> covers xs l" "None = range_at xs l \<longleftrightarrow> \<not> covers xs l"
  by (induction xs) auto

lemma range_at_unique:
  "separated xs \<Longrightarrow> range_at xs l = Some r \<longleftrightarrow> r \<in> set xs \<and> fst r \<le> l \<and> l \<le> snd r"
  by (induction xs) (fastforce dest: range_at_Some)+

lemma case_fst_simps:
  "(\<lambda>(s :: nat, _ :: nat). s \<le> l) = (\<lambda>r. fst r \<le> l)"
  "(\<lambda>(s :: nat, _ :: nat). s < l) = (\<lambda>r. fst r < l)"
  "(\<lambda>(s :: nat, e :: nat). (s + 1, e)) = (\<lambda>r. (fst r + 1, snd r))"
  "(\<lambda>(s :: nat, e :: nat). (Suc s, e)) = (\<lambda>r. (Suc (fst r), snd r))"
  by auto

lemma takeWhile_all_false: "\<forall>x \<in> set xs. \<not> P x \<Longrightarrow> takeWhile P xs = []"
  by (cases xs) auto

lemma range_at_partition:
  "separated xs \<Longrightarrow>
     (let p = takeWhile (\<lambda>r. fst r \<le> l) xs
      in if p \<noteq> [] \<and> l \<le> snd (last p) then Some (last p) else None) = range_at xs l"
  unfolding Let_def
proof (induction xs)
  case (Cons r xs)
  let ?q = "takeWhile (\<lambda>r. fst r \<le> l) xs"
  show ?case
  proof (cases "fst r \<le> l")
    case True
    show ?thesis
    proof (cases "?q = []")
      case Nil: True
      then have "range_at xs l = None" using Cons by simp
      then have "\<not> covers xs l" by simp
      then show ?thesis using Nil True by auto
    next
      case False
      then have "hd xs \<in> set xs" "fst (hd xs) \<le> l" by (cases xs; auto split: if_splits)+
      then have "snd r < l" using Cons.prems by fastforce
      then show ?thesis using Cons True False by (auto split: if_splits)
    qed
  next
    case False
    then have "\<forall>q \<in> set xs. \<not> fst q \<le> l" using Cons.prems by fastforce
    then have "\<not> covers xs l" by (auto simp: covers_def)
    then show ?thesis using False by auto
  qed
qed simp

section \<open>The order of the folds and the index\<close>

definition ordered :: "buf_fold list \<Rightarrow> bool" where
  "ordered folds \<longleftrightarrow> sorted (map fold_key folds) \<and> (\<forall>f \<in> set folds. bf_start f < bf_end f)"

definition nested :: "buf_fold list \<Rightarrow> bool" where
  "nested folds \<longleftrightarrow> (\<forall>f \<in> set folds. \<forall>g \<in> set folds. \<not> crossing (bf_range f) (bf_range g))"

definition folds_ok :: "fold_manager \<Rightarrow> bool" where
  "folds_ok m \<longleftrightarrow>
     ordered (fm_folds m)
     \<and> (\<forall>ix. fm_closed m = Some ix \<longrightarrow> ix = closed_index_build (fm_folds m))
     \<and> fm_generation m < fm_next_generation m"

lemma folds_ok_ordered: "folds_ok m \<Longrightarrow> ordered (fm_folds m)"
  by (simp add: folds_ok_def)

lemma the_closed_index_eq: "folds_ok m \<Longrightarrow> the_closed_index m = closed_index_build (fm_folds m)"
  by (auto simp: folds_ok_def the_closed_index_def split: option.splits)

definition closed_ranges :: "buf_fold list \<Rightarrow> (nat \<times> nat) list" where
  "closed_ranges folds = map bf_range (filter (\<lambda>f. \<not> bf_open f) folds)"

lemma range_key_fold: "range_key (bf_range f) = fold_key f"
  by (simp add: range_key_def bf_range_def fold_key_def)

lemma sorted_starts: "sorted (map fold_key folds) \<Longrightarrow> sorted (map bf_start folds)"
  by (induction folds) (auto simp: fold_key_def)

lemma ordered_closed_ranges:
  assumes "ordered folds"
  shows "\<forall>(s, e) \<in> set (closed_ranges folds). s < e" "sorted (map fst (closed_ranges folds))"
    "sorted (map range_key (closed_ranges folds))"
proof -
  show "\<forall>(s, e) \<in> set (closed_ranges folds). s < e"
    using assms by (auto simp: ordered_def closed_ranges_def bf_range_def)
  have 1: "sorted (map fold_key (filter (\<lambda>f. \<not> bf_open f) folds))"
    using assms by (simp add: ordered_def sorted_filter)
  then show "sorted (map range_key (closed_ranges folds))"
    by (simp add: closed_ranges_def comp_def range_key_fold)
  from sorted_starts [OF 1] show "sorted (map fst (closed_ranges folds))"
    by (simp add: closed_ranges_def comp_def bf_range_def)
qed

lemma outer_ranges_sweep: "outer_ranges folds = sweep 0 (closed_ranges folds)"
  by (simp add: outer_ranges_def sweep_def closed_ranges_def)

lemma outer_ranges_facts:
  assumes "ordered folds"
  shows "separated (outer_ranges folds)" "\<forall>(s, e) \<in> set (outer_ranges folds). s < e"
    "covers (outer_ranges folds) l = covers (closed_ranges folds) l"
    "inner (outer_ranges folds) l = inner (closed_ranges folds) l"
  using sweep_invariant [OF ordered_closed_ranges(1,2) [OF assms]]
  by (auto simp: outer_ranges_sweep)

lemma outer_ranges_nested:
  "ordered folds \<Longrightarrow> nested folds \<Longrightarrow> set (outer_ranges folds) \<subseteq> set (closed_ranges folds)"
  unfolding outer_ranges_sweep
  by (intro sweep_nested ordered_closed_ranges; assumption?)
    (auto simp: nested_def closed_ranges_def)

lemma covers_closed_ranges:
  "covers (closed_ranges folds) l \<longleftrightarrow> (\<exists>f \<in> set folds. \<not> bf_open f \<and> contains_line f l)"
  by (auto simp: covers_def closed_ranges_def bf_range_def contains_line_def)

lemma inner_closed_ranges:
  "inner (closed_ranges folds) l
     \<longleftrightarrow> (\<exists>f \<in> set folds. \<not> bf_open f \<and> bf_start f < l \<and> l \<le> bf_end f)"
  by (auto simp: inner_def closed_ranges_def bf_range_def)

lemma closed_fold_at_range:
  assumes "folds_ok m"
  shows "closed_fold_at m l = (if fm_enabled m then range_at (outer_ranges (fm_folds m)) l else None)"
proof -
  have "separated (outer_ranges (fm_folds m))"
    using assms by (simp add: folds_ok_ordered outer_ranges_facts(1))
  from range_at_partition [OF this] show ?thesis
    by (simp add: closed_fold_at_def the_closed_index_eq [OF assms] closed_index_build_def Let_def
        case_fst_simps)
qed

lemma is_line_hidden_inner:
  assumes "folds_ok m"
  shows "is_line_hidden m l \<longleftrightarrow> fm_enabled m \<and> inner (closed_ranges (fm_folds m)) l"
proof -
  note outer = outer_ranges_facts [OF folds_ok_ordered [OF assms]]
  have "inner (outer_ranges (fm_folds m)) l \<longleftrightarrow>
      (\<exists>r. range_at (outer_ranges (fm_folds m)) l = Some r \<and> fst r < l)"
    using outer(1) by (fastforce simp: range_at_unique inner_def)
  then show ?thesis
    by (auto simp: is_line_hidden_def closed_fold_at_range [OF assms] outer(4)
      simp del: range_at_None split: option.splits)
qed

section \<open>Counting hidden lines\<close>

definition covered_total :: "(nat \<times> nat) list \<Rightarrow> nat" where
  "covered_total h = (\<Sum>(s, e)\<leftarrow>h. e - s + 1)"

lemma covered_total_simps [simp]:
  "covered_total [] = 0"
  "covered_total (r # h) = (snd r - fst r + 1) + covered_total h"
  "covered_total (h @ h') = covered_total h + covered_total h'"
  by (auto simp: covered_total_def split: prod.splits)

lemma hidden_totals_nth: "i < length h \<Longrightarrow> hidden_totals n h ! i = n + covered_total (take i h)"
  by (induction n h arbitrary: i rule: hidden_totals.induct) (auto simp: nth_Cons' take_Cons')

lemma finite_covered [simp]: "finite {k. k < l \<and> P (k :: nat)}"
  by (rule finite_subset [of _ "{..<l}"]) auto

lemma card_covered_one: "card {k. k < l \<and> s \<le> k \<and> k \<le> e} = min (e + 1) l - (s :: nat)"
proof -
  have "{k. k < l \<and> s \<le> k \<and> k \<le> e} = {s..<min (e + 1) l}" by auto
  then show ?thesis by simp
qed

definition covered_below :: "(nat \<times> nat) list \<Rightarrow> nat \<Rightarrow> nat" where
  "covered_below h l = card {k. k < l \<and> covers h k}"

lemma covered_below_Cons:
  assumes "separated (r # h)"
  shows "covered_below (r # h) l = (min (snd r + 1) l - fst r) + covered_below h l"
proof -
  have "{k. k < l \<and> covers (r # h) k} =
      {k. k < l \<and> fst r \<le> k \<and> k \<le> snd r} \<union> {k. k < l \<and> covers h k}" by auto
  moreover have "{k. k < l \<and> fst r \<le> k \<and> k \<le> snd r} \<inter> {k. k < l \<and> covers h k} = {}"
    using assms by (fastforce simp: covers_def)
  ultimately show ?thesis
    using card_covered_one [of l "fst r" "snd r"]
    by (simp add: covered_below_def card_Un_disjoint)
qed

lemma covered_below_append:
  "separated (h @ h') \<Longrightarrow> covered_below (h @ h') l = covered_below h l + covered_below h' l"
proof (induction h)
  case (Cons r h)
  have "covered_below (r # h @ h') l = (min (snd r + 1) l - fst r) + covered_below (h @ h') l"
    using Cons.prems by (intro covered_below_Cons) simp
  moreover have "covered_below (r # h) l = (min (snd r + 1) l - fst r) + covered_below h l"
    using Cons.prems by (intro covered_below_Cons) simp
  ultimately show ?case
    using Cons by simp
qed (simp add: covered_below_def)

lemma covered_below_all:
  "separated h \<Longrightarrow> \<forall>r \<in> set h. snd r < l \<Longrightarrow> covered_below h l = covered_total h"
proof (induction h)
  case (Cons r h)
  then show ?case by (subst covered_below_Cons) auto
qed (simp add: covered_below_def)

lemma covered_below_none: "\<forall>r \<in> set h. l \<le> fst r \<Longrightarrow> covered_below h l = 0"
  by (fastforce simp: covered_below_def covers_def)

text \<open>A line in the gap after the first \<open>n\<close> ranges.\<close>

lemma covered_below_gap:
  assumes "separated h" "\<forall>r \<in> set (take n h). snd r < l" "\<forall>r \<in> set (drop n h). l \<le> fst r"
  shows "covered_below h l = covered_total (take n h)"
proof -
  have "separated (take n h @ drop n h)" using assms(1) by simp
  from covered_below_append [OF this, of l] this show ?thesis
    using assms(2,3) by (simp add: covered_below_all covered_below_none del: append_take_drop_id)
      (simp add: append_take_drop_id)
qed

lemma covered_below_lookup:
  assumes "separated h"
  defines "n \<equiv> \<lambda>l. length (takeWhile (\<lambda>r. fst r < l) h)"
  shows "covered_below h l =
    (if n l = 0 then 0
     else hidden_totals 0 h ! (n l - 1) + min (snd (h ! (n l - 1))) (l - 1) - fst (h ! (n l - 1)) + 1)"
proof -
  have len: "n l \<le> length h" by (simp add: n_def length_takeWhile_le)
  have before: "\<And>i. i < n l \<Longrightarrow> fst (h ! i) < l"
    unfolding n_def by (metis nth_mem set_takeWhileD takeWhile_nth)
  have after: "l \<le> fst r" if "r \<in> set (drop (n l) h)" for r
  proof -
    have d: "drop (n l) h = dropWhile (\<lambda>r. fst r < l) h"
      by (simp add: n_def dropWhile_eq_drop)
    then have "dropWhile (\<lambda>r. fst r < l) h \<noteq> []" by (metis d empty_iff list.set(1) that)
    then obtain q rest where q: "dropWhile (\<lambda>r. fst r < l) h = q # rest"
      by (meson neq_Nil_conv)
    have "\<not> fst q < l" using q by (simp add: dropWhile_eq_Cons_conv)
    moreover have "separated (q # rest)"
      using assms(1) d q by (metis append_take_drop_id separated_append)
    ultimately show ?thesis using that d q by fastforce
  qed
  show ?thesis
  proof (cases "n l")
    case 0
    then show ?thesis using after by (simp add: covered_below_none)
  next
    case (Suc i)
    then have i: "i < length h" and il: "fst (h ! i) < l" using len before by simp_all
    have split: "h = take i h @ h ! i # drop (Suc i) h" using i by (rule id_take_nth_drop)
    have sep: "separated (take i h @ h ! i # drop (Suc i) h)" using assms(1) split by simp
    have "covered_below h l =
        covered_below (take i h) l + covered_below (h ! i # drop (Suc i) h) l"
      using covered_below_append [OF sep] split by simp
    also have "covered_below (take i h) l = covered_total (take i h)"
    proof (rule covered_below_all)
      have "\<forall>r \<in> set (take i h). snd r < fst (h ! i)" using sep by simp
      then show "\<forall>r \<in> set (take i h). snd r < l" using il by auto
    qed (use sep in simp)
    also have "covered_below (h ! i # drop (Suc i) h) l = min (snd (h ! i) + 1) l - fst (h ! i)"
      using sep after Suc by (subst covered_below_Cons) (simp_all add: covered_below_none)
    finally show ?thesis
      using Suc i il sep by (simp add: hidden_totals_nth min_def) (auto simp: n_def)
  qed
qed

section \<open>Lines and visible lines\<close>

definition hidden_of :: "buf_fold list \<Rightarrow> (nat \<times> nat) list" where
  "hidden_of folds = map (\<lambda>r. (fst r + 1, snd r)) (outer_ranges folds)"

lemma hidden_of_facts:
  assumes "ordered folds"
  shows "merge_hidden (outer_ranges folds) = hidden_of folds" "separated (hidden_of folds)"
    "covers (hidden_of folds) l = inner (closed_ranges folds) l"
proof -
  note outer = outer_ranges_facts [OF assms]
  show "merge_hidden (outer_ranges folds) = hidden_of folds"
    using sweep_gap_separated [OF outer(1,2)]
    by (simp add: merge_hidden_def hidden_of_def sweep_def case_fst_simps)
  have "separated xs \<Longrightarrow> \<forall>(s, e) \<in> set xs. s < e \<Longrightarrow>
      separated (map (\<lambda>r. (fst r + 1, snd r)) xs)" for xs
    by (induction xs) (auto simp: less_SucI)
  with outer(1,2) show "separated (hidden_of folds)" by (simp add: hidden_of_def)
  have "covers (map (\<lambda>r. (fst r + 1, snd r)) xs) l = inner xs l" for xs
    by (induction xs) (auto simp: Suc_le_eq)
  then show "covers (hidden_of folds) l = inner (closed_ranges folds) l"
    by (simp only: hidden_of_def outer(4))
qed

lemma closed_index_hidden:
  assumes "folds_ok m"
  shows "ci_hidden (the_closed_index m) = hidden_of (fm_folds m)"
    "ci_hidden_before (the_closed_index m) = hidden_totals 0 (hidden_of (fm_folds m))"
  using hidden_of_facts(1) [OF folds_ok_ordered [OF assms]]
  by (simp_all add: the_closed_index_eq [OF assms] closed_index_build_def Let_def)

lemma is_line_hidden_covers:
  "folds_ok m \<Longrightarrow> is_line_hidden m l \<longleftrightarrow> fm_enabled m \<and> covers (hidden_of (fm_folds m)) l"
  by (simp add: is_line_hidden_inner hidden_of_facts(3) [OF folds_ok_ordered])

lemma hidden_count_before_below:
  assumes "folds_ok m"
  shows "hidden_count_before m l = (if fm_enabled m then covered_below (hidden_of (fm_folds m)) l else 0)"
  using covered_below_lookup [OF hidden_of_facts(2) [OF folds_ok_ordered [OF assms]], of l]
  by (simp add: hidden_count_before_def closed_index_hidden [OF assms] case_fst_simps Let_def
      case_prod_beta)

lemma hidden_count_card:
  "folds_ok m \<Longrightarrow> hidden_count_before m l = card {k. k < l \<and> is_line_hidden m k}"
  by (simp add: hidden_count_before_below is_line_hidden_covers covered_below_def)

text \<open>The visible lines above a line, counted.\<close>

lemma visible_index_card:
  assumes "folds_ok m"
  shows "visible_index m l = card {k. k < l \<and> \<not> is_line_hidden m k}"
proof -
  have "{..<l} = {k. k < l \<and> is_line_hidden m k} \<union> {k. k < l \<and> \<not> is_line_hidden m k}" by auto
  then have "l = card ({k. k < l \<and> is_line_hidden m k} \<union> {k. k < l \<and> \<not> is_line_hidden m k})"
    by (metis card_lessThan)
  also have "\<dots> = card {k. k < l \<and> is_line_hidden m k} + card {k. k < l \<and> \<not> is_line_hidden m k}"
    by (rule card_Un_disjoint) auto
  finally show ?thesis
    by (simp add: visible_index_def hidden_count_card [OF assms])
qed

lemma visible_index_strict:
  assumes "folds_ok m" "l < k" "\<not> is_line_hidden m l"
  shows "visible_index m l < visible_index m k"
  unfolding visible_index_card [OF assms(1)]
  by (rule psubset_card_mono) (use assms in auto)

lemma visible_index_inj:
  "folds_ok m \<Longrightarrow> \<not> is_line_hidden m l \<Longrightarrow> \<not> is_line_hidden m k \<Longrightarrow>
     visible_index m l = visible_index m k \<Longrightarrow> l = k"
  by (metis linorder_neqE_nat less_irrefl visible_index_strict)

text \<open>The binary search finds the boundary of a condition that holds on a prefix.\<close>

lemma shift_search_boundary:
  assumes down: "\<And>i j. i \<le> j \<Longrightarrow> j < length h \<Longrightarrow> P j \<Longrightarrow> P i"
    and P: "\<And>i. i < length h \<Longrightarrow> P i \<longleftrightarrow> fst (h ! i) - before ! i \<le> index"
    and bounds: "low \<le> high" "high \<le> length h"
      "\<forall>i < low. P i" "\<forall>i. high \<le> i \<and> i < length h \<longrightarrow> \<not> P i"
  shows "shift_search h before index low high \<le> length h
    \<and> (\<forall>i < shift_search h before index low high. P i)
    \<and> (\<forall>i. shift_search h before index low high \<le> i \<and> i < length h \<longrightarrow> \<not> P i)"
  using bounds
proof (induction "high - low" arbitrary: low high rule: less_induct)
  case less
  show ?case
  proof (cases "low < high")
    case True
    define mid where "mid = (low + high) div 2"
    have mid: "low \<le> mid" "mid < high" "mid < length h" using True less.prems by (auto simp: mid_def)
    show ?thesis
    proof (cases "P mid")
      case True
      have step: "shift_search h before index low high = shift_search h before index (mid + 1) high"
        using \<open>low < high\<close> True P [OF mid(3)]
        by (subst shift_search.simps) (simp add: Let_def flip: mid_def)
      have below: "\<forall>i < mid + 1. P i" using down [OF _ mid(3) True] by auto
      show ?thesis
        unfolding step using mid less.prems below by (intro less.hyps) auto
    next
      case False
      have step: "shift_search h before index low high = shift_search h before index low mid"
        using \<open>low < high\<close> False P [OF mid(3)]
        by (subst shift_search.simps) (simp add: Let_def flip: mid_def)
      have above: "\<forall>i. mid \<le> i \<and> i < length h \<longrightarrow> \<not> P i" using down False by blast
      show ?thesis
        unfolding step using mid less.prems above by (intro less.hyps) auto
    qed
  next
    case False
    then show ?thesis using less.prems by (simp add: shift_search.simps)
  qed
qed

lemma covered_total_le_start:
  assumes "separated h" "Suc i < length h" "fst (h ! Suc i) \<le> index + covered_total (take (Suc i) h)"
  shows "fst (h ! i) \<le> index + covered_total (take i h)"
proof -
  have "h = take i h @ h ! i # h ! Suc i # drop (Suc (Suc i)) h"
    using assms(2) by (simp add: Cons_nth_drop_Suc id_take_nth_drop [symmetric])
  then have "separated (take i h @ h ! i # h ! Suc i # drop (Suc (Suc i)) h)" using assms(1) by simp
  then have "fst (h ! i) \<le> snd (h ! i)" "snd (h ! i) < fst (h ! Suc i)" by simp_all
  then show ?thesis
    using assms(2,3) by (simp add: take_Suc_conv_app_nth)
qed

lemma covered_total_downward:
  assumes "separated h" "i \<le> j" "j < length h" "fst (h ! j) \<le> index + covered_total (take j h)"
  shows "fst (h ! i) \<le> index + covered_total (take i h)"
  using assms(2-)
proof (induction j rule: dec_induct)
  case (step j)
  then show ?case using covered_total_le_start [OF assms(1), of j index] by simp
qed

text \<open>The line the search computes lies in the gap its index belongs to.\<close>

lemma line_in_gap:
  assumes sep: "separated h" and n: "n \<le> length h"
    and before: "\<forall>i < n. fst (h ! i) \<le> index + covered_total (take i h)"
    and after: "\<forall>i. n \<le> i \<and> i < length h \<longrightarrow> index + covered_total (take i h) < fst (h ! i)"
  defines "l \<equiv> index + covered_total (take n h)"
  shows "\<not> covers h l" "covered_below h l = covered_total (take n h)"
proof -
  have low: "\<forall>r \<in> set (take n h). snd r < l"
  proof (cases n)
    case (Suc i)
    have split: "take n h = take i h @ [h ! i]" using n Suc by (simp add: take_Suc_conv_app_nth)
    have "separated (take n h)" using sep by (metis append_take_drop_id separated_append)
    then have "\<forall>r \<in> set (take i h). snd r < fst (h ! i)" "fst (h ! i) \<le> snd (h ! i)"
      by (simp_all add: split)
    moreover have "snd (h ! i) < l"
      using before Suc calculation(2) unfolding l_def split by fastforce
    ultimately show ?thesis by (auto simp: split)
  qed simp
  have high: "\<forall>r \<in> set (drop n h). l < fst r"
  proof (cases "n < length h")
    case True
    have d: "drop n h = h ! n # drop (Suc n) h" using True by (simp add: Cons_nth_drop_Suc)
    have "separated (drop n h)" using sep by (metis append_take_drop_id separated_append)
    then have "\<forall>r \<in> set (drop (Suc n) h). snd (h ! n) < fst r" "fst (h ! n) \<le> snd (h ! n)"
      by (simp_all add: d)
    moreover have "l < fst (h ! n)" using after True by (simp add: l_def)
    ultimately show ?thesis unfolding d by auto
  qed simp
  show "covered_below h l = covered_total (take n h)"
    using covered_below_gap [OF sep low] high by (simp add: less_imp_le)
  have "\<not> covers (take n h) l" "\<not> covers (drop n h) l"
    using low high by (auto simp: covers_def not_le dest: bspec)
  then have "\<not> covers (take n h @ drop n h) l" by (simp del: append_take_drop_id)
  then show "\<not> covers h l" by simp
qed

lemma line_at_visible_index_gap:
  fixes index :: nat
  assumes "folds_ok m"
  defines "l \<equiv> line_at_visible_index m index"
  shows "\<not> is_line_hidden m l" "visible_index m l = index"
proof -
  define h where "h = hidden_of (fm_folds m)"
  define n where "n = shift_search h (hidden_totals 0 h) index 0 (length h)"
  have sep: "separated h" using assms(1) by (simp add: h_def hidden_of_facts(2) folds_ok_ordered)
  let ?P = "\<lambda>i. fst (h ! i) \<le> index + covered_total (take i h)"
  have "n \<le> length h \<and> (\<forall>i < n. ?P i) \<and> (\<forall>i. n \<le> i \<and> i < length h \<longrightarrow> \<not> ?P i)"
    unfolding n_def
    by (rule shift_search_boundary)
      (use covered_total_downward [OF sep] in \<open>auto simp: hidden_totals_nth\<close>)
  then have n: "n \<le> length h" "\<forall>i < n. ?P i" "\<forall>i. n \<le> i \<and> i < length h \<longrightarrow> \<not> ?P i" by auto
  have l: "l = index + covered_total (take n h)" if "fm_enabled m"
  proof (cases n)
    case 0
    then show ?thesis
      using that by (simp add: l_def line_at_visible_index_def closed_index_hidden [OF assms(1)] Let_def
          flip: h_def n_def)
  next
    case (Suc i)
    then have "take n h = take i h @ [h ! i]" "i < length h" using n(1) by (simp_all add: take_Suc_conv_app_nth)
    then show ?thesis
      using that Suc
      by (simp add: l_def line_at_visible_index_def closed_index_hidden [OF assms(1)] Let_def
          case_prod_beta hidden_totals_nth flip: h_def n_def)
  qed
  have gap: "\<not> covers h l" "covered_below h l = covered_total (take n h)" if "fm_enabled m"
    using line_in_gap [OF sep n(1,2)] n(3) l [OF that] by (auto simp: not_le)
  show "\<not> is_line_hidden m l"
    using gap by (auto simp: is_line_hidden_covers [OF assms(1)] simp flip: h_def)
  show "visible_index m l = index"
  proof (cases "fm_enabled m")
    case True
    then show ?thesis
      using gap l by (simp add: visible_index_def hidden_count_before_below [OF assms(1)] flip: h_def)
  qed (simp add: visible_index_def hidden_count_before_def l_def line_at_visible_index_def)
qed

lemma line_at_visible_index_inverse:
  "folds_ok m \<Longrightarrow> \<not> is_line_hidden m l \<Longrightarrow> line_at_visible_index m (visible_index m l) = l"
  using visible_index_inj line_at_visible_index_gap by blast

section \<open>Walking over visible lines\<close>

lemma closed_fold_at_hides:
  assumes "folds_ok m" "closed_fold_at m l = Some (s, e)"
  shows "s \<le> l" "l \<le> e" "\<not> is_line_hidden m s" "\<not> is_line_hidden m (e + 1)"
    "\<And>k. s < k \<Longrightarrow> k \<le> e \<Longrightarrow> is_line_hidden m k"
proof -
  define xs where "xs = outer_ranges (fm_folds m)"
  have en: "fm_enabled m" and r: "range_at xs l = Some (s, e)"
    using assms by (auto simp: closed_fold_at_range xs_def split: if_splits)
  have sep: "separated xs" by (simp add: xs_def outer_ranges_facts(1) folds_ok_ordered assms(1))
  have hid: "is_line_hidden m k \<longleftrightarrow> inner xs k" for k
    using en is_line_hidden_inner [OF assms(1)]
    by (simp add: xs_def outer_ranges_facts(4) folds_ok_ordered assms(1))
  have in_xs: "(s, e) \<in> set xs" "s \<le> l" "l \<le> e" using range_at_Some [OF r] by auto
  then show "s \<le> l" "l \<le> e" by simp_all
  obtain ys zs where split: "xs = ys @ (s, e) # zs" using in_xs(1) by (meson split_list)
  have "\<not> inner xs s" "\<not> inner xs (e + 1)"
    using sep unfolding split inner_def by fastforce+
  then show "\<not> is_line_hidden m s" "\<not> is_line_hidden m (e + 1)" by (simp_all add: hid)
  show "is_line_hidden m k" if "s < k" "k \<le> e" for k
    using that in_xs(1) by (auto simp: hid inner_def)
qed

lemma closed_fold_at_visible:
  "folds_ok m \<Longrightarrow> \<not> is_line_hidden m l \<Longrightarrow> closed_fold_at m l = Some (s, e) \<Longrightarrow> s = l"
  using closed_fold_at_hides(1) by (fastforce simp: is_line_hidden_def)

lemma closed_fold_at_None:
  assumes "folds_ok m" "closed_fold_at m l = None"
  shows "\<not> is_line_hidden m l" "\<not> is_line_hidden m (l + 1)"
proof -
  show "\<not> is_line_hidden m l" using assms(2) by (simp add: is_line_hidden_def)
  have "fm_enabled m \<Longrightarrow> \<not> covers (closed_ranges (fm_folds m)) l"
    using assms by (simp add: closed_fold_at_range outer_ranges_facts(3) folds_ok_ordered)
  then show "\<not> is_line_hidden m (l + 1)"
    by (fastforce simp: is_line_hidden_inner [OF assms(1)] inner_def covers_def less_Suc_eq_le)
qed

lemma visible_index_after:
  assumes "folds_ok m" "l < k" "\<not> is_line_hidden m l" "\<And>j. l < j \<Longrightarrow> j < k \<Longrightarrow> is_line_hidden m j"
  shows "visible_index m k = visible_index m l + 1"
proof -
  have "{j. j < k \<and> \<not> is_line_hidden m j} = insert l {j. j < l \<and> \<not> is_line_hidden m j}"
    using assms(2-4) by (auto simp: not_less) (metis nat_neq_iff)+
  then show ?thesis by (simp add: visible_index_card [OF assms(1)])
qed

definition line_below :: "fold_manager \<Rightarrow> nat \<Rightarrow> nat" where
  "line_below m l = (case closed_fold_at m l of Some (_, e) \<Rightarrow> e + 1 | None \<Rightarrow> l + 1)"

lemma line_below_visible:
  assumes "folds_ok m" "\<not> is_line_hidden m l"
  shows "\<not> is_line_hidden m (line_below m l)" "l < line_below m l"
    "\<And>j. l < j \<Longrightarrow> j < line_below m l \<Longrightarrow> is_line_hidden m j"
    "visible_index m (line_below m l) = visible_index m l + 1"
proof -
  show 1: "\<not> is_line_hidden m (line_below m l)" "l < line_below m l"
    using closed_fold_at_hides [OF assms(1)] closed_fold_at_None [OF assms(1)]
    by (auto simp: line_below_def less_Suc_eq_le split: option.splits)
  show 2: "is_line_hidden m j" if "l < j" "j < line_below m l" for j
    using that closed_fold_at_hides(5) [OF assms(1)] closed_fold_at_visible [OF assms]
    by (fastforce simp: line_below_def split: option.splits prod.splits)
  show "visible_index m (line_below m l) = visible_index m l + 1"
    using assms 1 2 by (intro visible_index_after) auto
qed

definition line_above :: "fold_manager \<Rightarrow> nat \<Rightarrow> nat" where
  "line_above m l = (case closed_fold_at m (l - 1) of Some (s, _) \<Rightarrow> s | None \<Rightarrow> l - 1)"

lemma line_above_visible:
  assumes "folds_ok m" "\<not> is_line_hidden m l" "0 < l"
  shows "\<not> is_line_hidden m (line_above m l)"
    "visible_index m l = visible_index m (line_above m l) + 1"
proof -
  note hides = closed_fold_at_hides [OF assms(1), of "l - 1"]
  show 1: "\<not> is_line_hidden m (line_above m l)"
    using hides closed_fold_at_None [OF assms(1), of "l - 1"]
    by (auto simp: line_above_def split: option.splits)
  have "line_above m l < l"
    using hides(1) assms(3) by (fastforce simp: line_above_def split: option.splits prod.splits)
  moreover have "is_line_hidden m j" if "line_above m l < j" "j < l" for j
    using that hides(2,5) assms(3) by (fastforce simp: line_above_def split: option.splits prod.splits)
  ultimately show "visible_index m l = visible_index m (line_above m l) + 1"
    using assms(1) 1 by (intro visible_index_after) auto
qed

lemma step_down_walks:
  fixes n max_line :: nat
  assumes "folds_ok m" "\<not> is_line_hidden m l"
  defines "r \<equiv> step_down m l n max_line"
  shows "\<not> is_line_hidden m r \<and> l \<le> r \<and> (r = l \<or> r \<le> max_line)
    \<and> (\<exists>k \<le> n. visible_index m r = visible_index m l + k
        \<and> (k < n \<longrightarrow> (\<forall>j. r < j \<and> j \<le> max_line \<longrightarrow> is_line_hidden m j)))"
  using assms(2) unfolding r_def
proof (induction n arbitrary: l)
  case (Suc n)
  have after: "(case closed_fold_at m l of Some (_, e) \<Rightarrow> e + 1 | None \<Rightarrow> l + 1) = line_below m l"
    by (simp add: line_below_def)
  note below = line_below_visible [OF assms(1) Suc.prems]
  show ?case
  proof (cases "line_below m l > max_line")
    case True
    then have "step_down m l (Suc n) max_line = l" by (simp add: after Let_def)
    then show ?thesis using Suc.prems below(3) True by (auto intro!: exI [of _ 0])
  next
    case False
    define r where "r = step_down m (line_below m l) n max_line"
    have r: "step_down m l (Suc n) max_line = r" using False by (simp add: after Let_def r_def)
    from Suc.IH [OF below(1)] obtain k where k: "k \<le> n"
      "visible_index m r = visible_index m (line_below m l) + k"
      "k < n \<longrightarrow> (\<forall>j. r < j \<and> j \<le> max_line \<longrightarrow> is_line_hidden m j)"
      and rest: "\<not> is_line_hidden m r" "line_below m l \<le> r" "r = line_below m l \<or> r \<le> max_line"
      by (auto simp: r_def)
    then show ?thesis
      unfolding r using below(2,4) False by (auto intro!: exI [of _ "Suc k"])
  qed
qed simp

lemma step_up_walks:
  assumes "folds_ok m" "\<not> is_line_hidden m l"
  shows "\<not> is_line_hidden m (step_up m l n) \<and> visible_index m (step_up m l n) = visible_index m l - n"
  using assms(2)
proof (induction n arbitrary: l)
  case (Suc n)
  have before: "(case closed_fold_at m (l - 1) of Some (s, _) \<Rightarrow> s | None \<Rightarrow> l - 1) = line_above m l"
    by (simp add: line_above_def)
  show ?case
  proof (cases "l = 0")
    case True
    then show ?thesis using Suc.prems by (simp add: visible_index_def)
  next
    case False
    note above = line_above_visible [OF assms(1) Suc.prems]
    then show ?thesis using Suc.IH [OF above(1)] False by (simp add: before [simplified])
  qed
qed simp

lemma next_visible_loop_finds:
  assumes "folds_ok m" "n - l < fuel"
  shows "\<exists>r. next_visible_loop fuel m l n = Some r \<and>
    (case r of Some k \<Rightarrow> l \<le> k \<and> k < n \<and> \<not> is_line_hidden m k \<and> (\<forall>j. l \<le> j \<and> j < k \<longrightarrow> is_line_hidden m j)
     | None \<Rightarrow> \<forall>j. l \<le> j \<and> j < n \<longrightarrow> is_line_hidden m j)"
  using assms(2)
proof (induction fuel arbitrary: l)
  case (Suc fuel)
  show ?case
  proof (cases "l < n \<and> is_line_hidden m l")
    case True
    then obtain s e where c: "closed_fold_at m l = Some (s, e)" "s < l"
      by (auto simp: is_line_hidden_def split: option.splits)
    note hides = closed_fold_at_hides [OF assms(1) c(1)]
    have loop: "next_visible_loop (Suc fuel) m l n = next_visible_loop fuel m (e + 1) n"
      using True c by simp
    have hidden: "is_line_hidden m j" if "l \<le> j" "j \<le> e" for j using that c(2) hides(5) by simp
    have "n - (e + 1) < fuel" using Suc.prems hides(2) True by linarith
    from Suc.IH [OF this] obtain r where r: "next_visible_loop fuel m (e + 1) n = Some r"
      "case r of Some k \<Rightarrow> e + 1 \<le> k \<and> k < n \<and> \<not> is_line_hidden m k
          \<and> (\<forall>j. e + 1 \<le> j \<and> j < k \<longrightarrow> is_line_hidden m j)
       | None \<Rightarrow> \<forall>j. e + 1 \<le> j \<and> j < n \<longrightarrow> is_line_hidden m j" by auto
    then show ?thesis
      unfolding loop using hidden hides(2) by (cases r) (auto simp: Suc_le_eq not_less, (meson not_less)+)
  next
    case False
    then show ?thesis by (auto simp: is_line_hidden_def split: option.splits)
  qed
qed simp

end
