(* ===== verification/FoldSessions.thy ===== *)
theory FoldSessions
  imports FoldLaws
begin

text \<open>
  What every operation on the folds keeps: their order, the index, the generation and the nesting.
\<close>

section \<open>What the operations keep\<close>

lemma folds_ok_touch: "folds_ok (touch m) \<longleftrightarrow> ordered (fm_folds m)"
  by (simp add: folds_ok_def touch_def)

lemma touch_simps [simp]:
  "fm_folds (touch m) = fm_folds m" "fm_enabled (touch m) = fm_enabled m"
  "fm_generation (touch m) = fm_next_generation m"
  "fm_next_generation (touch m) = fm_next_generation m + 1"
  "fm_foldlevel (touch m) = fm_foldlevel m" "fm_closed (touch m) = None"
  by (simp_all add: touch_def)

lemma ordered_cong:
  "map bf_range folds = map bf_range folds' \<Longrightarrow> ordered folds = ordered folds'"
proof -
  assume eq: "map bf_range folds = map bf_range folds'"
  have "map fold_key fs = map range_key (map bf_range fs)"
    "(\<forall>f \<in> set fs. bf_start f < bf_end f) \<longleftrightarrow> (\<forall>r \<in> set (map bf_range fs). fst r < snd r)" for fs
    by (simp_all add: range_key_def fold_key_def bf_range_def)
  then show ?thesis unfolding ordered_def using eq by metis
qed

lemma nested_mono:
  assumes "bf_range ` set folds' \<subseteq> bf_range ` set folds" "nested folds"
  shows "nested folds'"
  unfolding nested_def
proof (intro ballI)
  fix f g assume "f \<in> set folds'" "g \<in> set folds'"
  then have "bf_range f \<in> bf_range ` set folds" "bf_range g \<in> bf_range ` set folds"
    using assms(1) by auto
  then obtain f' g' where "f' \<in> set folds" "g' \<in> set folds" "bf_range f = bf_range f'"
    "bf_range g = bf_range g'" by (elim imageE)
  then show "\<not> crossing (bf_range f) (bf_range g)" using assms(2) by (simp add: nested_def)
qed

lemma bf_range_open [simp]: "bf_range (f\<lparr>bf_open := b\<rparr>) = bf_range f"
  by (simp add: bf_range_def)

lemma map_range_with_open [simp]: "map bf_range (with_open i b folds) = map bf_range folds"
proof (cases "i < length folds")
  case True
  then have "map bf_range (with_open i b folds) = (map bf_range folds)[i := map bf_range folds ! i]"
    by (simp add: with_open_def map_update)
  then show ?thesis by (simp only: list_update_id)
qed (simp add: with_open_def list_update_beyond)

lemma switch_all_ranges:
  "map bf_range (snd (switch_all b is s)) = map bf_range (snd s)
   \<and> (\<not> fst (switch_all b is s) \<longrightarrow> \<not> fst s \<and> snd (switch_all b is s) = snd s)"
  by (induction b "is" s rule: switch_all.induct) auto

text \<open>
  A change of the manager that keeps the ranges of the folds, or the folds with their index.
\<close>

definition same_view :: "fold_manager \<Rightarrow> fold_manager \<Rightarrow> bool" where
  "same_view m m' \<longleftrightarrow>
     fm_folds m' = fm_folds m \<and> fm_enabled m' = fm_enabled m \<and> fm_generation m' = fm_generation m
     \<and> fm_closed m' = fm_closed m \<and> fm_next_generation m' = fm_next_generation m"

definition touched :: "fold_manager \<Rightarrow> fold_manager \<Rightarrow> bool" where
  "touched m m' \<longleftrightarrow>
     fm_closed m' = None \<and> fm_next_generation m \<le> fm_generation m'
     \<and> fm_generation m' < fm_next_generation m'"

lemma same_view_refl [simp]: "same_view m m"
  by (simp add: same_view_def)

lemma touched_touch:
  "fm_next_generation m' = fm_next_generation m \<Longrightarrow> touched m (touch m')"
  by (simp add: touched_def touch_def)

definition reopened :: "fold_manager \<Rightarrow> fold_manager \<Rightarrow> bool" where
  "reopened m m' \<longleftrightarrow>
     map bf_range (fm_folds m') = map bf_range (fm_folds m) \<and> (same_view m m' \<or> touched m m')"

lemma reopened_refl [simp]: "reopened m m"
  by (simp add: reopened_def)

lemma reopened_trans:
  assumes "reopened m m'" "reopened m' m''" "fm_generation m < fm_next_generation m"
  shows "reopened m m''"
  using assms by (auto simp: reopened_def same_view_def touched_def)

lemma open_one_reopened: "reopened m (snd (open_one l m))"
  by (auto simp: open_one_def reopened_def intro!: touched_touch split: option.splits)

lemma close_one_reopened: "reopened m (snd (close_one l m))"
  by (auto simp: close_one_def reopened_def intro!: touched_touch split: option.splits)

lemma toggle_one_reopened: "reopened m (snd (toggle_one l m))"
  by (simp add: toggle_one_def open_one_reopened close_one_reopened)

lemma switch_recursive_reopened: "reopened m (snd (switch_recursive b l m))"
proof -
  obtain changed folds where s: "switch_all b (chain (fm_folds m) l) (False, fm_folds m) = (changed, folds)"
    by fastforce
  then show ?thesis
    using switch_all_ranges [of b "chain (fm_folds m) l" "(False, fm_folds m)"]
    by (cases changed) (auto simp: switch_recursive_def reopened_def same_view_def touched_touch)
qed

lemma toggle_recursive_reopened: "reopened m (snd (toggle_recursive l m))"
  by (simp add: toggle_recursive_def open_recursive_def close_recursive_def switch_recursive_reopened)

lemma reopened_generation: "reopened m m' \<Longrightarrow> fm_generation m < fm_next_generation m \<Longrightarrow>
    fm_generation m' < fm_next_generation m'"
  by (auto simp: reopened_def same_view_def touched_def)

lemma reveal_loop_reopened:
  "fm_generation m < fm_next_generation m \<Longrightarrow> reopened m (snd (reveal_loop l changed m))"
proof (induction l changed m rule: reveal_loop.induct)
  case (1 line changed m)
  have 2: "reopened m (snd (open_one line m))" by (rule open_one_reopened)
  show ?case
  proof (cases "(is_line_hidden m line \<or> closed_fold_at m line \<noteq> None) \<and> fst (open_one line m)")
    case True
    then have "reveal_loop line changed m = reveal_loop line True (snd (open_one line m))"
      by (subst reveal_loop.simps) auto
    then show ?thesis
      using "1.IH" True reopened_trans [OF 2 _ "1.prems"] reopened_generation [OF 2 "1.prems"] by auto
  next
    case False
    then show ?thesis using 2 by (subst reveal_loop.simps) auto
  qed
qed

lemma length_nesting_loop [simp]: "length (nesting_loop ends fs) = length fs"
  by (induction ends fs rule: nesting_loop.induct) (auto simp: Let_def)

lemma map_pairs_ranges:
  assumes "length levels = length folds" "\<And>f d. bf_range (F (f, d)) = bf_range f"
  shows "map bf_range (map F (zip folds levels)) = map bf_range folds"
  using assms by (induction folds levels rule: list_induct2') auto

lemma map_pairs_unchanged:
  assumes "length levels = length folds" "\<forall>(f, d) \<in> set (zip folds levels). F (f, d) = f"
  shows "map F (zip folds levels) = folds"
  using assms by (induction folds levels rule: list_induct2') auto

lemma open_same: "bf_open f = b \<Longrightarrow> f\<lparr>bf_open := b\<rparr> = f"
  by auto

lemma apply_foldlevel_reopened: "reopened m (apply_foldlevel m)"
proof -
  define pairs where "pairs = zip (fm_folds m) (nesting_levels m)"
  define F where "F = (\<lambda>(f :: buf_fold, depth). f\<lparr>bf_open := (depth \<le> foldlevel m)\<rparr>)"
  have eq: "apply_foldlevel m =
      (let m' = m\<lparr>fm_folds := map F pairs\<rparr>
       in if list_ex (\<lambda>(f, depth). bf_open f \<noteq> (depth \<le> foldlevel m)) pairs then touch m' else m')"
    by (simp add: apply_foldlevel_def pairs_def F_def Let_def)
  have ranges: "map bf_range (map F pairs) = map bf_range (fm_folds m)"
    unfolding pairs_def by (rule map_pairs_ranges) (simp_all add: nesting_levels_def F_def bf_range_def)
  show ?thesis
  proof (cases "list_ex (\<lambda>(f, depth). bf_open f \<noteq> (depth \<le> foldlevel m)) pairs")
    case True
    then show ?thesis
      using ranges by (simp add: eq Let_def reopened_def touched_touch)
  next
    case False
    have "F p = fst p" if "p \<in> set pairs" for p
      using False that by (cases p) (fastforce simp: F_def list_ex_iff intro: open_same)
    then have "map F pairs = fm_folds m"
      unfolding pairs_def by (intro map_pairs_unchanged) (auto simp: nesting_levels_def)
    then show ?thesis using False by (simp add: eq Let_def)
  qed
qed

lemma foldlevel_change_reopened: "reopened m (apply_foldlevel (m\<lparr>fm_foldlevel := l\<rparr>))"
  using apply_foldlevel_reopened [of "m\<lparr>fm_foldlevel := l\<rparr>"]
  by (simp add: reopened_def same_view_def touched_def)

lemma fold_more_reopened: "reopened m (fold_more n m)"
  by (simp add: fold_more_def foldlevel_change_reopened apply_foldlevel_reopened)

lemma reopened_ok:
  assumes "reopened m m'" "folds_ok m"
  shows "folds_ok m'"
  using assms ordered_cong [of "fm_folds m'" "fm_folds m"]
  by (auto simp: reopened_def folds_ok_def same_view_def touched_def)

lemma reopened_nested: "reopened m m' \<Longrightarrow> nested (fm_folds m) \<Longrightarrow> nested (fm_folds m')"
  by (rule nested_mono [of _ "fm_folds m"]) (auto simp: reopened_def simp flip: set_map)

section \<open>Operations that change the set of folds\<close>

lemma ordered_filter: "ordered folds \<Longrightarrow> ordered (filter P folds)"
  by (simp add: ordered_def sorted_filter)

lemma ordered_sort: "ordered (sort_key fold_key folds) \<longleftrightarrow> (\<forall>f \<in> set folds. bf_start f < bf_end f)"
  by (simp add: ordered_def)

lemma ordered_starts: "ordered folds \<Longrightarrow> f \<in> set folds \<Longrightarrow> bf_start f < bf_end f"
  by (simp add: ordered_def)

lemma ordered_drop_nth: "ordered folds \<Longrightarrow> ordered (take i folds @ drop (Suc i) folds)"
proof -
  assume o: "ordered folds"
  have "sorted (map fold_key folds)" using o by (simp add: ordered_def)
  then have "sorted (take i (map fold_key folds) @ drop i (map fold_key folds))" by simp
  then have "sorted (take i (map fold_key folds) @ drop (Suc i) (map fold_key folds))"
    by (cases "drop i (map fold_key folds)")
      (auto simp: sorted_append drop_Suc simp del: append_take_drop_id simp flip: tl_drop drop_map take_map)
  then show ?thesis
    using o by (auto simp: ordered_def take_map drop_map dest: in_set_takeD in_set_dropD)
qed

lemma crossing_folds:
  "crossing (bf_range f) (bf_range g)
     \<longleftrightarrow> fold_overlaps f g \<and> \<not> fold_encloses f g \<and> \<not> fold_encloses g f"
  by (auto simp: crossing_def bf_range_def fold_overlaps_def fold_encloses_def)

lemma crossing_sym: "crossing a b = crossing b a"
  by (auto simp: crossing_def)

lemma crossing_irrefl [simp]: "\<not> crossing a a"
  by (simp add: crossing_def)

lemma nested_insert:
  assumes "nested folds" "\<forall>g \<in> set folds. \<not> crossing (bf_range g) (bf_range f)"
    "set folds' \<subseteq> insert f (set folds)"
  shows "nested folds'"
  unfolding nested_def
proof (intro ballI)
  fix g h assume "g \<in> set folds'" "h \<in> set folds'"
  then have "g = f \<or> g \<in> set folds" "h = f \<or> h \<in> set folds" using assms(3) by auto
  then show "\<not> crossing (bf_range g) (bf_range h)"
    using assms(1,2) crossing_sym [of "bf_range f" "bf_range h"] by (auto simp: nested_def)
qed

lemma create_fold_keeps:
  assumes "folds_ok m"
  shows "folds_ok (create_fold s e m)" "nested (fm_folds m) \<Longrightarrow> nested (fm_folds (create_fold s e m))"
    "create_fold s e m = m \<or> touched m (create_fold s e m)"
proof -
  define kept where "kept = filter (\<lambda>g. \<not> fold_overlaps g (fold_new s e) \<or> fold_encloses g (fold_new s e)
      \<or> fold_encloses (fold_new s e) g) (filter (\<lambda>g. \<not> (bf_start g = s \<and> bf_end g = e)) (fm_folds m))"
  have eq: "create_fold s e m = (if s \<ge> e then m
      else touch (insert_fold (fold_new s e) (m\<lparr>fm_folds := kept\<rparr>)))"
    by (simp add: create_fold_def kept_def Let_def)
  have kept: "ordered kept" "set kept \<subseteq> set (fm_folds m)"
    "\<forall>g \<in> set kept. \<not> crossing (bf_range g) (bf_range (fold_new s e))"
    using assms by (auto simp: kept_def crossing_folds folds_ok_def intro!: ordered_filter)
  show "folds_ok (create_fold s e m)"
    using assms kept(1)
    by (auto simp: eq folds_ok_touch insert_fold_def sort_folds_def ordered_sort fold_new_def ordered_def)
  show "nested (fm_folds m) \<Longrightarrow> nested (fm_folds (create_fold s e m))"
    using kept(2,3) nested_insert [of kept "fold_new s e" "sort_key fold_key (kept @ [fold_new s e])"]
      nested_mono [of kept "fm_folds m"]
    by (auto simp: eq insert_fold_def sort_folds_def)
  show "create_fold s e m = m \<or> touched m (create_fold s e m)"
    by (simp add: eq insert_fold_def sort_folds_def touched_touch)
qed

lemma shrink_keeps:
  assumes "ordered folds" "set folds \<subseteq> set (fm_folds m)"
  shows "folds_ok (touch (m\<lparr>fm_folds := folds\<rparr>))"
    "nested (fm_folds m) \<Longrightarrow> nested (fm_folds (touch (m\<lparr>fm_folds := folds\<rparr>)))"
    "touched m (touch (m\<lparr>fm_folds := folds\<rparr>))"
  using assms nested_mono [of folds "fm_folds m"]
  by (auto simp: folds_ok_touch touched_touch)

section \<open>Automatic folds\<close>

lemma set_vec_dedup [simp]: "set (dedup xs) = set xs"
  by (induction xs rule: dedup.induct) auto

lemma sorted_dedup: "sorted (map f xs) \<Longrightarrow> sorted (map f (dedup xs))"
  by (induction xs rule: dedup.induct) auto

lemma incoming_ranges_facts:
  "sorted (map range_key (incoming_ranges ranges n))"
  "set (incoming_ranges ranges n) = {r \<in> set ranges. fst r < snd r \<and> snd r < n}"
proof -
  have "(\<lambda>(s :: nat, e). (s, - int e)) = range_key" by (auto simp: range_key_def)
  then show "sorted (map range_key (incoming_ranges ranges n))"
    by (simp add: incoming_ranges_def sorted_dedup)
  show "set (incoming_ranges ranges n) = {r \<in> set ranges. fst r < snd r \<and> snd r < n}"
    by (auto simp: incoming_ranges_def)
qed

lemma fold_auto_simps [simp]:
  "bf_start (fold_auto s e b) = s" "bf_end (fold_auto s e b) = e"
  "bf_range (fold_auto s e b) = (s, e)" "bf_origin (fold_auto s e b) = Auto"
  by (simp_all add: fold_auto_def bf_range_def)

lemma crosses_manual_range:
  "crosses_manual manual f \<longleftrightarrow> (\<exists>g \<in> set manual. crossing (bf_range g) (bf_range f))"
  by (auto simp: crosses_manual_def list_ex_iff crossing_folds)

lemma sorted_dropWhile_less:
  "sorted ends \<Longrightarrow> set (dropWhile (\<lambda>e. e < (s :: nat)) ends) = {e \<in> set ends. s \<le> e}"
  by (induction ends) (auto simp: not_less dest: order_trans)

text \<open>
  \<open>A\<close> holds the ranges accepted before the candidates \<open>xs\<close>: each starts no later than the
  candidates and either ends above them all or has its end on the stack.
\<close>

lemma accept_ranges_nested:
  assumes "sorted (map range_key xs)" "\<forall>r \<in> set xs. fst r < snd r" "sorted ends"
    "\<forall>a \<in> set A. (\<forall>r \<in> set xs. fst a \<le> fst r) \<and> ((\<forall>r \<in> set xs. snd a < fst r) \<or> snd a \<in> set ends)"
  shows "(\<forall>f \<in> set (fst (accept_ranges manual previous ends xs)).
      bf_range f \<in> set xs \<and> bf_origin f = Auto \<and> (\<forall>g \<in> set manual. \<not> crossing (bf_range g) (bf_range f))
      \<and> (\<forall>a \<in> set A. \<not> crossing a (bf_range f)))
    \<and> nested (fst (accept_ranges manual previous ends xs))"
  using assms
proof (induction xs arbitrary: ends A)
  case (Cons r xs)
  obtain s e where r: "r = (s, e)" by fastforce
  define ends' where "ends' = dropWhile (\<lambda>t. t < s) ends"
  have ends': "sorted ends'" "set ends' = {t \<in> set ends. s \<le> t}"
    using Cons.prems(3) by (simp_all add: ends'_def sorted_dropWhile sorted_dropWhile_less)
  have later: "\<forall>q \<in> set xs. s \<le> fst q"
    using Cons.prems(1) r by (auto simp: range_key_def)
  have xs: "sorted (map range_key xs)" "\<forall>r \<in> set xs. fst r < snd r"
    using Cons.prems(1,2) by simp_all
  show ?case
  proof (cases "(ends' \<noteq> [] \<and> hd ends' < e) \<or> crosses_manual manual (fold_auto s e True)")
    case True
    have A: "\<forall>a \<in> set A. (\<forall>r \<in> set xs. fst a \<le> fst r) \<and> ((\<forall>r \<in> set xs. snd a < fst r) \<or> snd a \<in> set ends')"
      using Cons.prems(4) later r ends'(2) by (fastforce simp: not_le)
    have "accept_ranges manual previous ends (r # xs) = accept_ranges manual previous ends' xs"
      using True by (simp add: r Let_def flip: ends'_def)
    then show ?thesis using Cons.IH [OF xs ends'(1) A] by auto
  next
    case False
    have above: "\<forall>t \<in> set ends'. e \<le> t"
      using False ends'(1) by (cases ends') auto
    have A: "\<forall>a \<in> set ((s, e) # A). (\<forall>r \<in> set xs. fst a \<le> fst r)
        \<and> ((\<forall>r \<in> set xs. snd a < fst r) \<or> snd a \<in> set (e # ends'))"
      using Cons.prems(4) later r ends'(2) by (fastforce simp: not_le)
    have "\<not> crossing a (s, e)" if "a \<in> set A" for a
      using that Cons.prems(4) above ends'(2) r by (fastforce simp: crossing_def)
    moreover have "\<forall>g \<in> set manual. \<not> crossing (bf_range g) (s, e)"
      using False by (simp add: crosses_manual_range)
    moreover obtain b where "set (fst (accept_ranges manual previous ends (r # xs))) =
        insert (fold_auto s e b) (set (fst (accept_ranges manual previous (e # ends') xs)))"
      using False by (simp add: r Let_def case_prod_beta flip: ends'_def)
    moreover note IH = Cons.IH [OF xs _ A]
    have "sorted (e # ends')" using above ends'(1) by simp
    note IH [OF this]
    ultimately show ?thesis
      using nested_insert [of "fst (accept_ranges manual previous (e # ends') xs)" "fold_auto s e b"
          "fst (accept_ranges manual previous ends (r # xs))"]
      by (auto simp: r crossing_sym)
  qed
qed (simp add: nested_def)

lemma map_range_level_fresh [simp]: "map bf_range (fm_folds (level_fresh fresh m)) = map bf_range (fm_folds m)"
proof (cases "fm_foldlevel m")
  case (Some l)
  show ?thesis
    unfolding level_fresh_def Let_def Some fold_manager.select_convs fold_manager.update_convs
    by (simp del: map_map) (rule map_pairs_ranges; simp add: nesting_levels_def)
qed (simp add: level_fresh_def)

lemma level_fresh_simps [simp]:
  "fm_enabled (level_fresh fresh m) = fm_enabled m" "fm_generation (level_fresh fresh m) = fm_generation m"
  "fm_closed (level_fresh fresh m) = fm_closed m"
  "fm_next_generation (level_fresh fresh m) = fm_next_generation m"
  by (simp_all add: level_fresh_def Let_def)

lemma set_auto_keeps:
  assumes "folds_ok m"
  shows "folds_ok (set_auto_folds_from ranges n v src m)"
    "nested (fm_folds m) \<Longrightarrow> nested (fm_folds (set_auto_folds_from ranges n v src m))"
    "same_view m (set_auto_folds_from ranges n v src m)
     \<or> touched m (set_auto_folds_from ranges n v src m)"
proof -
  define manual where "manual = filter (\<lambda>f. bf_origin f = Manual) (fm_folds m)"
  define auto where "auto = filter (\<lambda>f. bf_origin f \<noteq> Manual) (fm_folds m)"
  obtain accepted fresh where a: "accept_ranges manual (previous_state auto) [] (incoming_ranges ranges n)
      = (accepted, fresh)" by fastforce
  define m1 where "m1 = level_fresh fresh
      (sort_folds (m\<lparr>fm_source := src, fm_folds := manual @ accepted\<rparr>))"
  define m2 where "m2 = m1\<lparr>fm_synced_line_count := n, fm_auto_version := Some v\<rparr>"
  have eq: "set_auto_folds_from ranges n v src m = (if fm_folds m2 \<noteq> fm_folds m then touch m2 else m2)"
    using a by (simp add: set_auto_folds_from_def Let_def m1_def m2_def flip: manual_def auto_def)
  have acc: "\<forall>f \<in> set accepted. bf_range f \<in> set (incoming_ranges ranges n)
        \<and> (\<forall>g \<in> set manual. \<not> crossing (bf_range g) (bf_range f))" "nested accepted"
    using accept_ranges_nested [of "incoming_ranges ranges n" "[]" "[]" manual "previous_state auto"] a
    by (auto simp: incoming_ranges_facts)
  have ranges: "map bf_range (fm_folds m2) = map bf_range (sort_key fold_key (manual @ accepted))"
    by (simp add: m2_def m1_def sort_folds_def)
  have "\<forall>f \<in> set (manual @ accepted). bf_start f < bf_end f"
    using acc(1) assms
    by (auto simp: manual_def folds_ok_def ordered_def incoming_ranges_facts bf_range_def)
  then have ord: "ordered (fm_folds m2)"
    using ordered_cong [OF ranges] by (simp add: ordered_sort)
  have view: "fm_enabled m2 = fm_enabled m" "fm_generation m2 = fm_generation m"
    "fm_closed m2 = fm_closed m" "fm_next_generation m2 = fm_next_generation m"
    by (simp_all add: m2_def m1_def sort_folds_def)
  show "folds_ok (set_auto_folds_from ranges n v src m)"
    using assms ord view by (cases "fm_folds m2 = fm_folds m") (simp_all add: eq folds_ok_touch, simp add: folds_ok_def)
  show "same_view m (set_auto_folds_from ranges n v src m)
      \<or> touched m (set_auto_folds_from ranges n v src m)"
    using view by (simp add: eq touched_touch same_view_def)
  assume nest: "nested (fm_folds m)"
  have "nested manual" using nest by (auto simp: nested_def manual_def)
  then have "nested (manual @ accepted)"
    using acc crossing_sym [of "bf_range f" "bf_range g" for f g]
    unfolding nested_def set_append by (metis Un_iff)
  then have "nested (fm_folds m2)"
    by (rule nested_mono [rotated]) (use arg_cong [OF ranges, of set] in simp)
  then show "nested (fm_folds (set_auto_folds_from ranges n v src m))" by (simp add: eq nest)
qed

lemma adjust_keeps:
  assumes "folds_ok m"
  shows "folds_ok (adjust_for_line_count n pivot m)"
    "same_view m (adjust_for_line_count n pivot m) \<or> touched m (adjust_for_line_count n pivot m)"
  using assms
  by (auto simp: adjust_for_line_count_def Let_def folds_ok_touch sort_folds_def ordered_sort same_view_def
      intro!: touched_touch) (simp_all add: folds_ok_def)

section \<open>Sessions\<close>

text \<open>
  Everything that can happen to a buffer's folds: the editor's calls, queries that fill the index,
  and draws from the static generation counter by the managers of other buffers.
\<close>

datatype fold_op =
    CreateFold nat nat | SetEnabled bool | OpenOne nat | CloseOne nat | ToggleOne nat
  | OpenRecursive nat | CloseRecursive nat | ToggleRecursive nat | Reveal nat
  | OpenAll | CloseAll | ReduceFolding nat | FoldMore nat | ReapplyFoldlevel
  | DeleteFoldAt nat | DeleteRecursive nat | DeleteAll
  | SetAutoFolds "(nat \<times> nat) list" nat nat fold_source
  | AdjustForLineCount nat nat | NoteLineCount nat | Activate | Query | OtherBuffers nat

fun fold_step :: "fold_op \<Rightarrow> fold_manager \<Rightarrow> fold_manager" where
  "fold_step (CreateFold s e) m = create_fold s e m"
| "fold_step (SetEnabled b) m = set_enabled b m"
| "fold_step (OpenOne l) m = snd (open_one l m)"
| "fold_step (CloseOne l) m = snd (close_one l m)"
| "fold_step (ToggleOne l) m = snd (toggle_one l m)"
| "fold_step (OpenRecursive l) m = snd (open_recursive l m)"
| "fold_step (CloseRecursive l) m = snd (close_recursive l m)"
| "fold_step (ToggleRecursive l) m = snd (toggle_recursive l m)"
| "fold_step (Reveal l) m = snd (reveal l m)"
| "fold_step OpenAll m = open_all m"
| "fold_step CloseAll m = close_all m"
| "fold_step (ReduceFolding n) m = reduce_folding n m"
| "fold_step (FoldMore n) m = fold_more n m"
| "fold_step ReapplyFoldlevel m = apply_foldlevel m"
| "fold_step (DeleteFoldAt l) m = delete_fold_at l m"
| "fold_step (DeleteRecursive l) m = delete_recursive l m"
| "fold_step DeleteAll m = delete_all_folds m"
| "fold_step (SetAutoFolds ranges n v src) m = set_auto_folds_from ranges n v src m"
| "fold_step (AdjustForLineCount n pivot) m = adjust_for_line_count n pivot m"
| "fold_step (NoteLineCount n) m = m\<lparr>fm_synced_line_count := n\<rparr>"
| "fold_step Activate m = m\<lparr>fm_active := True\<rparr>"
| "fold_step Query m = fill_index m"
| "fold_step (OtherBuffers n) m = m\<lparr>fm_next_generation := fm_next_generation m + n\<rparr>"

definition fold_run :: "fold_op list \<Rightarrow> fold_manager \<Rightarrow> fold_manager" where
  "fold_run ops m = List.fold fold_step ops m"

text \<open>What a step does to the view that a cache keyed on the generation relies on.\<close>

definition view_step :: "fold_manager \<Rightarrow> fold_manager \<Rightarrow> bool" where
  "view_step m m' \<longleftrightarrow>
     fm_next_generation m \<le> fm_next_generation m'
     \<and> (fm_generation m' = fm_generation m \<and> fm_folds m' = fm_folds m \<and> fm_enabled m' = fm_enabled m
        \<or> fm_next_generation m \<le> fm_generation m')"

lemma same_view_step: "same_view m m' \<Longrightarrow> view_step m m'"
  by (simp add: same_view_def view_step_def)

lemma touched_step: "touched m m' \<Longrightarrow> view_step m m'"
  by (auto simp: touched_def view_step_def)

definition keeps :: "fold_manager \<Rightarrow> fold_manager \<Rightarrow> bool" where
  "keeps m m' \<longleftrightarrow> folds_ok m' \<and> view_step m m'"

lemma reopened_keeps: "reopened m m' \<Longrightarrow> folds_ok m \<Longrightarrow> keeps m m'"
  unfolding keeps_def
  using reopened_ok [of m m'] by (auto simp: reopened_def same_view_step touched_step)

lemma delete_fold_at_keeps:
  assumes "folds_ok m"
  shows "keeps m (delete_fold_at l m)" "nested (fm_folds m) \<Longrightarrow> nested (fm_folds (delete_fold_at l m))"
proof -
  define i where "i = last (chain (fm_folds m) l)"
  let ?fs = "take i (fm_folds m) @ drop (Suc i) (fm_folds m)"
  have o: "ordered ?fs" "set ?fs \<subseteq> set (fm_folds m)"
    using ordered_drop_nth [OF folds_ok_ordered [OF assms]] by (auto dest: in_set_takeD in_set_dropD)
  show "keeps m (delete_fold_at l m)" "nested (fm_folds m) \<Longrightarrow> nested (fm_folds (delete_fold_at l m))"
    using assms shrink_keeps [OF o]
    by (simp_all add: delete_fold_at_def Let_def keeps_def touched_step same_view_step flip: i_def)
qed

lemma delete_recursive_keeps:
  assumes "folds_ok m"
  shows "keeps m (delete_recursive l m)" "nested (fm_folds m) \<Longrightarrow> nested (fm_folds (delete_recursive l m))"
proof -
  have o: "ordered (filter P (fm_folds m))" "set (filter P (fm_folds m)) \<subseteq> set (fm_folds m)" for P
    using assms by (auto simp: ordered_filter folds_ok_ordered)
  show "keeps m (delete_recursive l m)" "nested (fm_folds m) \<Longrightarrow> nested (fm_folds (delete_recursive l m))"
    using assms shrink_keeps [OF o]
    by (auto simp: delete_recursive_def Let_def keeps_def touched_step same_view_step split: list.splits)
qed

text \<open>Every operation that only opens and closes folds.\<close>

fun only_reopens :: "fold_op \<Rightarrow> bool" where
  "only_reopens op =
     (case op of OpenOne _ \<Rightarrow> True | CloseOne _ \<Rightarrow> True | ToggleOne _ \<Rightarrow> True | OpenRecursive _ \<Rightarrow> True
      | CloseRecursive _ \<Rightarrow> True | ToggleRecursive _ \<Rightarrow> True | Reveal _ \<Rightarrow> True | OpenAll \<Rightarrow> True
      | CloseAll \<Rightarrow> True | ReduceFolding _ \<Rightarrow> True | FoldMore _ \<Rightarrow> True | ReapplyFoldlevel \<Rightarrow> True
      | NoteLineCount _ \<Rightarrow> True | Activate \<Rightarrow> True | _ \<Rightarrow> False)"

lemma reopened_view:
  "reopened m (m\<lparr>fm_synced_line_count := n\<rparr>)" "reopened m (m\<lparr>fm_active := b\<rparr>)"
  by (simp_all add: reopened_def same_view_def)

lemma only_reopens_step:
  "only_reopens op \<Longrightarrow> folds_ok m \<Longrightarrow> reopened m (fold_step op m)"
  by (cases op)
    (simp_all add: open_one_reopened close_one_reopened toggle_one_reopened open_recursive_def
      close_recursive_def switch_recursive_reopened toggle_recursive_reopened reveal_def folds_ok_def
      reveal_loop_reopened open_all_def close_all_def reduce_folding_def foldlevel_change_reopened
      fold_more_reopened apply_foldlevel_reopened reopened_view)

lemma fold_step_keeps: "folds_ok m \<Longrightarrow> keeps m (fold_step op m)"
proof (cases "only_reopens op")
  case True
  then show "folds_ok m \<Longrightarrow> ?thesis" using only_reopens_step reopened_keeps by blast
next
  case False
  assume ok: "folds_ok m"
  show ?thesis
  proof (cases op)
    case (CreateFold s e)
    then show ?thesis
      using create_fold_keeps [OF ok, of s e] by (auto simp: keeps_def touched_step same_view_step)
  next
    case (SetAutoFolds ranges n v src)
    then show ?thesis
      using set_auto_keeps(1,3) [OF ok, of ranges n v src]
      by (auto simp: keeps_def touched_step same_view_step)
  next
    case (AdjustForLineCount n pivot)
    then show ?thesis
      using adjust_keeps [OF ok, of n pivot] by (auto simp: keeps_def touched_step same_view_step)
  next
    case (DeleteFoldAt l)
    then show ?thesis using delete_fold_at_keeps [OF ok] by simp
  next
    case (DeleteRecursive l)
    then show ?thesis using delete_recursive_keeps [OF ok] by simp
  qed (use ok False in \<open>auto simp: keeps_def delete_all_folds_def set_enabled_def folds_ok_touch fill_index_def
      folds_ok_def view_step_def ordered_def the_closed_index_def split: option.splits\<close>)
qed

lemma fold_step_nested:
  assumes "folds_ok m" "nested (fm_folds m)" "\<forall>n p. op \<noteq> AdjustForLineCount n p"
  shows "nested (fm_folds (fold_step op m))"
proof (cases "only_reopens op")
  case True
  then show ?thesis using only_reopens_step [OF True assms(1)] assms(2) reopened_nested by blast
next
  case False
  show ?thesis
  proof (cases op)
    case (CreateFold s e)
    then show ?thesis using create_fold_keeps(2) [OF assms(1,2)] by simp
  next
    case (SetAutoFolds ranges n v src)
    then show ?thesis using set_auto_keeps(2) [OF assms(1,2)] by simp
  next
    case (DeleteFoldAt l)
    then show ?thesis using delete_fold_at_keeps(2) [OF assms(1,2)] by simp
  next
    case (DeleteRecursive l)
    then show ?thesis using delete_recursive_keeps(2) [OF assms(1,2)] by simp
  next
    case DeleteAll
    then show ?thesis by (simp add: delete_all_folds_def nested_def)
  qed (use assms False in \<open>simp_all add: set_enabled_def fill_index_def\<close>)
qed

lemma view_step_trans:
  "view_step m m' \<Longrightarrow> view_step m' m'' \<Longrightarrow> view_step m m''"
  by (auto simp: view_step_def)

lemma fold_run_keeps: "folds_ok m \<Longrightarrow> keeps m (fold_run ops m)"
proof (induction ops arbitrary: m)
  case (Cons op ops)
  then show ?case
    using fold_step_keeps [OF Cons.prems, of op] Cons.IH [of "fold_step op m"]
      view_step_trans [of m "fold_step op m"]
    by (simp add: fold_run_def keeps_def)
qed (simp add: fold_run_def keeps_def view_step_def)

lemma fold_run_nested:
  assumes "folds_ok m" "nested (fm_folds m)" "\<forall>n p. AdjustForLineCount n p \<notin> set ops"
  shows "nested (fm_folds (fold_run ops m))"
  using assms
proof (induction ops arbitrary: m)
  case (Cons op ops)
  then show ?case
    using fold_step_keeps [OF Cons.prems(1), of op] fold_step_nested [OF Cons.prems(1,2), of op]
    by (auto simp: fold_run_def keeps_def)
qed (simp add: fold_run_def)

lemma folds_ok_new: "folds_ok (fold_manager_new g)" "nested (fm_folds (fold_manager_new g))"
  by (simp_all add: folds_ok_def fold_manager_new_def ordered_def nested_def)

end
