(* ===== verification/FoldTheorems.thy ===== *)
theory FoldTheorems
  imports FoldSessions
begin

text \<open>
  The properties of folding, stated for every manager a session can reach.
\<close>

section \<open>Which folds the commands open and close\<close>

lemma closed_fold_at_iff:
  "folds_ok m \<Longrightarrow> closed_fold_at m l \<noteq> None
     \<longleftrightarrow> fm_enabled m \<and> (\<exists>f \<in> set (fm_folds m). \<not> bf_open f \<and> contains_line f l)"
  by (simp add: closed_fold_at_range outer_ranges_facts(3) folds_ok_ordered covers_closed_ranges
      del: not_None_eq)

lemma set_chain: "set (chain folds l) = {i. i < length folds \<and> contains_line (folds ! i) l}"
  by (auto simp: chain_def)

lemma distinct_chain [simp]: "distinct (chain folds l)"
  by (simp add: chain_def)

definition set_under :: "nat \<Rightarrow> bool \<Rightarrow> buf_fold list \<Rightarrow> buf_fold list" where
  "set_under l b folds = map (\<lambda>f. if contains_line f l then f\<lparr>bf_open := b\<rparr> else f) folds"

lemma contains_line_open [simp]: "contains_line (f\<lparr>bf_open := b\<rparr>) l = contains_line f l"
  by (simp add: contains_line_def)

lemma set_under_with_open:
  "i < length folds \<Longrightarrow> contains_line (folds ! i) l \<Longrightarrow>
     set_under l b (with_open i c folds) = set_under l b folds"
  by (rule nth_equalityI) (auto simp: set_under_def with_open_def nth_list_update)

lemma set_under_same:
  "\<forall>f \<in> set folds. contains_line f l \<longrightarrow> bf_open f = b \<Longrightarrow> set_under l b folds = folds"
  unfolding set_under_def by (rule map_idI) (auto intro: open_same)

lemma open_one_cases:
  obtains (none) "open_one l m = (False, m)"
      "\<forall>f \<in> set (fm_folds m). contains_line f l \<longrightarrow> bf_open f"
  | (some) i where "open_one l m = (True, touch (m\<lparr>fm_folds := with_open i True (fm_folds m)\<rparr>))"
      "i < length (fm_folds m)" "contains_line (fm_folds m ! i) l" "\<not> bf_open (fm_folds m ! i)"
proof (cases "List.find (\<lambda>i. \<not> bf_open (fm_folds m ! i)) (chain (fm_folds m) l)")
  case None
  have "bf_open f" if f: "f \<in> set (fm_folds m)" "contains_line f l" for f
  proof -
    obtain i where "i < length (fm_folds m)" "fm_folds m ! i = f" using f(1) by (auto simp: in_set_conv_nth)
    then show ?thesis using None f(2) by (auto simp: find_None_iff set_chain)
  qed
  then show ?thesis using None none by (simp add: open_one_def)
next
  case (Some i)
  then show ?thesis using some find_Some_in [OF Some] by (simp add: open_one_def set_chain)
qed

lemma open_one_ok: "folds_ok m \<Longrightarrow> folds_ok (snd (open_one l m))"
  using open_one_reopened reopened_ok by blast

lemma reveal_loop_opens:
  assumes "folds_ok m"
  shows "fm_folds (snd (reveal_loop l changed m)) = (if fm_enabled m then set_under l True (fm_folds m) else fm_folds m)
    \<and> (fst (reveal_loop l changed m) \<longleftrightarrow> changed \<or> closed_fold_at m l \<noteq> None)
    \<and> fm_enabled (snd (reveal_loop l changed m)) = fm_enabled m"
  using assms
proof (induction l changed m rule: reveal_loop.induct)
  case (1 l changed m)
  have hid: "is_line_hidden m l \<Longrightarrow> closed_fold_at m l \<noteq> None"
    by (auto simp: is_line_hidden_def split: option.splits)
  show ?case
  proof (cases "closed_fold_at m l = None")
    case True
    then have "reveal_loop l changed m = (changed, m)" using hid by (subst reveal_loop.simps) auto
    moreover have "fm_enabled m \<Longrightarrow> set_under l True (fm_folds m) = fm_folds m"
      using True closed_fold_at_iff [OF "1.prems", of l] by (intro set_under_same) auto
    ultimately show ?thesis using True by simp
  next
    case False
    then have en: "fm_enabled m" and ex: "\<exists>f \<in> set (fm_folds m). \<not> bf_open f \<and> contains_line f l"
      using closed_fold_at_iff [OF "1.prems", of l] by auto
    show ?thesis
    proof (cases rule: open_one_cases [of l m])
      case none
      then show ?thesis using ex by auto
    next
      case (some i)
      have "reveal_loop l changed m = reveal_loop l True (snd (open_one l m))"
        using False some(1) by (subst reveal_loop.simps) simp
      moreover note "1.IH" [OF _ _ open_one_ok [OF "1.prems"]]
      ultimately show ?thesis using False some en by (simp add: set_under_with_open)
    qed
  qed
qed

lemma switch_all_sets:
  assumes "\<forall>i \<in> set is. i < length (snd s)" "distinct is"
  shows "length (snd (switch_all b is s)) = length (snd s)
    \<and> (\<forall>j < length (snd s). snd (switch_all b is s) ! j =
         (if j \<in> set is then (snd s ! j)\<lparr>bf_open := b\<rparr> else snd s ! j))
    \<and> (fst (switch_all b is s) \<longleftrightarrow> fst s \<or> (\<exists>i \<in> set is. bf_open (snd s ! i) \<noteq> b))"
  using assms
proof (induction b "is" s rule: switch_all.induct)
  case (2 b i "is" changed folds)
  define folds' where "folds' = (if bf_open (folds ! i) \<noteq> b then with_open i b folds else folds)"
  have step: "switch_all b (i # is) (changed, folds) = switch_all b is (changed \<or> bf_open (folds ! i) \<noteq> b, folds')"
    by (simp add: folds'_def)
  have len: "length folds' = length folds" by (simp add: folds'_def with_open_def)
  have nth: "folds' ! j = (if j = i then (folds ! j)\<lparr>bf_open := b\<rparr> else folds ! j)" if "j < length folds" for j
    using that "2.prems" by (simp add: folds'_def with_open_def nth_list_update open_same)
  have eq: "(if bf_open (folds ! i) \<noteq> b then (True, with_open i b folds) else (changed, folds)) =
      (changed \<or> bf_open (folds ! i) \<noteq> b, folds')"
    by (simp add: folds'_def)
  have "length (snd (switch_all b is (changed \<or> bf_open (folds ! i) \<noteq> b, folds'))) = length folds'
    \<and> (\<forall>j < length folds'. snd (switch_all b is (changed \<or> bf_open (folds ! i) \<noteq> b, folds')) ! j =
         (if j \<in> set is then (folds' ! j)\<lparr>bf_open := b\<rparr> else folds' ! j))
    \<and> (fst (switch_all b is (changed \<or> bf_open (folds ! i) \<noteq> b, folds')) \<longleftrightarrow>
         (changed \<or> bf_open (folds ! i) \<noteq> b) \<or> (\<exists>i \<in> set is. bf_open (folds' ! i) \<noteq> b))"
    using "2.IH" "2.prems" len unfolding eq by simp
  moreover have "(\<exists>i \<in> set is. bf_open (folds' ! i) \<noteq> b) \<longleftrightarrow> (\<exists>i \<in> set is. bf_open (folds ! i) \<noteq> b)"
    using nth "2.prems" by (intro bex_cong) auto
  ultimately show ?case
    using "2.prems" unfolding step by (auto simp: len nth simp del: switch_all.simps)
qed auto

lemma bex_nth: "(\<exists>x \<in> set xs. P x) \<longleftrightarrow> (\<exists>i < length xs. P (xs ! i))"
  by (metis in_set_conv_nth)

lemma switch_recursive_sets:
  "fm_folds (snd (switch_recursive b l m)) = set_under l b (fm_folds m)"
  "fst (switch_recursive b l m) \<longleftrightarrow> (\<exists>f \<in> set (fm_folds m). contains_line f l \<and> bf_open f \<noteq> b)"
proof -
  note sets = switch_all_sets [of "chain (fm_folds m) l" "(False, fm_folds m)" b]
  have "fm_folds (snd (switch_recursive b l m)) = snd (switch_all b (chain (fm_folds m) l) (False, fm_folds m))"
    "fst (switch_recursive b l m) = fst (switch_all b (chain (fm_folds m) l) (False, fm_folds m))"
    by (simp_all add: switch_recursive_def case_prod_beta Let_def)
  moreover have "snd (switch_all b (chain (fm_folds m) l) (False, fm_folds m)) = set_under l b (fm_folds m)"
    using sets by (intro nth_equalityI) (auto simp: set_chain set_under_def)
  moreover have "fst (switch_all b (chain (fm_folds m) l) (False, fm_folds m)) \<longleftrightarrow>
      (\<exists>i \<in> set (chain (fm_folds m) l). bf_open (fm_folds m ! i) \<noteq> b)"
    using sets by (simp add: set_chain)
  ultimately show "fm_folds (snd (switch_recursive b l m)) = set_under l b (fm_folds m)"
    "fst (switch_recursive b l m) \<longleftrightarrow> (\<exists>f \<in> set (fm_folds m). contains_line f l \<and> bf_open f \<noteq> b)"
    by (auto simp: bex_nth [of "fm_folds m"] set_chain)
qed

text \<open>\<open>zc\<close> closes the last fold of the chain of open folds.\<close>

lemma close_target_chain:
  "close_target folds t is = (case rev (takeWhile (\<lambda>i. bf_open (folds ! i)) is) of [] \<Rightarrow> t | i # _ \<Rightarrow> Some i)"
  by (induction folds t "is" rule: close_target.induct) (auto split: list.splits)

lemma find_after_prefix:
  "takeWhile P xs = ys @ [x] \<Longrightarrow> distinct xs \<Longrightarrow> (\<And>y. y \<noteq> x \<Longrightarrow> Q y = P y) \<Longrightarrow> \<not> Q x \<Longrightarrow>
     List.find (\<lambda>y. \<not> Q y) xs = Some x"
proof (induction xs arbitrary: ys)
  case (Cons a xs)
  show ?case
  proof (cases ys)
    case Nil
    then show ?thesis using Cons.prems by (auto split: if_splits)
  next
    case (Cons b ys')
    then have "b = a" "P a" "takeWhile P xs = ys' @ [x]"
      using Cons.prems(1) by (auto split: if_splits)
    moreover have "x \<in> set xs" using calculation(3) by (metis in_set_conv_decomp set_takeWhileD)
    ultimately show ?thesis
      using Cons.IH [of ys'] Cons.prems by auto
  qed
qed simp

lemma chain_with_open [simp]: "i < length folds \<Longrightarrow> chain (with_open i b folds) l = chain folds l"
  by (auto simp: chain_def with_open_def nth_list_update intro!: filter_cong)

lemma close_then_open:
  assumes "close_one l m = (True, m')"
  shows "fst (open_one l m') \<and> fm_folds (snd (open_one l m')) = fm_folds m"
proof -
  let ?c = "chain (fm_folds m) l"
  obtain i where t: "close_target (fm_folds m) None ?c = Some i"
    and m': "m' = touch (m\<lparr>fm_folds := with_open i False (fm_folds m)\<rparr>)"
    using assms by (auto simp: close_one_def split: option.splits)
  obtain js where p: "takeWhile (\<lambda>i. bf_open (fm_folds m ! i)) ?c = js @ [i]"
    using t by (cases "takeWhile (\<lambda>i. bf_open (fm_folds m ! i)) ?c" rule: rev_cases)
      (auto simp: close_target_chain)
  then have i: "i \<in> set ?c" "bf_open (fm_folds m ! i)" by (metis in_set_conv_decomp set_takeWhileD)+
  then have len: "i < length (fm_folds m)" by (simp add: set_chain)
  have "List.find (\<lambda>j. \<not> bf_open (with_open i False (fm_folds m) ! j)) ?c = Some i"
    using p len by (intro find_after_prefix [OF p]) (auto simp: with_open_def nth_list_update)
  then have "open_one l m' = (True, touch (m'\<lparr>fm_folds := with_open i True (fm_folds m')\<rparr>))"
    using len by (simp add: open_one_def m')
  moreover have "with_open i True (with_open i False (fm_folds m)) = fm_folds m"
    using i(2) len by (simp add: with_open_def list_update_id open_same)
  ultimately show ?thesis by (simp add: m')
qed

section \<open>Nesting levels\<close>

definition depth_of :: "buf_fold list \<Rightarrow> nat \<Rightarrow> nat" where
  "depth_of folds i = length (filter (\<lambda>g. fold_encloses g (folds ! i)) (take i folds))"

lemma sorted_dropWhile_filter:
  "sorted ends \<Longrightarrow> dropWhile (\<lambda>e. e < (s :: nat)) ends = filter (\<lambda>e. s \<le> e) ends"
proof (induction ends)
  case (Cons e ends)
  have "\<not> e < s \<Longrightarrow> filter (\<lambda>e. s \<le> e) ends = ends"
    using Cons.prems by (intro filter_True) auto
  then show ?case using Cons by (cases "e < s") simp_all
qed simp

lemma encloses_earlier:
  assumes "ordered (ps @ f # fs)" "nested (ps @ f # fs)" "g \<in> set ps"
  shows "fold_encloses g f \<longleftrightarrow> bf_start f \<le> bf_end g"
proof -
  have "fold_key g \<le> fold_key f" "bf_start f < bf_end f"
    using assms(1,3) by (auto simp: ordered_def sorted_append)
  moreover have "\<not> crossing (bf_range g) (bf_range f)"
    using assms(2,3) by (simp add: nested_def)
  ultimately show ?thesis
    by (auto simp: crossing_folds fold_overlaps_def fold_encloses_def fold_key_def)
qed

lemma nesting_loop_levels:
  assumes "ordered (ps @ fs)" "nested (ps @ fs)" "sorted ends" "set ends \<subseteq> bf_end ` set ps"
    "\<forall>s. fs \<noteq> [] \<and> bf_start (hd fs) \<le> s \<longrightarrow>
       length (filter (\<lambda>e. s \<le> e) ends) = length (filter (\<lambda>g. s \<le> bf_end g) ps)"
    "i < length fs"
  shows "nesting_loop ends fs ! i = Suc (length (filter (\<lambda>g. fold_encloses g (fs ! i)) (ps @ take i fs)))"
  using assms
proof (induction fs arbitrary: ends ps i)
  case (Cons f fs)
  let ?s = "bf_start f"
  define ends1 where "ends1 = filter (\<lambda>e. ?s \<le> e) ends"
  have loop: "nesting_loop ends (f # fs) = Suc (length ends1) # nesting_loop (bf_end f # ends1) fs"
    using Cons.prems(3) by (simp add: Let_def ends1_def sorted_dropWhile_filter)
  note enc = encloses_earlier [OF Cons.prems(1,2)]
  have len: "length ends1 = length (filter (\<lambda>g. fold_encloses g f) ps)"
    using Cons.prems(5) enc by (auto simp: ends1_def cong: filter_cong)
  show ?case
  proof (cases i)
    case 0
    then show ?thesis unfolding loop by (simp add: len)
  next
    case (Suc j)
    have "\<forall>e \<in> set ends1. bf_end f \<le> e"
    proof
      fix e assume "e \<in> set ends1"
      then obtain g where g: "g \<in> set ps" "e = bf_end g" "?s \<le> bf_end g"
        using Cons.prems(4) by (auto simp: ends1_def)
      then show "bf_end f \<le> e" using enc [OF g(1)] by (simp add: fold_encloses_def)
    qed
    then have "sorted (bf_end f # ends1)"
      using Cons.prems(3) by (simp add: ends1_def sorted_filter [where f = "\<lambda>x. x", simplified])
    moreover have "set (bf_end f # ends1) \<subseteq> bf_end ` set (ps @ [f])"
      using Cons.prems(4) by (auto simp: ends1_def)
    moreover have "\<forall>s. fs \<noteq> [] \<and> bf_start (hd fs) \<le> s \<longrightarrow>
       length (filter (\<lambda>e. s \<le> e) (bf_end f # ends1)) = length (filter (\<lambda>g. s \<le> bf_end g) (ps @ [f]))"
    proof (intro allI impI)
      fix s assume s: "fs \<noteq> [] \<and> bf_start (hd fs) \<le> s"
      have "fold_key f \<le> fold_key (hd fs)"
        using Cons.prems(1) s by (auto simp: ordered_def sorted_append)
      then have "?s \<le> s" using s by (auto simp: fold_key_def)
      moreover from this have "filter (\<lambda>e. s \<le> e) ends1 = filter (\<lambda>e. s \<le> e) ends"
        by (auto simp: ends1_def intro!: filter_cong)
      ultimately show "length (filter (\<lambda>e. s \<le> e) (bf_end f # ends1)) =
          length (filter (\<lambda>g. s \<le> bf_end g) (ps @ [f]))"
        using Cons.prems(5) by simp
    qed
    ultimately have "nesting_loop (bf_end f # ends1) fs ! j =
        Suc (length (filter (\<lambda>g. fold_encloses g (fs ! j)) ((ps @ [f]) @ take j fs)))"
      using Cons.prems(1,2,6) Suc by (intro Cons.IH) simp_all
    then show ?thesis unfolding loop Suc by simp
  qed
qed simp

lemma nesting_levels_depth:
  assumes "folds_ok m" "nested (fm_folds m)" "i < length (fm_folds m)"
  shows "nesting_levels m ! i = Suc (depth_of (fm_folds m) i)"
  using nesting_loop_levels [of "[]" "fm_folds m" "[]" i] assms
  by (simp add: nesting_levels_def depth_of_def folds_ok_def)

lemma foldl_max_ge: "x \<in> set xs \<or> x \<le> a \<Longrightarrow> x \<le> foldl max (a :: nat) xs"
  by (induction xs arbitrary: a) (auto simp: max_def le_max_iff_disj)

lemma deepest_nesting_bound: "i < length (fm_folds m) \<Longrightarrow> nesting_levels m ! i \<le> deepest_nesting m"
  unfolding deepest_nesting_def by (rule foldl_max_ge) (simp add: nesting_levels_def)

lemma apply_foldlevel_folds:
  "fm_folds (apply_foldlevel m) = map (\<lambda>(f, depth). f\<lparr>bf_open := (depth \<le> foldlevel m)\<rparr>) (zip (fm_folds m) (nesting_levels m))"
  "fm_foldlevel (apply_foldlevel m) = fm_foldlevel m"
  by (simp_all add: apply_foldlevel_def Let_def)

lemma apply_foldlevel_nth:
  assumes "i < length (fm_folds m)"
  shows "fm_folds (apply_foldlevel m) ! i =
    (fm_folds m ! i)\<lparr>bf_open := (nesting_levels m ! i \<le> foldlevel m)\<rparr>"
  using assms by (simp add: apply_foldlevel_folds nesting_levels_def)

lemma length_apply_foldlevel [simp]: "length (fm_folds (apply_foldlevel m)) = length (fm_folds m)"
  by (simp add: apply_foldlevel_folds nesting_levels_def)

lemma nesting_levels_foldlevel [simp]:
  "nesting_levels (m\<lparr>fm_foldlevel := l\<rparr>) = nesting_levels m"
  "deepest_nesting (m\<lparr>fm_foldlevel := l\<rparr>) = deepest_nesting m"
  "foldlevel (m\<lparr>fm_foldlevel := Some k\<rparr>) = k"
  by (simp_all add: nesting_levels_def deepest_nesting_def foldlevel_def)

section \<open>Indentation\<close>

text \<open>
  Line \<open>s\<close> heads a fold to line \<open>e\<close>: the lines between are blank or indented deeper than the header,
  \<open>e\<close> is one of the deeper ones, and the next line that is not blank is not deeper.
\<close>

definition fold_body :: "nat option list \<Rightarrow> nat \<Rightarrow> nat \<Rightarrow> bool" where
  "fold_body ind s e \<longleftrightarrow> s < e \<and> e < length ind \<and> ind ! e \<noteq> None \<and>
     (\<exists>h. ind ! s = Some h
        \<and> (\<forall>k. s < k \<and> k \<le> e \<longrightarrow> (\<forall>w. ind ! k = Some w \<longrightarrow> h < w))
        \<and> (\<forall>k w. e < k \<and> k < length ind \<and> (\<forall>j. e < j \<and> j < k \<longrightarrow> ind ! j = None) \<and> ind ! k = Some w
             \<longrightarrow> w \<le> h))"

lemma fold_body_last:
  assumes "fold_body ind s e" "s < d" "d < length ind" "ind ! d \<noteq> None"
    "\<forall>k h. s < k \<and> k \<le> d \<and> ind ! s = Some h \<longrightarrow> (\<forall>w. ind ! k = Some w \<longrightarrow> h < w)"
  shows "d \<le> e"
proof (rule ccontr)
  assume "\<not> d \<le> e"
  then have d: "e < d \<and> ind ! d \<noteq> None" using assms(4) by simp
  define k where "k = (LEAST k. e < k \<and> ind ! k \<noteq> None)"
  have k: "e < k" "ind ! k \<noteq> None" "k \<le> d"
    unfolding k_def using LeastI [of "\<lambda>k. e < k \<and> ind ! k \<noteq> None", OF d] Least_le [of "\<lambda>k. e < k \<and> ind ! k \<noteq> None", OF d]
    by auto
  have none: "ind ! j = None" if "e < j" "j < k" for j
    using not_less_Least [of j "\<lambda>k. e < k \<and> ind ! k \<noteq> None"] that by (auto simp: k_def)
  obtain h where h: "ind ! s = Some h" "s < e"
    "\<forall>k w. e < k \<and> k < length ind \<and> (\<forall>j. e < j \<and> j < k \<longrightarrow> ind ! j = None) \<and> ind ! k = Some w
       \<longrightarrow> w \<le> h"
    using assms(1) unfolding fold_body_def by blast
  obtain w where w: "ind ! k = Some w" using k(2) by auto
  have "e < k \<and> k < length ind \<and> (\<forall>j. e < j \<and> j < k \<longrightarrow> ind ! j = None) \<and> ind ! k = Some w"
    using none k w assms(3) by simp
  then have "w \<le> h" using h(3) by blast
  moreover have "s < k \<and> k \<le> d \<and> ind ! s = Some h" using h(1,2) k by simp
  then have "h < w" using assms(5) w by blast
  ultimately show False by simp
qed

lemma fold_body_unique:
  assumes "fold_body ind s e" "fold_body ind s d"
  shows "d = e"
proof -
  have "d \<le> e" using assms(1) by (rule fold_body_last) (use assms(2) in \<open>auto simp: fold_body_def\<close>)
  moreover have "e \<le> d" using assms(2) by (rule fold_body_last) (use assms(1) in \<open>auto simp: fold_body_def\<close>)
  ultimately show ?thesis by simp
qed

lemma indent_end_body:
  assumes "ind ! s = Some h" "s < line" "line \<le> length ind"
    "\<forall>k. s < k \<and> k < line \<longrightarrow> (\<forall>w. ind ! k = Some w \<longrightarrow> h < w)"
    "case acc of None \<Rightarrow> \<forall>k. s < k \<and> k < line \<longrightarrow> ind ! k = None
     | Some e \<Rightarrow> s < e \<and> e < line \<and> ind ! e \<noteq> None \<and> (\<forall>k. e < k \<and> k < line \<longrightarrow> ind ! k = None)"
  shows "case indent_end h line acc (drop line ind) of
      None \<Rightarrow> \<forall>e. \<not> fold_body ind s e
    | Some e \<Rightarrow> fold_body ind s e"
  using assms(2-)
proof (induction "length ind - line" arbitrary: line acc)
  case 0
  then have "drop line ind = []" "line = length ind" by simp_all
  then show ?case
    using 0 assms(1) by (cases acc) (auto simp: fold_body_def)
next
  case (Suc n)
  then have line: "line < length ind" by simp
  then have d: "drop line ind = ind ! line # drop (Suc line) ind" by (simp add: Cons_nth_drop_Suc)
  show ?case
  proof (cases "ind ! line")
    case None
    have "case indent_end h (Suc line) acc (drop (Suc line) ind) of
        None \<Rightarrow> \<forall>e. \<not> fold_body ind s e | Some e \<Rightarrow> fold_body ind s e"
      by (rule Suc.hyps(1))
        (use Suc.hyps(2) Suc.prems None line in \<open>auto simp: less_Suc_eq split: option.splits\<close>)
    then show ?thesis by (simp add: d None)
  next
    case (Some w)
    show ?thesis
    proof (cases "h < w")
      case True
      have "case indent_end h (Suc line) (Some line) (drop (Suc line) ind) of
          None \<Rightarrow> \<forall>e. \<not> fold_body ind s e | Some e \<Rightarrow> fold_body ind s e"
        by (rule Suc.hyps(1))
          (use Suc.hyps(2) Suc.prems Some True line in \<open>auto simp: less_Suc_eq\<close>)
      then show ?thesis using True by (simp add: d Some)
    next
      case False
      have stop: "e < line" if "fold_body ind s e" for e
      proof (rule ccontr)
        assume "\<not> e < line"
        then show False using that assms(1) Some False Suc.prems(1) by (auto simp: fold_body_def)
      qed
      show ?thesis
      proof (cases acc)
        case None
        have "\<not> fold_body ind s e" for e
        proof
          assume b: "fold_body ind s e"
          then have e: "s < e" "ind ! e \<noteq> None" by (auto simp: fold_body_def)
          then show False using Suc.prems(4) None stop [OF b] by simp
        qed
        then show ?thesis using False None by (simp add: d Some)
      next
        case (Some e)
        have "fold_body ind s e"
          unfolding fold_body_def
        proof (intro conjI exI [of _ h] allI impI)
          fix k v assume k: "e < k \<and> k < length ind \<and> (\<forall>j. e < j \<and> j < k \<longrightarrow> ind ! j = None) \<and> ind ! k = Some v"
          have "\<not> k < line" using k Suc.prems(4) Some by auto
          moreover have "\<not> line < k"
            using k Suc.prems(4) Some \<open>ind ! line = Some w\<close> by auto
          ultimately have "k = line" by simp
          then show "v \<le> h" using k False \<open>ind ! line = Some w\<close> by simp
        qed (use assms(1) Suc.prems line Some in auto)
        then show ?thesis using False Some \<open>ind ! line = Some w\<close> by (simp add: d)
      qed
    qed
  qed
qed

lemma those_length: "those xs = Some ys \<Longrightarrow> length ys = length xs"
  by (induction xs arbitrary: ys) (auto split: option.splits)

lemma indent_ranges_body:
  "line \<le> length ind \<Longrightarrow> set (indent_ranges line (drop line ind)) = {(s, e). line \<le> s \<and> fold_body ind s e}"
proof (induction "length ind - line" arbitrary: line)
  case 0
  then show ?case by (auto simp: fold_body_def)
next
  case (Suc n)
  then have line: "line < length ind" by simp
  then have d: "drop line ind = ind ! line # drop (Suc line) ind" by (simp add: Cons_nth_drop_Suc)
  have IH: "set (indent_ranges (Suc line) (drop (Suc line) ind)) = {(s, e). Suc line \<le> s \<and> fold_body ind s e}"
    using Suc.hyps line by simp
  have split: "{(s, e). line \<le> s \<and> fold_body ind s e} =
      {(s, e). Suc line \<le> s \<and> fold_body ind s e} \<union> {(line, e) | e. fold_body ind line e}"
    by (auto simp: Suc_le_eq le_less)
  show ?case
  proof (cases "ind ! line")
    case None
    then have "{(line, e) | e. fold_body ind line e} = {}" by (auto simp: fold_body_def)
    then show ?thesis by (simp add: d None IH split)
  next
    case (Some h)
    have "case indent_end h (Suc line) None (drop (Suc line) ind) of
        None \<Rightarrow> \<forall>e. \<not> fold_body ind line e | Some e \<Rightarrow> fold_body ind line e"
      by (rule indent_end_body) (use Some line in auto)
    then have body: "set (case indent_end h (Suc line) None (drop (Suc line) ind) of None \<Rightarrow> [] | Some e \<Rightarrow> [(line, e)])
        = {(line, e) | e. fold_body ind line e}"
      by (auto split: option.splits dest: fold_body_unique)
    then show ?thesis
      unfolding split IH [symmetric] body [symmetric] by (auto simp: d Some split: option.splits)
  qed
qed

text \<open>Ranges that do not cross are all accepted when no manual fold is in the way.\<close>

lemma accept_ranges_all:
  assumes "sorted (map range_key (A @ xs))" "\<forall>a \<in> set (A @ xs). \<forall>b \<in> set (A @ xs). \<not> crossing a b"
    "\<forall>r \<in> set xs. fst r < snd r" "sorted ends" "set ends \<subseteq> snd ` set A"
  shows "map bf_range (fst (accept_ranges [] previous ends xs)) = xs"
  using assms
proof (induction xs arbitrary: ends A)
  case (Cons r xs)
  obtain s e where r: "r = (s, e)" by fastforce
  define ends' where "ends' = dropWhile (\<lambda>t. t < s) ends"
  have ends': "sorted ends'" "set ends' = {t \<in> set ends. s \<le> t}"
    using Cons.prems(4) by (simp_all add: ends'_def sorted_dropWhile sorted_dropWhile_less)
  have above: "e \<le> t" if t: "t \<in> set ends'" for t
  proof -
    obtain a where a: "a \<in> set A" "snd a = t" "s \<le> t" using t ends'(2) Cons.prems(5) by auto
    have "range_key a \<le> range_key r" "\<not> crossing a r"
      using Cons.prems(1,2) a(1) by (auto simp: sorted_append)
    then show ?thesis using a by (auto simp: r range_key_def crossing_def)
  qed
  then have no: "(ends' \<noteq> [] \<and> hd ends' < e) = False" by (metis leD list.set_sel(1))
  have "map bf_range (fst (accept_ranges [] previous ends (r # xs))) =
      (s, e) # map bf_range (fst (accept_ranges [] previous (e # ends') xs))"
    by (simp add: r Let_def case_prod_beta crosses_manual_def no flip: ends'_def)
  also have "map bf_range (fst (accept_ranges [] previous (e # ends') xs)) = xs"
    using Cons.prems ends' above r by (intro Cons.IH [of "A @ [r]"]) auto
  finally show ?case by (simp add: r)
qed simp

lemma sort_Nil: "sort_key fold_key xs = [] \<longleftrightarrow> xs = []"
  by (metis length_0_conv length_sort)

lemma auto_folds_of_nested_ranges:
  assumes "\<forall>a \<in> set ranges. \<forall>b \<in> set ranges. \<not> crossing a b"
    "\<forall>(s, e) \<in> set ranges. s < e \<and> e < n"
  shows "bf_range ` set (fm_folds (set_auto_folds_from ranges n v src (fold_manager_new g))) = set ranges"
proof -
  have in_ranges: "set (incoming_ranges ranges n) = set ranges"
    using assms(2) by (auto simp: incoming_ranges_facts)
  obtain accepted fresh where a: "accept_ranges [] (previous_state []) [] (incoming_ranges ranges n)
      = (accepted, fresh)" by fastforce
  have "map bf_range (fst (accept_ranges [] (previous_state []) [] (incoming_ranges ranges n))) =
      incoming_ranges ranges n"
    using assms in_ranges incoming_ranges_facts(1) by (intro accept_ranges_all [of "[]"]) auto
  then have "bf_range ` set accepted = set ranges"
    using a in_ranges by (metis fst_conv list.set_map)
  then show ?thesis
    using a sort_Nil [of accepted]
    by (cases "accepted = []")
      (simp_all add: set_auto_folds_from_def fold_manager_new_def Let_def sort_folds_def level_fresh_def)
qed

lemma fold_bodies_nest:
  assumes "fold_body ind s e" "fold_body ind t d"
  shows "\<not> crossing (s, e) (t, d)"
proof -
  have "d \<le> e" if b: "fold_body ind s e" "fold_body ind t d" "s \<le> t" "t \<le> e" for s e t d
    using b(1)
  proof (rule fold_body_last)
    show "\<forall>k h. s < k \<and> k \<le> d \<and> ind ! s = Some h \<longrightarrow> (\<forall>w. ind ! k = Some w \<longrightarrow> h < w)"
    proof (intro allI impI)
      fix k h w assume k: "s < k \<and> k \<le> d \<and> ind ! s = Some h" "ind ! k = Some w"
      show "h < w"
      proof (cases "k \<le> e")
        case False
        obtain ht where ht: "ind ! t = Some ht" "\<And>w. t < k \<Longrightarrow> ind ! k = Some w \<Longrightarrow> ht < w"
          using b(2) k by (auto simp: fold_body_def)
        then have "h \<le> ht" using b k by (auto simp: fold_body_def le_less)
        then show ?thesis using ht(2) k False b(4) by fastforce
      qed (use b(1) k in \<open>auto simp: fold_body_def\<close>)
    qed
  qed (use b in \<open>auto simp: fold_body_def\<close>)
  from this [OF assms] this [OF assms(2,1)] show ?thesis
    by (cases "s \<le> t") (auto simp: crossing_def)
qed

section \<open>Properties\<close>

lemma fold_run_ok: "folds_ok (fold_run ops (fold_manager_new g))"
  using fold_run_keeps [OF folds_ok_new(1)] by (simp add: keeps_def)

lemma closed_fold_at_outermost:
  assumes "folds_ok m" "closed_fold_at m l = Some (s, e)"
    "f \<in> set (fm_folds m)" "\<not> bf_open f" "contains_line f l"
  shows "s \<le> bf_start f \<and> bf_end f \<le> e"
proof -
  note hides = closed_fold_at_hides [OF assms(1,2)]
  have "fm_enabled m" using assms(2) by (simp add: closed_fold_at_def split: if_splits)
  then have "is_line_hidden m k" if "bf_start f < k" "k \<le> bf_end f" for k
    using that assms(3,4) by (auto simp: is_line_hidden_inner [OF assms(1)] inner_closed_ranges)
  then have "\<not> (bf_start f < s \<and> s \<le> bf_end f)" "\<not> (bf_start f < e + 1 \<and> e + 1 \<le> bf_end f)"
    using hides(3,4) by auto
  then show ?thesis using hides(1,2) assms(5) by (auto simp: contains_line_def)
qed

lemma closed_fold_at_is_fold:
  assumes "folds_ok m" "nested (fm_folds m)" "closed_fold_at m l = Some (s, e)"
  shows "\<exists>f \<in> set (fm_folds m). \<not> bf_open f \<and> bf_start f = s \<and> bf_end f = e"
proof -
  have "(s, e) \<in> set (outer_ranges (fm_folds m))"
    using assms(3) by (auto simp: closed_fold_at_range [OF assms(1)] dest: range_at_Some split: if_splits)
  then have "(s, e) \<in> set (closed_ranges (fm_folds m))"
    using outer_ranges_nested [OF folds_ok_ordered [OF assms(1)] assms(2)] by auto
  then show ?thesis by (auto simp: closed_ranges_def bf_range_def)
qed

text \<open>
  C11. The index answers as the folds themselves would, in every session: a line is inside a closed
  fold, or hidden by one, exactly when some closed fold of the list says so, and the range reported
  encloses every closed fold around the line. While no line count was adjusted it is itself a fold.
\<close>

theorem fold_index_agrees:
  assumes "m = fold_run ops (fold_manager_new g)"
  shows "(closed_fold_at m l \<noteq> None \<longleftrightarrow>
        fm_enabled m \<and> (\<exists>f \<in> set (fm_folds m). \<not> bf_open f \<and> contains_line f l))
    \<and> (is_line_hidden m l \<longleftrightarrow>
        fm_enabled m \<and> (\<exists>f \<in> set (fm_folds m). \<not> bf_open f \<and> bf_start f < l \<and> l \<le> bf_end f))
    \<and> (\<forall>s e. closed_fold_at m l = Some (s, e) \<longrightarrow>
        (\<forall>f \<in> set (fm_folds m). \<not> bf_open f \<and> contains_line f l \<longrightarrow> s \<le> bf_start f \<and> bf_end f \<le> e)
        \<and> ((\<forall>n p. AdjustForLineCount n p \<notin> set ops) \<longrightarrow>
             (\<exists>f \<in> set (fm_folds m). \<not> bf_open f \<and> bf_start f = s \<and> bf_end f = e)))"
  using closed_fold_at_iff fold_run_ok [of ops g, folded assms] is_line_hidden_inner
    closed_fold_at_outermost closed_fold_at_is_fold fold_run_nested [OF folds_ok_new, of ops g, folded assms]
  by (simp add: inner_closed_ranges del: not_None_eq)

definition sample_session :: "fold_op list" where
  "sample_session = [SetAutoFolds [(0, 9), (2, 4), (6, 8)] 12 1 Lsp, CloseOne 3, CloseOne 3, Query]"

definition sample_folds :: fold_manager where
  "sample_folds = fold_run sample_session (fold_manager_new 1)"

lemma sample_folds_eq: "sample_folds = fold_run sample_session (fold_manager_new 1)"
  by (simp add: sample_folds_def)

lemma sample_closed: "closed_fold_at sample_folds 3 = Some (0, 9)"
  by code_simp

theorem fold_index_agrees_witness:
  "closed_fold_at sample_folds 3 = Some (0, 9)
   \<and> (\<exists>f \<in> set (fm_folds sample_folds). \<not> bf_open f \<and> bf_start f = 0 \<and> bf_end f = 9)"
  using fold_index_agrees [OF sample_folds_eq, of 3] sample_closed
  by (simp add: sample_session_def)

text \<open>
  C12. Visible lines and buffer lines correspond: the \<open>i\<close>-th visible line is visible and has visible
  index \<open>i\<close>, a visible line is found again from its index, and the number of hidden lines above a
  line is what the counts of the index add up to.
\<close>

theorem visible_lines_correspond:
  assumes "m = fold_run ops (fold_manager_new g)"
  shows "\<not> is_line_hidden m (line_at_visible_index m i)
    \<and> visible_index m (line_at_visible_index m i) = i
    \<and> (\<not> is_line_hidden m l \<longrightarrow> line_at_visible_index m (visible_index m l) = l)
    \<and> hidden_count_before m l = card {k. k < l \<and> is_line_hidden m k}"
  using fold_run_ok [of ops g, folded assms]
  by (simp add: line_at_visible_index_gap line_at_visible_index_inverse hidden_count_card)

theorem visible_lines_correspond_witness:
  "\<not> is_line_hidden sample_folds 11 \<and> line_at_visible_index sample_folds (visible_index sample_folds 11) = 11
   \<and> visible_index sample_folds 11 = 2"
proof -
  have "\<not> is_line_hidden sample_folds 11" "visible_index sample_folds 11 = 2" by code_simp+
  then show ?thesis using visible_lines_correspond [OF sample_folds_eq, of 0 11] by simp
qed

text \<open>
  \<open>j\<close> and \<open>k\<close> walk over closed folds one visible line at a time and stop only at the last visible
  line of the buffer or the first; the search for the next visible line ends and finds the first one.
\<close>

theorem cursor_walks_visible_lines:
  assumes "m = fold_run ops (fold_manager_new g)" "\<not> is_line_hidden m l"
  shows "(\<not> is_line_hidden m (step_down m l n max_line)
      \<and> (\<exists>k \<le> n. visible_index m (step_down m l n max_line) = visible_index m l + k
          \<and> (k < n \<longrightarrow> (\<forall>j. step_down m l n max_line < j \<and> j \<le> max_line \<longrightarrow> is_line_hidden m j))))
    \<and> (\<not> is_line_hidden m (step_up m l n) \<and> visible_index m (step_up m l n) = visible_index m l - n)
    \<and> (\<exists>r. next_visible_line m line count = Some r \<and>
        (case r of Some k \<Rightarrow> line \<le> k \<and> k < count \<and> \<not> is_line_hidden m k
              \<and> (\<forall>j. line \<le> j \<and> j < k \<longrightarrow> is_line_hidden m j)
         | None \<Rightarrow> \<forall>j. line \<le> j \<and> j < count \<longrightarrow> is_line_hidden m j))"
proof -
  note ok = fold_run_ok [of ops g, folded assms(1)]
  have "count - line < count + 1" by simp
  from next_visible_loop_finds [OF ok this] show ?thesis
    using step_down_walks [OF ok assms(2), of n max_line] step_up_walks [OF ok assms(2), of n]
    unfolding next_visible_line_def by blast
qed

theorem cursor_walks_visible_lines_witness:
  "\<not> is_line_hidden sample_folds 0 \<and> visible_index sample_folds (step_up sample_folds 11 1) = 1
   \<and> step_up sample_folds 11 1 = 10 \<and> step_down sample_folds 0 1 11 = 10"
proof -
  have "\<not> is_line_hidden sample_folds 11" "visible_index sample_folds 11 = 2"
    "step_up sample_folds 11 1 = 10" "step_down sample_folds 0 1 11 = 10" "\<not> is_line_hidden sample_folds 0"
    by code_simp+
  then show ?thesis
    using cursor_walks_visible_lines [OF sample_folds_eq, of 11 1] by simp
qed

text \<open>
  C13. \<open>zv\<close> ends, and opens exactly the folds around its line: afterwards no closed fold holds the
  line, and \<open>zO\<close> would have left the same folds. \<open>zO\<close> and \<open>zC\<close> set exactly the folds around the
  line, and report whether one of them changed. What \<open>zc\<close> closes, \<open>zo\<close> opens again.
\<close>

theorem fold_commands_exact:
  assumes "m = fold_run ops (fold_manager_new g)"
  shows "(fm_enabled m \<longrightarrow>
        fm_folds (snd (reveal l m)) =
          map (\<lambda>f. if contains_line f l then f\<lparr>bf_open := True\<rparr> else f) (fm_folds m)
        \<and> fm_folds (snd (open_recursive l m)) = fm_folds (snd (reveal l m))
        \<and> closed_fold_at (snd (reveal l m)) l = None
        \<and> (fst (reveal l m) \<longleftrightarrow> closed_fold_at m l \<noteq> None))
    \<and> (fm_folds (snd (close_recursive l m)) =
          map (\<lambda>f. if contains_line f l then f\<lparr>bf_open := False\<rparr> else f) (fm_folds m)
        \<and> (fst (close_recursive l m) \<longleftrightarrow> (\<exists>f \<in> set (fm_folds m). contains_line f l \<and> bf_open f)))
    \<and> (\<forall>m'. close_one l m = (True, m') \<longrightarrow>
          fst (open_one l m') \<and> fm_folds (snd (open_one l m')) = fm_folds m)"
proof -
  note ok = fold_run_ok [of ops g, folded assms]
  note rev = reveal_loop_opens [OF ok, of l False, folded reveal_def]
  have "closed_fold_at (snd (reveal l m)) l = None" if "fm_enabled m"
  proof -
    have "folds_ok (snd (reveal l m))"
      using reveal_loop_reopened [of m l False] ok reopened_ok by (auto simp: reveal_def folds_ok_def)
    then show ?thesis
      using that rev closed_fold_at_iff [of "snd (reveal l m)" l] by (auto simp: set_under_def)
  qed
  then show ?thesis
    using rev switch_recursive_sets [of True l m] switch_recursive_sets [of False l m] close_then_open
    by (simp add: open_recursive_def close_recursive_def flip: set_under_def)
qed

theorem fold_commands_exact_witness:
  "closed_fold_at (snd (reveal 3 sample_folds)) 3 = None \<and> fst (reveal 3 sample_folds)
   \<and> map bf_open (fm_folds (snd (reveal 3 sample_folds))) = [True, True, True]"
proof -
  have "fm_enabled sample_folds"
    "map bf_open (map (\<lambda>f. if contains_line f 3 then f\<lparr>bf_open := True\<rparr> else f) (fm_folds sample_folds)) =
      [True, True, True]"
    by code_simp+
  then show ?thesis
    using fold_commands_exact [OF sample_folds_eq, of 3] by (simp add: sample_closed)
qed

text \<open>
  \<open>foldlevel\<close> means what Vim means by it: after \<open>zR\<close>, \<open>zM\<close>, \<open>zr\<close>, \<open>zm\<close> and \<open>zX\<close> a fold is open
  exactly when fewer folds enclose it than \<open>foldlevel\<close>. So \<open>zM\<close> closes every fold, \<open>zR\<close> opens every
  fold, \<open>zr\<close> and \<open>zm\<close> change the level by their count within the deepest nesting and zero.
\<close>

theorem foldlevel_closes_deeper_folds:
  assumes "m = fold_run ops (fold_manager_new g)" "\<forall>n p. AdjustForLineCount n p \<notin> set ops"
    "i < length (fm_folds m)"
  shows "(bf_open (fm_folds (apply_foldlevel m) ! i) \<longleftrightarrow>
        length (filter (\<lambda>f. fold_encloses f (fm_folds m ! i)) (take i (fm_folds m))) < foldlevel m)
    \<and> \<not> bf_open (fm_folds (close_all m) ! i) \<and> bf_open (fm_folds (open_all m) ! i)
    \<and> fm_foldlevel (reduce_folding n m) = Some (min (foldlevel m + n) (deepest_nesting m))
    \<and> (foldlevel m > 0 \<longrightarrow> fm_foldlevel (fold_more n m) = Some (foldlevel m - n))
    \<and> (bf_open (fm_folds (reduce_folding n m) ! i) \<longleftrightarrow>
        length (filter (\<lambda>f. fold_encloses f (fm_folds m ! i)) (take i (fm_folds m))) < foldlevel m + n)
    \<and> (bf_open (fm_folds (fold_more n m) ! i) \<longleftrightarrow>
        length (filter (\<lambda>f. fold_encloses f (fm_folds m ! i)) (take i (fm_folds m))) < foldlevel m - n)"
proof -
  note ok = fold_run_ok [of ops g, folded assms(1)]
  have "nested (fm_folds m)" using fold_run_nested [OF folds_ok_new assms(2)] assms(1) by simp
  note depth = nesting_levels_depth [OF ok this assms(3), unfolded depth_of_def]
  note bound = deepest_nesting_bound [OF assms(3)]
  have "bf_open (fm_folds (apply_foldlevel (m\<lparr>fm_foldlevel := Some k\<rparr>)) ! i) \<longleftrightarrow> nesting_levels m ! i \<le> k" for k
    using assms(3) by (simp add: apply_foldlevel_nth)
  then show ?thesis
    using assms(3) depth bound
    by (auto simp: apply_foldlevel_nth apply_foldlevel_folds(2) close_all_def open_all_def reduce_folding_def
        fold_more_def)
qed

theorem foldlevel_closes_deeper_folds_witness:
  "\<not> bf_open (fm_folds (close_all sample_folds) ! 1) \<and> bf_open (fm_folds (open_all sample_folds) ! 1)
   \<and> fm_foldlevel (fold_more 1 (open_all sample_folds)) = Some 1"
proof -
  have 1: "1 < length (fm_folds sample_folds)" by code_simp
  have 2: "\<forall>n p. AdjustForLineCount n p \<notin> set sample_session" by (simp add: sample_session_def)
  have "fm_foldlevel (fold_more 1 (open_all sample_folds)) = Some 1" by code_simp
  then show ?thesis using foldlevel_closes_deeper_folds [OF sample_folds_eq 2 1] by simp
qed

text \<open>
  C14. In every session the folds stay in order (by start, an enclosing fold before the folds inside
  it), each covers at least two lines, and a stored index is the one of the current folds. While no
  line count is adjusted no two folds cross. Two moments with the same generation show the same folds.
\<close>

theorem fold_sessions_sound:
  assumes "m = fold_run ops (fold_manager_new g)"
  shows "sorted (map (\<lambda>f. (bf_start f, - int (bf_end f))) (fm_folds m))
    \<and> (\<forall>f \<in> set (fm_folds m). bf_start f < bf_end f)
    \<and> the_closed_index m = closed_index_build (fm_folds m)
    \<and> ((\<forall>n p. AdjustForLineCount n p \<notin> set ops) \<longrightarrow>
        (\<forall>f \<in> set (fm_folds m). \<forall>h \<in> set (fm_folds m).
           fold_overlaps f h \<longrightarrow> fold_encloses f h \<or> fold_encloses h f))
    \<and> (fm_generation (fold_run later m) = fm_generation m \<longrightarrow>
        fm_folds (fold_run later m) = fm_folds m \<and> fm_enabled (fold_run later m) = fm_enabled m)"
proof -
  note ok = fold_run_ok [of ops g, folded assms]
  have key: "fold_key = (\<lambda>f. (bf_start f, - int (bf_end f)))" by (auto simp: fold_key_def)
  have "view_step m (fold_run later m)" using fold_run_keeps [OF ok] by (simp add: keeps_def)
  then have "fm_generation (fold_run later m) = fm_generation m \<longrightarrow>
      fm_folds (fold_run later m) = fm_folds m \<and> fm_enabled (fold_run later m) = fm_enabled m"
    using ok by (auto simp: view_step_def folds_ok_def)
  moreover have "(\<forall>n p. AdjustForLineCount n p \<notin> set ops) \<longrightarrow> nested (fm_folds m)"
    using fold_run_nested [OF folds_ok_new] assms by simp
  ultimately show ?thesis
    using ok the_closed_index_eq [OF ok]
    by (auto simp: folds_ok_def ordered_def key nested_def crossing_folds)
qed

theorem fold_sessions_sound_witness:
  "the_closed_index sample_folds = closed_index_build (fm_folds sample_folds)
   \<and> fm_folds (fold_run [Query] sample_folds) = fm_folds sample_folds"
proof -
  have "fm_generation (fold_run [Query] sample_folds) = fm_generation sample_folds" by code_simp
  then show ?thesis using fold_sessions_sound [OF sample_folds_eq, of "[Query]"] by blast
qed

text \<open>
  Indentation folds: a fold runs from a line that is not blank to the last of the deeper lines
  below it, blank lines never ending it, and every such pair of lines is found. The folds nest, so
  none is dropped when the manager takes them over from an empty list.
\<close>

theorem indent_folds_exact:
  assumes "indent_fold_ranges lines tab = Some ranges" "those (map (line_indent tab) lines) = Some ind"
  shows "set ranges = {(s, e). fold_body ind s e}
    \<and> (\<forall>(s, e) \<in> set ranges. s < e \<and> e < length lines)
    \<and> bf_range ` set (fm_folds (set_auto_folds_from ranges (length lines) v Indent (fold_manager_new g)))
        = set ranges"
proof -
  have ranges: "ranges = indent_ranges 0 ind" using assms by (simp add: indent_fold_ranges_def)
  have len: "length ind = length lines" using assms(2) by (auto dest: those_length)
  have 1: "set ranges = {(s, e). fold_body ind s e}"
    using indent_ranges_body [of 0 ind] by (simp add: ranges)
  have 2: "\<forall>(s, e) \<in> set ranges. s < e \<and> e < length lines"
    by (auto simp: 1 fold_body_def len)
  have "\<forall>a \<in> set ranges. \<forall>b \<in> set ranges. \<not> crossing a b"
    unfolding 1 using fold_bodies_nest by blast
  from auto_folds_of_nested_ranges [OF this 2] 1 2 show ?thesis by blast
qed

theorem indent_folds_exact_witness:
  "set [(0, 3), (1, 2)] = {(s, e). fold_body [Some 0, Some 2, Some 4, Some 2, None, Some 0] s e}"
proof -
  let ?lines = "[rs ''a'', rs ''  b'', rs ''    c'', rs ''  d'', rs '' '', rs ''e'']"
  have "indent_fold_ranges ?lines 4 = Some [(0, 3), (1, 2)]"
    "those (map (line_indent 4) ?lines) = Some [Some 0, Some 2, Some 4, Some 2, None, Some 0]"
    by (simp_all add: indent_fold_ranges_def line_indent_def is_whitespace_def)
  from indent_folds_exact [OF this] show ?thesis by simp
qed

text \<open>
  After four lines are deleted from line 5 on, the fold of the deleted lines 6 to 8 is moved above the
  edit, to lines 2 to 4, and crosses the fold around it.
\<close>

lemma adjust_moves_folds_above_the_edit:
  "map bf_range (fm_folds (fold_run [NoteLineCount 40, CreateFold 3 30, CreateFold 6 8,
      AdjustForLineCount 36 5] (fold_manager_new 1))) = [(2, 4), (3, 26)]"
  by code_simp

end
