(* ===== verification/Windows.thy ===== *)
theory Windows
  imports TextBuffers
begin

text \<open>
  Windows (ovim-core/src/editor/window.rs): a viewport onto a buffer, the tree of splits and the
  window manager.

  \<open>'w\<close> is the type of a built \<open>WrapMap\<close>, which the window only stores. A split ratio is an \<open>f32\<close> in
  the source; \<open>new_split\<close> is the only constructor and sets 0.5. The model keeps the ratio as the
  fraction it denotes, and \<open>(height as f32 * ratio) as u16\<close> is that fraction of the height rounded
  down, which is exact for 0.5. Widths and heights are \<open>u16\<close>: the layout lemmas bound the sums.
\<close>

section \<open>A window\<close>

record 'w window =
  win_buffer_id :: nat
  win_cursor :: cursor
  win_scroll_offset :: nat
  win_scroll_subrow :: nat
  win_horizontal_offset :: nat
  win_width :: nat
  win_height :: nat
  win_wrap_map :: "'w option"
  win_wrap_decoration_generation :: nat
  win_pending_reflow_row :: "nat option"

definition window_new :: "nat \<Rightarrow> nat \<Rightarrow> nat \<Rightarrow> 'w window" where
  "window_new buffer_id width height =
     \<lparr>win_buffer_id = buffer_id, win_cursor = cursor_new 0 0, win_scroll_offset = 0,
      win_scroll_subrow = 0, win_horizontal_offset = 0, win_width = width, win_height = height,
      win_wrap_map = None, win_wrap_decoration_generation = 0, win_pending_reflow_row = None\<rparr>"

definition window_invalidate_wrap_map :: "'w window \<Rightarrow> 'w window" where
  "window_invalidate_wrap_map w = w\<lparr>win_wrap_map := None, win_wrap_decoration_generation := 0\<rparr>"

definition window_set_scroll_offset :: "nat \<Rightarrow> 'w window \<Rightarrow> 'w window" where
  "window_set_scroll_offset n w = w\<lparr>win_scroll_offset := n, win_scroll_subrow := 0\<rparr>"

definition window_set_scroll_position :: "nat \<Rightarrow> nat \<Rightarrow> 'w window \<Rightarrow> 'w window" where
  "window_set_scroll_position n subrow w = w\<lparr>win_scroll_offset := n, win_scroll_subrow := subrow\<rparr>"

definition window_set_dimensions :: "nat \<Rightarrow> nat \<Rightarrow> 'w window \<Rightarrow> 'w window" where
  "window_set_dimensions width height w = w\<lparr>win_width := width, win_height := height\<rparr>"

definition window_move_cursor :: "nat \<Rightarrow> nat \<Rightarrow> 'w window \<Rightarrow> 'w window" where
  "window_move_cursor line col w = w\<lparr>win_cursor := cursor_set_position (win_cursor w) line col\<rparr>"

text \<open>\<open>line_count\<close> is the buffer's, the only thing \<open>ensure_cursor_visible\<close> asks of it.\<close>

definition ensure_cursor_visible :: "nat \<Rightarrow> nat \<Rightarrow> 'w window \<Rightarrow> 'w window" where
  "ensure_cursor_visible line_count scrolloff w =
     (let line = cur_line (win_cursor w); visible = win_height w;
          so = min scrolloff ((visible - 1) div 2);
          max_line = line_count - 1;
          w = (if line > max_line then window_move_cursor max_line 0 w else w)
      in if line < win_scroll_offset w + so then w\<lparr>win_scroll_offset := line - so\<rparr>
         else if line + so \<ge> win_scroll_offset w + visible
         then w\<lparr>win_scroll_offset := line + so + 1 - visible\<rparr>
         else w)"

definition div_ceil :: "nat \<Rightarrow> nat \<Rightarrow> nat" where
  "div_ceil a b = (a + b - 1) div b"

definition horizontal_target :: "nat \<Rightarrow> nat \<Rightarrow> nat \<Rightarrow> nat \<Rightarrow> nat \<Rightarrow> nat" where
  "horizontal_target h_off visible_width cursor_col sidescroll so =
     (let left_bound = h_off + max so (if h_off > 0 then 1 else 0);
          right_bound = h_off + (visible_width - (so + 1))
      in if cursor_col < left_bound
         then if sidescroll = 0 then cursor_col - visible_width div 2
              else h_off - div_ceil (left_bound - cursor_col) sidescroll * sidescroll
         else if cursor_col > right_bound
         then if sidescroll = 0 then cursor_col - visible_width div 2
              else h_off + div_ceil (cursor_col - right_bound) sidescroll * sidescroll
         else h_off)"

definition ensure_cursor_visible_horizontal ::
  "nat \<Rightarrow> nat \<Rightarrow> bool \<Rightarrow> nat \<Rightarrow> nat \<Rightarrow> 'w window \<Rightarrow> bool \<times> 'w window" where
  "ensure_cursor_visible_horizontal cursor_col visible_width wrap sidescroll sidescrolloff w =
     (if wrap
      then if win_horizontal_offset w \<noteq> 0 then (True, w\<lparr>win_horizontal_offset := 0\<rparr>) else (False, w)
      else let h_off = win_horizontal_offset w;
               visible = (if visible_width = 0 then win_width w else min visible_width (win_width w));
               so = min sidescrolloff ((visible - 1) div 2);
               new_offset = horizontal_target h_off visible cursor_col sidescroll so
           in (h_off \<noteq> new_offset, w\<lparr>win_horizontal_offset := new_offset\<rparr>))"

definition scroll_down :: "nat \<Rightarrow> nat \<Rightarrow> nat \<Rightarrow> 'w window \<Rightarrow> bool \<times> 'w window" where
  "scroll_down lines line_count scrolloff w =
     (let visible = win_height w;
          new_scroll = min (win_scroll_offset w + lines) (line_count - visible);
          w = w\<lparr>win_scroll_offset := new_scroll\<rparr>;
          so = min scrolloff ((visible - 1) div 2);
          min_line = min (new_scroll + so) (line_count - 1)
      in if cur_line (win_cursor w) < min_line
         then (True, window_move_cursor min_line (cur_col (win_cursor w)) w)
         else (False, w))"

definition scroll_up :: "nat \<Rightarrow> nat \<Rightarrow> 'w window \<Rightarrow> bool \<times> 'w window" where
  "scroll_up lines scrolloff w =
     (let visible = win_height w;
          new_scroll = win_scroll_offset w - lines;
          w = w\<lparr>win_scroll_offset := new_scroll\<rparr>;
          so = min scrolloff ((visible - 1) div 2);
          max_line = new_scroll + (visible - 1) - so
      in if cur_line (win_cursor w) > max_line
         then (True, window_move_cursor max_line (cur_col (win_cursor w)) w)
         else (False, w))"

section \<open>The tree of splits\<close>

datatype split_direction = Horizontal | Vertical

datatype 'w window_node =
    Leaf "'w window"
  | Split split_direction "nat \<times> nat" "'w window_node" "'w window_node"

fun new_split :: "split_direction \<Rightarrow> 'w window_node \<Rightarrow> 'w window_node \<Rightarrow> 'w window_node" where
  "new_split direction first second = Split direction (1, 2) first second"

definition scaled :: "nat \<Rightarrow> nat \<times> nat \<Rightarrow> nat" where
  "scaled n ratio = n * fst ratio div snd ratio"

fun count_windows :: "'w window_node \<Rightarrow> nat" where
  "count_windows (Leaf _) = 1"
| "count_windows (Split _ _ first second) = count_windows first + count_windows second"

fun node_update_dimensions :: "nat \<Rightarrow> nat \<Rightarrow> nat \<Rightarrow> nat \<Rightarrow> 'w window_node \<Rightarrow> 'w window_node" where
  "node_update_dimensions x y width height (Leaf w) = Leaf (window_set_dimensions width height w)"
| "node_update_dimensions x y width height (Split Horizontal ratio first second) =
     (let first_height = scaled height ratio; second_height = height - first_height - 1
      in Split Horizontal ratio (node_update_dimensions x y width first_height first)
           (node_update_dimensions x (y + first_height + 1) width second_height second))"
| "node_update_dimensions x y width height (Split Vertical ratio first second) =
     (let first_width = scaled width ratio; second_width = width - first_width - 1
      in Split Vertical ratio (node_update_dimensions x y first_width height first)
           (node_update_dimensions (x + first_width + 1) y second_width height second))"

text \<open>The snapshot for the render walk.\<close>

record window_view =
  wv_cursor :: cursor
  wv_scroll_offset :: nat
  wv_scroll_subrow :: nat
  wv_horizontal_offset :: nat

datatype window_view_node =
    ViewLeaf window_view
  | ViewSplit split_direction "nat \<times> nat" window_view_node window_view_node

fun view_tree :: "'w window_node \<Rightarrow> window_view_node" where
  "view_tree (Leaf w) =
     ViewLeaf \<lparr>wv_cursor = win_cursor w, wv_scroll_offset = win_scroll_offset w,
       wv_scroll_subrow = win_scroll_subrow w, wv_horizontal_offset = win_horizontal_offset w\<rparr>"
| "view_tree (Split direction ratio first second) =
     ViewSplit direction ratio (view_tree first) (view_tree second)"

section \<open>The window manager\<close>

record 'w window_manager =
  wm_root :: "'w window_node"
  wm_focused :: nat
  wm_layout_width :: nat
  wm_layout_height :: nat

definition window_manager_new :: "nat \<Rightarrow> nat \<Rightarrow> nat \<Rightarrow> 'w window_manager" where
  "window_manager_new buffer_id width height =
     \<lparr>wm_root = Leaf (window_new buffer_id width height), wm_focused = 0,
      wm_layout_width = width, wm_layout_height = height\<rparr>"

text \<open>
  The two lookups. \<open>target_index - first.count_windows()\<close> of the first is a checked subtraction:
  the outer \<open>None\<close> is its panic.
\<close>

fun get_window_in :: "'w window_node \<Rightarrow> nat \<Rightarrow> 'w window option option" where
  "get_window_in (Leaf w) target = Some (if target = 0 then Some w else None)"
| "get_window_in (Split _ _ first second) target =
     (case get_window_in first target of
        None \<Rightarrow> None
      | Some (Some w) \<Rightarrow> Some (Some w)
      | Some None \<Rightarrow>
          if target < count_windows first then None
          else get_window_in second (target - count_windows first))"

definition get_window :: "'w window_manager \<Rightarrow> nat \<Rightarrow> 'w window option option" where
  "get_window m index = get_window_in (wm_root m) index"

fun update_window_in :: "('w window \<Rightarrow> 'w window) \<Rightarrow> 'w window_node \<Rightarrow> nat \<Rightarrow> 'w window_node" where
  "update_window_in f (Leaf w) target = Leaf (if target = 0 then f w else w)"
| "update_window_in f (Split d r first second) target =
     (if target < count_windows first then Split d r (update_window_in f first target) second
      else Split d r first (update_window_in f second (target - count_windows first)))"

definition focused_window :: "'w window_manager \<Rightarrow> 'w window option option" where
  "focused_window m = get_window m (wm_focused m)"

definition window_count :: "'w window_manager \<Rightarrow> nat" where
  "window_count m = count_windows (wm_root m)"

definition focus_window :: "nat \<Rightarrow> 'w window_manager \<Rightarrow> bool \<times> 'w window_manager" where
  "focus_window index m = (if index < window_count m then (True, m\<lparr>wm_focused := index\<rparr>) else (False, m))"

record split_viewport =
  sv_cursor :: cursor
  sv_scroll_offset :: nat
  sv_scroll_subrow :: nat
  sv_wrap_cursor_row :: "nat option"

definition copy_viewport :: "split_viewport option \<Rightarrow> 'w window \<Rightarrow> 'w window" where
  "copy_viewport viewport w =
     (let w = (case viewport of
                 None \<Rightarrow> w
               | Some v \<Rightarrow> window_set_scroll_position (sv_scroll_offset v) (sv_scroll_subrow v)
                            (window_move_cursor (cur_line (sv_cursor v)) (cur_col (sv_cursor v)) w))
      in w\<lparr>win_pending_reflow_row := Option.bind viewport sv_wrap_cursor_row\<rparr>)"

fun split_window_in ::
  "'w window_node \<Rightarrow> nat \<Rightarrow> split_direction \<Rightarrow> nat \<Rightarrow> nat \<Rightarrow> split_viewport option \<Rightarrow>
    (bool \<times> nat) \<times> 'w window_node" where
  "split_window_in (Leaf w) target direction buffer_id current viewport =
     (if current = target
      then ((True, current + 1),
            new_split direction (Leaf (copy_viewport viewport w))
              (Leaf (copy_viewport viewport (window_new buffer_id (win_width w) (win_height w)))))
      else ((False, current + 1), Leaf w))"
| "split_window_in (Split d r first second) target direction buffer_id current viewport =
     (let ((found, next), first') = split_window_in first target direction buffer_id current viewport
      in if found then ((True, next), Split d r first' second)
         else let (res, second') = split_window_in second target direction buffer_id next viewport
              in (res, Split d r first' second'))"

definition split_focused :: "split_direction \<Rightarrow> nat \<Rightarrow> 'w window_manager \<Rightarrow> 'w window_manager" where
  "split_focused direction buffer_id m =
     m\<lparr>wm_root := snd (split_window_in (wm_root m) (wm_focused m) direction buffer_id 0 None)\<rparr>"

definition split_focused_with_cursor ::
  "split_direction \<Rightarrow> nat \<Rightarrow> split_viewport \<Rightarrow> 'w window_manager \<Rightarrow> 'w window_manager" where
  "split_focused_with_cursor direction buffer_id viewport m =
     m\<lparr>wm_root := snd (split_window_in (wm_root m) (wm_focused m) direction buffer_id 0 (Some viewport))\<rparr>"

definition focus_next :: "'w window_manager \<Rightarrow> 'w window_manager" where
  "focus_next m =
     (let total = window_count m
      in if total > 1 then m\<lparr>wm_focused := (wm_focused m + 1) mod total\<rparr> else m)"

definition focus_prev :: "'w window_manager \<Rightarrow> 'w window_manager" where
  "focus_prev m =
     (let total = window_count m
      in if total > 1
         then m\<lparr>wm_focused := (if wm_focused m = 0 then total - 1 else wm_focused m - 1)\<rparr>
         else m)"

definition update_dimensions :: "nat \<Rightarrow> nat \<Rightarrow> 'w window_manager \<Rightarrow> 'w window_manager" where
  "update_dimensions width height m =
     m\<lparr>wm_layout_width := width, wm_layout_height := height,
       wm_root := node_update_dimensions 0 0 width height (wm_root m)\<rparr>"

section \<open>Moving the focus by position\<close>

record rect =
  rx :: nat
  ry :: nat
  rwidth :: nat
  rheight :: nat

definition rect_new :: "nat \<Rightarrow> nat \<Rightarrow> nat \<Rightarrow> nat \<Rightarrow> rect" where
  "rect_new x y width height = \<lparr>rx = x, ry = y, rwidth = width, rheight = height\<rparr>"

definition sat_add16 :: "nat \<Rightarrow> nat \<Rightarrow> nat" where
  "sat_add16 a b = min (a + b) 65535"

definition rect_right :: "rect \<Rightarrow> nat" where
  "rect_right r = sat_add16 (rx r) (rwidth r)"

definition rect_bottom :: "rect \<Rightarrow> nat" where
  "rect_bottom r = sat_add16 (ry r) (rheight r)"

definition center_x :: "rect \<Rightarrow> nat" where
  "center_x r = sat_add16 (rx r) (rwidth r div 2)"

definition center_y :: "rect \<Rightarrow> nat" where
  "center_y r = sat_add16 (ry r) (rheight r div 2)"

definition abs_diff :: "nat \<Rightarrow> nat \<Rightarrow> nat" where
  "abs_diff a b = (a - b) + (b - a)"

text \<open>The sum of squares is a \<open>u32\<close>, which wraps in a release build.\<close>

definition distance_squared :: "rect \<Rightarrow> rect \<Rightarrow> nat" where
  "distance_squared a b =
     (let dx = abs_diff (center_x a) (center_x b); dy = abs_diff (center_y a) (center_y b)
      in (dx * dx + dy * dy) mod 2 ^ 32)"

fun collect_rects :: "'w window_node \<Rightarrow> nat \<Rightarrow> nat \<Rightarrow> nat \<Rightarrow> nat \<Rightarrow> nat \<Rightarrow> (nat \<times> rect) list \<times> nat" where
  "collect_rects (Leaf _) x y width height current = ([(current, rect_new x y width height)], current + 1)"
| "collect_rects (Split Horizontal ratio first second) x y width height current =
     (let first_height = scaled height ratio; second_height = height - first_height - 1;
          (rects, current) = collect_rects first x y width first_height current;
          (rects', current) = collect_rects second x (y + first_height + 1) width second_height current
      in (rects @ rects', current))"
| "collect_rects (Split Vertical ratio first second) x y width height current =
     (let first_width = scaled width ratio; second_width = width - first_width - 1;
          (rects, current) = collect_rects first x y first_width height current;
          (rects', current) = collect_rects second (x + first_width + 1) y second_width height current
      in (rects @ rects', current))"

definition collect_window_rects :: "'w window_manager \<Rightarrow> nat \<Rightarrow> nat \<Rightarrow> (nat \<times> rect) list" where
  "collect_window_rects m width height = fst (collect_rects (wm_root m) 0 0 width height 0)"

text \<open>\<open>Iterator::min_by_key\<close> returns the first of the least elements.\<close>

fun min_by_key :: "('a \<Rightarrow> nat) \<Rightarrow> 'a list \<Rightarrow> 'a option" where
  "min_by_key key [] = None"
| "min_by_key key (x # xs) =
     (case min_by_key key xs of
        None \<Rightarrow> Some x
      | Some y \<Rightarrow> if key x \<le> key y then Some x else Some y)"

definition focus_directional ::
  "(rect \<Rightarrow> rect \<Rightarrow> bool) \<Rightarrow> 'w window_manager \<Rightarrow> bool \<times> 'w window_manager" where
  "focus_directional is_candidate m =
     (if window_count m \<le> 1 then (False, m)
      else let rects = collect_window_rects m (wm_layout_width m) (wm_layout_height m)
           in case List.find (\<lambda>(i, _). i = wm_focused m) rects of
                None \<Rightarrow> (False, m)
              | Some (_, current) \<Rightarrow>
                  (case min_by_key (\<lambda>(_, r). distance_squared current r)
                          (filter (\<lambda>(_, r). is_candidate current r)
                            (filter (\<lambda>(i, _). i \<noteq> wm_focused m) rects)) of
                     Some (i, _) \<Rightarrow> (True, m\<lparr>wm_focused := i\<rparr>)
                   | None \<Rightarrow> (False, m)))"

definition focus_left :: "'w window_manager \<Rightarrow> bool \<times> 'w window_manager" where
  "focus_left = focus_directional (\<lambda>current candidate. rect_right candidate \<le> rx current)"

definition focus_right :: "'w window_manager \<Rightarrow> bool \<times> 'w window_manager" where
  "focus_right = focus_directional (\<lambda>current candidate. rx candidate \<ge> rect_right current)"

definition focus_up :: "'w window_manager \<Rightarrow> bool \<times> 'w window_manager" where
  "focus_up = focus_directional (\<lambda>current candidate. rect_bottom candidate \<le> ry current)"

definition focus_down :: "'w window_manager \<Rightarrow> bool \<times> 'w window_manager" where
  "focus_down = focus_directional (\<lambda>current candidate. ry candidate \<ge> rect_bottom current)"

section \<open>Closing windows\<close>

fun is_leaf :: "'w window_node \<Rightarrow> bool" where
  "is_leaf (Leaf _) = True"
| "is_leaf (Split _ _ _ _) = False"

fun remove_window_in :: "'w window_node \<Rightarrow> nat \<Rightarrow> nat \<Rightarrow> bool \<times> 'w window_node" where
  "remove_window_in (Leaf w) target current = (False, Leaf w)"
| "remove_window_in (Split d r first second) target current =
     (if target < current + count_windows first
      then if current = target \<and> is_leaf first then (True, second)
           else let (removed, first') = remove_window_in first target current
                in (removed, Split d r first' second)
      else let second_start = current + count_windows first
           in if second_start = target \<and> is_leaf second then (True, first)
              else let (removed, second') = remove_window_in second target second_start
                   in (removed, Split d r first second'))"

datatype close_error = CannotCloseLast | FailedToClose | NoFocusedWindow

definition close_focused :: "'w window_manager \<Rightarrow> (close_error + unit) \<times> 'w window_manager" where
  "close_focused m =
     (if window_count m = 1 then (Inl CannotCloseLast, m)
      else let (removed, root) = remove_window_in (wm_root m) (wm_focused m) 0;
               m = m\<lparr>wm_root := root\<rparr>
           in if removed
              then (Inr (), if wm_focused m \<ge> window_count m
                            then m\<lparr>wm_focused := window_count m - 1\<rparr> else m)
              else (Inl FailedToClose, m))"

text \<open>The outer \<open>None\<close> is the panic of the lookup.\<close>

definition close_other_windows ::
  "'w window_manager \<Rightarrow> ((close_error + unit) \<times> 'w window_manager) option" where
  "close_other_windows m =
     (if window_count m = 1 then Some (Inr (), m)
      else case get_window m (wm_focused m) of
             None \<Rightarrow> None
           | Some (Some w) \<Rightarrow> Some (Inr (), m\<lparr>wm_root := Leaf w, wm_focused := 0\<rparr>)
           | Some None \<Rightarrow> Some (Inl NoFocusedWindow, m))"

end
