(* ===== verification/WindowLaws.thy ===== *)
theory WindowLaws
  imports Windows
begin

text \<open>
  What the windows promise: the tree of splits behaves as a list of windows with a focus, the layout
  gives the windows disjoint rectangles, the focus moves to the nearest window of the direction, and
  scrolling keeps the cursor in the viewport.
\<close>

section \<open>The tree as a list\<close>

fun leaves :: "'w window_node \<Rightarrow> 'w window list" where
  "leaves (Leaf w) = [w]"
| "leaves (Split _ _ first second) = leaves first @ leaves second"

lemma count_windows_leaves: "count_windows n = length (leaves n)"
  by (induction n) auto

lemma leaves_ne [simp]: "leaves n \<noteq> []"
  by (induction n) auto

lemma leaves_pos [simp]: "0 < length (leaves n)"
  by simp

lemma get_window_in_leaves:
  "get_window_in n i = Some (if i < length (leaves n) then Some (leaves n ! i) else None)"
  by (induction n arbitrary: i) (auto simp: count_windows_leaves nth_append)

lemma update_window_in_leaves: "leaves (update_window_in f n i) = (leaves n)[i := f (leaves n ! i)]"
  by (induction n arbitrary: i)
    (auto simp: count_windows_leaves nth_append list_update_append split: nat.splits)

lemma split_window_in_leaves:
  assumes "split_window_in n target d b current v = ((found, next), n')"
  shows "(found \<longleftrightarrow> current \<le> target \<and> target < current + length (leaves n))
    \<and> (\<not> found \<longrightarrow> next = current + length (leaves n) \<and> n' = n)
    \<and> (found \<longrightarrow> leaves n' =
         take (target - current) (leaves n)
         @ [copy_viewport v (leaves n ! (target - current)),
            copy_viewport v (window_new b (win_width (leaves n ! (target - current)))
              (win_height (leaves n ! (target - current))))]
         @ drop (Suc (target - current)) (leaves n))"
  using assms
proof (induction n arbitrary: current found "next" n')
  case (Leaf w)
  then show ?case by (auto split: if_splits)
next
  case (Split dir r first second)
  obtain f1 x1 n1 where 1: "split_window_in first target d b current v = ((f1, x1), n1)"
    by (metis surj_pair)
  note A = Split.IH(1) [OF 1]
  show ?case
  proof (cases f1)
    case True
    then have "found" "n' = Split dir r n1 second"
      using Split.prems 1 by auto
    then show ?thesis using A True by (auto simp: nth_append)
  next
    case False
    obtain f2 x2 n2 where 2: "split_window_in second target d b x1 v = ((f2, x2), n2)"
      by (metis surj_pair)
    have eq: "found = f2" "next = x2" "n' = Split dir r n1 n2"
      using Split.prems 1 2 False by auto
    have x1: "x1 = current + length (leaves first)" "n1 = first" using A False by auto
    note B = Split.IH(2) [OF 2, unfolded x1]
    have "target - current = length (leaves first) + (target - (current + length (leaves first)))" if f2
      using B that by auto
    then show ?thesis using A B False by (auto simp: eq x1 nth_append Suc_diff_le)
  qed
qed

lemma is_leaf_leaves: "is_leaf n \<longleftrightarrow> length (leaves n) = 1"
  by (cases n) (auto, metis leaves_ne length_0_conv One_nat_def add_is_1)

lemma remove_window_in_leaves:
  assumes "current \<le> target" "target < current + length (leaves n)" "length (leaves n) > 1"
  shows "fst (remove_window_in n target current)
    \<and> leaves (snd (remove_window_in n target current)) =
        take (target - current) (leaves n) @ drop (Suc (target - current)) (leaves n)"
  using assms
proof (induction n arbitrary: current)
  case (Split d r first second)
  let ?k = "length (leaves first)"
  show ?case
  proof (cases "target < current + ?k")
    case True
    show ?thesis
    proof (cases "current = target \<and> is_leaf first")
      case hit: True
      then obtain w where "leaves first = [w]" by (cases first) auto
      then show ?thesis using hit True by (simp add: count_windows_leaves)
    next
      case False
      then have "length (leaves first) > 1"
        using True Split.prems(1) leaves_pos [of first]
        by (auto simp: is_leaf_leaves simp del: leaves_pos)
      from Split.IH(1) [OF Split.prems(1) True this] show ?thesis
        using True False Split.prems(1) by (auto simp: count_windows_leaves case_prod_beta)
    qed
  next
    case False
    define j where "j = target - (current + ?k)"
    have t: "target = current + ?k + j" using False by (simp add: j_def)
    show ?thesis
    proof (cases "j = 0 \<and> is_leaf second")
      case hit: True
      then obtain w where "leaves second = [w]" by (cases second) auto
      then show ?thesis using hit by (simp add: count_windows_leaves t)
    next
      case miss: False
      have "j < length (leaves second)" using Split.prems(2) by (simp add: t)
      then have "length (leaves second) > 1"
        using miss by (cases j) (auto simp: is_leaf_leaves, metis leaves_pos less_one nat_neq_iff not_less_eq)
      with Split.prems(2) t have IH: "fst (remove_window_in second target (current + ?k))"
        "leaves (snd (remove_window_in second target (current + ?k))) =
          take j (leaves second) @ drop (Suc j) (leaves second)"
        using Split.IH(2) [of "current + ?k"] by auto
      have "\<not> (current + ?k = target \<and> is_leaf second)" using miss by (simp add: t)
      then have "remove_window_in (Split d r first second) target current =
          (fst (remove_window_in second target (current + ?k)),
           Split d r first (snd (remove_window_in second target (current + ?k))))"
        using False by (simp add: count_windows_leaves case_prod_beta Let_def)
      then show ?thesis using IH by (simp add: t)
    qed
  qed
qed simp

lemma node_update_dimensions_leaves:
  "length (leaves (node_update_dimensions x y w h n)) = length (leaves n)"
  "i < length (leaves n) \<Longrightarrow>
     \<exists>a b. leaves (node_update_dimensions x y w h n) ! i = window_set_dimensions a b (leaves n ! i)"
proof (induction x y w h n arbitrary: i rule: node_update_dimensions.induct)
  case 1
  case 1 then show ?case by simp
  case 2 then show ?case by auto
next
  case (2 x y width height ratio first second)
  case 1 then show ?case using "2.IH" by (simp add: Let_def)
  case 2 then show ?case
    using "2.IH"(1,3) "2.IH"(2) "2.IH"(4) by (auto simp: Let_def nth_append)
next
  case (3 x y width height ratio first second)
  case 1 then show ?case using "3.IH" by (simp add: Let_def)
  case 2 then show ?case
    using "3.IH" by (auto simp: Let_def nth_append)
qed

section \<open>Sessions and their list\<close>

datatype 'w win_op =
    SplitOp split_direction nat "split_viewport option"
  | FocusIndex nat | FocusNext | FocusPrev | FocusLeft | FocusRight | FocusUp | FocusDown
  | Resize nat nat | CloseFocused | CloseOthers | EditWindow nat "'w window \<Rightarrow> 'w window"

fun win_step :: "'w win_op \<Rightarrow> 'w window_manager \<Rightarrow> 'w window_manager option" where
  "win_step (SplitOp d b v) m =
     Some (case v of None \<Rightarrow> split_focused d b m | Some v \<Rightarrow> split_focused_with_cursor d b v m)"
| "win_step (FocusIndex i) m = Some (snd (focus_window i m))"
| "win_step FocusNext m = Some (focus_next m)"
| "win_step FocusPrev m = Some (focus_prev m)"
| "win_step FocusLeft m = Some (snd (focus_left m))"
| "win_step FocusRight m = Some (snd (focus_right m))"
| "win_step FocusUp m = Some (snd (focus_up m))"
| "win_step FocusDown m = Some (snd (focus_down m))"
| "win_step (Resize w h) m = Some (update_dimensions w h m)"
| "win_step CloseFocused m = Some (snd (close_focused m))"
| "win_step CloseOthers m = map_option snd (close_other_windows m)"
| "win_step (EditWindow i f) m = Some (m\<lparr>wm_root := update_window_in f (wm_root m) i\<rparr>)"

fun win_run :: "'w win_op list \<Rightarrow> 'w window_manager \<Rightarrow> 'w window_manager option" where
  "win_run [] m = Some m"
| "win_run (op # ops) m = (case win_step op m of None \<Rightarrow> None | Some m' \<Rightarrow> win_run ops m')"

text \<open>The abstract machine: a list of windows with a focus.\<close>

inductive list_step :: "'w win_op \<Rightarrow> 'w window list \<times> nat \<Rightarrow> 'w window list \<times> nat \<Rightarrow> bool" where
  ls_split: "f < length ws \<Longrightarrow> list_step (SplitOp d b v) (ws, f)
     (take f ws @ [copy_viewport v (ws ! f),
                   copy_viewport v (window_new b (win_width (ws ! f)) (win_height (ws ! f)))]
      @ drop (Suc f) ws, f)"
| ls_index: "list_step (FocusIndex i) (ws, f) (ws, if i < length ws then i else f)"
| ls_next: "list_step FocusNext (ws, f) (ws, (f + 1) mod length ws)"
| ls_prev: "list_step FocusPrev (ws, f) (ws, (f + length ws - 1) mod length ws)"
| ls_towards: "op \<in> {FocusLeft, FocusRight, FocusUp, FocusDown} \<Longrightarrow> f' < length ws \<Longrightarrow>
     list_step op (ws, f) (ws, f')"
| ls_resize: "length ws' = length ws \<Longrightarrow>
     \<forall>i < length ws. \<exists>a b. ws' ! i = window_set_dimensions a b (ws ! i) \<Longrightarrow>
     list_step (Resize w h) (ws, f) (ws', f)"
| ls_close: "1 < length ws \<Longrightarrow>
     list_step CloseFocused (ws, f) (take f ws @ drop (Suc f) ws, min f (length ws - 2))"
| ls_close_last: "length ws = 1 \<Longrightarrow> list_step CloseFocused (ws, f) (ws, f)"
| ls_only: "list_step CloseOthers (ws, f) ([ws ! f], 0)"
| ls_edit: "list_step (EditWindow i g) (ws, f) (ws[i := g (ws ! i)], f)"

inductive list_run :: "'w win_op list \<Rightarrow> 'w window list \<times> nat \<Rightarrow> 'w window list \<times> nat \<Rightarrow> bool" where
  lr_done: "list_run [] s s"
| lr_step: "list_step op s s' \<Longrightarrow> list_run ops s' s'' \<Longrightarrow> list_run (op # ops) s s''"

text \<open>The focus of the list machine stays on a window.\<close>

lemma list_step_focus:
  assumes "list_step op (ws, f) (ws', f')" "f < length ws"
  shows "f' < length ws'"
  using assms by (cases rule: list_step.cases) (auto intro!: mod_less_divisor)

definition win_abs :: "'w window_manager \<Rightarrow> 'w window list \<times> nat" where
  "win_abs m = (leaves (wm_root m), wm_focused m)"

definition win_ok :: "'w window_manager \<Rightarrow> bool" where
  "win_ok m \<longleftrightarrow> wm_focused m < length (leaves (wm_root m))"

lemma upt_join: "[i..<i + j] @ [i + j..<i + (j + k)] = [i..<i + (j + k)]"
  by (metis add.assoc le_add1 upt_add_eq_append)

lemma collect_rects_indices:
  "map fst (fst (collect_rects n x y w h current)) = [current..<current + length (leaves n)]
   \<and> snd (collect_rects n x y w h current) = current + length (leaves n)"
proof (induction n arbitrary: x y w h current)
  case (Split d r first second)
  then show ?case
    by (cases d) (simp_all add: case_prod_beta Let_def add.assoc upt_join)
qed simp

lemma min_by_key_least:
  "case min_by_key k xs of None \<Rightarrow> xs = [] | Some x \<Rightarrow> x \<in> set xs \<and> (\<forall>y \<in> set xs. k x \<le> k y)"
  by (induction xs) (auto split: option.splits)

lemma min_by_key_None [simp]: "min_by_key k xs = None \<longleftrightarrow> xs = []"
  using min_by_key_least [of xs k] by (auto split: option.splits)

lemma min_by_key_Some:
  "min_by_key k xs = Some x \<Longrightarrow> x \<in> set xs \<and> (\<forall>y \<in> set xs. k x \<le> k y)"
  using min_by_key_least [of xs k] by simp

lemma focus_directional_step:
  assumes "win_ok m"
  shows "wm_root (snd (focus_directional P m)) = wm_root m"
    "wm_focused (snd (focus_directional P m)) < length (leaves (wm_root m))"
proof -
  let ?rects = "collect_window_rects m (wm_layout_width m) (wm_layout_height m)"
  have "i < length (leaves (wm_root m))" if "(i, r) \<in> set ?rects" for i r
  proof -
    have "i \<in> set (map fst ?rects)" using that by force
    then show ?thesis
      using collect_rects_indices [of "wm_root m"] by (simp add: collect_window_rects_def)
  qed
  then show "wm_root (snd (focus_directional P m)) = wm_root m"
    "wm_focused (snd (focus_directional P m)) < length (leaves (wm_root m))"
    using assms
    by (auto simp: focus_directional_def win_ok_def Let_def dest!: min_by_key_Some
        split: option.splits prod.splits)
qed

lemma window_count_leaves: "window_count m = length (leaves (wm_root m))"
  by (simp add: window_count_def count_windows_leaves)

lemma split_focused_step:
  assumes "win_ok m"
  shows "list_step (SplitOp d b v) (win_abs m)
    (leaves (snd (split_window_in (wm_root m) (wm_focused m) d b 0 v)), wm_focused m)"
proof -
  obtain found "next" n' where s: "split_window_in (wm_root m) (wm_focused m) d b 0 v = ((found, next), n')"
    by (metis surj_pair)
  show ?thesis
    using split_window_in_leaves [OF s] assms ls_split [of "wm_focused m" "leaves (wm_root m)" d b v]
    by (simp add: s win_abs_def win_ok_def)
qed

lemma mod_minus_one: "f < n \<Longrightarrow> (f + n - 1) mod n = (if f = 0 then n - 1 else f - (1 :: nat))"
  by (auto simp: mod_if)

lemma win_step_list:
  assumes "win_ok m"
  shows "\<exists>m'. win_step op m = Some m' \<and> list_step op (win_abs m) (win_abs m')"
proof -
  have len: "0 < length (leaves (wm_root m))" by simp
  have f: "wm_focused m < length (leaves (wm_root m))" using assms by (simp add: win_ok_def)
  note towards = focus_directional_step [OF assms]
  show ?thesis
  proof (cases op)
    case (SplitOp d b v)
    then show ?thesis
      using split_focused_step [OF assms]
      by (simp add: split_focused_def split_focused_with_cursor_def win_abs_def split: option.splits)
  next
    case (FocusIndex i)
    then show ?thesis
      using ls_index [of i "leaves (wm_root m)" "wm_focused m"]
      by (auto simp: focus_window_def win_abs_def window_count_leaves)
  next
    case FocusNext
    then show ?thesis
      using ls_next [of "leaves (wm_root m)" "wm_focused m"] f
      by (cases "length (leaves (wm_root m)) = 1")
        (auto simp: focus_next_def win_abs_def window_count_leaves Let_def)
  next
    case FocusPrev
    then show ?thesis
      using ls_prev [of "leaves (wm_root m)" "wm_focused m"] f
      unfolding mod_minus_one [OF f]
      by (cases "length (leaves (wm_root m)) = 1")
        (auto simp: focus_prev_def win_abs_def window_count_leaves Let_def)
  next
    case (Resize w h)
    then show ?thesis
      by (auto simp: update_dimensions_def win_abs_def node_update_dimensions_leaves intro!: ls_resize)
  next
    case CloseFocused
    show ?thesis
    proof (cases "length (leaves (wm_root m)) = 1")
      case True
      then show ?thesis
        using CloseFocused ls_close_last by (simp add: close_focused_def win_abs_def window_count_leaves)
    next
      case False
      then have more: "1 < length (leaves (wm_root m))" using len by linarith
      note rem = remove_window_in_leaves [of 0 "wm_focused m" "wm_root m", OF _ _ more]
      have "win_abs (snd (close_focused m)) =
          (take (wm_focused m) (leaves (wm_root m)) @ drop (Suc (wm_focused m)) (leaves (wm_root m)),
           min (wm_focused m) (length (leaves (wm_root m)) - 2))"
        using rem f False
        by (auto simp: close_focused_def win_abs_def window_count_leaves case_prod_beta Let_def)
      then show ?thesis using CloseFocused ls_close [OF more] by (simp add: win_abs_def)
    qed
  next
    case CloseOthers
    have "leaves (wm_root m) = [leaves (wm_root m) ! wm_focused m] \<and> wm_focused m = 0"
      if "length (leaves (wm_root m)) = 1"
      using that f by (cases "leaves (wm_root m)") auto
    then show ?thesis
      using CloseOthers ls_only [of "leaves (wm_root m)" "wm_focused m"] f
      by (auto simp: close_other_windows_def win_abs_def window_count_leaves get_window_def get_window_in_leaves)
  next
    case (EditWindow i g)
    then show ?thesis
      using ls_edit by (simp add: win_abs_def update_window_in_leaves)
  qed (use towards in \<open>simp_all add: focus_left_def focus_right_def focus_up_def focus_down_def
      win_abs_def ls_towards\<close>)
qed

lemma win_run_list:
  "win_ok m \<Longrightarrow> \<exists>m'. win_run ops m = Some m' \<and> list_run ops (win_abs m) (win_abs m') \<and> win_ok m'"
proof (induction ops arbitrary: m)
  case (Cons op ops)
  obtain m1 where 1: "win_step op m = Some m1" "list_step op (win_abs m) (win_abs m1)"
    using win_step_list [OF Cons.prems] by blast
  then have "win_ok m1"
    using list_step_focus Cons.prems by (fastforce simp: win_abs_def win_ok_def)
  from Cons.IH [OF this] 1 show ?case by (auto intro: lr_step)
qed (simp add: lr_done)

section \<open>Every split is in halves\<close>

fun halved :: "'w window_node \<Rightarrow> bool" where
  "halved (Leaf _) \<longleftrightarrow> True"
| "halved (Split _ r first second) \<longleftrightarrow> r = (1, 2) \<and> halved first \<and> halved second"

lemma halved_split: "halved n \<Longrightarrow> halved (snd (split_window_in n t d b c v))"
  by (induction n arbitrary: c) (auto simp: case_prod_beta Let_def)

lemma halved_remove: "halved n \<Longrightarrow> halved (snd (remove_window_in n t c))"
  by (induction n arbitrary: c) (auto simp: case_prod_beta Let_def)

lemma halved_update_dimensions: "halved n \<Longrightarrow> halved (node_update_dimensions x y w h n)"
  by (induction x y w h n rule: node_update_dimensions.induct) (auto simp: Let_def)

lemma halved_update_window: "halved n \<Longrightarrow> halved (update_window_in f n i)"
  by (induction n arbitrary: i) auto

lemma win_step_halved:
  assumes "win_ok m" "halved (wm_root m)" "win_step op m = Some m'"
  shows "halved (wm_root m')"
  using assms
  by (cases op)
    (auto simp: split_focused_def split_focused_with_cursor_def focus_window_def focus_next_def
      focus_prev_def focus_left_def focus_right_def focus_up_def focus_down_def focus_directional_step
      update_dimensions_def close_focused_def close_other_windows_def halved_split halved_update_dimensions
      halved_update_window halved_remove case_prod_beta Let_def
      split: option.splits if_splits)

lemma win_run_halved:
  "win_ok m \<Longrightarrow> halved (wm_root m) \<Longrightarrow> win_run ops m = Some m' \<Longrightarrow> win_ok m' \<and> halved (wm_root m')"
proof (induction ops arbitrary: m)
  case (Cons op ops)
  obtain m1 where 1: "win_step op m = Some m1" "list_step op (win_abs m) (win_abs m1)"
    using win_step_list [OF Cons.prems(1)] by blast
  then have "win_ok m1"
    using list_step_focus Cons.prems(1) by (fastforce simp: win_abs_def win_ok_def)
  moreover have "halved (wm_root m1)" using win_step_halved [OF Cons.prems(1,2) 1(1)] .
  ultimately show ?case using Cons.IH 1(1) Cons.prems(3) by simp
qed simp

lemma win_new_ok: "win_ok (window_manager_new b w h)" "halved (wm_root (window_manager_new b w h))"
  by (simp_all add: win_ok_def window_manager_new_def)

section \<open>The layout\<close>

fun layout :: "'w window_node \<Rightarrow> nat \<Rightarrow> nat \<Rightarrow> nat \<Rightarrow> nat \<Rightarrow> rect list" where
  "layout (Leaf _) x y w h = [rect_new x y w h]"
| "layout (Split Horizontal r first second) x y w h =
     layout first x y w (h div 2) @ layout second x (y + h div 2 + 1) w (h - h div 2 - 1)"
| "layout (Split Vertical r first second) x y w h =
     layout first x y (w div 2) h @ layout second (x + w div 2 + 1) y (w - w div 2 - 1) h"

lemma scaled_half [simp]: "scaled n (1, 2) = n div 2" "scaled n (Suc 0, 2) = n div 2"
  by (simp_all add: scaled_def)

lemma layout_rects: "halved n \<Longrightarrow> map snd (fst (collect_rects n x y w h c)) = layout n x y w h"
  by (induction n x y w h arbitrary: c rule: layout.induct) (auto simp: case_prod_beta Let_def)

lemma length_layout [simp]: "length (layout n x y w h) = length (leaves n)"
  by (induction n x y w h rule: layout.induct) auto

lemma layout_update_dimensions [simp]:
  "layout (node_update_dimensions x y w h n) x' y' w' h' = layout n x' y' w' h'"
  by (induction x y w h n arbitrary: x' y' w' h' rule: node_update_dimensions.induct)
    (simp_all add: Let_def)

lemma layout_dimensions:
  "halved n \<Longrightarrow> map (\<lambda>v. (win_width v, win_height v)) (leaves (node_update_dimensions x y w h n)) =
     map (\<lambda>r. (rwidth r, rheight r)) (layout n x y w h)"
  by (induction n x y w h rule: layout.induct)
    (auto simp: Let_def window_set_dimensions_def rect_new_def)

definition cells :: "rect \<Rightarrow> (nat \<times> nat) set" where
  "cells r = {(a, b). rx r \<le> a \<and> a < rx r + rwidth r \<and> ry r \<le> b \<and> b < ry r + rheight r}"

lemma cells_rect [simp]:
  "(a, b) \<in> cells (rect_new x y w h) \<longleftrightarrow> x \<le> a \<and> a < x + w \<and> y \<le> b \<and> b < y + h"
  by (auto simp: cells_def rect_new_def)

lemma cells_halves:
  "cells (rect_new x y w (h div 2)) \<subseteq> cells (rect_new x y w h)"
  "cells (rect_new x (y + h div 2 + 1) w (h - h div 2 - 1)) \<subseteq> cells (rect_new x y w h)"
  "cells (rect_new x y (w div 2) h) \<subseteq> cells (rect_new x y w h)"
  "cells (rect_new (x + w div 2 + 1) y (w - w div 2 - 1) h) \<subseteq> cells (rect_new x y w h)"
  by (auto simp: cells_def rect_new_def)

lemma layout_inside: "r \<in> set (layout n x y w h) \<Longrightarrow> cells r \<subseteq> cells (rect_new x y w h)"
proof (induction n x y w h rule: layout.induct)
  case (2 r' first second x y w h)
  note inside = order_trans [OF "2.IH"(1) cells_halves(1)] order_trans [OF "2.IH"(2) cells_halves(2)]
  from "2.prems" show ?case unfolding layout.simps set_append using inside by (elim UnE)
next
  case (3 r' first second x y w h)
  note inside = order_trans [OF "3.IH"(1) cells_halves(3)] order_trans [OF "3.IH"(2) cells_halves(4)]
  from "3.prems" show ?case unfolding layout.simps set_append using inside by (elim UnE)
qed simp

lemma cells_apart:
  "cells (rect_new x y w (h div 2)) \<inter> cells (rect_new x (y + h div 2 + 1) w h') = {}"
  "cells (rect_new x y (w div 2) h) \<inter> cells (rect_new (x + w div 2 + 1) y w' h) = {}"
  by (auto simp: cells_def rect_new_def)

lemma layout_disjoint: "sorted_wrt (\<lambda>a b. cells a \<inter> cells b = {}) (layout n x y w h)"
proof (induction n x y w h rule: layout.induct)
  case (2 r first second x y w h)
  have "cells a \<inter> cells b = {}" if "a \<in> set (layout first x y w (h div 2))"
    "b \<in> set (layout second x (y + h div 2 + 1) w (h - h div 2 - 1))" for a b
    using layout_inside [OF that(1)] layout_inside [OF that(2)] cells_apart(1) by blast
  then show ?case using 2 by (simp add: sorted_wrt_append)
next
  case (3 r first second x y w h)
  have "cells a \<inter> cells b = {}" if "a \<in> set (layout first x y (w div 2) h)"
    "b \<in> set (layout second (x + w div 2 + 1) y (w - w div 2 - 1) h)" for a b
    using layout_inside [OF that(1)] layout_inside [OF that(2)] cells_apart(2) by blast
  then show ?case using 3 by (simp add: sorted_wrt_append)
qed simp

text \<open>
  The lines between the windows: every split leaves one, a cell wide, between its halves (none where
  there is no room for it).
\<close>

fun separators :: "'w window_node \<Rightarrow> nat \<Rightarrow> nat \<Rightarrow> nat \<Rightarrow> nat \<Rightarrow> rect list" where
  "separators (Leaf _) x y w h = []"
| "separators (Split Horizontal r first second) x y w h =
     rect_new x (y + h div 2) w (min 1 h) #
     separators first x y w (h div 2) @ separators second x (y + h div 2 + 1) w (h - h div 2 - 1)"
| "separators (Split Vertical r first second) x y w h =
     rect_new (x + w div 2) y (min 1 w) h #
     separators first x y (w div 2) h @ separators second (x + w div 2 + 1) y (w - w div 2 - 1) h"

lemma separators_thin: "s \<in> set (separators n x y w h) \<Longrightarrow> rwidth s \<le> 1 \<or> rheight s \<le> 1"
  by (induction n x y w h rule: separators.induct) (auto simp: rect_new_def)

lemma length_separators: "Suc (length (separators n x y w h)) = length (leaves n)"
  by (induction n x y w h rule: separators.induct) auto

lemma cells_three:
  "cells (rect_new x y w h) =
     cells (rect_new x y w (h div 2)) \<union> cells (rect_new x (y + h div 2) w (min 1 h)) \<union>
     cells (rect_new x (y + h div 2 + 1) w (h - h div 2 - 1))"
  "cells (rect_new x y w h) =
     cells (rect_new x y (w div 2) h) \<union> cells (rect_new (x + w div 2) y (min 1 w) h) \<union>
     cells (rect_new (x + w div 2 + 1) y (w - w div 2 - 1) h)"
  by (auto simp: cells_def rect_new_def)

lemma cells_three_apart:
  "cells (rect_new x y w (h div 2)) \<inter> cells (rect_new x (y + h div 2) w h') = {}"
  "h' \<le> 1 \<Longrightarrow> cells (rect_new x (y + h div 2) w h') \<inter> cells (rect_new x (y + h div 2 + 1) w h'') = {}"
  "cells (rect_new x y (w div 2) h) \<inter> cells (rect_new (x + w div 2) y w' h) = {}"
  "w' \<le> 1 \<Longrightarrow> cells (rect_new (x + w div 2) y w' h) \<inter> cells (rect_new (x + w div 2 + 1) y w'' h) = {}"
  by (auto simp: cells_def rect_new_def)

text \<open>Windows and separators together are the whole rectangle, and no cell is in two of them.\<close>

lemma layout_covers:
  "(\<Union>r \<in> set (layout n x y w h @ separators n x y w h). cells r) = cells (rect_new x y w h)"
proof (induction n x y w h rule: layout.induct)
  case (2 r first second x y w h)
  then show ?case by (simp only: layout.simps separators.simps cells_three(1) [of x y w h] set_append list.set) blast
next
  case (3 r first second x y w h)
  then show ?case by (simp only: layout.simps separators.simps cells_three(2) [of x y w h] set_append list.set) blast
qed simp

lemma separators_inside: "s \<in> set (separators n x y w h) \<Longrightarrow> cells s \<subseteq> cells (rect_new x y w h)"
  using layout_covers [of n x y w h] by auto

lemma apart_join:
  assumes sym: "\<And>a b. A a b \<Longrightarrow> A b a"
    and parts: "sorted_wrt A S1 \<and> (\<forall>r \<in> set L1. \<forall>s \<in> set S1. A r s)" "sorted_wrt A S2 \<and> (\<forall>r \<in> set L2. \<forall>s \<in> set S2. A r s)"
    and halves: "\<And>a b. a \<in> set L1 \<union> set S1 \<Longrightarrow> b \<in> set L2 \<union> set S2 \<Longrightarrow> A a b"
    and line: "\<And>a. a \<in> set L1 \<union> set S1 \<or> a \<in> set L2 \<union> set S2 \<Longrightarrow> A s a"
  shows "sorted_wrt A (s # S1 @ S2) \<and> (\<forall>r \<in> set (L1 @ L2). \<forall>t \<in> set (s # S1 @ S2). A r t)"
proof
  show "sorted_wrt A (s # S1 @ S2)" using parts halves line by (auto simp: sorted_wrt_append)
  have "A r t" if "r \<in> set (L1 @ L2)" "t \<in> set (s # S1 @ S2)" for r t
  proof -
    have "A r s" by (rule sym, rule line) (use that(1) in auto)
    moreover have "A r t" if "t \<in> set S1" using \<open>r \<in> set (L1 @ L2)\<close> that parts(1) halves [of t r] sym by auto
    moreover have "A r t" if "t \<in> set S2" using \<open>r \<in> set (L1 @ L2)\<close> that parts(2) halves [of r t] by auto
    ultimately show ?thesis using that(2) by auto
  qed
  then show "\<forall>r \<in> set (L1 @ L2). \<forall>t \<in> set (s # S1 @ S2). A r t" by blast
qed

lemma separators_apart:
  "sorted_wrt (\<lambda>a b. cells a \<inter> cells b = {}) (separators n x y w h) \<and>
   (\<forall>r \<in> set (layout n x y w h). \<forall>s \<in> set (separators n x y w h). cells r \<inter> cells s = {})"
proof (induction n x y w h rule: layout.induct)
  case (2 r first second x y w h)
  have first: "cells a \<subseteq> cells (rect_new x y w (h div 2))"
    if "a \<in> set (layout first x y w (h div 2)) \<union> set (separators first x y w (h div 2))" for a
    using that layout_inside separators_inside by (elim UnE)
  have second: "cells a \<subseteq> cells (rect_new x (y + h div 2 + 1) w (h - h div 2 - 1))"
    if "a \<in> set (layout second x (y + h div 2 + 1) w (h - h div 2 - 1)) \<union>
      set (separators second x (y + h div 2 + 1) w (h - h div 2 - 1))" for a
    using that layout_inside separators_inside by (elim UnE)
  have halves: "cells a \<inter> cells b = {}"
    if "a \<in> set (layout first x y w (h div 2)) \<union> set (separators first x y w (h div 2))"
      "b \<in> set (layout second x (y + h div 2 + 1) w (h - h div 2 - 1)) \<union>
        set (separators second x (y + h div 2 + 1) w (h - h div 2 - 1))" for a b
    using first [OF that(1)] second [OF that(2)] cells_apart(1) by blast
  have line: "cells (rect_new x (y + h div 2) w (min 1 h)) \<inter> cells a = {}"
    if "a \<in> set (layout first x y w (h div 2)) \<union> set (separators first x y w (h div 2)) \<or>
      a \<in> set (layout second x (y + h div 2 + 1) w (h - h div 2 - 1)) \<union>
        set (separators second x (y + h div 2 + 1) w (h - h div 2 - 1))" for a
    using that first [of a] second [of a] cells_three_apart(1) [of x y w h "min 1 h"]
      cells_three_apart(2) [of "min 1 h" x y h w "h - h div 2 - 1"] by auto
  show ?case
    unfolding layout.simps separators.simps
    by (rule apart_join [OF _ "2.IH"]) (blast | rule halves; assumption | rule line; assumption)+
next
  case (3 r first second x y w h)
  have first: "cells a \<subseteq> cells (rect_new x y (w div 2) h)"
    if "a \<in> set (layout first x y (w div 2) h) \<union> set (separators first x y (w div 2) h)" for a
    using that layout_inside separators_inside by (elim UnE)
  have second: "cells a \<subseteq> cells (rect_new (x + w div 2 + 1) y (w - w div 2 - 1) h)"
    if "a \<in> set (layout second (x + w div 2 + 1) y (w - w div 2 - 1) h) \<union>
      set (separators second (x + w div 2 + 1) y (w - w div 2 - 1) h)" for a
    using that layout_inside separators_inside by (elim UnE)
  have halves: "cells a \<inter> cells b = {}"
    if "a \<in> set (layout first x y (w div 2) h) \<union> set (separators first x y (w div 2) h)"
      "b \<in> set (layout second (x + w div 2 + 1) y (w - w div 2 - 1) h) \<union>
        set (separators second (x + w div 2 + 1) y (w - w div 2 - 1) h)" for a b
    using first [OF that(1)] second [OF that(2)] cells_apart(2) by blast
  have line: "cells (rect_new (x + w div 2) y (min 1 w) h) \<inter> cells a = {}"
    if "a \<in> set (layout first x y (w div 2) h) \<union> set (separators first x y (w div 2) h) \<or>
      a \<in> set (layout second (x + w div 2 + 1) y (w - w div 2 - 1) h) \<union>
        set (separators second (x + w div 2 + 1) y (w - w div 2 - 1) h)" for a
    using that first [of a] second [of a] cells_three_apart(3) [of x y w h "min 1 w"]
      cells_three_apart(4) [of "min 1 w" x w y h "w - w div 2 - 1"] by auto
  show ?case
    unfolding layout.simps separators.simps
    by (rule apart_join [OF _ "3.IH"]) (blast | rule halves; assumption | rule line; assumption)+
qed simp

text \<open>A layout with room gives every window at least one cell.\<close>

fun roomy :: "'w window_node \<Rightarrow> nat \<Rightarrow> nat \<Rightarrow> bool" where
  "roomy (Leaf _) w h \<longleftrightarrow> 1 \<le> w \<and> 1 \<le> h"
| "roomy (Split Horizontal r first second) w h \<longleftrightarrow>
     roomy first w (h div 2) \<and> roomy second w (h - h div 2 - 1)"
| "roomy (Split Vertical r first second) w h \<longleftrightarrow>
     roomy first (w div 2) h \<and> roomy second (w - w div 2 - 1) h"

lemma roomy_pos: "roomy n w h \<Longrightarrow> 1 \<le> w \<and> 1 \<le> h"
  by (induction n w h rule: roomy.induct) auto

lemma layout_bounds:
  "roomy n w h \<Longrightarrow> r \<in> set (layout n x y w h) \<Longrightarrow>
     x \<le> rx r \<and> rx r + rwidth r \<le> x + w \<and> y \<le> ry r \<and> ry r + rheight r \<le> y + h
     \<and> 1 \<le> rwidth r \<and> 1 \<le> rheight r"
proof (induction n x y w h rule: layout.induct)
  case (2 r' first second x y w h)
  have "1 \<le> h - h div 2 - 1" using "2.prems"(1) roomy_pos by fastforce
  then show ?case using 2 by fastforce
next
  case (3 r' first second x y w h)
  have "1 \<le> w - w div 2 - 1" using "3.prems"(1) roomy_pos by fastforce
  then show ?case using 3 by fastforce
qed (auto simp: rect_new_def)

text \<open>A window that does not touch an edge of the layout has a neighbour on that side.\<close>

lemma layout_nonempty: "\<exists>s. s \<in> set (layout n x y w h)"
  by (metis leaves_ne length_0_conv length_layout list.set_intros(1) neq_Nil_conv)

lemma layout_neighbours:
  "roomy n w h \<Longrightarrow> r \<in> set (layout n x y w h) \<Longrightarrow>
     (x < rx r \<longrightarrow> (\<exists>s \<in> set (layout n x y w h). rx s + rwidth s \<le> rx r))
     \<and> (rx r + rwidth r < x + w \<longrightarrow> (\<exists>s \<in> set (layout n x y w h). rx r + rwidth r \<le> rx s))
     \<and> (y < ry r \<longrightarrow> (\<exists>s \<in> set (layout n x y w h). ry s + rheight s \<le> ry r))
     \<and> (ry r + rheight r < y + h \<longrightarrow> (\<exists>s \<in> set (layout n x y w h). ry r + rheight r \<le> ry s))"
proof (induction n x y w h rule: layout.induct)
  case (2 d first second x y w h)
  let ?A = "layout first x y w (h div 2)" and ?B = "layout second x (y + h div 2 + 1) w (h - h div 2 - 1)"
  have room: "roomy first w (h div 2)" "roomy second w (h - h div 2 - 1)" "1 \<le> h - h div 2 - 1"
    using "2.prems"(1) roomy_pos by fastforce+
  obtain a b where ab: "a \<in> set ?A" "b \<in> set ?B" using layout_nonempty by blast
  note A = layout_bounds [OF room(1)] and B = layout_bounds [OF room(2)]
  from "2.prems"(2) consider "r \<in> set ?A" | "r \<in> set ?B" by auto
  then show ?case
  proof cases
    case 1
    have "ry r + rheight r \<le> ry b" using A [OF 1] B [OF ab(2)] by linarith
    moreover have "b \<in> set ?A \<union> set ?B" using ab by simp
    ultimately show ?thesis
      using "2.IH"(1) [OF room(1) 1] by (simp only: layout.simps set_append) blast
  next
    case 2
    have "ry a + rheight a \<le> ry r" using B [OF 2] A [OF ab(1)] by linarith
    moreover have "y + h div 2 + 1 + (h - h div 2 - 1) = y + h" using room(3) by linarith
    moreover have "a \<in> set ?A \<union> set ?B" using ab by simp
    ultimately show ?thesis
      using "2.IH"(2) [OF room(2) 2] by (simp only: layout.simps set_append) blast
  qed
next
  case (3 d first second x y w h)
  let ?A = "layout first x y (w div 2) h" and ?B = "layout second (x + w div 2 + 1) y (w - w div 2 - 1) h"
  have room: "roomy first (w div 2) h" "roomy second (w - w div 2 - 1) h" "1 \<le> w - w div 2 - 1"
    using "3.prems"(1) roomy_pos by fastforce+
  obtain a b where ab: "a \<in> set ?A" "b \<in> set ?B" using layout_nonempty by blast
  note A = layout_bounds [OF room(1)] and B = layout_bounds [OF room(2)]
  from "3.prems"(2) consider "r \<in> set ?A" | "r \<in> set ?B" by auto
  then show ?case
  proof cases
    case 1
    have "rx r + rwidth r \<le> rx b" using A [OF 1] B [OF ab(2)] by linarith
    moreover have "b \<in> set ?A \<union> set ?B" using ab by simp
    ultimately show ?thesis
      using "3.IH"(1) [OF room(1) 1] by (simp only: layout.simps set_append) blast
  next
    case 2
    have "rx a + rwidth a \<le> rx r" using B [OF 2] A [OF ab(1)] by linarith
    moreover have "x + w div 2 + 1 + (w - w div 2 - 1) = x + w" using room(3) by linarith
    moreover have "a \<in> set ?A \<union> set ?B" using ab by simp
    ultimately show ?thesis
      using "3.IH"(2) [OF room(2) 2] by (simp only: layout.simps set_append) blast
  qed
qed (simp add: rect_new_def)

section \<open>Moving the focus\<close>

definition window_rect :: "'w window_manager \<Rightarrow> nat \<Rightarrow> rect" where
  "window_rect m i = layout (wm_root m) 0 0 (wm_layout_width m) (wm_layout_height m) ! i"

lemma collect_window_rects_zip:
  assumes "halved (wm_root m)"
  shows "collect_window_rects m w h = zip [0..<window_count m] (layout (wm_root m) 0 0 w h)"
  using collect_rects_indices [of "wm_root m" 0 0 w h 0] layout_rects [OF assms, of 0 0 w h 0]
    zip_map_fst_snd [of "fst (collect_rects (wm_root m) 0 0 w h 0)"]
  by (simp add: collect_window_rects_def window_count_leaves)

lemma rects_member:
  assumes "halved (wm_root m)"
  shows "(i, r) \<in> set (collect_window_rects m (wm_layout_width m) (wm_layout_height m))
     \<longleftrightarrow> i < window_count m \<and> r = window_rect m i"
  by (auto simp: collect_window_rects_zip [OF assms] set_zip window_rect_def window_count_leaves
      intro!: exI [of _ i])

lemma find_member:
  "distinct (map fst xs) \<Longrightarrow> (i, r) \<in> set xs \<Longrightarrow> List.find (\<lambda>(j, _). j = i) xs = Some (i, r)"
  by (induction xs) (auto simp: image_iff)

lemma focus_directional_nearest:
  assumes "win_ok m" "halved (wm_root m)"
  defines "cur \<equiv> window_rect m (wm_focused m)"
  shows "(fst (focus_directional P m) \<longleftrightarrow> (\<exists>j < window_count m. j \<noteq> wm_focused m \<and> P cur (window_rect m j)))
    \<and> (fst (focus_directional P m) \<longrightarrow>
        P cur (window_rect m (wm_focused (snd (focus_directional P m))))
        \<and> (\<forall>j < window_count m. j \<noteq> wm_focused m \<and> P cur (window_rect m j) \<longrightarrow>
             distance_squared cur (window_rect m (wm_focused (snd (focus_directional P m))))
               \<le> distance_squared cur (window_rect m j)))
    \<and> (\<not> fst (focus_directional P m) \<longrightarrow> snd (focus_directional P m) = m)"
proof (cases "window_count m \<le> 1")
  case True
  then have "wm_focused m = 0" "window_count m = 1"
    using assms(1) leaves_pos [of "wm_root m"] unfolding win_ok_def window_count_leaves by linarith+
  then show ?thesis using True by (auto simp: focus_directional_def)
next
  case False
  define rects where "rects = collect_window_rects m (wm_layout_width m) (wm_layout_height m)"
  define cands where "cands = filter (\<lambda>(_, r). P cur r) (filter (\<lambda>(i, _). i \<noteq> wm_focused m) rects)"
  have mem: "(i, r) \<in> set rects \<longleftrightarrow> i < window_count m \<and> r = window_rect m i" for i r
    using rects_member [OF assms(2)] by (simp add: rects_def)
  have "(wm_focused m, cur) \<in> set rects"
    using assms(1) by (simp add: mem cur_def win_ok_def window_count_leaves)
  moreover have "distinct (map fst rects)"
    using assms(2) by (simp add: rects_def collect_window_rects_zip window_count_leaves)
  ultimately have found: "List.find (\<lambda>(j, _). j = wm_focused m) rects = Some (wm_focused m, cur)"
    by (intro find_member)
  have cands: "(i, r) \<in> set cands \<longleftrightarrow>
      i < window_count m \<and> i \<noteq> wm_focused m \<and> r = window_rect m i \<and> P cur r" for i r
    by (auto simp: cands_def mem)
  have eq: "focus_directional P m =
      (case min_by_key (\<lambda>(_, r). distance_squared cur r) cands of
         Some (i, _) \<Rightarrow> (True, m\<lparr>wm_focused := i\<rparr>) | None \<Rightarrow> (False, m))"
    using False found by (simp add: focus_directional_def Let_def cands_def flip: rects_def)
  show ?thesis
  proof (cases "min_by_key (\<lambda>(_, r). distance_squared cur r) cands")
    case None
    then have "cands = []" by simp
    then have "\<not> (i < window_count m \<and> i \<noteq> wm_focused m \<and> P cur (window_rect m i))" for i
      using cands [of i "window_rect m i"] by simp
    then show ?thesis using None by (auto simp: eq)
  next
    case (Some p)
    obtain i r where p: "p = (i, r)" by fastforce
    from min_by_key_Some [OF Some] have i: "(i, r) \<in> set cands"
      and least: "\<And>j s. (j, s) \<in> set cands \<Longrightarrow> distance_squared cur r \<le> distance_squared cur s"
      unfolding p by fastforce+
    then show ?thesis using Some by (auto simp: eq p cands window_rect_def)
  qed
qed

lemma sat_add16_eq [simp]: "a + b \<le> 65535 \<Longrightarrow> sat_add16 a b = a + b"
  by (simp add: sat_add16_def)

lemma window_rect_bounds:
  assumes "roomy (wm_root m) (wm_layout_width m) (wm_layout_height m)" "i < window_count m"
  shows "rx (window_rect m i) + rwidth (window_rect m i) \<le> wm_layout_width m"
    "ry (window_rect m i) + rheight (window_rect m i) \<le> wm_layout_height m"
    "1 \<le> rwidth (window_rect m i)" "1 \<le> rheight (window_rect m i)"
proof -
  have "window_rect m i \<in> set (layout (wm_root m) 0 0 (wm_layout_width m) (wm_layout_height m))"
    using assms(2) by (simp add: window_rect_def window_count_leaves)
  from layout_bounds [OF assms(1) this] show
    "rx (window_rect m i) + rwidth (window_rect m i) \<le> wm_layout_width m"
    "ry (window_rect m i) + rheight (window_rect m i) \<le> wm_layout_height m"
    "1 \<le> rwidth (window_rect m i)" "1 \<le> rheight (window_rect m i)" by simp_all
qed

lemma window_rect_neighbour:
  assumes "roomy (wm_root m) (wm_layout_width m) (wm_layout_height m)" "i < window_count m"
  shows "0 < rx (window_rect m i) \<Longrightarrow>
      \<exists>j < window_count m. rx (window_rect m j) + rwidth (window_rect m j) \<le> rx (window_rect m i)"
    "rx (window_rect m i) + rwidth (window_rect m i) < wm_layout_width m \<Longrightarrow>
      \<exists>j < window_count m. rx (window_rect m i) + rwidth (window_rect m i) \<le> rx (window_rect m j)"
    "0 < ry (window_rect m i) \<Longrightarrow>
      \<exists>j < window_count m. ry (window_rect m j) + rheight (window_rect m j) \<le> ry (window_rect m i)"
    "ry (window_rect m i) + rheight (window_rect m i) < wm_layout_height m \<Longrightarrow>
      \<exists>j < window_count m. ry (window_rect m i) + rheight (window_rect m i) \<le> ry (window_rect m j)"
proof -
  let ?L = "layout (wm_root m) 0 0 (wm_layout_width m) (wm_layout_height m)"
  have "window_rect m i \<in> set ?L" using assms(2) by (simp add: window_rect_def window_count_leaves)
  note n = layout_neighbours [OF assms(1) this]
  have conv: "(\<exists>s \<in> set ?L. Q s) \<longleftrightarrow> (\<exists>j < window_count m. Q (window_rect m j))" for Q
    unfolding window_rect_def window_count_leaves by (metis in_set_conv_nth length_layout)
  show "0 < rx (window_rect m i) \<Longrightarrow>
      \<exists>j < window_count m. rx (window_rect m j) + rwidth (window_rect m j) \<le> rx (window_rect m i)"
    "rx (window_rect m i) + rwidth (window_rect m i) < wm_layout_width m \<Longrightarrow>
      \<exists>j < window_count m. rx (window_rect m i) + rwidth (window_rect m i) \<le> rx (window_rect m j)"
    "0 < ry (window_rect m i) \<Longrightarrow>
      \<exists>j < window_count m. ry (window_rect m j) + rheight (window_rect m j) \<le> ry (window_rect m i)"
    "ry (window_rect m i) + rheight (window_rect m i) < wm_layout_height m \<Longrightarrow>
      \<exists>j < window_count m. ry (window_rect m i) + rheight (window_rect m i) \<le> ry (window_rect m j)"
    using n unfolding conv by simp_all
qed

section \<open>Scrolling\<close>

lemma div_ceil_bounds: "0 < s \<Longrightarrow> a \<le> div_ceil a s * s \<and> div_ceil a s * s < a + s"
proof -
  assume s: "0 < s"
  define q where "q = (a + s - 1) div s"
  have "q * s \<le> a + s - 1" "a + s - 1 < q * s + s"
    using s div_mult_mod_eq [of "a + s - 1" s] mod_less_divisor [OF s, of "a + s - 1"] unfolding q_def
    by linarith+
  then have "a \<le> q * s" "q * s < a + s" using s by linarith+
  moreover have "div_ceil a s = q" by (simp add: div_ceil_def q_def)
  ultimately show ?thesis by simp
qed

lemma horizontal_target_visible:
  fixes h col :: nat
  assumes "2 \<le> v" "so \<le> (v - 1) div 2" "sidescroll + so + max so 1 \<le> v"
  defines "h' \<equiv> horizontal_target h v col sidescroll so"
  shows "h' \<le> col \<and> col + so < h' + v \<and> (0 < h' \<longrightarrow> h' + max so 1 \<le> col)"
proof -
  define mx where "mx = max so (1 :: nat)"
  have mx: "so \<le> mx" "1 \<le> mx" "mx \<le> v div 2" "so + v div 2 < v"
    using assms(1,2) by (auto simp: mx_def max_def)
  define lb where "lb = h + max so (if h > 0 then 1 else 0)"
  define rb where "rb = h + (v - (so + 1))"
  have lb: "lb \<le> h + mx" "0 < h \<Longrightarrow> lb = h + mx" "h = 0 \<Longrightarrow> lb = so" by (auto simp: lb_def mx_def)
  have rb: "rb + so + 1 = h + v" using mx(4) by (simp add: rb_def)
  have eq: "h' = (if col < lb then if sidescroll = 0 then col - v div 2
             else h - div_ceil (lb - col) sidescroll * sidescroll
           else if col > rb then if sidescroll = 0 then col - v div 2
             else h + div_ceil (col - rb) sidescroll * sidescroll
           else h)"
    by (simp add: h'_def horizontal_target_def lb_def rb_def)
  consider (left) "col < lb" | (right) "\<not> col < lb" "rb < col" | (stay) "\<not> col < lb" "\<not> rb < col" by blast
  then show ?thesis
  proof cases
    case left
    show ?thesis
    proof (cases "sidescroll = 0")
      case True
      then show ?thesis using left mx by (auto simp: eq mx_def [symmetric])
    next
      case False
      define step where "step = div_ceil (lb - col) sidescroll * sidescroll"
      have "lb - col \<le> step" "step < lb - col + sidescroll"
        using div_ceil_bounds [of sidescroll "lb - col"] False by (simp_all add: step_def)
      moreover have "h' = h - step" using left False by (simp add: eq step_def)
      ultimately show ?thesis
        using left lb mx assms(3) unfolding mx_def [symmetric] by (cases "h = 0") auto
    qed
  next
    case right
    show ?thesis
    proof (cases "sidescroll = 0")
      case True
      then show ?thesis using right mx by (auto simp: eq mx_def [symmetric])
    next
      case False
      define step where "step = div_ceil (col - rb) sidescroll * sidescroll"
      have "col - rb \<le> step" "step < col - rb + sidescroll"
        using div_ceil_bounds [of sidescroll "col - rb"] False by (simp_all add: step_def)
      moreover have "h' = h + step" using right False by (simp add: eq step_def)
      ultimately show ?thesis
        using right rb assms(3) unfolding mx_def [symmetric] by auto
    qed
  next
    case stay
    then show ?thesis using lb rb unfolding mx_def [symmetric] by (auto simp: eq)
  qed
qed

section \<open>Properties\<close>

text \<open>
  C15. The tree of windows behaves as a list of windows with a focus: no operation panics, each does to
  the leaves of the tree what the list machine does, the focus is always on a window, and the lookup
  by index is the lookup in the list. Closing is refused exactly for the last window.
\<close>

theorem windows_refine_list:
  "\<exists>m. win_run ops (window_manager_new b w h) = Some m
    \<and> list_run ops ([window_new b w h], 0) (leaves (wm_root m), wm_focused m)
    \<and> wm_focused m < window_count m
    \<and> get_window m i = Some (if i < window_count m then Some (leaves (wm_root m) ! i) else None)
    \<and> (fst (close_focused m) = Inr () \<longleftrightarrow> 1 < window_count m)"
proof -
  obtain m where m: "win_run ops (window_manager_new b w h) = Some m"
    "list_run ops (win_abs (window_manager_new b w h)) (win_abs m)" "win_ok m"
    using win_run_list [OF win_new_ok(1)] by blast
  have "fst (close_focused m) = Inr () \<longleftrightarrow> 1 < window_count m"
    using remove_window_in_leaves [of 0 "wm_focused m" "wm_root m"] m(3) leaves_pos [of "wm_root m"]
    by (auto simp: close_focused_def case_prod_beta Let_def window_count_leaves win_ok_def simp del: leaves_pos)
  then show ?thesis
    using m by (auto simp: win_abs_def window_manager_new_def win_ok_def window_count_leaves
        get_window_def get_window_in_leaves)
qed

text \<open>
  C16. The layout partitions the screen: after a resize every window has exactly the size of its
  rectangle and the rectangles are numbered like the windows. With one separator less than there are
  windows, each a line one cell wide, they cover the screen: every cell of it belongs to exactly one
  window or separator, and none lies outside the screen.
\<close>

theorem layout_partitions_screen:
  fixes w h :: nat
  assumes "win_run ops (window_manager_new b w0 h0) = Some m"
  defines "m' \<equiv> update_dimensions w h m"
  defines "rects \<equiv> collect_window_rects m' w h"
  shows "map fst rects = [0..<window_count m']
    \<and> (\<forall>i < window_count m'. \<exists>v. get_window m' i = Some (Some v)
        \<and> win_width v = rwidth (snd (rects ! i)) \<and> win_height v = rheight (snd (rects ! i)))
    \<and> (\<forall>i j. i < j \<and> j < window_count m' \<longrightarrow> cells (snd (rects ! i)) \<inter> cells (snd (rects ! j)) = {})
    \<and> (\<exists>seps. Suc (length seps) = window_count m' \<and> (\<forall>s \<in> set seps. rwidth s \<le> 1 \<or> rheight s \<le> 1)
        \<and> sorted_wrt (\<lambda>r s. cells r \<inter> cells s = {}) (map snd rects @ seps)
        \<and> (\<Union>r \<in> set (map snd rects @ seps). cells r) = {0..<w} \<times> {0..<h})"
proof -
  have half: "halved (wm_root m)" using win_run_halved [OF win_new_ok assms(1)] by simp
  have root: "wm_root m' = node_update_dimensions 0 0 w h (wm_root m)" by (simp add: m'_def update_dimensions_def)
  then have half': "halved (wm_root m')" using half by (simp add: halved_update_dimensions)
  have L: "layout (wm_root m') 0 0 w h = layout (wm_root m) 0 0 w h"
    by (simp add: root layout_update_dimensions)
  define L where "L = layout (wm_root m) 0 0 w h"
  have len: "length L = window_count m'" using length_layout [of "wm_root m'" 0 0 w h] L
    by (simp add: L_def window_count_leaves)
  have rects: "rects = zip [0..<window_count m'] L"
    using collect_window_rects_zip [OF half'] L by (simp add: rects_def L_def)
  have nth: "i < window_count m' \<Longrightarrow> snd (rects ! i) = L ! i" for i using len by (simp add: rects)
  have dims: "win_width (leaves (wm_root m') ! i) = rwidth (L ! i)"
    "win_height (leaves (wm_root m') ! i) = rheight (L ! i)" if "i < window_count m'" for i
    using arg_cong [OF layout_dimensions [OF half, of 0 0 w h], of "\<lambda>l. l ! i"] that len
    by (simp_all add: root window_count_leaves L_def)
  define seps where "seps = separators (wm_root m) 0 0 w h"
  have screen: "cells (rect_new 0 0 w h) = {0..<w} \<times> {0..<h}" by (auto simp: cells_def rect_new_def)
  have snd_rects: "map snd rects = L" using len by (simp add: rects)
  have seps: "\<exists>seps. Suc (length seps) = window_count m' \<and> (\<forall>s \<in> set seps. rwidth s \<le> 1 \<or> rheight s \<le> 1)
        \<and> sorted_wrt (\<lambda>r s. cells r \<inter> cells s = {}) (map snd rects @ seps)
        \<and> (\<Union>r \<in> set (map snd rects @ seps). cells r) = {0..<w} \<times> {0..<h}"
  proof (intro exI [of _ seps] conjI ballI)
    show "Suc (length seps) = window_count m'"
      using length_separators [of "wm_root m" 0 0 w h] length_layout [of "wm_root m" 0 0 w h] len by (simp add: seps_def L_def)
    show "rwidth s \<le> 1 \<or> rheight s \<le> 1" if "s \<in> set seps" for s
      using that separators_thin unfolding seps_def by blast
    show "sorted_wrt (\<lambda>r s. cells r \<inter> cells s = {}) (map snd rects @ seps)"
      using separators_apart [of "wm_root m" 0 0 w h] layout_disjoint [of "wm_root m" 0 0 w h]
      unfolding snd_rects L_def seps_def by (simp add: sorted_wrt_append)
    show "(\<Union>r \<in> set (map snd rects @ seps). cells r) = {0..<w} \<times> {0..<h}"
      unfolding snd_rects L_def seps_def layout_covers screen ..
  qed
  have apart: "cells (L ! i) \<inter> cells (L ! j) = {}" if "i < j" "j < window_count m'" for i j
    using layout_disjoint [of "wm_root m" 0 0 w h] that len
    by (simp add: L_def sorted_wrt_iff_nth_less)
  show ?thesis
    using dims apart len seps
    by (simp add: nth get_window_def get_window_in_leaves window_count_leaves) (simp add: rects window_count_leaves)
qed

definition three_windows :: "unit window_manager" where
  "three_windows = the (win_run [SplitOp Vertical 1 None, FocusNext, SplitOp Horizontal 2 None]
     (window_manager_new 0 81 25))"

lemma three_windows_run:
  "win_run [SplitOp Vertical 1 None, FocusNext, SplitOp Horizontal 2 None] (window_manager_new 0 81 25) =
     Some three_windows"
  by code_simp

theorem layout_partitions_screen_witness:
  "cells (snd (collect_window_rects (update_dimensions 81 25 three_windows) 81 25 ! 0))
     \<inter> cells (snd (collect_window_rects (update_dimensions 81 25 three_windows) 81 25 ! 2)) = {}
   \<and> snd (collect_window_rects (update_dimensions 81 25 three_windows) 81 25 ! 2) = rect_new 41 13 40 12"
proof -
  have "window_count (update_dimensions 81 25 three_windows) = 3"
    "snd (collect_window_rects (update_dimensions 81 25 three_windows) 81 25 ! 2) = rect_new 41 13 40 12"
    by code_simp+
  moreover from layout_partitions_screen [OF three_windows_run, of 81 25]
  have "\<forall>i j. i < j \<and> j < window_count (update_dimensions 81 25 three_windows) \<longrightarrow>
      cells (snd (collect_window_rects (update_dimensions 81 25 three_windows) 81 25 ! i))
        \<inter> cells (snd (collect_window_rects (update_dimensions 81 25 three_windows) 81 25 ! j)) = {}"
    by (elim conjE)
  ultimately show ?thesis by (metis numeral_less_iff semiring_norm(77,78) zero_less_numeral lessI numeral_3_eq_3 numeral_2_eq_2)
qed

text \<open>
  Focus by direction: when every window has room, \<open>focus_left\<close> succeeds exactly when the window
  does not touch the left edge of the layout, and so for the other three sides. The window it moves
  to lies wholly on that side, no window on that side has a nearer centre, and when there is none
  nothing changes.
\<close>

theorem focus_follows_geometry:
  assumes "win_run ops (window_manager_new b w0 h0) = Some m"
    "roomy (wm_root m) (wm_layout_width m) (wm_layout_height m)"
    "wm_layout_width m \<le> 40000" "wm_layout_height m \<le> 40000"
  defines "cur \<equiv> window_rect m (wm_focused m)"
  shows "(fst (focus_left m) \<longleftrightarrow> 0 < rx cur)
    \<and> (fst (focus_right m) \<longleftrightarrow> rx cur + rwidth cur < wm_layout_width m)
    \<and> (fst (focus_up m) \<longleftrightarrow> 0 < ry cur)
    \<and> (fst (focus_down m) \<longleftrightarrow> ry cur + rheight cur < wm_layout_height m)
    \<and> (\<forall>(go, beyond) \<in> set [(focus_left, \<lambda>r. rx r + rwidth r \<le> rx cur),
            (focus_right, \<lambda>r. rx cur + rwidth cur \<le> rx r),
            (focus_up, \<lambda>r. ry r + rheight r \<le> ry cur),
            (focus_down, \<lambda>r. ry cur + rheight cur \<le> ry r)].
        if fst (go m)
        then beyond (window_rect m (wm_focused (snd (go m))))
             \<and> (\<forall>j < window_count m. beyond (window_rect m j) \<longrightarrow>
                  distance_squared cur (window_rect m (wm_focused (snd (go m))))
                    \<le> distance_squared cur (window_rect m j))
        else snd (go m) = m)"
proof -
  have ok: "win_ok m" "halved (wm_root m)" using win_run_halved [OF win_new_ok assms(1)] by auto
  have foc: "wm_focused m < window_count m" using ok(1) by (simp add: win_ok_def window_count_leaves)
  note bounds = window_rect_bounds [OF assms(2)]
  have cur: "rx cur + rwidth cur \<le> wm_layout_width m" "ry cur + rheight cur \<le> wm_layout_height m"
    "1 \<le> rwidth cur" "1 \<le> rheight cur"
    using bounds [OF foc] by (simp_all add: cur_def)
  have sides: "rect_right (window_rect m j) = rx (window_rect m j) + rwidth (window_rect m j)"
    "rect_bottom (window_rect m j) = ry (window_rect m j) + rheight (window_rect m j)"
    "rx (window_rect m j) + rwidth (window_rect m j) \<le> wm_layout_width m"
    "ry (window_rect m j) + rheight (window_rect m j) \<le> wm_layout_height m"
    "1 \<le> rwidth (window_rect m j)" "1 \<le> rheight (window_rect m j)" if "j < window_count m" for j
    using bounds [OF that] assms(3,4) by (simp_all add: rect_right_def rect_bottom_def)
  have cur_sides: "rect_right cur = rx cur + rwidth cur" "rect_bottom cur = ry cur + rheight cur"
    using sides [OF foc] by (simp_all add: cur_def)
  note next_to = window_rect_neighbour [OF assms(2) foc, folded cur_def]
  note near = focus_directional_nearest [OF ok, folded cur_def]
  have go: "(fst (focus_directional P m) \<longleftrightarrow> (\<exists>j < window_count m. beyond (window_rect m j)))
      \<and> (if fst (focus_directional P m)
         then beyond (window_rect m (wm_focused (snd (focus_directional P m))))
              \<and> (\<forall>j < window_count m. beyond (window_rect m j) \<longrightarrow>
                   distance_squared cur (window_rect m (wm_focused (snd (focus_directional P m))))
                     \<le> distance_squared cur (window_rect m j))
         else snd (focus_directional P m) = m)"
    if P: "\<And>j. j < window_count m \<Longrightarrow> P cur (window_rect m j) \<longleftrightarrow> beyond (window_rect m j)"
      and self: "\<not> beyond cur" for P beyond
  proof -
    have out: "j \<noteq> wm_focused m" if "beyond (window_rect m j)" for j
      using that self by (auto simp: cur_def)
    have "wm_focused (snd (focus_directional P m)) < window_count m"
      using focus_directional_step(2) [OF ok(1)] by (simp add: window_count_leaves)
    then show ?thesis using near [of P] P out by auto
  qed
  note left = go [of "\<lambda>c s. rect_right s \<le> rx c" "\<lambda>r. rx r + rwidth r \<le> rx cur", folded focus_left_def]
  note right = go [of "\<lambda>c s. rx s \<ge> rect_right c" "\<lambda>r. rx cur + rwidth cur \<le> rx r", folded focus_right_def]
  note up = go [of "\<lambda>c s. rect_bottom s \<le> ry c" "\<lambda>r. ry r + rheight r \<le> ry cur", folded focus_up_def]
  note down = go [of "\<lambda>c s. ry s \<ge> rect_bottom c" "\<lambda>r. ry cur + rheight cur \<le> ry r", folded focus_down_def]
  have ex1: "(\<exists>j < window_count m. rx (window_rect m j) + rwidth (window_rect m j) \<le> rx cur) \<longleftrightarrow> 0 < rx cur"
  proof
    assume "\<exists>j < window_count m. rx (window_rect m j) + rwidth (window_rect m j) \<le> rx cur"
    then obtain j where "j < window_count m" "rx (window_rect m j) + rwidth (window_rect m j) \<le> rx cur" by blast
    then show "0 < rx cur" using sides(3-6) [of j] by linarith
  qed (rule next_to(1))
  have ex2: "(\<exists>j < window_count m. rx cur + rwidth cur \<le> rx (window_rect m j)) \<longleftrightarrow> rx cur + rwidth cur < wm_layout_width m"
  proof
    assume "\<exists>j < window_count m. rx cur + rwidth cur \<le> rx (window_rect m j)"
    then obtain j where "j < window_count m" "rx cur + rwidth cur \<le> rx (window_rect m j)" by blast
    then show "rx cur + rwidth cur < wm_layout_width m" using sides(3-6) [of j] by linarith
  qed (rule next_to(2))
  have ex3: "(\<exists>j < window_count m. ry (window_rect m j) + rheight (window_rect m j) \<le> ry cur) \<longleftrightarrow> 0 < ry cur"
  proof
    assume "\<exists>j < window_count m. ry (window_rect m j) + rheight (window_rect m j) \<le> ry cur"
    then obtain j where "j < window_count m" "ry (window_rect m j) + rheight (window_rect m j) \<le> ry cur" by blast
    then show "0 < ry cur" using sides(3-6) [of j] by linarith
  qed (rule next_to(3))
  have ex4: "(\<exists>j < window_count m. ry cur + rheight cur \<le> ry (window_rect m j)) \<longleftrightarrow> ry cur + rheight cur < wm_layout_height m"
  proof
    assume "\<exists>j < window_count m. ry cur + rheight cur \<le> ry (window_rect m j)"
    then obtain j where "j < window_count m" "ry cur + rheight cur \<le> ry (window_rect m j)" by blast
    then show "ry cur + rheight cur < wm_layout_height m" using sides(3-6) [of j] by linarith
  qed (rule next_to(4))
  note sides_ex = ex1 ex2 ex3 ex4
  have L: "?thesis" if
    "fst (focus_left m) \<longleftrightarrow> 0 < rx cur" "fst (focus_right m) \<longleftrightarrow> rx cur + rwidth cur < wm_layout_width m"
    "fst (focus_up m) \<longleftrightarrow> 0 < ry cur" "fst (focus_down m) \<longleftrightarrow> ry cur + rheight cur < wm_layout_height m"
    using left [THEN conjunct2] right [THEN conjunct2] up [THEN conjunct2] down [THEN conjunct2]
      that sides(1,2) cur_sides cur(3,4)
    by (simp only: list.set ball_simps prod.case) (simp add: cur_sides)
  show ?thesis
    by (rule L)
      (use left [THEN conjunct1] right [THEN conjunct1] up [THEN conjunct1] down [THEN conjunct1] sides_ex
         sides(1,2) cur_sides cur(3,4) in simp_all)
qed

theorem focus_follows_geometry_witness:
  "fst (focus_left three_windows) \<and> \<not> fst (focus_right three_windows) \<and> \<not> fst (focus_up three_windows) \<and> fst (focus_down three_windows)"
proof -
  have room: "roomy (wm_root three_windows) (wm_layout_width three_windows) (wm_layout_height three_windows)"
    "wm_layout_width three_windows = 81" "wm_layout_height three_windows = 25"
    by code_simp+
  have small: "wm_layout_width three_windows \<le> 40000" "wm_layout_height three_windows \<le> 40000"
    by (simp_all add: room(2,3))
  have "rx (window_rect three_windows (wm_focused three_windows)) = 41"
    "ry (window_rect three_windows (wm_focused three_windows)) = 0"
    "rx (window_rect three_windows (wm_focused three_windows))
      + rwidth (window_rect three_windows (wm_focused three_windows)) = wm_layout_width three_windows"
    "ry (window_rect three_windows (wm_focused three_windows))
      + rheight (window_rect three_windows (wm_focused three_windows)) < wm_layout_height three_windows"
    by code_simp+
  with focus_follows_geometry [OF three_windows_run room(1) small] show ?thesis by auto
qed

text \<open>
  Scrolling: after Ctrl-E or Ctrl-Y the cursor is still in the viewport, at least \<open>scrolloff\<close> lines
  from the edge it was pushed from unless the text ends before, and it moves, keeping its column, only
  when it had to. Horizontally the cursor ends inside the text columns with \<open>sidescrolloff\<close> columns to
  spare, and not on the first cell of a scrolled line, when a scroll step fits in the pane.
\<close>

theorem scrolling_keeps_cursor_visible:
  assumes "0 < win_height w" "cur_line (win_cursor w) < line_count"
    "win_scroll_offset w \<le> cur_line (win_cursor w)"
    "cur_line (win_cursor w) < win_scroll_offset w + win_height w"
    "2 \<le> min v (win_width w)"
    "sidescroll + min sidescrolloff ((min v (win_width w) - 1) div 2)
       + max (min sidescrolloff ((min v (win_width w) - 1) div 2)) 1 \<le> min v (win_width w)"
  shows "(case scroll_down n line_count so w of (moved, w') \<Rightarrow>
        win_scroll_offset w' \<le> cur_line (win_cursor w')
        \<and> cur_line (win_cursor w') < win_scroll_offset w' + win_height w'
        \<and> cur_line (win_cursor w') < line_count
        \<and> min (win_scroll_offset w' + min so ((win_height w - 1) div 2)) (line_count - 1)
            \<le> cur_line (win_cursor w')
        \<and> cur_col (win_cursor w') = cur_col (win_cursor w)
        \<and> (moved \<longleftrightarrow> cur_line (win_cursor w) < cur_line (win_cursor w')))
    \<and> (case scroll_up n so w of (moved, w') \<Rightarrow>
        win_scroll_offset w' \<le> cur_line (win_cursor w')
        \<and> cur_line (win_cursor w') + min so ((win_height w - 1) div 2) < win_scroll_offset w' + win_height w'
        \<and> cur_line (win_cursor w') < line_count
        \<and> cur_col (win_cursor w') = cur_col (win_cursor w)
        \<and> (moved \<longleftrightarrow> cur_line (win_cursor w') < cur_line (win_cursor w)))
    \<and> (case ensure_cursor_visible_horizontal col v False sidescroll sidescrolloff w of (changed, w') \<Rightarrow>
        win_horizontal_offset w' \<le> col
        \<and> col + min sidescrolloff ((min v (win_width w) - 1) div 2)
            < win_horizontal_offset w' + min v (win_width w)
        \<and> (0 < win_horizontal_offset w' \<longrightarrow> win_horizontal_offset w' < col)
        \<and> (changed \<longleftrightarrow> win_horizontal_offset w' \<noteq> win_horizontal_offset w))"
proof -
  define so' where "so' = min so ((win_height w - 1) div 2)"
  have so': "2 * so' < win_height w" using assms(1) by (simp add: so'_def min_def) linarith
  define side where "side = min sidescrolloff ((min v (win_width w) - 1) div 2)"
  have "0 < v" using assms(5) by auto
  then have "snd (ensure_cursor_visible_horizontal col v False sidescroll sidescrolloff w) =
      w\<lparr>win_horizontal_offset :=
        horizontal_target (win_horizontal_offset w) (min v (win_width w)) col sidescroll side\<rparr>"
    "fst (ensure_cursor_visible_horizontal col v False sidescroll sidescrolloff w) \<longleftrightarrow>
      horizontal_target (win_horizontal_offset w) (min v (win_width w)) col sidescroll side
        \<noteq> win_horizontal_offset w"
    by (auto simp: ensure_cursor_visible_horizontal_def side_def Let_def)
  moreover have "side \<le> (min v (win_width w) - 1) div 2" by (simp add: side_def)
  note horizontal_target_visible [OF assms(5) this assms(6) [folded side_def], of "win_horizontal_offset w" col]
  ultimately have hor: "case ensure_cursor_visible_horizontal col v False sidescroll sidescrolloff w of
      (changed, w') \<Rightarrow>
        win_horizontal_offset w' \<le> col \<and> col + side < win_horizontal_offset w' + min v (win_width w)
        \<and> (0 < win_horizontal_offset w' \<longrightarrow> win_horizontal_offset w' < col)
        \<and> (changed \<longleftrightarrow> win_horizontal_offset w' \<noteq> win_horizontal_offset w)"
    by (auto simp: case_prod_beta)
  have down: "case scroll_down n line_count so w of (moved, w') \<Rightarrow>
        win_scroll_offset w' \<le> cur_line (win_cursor w')
        \<and> cur_line (win_cursor w') < win_scroll_offset w' + win_height w'
        \<and> cur_line (win_cursor w') < line_count
        \<and> min (win_scroll_offset w' + so') (line_count - 1) \<le> cur_line (win_cursor w')
        \<and> cur_col (win_cursor w') = cur_col (win_cursor w)
        \<and> (moved \<longleftrightarrow> cur_line (win_cursor w) < cur_line (win_cursor w'))"
  proof -
    define ns where "ns = min (win_scroll_offset w + n) (line_count - win_height w)"
    define ml where "ml = min (ns + so') (line_count - 1)"
    have sd: "scroll_down n line_count so w =
        (if cur_line (win_cursor w) < ml
         then (True, window_move_cursor ml (cur_col (win_cursor w)) (w\<lparr>win_scroll_offset := ns\<rparr>))
         else (False, w\<lparr>win_scroll_offset := ns\<rparr>))"
      by (simp add: scroll_down_def Let_def ns_def ml_def so'_def)
    have ns: "ns \<le> line_count - 1" "cur_line (win_cursor w) < ns + win_height w"
      using assms(1-4) by (auto simp: ns_def min_def)
    have "ns \<le> ml" "ml < ns + win_height w" "ml < line_count" "ml \<le> ns + so'"
      using ns so' assms(1,2) by (auto simp: ml_def min_def)
    moreover have "min (ns + so') (line_count - 1) = ml" by (simp only: ml_def)
    ultimately show ?thesis
      using assms(2) ns unfolding sd by (auto simp: window_move_cursor_def cursor_set_position_def)
  qed
  have up: "case scroll_up n so w of (moved, w') \<Rightarrow>
        win_scroll_offset w' \<le> cur_line (win_cursor w')
        \<and> cur_line (win_cursor w') + so' < win_scroll_offset w' + win_height w'
        \<and> cur_line (win_cursor w') < line_count
        \<and> cur_col (win_cursor w') = cur_col (win_cursor w)
        \<and> (moved \<longleftrightarrow> cur_line (win_cursor w') < cur_line (win_cursor w))"
  proof -
    define ns where "ns = win_scroll_offset w - n"
    define ml where "ml = ns + (win_height w - 1) - so'"
    have su: "scroll_up n so w =
        (if ml < cur_line (win_cursor w)
         then (True, window_move_cursor ml (cur_col (win_cursor w)) (w\<lparr>win_scroll_offset := ns\<rparr>))
         else (False, w\<lparr>win_scroll_offset := ns\<rparr>))"
      by (simp add: scroll_up_def Let_def ns_def ml_def so'_def)
    have "ns \<le> ml" "ml + so' < ns + win_height w" "ns \<le> win_scroll_offset w"
      "\<not> ml < cur_line (win_cursor w) \<Longrightarrow> cur_line (win_cursor w) + so' < ns + win_height w"
      using so' assms(1-4) unfolding ml_def ns_def by linarith+
    then show ?thesis
      using assms(1-4) unfolding su by (auto simp: window_move_cursor_def cursor_set_position_def)
  qed
  show ?thesis
    using down up hor unfolding so'_def side_def by (intro conjI)
qed

theorem scrolling_keeps_cursor_visible_witness:
  "case scroll_down 3 100 2 (window_new 0 80 24 :: unit window) of (moved, w') \<Rightarrow>
     moved \<and> win_scroll_offset w' = 3 \<and> cur_line (win_cursor w') = 5
     \<and> win_scroll_offset w' \<le> cur_line (win_cursor w')"
proof -
  have "case scroll_down 3 100 2 (window_new 0 80 24 :: unit window) of (moved, w') \<Rightarrow>
     moved \<and> win_scroll_offset w' = 3 \<and> cur_line (win_cursor w') = 5"
    by code_simp
  moreover have "case scroll_down 3 100 2 (window_new 0 80 24 :: unit window) of (moved, w') \<Rightarrow>
     win_scroll_offset w' \<le> cur_line (win_cursor w')"
    using scrolling_keeps_cursor_visible [where w = "window_new 0 80 24 :: unit window"
        and line_count = 100 and v = 80 and sidescroll = 1 and sidescrolloff = 5 and n = 3 and so = 2]
    by (auto simp: window_new_def cursor_new_def)
  ultimately show ?thesis by (auto split: prod.splits)
qed

text \<open>
  When the cursor is below the last line, \<open>ensure_cursor_visible\<close> moves it to the last line and scrolls
  for the line it was on, which leaves it outside the viewport.
\<close>

lemma clamped_cursor_left_outside:
  "let w = ensure_cursor_visible 10 0 (window_move_cursor 200 0 (window_new 0 80 24 :: unit window))
   in cur_line (win_cursor w) = 9 \<and> win_scroll_offset w = 177"
  by code_simp

end
