(* ===== verification/Tabs.thy ===== *)
theory Tabs
  imports Prelude
begin

text \<open>
  Tab pages (ovim-core/src/editor/tabpage.rs): \<open>TabPage\<close>, \<open>TabPageManager\<close> and every operation of
  theirs. The window manager of a tab is a type parameter. \<open>Vec::remove\<close> and indexing panic out of
  range; an operation that uses them returns an option, with \<open>None\<close> for the panic.
\<close>

section \<open>State and operations\<close>

record 'm tab_page =
  tab_id :: nat
  tab_window_manager :: "'m option"
  tab_buffer_id :: "nat option"
  tab_definition_origin :: "nat option"

definition tab_with_id :: "nat \<Rightarrow> 'm tab_page" where
  "tab_with_id i =
     \<lparr>tab_id = i, tab_window_manager = None, tab_buffer_id = None, tab_definition_origin = None\<rparr>"

definition tab_set_buffer_id :: "nat \<Rightarrow> 'm tab_page \<Rightarrow> 'm tab_page" where
  "tab_set_buffer_id b t =
     (if tab_buffer_id t \<noteq> Some b then t\<lparr>tab_definition_origin := None\<rparr> else t)\<lparr>tab_buffer_id := Some b\<rparr>"

definition tab_set_window_manager :: "'m \<Rightarrow> 'm tab_page \<Rightarrow> 'm tab_page" where
  "tab_set_window_manager wm t = t\<lparr>tab_window_manager := Some wm\<rparr>"

record 'm tab_manager =
  tm_tabs :: "'m tab_page list"
  tm_current :: nat
  tm_next_id :: nat

definition tab_manager_new :: "'m tab_manager" where
  "tab_manager_new = \<lparr>tm_tabs = [tab_with_id 1], tm_current = 0, tm_next_id = 2\<rparr>"

definition remove_at :: "nat \<Rightarrow> 'a list \<Rightarrow> 'a list option" where
  "remove_at i xs = (if i < length xs then Some (take i xs @ drop (Suc i) xs) else None)"

definition current_tab :: "'m tab_manager \<Rightarrow> 'm tab_page option" where
  "current_tab m =
     (if tm_tabs m \<noteq> [] \<and> tm_current m < length (tm_tabs m) then Some (tm_tabs m ! tm_current m) else None)"

definition update_current_tab :: "('m tab_page \<Rightarrow> 'm tab_page) \<Rightarrow> 'm tab_manager \<Rightarrow> 'm tab_manager option" where
  "update_current_tab f m =
     map_option (\<lambda>t. m\<lparr>tm_tabs := (tm_tabs m)[tm_current m := f t]\<rparr>) (current_tab m)"

definition new_tab :: "'m tab_manager \<Rightarrow> 'm tab_manager" where
  "new_tab m =
     (let insert_at = min (tm_current m + 1) (length (tm_tabs m));
          i = tm_next_id m
      in m\<lparr>tm_next_id := min (tm_next_id m + 1) (2 ^ 64 - 1),
           tm_tabs := take insert_at (tm_tabs m) @ tab_with_id i # drop insert_at (tm_tabs m),
           tm_current := insert_at\<rparr>)"

definition close_current_tab :: "'m tab_manager \<Rightarrow> 'm tab_manager option" where
  "close_current_tab m =
     (if length (tm_tabs m) > 1
      then map_option (\<lambda>ts. m\<lparr>tm_tabs := ts,
             tm_current := if tm_current m \<ge> length ts then length ts - 1 else tm_current m\<rparr>)
           (remove_at (tm_current m) (tm_tabs m))
      else Some m)"

definition close_tab :: "nat \<Rightarrow> 'm tab_manager \<Rightarrow> 'm tab_manager option" where
  "close_tab i m =
     (if length (tm_tabs m) > 1 \<and> i < length (tm_tabs m)
      then map_option (\<lambda>ts. m\<lparr>tm_tabs := ts,
             tm_current := if tm_current m \<ge> length ts then length ts - 1
                           else if tm_current m > i then tm_current m - 1 else tm_current m\<rparr>)
           (remove_at i (tm_tabs m))
      else Some m)"

definition next_tab :: "'m tab_manager \<Rightarrow> 'm tab_manager" where
  "next_tab m =
     (if tm_tabs m \<noteq> [] then m\<lparr>tm_current := (tm_current m + 1) mod length (tm_tabs m)\<rparr> else m)"

definition previous_tab :: "'m tab_manager \<Rightarrow> 'm tab_manager" where
  "previous_tab m =
     (if tm_tabs m \<noteq> []
      then m\<lparr>tm_current := if tm_current m = 0 then length (tm_tabs m) - 1 else tm_current m - 1\<rparr>
      else m)"

definition switch_to_tab :: "nat \<Rightarrow> 'm tab_manager \<Rightarrow> 'm tab_manager" where
  "switch_to_tab i m = (if i < length (tm_tabs m) then m\<lparr>tm_current := i\<rparr> else m)"

definition first_tab :: "'m tab_manager \<Rightarrow> 'm tab_manager" where
  "first_tab m = m\<lparr>tm_current := 0\<rparr>"

definition last_tab :: "'m tab_manager \<Rightarrow> 'm tab_manager" where
  "last_tab m = (if tm_tabs m \<noteq> [] then m\<lparr>tm_current := length (tm_tabs m) - 1\<rparr> else m)"

definition close_other_tabs :: "'m tab_manager \<Rightarrow> 'm tab_manager option" where
  "close_other_tabs m =
     (if tm_tabs m = [] then Some m
      else if tm_current m < length (tm_tabs m)
      then Some (m\<lparr>tm_tabs := [tm_tabs m ! tm_current m], tm_current := 0\<rparr>) else None)"

section \<open>Sessions\<close>

datatype 'm tab_op =
  NewTab | CloseCurrentTab | CloseTab nat | NextTab | PreviousTab | SwitchToTab nat | FirstTab
| LastTab | CloseOtherTabs | SetTabBuffer nat | SetTabWindows 'm

fun tab_step :: "'m tab_op \<Rightarrow> 'm tab_manager \<Rightarrow> 'm tab_manager option" where
  "tab_step NewTab m = Some (new_tab m)"
| "tab_step CloseCurrentTab m = close_current_tab m"
| "tab_step (CloseTab i) m = close_tab i m"
| "tab_step NextTab m = Some (next_tab m)"
| "tab_step PreviousTab m = Some (previous_tab m)"
| "tab_step (SwitchToTab i) m = Some (switch_to_tab i m)"
| "tab_step FirstTab m = Some (first_tab m)"
| "tab_step LastTab m = Some (last_tab m)"
| "tab_step CloseOtherTabs m = close_other_tabs m"
| "tab_step (SetTabBuffer b) m = update_current_tab (tab_set_buffer_id b) m"
| "tab_step (SetTabWindows wm) m = update_current_tab (tab_set_window_manager wm) m"

fun tab_run :: "'m tab_op list \<Rightarrow> 'm tab_manager \<Rightarrow> 'm tab_manager option" where
  "tab_run [] m = Some m"
| "tab_run (op # ops) m = Option.bind (tab_step op m) (tab_run ops)"

lemma tab_run_append: "tab_run (xs @ ys) m = Option.bind (tab_run xs m) (tab_run ys)"
  by (induction xs arbitrary: m) (auto split: bind_splits)

abbreviation tab_ids :: "'m tab_manager \<Rightarrow> nat list" where
  "tab_ids m \<equiv> map tab_id (tm_tabs m)"

definition tabs_ok :: "'m tab_manager \<Rightarrow> bool" where
  "tabs_ok m \<longleftrightarrow> tm_current m < length (tm_tabs m) \<and> distinct (tab_ids m) \<and>
     (\<forall>i\<in>set (tab_ids m). i < tm_next_id m)"

section \<open>Steps keep the invariant\<close>

lemma update_ids: "map tab_id ((tm_tabs m)[i := f (tm_tabs m ! i)]) = tab_ids m"
  if "\<And>t. tab_id (f t) = tab_id t"
  by (cases "i < length (tm_tabs m)")
    (auto intro!: nth_equalityI simp: nth_list_update that list_update_beyond)

lemma tab_id_update [simp]:
  "tab_id (tab_set_buffer_id b t) = tab_id t" "tab_id (tab_set_window_manager wm t) = tab_id t"
  "tab_id (tab_with_id i) = i"
  by (simp_all add: tab_set_buffer_id_def tab_set_window_manager_def tab_with_id_def)

lemma distinct_insert_at:
  "distinct xs \<Longrightarrow> y \<notin> set xs \<Longrightarrow> distinct (take n xs @ y # drop n xs)"
  by (auto simp: set_take_disj_set_drop_if_distinct dest: in_set_takeD in_set_dropD)

lemma distinct_remove_at: "remove_at i xs = Some ys \<Longrightarrow> distinct (map f xs) \<Longrightarrow> distinct (map f ys)"
proof -
  assume *: "remove_at i xs = Some ys" "distinct (map f xs)"
  then have "map f ys = take i (map f xs) @ drop (Suc i) (map f xs)"
    by (auto simp: remove_at_def take_map drop_map split: if_splits)
  then show ?thesis
    using *(2) set_take_disj_set_drop_if_distinct [of "map f xs" i "Suc i"]
    by (simp only: distinct_append distinct_take distinct_drop order_refl)
qed

lemma set_remove_at: "remove_at i xs = Some ys \<Longrightarrow> set ys \<subseteq> set xs"
  unfolding remove_at_def by (auto split: if_splits dest: in_set_takeD in_set_dropD)

lemma length_remove_at: "remove_at i xs = Some ys \<Longrightarrow> length ys = length xs - 1 \<and> i < length xs"
  unfolding remove_at_def by (auto split: if_splits)

text \<open>What a step does to the ids: a new tab gets the next id, nothing else adds one.\<close>

definition ids_step :: "'m tab_manager \<Rightarrow> 'm tab_manager \<Rightarrow> bool" where
  "ids_step m m' \<longleftrightarrow> tabs_ok m' \<and> tm_next_id m \<le> tm_next_id m' \<and> tm_next_id m' \<le> tm_next_id m + 1 \<and>
     set (tab_ids m') \<subseteq> set (tab_ids m) \<union> {tm_next_id m ..< tm_next_id m'}"

lemma ids_step_same:
  "tabs_ok m \<Longrightarrow> tab_ids m' = tab_ids m \<Longrightarrow> tm_next_id m' = tm_next_id m \<Longrightarrow>
   tm_current m' < length (tm_tabs m') \<Longrightarrow> ids_step m m'"
  by (simp add: ids_step_def tabs_ok_def)

lemma ids_step_remove:
  assumes "tabs_ok m" "remove_at i (tm_tabs m) = Some ts" "tm_tabs m' = ts"
    "tm_next_id m' = tm_next_id m" "tm_current m' < length ts"
  shows "ids_step m m'"
  using assms distinct_remove_at [OF assms(2), of tab_id] set_remove_at [OF assms(2)]
  by (auto simp: ids_step_def tabs_ok_def)

lemma new_tab_step:
  assumes "tabs_ok m" "tm_next_id m < 2 ^ 64 - 1"
  shows "ids_step m (new_tab m)"
proof -
  let ?n = "min (tm_current m + 1) (length (tm_tabs m))"
  have "tab_ids (new_tab m) = take ?n (tab_ids m) @ tm_next_id m # drop ?n (tab_ids m)"
    by (simp add: new_tab_def Let_def take_map drop_map)
  moreover have "distinct (take ?n (tab_ids m) @ tm_next_id m # drop ?n (tab_ids m))"
    using assms(1) by (intro distinct_insert_at) (auto simp: tabs_ok_def)
  moreover have "tm_next_id (new_tab m) = Suc (tm_next_id m)"
    using assms(2) by (simp add: new_tab_def Let_def)
  moreover have "set (take ?n (tab_ids m) @ tm_next_id m # drop ?n (tab_ids m)) =
      insert (tm_next_id m) (set (tab_ids m))"
    by (metis append_take_drop_id list.simps(15) set_append Un_insert_right)
  moreover have "tm_current (new_tab m) < length (tm_tabs (new_tab m))"
    using assms(1) by (auto simp: new_tab_def tabs_ok_def Let_def)
  ultimately show ?thesis
    using assms(1) unfolding ids_step_def tabs_ok_def by (auto simp: less_Suc_eq)
qed

lemma tab_step_ok:
  assumes ok: "tabs_ok m" and bound: "tm_next_id m < 2 ^ 64 - 1"
  shows "\<exists>m'. tab_step op m = Some m' \<and> ids_step m m'"
proof -
  have cur: "tm_current m < length (tm_tabs m)" "tm_tabs m \<noteq> []"
    using ok by (auto simp: tabs_ok_def)
  have update: "\<exists>m'. update_current_tab f m = Some m' \<and> ids_step m m'"
    if "\<And>t. tab_id (f t) = tab_id t" for f
    using ok cur update_ids [OF that, of m "tm_current m"]
    by (auto simp: update_current_tab_def current_tab_def intro!: ids_step_same)
  have remove: "\<exists>ts. remove_at i (tm_tabs m) = Some ts" if "i < length (tm_tabs m)" for i
    using that by (simp add: remove_at_def)
  show ?thesis
  proof (cases op)
    case NewTab
    then show ?thesis using new_tab_step [OF ok bound] by simp
  next
    case CloseCurrentTab
    show ?thesis
    proof (cases "length (tm_tabs m) > 1")
      case True
      obtain ts where ts: "remove_at (tm_current m) (tm_tabs m) = Some ts"
        using remove cur by blast
      show ?thesis
        using True ts CloseCurrentTab length_remove_at [OF ts]
        by (auto simp: close_current_tab_def intro!: ids_step_remove [OF ok ts])
    next
      case False
      then show ?thesis
        using CloseCurrentTab ok cur by (auto simp: close_current_tab_def intro: ids_step_same)
    qed
  next
    case (CloseTab i)
    show ?thesis
    proof (cases "length (tm_tabs m) > 1 \<and> i < length (tm_tabs m)")
      case True
      then obtain ts where ts: "remove_at i (tm_tabs m) = Some ts"
        using remove by blast
      show ?thesis
        using True ts CloseTab length_remove_at [OF ts]
        by (auto simp: close_tab_def intro!: ids_step_remove [OF ok ts])
    next
      case False
      then show ?thesis
        using CloseTab ok cur by (auto simp: close_tab_def intro!: ids_step_same)
    qed
  next
    case CloseOtherTabs
    have "tm_tabs m ! tm_current m \<in> set (tm_tabs m)" using cur by simp
    then show ?thesis
      using CloseOtherTabs ok cur by (auto simp: close_other_tabs_def ids_step_def tabs_ok_def)
  qed (use ok cur update in \<open>auto simp: next_tab_def previous_tab_def switch_to_tab_def first_tab_def
         last_tab_def intro!: ids_step_same\<close>)
qed

lemma tab_run_ok:
  assumes "tabs_ok m" and "tm_next_id m + length ops < 2 ^ 64"
  shows "\<exists>m'. tab_run ops m = Some m' \<and> tabs_ok m' \<and> tm_next_id m \<le> tm_next_id m' \<and>
    tm_next_id m' \<le> tm_next_id m + length ops \<and>
    set (tab_ids m') \<subseteq> set (tab_ids m) \<union> {tm_next_id m ..< tm_next_id m'}"
  using assms
proof (induction ops arbitrary: m)
  case (Cons op ops)
  then obtain m1 where m1: "tab_step op m = Some m1" "ids_step m m1"
    using tab_step_ok [of m op] by auto
  then have "tabs_ok m1" "tm_next_id m1 + length ops < 2 ^ 64"
    using Cons.prems(2) by (auto simp: ids_step_def)
  from Cons.IH [OF this] obtain m' where m': "tab_run ops m1 = Some m'" "tabs_ok m'"
    "tm_next_id m1 \<le> tm_next_id m'" "tm_next_id m' \<le> tm_next_id m1 + length ops"
    "set (tab_ids m') \<subseteq> set (tab_ids m1) \<union> {tm_next_id m1 ..< tm_next_id m'}"
    by blast
  have n: "tm_next_id m \<le> tm_next_id m1" "tm_next_id m1 \<le> tm_next_id m + 1"
    and ids: "set (tab_ids m1) \<subseteq> set (tab_ids m) \<union> {tm_next_id m ..< tm_next_id m1}"
    using m1(2) by (simp_all only: ids_step_def)
  have "{tm_next_id m ..< tm_next_id m1} \<union> {tm_next_id m1 ..< tm_next_id m'} = {tm_next_id m ..< tm_next_id m'}"
    using n(1) m'(3) by (rule ivl_disj_un_two(3))
  then have "set (tab_ids m') \<subseteq> set (tab_ids m) \<union> {tm_next_id m ..< tm_next_id m'}"
    using m'(5) ids by blast
  moreover have "tm_next_id m \<le> tm_next_id m'" "tm_next_id m' \<le> tm_next_id m + length (op # ops)"
    using m'(3,4) n by simp_all
  ultimately show ?case
    using m'(1,2) m1(1) by (intro exI [of _ m']) simp
qed simp

lemma tabs_ok_new: "tabs_ok tab_manager_new"
  by (simp add: tabs_ok_def tab_manager_new_def)

text \<open>
  What each command does to the row of tabs, stated without the index arithmetic: which tabs are
  open afterwards, in which order, and which one is current.
\<close>

definition without :: "nat \<Rightarrow> 'a list \<Rightarrow> 'a list" where
  "without i xs = take i xs @ drop (Suc i) xs"

definition closed :: "nat \<Rightarrow> 'm tab_manager \<Rightarrow> 'm tab_manager \<Rightarrow> bool" where
  "closed i m m' \<longleftrightarrow>
     (if i < length (tm_tabs m) \<and> length (tm_tabs m) \<noteq> 1
      then tm_tabs m' = without i (tm_tabs m) \<and>
        (i \<noteq> tm_current m \<longrightarrow> current_tab m' = current_tab m) \<and>
        (i = tm_current m \<longrightarrow> current_tab m' = Some (tm_tabs m ! (if Suc i < length (tm_tabs m) then Suc i else i - 1)))
      else m' = m)"

fun tab_effect :: "'m tab_op \<Rightarrow> 'm tab_manager \<Rightarrow> 'm tab_manager \<Rightarrow> bool" where
  "tab_effect NewTab m m' \<longleftrightarrow>
     tm_tabs m' = take (Suc (tm_current m)) (tm_tabs m) @ tab_with_id (tm_next_id m) # drop (Suc (tm_current m)) (tm_tabs m) \<and>
     current_tab m' = Some (tab_with_id (tm_next_id m))"
| "tab_effect (CloseTab i) m m' \<longleftrightarrow> closed i m m'"
| "tab_effect CloseCurrentTab m m' \<longleftrightarrow> closed (tm_current m) m m'"
| "tab_effect NextTab m m' \<longleftrightarrow> tm_tabs m' = tm_tabs m \<and>
     tm_current m' = (if Suc (tm_current m) = length (tm_tabs m) then 0 else Suc (tm_current m))"
| "tab_effect PreviousTab m m' \<longleftrightarrow> tm_tabs m' = tm_tabs m \<and>
     tm_current m = (if Suc (tm_current m') = length (tm_tabs m) then 0 else Suc (tm_current m'))"
| "tab_effect (SwitchToTab i) m m' \<longleftrightarrow> tm_tabs m' = tm_tabs m \<and>
     tm_current m' = (if i < length (tm_tabs m) then i else tm_current m)"
| "tab_effect FirstTab m m' \<longleftrightarrow> tm_tabs m' = tm_tabs m \<and> current_tab m' = Some (hd (tm_tabs m))"
| "tab_effect LastTab m m' \<longleftrightarrow> tm_tabs m' = tm_tabs m \<and> current_tab m' = Some (last (tm_tabs m))"
| "tab_effect CloseOtherTabs m m' \<longleftrightarrow> current_tab m' = current_tab m \<and> Some (tm_tabs m') = map_option (\<lambda>t. [t]) (current_tab m)"
| "tab_effect (SetTabBuffer b) m m' \<longleftrightarrow> without (tm_current m) (tm_tabs m') = without (tm_current m) (tm_tabs m) \<and>
     tm_current m' = tm_current m \<and> current_tab m' = map_option (tab_set_buffer_id b) (current_tab m)"
| "tab_effect (SetTabWindows wm) m m' \<longleftrightarrow> without (tm_current m) (tm_tabs m') = without (tm_current m) (tm_tabs m) \<and>
     tm_current m' = tm_current m \<and> current_tab m' = map_option (tab_set_window_manager wm) (current_tab m)"

lemma nth_without: "k < length xs - 1 \<Longrightarrow> without i xs ! k = xs ! (if k < i then k else Suc k)"
  by (auto simp: without_def nth_append min_def)

lemma length_without [simp]: "i < length xs \<Longrightarrow> length (without i xs) = length xs - 1"
  by (simp add: without_def)

lemma without_update [simp]: "without i (xs[i := x]) = without i xs"
  by (simp add: without_def)

lemma close_tab_effect:
  assumes cur: "tm_current m < length (tm_tabs m)"
  shows "\<exists>m'. close_tab i m = Some m' \<and> closed i m m'"
proof (cases "i < length (tm_tabs m) \<and> length (tm_tabs m) \<noteq> 1")
  case False
  then have "\<not> (1 < length (tm_tabs m) \<and> i < length (tm_tabs m))" by auto
  then have "close_tab i m = Some m" by (simp only: close_tab_def if_False)
  then show ?thesis using False by (auto simp: closed_def)
next
  case True
  let ?ts = "tm_tabs m"
  define c where "c = (if tm_current m \<ge> length ?ts - 1 then length ?ts - 1 - 1 else if tm_current m > i then tm_current m - 1 else tm_current m)"
  have i: "i < length ?ts" "1 < length ?ts" using True cur by auto
  have run: "close_tab i m = Some (m\<lparr>tm_tabs := without i ?ts, tm_current := c\<rparr>)"
    using i by (simp add: close_tab_def remove_at_def without_def c_def)
  have c: "c < length ?ts - 1" using i cur by (auto simp: c_def)
  have "i \<noteq> tm_current m \<Longrightarrow> (if c < i then c else Suc c) = tm_current m"
    "i = tm_current m \<Longrightarrow> (if c < i then c else Suc c) = (if Suc i < length ?ts then Suc i else i - 1)"
    using i cur by (auto simp: c_def)
  moreover have "without i ?ts \<noteq> []" using i length_without [of i ?ts] by (cases "without i ?ts") auto
  then have "current_tab (m\<lparr>tm_tabs := without i ?ts, tm_current := c\<rparr>) = Some (?ts ! (if c < i then c else Suc c))"
    using i c nth_without [OF c, of i] by (simp add: current_tab_def)
  moreover have "current_tab m = Some (?ts ! tm_current m)" using cur by (auto simp: current_tab_def)
  ultimately have "closed i m (m\<lparr>tm_tabs := without i ?ts, tm_current := c\<rparr>)"
    using True by (cases "i = tm_current m") (auto simp: closed_def)
  then show ?thesis using run by blast
qed

lemma tab_step_effect:
  assumes "tabs_ok m"
  shows "\<exists>m'. tab_step op m = Some m' \<and> tab_effect op m m'"
proof -
  have cur: "tm_current m < length (tm_tabs m)" "tm_tabs m \<noteq> []" using assms by (auto simp: tabs_ok_def)
  have close: "close_current_tab m = close_tab (tm_current m) m"
    using cur by (simp add: close_current_tab_def close_tab_def)
  show ?thesis
  proof (cases op)
    case NewTab
    then show ?thesis using cur by (simp add: new_tab_def current_tab_def Let_def min_absorb1 nth_append)
  next
    case NextTab
    then show ?thesis using cur by (simp add: next_tab_def mod_Suc)
  next
    case PreviousTab
    then show ?thesis using cur by (auto simp: previous_tab_def)
  qed (use cur close close_tab_effect [OF cur(1)] in
    \<open>auto simp: switch_to_tab_def first_tab_def last_tab_def close_other_tabs_def update_current_tab_def current_tab_def
       hd_conv_nth last_conv_nth\<close>)
qed

section \<open>Properties\<close>

text \<open>
  C17. Tab pages keep their identity: no session panics, there is always a current tab, the ids of
  the open tabs differ, and an id that was closed never comes back (for fewer than \<open>2^64 - 2\<close>
  operations, past which the counter saturates). At any time of a session every command succeeds
  and touches no other tab than it should: a new tab goes right after the current one and leaves the
  others in order; closing a tab removes that tab only and keeps the current one current, or selects
  the tab after it (before it at the end of the row) if it was the current one, and the only tab
  stays; stepping and switching change which tab is current and nothing else; closing the others
  keeps the current one; attaching a buffer or windows changes the current tab alone.
\<close>

theorem tab_sessions_sound:
  assumes "length (before @ between @ after) < 2 ^ 64 - 2"
    and "tab_run before tab_manager_new = Some m1"
    and "tab_run between m1 = Some m2"
  shows "\<exists>m3. tab_run after m2 = Some m3 \<and> current_tab m3 \<noteq> None \<and> distinct (tab_ids m3) \<and>
      (\<forall>i \<in> set (tab_ids m1). i \<notin> set (tab_ids m2) \<longrightarrow> i \<notin> set (tab_ids m3)) \<and>
      (\<forall>op. \<exists>m. tab_step op m3 = Some m \<and> tab_effect op m3 m)"
proof -
  have m1: "tabs_ok m1" "tm_next_id m1 \<le> 2 + length before"
    using tab_run_ok [OF tabs_ok_new, of before] assms by (auto simp: tab_manager_new_def)
  have m2: "tabs_ok m2" "tm_next_id m2 \<le> 2 + length before + length between" "tm_next_id m1 \<le> tm_next_id m2"
    using tab_run_ok [OF m1(1), of between] assms m1 by auto
  obtain m3 where m3: "tab_run after m2 = Some m3" "tabs_ok m3"
      "set (tab_ids m3) \<subseteq> set (tab_ids m2) \<union> {tm_next_id m2 ..< tm_next_id m3}"
    using tab_run_ok [OF m2(1), of after] assms m2 by auto
  have "\<forall>i \<in> set (tab_ids m1). i < tm_next_id m2"
    using m1(1) m2(3) by (auto simp: tabs_ok_def)
  then have "\<forall>i \<in> set (tab_ids m1). i \<notin> set (tab_ids m2) \<longrightarrow> i \<notin> set (tab_ids m3)"
    using m3(3) by fastforce
  moreover have "current_tab m3 \<noteq> None" "distinct (tab_ids m3)"
    using m3(2) by (auto simp: tabs_ok_def current_tab_def)
  ultimately show ?thesis
    using m3(1) tab_step_effect [OF m3(2)] by blast
qed

theorem tab_sessions_sound_witness:
  "\<exists>m3. tab_run [NewTab, CloseTab 0] \<lparr>tm_tabs = [tab_with_id 1, tab_with_id 3 :: unit tab_page],
        tm_current = 0, tm_next_id = 4\<rparr> = Some m3 \<and> 2 \<notin> set (tab_ids m3)"
proof -
  have "\<exists>m3. tab_run [NewTab, CloseTab 0] \<lparr>tm_tabs = [tab_with_id 1, tab_with_id 3 :: unit tab_page],
        tm_current = 0, tm_next_id = 4\<rparr> = Some m3 \<and>
      (\<forall>i \<in> set (tab_ids \<lparr>tm_tabs = [tab_with_id 1, tab_with_id 3, tab_with_id 2 :: unit tab_page],
        tm_current = 1, tm_next_id = 4\<rparr>). i \<notin> set (tab_ids \<lparr>tm_tabs =
          [tab_with_id 1, tab_with_id 3 :: unit tab_page], tm_current = 0, tm_next_id = 4\<rparr>)
        \<longrightarrow> i \<notin> set (tab_ids m3))"
    using tab_sessions_sound [where before = "[NewTab, FirstTab, NewTab :: unit tab_op]"
        and between = "[FirstTab, CloseTab 2]" and after = "[NewTab, CloseTab 0]"
        and ?m1.0 = "\<lparr>tm_tabs = [tab_with_id 1, tab_with_id 3, tab_with_id 2],
          tm_current = 1, tm_next_id = 4\<rparr>"
        and ?m2.0 = "\<lparr>tm_tabs = [tab_with_id 1, tab_with_id 3], tm_current = 0, tm_next_id = 4\<rparr>"]
    by (force simp: tab_manager_new_def new_tab_def first_tab_def close_tab_def remove_at_def Let_def)
  then show ?thesis by simp
qed

end
