(* ===== verification/ExTable.thy ===== *)
theory ExTable
  imports Prelude "HOL-Library.List_Lexorder"
begin

text \<open>
  The table of ex commands (ovim-core/src/commands/table.rs) and the buffer kinds that change what a
  command may do (commands/contexts.rs): every entry of \<open>COMMANDS\<close>, the resolution of a typed name
  by vim's abbreviation rules, and the names offered for completion.

  A handler is a function pointer or a closure; the table stores which one (\<open>HandlerFn\<close> with the
  path of the function, the closures around \<open>options::map\<close> and its kin with their arguments, and
  \<open>CallMethod\<close> with the message and the method for the closures of the macro \<open>call!\<close>). The
  literals of the table are values of type \<^typ>\<open>string\<close>; \<open>rs\<close> turns them into text.
\<close>

section \<open>Buffer kinds\<close>

datatype buffer_kind = NormalBuffer | PseudocodeBuffer | ChatScratchBuffer | CommitMessageBuffer

text \<open>\<open>Contexts\<close> is a bit set over the kinds in a \<open>u8\<close>.\<close>

type_synonym contexts = "8 word"

fun kind_bit :: "buffer_kind \<Rightarrow> 8 word" where
  "kind_bit NormalBuffer = 1"
| "kind_bit PseudocodeBuffer = 2"
| "kind_bit ChatScratchBuffer = 4"
| "kind_bit CommitMessageBuffer = 8"

definition contexts_editable :: contexts where
  "contexts_editable = or (or 1 4) 8"

definition contexts_any :: contexts where
  "contexts_any = or (or (or 1 2) 4) 8"

definition contexts_allows :: "contexts \<Rightarrow> buffer_kind \<Rightarrow> bool" where
  "contexts_allows c kind \<longleftrightarrow> and c (kind_bit kind) \<noteq> 0"

definition kind_refusal :: "buffer_kind \<Rightarrow> string" where
  "kind_refusal kind =
     (case kind of
        PseudocodeBuffer \<Rightarrow> ''Pseudocode is a reading view; press Enter to edit or save source''
      | _ \<Rightarrow> ''Not allowed in this buffer'')"

datatype lifecycle = LifecycleWrite | LifecycleQuit | LifecycleDelete | LifecycleClose

section \<open>Commands\<close>

datatype arg_kind = ArgNone | ArgText | ArgFile | ArgSubstitute | ArgRest

datatype range_policy = RangeNone | RangeLine | RangeLineOrZero | RangeWhole | RangeGoto

datatype map_mode = MapAll | MapNormal | MapInsert | MapVisual | MapCommand

datatype handler =
  HandlerFn string
| OptionsMap map_mode bool
| OptionsUnmap map_mode
| OptionsMapclear map_mode
| CallMethod "string option" string

record ex_command =
  ex_names :: "string list"
  ex_bang :: bool
  ex_shell_bang :: bool
  ex_range :: range_policy
  ex_args :: arg_kind
  ex_contexts :: contexts
  ex_lifecycle :: "lifecycle option"
  ex_handler :: handler

definition ex :: "string list \<Rightarrow> handler \<Rightarrow> ex_command" where
  "ex names h =
     \<lparr>ex_names = names, ex_bang = False, ex_shell_bang = False, ex_range = RangeNone,
      ex_args = ArgNone, ex_contexts = contexts_editable, ex_lifecycle = None, ex_handler = h\<rparr>"

definition with_bang :: "ex_command \<Rightarrow> ex_command" where
  "with_bang c = c\<lparr>ex_bang := True\<rparr>"

definition with_shell_bang :: "ex_command \<Rightarrow> ex_command" where
  "with_shell_bang c = c\<lparr>ex_shell_bang := True\<rparr>"

definition with_range :: "range_policy \<Rightarrow> ex_command \<Rightarrow> ex_command" where
  "with_range r c = c\<lparr>ex_range := r\<rparr>"

definition with_args :: "arg_kind \<Rightarrow> ex_command \<Rightarrow> ex_command" where
  "with_args a c = c\<lparr>ex_args := a\<rparr>"

definition anywhere :: "ex_command \<Rightarrow> ex_command" where
  "anywhere c = c\<lparr>ex_contexts := contexts_any\<rparr>"

definition with_lifecycle :: "lifecycle \<Rightarrow> ex_command \<Rightarrow> ex_command" where
  "with_lifecycle l c = c\<lparr>ex_lifecycle := Some l\<rparr>"

lemmas ex_builders = ex_def with_bang_def with_shell_bang_def with_range_def with_args_def
  anywhere_def with_lifecycle_def

section \<open>The table\<close>

text \<open>The entries of \<open>COMMANDS\<close> in their order, one list per group of the source.\<close>

definition text_commands :: "ex_command list" where
  "text_commands =
    [anywhere (with_range RangeGoto (ex [''''] (HandlerFn ''edit::goto_line''))),
     with_args ArgText (with_range RangeLine (ex [''d[elete]''] (HandlerFn ''edit::delete''))),
     with_args ArgText (with_range RangeLine (ex [''y[ank]''] (HandlerFn ''edit::yank''))),
     with_args ArgText (with_range RangeLine (with_bang (ex [''j[oin]''] (HandlerFn ''edit::join'')))),
     with_args ArgText (with_range RangeWhole (with_bang (ex [''sor[t]''] (HandlerFn ''edit::sort'')))),
     with_args ArgText (with_range RangeLine (ex [''t'', ''co[py]''] (HandlerFn ''edit::copy''))),
     with_args ArgText (with_range RangeLine (ex [''m[ove]''] (HandlerFn ''edit::move_lines''))),
     with_range RangeLine (ex [''p[rint]''] (HandlerFn ''edit::print'')),
     ex [''u[ndo]''] (HandlerFn ''edit::undo''),
     ex [''red[o]''] (HandlerFn ''edit::redo''),
     with_args ArgRest (with_range RangeLine (with_bang (ex [''norm[al]''] (HandlerFn ''edit::normal''))))]"

definition pattern_commands :: "ex_command list" where
  "pattern_commands =
    [with_args ArgSubstitute (with_range RangeLine (ex [''s[ubstitute]''] (HandlerFn ''pattern::substitute''))),
     with_args ArgRest (with_range RangeWhole (with_bang (ex [''g[lobal]''] (HandlerFn ''pattern::global'')))),
     with_args ArgRest (with_range RangeWhole (ex [''v[global]''] (HandlerFn ''pattern::global'')))]"

definition shell_commands :: "ex_command list" where
  "shell_commands =
    [with_args ArgRest (with_range RangeLine (ex [''!''] (HandlerFn ''shell::bang''))),
     with_args ArgFile (with_range RangeLineOrZero (with_shell_bang (ex [''r[ead]''] (HandlerFn ''shell::read'')))),
     with_args ArgRest (ex [''ter[minal]'', ''sh[ell]''] (HandlerFn ''shell::terminal''))]"

definition file_commands :: "ex_command list" where
  "file_commands =
    [with_lifecycle LifecycleWrite (with_args ArgFile (with_range RangeWhole (with_bang (ex [''w[rite]''] (HandlerFn ''files::write''))))),
     with_lifecycle LifecycleWrite (with_args ArgFile (with_bang (ex [''wq''] (HandlerFn ''files::write_quit'')))),
     with_lifecycle LifecycleWrite (with_args ArgFile (with_bang (ex [''x[it]'', ''exi[t]''] (HandlerFn ''files::xit'')))),
     with_bang (ex [''wa[ll]'', ''writeall''] (HandlerFn ''files::write_all'')),
     with_bang (ex [''wqa[ll]'', ''xa[ll]''] (HandlerFn ''files::write_all_quit'')),
     with_args ArgFile (with_bang (ex [''up[date]''] (HandlerFn ''files::update''))),
     with_args ArgFile (with_bang (ex [''sav[eas]''] (HandlerFn ''files::save_as''))),
     anywhere (with_args ArgFile (with_bang (ex [''e[dit]''] (HandlerFn ''files::edit'')))),
     ex [''checkt[ime]''] (HandlerFn ''files::checktime''),
     with_bang (ex [''rec[over]''] (HandlerFn ''files::recover'')),
     ex [''f[ile]''] (HandlerFn ''files::file_info''),
     ex [''pw[d]''] (HandlerFn ''files::pwd''),
     with_args ArgFile (ex [''cd'', ''lc[d]''] (HandlerFn ''files::cd''))]"

definition window_commands :: "ex_command list" where
  "window_commands =
    [with_lifecycle LifecycleQuit (with_bang (ex [''q[uit]''] (HandlerFn ''windows::quit''))),
     anywhere (with_bang (ex [''qa[ll]'', ''quita[ll]''] (HandlerFn ''windows::quit_all''))),
     with_args ArgText (with_bang (ex [''cq[uit]''] (HandlerFn ''windows::cquit''))),
     with_lifecycle LifecycleClose (with_bang (ex [''clo[se]''] (HandlerFn ''windows::close''))),
     with_bang (ex [''on[ly]''] (HandlerFn ''windows::only'')),
     anywhere (with_args ArgFile (ex [''sp[lit]''] (HandlerFn ''windows::split_horizontal''))),
     anywhere (with_args ArgFile (ex [''vs[plit]''] (HandlerFn ''windows::split_vertical''))),
     anywhere (with_args ArgFile (ex [''tabnew''] (HandlerFn ''windows::tab_new''))),
     anywhere (with_args ArgFile (ex [''tabe[dit]''] (HandlerFn ''windows::tab_new''))),
     anywhere (ex [''tabn[ext]''] (HandlerFn ''windows::tab_next'')),
     anywhere (ex [''tabp[revious]'', ''tabN[ext]''] (HandlerFn ''windows::tab_previous'')),
     ex [''tabfir[st]'', ''tabr[ewind]''] (HandlerFn ''windows::tab_first''),
     ex [''tabl[ast]''] (HandlerFn ''windows::tab_last''),
     with_bang (ex [''tabc[lose]''] (HandlerFn ''windows::tab_close'')),
     with_bang (ex [''tabo[nly]''] (HandlerFn ''windows::tab_only'')),
     ex [''tabs''] (HandlerFn ''windows::tabs''),
     anywhere (with_bang (ex [''ls'', ''buffers'', ''files''] (HandlerFn ''windows::list_buffers''))),
     with_args ArgText (with_bang (ex [''b[uffer]''] (HandlerFn ''windows::buffer''))),
     anywhere (with_bang (ex [''bn[ext]''] (HandlerFn ''windows::next_buffer''))),
     anywhere (with_bang (ex [''bp[revious]'', ''bN[ext]''] (HandlerFn ''windows::previous_buffer''))),
     with_lifecycle LifecycleDelete (with_bang (ex [''bd[elete]''] (HandlerFn ''windows::delete_buffer'')))]"

definition option_commands :: "ex_command list" where
  "option_commands =
    [anywhere (with_args ArgText (ex [''se[t]''] (HandlerFn ''options::set''))),
     with_args ArgText (ex [''unset''] (HandlerFn ''options::unset'')),
     with_args ArgText (ex [''colo[rscheme]''] (HandlerFn ''options::colorscheme'')),
     with_args ArgText (ex [''map''] (OptionsMap MapAll False)),
     with_args ArgText (ex [''nm[ap]''] (OptionsMap MapNormal False)),
     with_args ArgText (ex [''im[ap]''] (OptionsMap MapInsert False)),
     with_args ArgText (ex [''vm[ap]'', ''xm[ap]''] (OptionsMap MapVisual False)),
     with_args ArgText (ex [''cm[ap]''] (OptionsMap MapCommand False)),
     with_args ArgText (ex [''no[remap]''] (OptionsMap MapAll True)),
     with_args ArgText (ex [''nn[oremap]''] (OptionsMap MapNormal True)),
     with_args ArgText (ex [''ino[remap]''] (OptionsMap MapInsert True)),
     with_args ArgText (ex [''vn[oremap]'', ''xn[oremap]''] (OptionsMap MapVisual True)),
     with_args ArgText (ex [''cno[remap]''] (OptionsMap MapCommand True)),
     with_args ArgText (ex [''unm[ap]''] (OptionsUnmap MapAll)),
     with_args ArgText (ex [''nun[map]''] (OptionsUnmap MapNormal)),
     with_args ArgText (ex [''iu[nmap]''] (OptionsUnmap MapInsert)),
     with_args ArgText (ex [''vu[nmap]'', ''xu[nmap]''] (OptionsUnmap MapVisual)),
     with_args ArgText (ex [''cu[nmap]''] (OptionsUnmap MapCommand)),
     ex [''mapc[lear]''] (OptionsMapclear MapAll),
     ex [''nmapc[lear]''] (OptionsMapclear MapNormal),
     ex [''imapc[lear]''] (OptionsMapclear MapInsert),
     ex [''vmapc[lear]'', ''xmapc[lear]''] (OptionsMapclear MapVisual),
     ex [''cmapc[lear]''] (OptionsMapclear MapCommand),
     ex [''noh[lsearch]''] (HandlerFn ''options::nohlsearch''),
     with_args ArgText (ex [''reg[isters]'', ''di[splay]''] (HandlerFn ''options::registers'')),
     with_args ArgText (ex [''marks''] (HandlerFn ''options::marks'')),
     with_args ArgText (ex [''h[elp]''] (HandlerFn ''options::help'')),
     ex [''blame''] (HandlerFn ''options::blame''),
     with_args ArgRest (ex [''lua''] (HandlerFn ''options::lua'')),
     with_args ArgFile (ex [''luaf[ile]''] (HandlerFn ''options::luafile'')),
     with_args ArgFile (ex [''so[urce]''] (HandlerFn ''options::source'')),
     ex [''reload'', ''ConfigReload''] (HandlerFn ''options::reload'')]"

definition project_commands :: "ex_command list" where
  "project_commands =
    [with_args ArgText (with_bang (ex [''mak[e]''] (HandlerFn ''quickfix::make''))),
     ex [''cope[n]''] (HandlerFn ''quickfix::open''),
     ex [''ccl[ose]''] (HandlerFn ''quickfix::close''),
     with_bang (ex [''cn[ext]''] (HandlerFn ''quickfix::next'')),
     with_bang (ex [''cp[revious]'', ''cN[ext]''] (HandlerFn ''quickfix::previous'')),
     with_bang (ex [''cfir[st]'', ''cr[ewind]''] (HandlerFn ''quickfix::first'')),
     with_bang (ex [''cla[st]''] (HandlerFn ''quickfix::last'')),
     with_args ArgRest (ex [''cdo''] (HandlerFn ''quickfix::quickfix_do'')),
     with_args ArgRest (ex [''cfdo''] (HandlerFn ''quickfix::quickfix_do'')),
     with_args ArgRest (ex [''gr[ep]'', ''vim[grep]''] (HandlerFn ''project::grep'')),
     with_args ArgRest (ex [''SearchReplace'', ''Sr'', ''ReplaceInFiles''] (HandlerFn ''project::search_replace'')),
     ex [''ReplaceApply''] (HandlerFn ''project::replace_apply''),
     ex [''ReplaceUndo''] (HandlerFn ''project::replace_undo''),
     with_args ArgText (ex [''Problems'', ''Diagnostics''] (HandlerFn ''project::problems'')),
     with_args ArgText (ex [''Symbols'', ''WorkspaceSymbols''] (HandlerFn ''project::symbols'')),
     ex [''Outline'', ''DocumentSymbols''] (CallMethod None ''open_outline_picker()''),
     ex [''Recent'', ''RecentFiles''] (CallMethod None ''open_recent_files_picker()''),
     ex [''Buffers''] (CallMethod None ''open_buffer_picker()'')]"

definition git_commands :: "ex_command list" where
  "git_commands =
    [with_args ArgText (ex [''GitDiff'', ''gitdiff'', ''DiffReview''] (HandlerFn ''git::diff_review'')),
     ex [''DiffCommentsDetach''] (CallMethod None ''remove_diff_comments_attachment()''),
     ex [''DiffCommentsClear''] (CallMethod None ''clear_diff_comments()''),
     with_args ArgText (ex [''GitDiffLayout'', ''gitdifflayout''] (HandlerFn ''git::diff_layout'')),
     with_args ArgFile (ex [''GitDiffFile''] (HandlerFn ''git::diff_file'')),
     with_args ArgFile (ex [''GitEdit''] (HandlerFn ''git::edit'')),
     with_args ArgText (ex [''GitShow''] (HandlerFn ''git::show'')),
     ex [''GitFetch'', ''gitfetch''] (CallMethod None ''fetch_review_base()''),
     ex [''GitStatus'', ''Gstatus''] (CallMethod None ''open_git_status_picker()''),
     ex [''GitStage'', ''GitStageFile''] (CallMethod None ''git_stage_file()''),
     ex [''GitUnstage'', ''GitUnstageFile''] (CallMethod None ''git_unstage_file()''),
     ex [''GitStageHunk''] (CallMethod None ''git_stage_hunk()''),
     ex [''GitUnstageHunk''] (CallMethod None ''git_unstage_hunk()''),
     ex [''GitStageAll''] (CallMethod None ''git_stage_all()''),
     ex [''GitCommit'', ''Gcommit''] (CallMethod None ''open_commit_message(false)''),
     ex [''GitAmend''] (CallMethod None ''open_commit_message(true)''),
     ex [''GitLog'', ''GitFileLog''] (CallMethod None ''open_file_history_picker()''),
     ex [''GitLogAll''] (CallMethod None ''open_repo_history_picker()''),
     ex [''GitLineLog'', ''GitLineHistory''] (CallMethod None ''open_line_history_picker()''),
     ex [''ConflictNext''] (CallMethod None ''goto_conflict(true)''),
     ex [''ConflictPrev''] (CallMethod None ''goto_conflict(false)''),
     ex [''ConflictOurs''] (CallMethod None ''resolve_conflict(Resolution::Ours)''),
     ex [''ConflictTheirs''] (CallMethod None ''resolve_conflict(Resolution::Theirs)''),
     ex [''ConflictBoth''] (CallMethod None ''resolve_conflict(Resolution::Both)''),
     ex [''ConflictNone''] (CallMethod None ''resolve_conflict(Resolution::Neither)'')]"

definition lsp_commands :: "ex_command list" where
  "lsp_commands =
    [ex [''LspInfo''] (HandlerFn ''lsp::info''),
     ex [''LspStatus''] (HandlerFn ''lsp::status''),
     ex [''LspLog''] (HandlerFn ''lsp::log''),
     with_args ArgText (ex [''LspRestart''] (HandlerFn ''lsp::restart'')),
     with_args ArgRest (ex [''LspExec''] (HandlerFn ''lsp::exec'')),
     with_args ArgText (ex [''LspRename''] (HandlerFn ''lsp::rename'')),
     ex [''LspReloadProject''] (CallMethod None ''lsp_execute_command(hyperion.reloadProject, Vec::new())''),
     ex [''LspInstall'', ''LspManager''] (CallMethod None ''open_lsp_manager()''),
     ex [''format'', ''Format''] (CallMethod (Some ''Formatting document...'') ''request_format_document()'')]"

definition run_commands :: "ex_command list" where
  "run_commands =
    [ex [''Run'', ''RunCursor''] (CallMethod None ''launch_at_cursor(LaunchMode::Run)''),
     ex [''Debug''] (CallMethod None ''launch_at_cursor(LaunchMode::Debug)''),
     ex [''RunConfig'', ''RunPick''] (CallMethod None ''launch_pick_config(LaunchMode::Run)''),
     ex [''DebugConfig'', ''DebugPick''] (CallMethod None ''launch_pick_config(LaunchMode::Debug)''),
     ex [''RunLast'', ''DebugLast''] (CallMethod None ''launch_last()''),
     ex [''RunStop''] (CallMethod None ''launch_stop()''),
     ex [''RunConsole'', ''RunToggle''] (CallMethod None ''toggle_run_console()''),
     ex [''RunFocus''] (CallMethod None ''focus_run_console()''),
     ex [''RunPrev''] (CallMethod None ''run_console_mut().view_previous()''),
     ex [''RunNext''] (CallMethod None ''run_console_mut().view_next()''),
     ex [''RunEof''] (CallMethod None ''run_eof()''),
     ex [''RunClear''] (CallMethod None ''clear_run_console()''),
     with_args ArgText (ex [''RunJump''] (HandlerFn ''launch::run_jump'')),
     with_args ArgRest (ex [''RunInput''] (HandlerFn ''launch::run_input'')),
     ex [''CodeLens'', ''CodeLensRun''] (CallMethod None ''run_code_lens_at_cursor(LaunchMode::Run)''),
     ex [''CodeLensDebug''] (CallMethod None ''run_code_lens_at_cursor(LaunchMode::Debug)''),
     ex [''TestFile'', ''TF''] (CallMethod (Some ''Running tests for current file...'') ''run_test_file()''),
     ex [''TestNearest'', ''TN''] (CallMethod (Some ''Running nearest test...'') ''run_test_nearest()''),
     ex [''TestAll'', ''TA'', ''TestSuite'', ''TS''] (CallMethod (Some ''Running all tests...'') ''run_test_all()''),
     ex [''TestDebug'', ''TD''] (CallMethod (Some ''Debugging nearest test...'') ''debug_test_nearest()''),
     ex [''TestDebugFile'', ''TDF''] (CallMethod (Some ''Debugging tests of current file...'') ''debug_test_file()''),
     ex [''TestLast'', ''TL''] (CallMethod (Some ''Re-running last test...'') ''run_test_last()''),
     ex [''TestVisit'', ''TV''] (CallMethod (Some ''Visiting last-tested position...'') ''test_visit()''),
     ex [''TestPanel'', ''TestToggle'', ''TP''] (HandlerFn ''launch::test_panel''),
     ex [''TestOutput'', ''MakeOutput''] (HandlerFn ''launch::test_output''),
     with_args ArgText (ex [''PanelSize''] (HandlerFn ''launch::panel_size'')),
     with_args ArgText (ex [''debug''] (HandlerFn ''debug::debug'')),
     with_args ArgRest (ex [''eval''] (HandlerFn ''debug::eval'')),
     ex [''DebugPanel'', ''DebugFocus''] (HandlerFn ''debug::focus_panel''),
     with_args ArgRest (ex [''DebugWatch''] (HandlerFn ''debug::watch'')),
     with_args ArgRest (ex [''DebugUnwatch''] (HandlerFn ''debug::unwatch'')),
     with_args ArgText (ex [''DebugBreakpoints''] (HandlerFn ''debug::breakpoints'')),
     with_args ArgText (ex [''DebugException''] (HandlerFn ''debug::exception'')),
     with_args ArgText (ex [''DebugExpand''] (HandlerFn ''debug::expand'')),
     with_args ArgRest (ex [''DebugLogpoint''] (HandlerFn ''debug::logpoint'')),
     with_args ArgText (ex [''DebugHitCount''] (HandlerFn ''debug::hit_count'')),
     with_args ArgRest (ex [''DebugCondition''] (HandlerFn ''debug::condition''))]"

definition session_commands :: "ex_command list" where
  "session_commands =
    [with_args ArgText (ex [''ai''] (HandlerFn ''session::ai'')),
     with_args ArgText (ex [''workflow''] (HandlerFn ''session::workflow'')),
     with_args ArgText (ex [''session''] (HandlerFn ''session::session'')),
     ex [''clearaedits''] (HandlerFn ''session::clear_agent_edits''),
     ex [''browser''] (HandlerFn ''session::browser'')]"

definition commands :: "ex_command list" where
  "commands = text_commands @ pattern_commands @ shell_commands @ file_commands @ window_commands @
     option_commands @ project_commands @ git_commands @ lsp_commands @ run_commands @ session_commands"

section \<open>Names\<close>

definition full_name :: "string \<Rightarrow> string" where
  "full_name spec = filter (\<lambda>c. c \<noteq> CHR ''['' \<and> c \<noteq> CHR '']'') spec"

definition split_once :: "'a \<Rightarrow> 'a list \<Rightarrow> ('a list \<times> 'a list) option" where
  "split_once d s = (if d \<in> set s then Some (takeWhile (\<lambda>c. c \<noteq> d) s, tl (dropWhile (\<lambda>c. c \<noteq> d) s)) else None)"

definition trim_end_matches :: "'a \<Rightarrow> 'a list \<Rightarrow> 'a list" where
  "trim_end_matches d s = rev (dropWhile (\<lambda>c. c = d) (rev s))"

definition name_matches :: "string \<Rightarrow> rstr \<Rightarrow> bool" where
  "name_matches spec typed =
     (case split_once CHR ''['' spec of
        Some (required, optional) \<Rightarrow>
          (let optional = trim_end_matches CHR '']'' optional
           in length typed \<ge> length required \<and> length typed \<le> length required + length optional \<and>
              prefix (rs required) typed \<and> prefix (drop (length required) typed) (rs optional))
      | None \<Rightarrow> rs spec = typed)"

definition accepts :: "ex_command \<Rightarrow> rstr \<Rightarrow> bool" where
  "accepts c typed \<longleftrightarrow> (\<exists>spec \<in> set (ex_names c). name_matches spec typed)"

definition lookup_command :: "rstr \<Rightarrow> ex_command option" where
  "lookup_command typed = find (\<lambda>c. accepts c typed) commands"

definition command_names :: "rstr list" where
  "command_names =
     remdups_adj (sort (filter (\<lambda>n. n \<noteq> [] \<and> is_ascii_alphabetic (hd n))
       (concat (map (\<lambda>c. map (\<lambda>spec. rs (full_name spec)) (ex_names c)) commands))))"

section \<open>No spelling has two meanings\<close>

definition spec_parts :: "string \<Rightarrow> string \<times> string" where
  "spec_parts spec =
     (case split_once CHR ''['' spec of
        Some (r, op) \<Rightarrow> (r, trim_end_matches CHR '']'' op)
      | None \<Rightarrow> (spec, []))"

text \<open>Two names clash when some text extends the required part of both without leaving either.\<close>

fun specs_clash :: "string \<times> string \<Rightarrow> string \<times> string \<Rightarrow> bool" where
  "specs_clash (c # r, op) (d # r', op') \<longleftrightarrow> c = d \<and> specs_clash (r, op) (r', op')"
| "specs_clash ([], op) (r', op') \<longleftrightarrow> prefix r' op"
| "specs_clash (r, op) ([], op') \<longleftrightarrow> prefix r op'"

abbreviation specs_apart :: "string \<times> string \<Rightarrow> string \<times> string \<Rightarrow> bool" where
  "specs_apart p p' \<equiv> \<not> specs_clash p p'"

lemma clash_if_common:
  "prefix r u \<Longrightarrow> prefix u (r @ op) \<Longrightarrow> prefix r' u \<Longrightarrow> prefix u (r' @ op') \<Longrightarrow>
   specs_clash (r, op) (r', op')"
proof (induction "(r, op)" "(r', op')" arbitrary: r r' u rule: specs_clash.induct)
  case (1 c r d r')
  then show ?case by (cases u) auto
next
  case (3 v va)
  then show ?case using prefix_order.trans by fastforce
qed (use prefix_order.trans in fastforce)

lemma rs_inject [simp]: "rs s = rs s' \<longleftrightarrow> s = s'"
  unfolding rs_def by (rule inj_eq [OF inj_mapI [OF inj_of_char]])

lemma rs_append [simp]: "rs (s @ s') = rs s @ rs s'"
  by (simp add: rs_def)

lemma length_rs [simp]: "length (rs s) = length s"
  by (simp add: rs_def)

lemma take_rs: "take n (rs s) = rs (take n s)"
  by (simp add: rs_def take_map)

text \<open>
  The names of the table are checked bucket by bucket: names in different buckets of a predicate
  that tells them apart need no comparison.
\<close>

fun buckets :: "('a \<Rightarrow> bool) list \<Rightarrow> 'a list \<Rightarrow> 'a list list" where
  "buckets [] xs = [xs]"
| "buckets (p # ps) xs = buckets ps (filter p xs) @ buckets ps (filter (\<lambda>x. \<not> p x) xs)"

lemma sorted_wrt_split:
  assumes "sorted_wrt R (filter p xs)" "sorted_wrt R (filter (\<lambda>x. \<not> p x) xs)"
    and "\<And>x y. x \<in> set xs \<Longrightarrow> y \<in> set xs \<Longrightarrow> p x \<noteq> p y \<Longrightarrow> R x y"
  shows "sorted_wrt R xs"
  using assms
proof (induction xs)
  case (Cons x xs)
  then have "sorted_wrt R xs" by (cases "p x") auto
  moreover have "R x y" if "y \<in> set xs" for y
    using Cons.prems that by (cases "p x"; cases "p y") auto
  ultimately show ?case by simp
qed simp

lemma sorted_wrt_buckets:
  assumes "list_all (sorted_wrt R) (buckets ps xs)"
    and "\<And>p x y. p \<in> set ps \<Longrightarrow> x \<in> set xs \<Longrightarrow> y \<in> set xs \<Longrightarrow> p x \<noteq> p y \<Longrightarrow> R x y"
  shows "sorted_wrt R xs"
  using assms
proof (induction ps xs rule: buckets.induct)
  case (2 p ps xs)
  then show ?case by (intro sorted_wrt_split [of R p xs]) auto
qed simp

definition first_bit :: "(char \<Rightarrow> bool) \<Rightarrow> string \<times> string \<Rightarrow> bool" where
  "first_bit d p = (case fst p of [] \<Rightarrow> False | c # _ \<Rightarrow> d c)"

definition first_bits :: "(string \<times> string \<Rightarrow> bool) list" where
  "first_bits = map first_bit [digit0, digit1, digit2, digit3, digit4, digit5, digit6]"

text \<open>A required part is empty only where the whole name is.\<close>

definition proper_spec :: "string \<times> string \<Rightarrow> bool" where
  "proper_spec p \<longleftrightarrow> (fst p = [] \<longrightarrow> snd p = [])"

lemma first_bit_apart: "proper_spec p \<Longrightarrow> proper_spec p' \<Longrightarrow> first_bit d p \<noteq> first_bit d p' \<Longrightarrow> specs_apart p p'"
  by (cases "(p, p')" rule: specs_clash.cases)
    (auto simp: first_bit_def proper_spec_def split: list.splits)

definition table_specs :: "(string \<times> string) list" where
  "table_specs = concat (map (\<lambda>c. map spec_parts (ex_names c)) commands)"

lemma table_checked:
  "\<exists>bs. buckets first_bits table_specs = bs \<and> list_all (sorted_wrt specs_apart) bs"
  apply (rule exI, rule conjI)
   apply code_simp
  apply code_simp
  done

lemma table_proper: "list_all proper_spec table_specs"
  by code_simp

lemma table_apart: "sorted_wrt specs_apart table_specs"
proof (rule sorted_wrt_buckets)
  show "list_all (sorted_wrt specs_apart) (buckets first_bits table_specs)"
    using table_checked by simp
next
  fix p x y
  assume *: "p \<in> set first_bits" "x \<in> set table_specs" "y \<in> set table_specs" "p x \<noteq> p y"
  then obtain d where "p = first_bit d"
    by (auto simp: first_bits_def)
  then show "specs_apart x y"
    using * table_proper first_bit_apart [of x y d] by (simp add: list_all_iff)
qed

lemma table_names_plain:
  "list_all (\<lambda>c. list_all (\<lambda>s. full_name s = fst (spec_parts s) @ snd (spec_parts s)) (ex_names c)) commands"
  by code_simp

text \<open>A name matches the texts between its required part and its full form.\<close>

lemma name_matches_iff:
  "name_matches spec t \<longleftrightarrow>
    (\<exists>u. t = rs u \<and> prefix (fst (spec_parts spec)) u \<and> prefix u (fst (spec_parts spec) @ snd (spec_parts spec)))"
proof (cases "split_once CHR ''['' spec")
  case None
  then show ?thesis
    by (auto simp: name_matches_def spec_parts_def dest: prefix_order.antisym)
next
  case (Some p)
  obtain r op where p: "p = (r, op)" by (cases p)
  let ?o = "trim_end_matches CHR '']'' op"
  have "name_matches spec t \<longleftrightarrow> (\<exists>w. t = rs r @ w \<and> prefix w (rs ?o))"
    using Some p by (auto simp: name_matches_def Let_def prefix_def dest: arg_cong [of _ _ length])
  also have "\<dots> \<longleftrightarrow> (\<exists>w. t = rs (r @ w) \<and> prefix w ?o)"
    unfolding prefix_def rs_def by (auto simp: map_eq_append_conv append_eq_map_conv)
  also have "\<dots> \<longleftrightarrow> (\<exists>u. t = rs u \<and> prefix r u \<and> prefix u (r @ ?o))"
    by (metis same_prefix_prefix prefixE prefixI)
  finally show ?thesis using Some p by (simp add: spec_parts_def)
qed

lemma accepts_both_clash:
  assumes "name_matches s t" "name_matches s' t"
  shows "specs_clash (spec_parts s) (spec_parts s')"
proof -
  obtain u where u: "t = rs u" "prefix (fst (spec_parts s)) u"
    "prefix u (fst (spec_parts s) @ snd (spec_parts s))"
    using assms(1) by (auto simp: name_matches_iff)
  moreover have "prefix (fst (spec_parts s')) u" "prefix u (fst (spec_parts s') @ snd (spec_parts s'))"
    using assms(2) u(1) by (auto simp: name_matches_iff)
  ultimately show ?thesis
    using clash_if_common [of "fst (spec_parts s)" u "snd (spec_parts s)"] by (metis prod.collapse)
qed

lemma lookup_accepted:
  assumes "c \<in> set commands" "accepts c t"
  shows "lookup_command t = Some c"
proof -
  obtain xs c0 ys where split: "commands = xs @ c0 # ys" "accepts c0 t" "\<forall>x \<in> set xs. \<not> accepts x t"
    using assms split_list_first_prop [of commands "\<lambda>c. accepts c t"] by blast
  have "c = c0"
  proof (rule ccontr)
    assume "c \<noteq> c0"
    moreover have "c \<in> set (xs @ c0 # ys)" using assms(1) split(1) by simp
    ultimately have "c \<in> set ys" using assms(2) split(3) by auto
    obtain s s' where s: "s \<in> set (ex_names c0)" "name_matches s t"
      and s': "s' \<in> set (ex_names c)" "name_matches s' t"
      using split(2) assms(2) by (auto simp: accepts_def)
    have "specs_apart (spec_parts s) (spec_parts s')"
      using table_apart \<open>c \<in> set ys\<close> s(1) s'(1)
      by (auto simp: table_specs_def split(1) sorted_wrt_append)
    then show False using accepts_both_clash [OF s(2) s'(2)] by simp
  qed
  moreover have "find (\<lambda>c. accepts c t) (xs @ c0 # ys) = Some c0"
    using split(2,3) by (induction xs) auto
  ultimately show ?thesis by (simp add: lookup_command_def split(1))
qed

lemma lookup_accepts: "lookup_command t = Some c \<Longrightarrow> c \<in> set commands \<and> accepts c t"
  by (auto simp: lookup_command_def find_Some_iff)

lemma sorted_remdups_adj_strict: "sorted xs \<Longrightarrow> sorted_wrt (<) (remdups_adj xs)"
  for xs :: "'a::linorder list"
  by (induction xs rule: remdups_adj.induct) (auto simp: order_le_less)

section \<open>Properties\<close>

text \<open>
  C18. No spelling has two meanings: a typed name resolves to a command exactly when the command
  accepts it, so the order of the table never decides; every spelling between the required part and
  the full form of a name is accepted. The names offered for completion are sorted without
  repetition, are exactly the full names of the table that start with a letter, and each resolves.
\<close>

theorem names_unambiguous:
  assumes "c \<in> set commands" and "spec \<in> set (ex_names c)"
  shows "(\<forall>t. lookup_command t = Some c \<longleftrightarrow> accepts c t) \<and>
    (\<forall>u. prefix (fst (spec_parts spec)) u \<and> prefix u (full_name spec) \<longrightarrow> lookup_command (rs u) = Some c) \<and>
    sorted_wrt (<) command_names \<and>
    (full_name spec \<noteq> [] \<and> is_ascii_alphabetic (rc (hd (full_name spec))) \<longleftrightarrow>
       rs (full_name spec) \<in> set command_names) \<and>
    (\<forall>n \<in> set command_names. lookup_command n \<noteq> None)"
proof -
  have iff: "lookup_command t = Some c' \<longleftrightarrow> accepts c' t" if "c' \<in> set commands" for c' t
    using lookup_accepted [OF that] lookup_accepts by blast
  have plain: "full_name s = fst (spec_parts s) @ snd (spec_parts s)"
    if "c' \<in> set commands" "s \<in> set (ex_names c')" for c' s
    using table_names_plain that by (simp add: list_all_iff)
  have spellings: "lookup_command (rs u) = Some c'"
    if "c' \<in> set commands" "s \<in> set (ex_names c')" "prefix (fst (spec_parts s)) u" "prefix u (full_name s)"
    for c' s u
    using that iff [OF that(1)] plain [OF that(1,2)] name_matches_iff [of s "rs u"]
    by (auto simp: accepts_def)
  have full: "prefix (fst (spec_parts s)) (full_name s)" if "c' \<in> set commands" "s \<in> set (ex_names c')" for c' s
    using plain [OF that] by simp
  have names: "n \<in> set command_names \<longleftrightarrow> n \<noteq> [] \<and> is_ascii_alphabetic (hd n) \<and>
      (\<exists>c' \<in> set commands. \<exists>s \<in> set (ex_names c'). n = rs (full_name s))" for n
    by (auto simp: command_names_def)
  have start: "rs u \<noteq> [] \<and> is_ascii_alphabetic (hd (rs u)) \<longleftrightarrow> u \<noteq> [] \<and> is_ascii_alphabetic (rc (hd u))" for u
    by (cases u) auto
  show ?thesis
  proof (intro conjI ballI)
    show "\<forall>t. lookup_command t = Some c \<longleftrightarrow> accepts c t"
      using iff [OF assms(1)] by simp
    show "\<forall>u. prefix (fst (spec_parts spec)) u \<and> prefix u (full_name spec) \<longrightarrow> lookup_command (rs u) = Some c"
      using spellings [OF assms] by simp
    show "sorted_wrt (<) command_names"
      unfolding command_names_def by (simp add: sorted_remdups_adj_strict)
    show "full_name spec \<noteq> [] \<and> is_ascii_alphabetic (rc (hd (full_name spec))) \<longleftrightarrow>
       rs (full_name spec) \<in> set command_names"
      using assms start [of "full_name spec"] unfolding names by auto
    show "lookup_command n \<noteq> None" if n: "n \<in> set command_names" for n
    proof -
      obtain c' s where s: "c' \<in> set commands" "s \<in> set (ex_names c')" "n = rs (full_name s)"
        using n unfolding names by blast
      then show ?thesis using spellings [OF s(1,2) full [OF s(1,2)]] by simp
    qed
  qed
qed

theorem names_unambiguous_witness:
  "lookup_command (rs ''subst'') = Some (with_args ArgSubstitute (with_range RangeLine
     (ex [''s[ubstitute]''] (HandlerFn ''pattern::substitute''))))"
proof -
  have "prefix (fst (spec_parts ''s[ubstitute]'')) ''subst''" "prefix ''subst'' (full_name ''s[ubstitute]'')"
    by code_simp+
  moreover let ?c = "with_args ArgSubstitute (with_range RangeLine
     (ex [''s[ubstitute]''] (HandlerFn ''pattern::substitute'')))"
  have "?c \<in> set commands" "''s[ubstitute]'' \<in> set (ex_names ?c)"
    by (simp_all add: commands_def pattern_commands_def) (simp add: ex_builders)
  note names_unambiguous [OF this]
  ultimately show ?thesis by blast
qed

end
