(* ===== verification/ExParse.thy ===== *)
theory ExParse
  imports ExTable Numbers CommandLine
begin

text \<open>
  Parsing one ex command line (ovim-core/src/commands/parse.rs): addresses, ranges, the command name
  with its bang, and where a \<open>|\<close> ends the arguments.

  \<open>char::is_alphanumeric\<close> is Unicode data of the standard library and a parameter, \<open>alnum\<close>. An
  offset is an \<open>isize\<close> and is added with \<open>+=\<close>, which panics on overflow in a build with overflow
  checks: the constructor \<open>OffsetOverflow\<close>.
\<close>

section \<open>Addresses\<close>

datatype base = Current | Last | Number nat | Mark rchar | Search (search_pattern: rstr) (search_forward: bool)

record address =
  addr_base :: base
  addr_offset :: int

text \<open>The addresses of a range, each with whether a \<open>;\<close> stands before it.\<close>

type_synonym range_spec = "(address \<times> bool) list"

definition range_whole :: range_spec where
  "range_whole = [(\<lparr>addr_base = Number 1, addr_offset = 0\<rparr>, False), (\<lparr>addr_base = Last, addr_offset = 0\<rparr>, False)]"

datatype parse_error = Unknown | NoBang | InvalidAddress | TrailingCharacters rstr | OffsetOverflow

definition trim_start :: "rstr \<Rightarrow> rstr" where
  "trim_start s = dropWhile is_whitespace s"

definition trim_end :: "rstr \<Rightarrow> rstr" where
  "trim_end s = rev (dropWhile is_whitespace (rev s))"

text \<open>\<open>str::parse\<close> of a run of digits into \<open>usize\<close> and \<open>isize\<close>.\<close>

definition parse_usize :: "rstr \<Rightarrow> nat option" where
  "parse_usize s =
     (case digits_value 10 0 s of None \<Rightarrow> None | Some n \<Rightarrow> if s \<noteq> [] \<and> n < 2 ^ 64 then Some n else None)"

definition parse_isize :: "rstr \<Rightarrow> int option" where
  "parse_isize s =
     (case digits_value 10 0 s of None \<Rightarrow> None | Some n \<Rightarrow> if s \<noteq> [] \<and> n < 2 ^ 63 then Some (int n) else None)"

definition checked_add :: "int \<Rightarrow> int \<Rightarrow> int option" where
  "checked_add a b = (if i64_range (a + b) then Some (a + b) else None)"

fun take_pattern :: "rchar \<Rightarrow> bool \<Rightarrow> rstr \<Rightarrow> rstr \<Rightarrow> rstr \<times> rstr" where
  "take_pattern d escaped pat [] = (if escaped then pat @ [rc CHR 0x5C] else pat, [])"
| "take_pattern d escaped pat (c # s) =
     (if escaped then take_pattern d False (pat @ (if c \<noteq> d then [rc CHR 0x5C, c] else [c])) s
      else if c = rc CHR 0x5C then take_pattern d True pat s
      else if c = d then (pat, s)
      else take_pattern d False (pat @ [c]) s)"

text \<open>The base of an address, if there is one, and the text after it.\<close>

definition parse_base :: "rstr \<Rightarrow> parse_error + (base option \<times> rstr)" where
  "parse_base s =
     (case s of
        [] \<Rightarrow> Inr (None, s)
      | c # t \<Rightarrow>
          if c = rc CHR ''.'' then Inr (Some Current, t)
          else if c = rc CHR ''$'' then Inr (Some Last, t)
          else if c = rc CHR 0x27 then
            (case t of [] \<Rightarrow> Inl InvalidAddress | mark # u \<Rightarrow> Inr (Some (Mark mark), u))
          else if c = rc CHR ''/'' \<or> c = rc CHR ''?'' then
            (let (pat, u) = take_pattern c False [] t in Inr (Some (Search pat (c = rc CHR ''/'')), u))
          else if is_ascii_digit c then
            (case parse_usize (takeWhile is_ascii_digit s) of
               None \<Rightarrow> Inl InvalidAddress
             | Some n \<Rightarrow> Inr (Some (Number n), dropWhile is_ascii_digit s))
          else Inr (None, s))"

function parse_offsets :: "bool \<Rightarrow> int \<Rightarrow> bool \<Rightarrow> rstr \<Rightarrow> parse_error + (int \<times> bool \<times> rstr)" where
  "parse_offsets has_base offset any s =
     (case s of
        [] \<Rightarrow> Inr (offset, any, s)
      | c # t \<Rightarrow>
          if c = rc CHR ''+'' \<or> c = rc CHR ''-'' then
            (let ds = takeWhile is_ascii_digit t
             in case (if ds = [] then Some 1 else parse_isize ds) of
                  None \<Rightarrow> Inl InvalidAddress
                | Some amount \<Rightarrow>
                    (case checked_add offset (if c = rc CHR ''+'' then amount else - amount) of
                       None \<Rightarrow> Inl OffsetOverflow
                     | Some offset \<Rightarrow> parse_offsets has_base offset True (dropWhile is_ascii_digit t)))
          else if is_ascii_digit c \<and> has_base then
            (case parse_isize (takeWhile is_ascii_digit s) of
               None \<Rightarrow> Inl InvalidAddress
             | Some amount \<Rightarrow>
                 (case checked_add offset amount of
                    None \<Rightarrow> Inl OffsetOverflow
                  | Some offset \<Rightarrow> parse_offsets has_base offset True (dropWhile is_ascii_digit s)))
          else Inr (offset, any, s))"
  by pat_completeness auto
termination
  by (relation "measure (\<lambda>(_, _, _, s). length s)")
    (auto simp: le_imp_less_Suc length_dropWhile_le)

definition parse_address :: "rstr \<Rightarrow> parse_error + (address option \<times> rstr)" where
  "parse_address s =
     (case parse_base s of
        Inl e \<Rightarrow> Inl e
      | Inr (b, t) \<Rightarrow>
          (case parse_offsets (b \<noteq> None) 0 False t of
             Inl e \<Rightarrow> Inl e
           | Inr (offset, any, u) \<Rightarrow>
               if b = None \<and> \<not> any then Inr (None, s)
               else Inr (Some \<lparr>addr_base = (case b of Some b \<Rightarrow> b | None \<Rightarrow> Current), addr_offset = offset\<rparr>, u)))"

text \<open>A whole string as one address, the destination of \<open>:t\<close> and \<open>:m\<close>.\<close>

definition parse_destination :: "rstr \<Rightarrow> parse_error + address option" where
  "parse_destination s =
     (case parse_address (str_trim s) of
        Inl e \<Rightarrow> Inl e
      | Inr (a, rest) \<Rightarrow> if str_trim rest \<noteq> [] then Inl (TrailingCharacters (str_trim rest)) else Inr a)"

section \<open>Each parser leaves a rest of its text\<close>

lemma take_pattern_suffix: "take_pattern d e pat s = (pat', u) \<Longrightarrow> suffix u s"
  by (induction d e pat s rule: take_pattern.induct) (auto simp: suffix_ConsI split: if_splits)

lemma parse_base_suffix: "parse_base s = Inr (b, t) \<Longrightarrow> suffix t s"
  unfolding parse_base_def
  by (auto simp: suffix_ConsI suffix_dropWhile
      split: list.splits if_splits option.splits prod.splits dest!: take_pattern_suffix)

declare parse_offsets.simps [simp del]

lemma parse_offsets_step:
  "parse_offsets hb off any [] = Inr (off, any, [])"
  "c = rc CHR ''+'' \<or> c = rc CHR ''-'' \<Longrightarrow> parse_offsets hb off any (c # t) =
     (let ds = takeWhile is_ascii_digit t
      in case (if ds = [] then Some 1 else parse_isize ds) of
           None \<Rightarrow> Inl InvalidAddress
         | Some amount \<Rightarrow>
             (case checked_add off (if c = rc CHR ''+'' then amount else - amount) of
                None \<Rightarrow> Inl OffsetOverflow
              | Some offset \<Rightarrow> parse_offsets hb offset True (dropWhile is_ascii_digit t)))"
  "is_ascii_digit c \<Longrightarrow> hb \<Longrightarrow> parse_offsets hb off any (c # t) =
     (case parse_isize (takeWhile is_ascii_digit (c # t)) of
        None \<Rightarrow> Inl InvalidAddress
      | Some amount \<Rightarrow>
          (case checked_add off amount of
             None \<Rightarrow> Inl OffsetOverflow
           | Some offset \<Rightarrow> parse_offsets hb offset True (dropWhile is_ascii_digit (c # t))))"
  "c \<noteq> rc CHR ''+'' \<Longrightarrow> c \<noteq> rc CHR ''-'' \<Longrightarrow> \<not> (is_ascii_digit c \<and> hb) \<Longrightarrow>
     parse_offsets hb off any (c # t) = Inr (off, any, c # t)"
  by (subst parse_offsets.simps; auto simp: Let_def is_ascii_digit_def)+

text \<open>What the loop over offsets does to the amount it has read and to the text.\<close>

lemma parse_offsets_result:
  "parse_offsets hb off any s = Inr (off', any', t) \<Longrightarrow>
   suffix t s \<and> (i64_range off \<longrightarrow> i64_range off') \<and> (any \<longrightarrow> any') \<and> (any' \<and> \<not> any \<longrightarrow> t \<noteq> s) \<and>
   (\<not> any' \<longrightarrow> t = s \<and> off' = off)"
proof (induction hb off any s rule: parse_offsets.induct)
  case (1 hb off any s)
  have shorter: "suffix (dropWhile is_ascii_digit u) u" for u by (rule suffix_dropWhile)
  show ?case
  proof (cases s)
    case Nil
    then show ?thesis using "1.prems" by (simp add: parse_offsets_step)
  next
    case (Cons c u)
    consider (sign) "c = rc CHR ''+'' \<or> c = rc CHR ''-''"
      | (digit) "c \<noteq> rc CHR ''+''" "c \<noteq> rc CHR ''-''" "is_ascii_digit c" hb
      | (none) "c \<noteq> rc CHR ''+''" "c \<noteq> rc CHR ''-''" "\<not> (is_ascii_digit c \<and> hb)" by blast
    then show ?thesis
    proof cases
      case sign
      let ?ds = "takeWhile is_ascii_digit u"
      obtain amount off1 where a: "(if ?ds = [] then Some 1 else parse_isize ?ds) = Some amount"
        "checked_add off (if c = rc CHR ''+'' then amount else - amount) = Some off1"
        and rest: "parse_offsets hb off1 True (dropWhile is_ascii_digit u) = Inr (off', any', t)"
        using "1.prems" sign by (auto simp: Cons parse_offsets_step(2) Let_def split: option.splits if_splits)
      note IH = "1.IH"(1) [OF Cons sign refl a rest]
      then have "suffix t u" using shorter [of u] suffix_order.trans by blast
      then have "suffix t (c # u)" "t \<noteq> c # u"
        using suffix_ConsI suffix_length_le by fastforce+
      then show ?thesis
        using IH a(2) by (auto simp: Cons checked_add_def split: if_splits)
    next
      case digit
      let ?ds = "takeWhile is_ascii_digit (c # u)"
      obtain amount off1 where a: "parse_isize ?ds = Some amount" "checked_add off amount = Some off1"
        and rest: "parse_offsets hb off1 True (dropWhile is_ascii_digit (c # u)) = Inr (off', any', t)"
        using "1.prems" digit by (auto simp: Cons parse_offsets_step(3) split: option.splits)
      have "suffix t (c # u) \<and> t \<noteq> c # u \<and> (i64_range off1 \<longrightarrow> i64_range off') \<and> any'"
      proof -
        have IH: "suffix t (dropWhile is_ascii_digit (c # u)) \<and> (i64_range off1 \<longrightarrow> i64_range off') \<and> (True \<longrightarrow> any')"
          using "1.IH"(2) [of c u amount off1] Cons digit a rest by blast
        then have "suffix t u" using digit shorter [of u] suffix_order.trans by auto
        then show ?thesis using IH suffix_ConsI suffix_length_le by fastforce
      qed
      then show ?thesis
        using a(2) by (auto simp: Cons checked_add_def split: if_splits)
    next
      case none
      then show ?thesis using "1.prems" by (auto simp: Cons parse_offsets_step(4))
    qed
  qed
qed

lemma parse_address_suffix: "parse_address s = Inr (a, t) \<Longrightarrow> suffix t s"
  unfolding parse_address_def
  by (auto split: sum.splits prod.splits if_splits dest!: parse_base_suffix parse_offsets_result
      intro: suffix_order.trans)

section \<open>Ranges\<close>

definition starts_with_any :: "rchar list \<Rightarrow> rstr \<Rightarrow> bool" where
  "starts_with_any cs s \<longleftrightarrow> (case s of [] \<Rightarrow> False | c # _ \<Rightarrow> c \<in> set cs)"

function parse_range_loop :: "range_spec \<Rightarrow> bool \<Rightarrow> rstr \<Rightarrow> parse_error + (range_spec \<times> rstr)" where
  "parse_range_loop addrs semicolon text =
     (let rest = trim_start text
      in case parse_address rest of
           Inl e \<Rightarrow> Inl e
         | Inr (a, after) \<Rightarrow>
             if a = None \<and> addrs = [] \<and> \<not> starts_with_any [rc CHR '','', rc CHR '';''] rest then Inr (addrs, rest)
             else let addrs = addrs @ [(case a of Some a \<Rightarrow> a | None \<Rightarrow> \<lparr>addr_base = Current, addr_offset = 0\<rparr>, semicolon)];
                      rest = trim_start (case a of Some _ \<Rightarrow> after | None \<Rightarrow> rest)
                  in case rest of
                       [] \<Rightarrow> Inr (addrs, rest)
                     | c # t \<Rightarrow>
                         if c = rc CHR '','' then parse_range_loop addrs False t
                         else if c = rc CHR '';'' then parse_range_loop addrs True t
                         else Inr (addrs, rest))"
  by pat_completeness auto

lemma trim_start_suffix: "suffix (trim_start s) s"
  by (simp add: trim_start_def suffix_dropWhile)

lemma range_step_shorter:
  assumes "parse_address (trim_start text) = Inr (a, after)"
    and "c # t = trim_start (case a of Some _ \<Rightarrow> after | None \<Rightarrow> trim_start text)"
  shows "length t < length text"
proof -
  have "suffix after text"
    using parse_address_suffix [OF assms(1)] trim_start_suffix suffix_order.trans by blast
  then have "suffix (case a of Some _ \<Rightarrow> after | None \<Rightarrow> trim_start text) text"
    using trim_start_suffix by (simp split: option.split)
  then have "suffix (c # t) text"
    unfolding assms(2) using trim_start_suffix suffix_order.trans by blast
  then show ?thesis by (auto dest: suffix_length_le)
qed

lemmas range_step_shorter_Some = range_step_shorter [where a = "Some _", unfolded option.case]

termination parse_range_loop
  by (relation "measure (\<lambda>(_, _, s). length s)") (auto dest: range_step_shorter range_step_shorter_Some)

declare parse_range_loop.simps [simp del]

definition parse_range :: "rstr \<Rightarrow> parse_error + (range_spec option \<times> rstr)" where
  "parse_range text =
     (case text of
        c # rest \<Rightarrow>
          if c = rc CHR ''%'' then Inr (Some range_whole, rest)
          else (case parse_range_loop [] False text of
                  Inl e \<Rightarrow> Inl e
                | Inr (addrs, rest) \<Rightarrow> Inr (if addrs = [] then None else Some addrs, rest))
      | [] \<Rightarrow> Inr (None, []))"

section \<open>Commands\<close>

record parsed_cmd =
  pc_range :: "range_spec option"
  pc_command :: ex_command
  pc_bang :: bool
  pc_args :: rstr
  pc_next :: "rstr option"

definition name_length :: "rstr \<Rightarrow> nat" where
  "name_length text =
     (case text of
        [] \<Rightarrow> 0
      | c # _ \<Rightarrow>
          if c \<in> set (rs ''!&<>=@~#'') then 1
          else if \<not> is_ascii_alphabetic c then 0
          else let user_style = is_ascii_uppercase c
               in length (takeWhile (\<lambda>c. is_ascii_alphabetic c \<or> user_style \<and> is_ascii_digit c) text))"

text \<open>The loops that look for the \<open>|\<close> that ends the arguments; \<open>before\<close> is what they have passed.\<close>

fun split_at_bar_loop :: "bool \<Rightarrow> rstr \<Rightarrow> rstr \<Rightarrow> (rstr \<times> rstr) option" where
  "split_at_bar_loop escaped before [] = None"
| "split_at_bar_loop escaped before (c # s) =
     (if escaped then split_at_bar_loop False (before @ [c]) s
      else if c = rc CHR 0x5C then split_at_bar_loop True (before @ [c]) s
      else if c = rc CHR ''|'' then Some (before, s)
      else split_at_bar_loop False (before @ [c]) s)"

definition split_at_bar :: "rstr \<Rightarrow> rstr \<times> rstr option" where
  "split_at_bar args =
     (case split_at_bar_loop False [] args of
        Some (before, s) \<Rightarrow> (trim_end before, Some s)
      | None \<Rightarrow> (args, None))"

fun after_replacement_loop :: "rchar \<Rightarrow> nat \<Rightarrow> bool \<Rightarrow> rstr \<Rightarrow> rstr \<Rightarrow> (rstr \<times> rstr) option" where
  "after_replacement_loop d seen escaped before [] = None"
| "after_replacement_loop d seen escaped before (c # s) =
     (if escaped then after_replacement_loop d seen False (before @ [c]) s
      else if c = rc CHR 0x5C then after_replacement_loop d seen True (before @ [c]) s
      else if c = d then after_replacement_loop d (seen + 1) False (before @ [c]) s
      else if c = rc CHR ''|'' \<and> seen \<ge> 3 then Some (before, s)
      else after_replacement_loop d seen False (before @ [c]) s)"

definition split_after_replacement :: "(rchar \<Rightarrow> bool) \<Rightarrow> rstr \<Rightarrow> rstr \<times> rstr option" where
  "split_after_replacement alnum args =
     (case args of
        [] \<Rightarrow> (args, None)
      | d # _ \<Rightarrow>
          if alnum d \<or> d \<in> {rc CHR 0x22, rc CHR ''|'', rc CHR 0x5C, rc CHR '' ''} then split_at_bar args
          else case after_replacement_loop d 0 False [] args of
                 Some (before, s) \<Rightarrow> (trim_end before, Some s)
               | None \<Rightarrow> (args, None))"

definition split_args :: "(rchar \<Rightarrow> bool) \<Rightarrow> arg_kind \<Rightarrow> rstr \<Rightarrow> rstr \<times> rstr option" where
  "split_args alnum kind args =
     (case kind of
        ArgRest \<Rightarrow> (args, None)
      | ArgSubstitute \<Rightarrow> split_after_replacement alnum args
      | ArgFile \<Rightarrow> if starts_with_any [rc CHR ''!''] args then (args, None) else split_at_bar args
      | _ \<Rightarrow> split_at_bar args)"

definition trim_colons :: "rstr \<Rightarrow> rstr" where
  "trim_colons s = dropWhile (\<lambda>c. c = rc CHR '':'' \<or> is_whitespace c) s"

definition parse_bang :: "ex_command \<Rightarrow> rstr \<Rightarrow> rstr \<Rightarrow> parse_error + (bool \<times> rstr)" where
  "parse_bang command name after_name =
     (case after_name of
        c # rest \<Rightarrow>
          if c = rc CHR ''!'' then
            if ex_shell_bang command then Inr (False, after_name)
            else if name \<noteq> rs ''!'' then if \<not> ex_bang command then Inl NoBang else Inr (True, rest)
            else Inr (False, after_name)
          else Inr (False, after_name)
      | [] \<Rightarrow> Inr (False, after_name))"

definition parse_ex :: "(rchar \<Rightarrow> bool) \<Rightarrow> rstr \<Rightarrow> parse_error + parsed_cmd" where
  "parse_ex alnum line =
     (case parse_range (trim_colons line) of
        Inl e \<Rightarrow> Inl e
      | Inr (spec, rest) \<Rightarrow>
          (let rest = trim_colons rest;
               name = take (name_length rest) rest;
               after_name = drop (name_length rest) rest
           in if name = [] \<and> trim_start after_name \<noteq> [] \<and> \<not> starts_with_any [rc CHR ''|''] (trim_start after_name)
              then Inl Unknown
              else case lookup_command name of
                     None \<Rightarrow> Inl Unknown
                   | Some command \<Rightarrow>
                       (case parse_bang command name after_name of
                          Inl e \<Rightarrow> Inl e
                        | Inr (bang, after_bang) \<Rightarrow>
                            (let (args, nxt) = split_args alnum (ex_args command) (trim_start after_bang)
                             in Inr \<lparr>pc_range = spec, pc_command = command, pc_bang = bang,
                                     pc_args = trim_end args, pc_next = nxt\<rparr>))))"

definition parse_error_message :: "rstr \<Rightarrow> parse_error \<Rightarrow> rstr" where
  "parse_error_message line e =
     (case e of
        Unknown \<Rightarrow> rs ''E492: Not an editor command: '' @ line
      | NoBang \<Rightarrow> rs ''E477: No ! allowed''
      | InvalidAddress \<Rightarrow> rs ''E14: Invalid address: '' @ line
      | TrailingCharacters rest \<Rightarrow> rs ''E488: Trailing characters: '' @ rest
      | OffsetOverflow \<Rightarrow> rs ''attempt to add with overflow'')"

text \<open>What evaluates the parsers on a given text.\<close>

lemmas parse_eval = parse_range_def parse_range_loop.simps parse_address_def parse_base_def
  parse_offsets_step parse_isize_def parse_usize_def checked_add_def i64_range_def to_digit_def
  starts_with_any_def trim_start_def is_whitespace_def is_ascii_digit_def

lemma parse_range_examples:
  "parse_range (rs ''.,+2y'') =
     Inr (Some [(\<lparr>addr_base = Current, addr_offset = 0\<rparr>, False), (\<lparr>addr_base = Current, addr_offset = 2\<rparr>, False)], rs ''y'')"
  "parse_range (rs ''1;/x'' @ [92] @ rs ''/y/-3d'') =
     Inr (Some [(\<lparr>addr_base = Number 1, addr_offset = 0\<rparr>, False),
       (\<lparr>addr_base = Search (rs ''x/y'') True, addr_offset = -3\<rparr>, True)], rs ''d'')"
  "parse_range (rs ''d'') = Inr (None, rs ''d'')"
  by (simp_all add: parse_eval)

section \<open>Printing a range\<close>

fun print_pattern :: "rchar \<Rightarrow> rstr \<Rightarrow> rstr" where
  "print_pattern d [] = []"
| "print_pattern d [c] = (if c = d then [rc CHR 0x5C, c] else [c])"
| "print_pattern d (c # e # p) =
     (if c = rc CHR 0x5C then c # e # print_pattern d p
      else if c = d then rc CHR 0x5C # c # print_pattern d (e # p)
      else c # print_pattern d (e # p))"

text \<open>A pattern in which every backslash is followed by a character other than the delimiter.\<close>

fun complete_pattern :: "rchar \<Rightarrow> rstr \<Rightarrow> bool" where
  "complete_pattern d [] \<longleftrightarrow> True"
| "complete_pattern d [c] \<longleftrightarrow> c \<noteq> rc CHR 0x5C"
| "complete_pattern d (c # e # p) \<longleftrightarrow>
     (if c = rc CHR 0x5C then e \<noteq> d \<and> complete_pattern d p else complete_pattern d (e # p))"

definition delimiter :: "bool \<Rightarrow> rchar" where
  "delimiter forward = (if forward then rc CHR ''/'' else rc CHR ''?'')"

fun print_base :: "base \<Rightarrow> rstr" where
  "print_base Current = rs ''.''"
| "print_base Last = rs ''$''"
| "print_base (Number n) = nat_digits 10 n"
| "print_base (Mark c) = [rc CHR 0x27, c]"
| "print_base (Search p forward) = delimiter forward # print_pattern (delimiter forward) p @ [delimiter forward]"

definition print_offset :: "int \<Rightarrow> rstr" where
  "print_offset n =
     (if n = 0 then [] else if n > 0 then rc CHR ''+'' # nat_digits 10 (nat n)
      else rc CHR ''-'' # nat_digits 10 (nat (- n)))"

definition print_address :: "address \<Rightarrow> rstr" where
  "print_address a = print_base (addr_base a) @ print_offset (addr_offset a)"

fun print_range :: "range_spec \<Rightarrow> rstr" where
  "print_range [] = []"
| "print_range [(a, _)] = print_address a"
| "print_range ((a, _) # (b, semicolon) # spec) =
     print_address a @ (if semicolon then rc CHR '';'' else rc CHR '','') # print_range ((b, semicolon) # spec)"

fun base_ok :: "base \<Rightarrow> bool" where
  "base_ok (Number n) \<longleftrightarrow> n < 2 ^ 64"
| "base_ok (Search p forward) \<longleftrightarrow> complete_pattern (delimiter forward) p"
| "base_ok _ \<longleftrightarrow> True"

definition address_ok :: "address \<Rightarrow> bool" where
  "address_ok a \<longleftrightarrow> base_ok (addr_base a) \<and> \<bar>addr_offset a\<bar> < 2 ^ 63"

section \<open>Printed ranges parse back\<close>

lemma take_pattern_print:
  "complete_pattern d p \<Longrightarrow> d \<noteq> rc CHR 0x5C \<Longrightarrow>
   take_pattern d False acc (print_pattern d p @ d # rest) = (acc @ p, rest)"
  by (induction d p arbitrary: acc rule: print_pattern.induct) auto

definition stops :: "rstr \<Rightarrow> bool" where
  "stops rest \<longleftrightarrow> (case rest of [] \<Rightarrow> True
     | c # _ \<Rightarrow> \<not> is_ascii_digit c \<and> c \<noteq> rc CHR ''+'' \<and> c \<noteq> rc CHR ''-'')"

lemma digits_split:
  assumes "case rest of [] \<Rightarrow> True | c # _ \<Rightarrow> \<not> is_ascii_digit c"
  shows "takeWhile is_ascii_digit (nat_digits 10 n @ rest) = nat_digits 10 n"
    "dropWhile is_ascii_digit (nat_digits 10 n @ rest) = rest"
proof -
  have *: "\<forall>c \<in> set (nat_digits 10 n). is_ascii_digit c" by (rule nat_digits_decimal)
  have "takeWhile is_ascii_digit rest = []" "dropWhile is_ascii_digit rest = rest"
    using assms by (auto split: list.splits)
  then show "takeWhile is_ascii_digit (nat_digits 10 n @ rest) = nat_digits 10 n"
    "dropWhile is_ascii_digit (nat_digits 10 n @ rest) = rest"
    using * by (simp_all add: takeWhile_append2 dropWhile_append2)
qed

lemma parse_digits:
  "parse_usize (nat_digits 10 n) = (if n < 2 ^ 64 then Some n else None)"
  "parse_isize (nat_digits 10 n) = (if n < 2 ^ 63 then Some (int n) else None)"
  by (simp_all add: parse_usize_def parse_isize_def nat_digits_value)

lemma parse_offsets_stop: "stops rest \<Longrightarrow> parse_offsets hb off any rest = Inr (off, any, rest)"
  by (cases rest) (simp_all add: stops_def parse_offsets_step)

lemma parse_offsets_print:
  assumes "\<bar>n\<bar> < 2 ^ 63" "stops rest"
  shows "parse_offsets True 0 False (print_offset n @ rest) = Inr (n, n \<noteq> 0, rest)"
proof -
  have rest: "case rest of [] \<Rightarrow> True | c # _ \<Rightarrow> \<not> is_ascii_digit c"
    using assms(2) by (auto simp: stops_def split: list.splits)
  consider "n = 0" | "n > 0" | "n < 0" by linarith
  then show ?thesis
  proof cases
    case 1
    then show ?thesis using assms(2) by (simp add: print_offset_def parse_offsets_stop)
  next
    case 2
    then have "nat n < 2 ^ 63" "i64_range n" using assms(1) by (auto simp: i64_range_def)
    then show ?thesis
      using 2 assms(2)
      by (simp add: print_offset_def parse_offsets_step Let_def digits_split [OF rest] parse_digits
          checked_add_def parse_offsets_stop)
  next
    case 3
    then have "nat (- n) < 2 ^ 63" "i64_range n" using assms(1) by (auto simp: i64_range_def)
    then show ?thesis
      using 3 assms(2)
      by (simp add: print_offset_def parse_offsets_step Let_def digits_split [OF rest] parse_digits
          checked_add_def parse_offsets_stop)
  qed
qed

lemma print_offset_head:
  "stops rest \<Longrightarrow> case print_offset n @ rest of [] \<Rightarrow> True | c # _ \<Rightarrow> \<not> is_ascii_digit c"
  by (auto simp: print_offset_def stops_def is_ascii_digit_def split: list.splits)

lemma parse_base_print:
  assumes "base_ok b" "case rest of [] \<Rightarrow> True | c # _ \<Rightarrow> \<not> is_ascii_digit c"
  shows "parse_base (print_base b @ rest) = Inr (Some b, rest)"
proof (cases b)
  case (Number n)
  obtain c ds where ds: "nat_digits 10 n = c # ds" by (cases "nat_digits 10 n") auto
  moreover have "is_ascii_digit c" using nat_digits_decimal [of n] ds by simp
  ultimately show ?thesis
    using assms(1) Number digits_split [OF assms(2), of n] parse_digits [of n]
    by (auto simp: parse_base_def is_ascii_digit_def)
next
  case (Search p forward)
  then show ?thesis
    using assms(1) take_pattern_print [of "delimiter forward" p "[]" rest]
    by (auto simp: parse_base_def delimiter_def)
qed (simp_all add: parse_base_def)

lemma parse_address_print:
  assumes "address_ok a" "stops rest"
  shows "parse_address (print_address a @ rest) = Inr (Some a, rest)"
  using assms parse_base_print [of "addr_base a" "print_offset (addr_offset a) @ rest"]
    parse_offsets_print [of "addr_offset a" rest] print_offset_head
  by (simp add: parse_address_def print_address_def address_ok_def)

lemma print_base_head: "\<exists>c s. print_base b = c # s \<and> \<not> is_whitespace c \<and> c \<noteq> rc CHR ''%''"
proof (cases b)
  case (Number n)
  obtain c ds where ds: "nat_digits 10 n = c # ds" by (cases "nat_digits 10 n") auto
  moreover have "is_ascii_digit c" using nat_digits_decimal [of n] ds by simp
  ultimately show ?thesis using Number by (auto simp: is_ascii_digit_def is_whitespace_def)
qed (auto simp: is_whitespace_def delimiter_def)

lemma print_address_head: "\<exists>c s. print_address a = c # s \<and> \<not> is_whitespace c \<and> c \<noteq> rc CHR ''%''"
  using print_base_head [of "addr_base a"] by (auto simp: print_address_def)

definition range_ends :: "rstr \<Rightarrow> bool" where
  "range_ends rest \<longleftrightarrow> stops rest \<and> (case rest of [] \<Rightarrow> True
     | c # _ \<Rightarrow> \<not> is_whitespace c \<and> c \<noteq> rc CHR '','' \<and> c \<noteq> rc CHR '';'')"

lemma parse_range_loop_print:
  assumes "spec \<noteq> []" "\<forall>(a, _) \<in> set spec. address_ok a" "range_ends rest"
  shows "parse_range_loop addrs (snd (hd spec)) (print_range spec @ rest) = Inr (addrs @ spec, rest)"
  using assms
proof (induction spec arbitrary: addrs rule: print_range.induct)
  case (2 a s)
  obtain c u where "print_address a = c # u" "\<not> is_whitespace c"
    using print_address_head by blast
  then have "trim_start (print_address a @ rest) = print_address a @ rest"
    by (simp add: trim_start_def)
  moreover have "trim_start rest = rest"
    using 2 by (cases rest) (auto simp: trim_start_def range_ends_def)
  ultimately show ?case
    using 2 parse_address_print [of a rest]
    by (cases rest) (auto simp: parse_range_loop.simps range_ends_def Let_def)
next
  case (3 a s b semicolon spec)
  let ?tail = "(if semicolon then rc CHR '';'' else rc CHR '','') # print_range ((b, semicolon) # spec) @ rest"
  obtain c u where "print_address a = c # u" "\<not> is_whitespace c"
    using print_address_head by blast
  then have "trim_start (print_address a @ ?tail) = print_address a @ ?tail"
    by (simp add: trim_start_def)
  moreover have "trim_start ?tail = ?tail"
    by (simp add: trim_start_def is_whitespace_def)
  moreover have "stops ?tail"
    by (simp add: stops_def is_ascii_digit_def)
  ultimately have "parse_range_loop addrs s (print_address a @ ?tail) =
      parse_range_loop (addrs @ [(a, s)]) semicolon (print_range ((b, semicolon) # spec) @ rest)"
    using 3 parse_address_print [of a ?tail]
    by (subst parse_range_loop.simps; cases semicolon) (simp_all add: Let_def)
  moreover have "parse_range_loop (addrs @ [(a, s)]) semicolon (print_range ((b, semicolon) # spec) @ rest) =
      Inr (addrs @ (a, s) # (b, semicolon) # spec, rest)"
    using 3 by simp
  ultimately show ?case by simp
qed simp

section \<open>What is parsed\<close>

lemma take_pattern_shorter: "take_pattern d e pat s = (pat', u) \<Longrightarrow> length u \<le> length s"
  by (auto dest: take_pattern_suffix suffix_length_le)

lemma parse_base_result:
  "parse_base s = Inr (b, t) \<Longrightarrow>
   (b = None \<longrightarrow> t = s) \<and> (b \<noteq> None \<longrightarrow> length t < length s) \<and> (\<forall>n. b = Some (Number n) \<longrightarrow> n < 2 ^ 64)"
proof (cases s)
  case (Cons c u)
  have "length (dropWhile is_ascii_digit (c # u)) < length (c # u)" if "is_ascii_digit c"
    using that length_dropWhile_le [of is_ascii_digit u] by simp
  moreover assume "parse_base s = Inr (b, t)"
  ultimately show ?thesis
    using Cons
    by (auto simp: parse_base_def parse_usize_def less_Suc_eq_le
        split: if_splits option.splits list.splits prod.splits dest: take_pattern_shorter)
qed (simp add: parse_base_def)

lemma parse_address_result:
  assumes "parse_address s = Inr (Some a, t)"
  shows "suffix t s \<and> length t < length s \<and> i64_range (addr_offset a) \<and>
    (\<forall>n. addr_base a = Number n \<longrightarrow> n < 2 ^ 64)"
proof -
  obtain b u off any where p: "parse_base s = Inr (b, u)" "parse_offsets (b \<noteq> None) 0 False u = Inr (off, any, t)"
    and a: "a = \<lparr>addr_base = (case b of Some b \<Rightarrow> b | None \<Rightarrow> Current), addr_offset = off\<rparr>" "b \<noteq> None \<or> any"
    using assms by (auto simp: parse_address_def split: sum.splits prod.splits if_splits)
  have o: "suffix t u" "i64_range off" "any \<Longrightarrow> t \<noteq> u"
    using parse_offsets_result [OF p(2)] by (auto simp: i64_range_def)
  have "length t < length s"
    using parse_base_result [OF p(1)] o(1,3) a(2) suffix_length_le [OF o(1)]
    by (cases b) (auto simp: suffix_def)
  then show ?thesis
    using parse_base_result [OF p(1)] o a suffix_order.trans [OF o(1) parse_base_suffix [OF p(1)]]
    by (auto split: option.splits)
qed

definition address_typed :: "address \<Rightarrow> bool" where
  "address_typed a \<longleftrightarrow> i64_range (addr_offset a) \<and> (\<forall>n. addr_base a = Number n \<longrightarrow> n < 2 ^ 64)"

text \<open>One turn of the loop: the address read, or the current line, and the rest it goes on from.\<close>

lemma parse_range_loop_step:
  assumes "parse_range_loop addrs semicolon text = Inr (spec, t)"
  obtains (none) "addrs = []" "spec = []" "t = trim_start text"
  | (stop) a r where "address_typed a" "suffix r (trim_start text)" "spec = addrs @ [(a, semicolon)]" "t = r"
      "addrs = [] \<longrightarrow> length r < length (trim_start text)"
  | (go) a c u sc where "address_typed a" "suffix (c # u) (trim_start text)"
      "parse_range_loop (addrs @ [(a, semicolon)]) sc u = Inr (spec, t)"
proof -
  let ?rest = "trim_start text"
  obtain a after where pa: "parse_address ?rest = Inr (a, after)"
    using assms by (subst (asm) parse_range_loop.simps) (auto simp: Let_def split: sum.splits prod.splits)
  show thesis
  proof (cases "a = None \<and> addrs = [] \<and> \<not> starts_with_any [rc CHR '','', rc CHR '';''] ?rest")
    case True
    then show thesis
      using assms pa none by (subst (asm) parse_range_loop.simps) (auto simp: Let_def)
  next
    case False
    define a' where "a' = (case a of Some a \<Rightarrow> a | None \<Rightarrow> \<lparr>addr_base = Current, addr_offset = 0\<rparr>)"
    define r where "r = trim_start (case a of Some _ \<Rightarrow> after | None \<Rightarrow> ?rest)"
    have typed: "address_typed a'"
      using pa parse_address_result [of ?rest]
      by (auto simp: a'_def address_typed_def i64_range_def split: option.splits)
    have r: "suffix r ?rest"
      using parse_address_suffix [OF pa] trim_start_suffix suffix_order.trans
      by (auto simp: r_def split: option.splits)
    have shorter: "length r < length ?rest" if "a \<noteq> None"
      using that pa parse_address_result [of ?rest] suffix_length_le [OF trim_start_suffix [of after]]
      by (auto simp: r_def)
    have step: "parse_range_loop addrs semicolon text =
        (case r of [] \<Rightarrow> Inr (addrs @ [(a', semicolon)], r)
         | c # u \<Rightarrow> if c = rc CHR '','' then parse_range_loop (addrs @ [(a', semicolon)]) False u
             else if c = rc CHR '';'' then parse_range_loop (addrs @ [(a', semicolon)]) True u
             else Inr (addrs @ [(a', semicolon)], r))"
      by (subst parse_range_loop.simps)
        (simp only: Let_def pa sum.case prod.case if_not_P [OF False] a'_def r_def)
    have "trim_start ?rest = ?rest"
      by (simp add: trim_start_def)
    then have head: "starts_with_any [rc CHR '','', rc CHR '';''] r" if "a = None" "addrs = []"
      using that False by (simp add: r_def)
    consider (here) "spec = addrs @ [(a', semicolon)]" "t = r" "\<not> starts_with_any [rc CHR '','', rc CHR '';''] r"
      | (on) c u sc where "r = c # u" "parse_range_loop (addrs @ [(a', semicolon)]) sc u = Inr (spec, t)"
      using assms step by (auto simp: starts_with_any_def split: list.splits if_splits)
    then show thesis
    proof cases
      case here
      then show thesis using stop [OF typed r] shorter head by blast
    next
      case on
      then show thesis using go [OF typed] r by blast
    qed
  qed
qed

definition spec_typed :: "range_spec \<Rightarrow> bool" where
  "spec_typed spec \<longleftrightarrow> (\<forall>p \<in> set spec. address_typed (fst p)) \<and> (spec \<noteq> [] \<longrightarrow> \<not> snd (hd spec))"

lemma parse_range_loop_result:
  "parse_range_loop addrs semicolon s = Inr (spec, t) \<Longrightarrow> spec_typed addrs \<Longrightarrow> (addrs = [] \<longrightarrow> \<not> semicolon) \<Longrightarrow>
   suffix t s \<and> spec_typed spec"
proof (induction "length s" arbitrary: addrs semicolon s rule: less_induct)
  case less
  have trim: "suffix (trim_start s) s" by (rule trim_start_suffix)
  from less.prems(1) show ?case
  proof (cases rule: parse_range_loop_step)
    case none
    then show ?thesis using trim by (simp add: spec_typed_def)
  next
    case (stop a r)
    then show ?thesis
      using less.prems trim suffix_order.trans by (auto simp: spec_typed_def hd_append)
  next
    case (go a c u sc)
    then have u: "suffix (c # u) s" using trim suffix_order.trans by blast
    moreover have "suffix u (c # u)" by (simp add: suffix_ConsI)
    ultimately have "suffix u s" "length u < length s"
      using suffix_order.trans suffix_length_le by (blast, fastforce)
    moreover have "spec_typed (addrs @ [(a, semicolon)])"
      using less.prems go(1) by (auto simp: spec_typed_def hd_append)
    ultimately show ?thesis
      using less.hyps [OF _ go(3)] suffix_order.trans by blast
  qed
qed

lemma parse_range_result:
  assumes "parse_range s = Inr (spec, t)"
  shows "suffix t s \<and> (\<forall>p. spec = Some p \<longrightarrow> p \<noteq> [] \<and> spec_typed p \<and> length t < length s)"
proof -
  consider (empty) "s = []" "spec = None" "t = []"
    | (whole) u where "s = rc CHR ''%'' # u" "spec = Some range_whole" "t = u"
    | (loop) q where "s \<noteq> []" "parse_range_loop [] False s = Inr (q, t)" "spec = (if q = [] then None else Some q)"
    using assms by (auto simp: parse_range_def split: list.splits if_splits sum.splits prod.splits)
  then show ?thesis
  proof cases
    case (whole u)
    then show ?thesis
      by (simp add: suffix_ConsI range_whole_def spec_typed_def address_typed_def i64_range_def)
  next
    case (loop q)
    have typed: "suffix t s" "spec_typed q"
      using parse_range_loop_result [OF loop(2)] by (auto simp: spec_typed_def)
    have trim: "length (trim_start s) \<le> length s" by (rule suffix_length_le [OF trim_start_suffix])
    have "length t < length s" if q: "q \<noteq> []"
      using loop(2)
    proof (cases rule: parse_range_loop_step)
      case (go a c u sc)
      have "suffix t u"
        using parse_range_loop_result [OF go(3)] go(1) by (auto simp: spec_typed_def)
      then show ?thesis
        using suffix_length_le [OF go(2)] suffix_length_le [of t u] trim by simp
    qed (use q trim in auto)
    then show ?thesis using typed loop(3) by auto
  qed simp
qed

section \<open>Where the arguments end\<close>

lemma split_at_bar_loop_split:
  "split_at_bar_loop esc b s = Some (b', r) \<Longrightarrow>
   \<exists>m. b' = b @ m \<and> s = m @ rc CHR ''|'' # r \<and> (\<forall>b0. split_at_bar_loop esc b0 m = None)"
  by (induction esc b s rule: split_at_bar_loop.induct) (auto split: if_splits)

lemma split_at_bar_loop_prefix:
  "split_at_bar_loop esc b (s @ t) = None \<Longrightarrow> split_at_bar_loop esc b' s = None"
proof (induction s arbitrary: esc b b')
  case (Cons c s)
  from Cons.prems show ?case by (auto split: if_splits dest: Cons.IH)
qed simp

lemma after_replacement_loop_split:
  "after_replacement_loop d n esc b s = Some (b', r) \<Longrightarrow> \<exists>m. b' = b @ m \<and> s = m @ rc CHR ''|'' # r"
  by (induction d n esc b s rule: after_replacement_loop.induct) (auto split: if_splits)

lemma trim_end_prefix: "prefix (trim_end s) s"
proof -
  have "suffix (dropWhile is_whitespace (rev s)) (rev s)" by (rule suffix_dropWhile)
  then show ?thesis by (simp add: trim_end_def suffix_to_prefix)
qed

text \<open>\<open>args\<close> is the beginning of the text and the next command what follows the bar.\<close>

definition splits_text :: "rstr \<Rightarrow> rstr \<times> rstr option \<Rightarrow> bool" where
  "splits_text s p \<longleftrightarrow> prefix (fst p) s \<and>
     (\<forall>n. snd p = Some n \<longrightarrow> (\<exists>m. s = m @ rc CHR ''|'' # n \<and> prefix (fst p) m))"

lemma split_at_bar_splits:
  "splits_text s (split_at_bar s) \<and> split_at_bar_loop False [] (fst (split_at_bar s)) = None"
proof (cases "split_at_bar_loop False [] s")
  case None
  then show ?thesis by (simp add: split_at_bar_def splits_text_def)
next
  case (Some p)
  obtain b r where p: "p = (b, r)" by (cases p)
  then obtain "s = b @ rc CHR ''|'' # r" "\<forall>b0. split_at_bar_loop False b0 b = None"
    using split_at_bar_loop_split [of False "[]" s b r] Some by auto
  moreover obtain w where "b = trim_end b @ w"
    using trim_end_prefix [of b] by (auto elim: prefixE)
  ultimately show ?thesis
    using Some p split_at_bar_loop_prefix [of False "[]" "trim_end b" w "[]"] trim_end_prefix [of b]
    by (auto simp: split_at_bar_def splits_text_def)
qed

lemma split_args_splits: "splits_text s (split_args alnum kind s)"
proof -
  have "splits_text s (split_after_replacement alnum s)"
  proof (cases s)
    case (Cons d u)
    show ?thesis
    proof (cases "alnum d \<or> d \<in> {rc CHR 0x22, rc CHR ''|'', rc CHR 0x5C, rc CHR '' ''}")
      case True
      then show ?thesis using split_at_bar_splits Cons by (simp add: split_after_replacement_def)
    next
      case False
      show ?thesis
      proof (cases "after_replacement_loop d 0 False [] s")
        case None
        then show ?thesis using False Cons by (simp add: split_after_replacement_def splits_text_def)
      next
        case (Some p)
        then obtain b r where p: "p = (b, r)" "s = b @ rc CHR ''|'' # r"
          using after_replacement_loop_split [of d 0 False "[]" s "fst p" "snd p"] by (cases p) auto
        then have "prefix (trim_end b) b" "prefix (trim_end b) s"
          using trim_end_prefix prefix_prefix by auto
        moreover have "split_after_replacement alnum s = (trim_end b, Some r)"
          using False Cons Some p(1) by (simp add: split_after_replacement_def)
        ultimately show ?thesis using p(2) by (auto simp: splits_text_def)
      qed
    qed
  qed (simp add: split_after_replacement_def splits_text_def)
  then show ?thesis
    using split_at_bar_splits [of s]
    by (cases kind) (auto simp: split_args_def splits_text_def)
qed

lemma trim_colons_suffix: "suffix (trim_colons s) s"
  by (simp add: trim_colons_def suffix_dropWhile)

lemma parse_bang_result:
  "parse_bang command name s = Inr (bang, t) \<Longrightarrow>
   suffix t s \<and> (bang \<longrightarrow> ex_bang command \<and> \<not> ex_shell_bang command)"
  by (auto simp: parse_bang_def suffix_ConsI split: list.splits if_splits)

lemma parse_ex_result:
  assumes "parse_ex alnum line = Inr p"
  obtains name args where "lookup_command name = Some (pc_command p)" "sublist name line"
    "suffix args line" "splits_text args (split_args alnum (ex_args (pc_command p)) args)"
    "pc_args p = trim_end (fst (split_args alnum (ex_args (pc_command p)) args))"
    "pc_next p = snd (split_args alnum (ex_args (pc_command p)) args)"
    "pc_bang p \<Longrightarrow> ex_bang (pc_command p) \<and> \<not> ex_shell_bang (pc_command p)"
    "\<And>spec. pc_range p = Some spec \<Longrightarrow> spec \<noteq> [] \<and> spec_typed spec"
proof -
  obtain spec rest where r: "parse_range (trim_colons line) = Inr (spec, rest)"
    using assms by (auto simp: parse_ex_def split: sum.splits)
  let ?t = "trim_colons rest"
  let ?name = "take (name_length ?t) ?t" and ?after = "drop (name_length ?t) ?t"
  obtain command bang after_bang where c: "lookup_command ?name = Some command"
    "parse_bang command ?name ?after = Inr (bang, after_bang)"
    and p: "p = \<lparr>pc_range = spec, pc_command = command, pc_bang = bang,
        pc_args = trim_end (fst (split_args alnum (ex_args command) (trim_start after_bang))),
        pc_next = snd (split_args alnum (ex_args command) (trim_start after_bang))\<rparr>"
    using assms r by (auto simp: parse_ex_def Let_def case_prod_beta split: if_splits option.splits sum.splits)
  have rest: "suffix ?t line"
    using parse_range_result [OF r] trim_colons_suffix suffix_order.trans by blast
  have "suffix (trim_start after_bang) line"
    using parse_bang_result [OF c(2)] trim_start_suffix suffix_drop rest suffix_order.trans by meson
  moreover have "sublist ?name line"
    using rest sublist_take suffix_imp_sublist sublist_order.order_trans by blast
  ultimately show thesis
    using that [of ?name "trim_start after_bang"] c p split_args_splits parse_bang_result [OF c(2)]
      parse_range_result [OF r]
    by simp
qed

lemma parse_range_print:
  assumes "spec \<noteq> []" and "\<not> snd (hd spec)" and "\<forall>(a, _) \<in> set spec. address_ok a" and "range_ends rest"
  shows "parse_range (print_range spec @ rest) = Inr (Some spec, rest)"
proof -
  obtain a s spec' where spec: "spec = (a, s) # spec'"
    using assms(1) by (cases spec) auto
  obtain c u where c: "print_address a = c # u" "c \<noteq> rc CHR ''%''"
    using print_address_head by blast
  then obtain v where "print_range spec @ rest = c # v"
    by (cases spec') (auto simp: spec)
  moreover have "parse_range_loop [] False (print_range spec @ rest) = Inr (spec, rest)"
    using parse_range_loop_print [OF assms(1,3,4), of "[]"] assms(2) by simp
  ultimately show ?thesis
    using c(2) assms(1) by (simp add: parse_range_def)
qed

section \<open>Properties\<close>

text \<open>
  C19. Ranges round-trip: printing the addresses of a range (any base, any offset, any separators)
  and parsing the result in front of a command gives the same range back and leaves the command,
  with search patterns escaped and unescaped on the way. A single address round-trips the same way
  as a destination of \<open>:t\<close> and \<open>:m\<close>.
\<close>

theorem range_roundtrip:
  assumes "spec \<noteq> []" and "\<not> snd (hd spec)" and "\<forall>(a, _) \<in> set spec. address_ok a" and "range_ends rest"
  shows "parse_range (print_range spec @ rest) = Inr (Some spec, rest) \<and>
    parse_address (print_address (fst (hd spec)) @ rest) = Inr (Some (fst (hd spec)), rest)"
proof -
  obtain a s spec' where "spec = (a, s) # spec'"
    using assms(1) by (cases spec) auto
  then show ?thesis
    using parse_range_print [OF assms] parse_address_print [of a rest] assms by (simp add: range_ends_def)
qed

theorem range_roundtrip_witness:
  "parse_range (rs ''1;/x'' @ [92] @ rs ''/y/-3d'') =
     Inr (Some [(\<lparr>addr_base = Number 1, addr_offset = 0\<rparr>, False),
       (\<lparr>addr_base = Search (rs ''x/y'') True, addr_offset = -3\<rparr>, True)], rs ''d'')"
  using range_roundtrip [of "[(\<lparr>addr_base = Number 1, addr_offset = 0\<rparr>, False),
       (\<lparr>addr_base = Search (rs ''x/y'') True, addr_offset = -3\<rparr>, True)]" "rs ''d''"]
  by (simp add: address_ok_def delimiter_def range_ends_def stops_def is_ascii_digit_def is_whitespace_def
      print_address_def print_offset_def nat_digits.simps digit_char_def)

text \<open>
  C20. A parsed command is well formed: its name, taken from the line, resolves to an entry of the
  table; a bang is reported only where the entry takes one; the addresses of the range, at least
  one, have line numbers and offsets that fit their machine types and no separator before the
  first; the arguments are a piece of the line and, where the entry ends at a bar, hold no
  unescaped bar; and what is left for the next command is what follows a bar, a proper suffix of
  the line, so running the commands of a line one after the other ends.
\<close>

theorem parsed_command_well_formed:
  assumes "parse_ex alnum line = Inr p"
  shows "(\<exists>name. sublist name line \<and> accepts (pc_command p) name) \<and> pc_command p \<in> set commands \<and>
    (pc_bang p \<longrightarrow> ex_bang (pc_command p) \<and> \<not> ex_shell_bang (pc_command p)) \<and>
    (\<forall>spec. pc_range p = Some spec \<longrightarrow> spec \<noteq> [] \<and> \<not> snd (hd spec) \<and>
      (\<forall>q \<in> set spec. i64_range (addr_offset (fst q)) \<and> (\<forall>n. addr_base (fst q) = Number n \<longrightarrow> n < 2 ^ 64))) \<and>
    sublist (pc_args p) line \<and>
    (ex_args (pc_command p) \<in> {ArgNone, ArgText} \<longrightarrow> split_at_bar_loop False [] (pc_args p) = None) \<and>
    (ex_args (pc_command p) = ArgRest \<longrightarrow> pc_next p = None) \<and>
    (\<forall>n. pc_next p = Some n \<longrightarrow> (\<exists>before. line = before @ rc CHR ''|'' # n))"
proof -
  obtain name args where r: "lookup_command name = Some (pc_command p)" "sublist name line"
    "suffix args line" "splits_text args (split_args alnum (ex_args (pc_command p)) args)"
    "pc_args p = trim_end (fst (split_args alnum (ex_args (pc_command p)) args))"
    "pc_next p = snd (split_args alnum (ex_args (pc_command p)) args)"
    "pc_bang p \<Longrightarrow> ex_bang (pc_command p) \<and> \<not> ex_shell_bang (pc_command p)"
    "\<And>spec. pc_range p = Some spec \<Longrightarrow> spec \<noteq> [] \<and> spec_typed spec"
    by (rule parse_ex_result [OF assms]) blast
  have args: "prefix (pc_args p) args"
    using r(4,5) trim_end_prefix prefix_order.trans by (auto simp: splits_text_def)
  show ?thesis
  proof (intro conjI)
    show "\<exists>name. sublist name line \<and> accepts (pc_command p) name" "pc_command p \<in> set commands"
      using r(1,2) lookup_accepts by blast+
    show "sublist (pc_args p) line"
      using args r(3) prefix_imp_sublist suffix_imp_sublist sublist_order.order_trans by blast
    show "ex_args (pc_command p) \<in> {ArgNone, ArgText} \<longrightarrow> split_at_bar_loop False [] (pc_args p) = None"
    proof
      assume "ex_args (pc_command p) \<in> {ArgNone, ArgText}"
      then have split: "split_args alnum (ex_args (pc_command p)) args = split_at_bar args"
        by (auto simp: split_args_def)
      obtain w where "fst (split_at_bar args) = pc_args p @ w"
        using trim_end_prefix r(5) unfolding split by (metis prefixE)
      then show "split_at_bar_loop False [] (pc_args p) = None"
        using split_at_bar_splits [of args] split_at_bar_loop_prefix [of False "[]" "pc_args p" w] by simp
    qed
    show "ex_args (pc_command p) = ArgRest \<longrightarrow> pc_next p = None"
      using r(6) by (simp add: split_args_def)
    show "\<forall>n. pc_next p = Some n \<longrightarrow> (\<exists>before. line = before @ rc CHR ''|'' # n)"
    proof (intro allI impI)
      fix n assume "pc_next p = Some n"
      then obtain m where "args = m @ rc CHR ''|'' # n" using r(4,6) by (auto simp: splits_text_def)
      then show "\<exists>before. line = before @ rc CHR ''|'' # n"
        using r(3) by (metis append.assoc suffixE)
    qed
  qed (use r(7,8) in \<open>auto simp: spec_typed_def address_typed_def\<close>)
qed

theorem parsed_command_well_formed_witness:
  "parse_ex (\<lambda>_. False) (rs ''|u'') = Inr \<lparr>pc_range = None, pc_command =
     anywhere (with_range RangeGoto (ex [''''] (HandlerFn ''edit::goto_line''))), pc_bang = False,
     pc_args = [], pc_next = Some (rs ''u'')\<rparr> \<and> (\<exists>before. rs ''|u'' = before @ rc CHR ''|'' # rs ''u'')"
proof -
  have "lookup_command [] = Some (anywhere (with_range RangeGoto (ex [''''] (HandlerFn ''edit::goto_line''))))"
    by (simp add: lookup_command_def commands_def text_commands_def accepts_def ex_builders
        name_matches_def split_once_def)
  then have e: "parse_ex (\<lambda>_. False) (rs ''|u'') = Inr \<lparr>pc_range = None, pc_command =
     anywhere (with_range RangeGoto (ex [''''] (HandlerFn ''edit::goto_line''))), pc_bang = False,
     pc_args = [], pc_next = Some (rs ''u'')\<rparr>"
    by (simp add: parse_ex_def parse_eval trim_colons_def name_length_def parse_bang_def split_args_def
        split_at_bar_def trim_end_def ex_builders is_ascii_alphabetic_def is_ascii_lowercase_def
        is_ascii_uppercase_def)
  then show ?thesis
    using parsed_command_well_formed [OF e] by (simp del: rs_simps)
qed

end
