(* ===== verification/TextLines.thy ===== *)
theory TextLines
  imports TextBuffers
begin

text \<open>
  The text of a buffer as lines: \<open>line_text\<close> (ovim-core/src/buffer/mod.rs), \<open>delete_range\<close> and the
  line joins (ovim-core/src/buffer/text_ops.rs), and what they and \<open>insert_text_at\<close> do to the list of
  lines of a text whose only line breaks are line feeds, as the loader leaves them.

  The mark, highlight and syntax bookkeeping of the source is not part of this model. Grapheme
  counts are the parameter \<open>count\<close> of the joins.
\<close>

section \<open>Operations\<close>

definition strip_break :: "rstr \<Rightarrow> rstr" where
  "strip_break s =
     (if suffix [13, 10] s then take (length s - 2) s
      else if ends_with_char s 10 then take (length s - 1) s
      else if ends_with_char s 13 then take (length s - 1) s
      else s)"

definition buffer_line_text :: "'r rope_ops \<Rightarrow> 'r buffer \<Rightarrow> nat \<Rightarrow> rstr option" where
  "buffer_line_text R b idx =
     (if idx < buffer_line_count R b then Some (strip_break (rope_line R (buf_rope b) idx)) else None)"

definition buffer_delete_range ::
  "'r rope_ops \<Rightarrow> 'r buffer \<Rightarrow> nat \<Rightarrow> nat \<Rightarrow> nat \<Rightarrow> nat \<Rightarrow> rstr \<times> 'r buffer" where
  "buffer_delete_range R b start_line start_col end_line end_col =
     (case buffer_accepts_edits b of
        (False, b) \<Rightarrow> ([], b)
      | (True, b) \<Rightarrow>
          if start_line \<ge> buffer_line_count R b then ([], b)
          else let actual_start_col = min start_col (buffer_line_len R b start_line);
                   start_pos = rope_line_to_char R (buf_rope b) start_line + actual_start_col;
                   end_pos = (if end_line \<ge> buffer_line_count R b then rope_len_chars R (buf_rope b)
                              else rope_line_to_char R (buf_rope b) end_line +
                                   min end_col (buffer_line_len R b end_line));
                   start_pos = min start_pos (rope_len_chars R (buf_rope b));
                   end_pos = min end_pos (rope_len_chars R (buf_rope b))
               in if start_pos \<ge> end_pos then ([], b)
                  else let deleted = rope_slice R (buf_rope b) start_pos end_pos
                       in (deleted, buffer_note_edit b (rope_remove R (buf_rope b) start_pos end_pos)
                                      (Delete start_pos deleted)))"

definition trim_leading :: "rstr \<Rightarrow> rstr" where
  "trim_leading s = dropWhile is_whitespace s"

text \<open>One turn of the loop of \<open>join_lines_impl\<close>; \<open>None\<close> is \<open>break\<close>.\<close>

definition join_step ::
  "'r rope_ops \<Rightarrow> (rstr \<Rightarrow> nat) \<Rightarrow> bool \<Rightarrow> nat \<Rightarrow> 'r buffer \<Rightarrow> 'r buffer option" where
  "join_step R graphemes add_space start_line b =
     (if start_line \<ge> buffer_line_count R b - 1 then None
      else case (buffer_line_text R b start_line, buffer_line_text R b (start_line + 1)) of
        (Some current, Some following) \<Rightarrow>
          (let separator = (if add_space
                            then (if current \<noteq> [] \<and> is_whitespace (last current) then [] else [32])
                            else []);
               trimmed = trim_leading following;
               current_len = length current;
               b = (if trimmed = []
                    then snd (buffer_delete_range R b start_line current_len (start_line + 1) (length following))
                    else let b = buffer_insert_text_at R b start_line current_len separator;
                             indent = length following - length trimmed
                         in snd (buffer_delete_range R b start_line (current_len + length separator)
                                   (start_line + 1) indent))
           in Some (b\<lparr>buf_cursor := cursor_set_position (buf_cursor b) start_line (graphemes current)\<rparr>))
      | _ \<Rightarrow> None)"

fun join_loop ::
  "'r rope_ops \<Rightarrow> (rstr \<Rightarrow> nat) \<Rightarrow> bool \<Rightarrow> nat \<Rightarrow> nat \<Rightarrow> 'r buffer \<Rightarrow> 'r buffer" where
  "join_loop R graphemes add_space start_line 0 b = b"
| "join_loop R graphemes add_space start_line (Suc n) b =
     (case join_step R graphemes add_space start_line b of
        None \<Rightarrow> b
      | Some b \<Rightarrow> join_loop R graphemes add_space start_line n b)"

definition buffer_join_lines_impl ::
  "'r rope_ops \<Rightarrow> (rstr \<Rightarrow> nat) \<Rightarrow> nat \<Rightarrow> bool \<Rightarrow> 'r buffer \<Rightarrow> 'r buffer" where
  "buffer_join_lines_impl R graphemes count add_space b =
     join_loop R graphemes add_space (cur_line (buf_cursor b)) (max (count - 1) 1) b"

definition buffer_join_lines :: "'r rope_ops \<Rightarrow> (rstr \<Rightarrow> nat) \<Rightarrow> nat \<Rightarrow> 'r buffer \<Rightarrow> 'r buffer" where
  "buffer_join_lines R graphemes count b = buffer_join_lines_impl R graphemes count True b"

definition buffer_join_lines_no_space :: "'r rope_ops \<Rightarrow> (rstr \<Rightarrow> nat) \<Rightarrow> nat \<Rightarrow> 'r buffer \<Rightarrow> 'r buffer" where
  "buffer_join_lines_no_space R graphemes count b = buffer_join_lines_impl R graphemes count False b"

section \<open>Lines of a text\<close>

fun split_lines :: "rstr \<Rightarrow> rstr list" where
  "split_lines [] = [[]]"
| "split_lines (c # t) =
     (if c = 10 then [] # split_lines t else (c # hd (split_lines t)) # tl (split_lines t))"

fun join :: "rstr list \<Rightarrow> rstr" where
  "join [] = []"
| "join [l] = l"
| "join (l # m # ls) = l @ 10 # join (m # ls)"

definition terminate :: "rstr list \<Rightarrow> rstr" where
  "terminate ls = concat (map (\<lambda>l. l @ [10]) ls)"

definition unbroken :: "rstr list \<Rightarrow> bool" where
  "unbroken ls \<longleftrightarrow> (\<forall>l \<in> set ls. 10 \<notin> set l)"

text \<open>The lines the user sees: a final line feed does not start another.\<close>

definition shown_lines :: "rstr \<Rightarrow> rstr list" where
  "shown_lines t =
     (let ls = split_lines t in if length ls > 1 \<and> last ls = [] then butlast ls else ls)"

lemma terminate_simps [simp]:
  "terminate [] = []" "terminate (l # ls) = l @ 10 # terminate ls" "terminate (ls @ ms) = terminate ls @ terminate ms"
  by (simp_all add: terminate_def)

lemma unbroken_simps [simp]:
  "unbroken []" "unbroken (l # ls) \<longleftrightarrow> 10 \<notin> set l \<and> unbroken ls"
  "unbroken (ls @ ms) \<longleftrightarrow> unbroken ls \<and> unbroken ms"
  by (auto simp: unbroken_def)

lemma unbroken_parts: "unbroken ls \<Longrightarrow> unbroken (take n ls)" "unbroken ls \<Longrightarrow> unbroken (drop n ls)"
  by (auto simp: unbroken_def dest: in_set_takeD in_set_dropD)

lemma split_lines_ne [simp]: "split_lines t \<noteq> []"
  by (cases t) auto

lemma join_Cons: "ls \<noteq> [] \<Longrightarrow> join (l # ls) = l @ 10 # join ls"
  by (cases ls) auto

lemma join_append: "ms \<noteq> [] \<Longrightarrow> join (ls @ ms) = terminate ls @ join ms"
  by (induction ls) (simp_all add: join_Cons)

lemma join_split [simp]: "join (split_lines t) = t"
proof (induction t)
  case (Cons c t)
  then show ?case
    by (cases "split_lines t"; cases "tl (split_lines t)") (auto simp: join_Cons)
qed simp

lemma unbroken_split [simp]: "unbroken (split_lines t)"
proof (induction t)
  case (Cons c t)
  then show ?case by (cases "split_lines t") auto
qed simp

lemma split_unbroken: "10 \<notin> set l \<Longrightarrow> split_lines l = [l]"
  by (induction l) auto

lemma split_append_break: "10 \<notin> set l \<Longrightarrow> split_lines (l @ 10 # t) = l # split_lines t"
  by (induction l) auto

lemma split_join: "ls \<noteq> [] \<Longrightarrow> unbroken ls \<Longrightarrow> split_lines (join ls) = ls"
  by (induction ls rule: join.induct) (simp_all add: split_unbroken split_append_break)

lemma split_terminate_append: "unbroken ls \<Longrightarrow> split_lines (terminate ls @ t) = ls @ split_lines t"
  by (induction ls) (simp_all add: split_append_break)

lemma length_split: "length (split_lines t) = Suc (count_breaks t)"
proof (induction t)
  case (Cons c t)
  then show ?case by (cases "split_lines t") auto
qed simp

lemma text_at_line:
  "l < length (split_lines t) \<Longrightarrow> t = terminate (take l (split_lines t)) @ join (drop l (split_lines t))"
  by (metis append_take_drop_id drop_eq_Nil2 join_append join_split leD)

lemma line_start_split:
  "l < length (split_lines t) \<Longrightarrow> line_start t l = length (terminate (take l (split_lines t)))"
proof (induction t l rule: line_start.induct)
  case (3 c t l)
  show ?case
  proof (cases "c = 10")
    case True
    then show ?thesis using 3 by simp
  next
    case False
    obtain h r where s: "split_lines t = h # r" by (cases "split_lines t") auto
    then show ?thesis using 3 False by simp
  qed
qed simp_all

lemma last_split: "t \<noteq> [] \<Longrightarrow> last t = 10 \<longleftrightarrow> length (split_lines t) > 1 \<and> last (split_lines t) = []"
proof (induction t)
  case (Cons c t)
  show ?case
  proof (cases "t = []")
    case False
    then obtain h r where s: "split_lines t = h # r" by (cases "split_lines t") auto
    then show ?thesis using Cons False join_split [of t] by (cases r) auto
  qed simp
qed simp

lemma shown_lines_ne [simp]: "shown_lines t \<noteq> []"
  by (cases "split_lines t" rule: rev_cases) (auto simp: shown_lines_def Let_def)

lemma shown_lines_join: "ls \<noteq> [] \<Longrightarrow> unbroken ls \<Longrightarrow> last ls \<noteq> [] \<or> length ls = 1 \<Longrightarrow> shown_lines (join ls) = ls"
  by (auto simp: shown_lines_def Let_def split_join)

lemma shown_lines_terminate: "ls \<noteq> [] \<Longrightarrow> unbroken ls \<Longrightarrow> shown_lines (terminate ls) = ls"
  using split_terminate_append [of ls "[]"] by (auto simp: shown_lines_def Let_def)

section \<open>Texts broken at line feeds only\<close>

text \<open>
  ropey also breaks lines at the other Unicode line breaks; where a text has none of them, it
  documents that lines are what lies between line feeds.
\<close>

definition lf_only :: "rstr \<Rightarrow> bool" where
  "lf_only t \<longleftrightarrow> (\<forall>c \<in> set t. c \<notin> {11, 12, 13, 133, 8232, 8233})"

lemma lf_only_simps [simp]:
  "lf_only []" "lf_only (c # t) \<longleftrightarrow> c \<notin> {11, 12, 13, 133, 8232, 8233} \<and> lf_only t"
  "lf_only (s @ t) \<longleftrightarrow> lf_only s \<and> lf_only t"
  by (auto simp: lf_only_def)

lemma lf_only_parts: "lf_only t \<Longrightarrow> lf_only (take n t)" "lf_only t \<Longrightarrow> lf_only (drop n t)"
  by (auto simp: lf_only_def dest: in_set_takeD in_set_dropD)

lemma lf_only_terminate [simp]: "lf_only (terminate ls) \<longleftrightarrow> (\<forall>l \<in> set ls. lf_only l)"
  by (induction ls) auto

lemma lf_only_join [simp]: "lf_only (join ls) \<longleftrightarrow> (\<forall>l \<in> set ls. lf_only l)"
  by (induction ls rule: join.induct) auto

lemma lf_only_split: "lf_only t \<longleftrightarrow> (\<forall>l \<in> set (split_lines t). lf_only l)"
  using lf_only_join [of "split_lines t"] by simp

locale lf_rope = rope_contract R chs for R :: "'r rope_ops" and chs :: "'r \<Rightarrow> rstr" +
  assumes lf_lines: "lf_only (chs r) \<Longrightarrow> rope_len_lines R r = Suc (count_breaks (chs r))"
    and lf_starts: "lf_only (chs r) \<Longrightarrow> l \<le> count_breaks (chs r) \<Longrightarrow> rope_line_to_char R r l = line_start (chs r) l"
begin

abbreviation raw :: "'r buffer \<Rightarrow> rstr list" where
  "raw b \<equiv> split_lines (chs (buf_rope b))"

abbreviation shown :: "'r buffer \<Rightarrow> rstr list" where
  "shown b \<equiv> shown_lines (chs (buf_rope b))"

lemma raw_line_count: "lf_only (chs (buf_rope b)) \<Longrightarrow> buffer_raw_line_count R b = length (raw b)"
  by (simp add: buffer_raw_line_count_def lf_lines length_split)

lemma line_count: "lf_only (chs (buf_rope b)) \<Longrightarrow> buffer_line_count R b = length (shown b)"
  using last_split [of "chs (buf_rope b)"]
  by (cases "chs (buf_rope b) = []")
    (auto simp: buffer_line_count_def lf_lines len_chars char_at length_split shown_lines_def Let_def last_conv_nth)

lemma count_pos: "lf_only (chs (buf_rope b)) \<Longrightarrow> 0 < buffer_line_count R b"
  by (simp add: line_count)

lemma shown_raw:
  "length (shown b) \<le> length (raw b)" "l < length (shown b) \<Longrightarrow> shown b ! l = raw b ! l"
  by (auto simp: shown_lines_def Let_def nth_butlast split: if_splits)

lemma start_of:
  assumes "lf_only (chs (buf_rope b))" "l < length (raw b)"
  shows "rope_line_to_char R (buf_rope b) l = length (terminate (take l (raw b)))"
  using assms by (simp add: lf_starts length_split line_start_split)

lemma text_at:
  assumes "l < length (raw b)"
  shows "chs (buf_rope b) = terminate (take l (raw b)) @ join (drop l (raw b))"
  by (rule text_at_line [OF assms])

text \<open>The characters of a line with its break.\<close>

lemma line_chars:
  assumes lf: "lf_only (chs (buf_rope b))" and l: "l < length (raw b)"
  shows "rope_line R (buf_rope b) l = raw b ! l @ (if Suc l < length (raw b) then [10] else [])"
proof -
  let ?S = "raw b" let ?t = "chs (buf_rope b)"
  have len: "l < rope_len_lines R (buf_rope b)" using assms by (simp add: lf_lines length_split)
  have t: "?t = terminate (take l ?S) @ join (drop l ?S)" by (rule text_at_line [OF l])
  have d: "drop l ?S = ?S ! l # drop (Suc l) ?S" using l by (simp add: Cons_nth_drop_Suc)
  have start: "drop (rope_line_to_char R (buf_rope b) l) ?t = join (drop l ?S)"
    by (subst t) (simp add: start_of [OF lf l])
  show ?thesis
  proof (cases "Suc l < length ?S")
    case True
    have "rope_line_to_char R (buf_rope b) (Suc l) - rope_line_to_char R (buf_rope b) l = Suc (length (?S ! l))"
      using l True by (simp add: start_of [OF lf] take_Suc_conv_app_nth)
    then show ?thesis using True start d by (simp add: line [OF len] join_Cons)
  next
    case False
    then have s: "Suc l = rope_len_lines R (buf_rope b)" "drop (Suc l) ?S = []"
      using l lf by (simp_all add: lf_lines length_split)
    have "rope_line_to_char R (buf_rope b) (Suc l) = length ?t" unfolding s by (rule line_to_char_end)
    moreover have "length (join (drop l ?S)) = length ?t - rope_line_to_char R (buf_rope b) l"
      using arg_cong [OF start, of length] by simp
    ultimately show ?thesis using False start d s by (simp add: line [OF len])
  qed
qed

lemma line_text:
  assumes lf: "lf_only (chs (buf_rope b))"
  shows "buffer_line_text R b l = (if l < length (shown b) then Some (shown b ! l) else None)"
proof (cases "l < length (shown b)")
  case True
  then have l: "l < length (raw b)" using shown_raw(1) [of b] by simp
  let ?s = "raw b ! l"
  have mem: "?s \<in> set (raw b)" using l by simp
  then have no: "10 \<notin> set ?s" "13 \<notin> set ?s"
    using unbroken_split [of "chs (buf_rope b)"] lf lf_only_split [of "chs (buf_rope b)"]
    by (auto simp: unbroken_def lf_only_def)
  have "\<not> ends_with_char ?s 10" "\<not> ends_with_char ?s 13"
    using no by (auto simp: ends_with_char_def dest: last_in_set)
  moreover from this have "\<not> suffix [13, 10] ?s" "\<not> suffix [13, 10] (?s @ [10])"
    by (auto simp: suffix_def ends_with_char_def append_eq_append_conv2 append_eq_Cons_conv)
  ultimately have "strip_break (?s @ [10]) = ?s" "strip_break ?s = ?s"
    by (simp_all add: strip_break_def)
  then show ?thesis
    using True by (simp add: buffer_line_text_def line_count [OF lf] line_chars [OF lf l] shown_raw(2))
qed (simp add: buffer_line_text_def line_count [OF lf])

lemma line_len:
  assumes lf: "lf_only (chs (buf_rope b))"
  shows "buffer_line_len R b l = (if l < length (shown b) then length (shown b ! l) else 0)"
proof (cases "l < length (shown b)")
  case True
  then have l: "l < length (raw b)" using shown_raw(1) [of b] by simp
  have "raw b ! l \<in> set (raw b)" using l by simp
  then have no: "10 \<notin> set (raw b ! l)"
    using unbroken_split [of "chs (buf_rope b)"] by (auto simp: unbroken_def)
  then have "raw b ! l \<noteq> [] \<Longrightarrow> raw b ! l ! (length (raw b ! l) - 1) \<noteq> 10"
    by (metis last_conv_nth last_in_set)
  then show ?thesis
    using True by (auto simp: buffer_line_len_def buffer_line_content_len_def line_count [OF lf] line_chars [OF lf l]
        shown_raw(2) Let_def nth_append)
qed (simp add: buffer_line_len_def buffer_line_content_len_def line_count [OF lf])

text \<open>A line and column split the text.\<close>

definition pos_of :: "'r buffer \<Rightarrow> nat \<Rightarrow> nat \<Rightarrow> nat" where
  "pos_of b l c = length (terminate (take l (raw b))) + c"

lemma pos_split:
  assumes "l < length (raw b)" "c \<le> length (raw b ! l)"
  shows "take (pos_of b l c) (chs (buf_rope b)) = terminate (take l (raw b)) @ take c (raw b ! l)"
    and "drop (pos_of b l c) (chs (buf_rope b)) = join (drop c (raw b ! l) # drop (Suc l) (raw b))"
    and "pos_of b l c \<le> length (chs (buf_rope b))"
proof -
  let ?S = "raw b"
  have "drop l ?S = ?S ! l # drop (Suc l) ?S" using assms(1) by (simp add: Cons_nth_drop_Suc)
  then have "join (drop l ?S) = take c (?S ! l) @ join (drop c (?S ! l) # drop (Suc l) ?S)"
    by (cases "drop (Suc l) ?S") (simp_all add: join_Cons)
  with text_at [OF assms(1)]
  have "chs (buf_rope b) = (terminate (take l ?S) @ take c (?S ! l)) @ join (drop c (?S ! l) # drop (Suc l) ?S)"
    by simp
  moreover have "pos_of b l c = length (terminate (take l ?S) @ take c (?S ! l))"
    using assms(2) by (simp add: pos_of_def)
  ultimately show "take (pos_of b l c) (chs (buf_rope b)) = terminate (take l (raw b)) @ take c (raw b ! l)"
    and "drop (pos_of b l c) (chs (buf_rope b)) = join (drop c (raw b ! l) # drop (Suc l) (raw b))"
    and "pos_of b l c \<le> length (chs (buf_rope b))"
    by (metis append_eq_conv_conj, metis append_eq_conv_conj, metis length_append le_add1)
qed

lemma insert_text:
  assumes lf: "lf_only (chs (buf_rope b))" and "buf_modifiable b"
    and l: "l < length (raw b)" and c: "c \<le> (if l < length (shown b) then length (raw b ! l) else 0)"
  shows "chs (buf_rope (buffer_insert_text_at R b l c t)) =
    terminate (take l (raw b)) @ take c (raw b ! l) @ t @ join (drop c (raw b ! l) # drop (Suc l) (raw b))"
proof -
  have c': "c \<le> length (raw b ! l)" using c by (auto split: if_splits)
  note split = pos_split [OF l c']
  have "min c (buffer_line_len R b l) = c"
    using c by (auto simp: line_len [OF lf] shown_raw(2) split: if_splits)
  moreover have "rope_line_to_char R (buf_rope b) l + c = pos_of b l c"
    by (simp add: start_of [OF lf l] pos_of_def)
  moreover have "\<not> buffer_raw_line_count R b \<le> l" using l by (simp add: raw_line_count [OF lf])
  ultimately have "chs (buf_rope (buffer_insert_text_at R b l c t)) =
      take (pos_of b l c) (chs (buf_rope b)) @ t @ drop (pos_of b l c) (chs (buf_rope b))"
    using assms(2) split(3)
    by (cases "t = []") (simp_all add: buffer_insert_text_at_def buffer_accepts_edits_def buffer_note_edit_def Let_def insert)
  then show ?thesis using split(1,2) by simp
qed

lemma delete_text:
  assumes lf: "lf_only (chs (buf_rope b))" and "buf_modifiable b"
    and l: "l < length (shown b)" "c \<le> length (raw b ! l)"
    and m: "m < length (shown b) \<Longrightarrow> c' \<le> length (raw b ! m) \<and> pos_of b l c \<le> pos_of b m c'"
  shows "chs (buf_rope (snd (buffer_delete_range R b l c m c'))) =
      terminate (take l (raw b)) @ take c (raw b ! l) @
      (if m < length (shown b) then join (drop c' (raw b ! m) # drop (Suc m) (raw b)) else [])"
    and "fst (buffer_delete_range R b l c m c') @
      (if m < length (shown b) then join (drop c' (raw b ! m) # drop (Suc m) (raw b)) else []) =
      join (drop c (raw b ! l) # drop (Suc l) (raw b))"
proof -
  let ?t = "chs (buf_rope b)"
  let ?e = "if m < length (shown b) then pos_of b m c' else length ?t"
  have l': "l < length (raw b)" using l(1) shown_raw(1) [of b] by simp
  note split = pos_split [OF l' l(2)]
  have m': "m < length (raw b)" if "m < length (shown b)" using that shown_raw(1) [of b] by simp
  have le: "pos_of b l c \<le> ?e" "?e \<le> length ?t"
    using m m' pos_split(3) [of m b c'] split(3) by auto
  have rest: "drop ?e ?t = (if m < length (shown b) then join (drop c' (raw b ! m) # drop (Suc m) (raw b)) else [])"
    using m m' pos_split(2) [of m b c'] by simp
  have "min c (buffer_line_len R b l) = c"
    using l by (simp add: line_len [OF lf] shown_raw(2))
  moreover have "min c' (buffer_line_len R b m) = c'" if "m < length (shown b)"
    using m [OF that] that by (simp add: line_len [OF lf] shown_raw(2))
  ultimately have deleted: "buffer_delete_range R b l c m c' =
      (if pos_of b l c \<ge> ?e then ([], b)
       else (rope_slice R (buf_rope b) (pos_of b l c) ?e,
             buffer_note_edit b (rope_remove R (buf_rope b) (pos_of b l c) ?e)
               (Delete (pos_of b l c) (rope_slice R (buf_rope b) (pos_of b l c) ?e))))"
    using assms(2) l m m' le split(3)
    by (auto simp: buffer_delete_range_def buffer_accepts_edits_def line_count [OF lf] len_chars Let_def
        start_of [OF lf l'] start_of [OF lf m'] pos_of_def min_def split: if_splits)
  have "chs (buf_rope (snd (buffer_delete_range R b l c m c'))) = take (pos_of b l c) ?t @ drop ?e ?t"
    using le by (auto simp: deleted buffer_note_edit_def Let_def remove)
  then show "chs (buf_rope (snd (buffer_delete_range R b l c m c'))) =
      terminate (take l (raw b)) @ take c (raw b ! l) @
      (if m < length (shown b) then join (drop c' (raw b ! m) # drop (Suc m) (raw b)) else [])"
    using split(1) rest by simp
  have "fst (buffer_delete_range R b l c m c') = take (?e - pos_of b l c) (drop (pos_of b l c) ?t)"
    using le by (auto simp: deleted slice)
  moreover have "take (?e - pos_of b l c) (drop (pos_of b l c) ?t) @ drop ?e ?t = drop (pos_of b l c) ?t"
    using le by (metis append_take_drop_id drop_drop le_add_diff_inverse2)
  ultimately show "fst (buffer_delete_range R b l c m c') @
      (if m < length (shown b) then join (drop c' (raw b ! m) # drop (Suc m) (raw b)) else []) =
      join (drop c (raw b ! l) # drop (Suc l) (raw b))"
    using split(2) rest by simp
qed

section \<open>Whole lines\<close>

lemma buffer_delete_range_same [simp]:
  "buf_modifiable (snd (buffer_delete_range R b l c m c')) = buf_modifiable b"
  by (auto simp: buffer_delete_range_def buffer_accepts_edits_def buffer_note_edit_def Let_def split: prod.splits)

lemma buffer_insert_text_at_same [simp]:
  "buf_modifiable (buffer_insert_text_at R b l c t) = buf_modifiable b"
  by (auto simp: buffer_insert_text_at_def buffer_accepts_edits_def buffer_note_edit_def Let_def split: prod.splits)

lemma delete_lines:
  assumes lf: "lf_only (chs (buf_rope b))" and mod: "buf_modifiable b"
    and s: "s < length (shown b)" "s < e"
  shows "raw (snd (buffer_delete_range R b s 0 e 0)) =
      take s (raw b) @ (if e < length (shown b) then drop e (raw b) else [[]])"
    and "lf_only (chs (buf_rope (snd (buffer_delete_range R b s 0 e 0))))"
proof -
  let ?S = "raw b" and ?d = "snd (buffer_delete_range R b s 0 e 0)"
  have len: "length (shown b) \<le> length ?S" by (rule shown_raw)
  have "pos_of b s 0 \<le> pos_of b e 0" if "e < length (shown b)"
  proof -
    have "take e ?S = take s ?S @ take (e - s) (drop s ?S)" using s(2) by (metis less_imp_le take_add le_add_diff_inverse)
    then show ?thesis by (simp add: pos_of_def)
  qed
  then have d: "chs (buf_rope ?d) = terminate (take s ?S) @
      (if e < length (shown b) then join (drop 0 (?S ! e) # drop (Suc e) ?S) else [])"
    using delete_text(1) [OF lf mod s(1), of 0 e 0] by simp
  have "?S ! e # drop (Suc e) ?S = drop e ?S" if "e < length (shown b)"
    using that len by (simp add: Cons_nth_drop_Suc)
  moreover have "drop e ?S \<noteq> []" if "e < length (shown b)" using that len by simp
  ultimately have d: "chs (buf_rope ?d) = join (take s ?S @ (if e < length (shown b) then drop e ?S else [[]]))"
    using d by (simp add: join_append)
  then show "raw ?d = take s ?S @ (if e < length (shown b) then drop e ?S else [[]])"
    using len unbroken_parts [OF unbroken_split] by (simp add: split_join)
  have "\<forall>l \<in> set ?S. lf_only l" using lf lf_only_split [of "chs (buf_rope b)"] by simp
  then show "lf_only (chs (buf_rope ?d))"
    unfolding d by (auto dest: in_set_takeD in_set_dropD)
qed

lemma insert_lines:
  assumes lf: "lf_only (chs (buf_rope b))" and mod: "buf_modifiable b"
    and l: "l < length (raw b)" and ls: "unbroken ls" "\<forall>x \<in> set ls. lf_only x"
  shows "raw (buffer_insert_text_at R b l 0 (terminate ls)) = take l (raw b) @ ls @ drop l (raw b)"
    and "lf_only (chs (buf_rope (buffer_insert_text_at R b l 0 (terminate ls))))"
proof -
  let ?S = "raw b" and ?i = "buffer_insert_text_at R b l 0 (terminate ls)"
  have "?S ! l # drop (Suc l) ?S = drop l ?S" using l by (simp add: Cons_nth_drop_Suc)
  then have i: "chs (buf_rope ?i) = join ((take l ?S @ ls) @ drop l ?S)"
    using insert_text [OF lf mod l, of 0 "terminate ls"] l by (subst join_append) simp_all
  then show "raw ?i = take l ?S @ ls @ drop l ?S"
    using l ls(1) unbroken_parts [OF unbroken_split] by (simp add: split_join)
  have "\<forall>x \<in> set ?S. lf_only x" using lf lf_only_split [of "chs (buf_rope b)"] by simp
  then show "lf_only (chs (buf_rope ?i))"
    unfolding i using ls(2) by (auto dest: in_set_takeD in_set_dropD)
qed

text \<open>A text is terminated when its last line has a break; the raw lines then end in an empty one.\<close>

definition terminated :: "'r buffer \<Rightarrow> bool" where
  "terminated b \<longleftrightarrow> ends_with_char (chs (buf_rope b)) 10"

lemma raw_shown: "raw b = shown b @ (if terminated b then [[]] else [])"
  using last_split [of "chs (buf_rope b)"]
  by (cases "chs (buf_rope b) = []"; cases "raw b" rule: rev_cases)
    (auto simp: terminated_def ends_with_char_def shown_lines_def Let_def)

lemma unterminated_last: "\<not> terminated b \<Longrightarrow> last (shown b) \<noteq> [] \<or> shown b = [[]] \<and> chs (buf_rope b) = []"
  using last_split [of "chs (buf_rope b)"] join_split [of "chs (buf_rope b)"]
  by (cases "chs (buf_rope b) = []"; cases "raw b" rule: rev_cases)
    (auto simp: terminated_def ends_with_char_def shown_lines_def Let_def)

lemma shown_of_raw:
  "raw b = ls @ [[]] \<Longrightarrow> ls \<noteq> [] \<Longrightarrow> shown b = ls \<and> terminated b"
  "raw b = ls \<Longrightarrow> last ls \<noteq> [] \<Longrightarrow> shown b = ls \<and> \<not> terminated b"
proof -
  show "raw b = ls @ [[]] \<Longrightarrow> ls \<noteq> [] \<Longrightarrow> shown b = ls \<and> terminated b"
    using last_split [of "chs (buf_rope b)"]
    by (cases "chs (buf_rope b) = []") (auto simp: shown_lines_def terminated_def ends_with_char_def Let_def)
  show "raw b = ls \<Longrightarrow> last ls \<noteq> [] \<Longrightarrow> shown b = ls \<and> \<not> terminated b"
    using last_split [of "chs (buf_rope b)"]
    by (cases "chs (buf_rope b) = []") (auto simp: shown_lines_def terminated_def ends_with_char_def Let_def)
qed

lemma shown_unbroken: "unbroken (shown b)"
  using unbroken_split [of "chs (buf_rope b)"] by (simp add: raw_shown)

lemma shown_lf: "lf_only (chs (buf_rope b)) \<Longrightarrow> x \<in> set (shown b) \<Longrightarrow> lf_only x"
  using lf_only_split [of "chs (buf_rope b)"] by (auto simp: raw_shown)

end

interpretation lfr: lf_rope list_rope "\<lambda>t. t"
  by unfold_locales (simp_all add: list_rope_def)

end
