(* ===== verification/ExRange.thy ===== *)
theory ExRange
  imports ExParse Undo Marks TextLines
begin

text \<open>
  Evaluating the range of an ex command against the editor (ovim-core/src/commands/range.rs, the
  range part of \<open>run_parsed\<close> in commands.rs) and the case rules of search patterns
  (search_pattern.rs).

  The regex engine is the crate regex, a parameter: building a matcher from a pattern and a case
  flag, asking whether it matches, finding the captures of its matches (with the characters before
  and up to the end of each), and replacing its matches. \<open>char::is_uppercase\<close> is Unicode data
  of the standard library, a field of the same record. What a range reads of the editor besides the
  document is the record \<open>ex_view\<close>.
\<close>

section \<open>Search patterns\<close>

type_synonym captures = "nat \<Rightarrow> rstr option"

record 'x regex_ops =
  rx_build :: "rstr \<Rightarrow> bool \<Rightarrow> 'x option"
  rx_is_match :: "'x \<Rightarrow> rstr \<Rightarrow> bool"
  rx_replace :: "'x \<Rightarrow> (captures \<Rightarrow> rstr) \<Rightarrow> rstr \<Rightarrow> rstr"
  rx_replace_all :: "'x \<Rightarrow> (captures \<Rightarrow> rstr) \<Rightarrow> rstr \<Rightarrow> rstr"
  rx_count :: "'x \<Rightarrow> rstr \<Rightarrow> nat"
  rx_captures :: "'x \<Rightarrow> rstr \<Rightarrow> ((nat \<times> nat) \<times> captures) option"
  rx_captures_iter :: "'x \<Rightarrow> rstr \<Rightarrow> ((nat \<times> nat) \<times> captures) list"
  rx_is_uppercase :: "rchar \<Rightarrow> bool"

record case_options =
  opt_ignorecase :: bool
  opt_smartcase :: bool

fun strip_case_escapes :: "rstr \<Rightarrow> bool option \<Rightarrow> rstr \<times> bool option" where
  "strip_case_escapes [] requested = ([], requested)"
| "strip_case_escapes [c] requested = ([c], requested)"
| "strip_case_escapes (c # e # s) requested =
     (if c \<noteq> rc CHR 0x5C then (let (t, r) = strip_case_escapes (e # s) requested in (c # t, r))
      else if e = rc CHR ''c'' then strip_case_escapes s (Some True)
      else if e = rc CHR ''C'' then
        strip_case_escapes s (case requested of Some b \<Rightarrow> Some b | None \<Rightarrow> Some False)
      else (let (t, r) = strip_case_escapes s requested in (c # e # t, r)))"

fun has_uppercase :: "(rchar \<Rightarrow> bool) \<Rightarrow> rstr \<Rightarrow> bool" where
  "has_uppercase up [] \<longleftrightarrow> False"
| "has_uppercase up [c] \<longleftrightarrow> c \<noteq> rc CHR 0x5C \<and> up c"
| "has_uppercase up (c # e # s) \<longleftrightarrow>
     (if c = rc CHR 0x5C then has_uppercase up s else up c \<or> has_uppercase up (e # s))"

definition compile_pattern :: "'x regex_ops \<Rightarrow> rstr \<Rightarrow> case_options \<Rightarrow> bool option \<Rightarrow> 'x option" where
  "compile_pattern E pattern opts forced =
     (let (source, escaped) = strip_case_escapes pattern None;
          ignore_case = (case escaped of Some b \<Rightarrow> b
            | None \<Rightarrow> (case forced of Some b \<Rightarrow> b
              | None \<Rightarrow> opt_ignorecase opts \<and> \<not> (opt_smartcase opts \<and> has_uppercase (rx_is_uppercase E) source)))
      in rx_build E source ignore_case)"

section \<open>Ranges\<close>

record ex_view =
  view_visual :: "((nat \<times> nat) \<times> (nat \<times> nat)) option"
  view_local_marks :: local_marks
  view_global_marks :: "rchar \<rightharpoonup> global_mark"
  view_file :: "rstr option"
  view_case :: case_options

record line_range =
  lr_start :: nat
  lr_end :: nat

definition line_range_line :: "nat \<Rightarrow> line_range" where
  "line_range_line line = \<lparr>lr_start = line, lr_end = line\<rparr>"

definition line_range_indexes :: "line_range \<Rightarrow> nat \<times> nat" where
  "line_range_indexes r = (max (lr_start r) 1 - 1, max (lr_end r) 1 - 1)"

datatype range_error =
  InvalidRange | MarkNotSet | NoPreviousPattern | PatternNotFound rstr | NoRangeAllowed | AddressOverflow

definition ex_cursor_line :: "'r buffer \<Rightarrow> nat" where
  "ex_cursor_line b = cur_line (buf_cursor b) + 1"

definition ex_last_line :: "'r rope_ops \<Rightarrow> 'r buffer \<Rightarrow> nat" where
  "ex_last_line R b = buffer_line_count R b"

definition mark_line :: "ex_view \<Rightarrow> rchar \<Rightarrow> range_error + nat" where
  "mark_line v mark =
     (case (if mark = rc CHR ''<'' \<or> mark = rc CHR ''>'' then view_visual v else None) of
        Some ((s, _), (e, _)) \<Rightarrow> Inr (1 + (if mark = rc CHR ''<'' then s else e))
      | None \<Rightarrow>
          (case (if is_ascii_uppercase mark
                 then (case view_global_marks v mark of
                         Some g \<Rightarrow> if gm_file g = view_file v then Some (gm_line g) else None
                       | None \<Rightarrow> None)
                 else map_option mk_line (marks_get mark (view_local_marks v))) of
             Some line \<Rightarrow> Inr (line + 1)
           | None \<Rightarrow> Inl MarkNotSet))"

definition search_index :: "nat \<Rightarrow> nat \<Rightarrow> bool \<Rightarrow> nat \<Rightarrow> nat" where
  "search_index count cursor forward step =
     (if forward then (cursor - 1 + step) mod count else (cursor - 1 + count * 2 - step) mod count)"

definition line_matches :: "'r rope_ops \<Rightarrow> 'x regex_ops \<Rightarrow> 'x \<Rightarrow> 'r buffer \<Rightarrow> nat \<Rightarrow> bool" where
  "line_matches R E x b idx =
     (case buffer_line_text R b idx of Some t \<Rightarrow> rx_is_match E x t | None \<Rightarrow> False)"

definition search_line ::
  "'r rope_ops \<Rightarrow> 'x regex_ops \<Rightarrow> ('r, 'f, 'a, 'g) doc \<Rightarrow> ex_view \<Rightarrow> rstr \<Rightarrow> bool \<Rightarrow> nat \<Rightarrow> range_error + nat" where
  "search_line R E d v typed forward cursor =
     (let previous = last_search (storage (doc_registers d))
      in if typed = [] \<and> previous = [] then Inl NoPreviousPattern
         else let pattern = (if typed = [] then previous else typed)
              in case compile_pattern E pattern (view_case v) None of
                   None \<Rightarrow> Inl (PatternNotFound pattern)
                 | Some x \<Rightarrow>
                     (let count = ex_last_line R (doc_buffer d)
                      in if count = 0 then Inl (PatternNotFound pattern)
                         else case find (\<lambda>step. line_matches R E x (doc_buffer d) (search_index count cursor forward step))
                                     [1..<Suc count] of
                                Some step \<Rightarrow> Inr (search_index count cursor forward step + 1)
                              | None \<Rightarrow> Inl (PatternNotFound pattern)))"

text \<open>\<open>base as isize + offset\<close>: the cast wraps, the sum is checked.\<close>

definition eval_address ::
  "'r rope_ops \<Rightarrow> 'x regex_ops \<Rightarrow> ('r, 'f, 'a, 'g) doc \<Rightarrow> ex_view \<Rightarrow> address \<Rightarrow> nat \<Rightarrow> range_error + nat" where
  "eval_address R E d v a cursor =
     (case (case addr_base a of
              Current \<Rightarrow> Inr cursor
            | Last \<Rightarrow> Inr (ex_last_line R (doc_buffer d))
            | Number line \<Rightarrow> Inr line
            | Mark mark \<Rightarrow> mark_line v mark
            | Search pattern forward \<Rightarrow> search_line R E d v pattern forward cursor) of
        Inl e \<Rightarrow> Inl e
      | Inr b \<Rightarrow>
          (case checked_add (i64_wrap (int b)) (addr_offset a) of
             None \<Rightarrow> Inl AddressOverflow
           | Some line \<Rightarrow> if line < 0 then Inl InvalidRange else Inr (nat line)))"

fun eval_addresses ::
  "'r rope_ops \<Rightarrow> 'x regex_ops \<Rightarrow> ('r, 'f, 'a, 'g) doc \<Rightarrow> ex_view \<Rightarrow> nat \<Rightarrow> range_spec \<Rightarrow> range_error + nat list" where
  "eval_addresses R E d v cursor [] = Inr []"
| "eval_addresses R E d v cursor ((a, _) # spec) =
     (case eval_address R E d v a cursor of
        Inl e \<Rightarrow> Inl e
      | Inr line \<Rightarrow>
          (let cursor = (case spec of (_, True) # _ \<Rightarrow> max line 1 | _ \<Rightarrow> cursor)
           in case eval_addresses R E d v cursor spec of
                Inl e \<Rightarrow> Inl e
              | Inr ls \<Rightarrow> Inr (line # ls)))"

definition eval_range ::
  "'r rope_ops \<Rightarrow> 'x regex_ops \<Rightarrow> ('r, 'f, 'a, 'g) doc \<Rightarrow> ex_view \<Rightarrow> range_spec \<Rightarrow> range_error + line_range" where
  "eval_range R E d v spec =
     (case eval_addresses R E d v (ex_cursor_line (doc_buffer d)) spec of
        Inl e \<Rightarrow> Inl e
      | Inr ls \<Rightarrow>
          (let e = last ls; s = (if length ls \<ge> 2 then ls ! (length ls - 2) else e)
           in Inr \<lparr>lr_start = min s e, lr_end = max s e\<rparr>))"

text \<open>The range a handler gets: what \<open>run_parsed\<close> makes of the typed one and the command's policy.\<close>

definition resolve_range ::
  "'r rope_ops \<Rightarrow> 'x regex_ops \<Rightarrow> ('r, 'f, 'a, 'g) doc \<Rightarrow> ex_view \<Rightarrow> range_policy \<Rightarrow> range_spec option \<Rightarrow>
   range_error + line_range option" where
  "resolve_range R E d v policy typed =
     (let final = ex_last_line R (doc_buffer d)
      in case typed of
           Some spec \<Rightarrow>
             if policy = RangeNone then Inl NoRangeAllowed
             else (case eval_range R E d v spec of
                     Inl e \<Rightarrow> Inl e
                   | Inr r \<Rightarrow>
                       if policy = RangeGoto then Inr (Some r)
                       else if lr_end r > final then Inl InvalidRange
                       else if policy = RangeLineOrZero then Inr (Some r)
                       else Inr (Some \<lparr>lr_start = max (lr_start r) 1, lr_end = max (lr_end r) 1\<rparr>))
         | None \<Rightarrow>
             (case policy of
                RangeNone \<Rightarrow> Inr None
              | RangeGoto \<Rightarrow> Inr None
              | RangeLine \<Rightarrow> Inr (Some (line_range_line (ex_cursor_line (doc_buffer d))))
              | RangeLineOrZero \<Rightarrow> Inr (Some (line_range_line (ex_cursor_line (doc_buffer d))))
              | RangeWhole \<Rightarrow> Inr (Some \<lparr>lr_start = 1, lr_end = final\<rparr>)))"

section \<open>A concrete engine\<close>

text \<open>A matcher for literal patterns, which shows what the theorems say on concrete lines.\<close>

fun literal_replace :: "bool \<Rightarrow> rstr \<Rightarrow> (captures \<Rightarrow> rstr) \<Rightarrow> nat \<Rightarrow> rstr \<Rightarrow> rstr" where
  "literal_replace again p f skip [] = []"
| "literal_replace again p f skip (c # s) =
     (if skip > 0 then literal_replace again p f (skip - 1) s
      else if p \<noteq> [] \<and> prefix p (c # s) then
        f (\<lambda>g. if g = 0 then Some p else None) @
          (if again then literal_replace again p f (length p - 1) s else drop (length p - 1) s)
      else c # literal_replace again p f 0 s)"

fun literal_count :: "rstr \<Rightarrow> nat \<Rightarrow> rstr \<Rightarrow> nat" where
  "literal_count p skip [] = 0"
| "literal_count p skip (c # s) =
     (if skip > 0 then literal_count p (skip - 1) s
      else if p \<noteq> [] \<and> prefix p (c # s) then Suc (literal_count p (length p - 1) s)
      else literal_count p 0 s)"

fun literal_matches :: "rstr \<Rightarrow> nat \<Rightarrow> nat \<Rightarrow> rstr \<Rightarrow> ((nat \<times> nat) \<times> captures) list" where
  "literal_matches p i skip [] = []"
| "literal_matches p i skip (c # s) =
     (if skip > 0 then literal_matches p (Suc i) (skip - 1) s
      else if p \<noteq> [] \<and> prefix p (c # s) then
        ((i, i + length p), \<lambda>g. if g = 0 then Some p else None) # literal_matches p (Suc i) (length p - 1) s
      else literal_matches p (Suc i) 0 s)"

definition literal_regex :: "(rstr \<times> bool) regex_ops" where
  "literal_regex =
     \<lparr>rx_build = \<lambda>p i. Some (p, i), rx_is_match = \<lambda>(p, _) s. literal_count p 0 s > 0,
      rx_replace = \<lambda>(p, _) f s. literal_replace False p f 0 s,
      rx_replace_all = \<lambda>(p, _) f s. literal_replace True p f 0 s,
      rx_count = \<lambda>(p, _) s. literal_count p 0 s,
      rx_captures = \<lambda>(p, _) s. (case literal_matches p 0 0 s of m # _ \<Rightarrow> Some m | [] \<Rightarrow> None),
      rx_captures_iter = \<lambda>(p, _) s. literal_matches p 0 0 s,
      rx_is_uppercase = is_ascii_uppercase\<rparr>"

definition range_sample_doc :: "rstr \<Rightarrow> (rstr, unit, unit, unit) doc" where
  "range_sample_doc t =
     \<lparr>doc_buffer = sample_buffer t, doc_changes = change_manager_new, doc_fs = (),
      doc_registers = register_manager_new (), doc_undo_group = None\<rparr>"

definition sample_view :: ex_view where
  "sample_view =
     \<lparr>view_visual = None, view_local_marks = [], view_global_marks = Map.empty, view_file = None,
      view_case = \<lparr>opt_ignorecase = False, opt_smartcase = False\<rparr>\<rparr>"

section \<open>Searching\<close>

text \<open>
  The lines of a buffer in the order in which a search from a line reaches them: those below it,
  then from the top down to it, or those above it, then from the bottom up to it.
\<close>

definition search_order :: "nat \<Rightarrow> nat \<Rightarrow> bool \<Rightarrow> nat list" where
  "search_order count line forward =
     (if forward then [Suc line..<Suc count] @ [1..<Suc line] else rev [1..<line] @ rev [line..<Suc count])"

text \<open>It reaches every line of the buffer exactly once.\<close>

lemma search_order_lines:
  "1 \<le> line \<Longrightarrow> line \<le> count \<Longrightarrow>
   set (search_order count line forward) = {1..count} \<and> distinct (search_order count line forward)"
  by (auto simp: search_order_def simp del: upt_Suc)

text \<open>A cursor past the last line counts as the line it comes to when the buffer is repeated.\<close>

definition search_start :: "nat \<Rightarrow> nat \<Rightarrow> nat" where
  "search_start count cursor = (if cursor \<le> count then cursor else (cursor - 1) mod count + 1)"

lemma search_index_start:
  assumes "1 \<le> cursor" "0 < count" "1 \<le> step" "step \<le> count"
  shows "search_index count cursor forward step = search_index count (search_start count cursor) forward step"
proof -
  define c where "c = (cursor - 1) mod count"
  have c: "c < count" "search_start count cursor = c + 1"
    using assms by (auto simp: c_def search_start_def)
  obtain k where k: "cursor - 1 = k * count + c" using div_mult_mod_eq [of "cursor - 1" count] by (metis c_def)
  have "(k * count + c + step) mod count = (c + step) mod count" by (simp add: add.assoc)
  moreover have "k * count + c + count * 2 - step = k * count + (c + count * 2 - step)" using assms(4) by simp
  then have "(k * count + c + count * 2 - step) mod count = (c + count * 2 - step) mod count" by simp
  ultimately show ?thesis unfolding search_index_def k c(2) by simp
qed

lemma search_index_order:
  assumes "1 \<le> line" "line \<le> count"
  shows "map (\<lambda>step. search_index count line forward step + 1) [1..<Suc count] = search_order count line forward"
proof (rule nth_equalityI)
  show "length (map (\<lambda>step. search_index count line forward step + 1) [1..<Suc count]) = length (search_order count line forward)"
    using assms by (simp add: search_order_def del: upt_Suc)
  fix i
  assume "i < length (map (\<lambda>step. search_index count line forward step + 1) [1..<Suc count])"
  then have i: "i < count" by (simp del: upt_Suc)
  have step: "[1..<Suc count] ! i = Suc i" using i by (simp del: upt_Suc)
  have "(map (\<lambda>step. search_index count line forward step + 1) [1..<Suc count]) ! i = search_index count line forward (Suc i) + 1"
    using i step by (simp del: upt_Suc)
  also have "\<dots> = search_order count line forward ! i"
  proof (cases forward)
    case True
    have "(line + i) mod count = (if line + i < count then line + i else line + i - count)"
      using assms i by (simp add: le_mod_geq)
    then show ?thesis
      using True i assms by (simp add: search_order_def search_index_def nth_append del: upt_Suc) arith
  next
    case False
    have up: "line - 1 + count * 2 - Suc i = (if Suc i < line then line - 1 - Suc i + 2 * count else count + (count + line - 1 - Suc i))"
      using assms i by simp arith
    have "(line - 1 - Suc i + 2 * count) mod count = line - 1 - Suc i" if "Suc i < line"
      unfolding mod_mult_self1 using that assms by simp
    moreover have "(count + (count + line - 1 - Suc i)) mod count = count + line - 1 - Suc i" if "\<not> Suc i < line"
      unfolding mod_add_self1 using that assms i by simp
    ultimately have "(line - 1 + count * 2 - Suc i) mod count =
        (if Suc i < line then line - 1 - Suc i else count + line - 1 - Suc i)"
      unfolding up by simp
    then show ?thesis
      using False i assms by (simp add: search_order_def search_index_def nth_append rev_nth del: upt_Suc) arith
  qed
  finally show "(map (\<lambda>step. search_index count line forward step + 1) [1..<Suc count]) ! i = search_order count line forward ! i" .
qed

lemma find_map: "find P (map f xs) = map_option f (find (\<lambda>x. P (f x)) xs)"
  by (induction xs) auto

lemma no_lines_match: "ex_last_line R b = 0 \<Longrightarrow> \<not> line_matches R E x b i"
  by (simp add: line_matches_def buffer_line_text_def ex_last_line_def)

section \<open>What a range evaluates to\<close>

lemma eval_range_ordered: "eval_range R E d v spec = Inr r \<Longrightarrow> lr_start r \<le> lr_end r"
  by (auto simp: eval_range_def Let_def split: sum.splits)

lemma eval_addresses_length:
  "eval_addresses R E d v cursor spec = Inr ls \<Longrightarrow> length ls = length spec"
  by (induction R E d v cursor spec arbitrary: ls rule: eval_addresses.induct)
    (auto simp: Let_def split: sum.splits)

lemma eval_whole:
  "1 \<le> ex_last_line R (doc_buffer d) \<Longrightarrow> ex_last_line R (doc_buffer d) < 2 ^ 63 \<Longrightarrow>
   eval_range R E d v range_whole = Inr \<lparr>lr_start = 1, lr_end = ex_last_line R (doc_buffer d)\<rparr>"
  by (simp add: eval_range_def range_whole_def eval_address_def checked_add_def i64_wrap_def i64_range_def)

context rope_contract
begin

lemma last_line_pos: "1 \<le> ex_last_line R b"
  using char_to_line_less [of 0 "buf_rope b"] final_break [of "buf_rope b"]
  by (auto simp: ex_last_line_def buffer_line_count_def len_chars char_at last_conv_nth Let_def)

end

section \<open>Properties\<close>

text \<open>
  C21. A search address is the first matching line in the order of the search: \<open>/pat/\<close> goes down from
  the line after the cursor to the end, then from the top to the cursor line; \<open>?pat?\<close> goes up from
  the line before the cursor to the top, then from the end up to the cursor line. An empty pattern
  is the last search, E35 when there is none; the address fails with E486 when the pattern does not
  compile and exactly when no line of the buffer matches. From a cursor past the last line, which a
  range such as \<open>6;/pat/\<close> can set, the code does not start at the top but after the line that number
  leaves modulo the line count (see \<open>search_past_end\<close>).
\<close>

theorem search_address_nearest:
  fixes R :: "'r rope_ops" and d :: "('r, 'f, 'a, 'g) doc" and typed :: rstr
  assumes "1 \<le> cursor"
  defines "count \<equiv> ex_last_line R (doc_buffer d)"
    and "pattern \<equiv> (if typed = [] then last_search (storage (doc_registers d)) else typed)"
  shows "search_line R E d v typed forward cursor =
     (if pattern = [] then Inl NoPreviousPattern
      else case compile_pattern E pattern (view_case v) None of
             None \<Rightarrow> Inl (PatternNotFound pattern)
           | Some x \<Rightarrow>
               (case find (\<lambda>l. line_matches R E x (doc_buffer d) (l - 1)) (search_order count (search_start count cursor) forward) of
                  Some l \<Rightarrow> Inr l
                | None \<Rightarrow> Inl (PatternNotFound pattern)))"
proof -
  have found: "(case find (\<lambda>step. line_matches R E x (doc_buffer d) (search_index count cursor forward step)) [1..<Suc count] of
        Some step \<Rightarrow> Inr (search_index count cursor forward step + 1) | None \<Rightarrow> Inl (PatternNotFound pattern)) =
      (case find (\<lambda>l. line_matches R E x (doc_buffer d) (l - 1)) (search_order count (search_start count cursor) forward) of
        Some l \<Rightarrow> Inr l | None \<Rightarrow> Inl (PatternNotFound pattern))" if "0 < count" for x
  proof -
    have start: "1 \<le> search_start count cursor" "search_start count cursor \<le> count"
      using that assms(1) by (auto simp: search_start_def Suc_le_eq)
    have "map (\<lambda>step. search_index count cursor forward step + 1) [1..<Suc count] =
        map (\<lambda>step. search_index count (search_start count cursor) forward step + 1) [1..<Suc count]"
      using search_index_start [OF assms(1) that] by (intro map_cong refl) (simp del: upt_Suc)
    then have order: "search_order count (search_start count cursor) forward =
        map (\<lambda>step. search_index count cursor forward step + 1) [1..<Suc count]"
      by (simp only: search_index_order [OF start])
    show ?thesis
      unfolding order find_map
      by (cases "find (\<lambda>step. line_matches R E x (doc_buffer d) (search_index count cursor forward step)) [1..<Suc count]")
        (simp_all del: upt_Suc)
  qed
  have none: "find (\<lambda>l. line_matches R E x (doc_buffer d) (l - 1)) ls = None" if "count = 0" for x ls
    using that no_lines_match [of R "doc_buffer d" E x] by (auto simp: find_None_iff count_def)
  show ?thesis
    using found none unfolding search_line_def Let_def pattern_def [symmetric] count_def [symmetric]
    by (auto simp: pattern_def simp del: upt_Suc split: option.split)
qed

theorem search_address_nearest_witness:
  "search_line list_rope literal_regex (range_sample_doc (rs ''ab'' @ [10] @ rs ''c'' @ [10] @ rs ''b'')) sample_view
     (rs ''b'') True 1 = Inr 3"
proof -
  let ?d = "range_sample_doc (rs ''ab'' @ [10] @ rs ''c'' @ [10] @ rs ''b'')"
  have m: "line_matches list_rope literal_regex (rs ''b'', False) (doc_buffer ?d) 2"
    "\<not> line_matches list_rope literal_regex (rs ''b'', False) (doc_buffer ?d) 1"
    and n: "ex_last_line list_rope (doc_buffer ?d) = 3"
    by code_simp+
  have c: "compile_pattern literal_regex (rs ''b'') (view_case sample_view) None = Some (rs ''b'', False)"
    by code_simp
  have order: "search_order 3 (search_start 3 1) True = [2, 3, 1]"
    by code_simp
  show ?thesis
    using search_address_nearest [of 1 list_rope literal_regex ?d sample_view "rs ''b''" True]
    unfolding n order using m c by simp
qed

text \<open>In a buffer of four lines \<open>6;/x/\<close> searches from line 2 on, although nothing is below line 6.\<close>

lemma search_past_end: "search_order 4 (search_start 4 6) True = [3, 4, 1, 2]"
  by code_simp



end
