(* ===== verification/ExEdit.thy ===== *)
theory ExEdit
  imports ExRange "HOL-Library.List_Lexorder" "HOL-Library.Product_Lexorder"
begin

text \<open>
  The ex commands that edit lines (ovim-core/src/commands/edit.rs) and the register access they use
  (ovim-core/src/editor/register_ops.rs).

  A handler returns \<open>None\<close> where the source panics: a missing range it expects, or an addition that
  overflows. Unicode tables and grapheme segmentation are the parameter \<open>unicode_ops\<close>; strings are
  compared by code points, which is the order of their UTF-8 bytes. The stable sort of the standard
  library is \<^const>\<open>sort_key\<close>.
\<close>

section \<open>The editor as the handlers see it\<close>

text \<open>
  The current document with its id, what ranges read, the pending register and the \<open>clipboard\<close>
  option, the nesting of ex lines, and the matches of a substitution being confirmed.
\<close>

record unicode_ops =
  uni_graphemes :: "rstr \<Rightarrow> nat"
  uni_char_to_grapheme :: "rstr \<Rightarrow> nat \<Rightarrow> nat"
  uni_str_lowercase :: "rstr \<Rightarrow> rstr"
  uni_lowercase :: "rchar \<Rightarrow> rstr"
  uni_uppercase :: "rchar \<Rightarrow> rstr"
  uni_alphanumeric :: "rchar \<Rightarrow> bool"

record ('r, 'f, 'a, 'g) ex_editor =
  ed_doc :: "('r, 'f, 'a, 'g) doc"
  ed_view :: ex_view
  ed_pending_register :: "rchar option"
  ed_clipboard_option :: rstr
  ed_buffer_id :: nat
  ed_ex_depth :: nat
  ed_matches :: "(nat \<times> nat \<times> nat \<times> rstr) list"
  ed_match_index :: nat
  ed_confirming :: bool

record ex_call =
  call_name :: string
  call_bang :: bool
  call_args :: rstr
  call_range :: "line_range option"
  call_explicit_range :: bool
  call_addresses :: nat

datatype command_result = Success "rstr option" | Failure rstr

definition cmd_ok :: "rstr \<Rightarrow> command_result" where
  "cmd_ok message = Success (Some message)"

definition cmd_ok_silent :: command_result where
  "cmd_ok_silent = Success None"

definition cmd_err :: "rstr \<Rightarrow> command_result" where
  "cmd_err message = Failure message"

definition unmodifiable :: command_result where
  "unmodifiable = cmd_err (rs ''E21: Cannot make changes, '' @ [39] @ rs ''modifiable'' @ [39] @ rs '' is off'')"

definition range_error_message :: "range_error \<Rightarrow> rstr" where
  "range_error_message e =
     (case e of
        InvalidRange \<Rightarrow> rs ''E16: Invalid range''
      | MarkNotSet \<Rightarrow> rs ''E20: Mark not set''
      | NoPreviousPattern \<Rightarrow> rs ''E35: No previous regular expression''
      | PatternNotFound pattern \<Rightarrow> rs ''E486: Pattern not found: '' @ pattern
      | NoRangeAllowed \<Rightarrow> rs ''E481: No range allowed''
      | AddressOverflow \<Rightarrow> rs ''attempt to add with overflow'')"

definition ed_buffer :: "('r, 'f, 'a, 'g) ex_editor \<Rightarrow> 'r buffer" where
  "ed_buffer ed = doc_buffer (ed_doc ed)"

definition ed_registers :: "('r, 'f, 'a, 'g) ex_editor \<Rightarrow> 'g register_manager" where
  "ed_registers ed = doc_registers (ed_doc ed)"

definition upd_buffer :: "('r buffer \<Rightarrow> 'r buffer) \<Rightarrow> ('r, 'f, 'a, 'g) ex_editor \<Rightarrow> ('r, 'f, 'a, 'g) ex_editor" where
  "upd_buffer f ed = ed\<lparr>ed_doc := (ed_doc ed)\<lparr>doc_buffer := f (ed_buffer ed)\<rparr>\<rparr>"

definition upd_registers ::
  "('g register_manager \<Rightarrow> 'g register_manager) \<Rightarrow> ('r, 'f, 'a, 'g) ex_editor \<Rightarrow> ('r, 'f, 'a, 'g) ex_editor" where
  "upd_registers f ed = ed\<lparr>ed_doc := (ed_doc ed)\<lparr>doc_registers := f (ed_registers ed)\<rparr>\<rparr>"

definition ed_record ::
  "('r buffer \<Rightarrow> 'b \<times> 'r buffer) \<Rightarrow> ('r, 'f, 'a, 'g) ex_editor \<Rightarrow> 'b \<times> ('r, 'f, 'a, 'g) ex_editor" where
  "ed_record f ed =
     (case record_operation f None (ed_doc ed) of (result, d) \<Rightarrow> (result, ed\<lparr>ed_doc := d\<rparr>))"

section \<open>Registers\<close>

definition set_pending_register :: "rchar \<Rightarrow> ('r, 'f, 'a, 'g) ex_editor \<Rightarrow> ('r, 'f, 'a, 'g) ex_editor" where
  "set_pending_register reg ed = ed\<lparr>ed_pending_register := Some reg\<rparr>"

definition unnamed_follows_register ::
  "'g clipboard_backend \<Rightarrow> rchar \<Rightarrow> 'g register_manager \<Rightarrow> 'g register_manager" where
  "unnamed_follows_register C reg m =
     (case register_get_with_type C m (Some reg) of
        ((t, ty), m) \<Rightarrow> register_set_with_type C m None t ty)"

definition sync_clipboard_option ::
  "'g clipboard_backend \<Rightarrow> rstr \<Rightarrow> ('r, 'f, 'a, 'g) ex_editor \<Rightarrow> ('r, 'f, 'a, 'g) ex_editor" where
  "sync_clipboard_option C t ed =
     (if ed_clipboard_option ed \<noteq> [] then upd_registers (\<lambda>m. register_set_clipboard C m t) ed else ed)"

definition yank_to_register_with_type ::
  "'g clipboard_backend \<Rightarrow> rstr \<Rightarrow> register_type \<Rightarrow> ('r, 'f, 'a, 'g) ex_editor \<Rightarrow> ('r, 'f, 'a, 'g) ex_editor" where
  "yank_to_register_with_type C t ty ed =
     (case ed_pending_register ed of
        Some reg \<Rightarrow>
          (let ed = ed\<lparr>ed_pending_register := None\<rparr>
           in if reg = rc CHR ''_'' then ed
              else if register_is_read_only reg then
                sync_clipboard_option C t (upd_registers (\<lambda>m. register_yank_with_type m t ty) ed)
              else if reg = rc CHR ''+'' \<or> reg = rc CHR ''*'' then
                upd_registers (\<lambda>m. register_set_with_type C m (Some reg) t ty) ed
              else if is_ascii_digit reg then
                sync_clipboard_option C t (upd_registers (\<lambda>m. register_delete_with_type m t ty) ed)
              else sync_clipboard_option C t
                (upd_registers (\<lambda>m. unnamed_follows_register C reg (register_set_with_type C m (Some reg) t ty)) ed))
      | None \<Rightarrow> sync_clipboard_option C t (upd_registers (\<lambda>m. register_yank_with_type m t ty) ed))"

definition delete_to_register_with_type ::
  "'g clipboard_backend \<Rightarrow> rstr \<Rightarrow> register_type \<Rightarrow> ('r, 'f, 'a, 'g) ex_editor \<Rightarrow> ('r, 'f, 'a, 'g) ex_editor" where
  "delete_to_register_with_type C t ty ed =
     (let ed = ed\<lparr>ed_doc := (ed_doc ed)\<lparr>doc_changes :=
            (doc_changes (ed_doc ed))\<lparr>cm_last_repeat_register := ed_pending_register ed\<rparr>\<rparr>\<rparr>
      in case ed_pending_register ed of
           Some reg \<Rightarrow>
             (let ed = ed\<lparr>ed_pending_register := None\<rparr>
              in if reg = rc CHR ''_'' then ed
                 else if register_is_read_only reg then
                   sync_clipboard_option C t (upd_registers (\<lambda>m. register_delete_with_type m t ty) ed)
                 else if reg = rc CHR ''+'' \<or> reg = rc CHR ''*'' then
                   upd_registers (\<lambda>m. register_set_with_type C m (Some reg) t ty) ed
                 else sync_clipboard_option C t
                   (upd_registers (\<lambda>m. unnamed_follows_register C reg (register_set_with_type C m (Some reg) t ty)) ed))
         | None \<Rightarrow> sync_clipboard_option C t (upd_registers (\<lambda>m. register_delete_with_type m t ty) ed))"

section \<open>Lines and the cursor\<close>

definition first_non_blank :: "'r rope_ops \<Rightarrow> unicode_ops \<Rightarrow> 'r buffer \<Rightarrow> 'r buffer" where
  "first_non_blank R U b =
     (let content = strip_break (rope_line R (buf_rope b) (cur_line (buf_cursor b)));
          char_col = length (takeWhile is_whitespace content);
          col = (if char_col < length content then uni_char_to_grapheme U content char_col else 0)
      in b\<lparr>buf_cursor := cursor_set_col (buf_cursor b) col\<rparr>)"

definition buffer_set_cursor_line :: "nat \<Rightarrow> 'r buffer \<Rightarrow> 'r buffer" where
  "buffer_set_cursor_line line b = b\<lparr>buf_cursor := cursor_set_position (buf_cursor b) line 0\<rparr>"

definition cursor_to_first_non_blank ::
  "'r rope_ops \<Rightarrow> unicode_ops \<Rightarrow> nat \<Rightarrow> ('r, 'f, 'a, 'g) ex_editor \<Rightarrow> ('r, 'f, 'a, 'g) ex_editor" where
  "cursor_to_first_non_blank R U line ed =
     (let line = min line (buffer_line_count R (ed_buffer ed) - 1)
      in upd_buffer (\<lambda>b. first_non_blank R U (buffer_set_cursor_line line b)) ed)"

definition lines_text :: "'r rope_ops \<Rightarrow> 'r buffer \<Rightarrow> nat \<Rightarrow> nat \<Rightarrow> rstr" where
  "lines_text R b start final =
     concat (map (\<lambda>i. case buffer_line_text R b i of Some line \<Rightarrow> line @ [10] | None \<Rightarrow> []) [start..<Suc final])"

definition insert_lines_below :: "'r rope_ops \<Rightarrow> nat \<Rightarrow> rstr \<Rightarrow> 'r buffer \<Rightarrow> 'r buffer" where
  "insert_lines_below R after ls b =
     (if after < buffer_line_count R b \<or> after = 0 then buffer_insert_text_at R b after 0 ls
      else let final = buffer_line_count R b - 1;
               e = buffer_line_len R b final;
               t = (if ends_with_char ls 10 then butlast ls else ls);
               n = rope_len_chars R (buf_rope b);
               ends_with_newline = (n > 0 \<and> rope_char R (buf_rope b) (n - 1) = 10)
           in if ends_with_newline then buffer_insert_text_at R b (final + 1) 0 ls
              else buffer_insert_text_at R b final e (10 # t))"

definition str_parse_usize :: "rstr \<Rightarrow> nat option" where
  "str_parse_usize s = (case s of c # ds \<Rightarrow> parse_usize (if c = rc CHR ''+'' then ds else s) | [] \<Rightarrow> None)"

definition plural :: "nat \<Rightarrow> rstr" where
  "plural count = (if count = 1 then [] else rs ''s'')"

section \<open>The commands\<close>

definition goto_line ::
  "'r rope_ops \<Rightarrow> ex_call \<Rightarrow> ('r, 'f, 'a, 'g) ex_editor \<Rightarrow> command_result \<times> ('r, 'f, 'a, 'g) ex_editor" where
  "goto_line R x ed =
     (cmd_ok_silent,
      case call_range x of
        Some r \<Rightarrow>
          (let final = ex_last_line R (ed_buffer ed);
               line = max 1 (min (lr_end r) (max final 1))
           in upd_buffer (buffer_set_cursor_line (line - 1)) ed)
      | None \<Rightarrow> ed)"

text \<open>\<open>usize\<close> additions of a typed count, which the source does not check.\<close>

definition checked_usize :: "nat \<Rightarrow> nat option" where
  "checked_usize n = (if n < 2 ^ 64 then Some n else None)"

definition register_and_count :: "ex_call \<Rightarrow> (command_result + rchar option \<times> line_range) option" where
  "register_and_count x =
     (let arg = str_trim (call_args x);
          (register, arg) = (case arg of
               first # after \<Rightarrow> if \<not> is_ascii_digit first then (Some first, trim_start after) else (None, arg)
             | [] \<Rightarrow> (None, arg))
      in case call_range x of
           None \<Rightarrow> None
         | Some r \<Rightarrow>
             if arg = [] then Some (Inr (register, r))
             else case str_parse_usize arg of
                    None \<Rightarrow> Some (Inl (cmd_err (rs ''E488: Trailing characters: '' @ arg)))
                  | Some count \<Rightarrow>
                      if count = 0 then Some (Inl (cmd_err (rs ''E939: Positive count required'')))
                      else map_option (\<lambda>total. Inr (register, \<lparr>lr_start = lr_end r, lr_end = total - 1\<rparr>))
                             (checked_usize (lr_end r + count)))"

definition ex_delete ::
  "'r rope_ops \<Rightarrow> unicode_ops \<Rightarrow> 'g clipboard_backend \<Rightarrow> ex_call \<Rightarrow> ('r, 'f, 'a, 'g) ex_editor \<Rightarrow>
   (command_result \<times> ('r, 'f, 'a, 'g) ex_editor) option" where
  "ex_delete R U C x ed =
     (case register_and_count x of
        None \<Rightarrow> None
      | Some (Inl error) \<Rightarrow> Some (error, ed)
      | Some (Inr (register, r)) \<Rightarrow>
          if \<not> buf_modifiable (ed_buffer ed) then Some (unmodifiable, ed)
          else let final = ex_last_line R (ed_buffer ed);
                   (start, e) = line_range_indexes r;
                   e = min e (final - 1);
                   (deleted, ed) = ed_record
                     (\<lambda>b. let (deleted, b) = buffer_delete_range R b start 0 (e + 1) 0;
                              line = min start (buffer_line_count R b - 1)
                          in (deleted, first_non_blank R U (buffer_set_cursor_line line b))) ed;
                   deleted = (if \<not> ends_with_char deleted 10 then deleted @ [10] else deleted);
                   ed = (case register of Some reg \<Rightarrow> set_pending_register reg ed | None \<Rightarrow> ed)
               in Some (cmd_ok_silent, delete_to_register_with_type C deleted Line ed))"

definition ex_yank ::
  "'r rope_ops \<Rightarrow> 'g clipboard_backend \<Rightarrow> ex_call \<Rightarrow> ('r, 'f, 'a, 'g) ex_editor \<Rightarrow>
   (command_result \<times> ('r, 'f, 'a, 'g) ex_editor) option" where
  "ex_yank R C x ed =
     (case register_and_count x of
        None \<Rightarrow> None
      | Some (Inl error) \<Rightarrow> Some (error, ed)
      | Some (Inr (register, r)) \<Rightarrow>
          (let final = ex_last_line R (ed_buffer ed);
               (start, e) = line_range_indexes r;
               t = lines_text R (ed_buffer ed) start (min e (final - 1));
               ed = (case register of Some reg \<Rightarrow> set_pending_register reg ed | None \<Rightarrow> ed)
           in Some (cmd_ok_silent, yank_to_register_with_type C t Line ed)))"

text \<open>What \<open>join\<close> makes of its range and count: the first and last line and the number of addresses.\<close>

definition join_span :: "'r rope_ops \<Rightarrow> 'r buffer \<Rightarrow> ex_call \<Rightarrow> line_range \<Rightarrow> command_result + nat \<times> nat \<times> nat" where
  "join_span R b x r =
     (let (start, e) = line_range_indexes r; count = str_trim (call_args x)
      in if count = [] then Inr (start, e, call_addresses x)
         else case str_parse_usize count of
                Some 0 \<Rightarrow> Inl (cmd_err (rs ''E939: Positive count required''))
              | Some n \<Rightarrow> Inr (e, min (min (2 ^ 64 - 1) (e + (n - 1))) (ex_last_line R b - 1), call_addresses x + 1)
              | None \<Rightarrow> Inl (cmd_err (rs ''E488: Trailing characters: '' @ count)))"

definition ex_join ::
  "'r rope_ops \<Rightarrow> unicode_ops \<Rightarrow> ex_call \<Rightarrow> ('r, 'f, 'a, 'g) ex_editor \<Rightarrow>
   (command_result \<times> ('r, 'f, 'a, 'g) ex_editor) option" where
  "ex_join R U x ed =
     (if \<not> buf_modifiable (ed_buffer ed) then Some (unmodifiable, ed)
      else case call_range x of
        None \<Rightarrow> None
      | Some r \<Rightarrow>
          (case join_span R (ed_buffer ed) x r of
             Inl error \<Rightarrow> Some (error, ed)
           | Inr (start, e, addresses) \<Rightarrow>
               if start = e \<and> (addresses \<ge> 2 \<or> e + 1 \<ge> ex_last_line R (ed_buffer ed))
               then Some (cmd_ok_silent, cursor_to_first_non_blank R U start ed)
               else let e = (if start = e then e + 1 else e);
                        ls = e - start + 1;
                        (_, ed) = ed_record
                          (\<lambda>b. let b = buffer_set_cursor_line start b;
                                   b = (if call_bang x then buffer_join_lines_no_space R (uni_graphemes U) ls b
                                        else buffer_join_lines R (uni_graphemes U) ls b)
                               in ((), first_non_blank R U b)) ed
                    in Some (cmd_ok_silent, ed)))"

definition first_number :: "rstr \<Rightarrow> int option" where
  "first_number line =
     (let before = takeWhile (\<lambda>c. \<not> is_ascii_digit c) line;
          digits = takeWhile is_ascii_digit (dropWhile (\<lambda>c. \<not> is_ascii_digit c) line)
      in if digits = [] then None
         else map_option (\<lambda>v. if ends_with_char before (rc CHR ''-'') then - v else v) (parse_isize digits))"

fun dedup_by :: "('a \<Rightarrow> 'b) \<Rightarrow> 'a list \<Rightarrow> 'a list" where
  "dedup_by f (a # b # xs) = (if f a = f b then dedup_by f (a # xs) else a # dedup_by f (b # xs))"
| "dedup_by f xs = xs"

definition sort_text_key :: "unicode_ops \<Rightarrow> bool \<Rightarrow> rstr \<Rightarrow> rstr" where
  "sort_text_key U ignore_case line = (if ignore_case then uni_str_lowercase U line else line)"

definition sort_number_key :: "rstr \<Rightarrow> int \<times> int" where
  "sort_number_key line = (case first_number line of None \<Rightarrow> (0, 0) | Some n \<Rightarrow> (1, n))"

definition sort_lines_by :: "unicode_ops \<Rightarrow> bool \<Rightarrow> bool \<Rightarrow> bool \<Rightarrow> bool \<Rightarrow> rstr list \<Rightarrow> rstr list" where
  "sort_lines_by U numeric ignore_case unique bang ls =
     (let ls = (if numeric then sort_key sort_number_key ls else sort_key (sort_text_key U ignore_case) ls);
          ls = (if bang then rev ls else ls)
      in if unique then dedup_by (sort_text_key U ignore_case) ls else ls)"

definition ex_sort ::
  "'r rope_ops \<Rightarrow> unicode_ops \<Rightarrow> ex_call \<Rightarrow> ('r, 'f, 'a, 'g) ex_editor \<Rightarrow>
   (command_result \<times> ('r, 'f, 'a, 'g) ex_editor) option" where
  "ex_sort R U x ed =
     (if \<not> buf_modifiable (ed_buffer ed) then Some (unmodifiable, ed)
      else let flags = call_args x
           in case find (\<lambda>c. c \<notin> set (rs ''niu '')) flags of
                Some bad \<Rightarrow> Some (cmd_err (rs ''E474: Invalid argument: '' @ [bad]), ed)
              | None \<Rightarrow>
                  (case call_range x of
                     None \<Rightarrow> None
                   | Some r \<Rightarrow>
                       (let (start, e) = line_range_indexes r;
                            ls = List.map_filter (buffer_line_text R (ed_buffer ed)) [start..<Suc e];
                            ls = sort_lines_by U (rc CHR ''n'' \<in> set flags) (rc CHR ''i'' \<in> set flags)
                                   (rc CHR ''u'' \<in> set flags) (call_bang x) ls;
                            t = concat (map (\<lambda>line. line @ [10]) ls);
                            (_, ed) = ed_record
                              (\<lambda>b. let (_, b) = buffer_delete_range R b start 0 (e + 1) 0;
                                       b = insert_lines_below R start t b
                                   in ((), first_non_blank R U (buffer_set_cursor_line start b))) ed
                        in Some (cmd_ok (nat_digits 10 (length ls) @ rs '' lines sorted''), ed))))"

definition ex_destination ::
  "'r rope_ops \<Rightarrow> 'x regex_ops \<Rightarrow> rstr \<Rightarrow> ('r, 'f, 'a, 'g) ex_editor \<Rightarrow> command_result + nat" where
  "ex_destination R E args ed =
     (case parse_destination args of
        Inr (Some a) \<Rightarrow>
          (case eval_address R E (ed_doc ed) (ed_view ed) a (ex_cursor_line (ed_buffer ed)) of
             Inl e \<Rightarrow> Inl (cmd_err (range_error_message e))
           | Inr line \<Rightarrow>
               if line > ex_last_line R (ed_buffer ed) then Inl (cmd_err (rs ''E16: Invalid range''))
               else Inr line)
      | Inr None \<Rightarrow> Inl (cmd_err (rs ''E16: Invalid range''))
      | Inl InvalidAddress \<Rightarrow> Inl (cmd_err (rs ''E16: Invalid range''))
      | Inl (TrailingCharacters s) \<Rightarrow> Inl (cmd_err (rs ''E488: Trailing characters: '' @ s))
      | Inl other \<Rightarrow> Inl (cmd_err (parse_error_message args other)))"

definition ex_copy ::
  "'r rope_ops \<Rightarrow> 'x regex_ops \<Rightarrow> ex_call \<Rightarrow> ('r, 'f, 'a, 'g) ex_editor \<Rightarrow>
   (command_result \<times> ('r, 'f, 'a, 'g) ex_editor) option" where
  "ex_copy R E x ed =
     (if \<not> buf_modifiable (ed_buffer ed) then Some (unmodifiable, ed)
      else case ex_destination R E (call_args x) ed of
        Inl error \<Rightarrow> Some (error, ed)
      | Inr dest \<Rightarrow>
          (case call_range x of
             None \<Rightarrow> None
           | Some r \<Rightarrow>
               (let (start, e) = line_range_indexes r;
                    t = lines_text R (ed_buffer ed) start e;
                    count = e - start + 1;
                    (_, ed) = ed_record
                      (\<lambda>b. ((), buffer_set_cursor_line (dest + count - 1) (insert_lines_below R dest t b))) ed
                in Some (cmd_ok (nat_digits 10 count @ rs '' line'' @ plural count @ rs '' copied''), ed))))"

definition ex_move ::
  "'r rope_ops \<Rightarrow> 'x regex_ops \<Rightarrow> ex_call \<Rightarrow> ('r, 'f, 'a, 'g) ex_editor \<Rightarrow>
   (command_result \<times> ('r, 'f, 'a, 'g) ex_editor) option" where
  "ex_move R E x ed =
     (if \<not> buf_modifiable (ed_buffer ed) then Some (unmodifiable, ed)
      else case ex_destination R E (call_args x) ed of
        Inl error \<Rightarrow> Some (error, ed)
      | Inr dest \<Rightarrow>
          (case call_range x of
             None \<Rightarrow> None
           | Some r \<Rightarrow>
               (let first = max (lr_start r) 1; final = lr_end r
                in if dest \<ge> first \<and> dest < final
                   then Some (cmd_err (rs ''E134: Cannot move a range of lines into itself''), ed)
                   else let count = final - first + 1;
                            t = lines_text R (ed_buffer ed) (first - 1) (final - 1);
                            target = (if dest > final then dest - count else dest);
                            (_, ed) = ed_record
                              (\<lambda>b. let b = (if dest \<noteq> first - 1 \<and> dest \<noteq> final
                                            then insert_lines_below R target t
                                                   (snd (buffer_delete_range R b (first - 1) 0 final 0))
                                            else b)
                                   in ((), buffer_set_cursor_line (target + count - 1) b)) ed
                        in Some (cmd_ok (nat_digits 10 count @ rs '' line'' @ plural count @ rs '' moved''), ed))))"

definition trim_end_breaks :: "rstr \<Rightarrow> rstr" where
  "trim_end_breaks s = rev (dropWhile (\<lambda>c. c = 10) (rev s))"

definition ex_print ::
  "'r rope_ops \<Rightarrow> unicode_ops \<Rightarrow> ex_call \<Rightarrow> ('r, 'f, 'a, 'g) ex_editor \<Rightarrow>
   (command_result \<times> ('r, 'f, 'a, 'g) ex_editor) option" where
  "ex_print R U x ed =
     (case call_range x of
        None \<Rightarrow> None
      | Some r \<Rightarrow>
          (let (start, e) = line_range_indexes r; t = lines_text R (ed_buffer ed) start e
           in Some (cmd_ok (trim_end_breaks t), cursor_to_first_non_blank R U e ed)))"

definition ex_undo ::
  "'r rope_ops \<Rightarrow> 'f fs_ops \<Rightarrow> ('r, 'f, 'a, 'g) ex_editor \<Rightarrow> command_result \<times> ('r, 'f, 'a, 'g) ex_editor" where
  "ex_undo R F ed = (cmd_ok_silent, ed\<lparr>ed_doc := undo_count R F 1 (ed_doc ed)\<rparr>)"

definition ex_redo ::
  "'r rope_ops \<Rightarrow> 'f fs_ops \<Rightarrow> ('r, 'f, 'a, 'g) ex_editor \<Rightarrow> command_result \<times> ('r, 'f, 'a, 'g) ex_editor" where
  "ex_redo R F ed = (cmd_ok_silent, ed\<lparr>ed_doc := redo_count R F 1 (ed_doc ed)\<rparr>)"

section \<open>Concrete editors\<close>

definition ascii_unicode :: unicode_ops where
  "ascii_unicode =
     \<lparr>uni_graphemes = length, uni_char_to_grapheme = \<lambda>s i. i, uni_str_lowercase = map to_ascii_lowercase,
      uni_lowercase = \<lambda>c. [to_ascii_lowercase c],
      uni_uppercase = \<lambda>c. [if is_ascii_lowercase c then c - 32 else c], uni_alphanumeric = is_ascii_alphanumeric\<rparr>"

definition sample_editor :: "rstr \<Rightarrow> (rstr, unit, unit, rstr option) ex_editor" where
  "sample_editor t =
     \<lparr>ed_doc = \<lparr>doc_buffer = sample_buffer t, doc_changes = change_manager_new, doc_fs = (),
        doc_registers = register_manager_new None, doc_undo_group = None\<rparr>, ed_view = sample_view, ed_pending_register = None, ed_clipboard_option = [],
      ed_buffer_id = 0, ed_ex_depth = 0, ed_matches = [], ed_match_index = 0, ed_confirming = False\<rparr>"

definition sample_call :: "rstr \<Rightarrow> nat \<Rightarrow> nat \<Rightarrow> ex_call" where
  "sample_call args start final =
     \<lparr>call_name = [], call_bang = False, call_args = args, call_range = Some \<lparr>lr_start = start, lr_end = final\<rparr>,
      call_explicit_range = True, call_addresses = 2\<rparr>"

end
