(* ===== verification/ExEditLaws.thy ===== *)
theory ExEditLaws
  imports ExEdit UndoLaws "HOL-Library.Multiset"
begin

text \<open>
  What the ex commands of ExEdit do to the lines of the buffer, each against a one-line
  specification on the list of shown lines: \<open>:d\<close>, \<open>:t\<close>, \<open>:m\<close>, \<open>:sort\<close> and \<open>:j\<close>; and that each is
  one step of the undo history.
\<close>

section \<open>Recorded changes\<close>

lemma ed_record_buffer:
  "ed_buffer (snd (ed_record f ed)) =
     (snd (f ((ed_buffer ed)\<lparr>buf_recording := Some recording_session_default\<rparr>)))\<lparr>buf_recording := None\<rparr>"
  "fst (ed_record f ed) = fst (f ((ed_buffer ed)\<lparr>buf_recording := Some recording_session_default\<rparr>))"
  by (auto simp: ed_record_def record_operation_def ed_buffer_def buffer_record_def buffer_end_recording_def
      push_recorded_undo_def Let_def split: prod.splits option.splits)

lemma cursor_kept [simp]:
  "buf_rope (first_non_blank R U b) = buf_rope b" "buf_modifiable (first_non_blank R U b) = buf_modifiable b"
  "buf_rope (buffer_set_cursor_line l b) = buf_rope b" "buf_modifiable (buffer_set_cursor_line l b) = buf_modifiable b"
  "cur_line (buf_cursor (first_non_blank R U b)) = cur_line (buf_cursor b)"
  "cur_line (buf_cursor (buffer_set_cursor_line l b)) = l"
  by (simp_all add: first_non_blank_def buffer_set_cursor_line_def cursor_set_col_def cursor_set_position_def Let_def)

lemma registers_kept [simp]:
  "ed_buffer (upd_registers g ed) = ed_buffer ed" "ed_buffer (sync_clipboard_option C t ed) = ed_buffer ed"
  "ed_buffer (set_pending_register reg ed) = ed_buffer ed" "ed_buffer (ed\<lparr>ed_pending_register := p\<rparr>) = ed_buffer ed"
  by (simp_all add: ed_buffer_def upd_registers_def sync_clipboard_option_def set_pending_register_def)

lemma register_writes_kept [simp]:
  "ed_buffer (yank_to_register_with_type C t ty ed) = ed_buffer ed"
  "ed_buffer (delete_to_register_with_type C t ty ed) = ed_buffer ed"
  by (auto simp: yank_to_register_with_type_def delete_to_register_with_type_def Let_def split: option.splits)
    (simp_all add: ed_buffer_def)

lemma ed_record_pending [simp]: "ed_pending_register (snd (ed_record f ed)) = ed_pending_register ed"
  by (simp add: ed_record_def split: prod.splits)

lemma deleted_to_unnamed:
  "ed_pending_register ed = None \<Longrightarrow>
   register_value C (ed_registers (delete_to_register_with_type C t ty ed)) None = (t, ty)"
  by (simp add: delete_to_register_with_type_def sync_clipboard_option_def upd_registers_def ed_registers_def Let_def
      register_value_None register_delete_with_type_def register_set_clipboard_def content_value_def
      register_content_new_def)

section \<open>Blocks of lines\<close>

context lf_rope begin

lemma shown_delete:
  assumes lf: "lf_only (chs (buf_rope b))" and mod: "buf_modifiable b" and s: "s < length (shown b)" "s < e"
  defines "d \<equiv> snd (buffer_delete_range R b s 0 e 0)"
  shows "shown d = (if s = 0 \<and> length (shown b) \<le> e then [[]] else take s (shown b) @ drop e (shown b))"
    and "terminated d = (if length (shown b) \<le> e then 0 < s else terminated b)"
    and "lf_only (chs (buf_rope d))" and "buf_modifiable d = buf_modifiable b"
proof -
  note raw = delete_lines(1) [OF lf mod s, folded d_def]
  show "lf_only (chs (buf_rope d))" unfolding d_def by (rule delete_lines(2) [OF lf mod s])
  show "buf_modifiable d = buf_modifiable b" by (simp add: d_def)
  have "shown d = (if s = 0 \<and> length (shown b) \<le> e then [[]] else take s (shown b) @ drop e (shown b)) \<and>
    terminated d = (if length (shown b) \<le> e then 0 < s else terminated b)"
  proof (cases "length (shown b) \<le> e")
    case True
    then have r: "raw d = take s (shown b) @ [[]]" using raw s by (simp add: raw_shown)
    show ?thesis
    proof (cases "s = 0")
      case True
      then have "chs (buf_rope d) = []" using r join_split [of "chs (buf_rope d)"] by simp
      then show ?thesis using \<open>length (shown b) \<le> e\<close> True by (simp add: terminated_def shown_lines_def)
    next
      case False
      then show ?thesis using True shown_of_raw(1) [OF r] s by simp
    qed
  next
    case e: False
    show ?thesis
    proof (cases "terminated b")
      case True
      then have "raw d = (take s (shown b) @ drop e (shown b)) @ [[]]" using raw s e by (simp add: raw_shown)
      from shown_of_raw(1) [OF this] show ?thesis using e True by simp
    next
      case False
      then have r: "raw d = take s (shown b) @ drop e (shown b)" using raw s e by (simp add: raw_shown)
      have "last (take s (shown b) @ drop e (shown b)) = last (shown b)" using e by simp
      moreover have "shown b \<noteq> [[]]" using e s by auto
      ultimately show ?thesis using shown_of_raw(2) [OF r] unterminated_last [OF False] False e by auto
    qed
  qed
  then show "shown d = (if s = 0 \<and> length (shown b) \<le> e then [[]] else take s (shown b) @ drop e (shown b))"
    and "terminated d = (if length (shown b) \<le> e then 0 < s else terminated b)" by simp_all
qed

lemma insert_below:
  assumes lf: "lf_only (chs (buf_rope b))" and mod: "buf_modifiable b" and after: "after \<le> length (shown b)"
    and ls: "ls \<noteq> []" "unbroken ls" "\<forall>x \<in> set ls. lf_only x"
  defines "i \<equiv> insert_lines_below R after (terminate ls) b"
  shows "raw i = (if after < length (shown b) \<or> terminated b then take after (raw b) @ ls @ drop after (raw b)
                  else raw b @ ls)"
    and "lf_only (chs (buf_rope i))"
proof -
  have pos: "0 < length (shown b)" by simp
  have less: "after < length (raw b)" if "after < length (shown b) \<or> terminated b"
    using that after by (auto simp: raw_shown)
  have "raw i = (if after < length (shown b) \<or> terminated b then take after (raw b) @ ls @ drop after (raw b)
                  else raw b @ ls) \<and> lf_only (chs (buf_rope i))"
  proof (cases "after < length (shown b) \<or> terminated b")
    case True
    have "i = buffer_insert_text_at R b after 0 (terminate ls)"
    proof (cases "after < length (shown b) \<or> after = 0")
      case True
      then show ?thesis by (simp add: i_def insert_lines_below_def line_count [OF lf])
    next
      case False
      then have "after = length (shown b)" "terminated b" using True after by auto
      then show ?thesis
        using False by (auto simp: i_def insert_lines_below_def line_count [OF lf] terminated_def ends_with_char_def
            len_chars char_at last_conv_nth Let_def)
    qed
    then show ?thesis using True insert_lines [OF lf mod less [OF True] ls(2,3)] by simp
  next
    case False
    then have a: "after = length (shown b)" and nt: "\<not> terminated b" and r: "raw b = shown b"
      using after by (simp_all add: raw_shown)
    let ?l = "length (shown b) - 1"
    have t: "butlast (terminate ls) = join ls" using ls(1) by (cases ls rule: rev_cases) (simp_all add: join_append butlast_append)
    have "ends_with_char (terminate ls) 10" using ls(1) by (cases ls rule: rev_cases) (simp_all add: ends_with_char_def)
    moreover have "\<not> (0 < length (chs (buf_rope b)) \<and> chs (buf_rope b) ! (length (chs (buf_rope b)) - 1) = 10)"
      using nt by (auto simp: terminated_def ends_with_char_def last_conv_nth)
    ultimately have i: "i = buffer_insert_text_at R b ?l (length (shown b ! ?l)) (10 # join ls)"
      using a pos by (auto simp: i_def insert_lines_below_def line_count [OF lf] line_len [OF lf] len_chars char_at t Let_def
          simp del: shown_lines_ne)
    have "chs (buf_rope i) = terminate (take ?l (shown b)) @ (shown b ! ?l) @ 10 # join ls"
      using insert_text [OF lf mod, of ?l "length (shown b ! ?l)" "10 # join ls"] pos r by (simp add: i)
    also have "\<dots> = join ((take ?l (shown b) @ [shown b ! ?l]) @ ls)"
      using ls(1) by (simp add: join_append join_Cons)
    also have "take ?l (shown b) @ [shown b ! ?l] = shown b"
      using pos by (metis Suc_pred' diff_less less_one take_Suc_conv_app_nth take_all_iff order_refl)
    finally have chars: "chs (buf_rope i) = join (shown b @ ls)" .
    then have "raw i = shown b @ ls" using ls shown_unbroken by (simp add: split_join)
    moreover have "lf_only (chs (buf_rope i))" unfolding chars using ls(3) shown_lf [OF lf] by auto
    ultimately show ?thesis using False r by simp
  qed
  then show "raw i = (if after < length (shown b) \<or> terminated b then take after (raw b) @ ls @ drop after (raw b)
                  else raw b @ ls)" "lf_only (chs (buf_rope i))" by simp_all
qed

text \<open>An unterminated last line that would be empty is not a line, so it is lost.\<close>

lemma shown_insert_below:
  assumes lf: "lf_only (chs (buf_rope b))" and mod: "buf_modifiable b" and after: "after \<le> length (shown b)"
    and ls: "ls \<noteq> []" "unbroken ls" "\<forall>x \<in> set ls. lf_only x"
    and full: "chs (buf_rope b) \<noteq> []" and fits: "terminated b \<or> after < length (shown b) \<or> last ls \<noteq> []"
  shows "shown (insert_lines_below R after (terminate ls) b) = take after (shown b) @ ls @ drop after (shown b)"
proof -
  note raw = insert_below(1) [OF lf mod after ls]
  show ?thesis
  proof (cases "terminated b")
    case True
    then have "raw (insert_lines_below R after (terminate ls) b) = (take after (shown b) @ ls @ drop after (shown b)) @ [[]]"
      using raw after by (simp add: raw_shown)
    from shown_of_raw(1) [OF this] show ?thesis using ls by simp
  next
    case False
    then have r: "raw (insert_lines_below R after (terminate ls) b) = take after (shown b) @ ls @ drop after (shown b)"
      using raw after by (auto simp: raw_shown)
    have "last (take after (shown b) @ ls @ drop after (shown b)) \<noteq> []"
      using fits False after full unterminated_last [OF False] ls by (cases "after < length (shown b)") auto
    then show ?thesis using shown_of_raw(2) [OF r] by simp
  qed
qed

lemma lines_text_shown:
  assumes lf: "lf_only (chs (buf_rope b))" and "s \<le> e" "e < length (shown b)"
  shows "lines_text R b s e = terminate (take (Suc e - s) (drop s (shown b)))"
proof -
  have "map (\<lambda>i. case buffer_line_text R b i of Some l \<Rightarrow> l @ [10] | None \<Rightarrow> []) [s..<Suc e] =
      map (\<lambda>l. l @ [10]) (map ((!) (shown b)) [s..<Suc e])"
    using assms by (simp add: line_text [OF lf])
  also have "map ((!) (shown b)) [s..<Suc e] = take (Suc e - s) (drop s (shown b))"
    using assms by (intro nth_equalityI) (simp_all del: upt_Suc)
  finally show ?thesis by (simp only: lines_text_def terminate_def)
qed

text \<open>The lines of a block, and the shown lines with the block moved or copied below a line.\<close>

lemma block_ok:
  assumes "lf_only (chs (buf_rope b))" "s \<le> e" "e < length (shown b)"
  shows "take (Suc e - s) (drop s (shown b)) \<noteq> []" "unbroken (take (Suc e - s) (drop s (shown b)))"
    "\<forall>x \<in> set (take (Suc e - s) (drop s (shown b))). lf_only x"
    "last (take (Suc e - s) (drop s (shown b))) = shown b ! e"
  using assms shown_unbroken [of b] shown_lf [OF assms(1)]
  by (auto simp: unbroken_parts last_conv_nth dest: in_set_takeD in_set_dropD)

end

definition move_block :: "nat \<Rightarrow> nat \<Rightarrow> nat \<Rightarrow> 'a list \<Rightarrow> 'a list" where
  "move_block first final dest ls =
     (let block = take (final - first + 1) (drop (first - 1) ls);
          others = take (first - 1) ls @ drop final ls;
          target = (if dest > final then dest - (final - first + 1) else dest)
      in if dest = first - 1 \<or> dest = final then ls
         else take target others @ block @ drop target others)"

lemma move_block_parts:
  assumes "1 \<le> first" "first \<le> final" "final \<le> length ls" "\<not> (first \<le> dest \<and> dest < final)" "dest \<le> length ls"
  shows "mset (move_block first final dest ls) = mset ls" "length (move_block first final dest ls) = length ls"
proof -
  define block where "block = take (final - first + 1) (drop (first - 1) ls)"
  define others where "others = take (first - 1) ls @ drop final ls"
  have "drop final ls = drop (final - first + 1) (drop (first - 1) ls)" using assms by simp
  then have "ls = take (first - 1) ls @ block @ drop final ls"
    unfolding block_def by (metis append_take_drop_id)
  from arg_cong [OF this, of mset] have ls: "mset ls = mset others + mset block"
    by (simp add: others_def ac_simps)
  have "mset (take t others) + mset (drop t others) = mset others" for t
    by (metis append_take_drop_id mset_append)
  then have "mset (take t others @ block @ drop t others) = mset ls" for t
    unfolding ls by (simp add: ac_simps)
  then show m: "mset (move_block first final dest ls) = mset ls"
    unfolding move_block_def Let_def block_def [symmetric] others_def [symmetric] by simp
  from arg_cong [OF this, of size] show "length (move_block first final dest ls) = length ls" by simp
qed

context lf_rope begin

lemma shown_copy:
  assumes lf: "lf_only (chs (buf_rope b))" and mod: "buf_modifiable b" and "s \<le> e" "e < length (shown b)"
    and "dest \<le> length (shown b)" and "chs (buf_rope b) \<noteq> []"
    and "terminated b \<or> dest < length (shown b) \<or> shown b ! e \<noteq> []"
  shows "shown (insert_lines_below R dest (lines_text R b s e) b) =
    take dest (shown b) @ take (Suc e - s) (drop s (shown b)) @ drop dest (shown b)"
  using shown_insert_below [OF lf mod assms(5) block_ok(1-3) [OF lf assms(3,4)] assms(6)] assms(7)
    block_ok(4) [OF lf assms(3,4)]
  by (simp only: lines_text_shown [OF lf assms(3,4)])

lemma shown_move:
  assumes lf: "lf_only (chs (buf_rope b))" and mod: "buf_modifiable b"
    and r: "1 \<le> first" "first \<le> final" "final \<le> length (shown b)"
    and dest: "dest \<le> length (shown b)" "\<not> (first \<le> dest \<and> dest < final)" "dest \<noteq> first - 1" "dest \<noteq> final"
    and fits: "terminated b \<or> dest < length (shown b) \<or> shown b ! (final - 1) \<noteq> []"
  shows "shown (insert_lines_below R (if dest > final then dest - (final - first + 1) else dest)
      (lines_text R b (first - 1) (final - 1)) (snd (buffer_delete_range R b (first - 1) 0 final 0))) =
    move_block first final dest (shown b)"
proof -
  let ?d = "snd (buffer_delete_range R b (first - 1) 0 final 0)"
  let ?block = "take (Suc (final - 1) - (first - 1)) (drop (first - 1) (shown b))"
  let ?others = "take (first - 1) (shown b) @ drop final (shown b)"
  let ?target = "if dest > final then dest - (final - first + 1) else dest"
  have bounds: "first - 1 < length (shown b)" "first - 1 < final" "first - 1 \<le> final - 1" "final - 1 < length (shown b)"
    using r by auto
  have away: "\<not> (first - 1 = 0 \<and> length (shown b) \<le> final)" using r dest by auto
  note d = shown_delete [OF lf mod bounds(1,2)]
  have others: "shown ?d = ?others" unfolding d(1) using away by simp
  have lf': "lf_only (chs (buf_rope ?d))" by (rule d(3))
  have mod': "buf_modifiable ?d" using mod by simp
  have target: "?target \<le> length (shown ?d)" unfolding others using dest r by auto
  have full: "chs (buf_rope ?d) \<noteq> []"
  proof
    assume none: "chs (buf_rope ?d) = []"
    then have "?others = [[]]" using others by (simp add: shown_lines_def)
    have "\<not> terminated ?d" using none by (simp add: terminated_def)
    with d(2) away have "final < length (shown b)" "\<not> terminated b" by (auto split: if_splits)
    moreover from this have "last ?others = last (shown b)" by simp
    with \<open>?others = [[]]\<close> have "last (shown b) = []" by (metis last_ConsL)
    ultimately show False
      using unterminated_last [of b] r by auto
  qed
  have "terminated ?d \<or> ?target < length (shown ?d) \<or> last ?block \<noteq> []"
    using fits dest r away block_ok(4) [OF lf bounds(3,4)] unfolding others d(2) by auto
  from shown_insert_below [OF lf' mod' target block_ok(1-3) [OF lf bounds(3,4)] full this]
  have "shown (insert_lines_below R ?target (terminate ?block) ?d) = take ?target ?others @ ?block @ drop ?target ?others"
    unfolding others .
  moreover have "Suc (final - 1) - (first - 1) = final - first + 1" using r by simp
  then have "move_block first final dest (shown b) = take ?target ?others @ ?block @ drop ?target ?others"
    using dest(3,4) unfolding move_block_def Let_def by (simp only: if_False simp_thms)
  ultimately show ?thesis unfolding lines_text_shown [OF lf bounds(3,4)] by (rule trans [OF _ sym])
qed

text \<open>The excepted case: an empty line appended to a text without a final line feed is lost.\<close>

lemma empty_line_lost:
  assumes lf: "lf_only (chs (buf_rope b))" and mod: "buf_modifiable b" and "\<not> terminated b"
  shows "shown (insert_lines_below R (length (shown b)) (terminate [[]]) b) = shown b"
proof -
  have "raw (insert_lines_below R (length (shown b)) (terminate [[]]) b) = shown b @ [[]]"
    using insert_below(1) [OF lf mod order_refl, of "[[]]"] assms(3) by (simp add: raw_shown)
  from shown_of_raw(1) [OF this] show ?thesis by simp
qed

text \<open>So is the last line of a moved block when it is empty.\<close>

lemma shown_move_lost:
  assumes lf: "lf_only (chs (buf_rope b))" and mod: "buf_modifiable b"
    and r: "1 \<le> first" "first \<le> final" "final < length (shown b)"
    and lost: "\<not> terminated b" "shown b ! (final - 1) = []"
  shows "shown (insert_lines_below R (length (shown b) - (final - first + 1))
      (lines_text R b (first - 1) (final - 1)) (snd (buffer_delete_range R b (first - 1) 0 final 0))) =
    butlast (move_block first final (length (shown b)) (shown b))"
proof -
  let ?d = "snd (buffer_delete_range R b (first - 1) 0 final 0)"
  let ?block = "take (Suc (final - 1) - (first - 1)) (drop (first - 1) (shown b))"
  let ?others = "take (first - 1) (shown b) @ drop final (shown b)"
  let ?i = "insert_lines_below R (length ?others) (terminate ?block) ?d"
  have bounds: "first - 1 < length (shown b)" "first - 1 < final" "first - 1 \<le> final - 1" "final - 1 < length (shown b)"
    using r by auto
  note d = shown_delete [OF lf mod bounds(1,2)]
  have others: "shown ?d = ?others" and nt: "\<not> terminated ?d" unfolding d(1,2) using r lost by auto
  have mod': "buf_modifiable ?d" using mod by simp
  have "raw ?i = ?others @ ?block"
    using insert_below(1) [OF d(3) mod' _ block_ok(1-3) [OF lf bounds(3,4)], of "length ?others"] others nt
    by (simp add: raw_shown)
  moreover have "?block = butlast ?block @ [[]]"
    using block_ok(1,4) [OF lf bounds(3,4)] lost(2) by (metis append_butlast_last_id)
  ultimately have "raw ?i = (?others @ butlast ?block) @ [[]]" by simp
  moreover have "?others @ butlast ?block \<noteq> []" using r by auto
  ultimately have "shown ?i = ?others @ butlast ?block" by (intro shown_of_raw(1) [THEN conjunct1])
  moreover have "Suc (final - 1) - (first - 1) = final - first + 1" "length ?others = length (shown b) - (final - first + 1)"
    using r by auto
  moreover have "move_block first final (length (shown b)) (shown b) = ?others @ ?block"
    unfolding move_block_def Let_def using r calculation(2,3) by (simp del: shown_lines_ne)
  ultimately show ?thesis
    unfolding lines_text_shown [OF lf bounds(3,4)] using block_ok(1) [OF lf bounds(3,4)] by (simp add: butlast_append)
qed

end

lemma line_text_recording [simp]: "buffer_line_text R (b\<lparr>buf_recording := s\<rparr>) = buffer_line_text R b"
  by (simp add: fun_eq_iff buffer_line_text_def buffer_line_count_def)

lemma lines_text_recording [simp]: "lines_text R (b\<lparr>buf_recording := s\<rparr>) = lines_text R b"
  by (simp add: fun_eq_iff lines_text_def)

lemma ex_destination_bound: "ex_destination R E args ed = Inr dest \<Longrightarrow> dest \<le> ex_last_line R (ed_buffer ed)"
  by (auto simp: ex_destination_def split: sum.splits option.splits parse_error.splits if_splits)

section \<open>The commands on the lines\<close>

text \<open>The shown lines of an editor whose rope has the contents \<open>chs\<close>.\<close>

definition ed_lines :: "('r \<Rightarrow> rstr) \<Rightarrow> ('r, 'f, 'a, 'g) ex_editor \<Rightarrow> rstr list" where
  "ed_lines chs ed = shown_lines (chs (buf_rope (ed_buffer ed)))"

definition ed_text :: "('r \<Rightarrow> rstr) \<Rightarrow> ('r, 'f, 'a, 'g) ex_editor \<Rightarrow> rstr" where
  "ed_text chs ed = chs (buf_rope (ed_buffer ed))"

lemma line_range_indexes_pos:
  "1 \<le> lr_start r \<Longrightarrow> 1 \<le> lr_end r \<Longrightarrow> line_range_indexes r = (lr_start r - 1, lr_end r - 1)"
  by (simp add: line_range_indexes_def)

text \<open>
  C24. \<open>:m\<close> moves its lines below the destination and keeps the others, in a modifiable text whose
  only line breaks are line feeds. A destination inside the block is E134, and the editor is unchanged. Otherwise the lines of the buffer are the same lines
  with the block moved, none lost or changed, with one exception: when the block ends in an empty
  line and goes to the end of a text without a final line feed, that empty line would be the last
  one with nothing after it, which is no line, so it is lost. The cursor goes to the last line of
  the block, except for \<open>dest = lr_end\<close>, where nothing moves and the cursor goes as many lines
  below the block as the block has, past the end of the buffer if need be.
\<close>

theorem move_permutes_lines:
  assumes "lf_rope R chs" and "lf_only (ed_text chs ed)" and "buf_modifiable (ed_buffer ed)"
    and "ex_destination R E (call_args x) ed = Inr dest" and "call_range x = Some r"
    and "1 \<le> lr_start r" "lr_start r \<le> lr_end r" "lr_end r \<le> length (ed_lines chs ed)"
  shows "if lr_start r \<le> dest \<and> dest < lr_end r
    then ex_move R E x ed = Some (Failure (rs ''E134: Cannot move a range of lines into itself''), ed)
    else \<exists>message ed'. ex_move R E x ed = Some (Success (Some message), ed') \<and>
      (let moved = move_block (lr_start r) (lr_end r) dest (ed_lines chs ed);
           lost = (\<not> ends_with_char (ed_text chs ed) 10 \<and> lr_end r < dest \<and> dest = length (ed_lines chs ed) \<and>
             ed_lines chs ed ! (lr_end r - 1) = [])
       in mset moved = mset (ed_lines chs ed) \<and>
         (if lost then ed_lines chs ed' @ [[]] = moved else ed_lines chs ed' = moved)) \<and>
      cur_line (buf_cursor (ed_buffer ed')) + 1 =
        (if dest > lr_end r then dest else if dest = lr_end r then lr_end r + (lr_end r - lr_start r + 1)
         else dest + (lr_end r - lr_start r + 1))"
proof (cases "lr_start r \<le> dest \<and> dest < lr_end r")
  case True
  then show ?thesis using assms(3-6) by (simp add: ex_move_def cmd_err_def Let_def)
next
  case False
  let ?b = "ed_buffer ed" and ?first = "lr_start r" and ?final = "lr_end r"
  let ?count = "?final - ?first + 1"
  let ?target = "if dest > ?final then dest - ?count else dest"
  let ?moved = "move_block ?first ?final dest (ed_lines chs ed)"
  let ?lost = "\<not> ends_with_char (ed_text chs ed) 10 \<and> ?final < dest \<and> dest = length (ed_lines chs ed) \<and>
    ed_lines chs ed ! (?final - 1) = []"
  have count: "ex_last_line R ?b = length (ed_lines chs ed)"
    using assms(2) lf_rope.line_count [OF assms(1)] by (simp add: ex_last_line_def ed_lines_def ed_text_def)
  have dest: "dest \<le> length (ed_lines chs ed)"
    using ex_destination_bound [OF assms(4)] count by simp
  have outside: "(?first \<le> dest \<and> dest < ?final) = False" "max ?first 1 = ?first" using assms(6) False by auto
  define change where "change = (\<lambda>b. ((), buffer_set_cursor_line (?target + ?count - 1)
      (if dest \<noteq> ?first - 1 \<and> dest \<noteq> ?final
       then insert_lines_below R ?target (lines_text R ?b (?first - 1) (?final - 1))
              (snd (buffer_delete_range R b (?first - 1) 0 ?final 0))
       else b)))"
  define ed' where "ed' = snd (ed_record change ed)"
  have run: "ex_move R E x ed =
      Some (Success (Some (nat_digits 10 ?count @ rs '' line'' @ plural ?count @ rs '' moved'')), ed')"
    by (simp only: ex_move_def assms(3-5) not_True_eq_False if_False sum.case option.case Let_def outside
        change_def [symmetric] ed'_def case_prod_beta cmd_ok_def)
  let ?b' = "?b\<lparr>buf_recording := Some recording_session_default\<rparr>"
  have lines: "ed_lines chs ed' = (if ?lost then butlast ?moved else ?moved)"
  proof (cases "dest = ?first - 1 \<or> dest = ?final")
    case True
    then have "\<not> ?final < dest" using assms(6,7) by auto
    with True show ?thesis
      by (auto simp: ed_lines_def ed'_def change_def ed_record_buffer move_block_def Let_def)
  next
    case moves: False
    have "shown_lines (chs (buf_rope (insert_lines_below R ?target (lines_text R ?b' (?first - 1) (?final - 1))
        (snd (buffer_delete_range R ?b' (?first - 1) 0 ?final 0))))) =
      (if ?lost then butlast else id) (move_block ?first ?final dest (shown_lines (chs (buf_rope ?b'))))"
    proof (cases ?lost)
      case True
      then have "?target = length (shown_lines (chs (buf_rope ?b'))) - ?count"
        "dest = length (shown_lines (chs (buf_rope ?b')))"
        by (simp_all add: ed_lines_def)
      then show ?thesis
        using True assms(2,3,6-7) lf_rope.shown_move_lost [OF assms(1), of ?b' ?first ?final]
        by (simp add: ed_text_def ed_lines_def lf_rope.terminated_def [OF assms(1)])
    next
      case False
      then show ?thesis
        using assms(2,3,6-8) dest moves \<open>\<not> (?first \<le> dest \<and> dest < ?final)\<close>
          lf_rope.shown_move [OF assms(1), of ?b' ?first ?final dest]
        by (auto simp: ed_text_def ed_lines_def lf_rope.terminated_def [OF assms(1)])
    qed
    then show ?thesis
      using moves by (simp add: ed_lines_def ed'_def change_def ed_record_buffer)
  qed
  have perm: "mset ?moved = mset (ed_lines chs ed)" "length ?moved = length (ed_lines chs ed)"
    using assms(6-8) False dest by (intro move_block_parts; simp)+
  have "butlast ?moved @ [[]] = ?moved" if ?lost
  proof -
    have "last ?moved = []"
      using that assms(6-8) by (auto simp: move_block_def Let_def last_append last_conv_nth)
    moreover have "?moved \<noteq> []" using perm(2) assms(6-8) by auto
    ultimately show ?thesis using append_butlast_last_id [of ?moved] by simp
  qed
  then have kept: "if ?lost then ed_lines chs ed' @ [[]] = ?moved else ed_lines chs ed' = ?moved"
    unfolding lines by (simp split: if_split)
  have "cur_line (buf_cursor (ed_buffer ed')) = ?target + ?count - 1"
    by (simp add: ed'_def change_def ed_record_buffer)
  then have cursor: "cur_line (buf_cursor (ed_buffer ed')) + 1 =
      (if dest > ?final then dest else if dest = ?final then ?final + ?count else dest + ?count)"
    using assms(6,7) by auto
  show ?thesis
    unfolding outside(1) if_False Let_def by (intro exI conjI) (rule run perm(1) kept cursor)+
qed

lemma sample_editor_simps [simp]:
  "buf_modifiable (ed_buffer (sample_editor t))" "buf_rope (ed_buffer (sample_editor t)) = t"
  "ed_text (\<lambda>t. t) (sample_editor t) = t" "ed_lines (\<lambda>t. t) (sample_editor t) = shown_lines t"
  "call_args (sample_call a i j) = a" "call_range (sample_call a i j) = Some \<lparr>lr_start = i, lr_end = j\<rparr>"
  by (simp_all add: sample_editor_def ed_buffer_def sample_buffer_def ed_text_def ed_lines_def
      sample_call_def)

lemma sample_destination:
  assumes "lf_only t" "3 \<le> length (shown_lines t)"
  shows "ex_destination list_rope E (rs ''3'') (sample_editor t) = Inr 3"
  using lfr.line_count [of "ed_buffer (sample_editor t)"] assms
  by (simp add: ex_destination_def parse_destination_def str_trim_def parse_eval digits_value.simps eval_address_def
      ex_last_line_def i64_wrap_def Let_def)

text \<open>\<open>:1,2m3\<close> on the lines a, b and c gives c, a and b.\<close>

theorem move_permutes_lines_witness:
  "\<exists>message ed'. ex_move list_rope literal_regex (sample_call (rs ''3'') 1 2)
      (sample_editor (rs ''a'' @ [10] @ rs ''b'' @ [10] @ rs ''c'')) = Some (Success (Some message), ed') \<and>
    ed_lines (\<lambda>t. t) ed' = [rs ''c'', rs ''a'', rs ''b''] \<and> cur_line (buf_cursor (ed_buffer ed')) = 2"
proof -
  let ?t = "rs ''a'' @ [10] @ rs ''b'' @ [10] @ rs ''c''"
  have t: "shown_lines ?t = [rs ''a'', rs ''b'', rs ''c'']" by code_simp
  have moved: "move_block 1 2 3 [rs ''a'', rs ''b'', rs ''c''] = [rs ''c'', rs ''a'', rs ''b'']" by code_simp
  have "lf_only ?t" by code_simp
  moreover from this have "ex_destination list_rope literal_regex (rs ''3'') (sample_editor ?t) = Inr 3"
    using sample_destination [of ?t literal_regex] unfolding t by simp
  moreover have "rs ''b'' \<noteq> []" by code_simp
  ultimately show ?thesis
    using move_permutes_lines [of list_rope "\<lambda>t. t" "sample_editor ?t" literal_regex "sample_call (rs ''3'') 1 2" 3
        "\<lparr>lr_start = 1, lr_end = 2\<rparr>", OF lfr.lf_rope_axioms]
    by (simp only: sample_editor_simps t Let_def line_range.simps moved) (simp; metis)
qed

section \<open>Deleting and copying\<close>

context lf_rope begin

text \<open>The text \<open>:d\<close> puts in a register: the deleted lines, each with its line feed.\<close>

lemma deleted_lines:
  assumes lf: "lf_only (chs (buf_rope b))" and mod: "buf_modifiable b" and s: "s < length (shown b)" "s < e"
  defines "t \<equiv> fst (buffer_delete_range R b s 0 e 0)"
  shows "(if \<not> ends_with_char t 10 then t @ [10] else t) = terminate (take (e - s) (drop s (shown b)))"
proof -
  let ?S = "raw b"
  have sl: "s < length ?S" using s shown_raw(1) [of b] by simp
  have "pos_of b s 0 \<le> pos_of b e 0" if "e < length (shown b)"
  proof -
    have "take e ?S = take s ?S @ take (e - s) (drop s ?S)" using s(2) by (metis less_imp_le take_add le_add_diff_inverse)
    then show ?thesis by (simp add: pos_of_def)
  qed
  then have t: "t @ (if e < length (shown b) then join (drop 0 (?S ! e) # drop (Suc e) ?S) else []) = join (drop s ?S)"
    using delete_text(2) [OF lf mod s(1), of 0 e 0] sl by (simp add: t_def Cons_nth_drop_Suc)
  have block: "take (e - s) (drop s (shown b)) \<noteq> []" using s by simp
  show ?thesis
  proof (cases "e < length (shown b)")
    case True
    then have el: "e < length ?S" using shown_raw(1) [of b] by simp
    have "drop s ?S = take (e - s) (drop s ?S) @ drop e ?S"
      using s by (metis append_take_drop_id drop_drop le_add_diff_inverse2 less_imp_le)
    then have "join (drop s ?S) = terminate (take (e - s) (drop s ?S)) @ join (drop e ?S)"
      using el by (metis drop_eq_Nil2 join_append leD)
    then have "t = terminate (take (e - s) (drop s ?S))"
      using t True el by (simp add: Cons_nth_drop_Suc)
    also have "take (e - s) (drop s ?S) = take (e - s) (drop s (shown b))"
      using True by (simp add: raw_shown)
    finally show ?thesis
      using block by (cases "take (e - s) (drop s (shown b))" rule: rev_cases) (auto simp: ends_with_char_def)
  next
    case False
    then have all: "take (e - s) (drop s (shown b)) = drop s (shown b)" by simp
    have t: "t = join (drop s ?S)" using t False by simp
    show ?thesis
    proof (cases "terminated b")
      case True
      then have "t = terminate (drop s (shown b))" using t s by (simp add: raw_shown join_append)
      then show ?thesis
        using block by (simp only: all) (cases "drop s (shown b)" rule: rev_cases; auto simp: ends_with_char_def)
    next
      case False
      have ne: "drop s (shown b) \<noteq> []" using s by simp
      have t: "t = join (drop s (shown b))" using t False by (simp add: raw_shown)
      have "terminate (drop s (shown b)) = t @ [10]"
        unfolding t using ne by (cases "drop s (shown b)" rule: rev_cases) (simp_all add: join_append)
      moreover have "\<not> ends_with_char t 10"
      proof (cases "t = []")
        case False
        have "split_lines t = drop s (shown b)"
          unfolding t using ne shown_unbroken [of b] by (intro split_join) (auto simp: unbroken_parts)
        moreover have "last (drop s (shown b)) = last (shown b)" using s by simp
        ultimately show ?thesis
          using last_split [OF False] unterminated_last [OF \<open>\<not> terminated b\<close>] s False t
          by (auto simp: ends_with_char_def)
      qed simp
      ultimately show ?thesis by (simp add: all)
    qed
  qed
qed

end

lemma ex_delete_lines:
  assumes "lf_rope R chs" and "lf_only (ed_text chs ed)" and "buf_modifiable (ed_buffer ed)"
    and "register_and_count x = Some (Inr (None, r))" and "ed_pending_register ed = None"
    and "1 \<le> lr_start r" "lr_start r \<le> lr_end r" "lr_start r \<le> length (ed_lines chs ed)"
  shows "\<exists>ed'. ex_delete R U C x ed = Some (Success None, ed') \<and>
    ed_lines chs ed' =
      (if lr_start r = 1 \<and> length (ed_lines chs ed) \<le> lr_end r then [[]]
       else take (lr_start r - 1) (ed_lines chs ed) @ drop (lr_end r) (ed_lines chs ed)) \<and>
    register_value C (ed_registers ed') None =
      (terminate (take (lr_end r - (lr_start r - 1)) (drop (lr_start r - 1) (ed_lines chs ed))), Line)"
proof -
  let ?b = "(ed_buffer ed)\<lparr>buf_recording := Some recording_session_default\<rparr>" and ?s = "lr_start r - 1"
  let ?n = "length (ed_lines chs ed)" and ?e = "min (lr_end r - 1) (ex_last_line R (ed_buffer ed) - 1) + 1"
  have lf: "lf_only (chs (buf_rope ?b))" and mod: "buf_modifiable ?b" using assms(2,3) by (simp_all add: ed_text_def)
  have count: "ex_last_line R (ed_buffer ed) = ?n"
    using assms(2) lf_rope.line_count [OF assms(1)] by (simp add: ex_last_line_def ed_lines_def ed_text_def)
  have sh: "shown_lines (chs (buf_rope ?b)) = ed_lines chs ed" by (simp add: ed_lines_def)
  have s: "?s < length (shown_lines (chs (buf_rope ?b)))" "?s < ?e"
    using assms(6-8) unfolding sh count by auto
  have e: "?e = min (lr_end r) ?n" using assms(6-8) by (auto simp: count)
  note del = lf_rope.shown_delete(1) [OF assms(1) lf mod s] lf_rope.deleted_lines [OF assms(1) lf mod s]
  define change where "change = (\<lambda>b. let (deleted, b) = buffer_delete_range R b ?s 0 ?e 0;
      line = min ?s (buffer_line_count R b - 1)
    in (deleted, first_non_blank R U (buffer_set_cursor_line line b)))"
  define d where "d = fst (ed_record change ed)"
  define ed' where "ed' = delete_to_register_with_type C (if \<not> ends_with_char d 10 then d @ [10] else d) Line
    (snd (ed_record change ed))"
  have range_ends: "line_range_indexes r = (?s, lr_end r - 1)"
    using assms(6,7) by (intro line_range_indexes_pos) auto
  have run: "ex_delete R U C x ed = Some (Success None, ed')"
    by (simp only: ex_delete_def assms(3,4) option.case sum.case prod.case not_True_eq_False if_False Let_def range_ends
        change_def [unfolded Let_def case_prod_beta, symmetric] ed'_def d_def case_prod_beta cmd_ok_silent_def fst_conv snd_conv)
  have changed: "chs (buf_rope (snd (change ?b))) = chs (buf_rope (snd (buffer_delete_range R ?b ?s 0 ?e 0)))"
    "fst (change ?b) = fst (buffer_delete_range R ?b ?s 0 ?e 0)"
    by (simp_all add: change_def case_prod_beta Let_def)
  have "ed_lines chs ed' = shown_lines (chs (buf_rope (snd (buffer_delete_range R ?b ?s 0 ?e 0))))"
    using changed(1) by (simp add: ed_lines_def ed'_def ed_record_buffer)
  also have "\<dots> = (if lr_start r = 1 \<and> ?n \<le> lr_end r then [[]] else take ?s (ed_lines chs ed) @ drop (lr_end r) (ed_lines chs ed))"
    using del(1) assms(6,8) unfolding sh e by (auto simp: min_def)
  finally have lines: "ed_lines chs ed' = (if lr_start r = 1 \<and> ?n \<le> lr_end r then [[]]
      else take ?s (ed_lines chs ed) @ drop (lr_end r) (ed_lines chs ed))" .
  have "(if \<not> ends_with_char d 10 then d @ [10] else d) = terminate (take (?e - ?s) (drop ?s (ed_lines chs ed)))"
    unfolding d_def ed_record_buffer changed(2) by (rule del(2) [unfolded sh])
  also have "take (?e - ?s) (drop ?s (ed_lines chs ed)) = take (lr_end r - ?s) (drop ?s (ed_lines chs ed))"
    unfolding e by (cases "lr_end r \<le> ?n") (simp_all add: min_def)
  finally have "register_value C (ed_registers ed') None = (terminate (take (lr_end r - ?s) (drop ?s (ed_lines chs ed))), Line)"
    using assms(5) by (simp add: ed'_def deleted_to_unnamed)
  then show ?thesis using run lines by blast
qed

text \<open>\<open>:t\<close> inserts a copy of its lines below the destination, with the exception of \<open>:m\<close>.\<close>

theorem copy_inserts_lines:
  assumes "lf_rope R chs" and "lf_only (ed_text chs ed)" and "buf_modifiable (ed_buffer ed)"
    and "ex_destination R E (call_args x) ed = Inr dest" and "call_range x = Some r"
    and "1 \<le> lr_start r" "lr_start r \<le> lr_end r" "lr_end r \<le> length (ed_lines chs ed)"
    and "ed_text chs ed \<noteq> []"
    and "ends_with_char (ed_text chs ed) 10 \<or> dest < length (ed_lines chs ed) \<or> ed_lines chs ed ! (lr_end r - 1) \<noteq> []"
  shows "\<exists>message ed'. ex_copy R E x ed = Some (Success (Some message), ed') \<and>
    ed_lines chs ed' = take dest (ed_lines chs ed) @ take (lr_end r - lr_start r + 1) (drop (lr_start r - 1) (ed_lines chs ed)) @
      drop dest (ed_lines chs ed) \<and>
    cur_line (buf_cursor (ed_buffer ed')) + 1 = dest + (lr_end r - lr_start r + 1)"
proof -
  let ?b = "ed_buffer ed" and ?s = "lr_start r - 1" and ?e = "lr_end r - 1"
  let ?b' = "?b\<lparr>buf_recording := Some recording_session_default\<rparr>"
  have "ex_last_line R ?b = length (ed_lines chs ed)"
    using assms(2) lf_rope.line_count [OF assms(1)] by (simp add: ex_last_line_def ed_lines_def ed_text_def)
  then have dest: "dest \<le> length (ed_lines chs ed)"
    using ex_destination_bound [OF assms(4)] by simp
  have range_ends: "line_range_indexes r = (?s, ?e)"
    using assms(6,7) by (intro line_range_indexes_pos) auto
  define change where "change = (\<lambda>b. ((), buffer_set_cursor_line (dest + (?e - ?s + 1) - 1)
      (insert_lines_below R dest (lines_text R ?b ?s ?e) b)))"
  define ed' where "ed' = snd (ed_record change ed)"
  have run: "ex_copy R E x ed =
      Some (Success (Some (nat_digits 10 (?e - ?s + 1) @ rs '' line'' @ plural (?e - ?s + 1) @ rs '' copied'')), ed')"
    by (simp only: ex_copy_def assms(3-5) not_True_eq_False if_False sum.case option.case Let_def range_ends prod.case
        change_def [symmetric] ed'_def case_prod_beta cmd_ok_def fst_conv snd_conv)
  have "shown_lines (chs (buf_rope (insert_lines_below R dest (lines_text R ?b' ?s ?e) ?b'))) =
      take dest (shown_lines (chs (buf_rope ?b'))) @ take (Suc ?e - ?s) (drop ?s (shown_lines (chs (buf_rope ?b')))) @
      drop dest (shown_lines (chs (buf_rope ?b')))"
    using assms(2,3,6-10) dest
    by (intro lf_rope.shown_copy [OF assms(1)])
      (simp_all add: ed_text_def ed_lines_def lf_rope.terminated_def [OF assms(1)] diff_le_mono)
  moreover have "Suc ?e - ?s = lr_end r - lr_start r + 1" using assms(6,7) by simp
  ultimately have "ed_lines chs ed' = take dest (ed_lines chs ed) @
      take (lr_end r - lr_start r + 1) (drop ?s (ed_lines chs ed)) @ drop dest (ed_lines chs ed)"
    by (simp add: ed_lines_def ed'_def change_def ed_record_buffer)
  moreover have "cur_line (buf_cursor (ed_buffer ed')) + 1 = dest + (lr_end r - lr_start r + 1)"
    using assms(6,7) by (simp add: ed'_def change_def ed_record_buffer)
  ultimately show ?thesis using run by blast
qed

section \<open>Sorting\<close>

lemma dedup_by_set: "f ` set (dedup_by f xs) = f ` set xs"
  by (induction f xs rule: dedup_by.induct) auto

lemma dedup_by_elems: "set (dedup_by f xs) \<subseteq> set xs"
  by (induction f xs rule: dedup_by.induct) auto

lemma dedup_by_ne [simp]: "dedup_by f xs = [] \<longleftrightarrow> xs = []"
  by (induction f xs rule: dedup_by.induct) auto

lemma dedup_by_sorted: "sorted (map g xs) \<Longrightarrow> sorted (map g (dedup_by f xs))"
proof (induction f xs rule: dedup_by.induct)
  case (1 f a b xs)
  then have "\<forall>x \<in> set (dedup_by f (b # xs)). g a \<le> g x"
    using dedup_by_elems [of f "b # xs"] by auto
  with 1 show ?case by (auto split: if_splits)
qed auto

lemma dedup_by_sorted_desc:
  "sorted_wrt (\<lambda>a b. g b \<le> g a) xs \<Longrightarrow> sorted_wrt (\<lambda>a b. g b \<le> g a) (dedup_by f xs)"
  for g :: "'a \<Rightarrow> 'b::linorder"
proof (induction f xs rule: dedup_by.induct)
  case (1 f a b xs)
  then have "\<forall>x \<in> set (dedup_by f (b # xs)). g x \<le> g a"
    using dedup_by_elems [of f "b # xs"] by auto
  with 1 show ?case by (auto split: if_splits)
qed auto

text \<open>What is left are the lines that differ from the one before them.\<close>

lemma upt_Suc_Suc: "[0..<Suc n] = 0 # map Suc [0..<n]"
  by (simp add: upt_conv_Cons map_Suc_upt del: upt_Suc)

lemma dedup_by_Cons_nth:
  "dedup_by f (a # xs) = a # map ((!) xs) (filter (\<lambda>i. f ((a # xs) ! i) \<noteq> f (xs ! i)) [0..<length xs])"
proof (induction xs arbitrary: a)
  case (Cons b xs)
  have "filter (\<lambda>i. f ((a # xs) ! i) \<noteq> f (xs ! i)) [0..<length xs] =
      filter (\<lambda>i. f ((b # xs) ! i) \<noteq> f (xs ! i)) [0..<length xs]" if "f a = f b"
    using that by (intro filter_cong) (auto simp: nth_Cons split: nat.split)
  then show ?case using Cons.IH by (simp add: upt_Suc_Suc filter_map comp_def del: upt_Suc)
qed simp

lemma dedup_by_nth:
  "dedup_by f t = map ((!) t) (filter (\<lambda>i. i = 0 \<or> f (t ! (i - 1)) \<noteq> f (t ! i)) [0..<length t])"
  by (cases t) (simp_all add: dedup_by_Cons_nth upt_Suc_Suc filter_map comp_def del: upt_Suc)

text \<open>On a sorted list, in either direction, equal keys are neighbours, so none is left twice.\<close>

lemma dedup_by_distinct:
  "sorted_wrt (\<lambda>a b. f a \<le> f b) xs \<or> sorted_wrt (\<lambda>a b. f b \<le> f a) xs \<Longrightarrow> distinct (map f (dedup_by f xs))"
  for f :: "'a \<Rightarrow> 'b::order"
proof (induction f xs rule: dedup_by.induct)
  case (1 f a b xs)
  show ?case
  proof (cases "f a = f b")
    case True
    then show ?thesis using 1 by auto
  next
    case False
    have "f a \<notin> f ` set (b # xs)"
      using "1.prems" False by (auto intro: order_antisym dest: order_antisym)
    then have "f a \<notin> f ` set (dedup_by f (b # xs))" by (simp only: dedup_by_set) simp
    moreover have "distinct (map f (dedup_by f (b # xs)))" using 1 False by auto
    ultimately show ?thesis using False by simp
  qed
qed auto

lemma sorted_map_wrt: "sorted (map f xs) \<longleftrightarrow> sorted_wrt (\<lambda>a b. f a \<le> f b) xs"
  by (simp add: sorted_wrt_map)

lemma rev_sorted_wrt: "sorted_wrt (\<lambda>a b. f a \<le> f b) xs \<Longrightarrow> sorted_wrt (\<lambda>a b. f b \<le> f a) (rev xs)"
  by (simp add: sorted_wrt_rev)

context lf_rope begin

text \<open>\<open>:sort\<close> replaces its lines: deleting them and inserting others in their place.\<close>

lemma shown_replace:
  assumes lf: "lf_only (chs (buf_rope b))" and mod: "buf_modifiable b" and s: "s < length (shown b)" "s < e"
    and ls: "ls \<noteq> []" "unbroken ls" "\<forall>x \<in> set ls. lf_only x"
  shows "shown (insert_lines_below R s (terminate ls) (snd (buffer_delete_range R b s 0 e 0))) =
    take s (shown b) @ ls @ drop e (shown b)"
proof -
  let ?d = "snd (buffer_delete_range R b s 0 e 0)"
  note d = shown_delete [OF lf mod s]
  have mod': "buf_modifiable ?d" using mod by simp
  show ?thesis
  proof (cases "s = 0 \<and> length (shown b) \<le> e")
    case True
    then have "shown ?d = [[]]" "\<not> terminated ?d" using d(1,2) by auto
    then have "raw ?d = [[]]" by (simp add: raw_shown)
    then have "raw (insert_lines_below R s (terminate ls) ?d) = ls @ [[]]"
      using insert_below(1) [OF d(3) mod' _ ls, of s] True \<open>shown ?d = [[]]\<close> by simp
    from shown_of_raw(1) [OF this ls(1)] show ?thesis using True by simp
  next
    case False
    then have sh: "shown ?d = take s (shown b) @ drop e (shown b)" using d(1) by simp
    then have after: "s \<le> length (shown ?d)" using s by simp
    have "terminated ?d \<or> s < length (shown ?d)"
      using sh d(2) False s by (cases "length (shown b) \<le> e") auto
    moreover have "chs (buf_rope ?d) \<noteq> []"
    proof
      assume none: "chs (buf_rope ?d) = []"
      then have one: "take s (shown b) @ drop e (shown b) = [[]]" and nt: "\<not> terminated ?d"
        using sh by (auto simp: shown_lines_def terminated_def)
      then have e: "e < length (shown b)" "\<not> terminated b" using d(2) False by (auto split: if_splits)
      then have "last (take s (shown b) @ drop e (shown b)) = last (shown b)" by simp
      then have "last (shown b) = []" unfolding one by simp
      then show False using unterminated_last [OF e(2)] e(1) s by auto
    qed
    ultimately show ?thesis
      using shown_insert_below [OF d(3) mod' after ls] sh s by auto
  qed
qed

end

lemma sort_lines_by_set: "set (sort_lines_by U numeric ignore_case unique bang ls) \<subseteq> set ls"
  by (auto simp: sort_lines_by_def Let_def dest!: subsetD [OF dedup_by_elems])

lemma sort_lines_by_ne: "sort_lines_by U numeric ignore_case unique bang ls = [] \<longleftrightarrow> ls = []"
  by (simp add: sort_lines_by_def Let_def) (metis length_0_conv length_sort)

text \<open>
  What the output of \<open>:sort\<close> is for the input lines, stated without its algorithm: the input lines in
  the order of the key, lines of equal key in the order they had; reversed with \<open>!\<close>; with \<open>u\<close>, of
  these exactly the lines whose text differs up to the folding from the one before.
\<close>

definition stably_sorted :: "('a \<Rightarrow> 'k::linorder) \<Rightarrow> 'a list \<Rightarrow> 'a list \<Rightarrow> bool" where
  "stably_sorted key ls s \<longleftrightarrow>
     mset s = mset ls \<and> sorted (map key s) \<and> (\<forall>k. filter (\<lambda>l. key l = k) s = filter (\<lambda>l. key l = k) ls)"

definition changes :: "('a \<Rightarrow> 'k) \<Rightarrow> 'a list \<Rightarrow> 'a list" where
  "changes key t = map ((!) t) (filter (\<lambda>i. i = 0 \<or> key (t ! (i - 1)) \<noteq> key (t ! i)) [0..<length t])"

definition sort_spec :: "bool \<Rightarrow> (rstr \<Rightarrow> rstr) \<Rightarrow> bool \<Rightarrow> bool \<Rightarrow> rstr list \<Rightarrow> rstr list \<Rightarrow> bool" where
  "sort_spec numeric order unique bang ls out \<longleftrightarrow>
     (\<exists>s. (if numeric then stably_sorted sort_number_key ls s else stably_sorted order ls s) \<and>
          (let t = (if bang then rev s else s) in out = (if unique then changes order t else t))) \<and>
     (\<not> numeric \<longrightarrow> sorted (map order (if bang then rev out else out))) \<and>
     (unique \<and> \<not> numeric \<longrightarrow> distinct (map order out) \<and> order ` set out = order ` set ls)"

lemma sort_key_stably: "stably_sorted key ls (sort_key key ls)"
  by (simp add: stably_sorted_def sort_key_stable)

lemma sort_lines_by_spec:
  "sort_spec numeric (sort_text_key U ignore_case) unique bang ls (sort_lines_by U numeric ignore_case unique bang ls)"
proof -
  let ?order = "sort_text_key U ignore_case" and ?out = "sort_lines_by U numeric ignore_case unique bang ls"
  have "\<exists>s. (if numeric then stably_sorted sort_number_key ls s else stably_sorted ?order ls s) \<and>
      (let t = (if bang then rev s else s) in ?out = (if unique then changes ?order t else t))"
    by (rule exI [of _ "if numeric then sort_key sort_number_key ls else sort_key ?order ls"])
      (simp add: sort_key_stably sort_lines_by_def changes_def dedup_by_nth Let_def)
  moreover have "sorted (map ?order (if bang then rev ?out else ?out))" if "\<not> numeric"
  proof (cases bang)
    case True
    have desc: "sorted_wrt (\<lambda>a b. ?order b \<le> ?order a) (rev (sort_key ?order ls))"
      using sorted_sort_key [of ?order ls] unfolding sorted_map_wrt by (rule rev_sorted_wrt)
    then have "sorted_wrt (\<lambda>a b. ?order a \<le> ?order b) (rev (dedup_by ?order (rev (sort_key ?order ls))))"
      using dedup_by_sorted_desc [OF desc] by (simp add: sorted_wrt_rev)
    then show ?thesis unfolding sorted_map_wrt
      using True that sorted_sort_key [of ?order ls] by (simp add: sort_lines_by_def Let_def sorted_map_wrt)
  qed (use that in \<open>simp add: sort_lines_by_def Let_def dedup_by_sorted\<close>)
  moreover have "distinct (map ?order ?out) \<and> ?order ` set ?out = ?order ` set ls" if "unique" "\<not> numeric"
    using that sorted_sort_key [of ?order ls]
    by (auto simp: sort_lines_by_def Let_def sorted_map_wrt dedup_by_set intro!: dedup_by_distinct rev_sorted_wrt)
  ultimately show ?thesis unfolding sort_spec_def by blast
qed

text \<open>
  C25. \<open>:sort\<close> replaces the lines of its range, and nothing else, by the sorted ones, in a modifiable
  text whose only line breaks are line feeds. The sorted ones are the same lines
  with the same multiplicity in the order of the chosen key (the first number with \<open>n\<close>, where lines
  without one come first, else the text, folded with \<open>i\<close>), lines of equal key staying in their order;
  \<open>!\<close> reverses the result. With \<open>u\<close>, also with \<open>n\<close>, exactly those of them stay that differ up to
  the folding from the line before in that result. Without \<open>n\<close> this leaves no two lines that agree
  up to the folding, and loses no line altogether.
\<close>

theorem sort_command_sorts:
  assumes "lf_rope R chs" and "lf_only (ed_text chs ed)" and "buf_modifiable (ed_buffer ed)"
    and "\<forall>c \<in> set (call_args x). c \<in> set (rs ''niu '')" and "call_range x = Some r"
    and "1 \<le> lr_start r" "lr_start r \<le> lr_end r" "lr_end r \<le> length (ed_lines chs ed)"
  shows "\<exists>message ed' out. ex_sort R U x ed = Some (Success (Some message), ed') \<and>
    ed_lines chs ed' = take (lr_start r - 1) (ed_lines chs ed) @ out @ drop (lr_end r) (ed_lines chs ed) \<and>
    sort_spec (rc CHR ''n'' \<in> set (call_args x)) (sort_text_key U (rc CHR ''i'' \<in> set (call_args x)))
      (rc CHR ''u'' \<in> set (call_args x)) (call_bang x)
      (take (lr_end r - (lr_start r - 1)) (drop (lr_start r - 1) (ed_lines chs ed))) out"
proof -
  let ?b = "ed_buffer ed" and ?s = "lr_start r - 1" and ?e = "lr_end r"
  let ?b' = "?b\<lparr>buf_recording := Some recording_session_default\<rparr>"
  let ?ls = "take (?e - ?s) (drop ?s (ed_lines chs ed))"
  let ?n = "rc CHR ''n'' \<in> set (call_args x)" and ?i = "rc CHR ''i'' \<in> set (call_args x)"
  let ?u = "rc CHR ''u'' \<in> set (call_args x)"
  define out where "out = sort_lines_by U ?n ?i ?u (call_bang x) ?ls"
  have range_ends: "line_range_indexes r = (?s, ?e - 1)" "?e - 1 + 1 = ?e" "Suc (?e - 1) = ?e"
    using assms(6,7) by (auto simp: line_range_indexes_pos)
  have "List.map_filter (buffer_line_text R ?b) [?s..<?e] = map ((!) (ed_lines chs ed)) [?s..<?e]"
    using assms(2,8) by (auto simp: lf_rope.line_text [OF assms(1)] ed_text_def ed_lines_def List.map_filter_def filter_id_conv)
  also have "\<dots> = ?ls"
    using assms(8) by (intro nth_equalityI) auto
  finally have lines: "List.map_filter (buffer_line_text R ?b) [?s..<?e] = ?ls" .
  define change where "change = (\<lambda>b. ((), first_non_blank R U (buffer_set_cursor_line ?s
      (insert_lines_below R ?s (terminate out) (snd (buffer_delete_range R b ?s 0 ?e 0))))))"
  define ed' where "ed' = snd (ed_record change ed)"
  have flags: "find (\<lambda>c. c \<notin> set (rs ''niu '')) (call_args x) = None"
    using assms(4) by (auto simp: find_None_iff)
  have run: "ex_sort R U x ed = Some (Success (Some (nat_digits 10 (length out) @ rs '' lines sorted'')), ed')"
    by (simp only: ex_sort_def assms(3,5) flags not_True_eq_False if_False option.case Let_def range_ends prod.case lines
        out_def [symmetric] terminate_def [symmetric] change_def [symmetric] ed'_def case_prod_beta cmd_ok_def
        fst_conv snd_conv)
  have block: "?ls \<noteq> []" "unbroken ?ls" "\<forall>l \<in> set ?ls. lf_only l"
    using assms(2,6-8) lf_rope.block_ok [OF assms(1), of ?b ?s "?e - 1"]
    by (auto simp: ed_text_def ed_lines_def)
  have sorted: "out \<noteq> []" "unbroken out" "\<forall>l \<in> set out. lf_only l"
    using block sort_lines_by_set [of U ?n ?i ?u "call_bang x" ?ls]
    by (auto simp: out_def sort_lines_by_ne unbroken_def)
  have "shown_lines (chs (buf_rope (insert_lines_below R ?s (terminate out) (snd (buffer_delete_range R ?b' ?s 0 ?e 0))))) =
      take ?s (shown_lines (chs (buf_rope ?b'))) @ out @ drop ?e (shown_lines (chs (buf_rope ?b')))"
    using assms(2,3,6-8) sorted by (intro lf_rope.shown_replace [OF assms(1)]) (auto simp: ed_text_def ed_lines_def)
  then have "ed_lines chs ed' = take ?s (ed_lines chs ed) @ out @ drop ?e (ed_lines chs ed)"
    by (simp add: ed_lines_def ed'_def change_def ed_record_buffer)
  moreover have "sort_spec ?n (sort_text_key U ?i) ?u (call_bang x) ?ls out"
    unfolding out_def by (rule sort_lines_by_spec)
  ultimately show ?thesis using run by blast
qed


theorem sort_command_sorts_witness:
  "\<exists>message ed' out. ex_sort list_rope ascii_unicode (sample_call [] 1 3)
      (sample_editor (rs ''c'' @ [10] @ rs ''a'' @ [10] @ rs ''b'')) = Some (Success (Some message), ed') \<and>
    ed_lines (\<lambda>t. t) ed' = out \<and> mset out = mset [rs ''c'', rs ''a'', rs ''b''] \<and>
    sorted (map (sort_text_key ascii_unicode False) out)"
  using sort_command_sorts [of list_rope "\<lambda>t. t" "sample_editor (rs ''c'' @ [10] @ rs ''a'' @ [10] @ rs ''b'')"
      "sample_call [] 1 3" "\<lparr>lr_start = 1, lr_end = 3\<rparr>" ascii_unicode, OF lfr.lf_rope_axioms]
  by (auto simp: shown_lines_def sort_spec_def stably_sorted_def Let_def sample_call_def)

end
