(* ===== verification/ExUndo.thy ===== *)
theory ExUndo
  imports ExEditLaws
begin

text \<open>
  The ex commands and the undo history: every change a command of ExEdit makes to the buffer is
  recorded, so it is one undo step, and one undo takes it back.
\<close>

section \<open>The buffer operations are recorded mutations\<close>

lemma mutates_delete_range: "mutates R b b' \<Longrightarrow> mutates R b (snd (buffer_delete_range R b' l c m c'))"
proof -
  assume m: "mutates R b b'"
  have "(\<exists>i j. snd (buffer_delete_range R b' l c m c') = buffer_delete_char_range R b' i j) \<or>
    snd (buffer_delete_range R b' l c m c') = b'"
  proof (cases "buf_modifiable b'")
    case True
    let ?n = "rope_len_chars R (buf_rope b')"
    let ?i = "min (rope_line_to_char R (buf_rope b') l + min c (buffer_line_len R b' l)) ?n"
    let ?j = "min (if m \<ge> buffer_line_count R b' then ?n
      else rope_line_to_char R (buf_rope b') m + min c' (buffer_line_len R b' m)) ?n"
    have "snd (buffer_delete_range R b' l c m c') = buffer_delete_char_range R b' ?i ?j \<or>
      snd (buffer_delete_range R b' l c m c') = b'"
      using True by (simp add: buffer_delete_range_def buffer_delete_char_range_def buffer_accepts_edits_def Let_def)
    then show ?thesis by blast
  next
    case False
    then have "snd (buffer_delete_range R b' l c m c') = buffer_delete_char_range R b' 0 0"
      by (simp add: buffer_delete_range_def buffer_delete_char_range_def buffer_accepts_edits_def)
    then show ?thesis by blast
  qed
  then show ?thesis using m by (auto intro: mutates.intros)
qed

lemma mutates_cursor:
  "mutates R b b' \<Longrightarrow> mutates R b (first_non_blank R U b')"
  "mutates R b b' \<Longrightarrow> mutates R b (buffer_set_cursor_line l b')"
  by (simp_all add: first_non_blank_def buffer_set_cursor_line_def Let_def mut_cursor)

lemma mutates_insert_below: "mutates R b b' \<Longrightarrow> mutates R b (insert_lines_below R after t b')"
  by (auto simp: insert_lines_below_def Let_def intro: mut_insert)

lemma mutates_join_step: "mutates R b b' \<Longrightarrow> join_step R g sp l b' = Some b'' \<Longrightarrow> mutates R b b''"
  by (auto simp: join_step_def Let_def intro!: mut_cursor mutates_delete_range mut_insert
      split: if_splits option.splits)

lemma mutates_join: "mutates R b b' \<Longrightarrow> mutates R b (join_loop R g sp l n b')"
proof (induction n arbitrary: b')
  case (Suc n)
  then show ?case by (auto split: option.splits dest: mutates_join_step)
qed simp

lemma mutates_join_lines:
  "mutates R b b' \<Longrightarrow> mutates R b (buffer_join_lines R g n b')"
  "mutates R b b' \<Longrightarrow> mutates R b (buffer_join_lines_no_space R g n b')"
  by (simp_all add: buffer_join_lines_def buffer_join_lines_no_space_def buffer_join_lines_impl_def mutates_join)

lemmas mutates_ops = mutates.intros mutates_delete_range mutates_cursor mutates_insert_below mutates_join

section \<open>One step of the history\<close>

text \<open>
  How a command changes a document: it moves the cursor, or runs one recorded change and then
  writes registers.
\<close>

definition edit_step :: "'r rope_ops \<Rightarrow> ('r, 'f, 'a, 'g) doc \<Rightarrow> ('r, 'f, 'a, 'g) doc \<Rightarrow> bool" where
  "edit_step R d d' \<longleftrightarrow>
     (\<exists>c. d' = d\<lparr>doc_buffer := (doc_buffer d)\<lparr>buf_cursor := c\<rparr>\<rparr>) \<or>
     (\<exists>f :: 'r buffer \<Rightarrow> unit \<times> 'r buffer.
       let b = (doc_buffer d)\<lparr>buf_recording := Some recording_session_default\<rparr>; r = snd (record_operation f None d)
       in mutates R b (snd (f b)) \<and>
          (d' = r \<or> (\<exists>m register. d' = r\<lparr>doc_registers := m,
             doc_changes := (doc_changes r)\<lparr>cm_last_repeat_register := register\<rparr>\<rparr>)))"

lemma record_operation_unit:
  "snd (record_operation f rep d) = snd (record_operation (\<lambda>b. ((), snd (f b))) rep d)"
  by (simp add: record_operation_def buffer_record_def buffer_end_recording_def Let_def case_prod_beta)

lemma edit_step_same: "edit_step R d d"
  unfolding edit_step_def by (rule disjI1, rule exI [of _ "buf_cursor (doc_buffer d)"]) simp

lemma edit_step_record:
  assumes "mutates R ((ed_buffer ed)\<lparr>buf_recording := Some recording_session_default\<rparr>)
    (snd (f ((ed_buffer ed)\<lparr>buf_recording := Some recording_session_default\<rparr>)))"
  shows "edit_step R (ed_doc ed) (ed_doc (snd (ed_record f ed)))"
  unfolding edit_step_def
proof (rule disjI2, rule exI [of _ "\<lambda>b. ((), snd (f b))"])
  have "ed_doc (snd (ed_record f ed)) = snd (record_operation f None (ed_doc ed))"
    by (simp add: ed_record_def split: prod.splits)
  then show "let b = (doc_buffer (ed_doc ed))\<lparr>buf_recording := Some recording_session_default\<rparr>;
        r = snd (record_operation (\<lambda>b. ((), snd (f b))) None (ed_doc ed))
    in mutates R b (snd ((), snd (f b))) \<and> (ed_doc (snd (ed_record f ed)) = r \<or>
      (\<exists>m register. ed_doc (snd (ed_record f ed)) = r\<lparr>doc_registers := m,
             doc_changes := (doc_changes r)\<lparr>cm_last_repeat_register := register\<rparr>\<rparr>))"
    using assms record_operation_unit [of f None "ed_doc ed"] by (simp add: ed_buffer_def Let_def)
qed

lemma edit_step_registers:
  assumes "edit_step R d d'"
  shows "edit_step R d (d'\<lparr>doc_registers := m, doc_changes := (doc_changes d')\<lparr>cm_last_repeat_register := register\<rparr>\<rparr>)
    \<or> d' = d \<or> (\<exists>c. d' = d\<lparr>doc_buffer := (doc_buffer d)\<lparr>buf_cursor := c\<rparr>\<rparr>)"
  using assms unfolding edit_step_def Let_def by fastforce

lemma registers_fields [simp]:
  "doc_changes (ed_doc (upd_registers g ed)) = doc_changes (ed_doc ed)"
  "doc_buffer (ed_doc (upd_registers g ed)) = doc_buffer (ed_doc ed)"
  "doc_fs (ed_doc (upd_registers g ed)) = doc_fs (ed_doc ed)"
  "doc_undo_group (ed_doc (upd_registers g ed)) = doc_undo_group (ed_doc ed)"
  by (simp_all add: upd_registers_def)

lemma delete_register_fields:
  fixes C t ty ed
  defines "d \<equiv> ed_doc (delete_to_register_with_type C t ty ed)"
  shows "doc_changes d = (doc_changes (ed_doc ed))\<lparr>cm_last_repeat_register := ed_pending_register ed\<rparr>"
    and "doc_buffer d = doc_buffer (ed_doc ed)" and "doc_fs d = doc_fs (ed_doc ed)"
    and "doc_undo_group d = doc_undo_group (ed_doc ed)"
  by (cases "ed_pending_register ed";
      simp add: d_def delete_to_register_with_type_def sync_clipboard_option_def Let_def split: if_split)+

lemma registers_doc:
  "\<exists>m register. ed_doc (delete_to_register_with_type C t ty ed) =
     (ed_doc ed)\<lparr>doc_registers := m, doc_changes := (doc_changes (ed_doc ed))\<lparr>cm_last_repeat_register := register\<rparr>\<rparr>"
proof (intro exI)
  let ?d = "ed_doc (delete_to_register_with_type C t ty ed)"
  show "?d = (ed_doc ed)\<lparr>doc_registers := doc_registers ?d,
      doc_changes := (doc_changes (ed_doc ed))\<lparr>cm_last_repeat_register := ed_pending_register ed\<rparr>\<rparr>"
    by (rule doc.equality) (simp_all add: delete_register_fields)
qed

lemma set_pending_doc [simp]: "ed_doc (set_pending_register reg ed) = ed_doc ed"
  by (simp add: set_pending_register_def)

lemma edit_step_record_noted:
  assumes "mutates R ((ed_buffer ed)\<lparr>buf_recording := Some recording_session_default\<rparr>)
    (snd (f ((ed_buffer ed)\<lparr>buf_recording := Some recording_session_default\<rparr>)))"
    and "ed_doc ed' = ed_doc (snd (ed_record f ed))"
  shows "edit_step R (ed_doc ed) (ed_doc (delete_to_register_with_type C t ty ed'))"
  unfolding edit_step_def
proof (rule disjI2, rule exI [of _ "\<lambda>b. ((), snd (f b))"])
  have "ed_doc ed' = snd (record_operation (\<lambda>b. ((), snd (f b))) None (ed_doc ed))"
    using assms(2) record_operation_unit [of f None "ed_doc ed"] by (simp add: ed_record_def split: prod.splits)
  then show "let b = (doc_buffer (ed_doc ed))\<lparr>buf_recording := Some recording_session_default\<rparr>;
        r = snd (record_operation (\<lambda>b. ((), snd (f b))) None (ed_doc ed))
    in mutates R b (snd ((), snd (f b))) \<and> (ed_doc (delete_to_register_with_type C t ty ed') = r \<or>
      (\<exists>m register. ed_doc (delete_to_register_with_type C t ty ed') = r\<lparr>doc_registers := m,
             doc_changes := (doc_changes r)\<lparr>cm_last_repeat_register := register\<rparr>\<rparr>))"
    using assms(1) registers_doc [of C t ty ed'] by (simp add: ed_buffer_def Let_def)
qed

lemma ex_delete_step: "ex_delete R U C x ed = Some (res, ed') \<Longrightarrow> edit_step R (ed_doc ed) (ed_doc ed')"
  by (auto simp: ex_delete_def Let_def case_prod_beta edit_step_same mutates_ops
      intro!: edit_step_record_noted split: option.splits sum.splits if_splits)

lemma ex_join_step: "ex_join R U x ed = Some (res, ed') \<Longrightarrow> edit_step R (ed_doc ed) (ed_doc ed')"
proof -
  have cursor: "edit_step R (ed_doc ed) (ed_doc (cursor_to_first_non_blank R U l ed))" for l
    unfolding edit_step_def
    by (rule disjI1)
      (auto simp: cursor_to_first_non_blank_def upd_buffer_def first_non_blank_def buffer_set_cursor_line_def ed_buffer_def Let_def)
  show "ex_join R U x ed = Some (res, ed') \<Longrightarrow> edit_step R (ed_doc ed) (ed_doc ed')"
    by (auto simp: ex_join_def Let_def case_prod_beta edit_step_same cursor mutates_ops mutates_join_lines
        intro!: edit_step_record split: option.splits sum.splits if_splits)
qed

lemma ex_sort_step: "ex_sort R U x ed = Some (res, ed') \<Longrightarrow> edit_step R (ed_doc ed) (ed_doc ed')"
  by (auto simp: ex_sort_def Let_def case_prod_beta edit_step_same mutates_ops
      intro!: edit_step_record split: option.splits if_splits)

lemma ex_copy_step: "ex_copy R E x ed = Some (res, ed') \<Longrightarrow> edit_step R (ed_doc ed) (ed_doc ed')"
  by (auto simp: ex_copy_def Let_def case_prod_beta edit_step_same mutates_ops
      intro!: edit_step_record split: option.splits sum.splits if_splits)

lemma ex_move_step: "ex_move R E x ed = Some (res, ed') \<Longrightarrow> edit_step R (ed_doc ed) (ed_doc ed')"
  by (auto simp: ex_move_def Let_def case_prod_beta edit_step_same mutates_ops
      intro!: edit_step_record split: option.splits sum.splits if_splits)

section \<open>One undo takes a command back\<close>

context rope_contract begin

lemma edit_step_undo:
  assumes step: "edit_step R d d'" and reach: "undo_reach R F d s" and group: "doc_undo_group d = None"
    and rec: "\<forall>e \<in> set (cm_undo_stack (doc_changes d)). is_recorded e"
  shows "undo_reach R F d' s \<and>
    (cm_undo_stack (doc_changes d') = cm_undo_stack (doc_changes d) \<and>
       chs (buf_rope (doc_buffer d')) = chs (buf_rope (doc_buffer d)) \<or>
     (\<exists>e. cm_undo_stack (doc_changes d') = e # cm_undo_stack (doc_changes d) \<and> is_recorded e \<and>
       fst (fst (buffer_undo R F d')) = UndoDone \<and>
       cm_undo_stack (doc_changes (snd (buffer_undo R F d'))) = cm_undo_stack (doc_changes d) \<and>
       chs (buf_rope (doc_buffer (snd (buffer_undo R F d')))) = chs (buf_rope (doc_buffer d))))"
    (is "_ \<and> ?undo d'")
proof -
  obtain T where ok: "doc_ok T (chs s) d" using reach_ok [OF reach] by blast
  from step show ?thesis
    unfolding edit_step_def Let_def
  proof (elim disjE exE conjE)
    fix c assume d': "d' = d\<lparr>doc_buffer := (doc_buffer d)\<lparr>buf_cursor := c\<rparr>\<rparr>"
    have "undo_reach R F (d\<lparr>doc_buffer := (doc_buffer d)\<lparr>buf_cursor := c\<rparr>, doc_undo_group := None\<rparr>) s"
      by (rule undo_reach.moved [OF reach])
    moreover have "d\<lparr>doc_buffer := (doc_buffer d)\<lparr>buf_cursor := c\<rparr>, doc_undo_group := None\<rparr> = d'"
      using group d' by (cases d) simp
    ultimately show ?thesis using d' by simp
  next
    fix f :: "'r buffer \<Rightarrow> unit \<times> 'r buffer"
    let ?b = "(doc_buffer d)\<lparr>buf_recording := Some recording_session_default\<rparr>"
    define r where "r = snd (record_operation f None d)"
    assume mut: "mutates R ?b (snd (f ?b))"
    have reach': "undo_reach R F r s" unfolding r_def using reach mut by (rule undo_reach.command)
    obtain u es b where recd: "buffer_record f (doc_buffer d) = ((u, es), b)" by (metis surj_pair)
    note eff = record_effect [OF mut recd]
    have undone: "?undo d'" if d': "doc_buffer d' = doc_buffer r"
      "cm_undo_stack (doc_changes d') = cm_undo_stack (doc_changes r)" and reach'': "undo_reach R F d' s" for d'
    proof (cases "es = []")
      case True
      then have "doc_changes r = doc_changes d" "doc_buffer r = b"
        by (simp_all add: r_def record_operation_def recd Let_def)
      then show ?thesis using d' eff(2) True by (simp add: replay_def)
    next
      case False
      define c where "c = change_recorded es (cursor_position d) (cursor_position (d\<lparr>doc_buffer := b\<rparr>))"
      define e where "e = \<lparr>ent_change = c, ent_seq = cm_next_seq (doc_changes d)\<rparr>"
      have r: "cm_undo_stack (doc_changes r) = e # cm_undo_stack (doc_changes d)" "doc_buffer r = b"
        using False group
        by (simp_all add: r_def record_operation_def recd push_recorded_undo_def c_def e_def Let_def case_prod_beta
            push_change_fields)
      have e: "is_recorded e" "change_edits (ent_change e) = es" "undo_block (e # us) = [e]" for us
        by (simp_all add: e_def c_def is_recorded_def change_recorded_def undo_block_def)
      note undo = buffer_undo_shape [of d' "e # cm_undo_stack (doc_changes d)" R F]
      have stacks: "cm_undo_stack (doc_changes d') = e # cm_undo_stack (doc_changes d)" using d' r by simp
      obtain T' where ok': "doc_ok T' (chs s) d'" using reach_ok [OF reach''] by blast
      have after: "doc_ok T' (chs s) (snd (buffer_undo R F d'))" by (rule buffer_undo_ok [OF ok'])
      have undone: "fst (fst (buffer_undo R F d')) = UndoDone"
        "cm_undo_stack (doc_changes (snd (buffer_undo R F d'))) = cm_undo_stack (doc_changes d)"
        using undo stacks rec e by simp_all
      have "chs (buf_rope (doc_buffer (snd (buffer_undo R F d')))) = T' (stack_top_seq (cm_undo_stack (doc_changes d)))"
        using after undone by (simp add: doc_ok_def stands_def)
      also have "\<dots> = unreplay (T' (stack_top_seq ([e] @ cm_undo_stack (doc_changes d)))) es"
        using undo_chain_unreplay [of T' "[e]" "cm_undo_stack (doc_changes d)"] ok' stacks e(2)
        by (simp add: doc_ok_def stands_def chain_def)
      also have "T' (stack_top_seq ([e] @ cm_undo_stack (doc_changes d))) = chs (buf_rope b)"
        using ok' stacks d' r by (simp add: doc_ok_def stands_def)
      also have "unreplay (chs (buf_rope b)) es = chs (buf_rope (doc_buffer d))"
        unfolding eff(2) using eff(1) by (rule unreplay_replay)
      finally show ?thesis using undone stacks e(1) by blast
    qed
    {
      assume "d' = snd (record_operation f None d)"
      then show ?thesis using reach' undone [of r] by (simp add: r_def)
    next
      fix m register
      assume d': "d' = (snd (record_operation f None d))\<lparr>doc_registers := m, doc_changes :=
        (doc_changes (snd (record_operation f None d)))\<lparr>cm_last_repeat_register := register\<rparr>\<rparr>"
      have "undo_reach R F d' s" unfolding d' r_def [symmetric] by (rule undo_reach.noted [OF reach'])
      moreover from this have "?undo d'" by (intro undone) (simp_all add: d' r_def)
      ultimately show ?thesis by simp
    }
  qed
qed

end

text \<open>
  C26. Every editing command of this theory is at most one undo step, and one undo takes it back:
  run on any document a session can reach, outside an agent's undo group and with only text changes
  in the history, it either leaves text and history alone (errors included) or pushes exactly one
  entry, and undo then succeeds, restores the text and leaves the history as it was.
\<close>

theorem ex_command_is_one_undo_step:
  assumes "rope_contract R chs" and "undo_reach R F (ed_doc ed) s" and "doc_undo_group (ed_doc ed) = None"
    and "\<forall>e \<in> set (cm_undo_stack (doc_changes (ed_doc ed))). is_recorded e"
    and "Some (res, ed') \<in> {ex_delete R U C x ed, ex_join R U x ed, ex_sort R U x ed, ex_copy R E x ed, ex_move R E x ed}"
  shows "undo_reach R F (ed_doc ed') s \<and>
    (cm_undo_stack (doc_changes (ed_doc ed')) = cm_undo_stack (doc_changes (ed_doc ed)) \<and>
       ed_text chs ed' = ed_text chs ed \<or>
     (\<exists>e. cm_undo_stack (doc_changes (ed_doc ed')) = e # cm_undo_stack (doc_changes (ed_doc ed)) \<and> is_recorded e \<and>
       fst (fst (buffer_undo R F (ed_doc ed'))) = UndoDone \<and>
       cm_undo_stack (doc_changes (snd (buffer_undo R F (ed_doc ed')))) = cm_undo_stack (doc_changes (ed_doc ed)) \<and>
       chs (buf_rope (doc_buffer (snd (buffer_undo R F (ed_doc ed'))))) = ed_text chs ed))"
proof -
  have "edit_step R (ed_doc ed) (ed_doc ed')"
    using assms(5) ex_delete_step ex_join_step ex_sort_step ex_copy_step ex_move_step
    by (metis insertE singletonD)
  from rope_contract.edit_step_undo [OF assms(1) this assms(2-4)] show ?thesis
    by (simp add: ed_text_def ed_buffer_def)
qed

text \<open>\<open>:1,2m3\<close> and \<open>u\<close>.\<close>

theorem ex_command_is_one_undo_step_witness:
  "\<exists>res ed'. ex_move list_rope literal_regex (sample_call (rs ''3'') 1 2)
      (sample_editor (rs ''a'' @ [10] @ rs ''b'' @ [10] @ rs ''c'')) = Some (res, ed') \<and>
    undo_reach list_rope no_fs (ed_doc ed') (rs ''a'' @ [10] @ rs ''b'' @ [10] @ rs ''c'')"
proof -
  let ?t = "rs ''a'' @ [10] @ rs ''b'' @ [10] @ rs ''c''"
  obtain res ed' where run: "ex_move list_rope literal_regex (sample_call (rs ''3'') 1 2) (sample_editor ?t) = Some (res, ed')"
    using sample_destination [of ?t literal_regex]
    by (auto simp: ex_move_def shown_lines_def Let_def case_prod_beta)
  have "undo_reach list_rope no_fs (ed_doc (sample_editor ?t)) (buf_rope (doc_buffer (ed_doc (sample_editor ?t))))"
    by (rule undo_reach.opened) (simp_all add: sample_editor_def sample_buffer_def)
  then show ?thesis
    using ex_command_is_one_undo_step [of list_rope "\<lambda>t. t" no_fs "sample_editor ?t" ?t res ed' ascii_unicode memory_clipboard
        "sample_call (rs ''3'') 1 2" literal_regex, OF lr.rope_contract_axioms] run
    by (simp add: sample_editor_def sample_buffer_def change_manager_new_def)
qed

end
