(* ===== verification/Replacements.thy ===== *)
theory Replacements
  imports ExRange
begin

text \<open>
  The replacement string of \<open>:s\<close> (ovim-core/src/commands/replacement.rs) and the splitting of the
  bodies of \<open>:s\<close> and \<open>:g\<close> into their fields (the parsers of ovim-core/src/commands/pattern.rs).

  \<open>char::to_uppercase\<close>, \<open>to_lowercase\<close> and \<open>is_alphanumeric\<close> are Unicode data, here parameters; the
  captures of a match are a function from the group to the text it matched.
\<close>

section \<open>Tokens\<close>

datatype letter_case = Upper | Lower

datatype rep_token =
  RepText rstr | RepGroup nat | RepNext letter_case | RepFollowing letter_case | RepEnd

text \<open>What a backslash and the character after it stand for.\<close>

definition escape_token :: "rchar \<Rightarrow> rep_token" where
  "escape_token c =
     (if is_ascii_digit c then RepGroup (c - rc CHR ''0'')
      else if c = rc CHR ''r'' then RepText [10]
      else if c = rc CHR ''t'' then RepText [9]
      else if c = rc CHR ''n'' then RepText [rc CHR 0x5C, rc CHR ''n'']
      else if c = rc CHR ''u'' then RepNext Upper
      else if c = rc CHR ''l'' then RepNext Lower
      else if c = rc CHR ''U'' then RepFollowing Upper
      else if c = rc CHR ''L'' then RepFollowing Lower
      else if c = rc CHR ''e'' \<or> c = rc CHR ''E'' then RepEnd
      else RepText [c])"

fun push_token :: "rep_token list \<Rightarrow> rep_token \<Rightarrow> rep_token list" where
  "push_token tokens (RepText t) =
     (case rev tokens of RepText previous # before \<Rightarrow> rev before @ [RepText (previous @ t)] | _ \<Rightarrow> tokens @ [RepText t])"
| "push_token tokens token = tokens @ [token]"

fun replacement_loop :: "rep_token list \<Rightarrow> rstr \<Rightarrow> rep_token list" where
  "replacement_loop tokens [] = tokens"
| "replacement_loop tokens [c] =
     push_token tokens (if c = rc CHR ''&'' then RepGroup 0 else RepText [c])"
| "replacement_loop tokens (c # e # s) =
     (if c = rc CHR ''&'' then replacement_loop (push_token tokens (RepGroup 0)) (e # s)
      else if c = rc CHR 0x5C then replacement_loop (push_token tokens (escape_token e)) s
      else replacement_loop (push_token tokens (RepText [c])) (e # s))"

definition replacement_parse :: "rstr \<Rightarrow> rep_token list" where
  "replacement_parse typed = replacement_loop [] typed"

section \<open>Expansion\<close>

fun expand_chars ::
  "(rchar \<Rightarrow> rstr) \<Rightarrow> (rchar \<Rightarrow> rstr) \<Rightarrow> letter_case option \<Rightarrow> letter_case option \<Rightarrow> rstr \<Rightarrow> rstr \<times> letter_case option" where
  "expand_chars up low nxt following [] = ([], nxt)"
| "expand_chars up low nxt following (c # s) =
     (let out = (case (case nxt of Some x \<Rightarrow> Some x | None \<Rightarrow> following) of
                   Some Upper \<Rightarrow> up c | Some Lower \<Rightarrow> low c | None \<Rightarrow> [c]);
          (rest, nxt) = expand_chars up low None following s
      in (out @ rest, nxt))"

fun expand_tokens ::
  "(rchar \<Rightarrow> rstr) \<Rightarrow> (rchar \<Rightarrow> rstr) \<Rightarrow> captures \<Rightarrow> letter_case option \<Rightarrow> letter_case option \<Rightarrow> rep_token list \<Rightarrow> rstr" where
  "expand_tokens up low caps nxt following [] = []"
| "expand_tokens up low caps nxt following (token # tokens) =
     (case token of
        RepNext x \<Rightarrow> expand_tokens up low caps (Some x) following tokens
      | RepFollowing x \<Rightarrow> expand_tokens up low caps nxt (Some x) tokens
      | RepEnd \<Rightarrow> expand_tokens up low caps nxt None tokens
      | _ \<Rightarrow>
        (let t = (case token of RepText t \<Rightarrow> t
                  | RepGroup g \<Rightarrow> (case caps g of Some found \<Rightarrow> found | None \<Rightarrow> [])
                  | _ \<Rightarrow> []);
             (out, nxt) = expand_chars up low nxt following t
         in out @ expand_tokens up low caps nxt following tokens))"

definition replacement_expand :: "(rchar \<Rightarrow> rstr) \<Rightarrow> (rchar \<Rightarrow> rstr) \<Rightarrow> captures \<Rightarrow> rep_token list \<Rightarrow> rstr" where
  "replacement_expand up low caps tokens = expand_tokens up low caps None None tokens"

section \<open>The fields of a substitution\<close>

definition bad_delimiter :: "(rchar \<Rightarrow> bool) \<Rightarrow> rchar \<Rightarrow> bool" where
  "bad_delimiter alnum d \<longleftrightarrow> alnum d \<or> d \<in> {rc CHR 0x5C, rc CHR 0x22, rc CHR ''|'', rc CHR '' ''}"

definition push_last :: "rstr list \<Rightarrow> rstr \<Rightarrow> rstr list" where
  "push_last parts s = butlast parts @ [last parts @ s]"

fun split_fields :: "rchar \<Rightarrow> bool \<Rightarrow> rstr list \<Rightarrow> rstr \<Rightarrow> rstr list" where
  "split_fields d escaped parts [] = (if escaped then push_last parts [rc CHR 0x5C] else parts)"
| "split_fields d escaped parts (c # s) =
     (if escaped then split_fields d False (push_last parts (if c \<noteq> d then [rc CHR 0x5C, c] else [c])) s
      else if c = rc CHR 0x5C then split_fields d True parts s
      else if c = d \<and> length parts < 3 then split_fields d False (parts @ [[]]) s
      else split_fields d False (push_last parts [c]) s)"

definition split_substitute_parts :: "(rchar \<Rightarrow> bool) \<Rightarrow> rstr \<Rightarrow> (rstr \<times> rstr \<times> rstr) option" where
  "split_substitute_parts alnum body =
     (case body of
        [] \<Rightarrow> None
      | d # s \<Rightarrow>
          if bad_delimiter alnum d then None
          else (case split_fields d False [[]] s of
                  [p] \<Rightarrow> Some (p, [], [])
                | [p, r] \<Rightarrow> Some (p, r, [])
                | p # r # f # _ \<Rightarrow> Some (p, r, f)
                | [] \<Rightarrow> Some ([], [], [])))"

fun split_global_loop :: "rchar \<Rightarrow> bool \<Rightarrow> rstr \<Rightarrow> rstr \<Rightarrow> rstr \<times> rstr" where
  "split_global_loop d escaped pat [] = (pat, [])"
| "split_global_loop d escaped pat (c # s) =
     (if escaped then split_global_loop d False (pat @ (if c \<noteq> d then [rc CHR 0x5C, c] else [c])) s
      else if c = rc CHR 0x5C then split_global_loop d True pat s
      else if c = d then (pat, str_trim s)
      else split_global_loop d False (pat @ [c]) s)"

definition split_global :: "(rchar \<Rightarrow> bool) \<Rightarrow> rstr \<Rightarrow> (rstr \<times> rstr) option" where
  "split_global alnum args =
     (case args of
        [] \<Rightarrow> None
      | d # body \<Rightarrow> if bad_delimiter alnum d then None else Some (split_global_loop d False [] body))"

section \<open>Printing a replacement\<close>

text \<open>Replacements as the parser makes them: texts are not empty and never adjacent, groups have one digit.\<close>

fun tokens_ok :: "rep_token list \<Rightarrow> bool" where
  "tokens_ok [] \<longleftrightarrow> True"
| "tokens_ok (RepText t # tokens) \<longleftrightarrow>
     t \<noteq> [] \<and> (case tokens of RepText _ # _ \<Rightarrow> False | _ \<Rightarrow> True) \<and> tokens_ok tokens"
| "tokens_ok (RepGroup n # tokens) \<longleftrightarrow> n \<le> 9 \<and> tokens_ok tokens"
| "tokens_ok (_ # tokens) \<longleftrightarrow> tokens_ok tokens"

text \<open>A character as typed: a line feed as \<open>\r\<close>, a tab as \<open>\t\<close>, a backslash before the two magic characters.\<close>

definition print_char :: "rchar \<Rightarrow> rstr" where
  "print_char c =
     (if c = 10 then [rc CHR 0x5C, rc CHR ''r'']
      else if c = 9 then [rc CHR 0x5C, rc CHR ''t'']
      else if c = rc CHR ''&'' \<or> c = rc CHR 0x5C then [rc CHR 0x5C, c] else [c])"

fun print_token :: "rep_token \<Rightarrow> rstr" where
  "print_token (RepText t) = concat (map print_char t)"
| "print_token (RepGroup n) = [rc CHR 0x5C, rc CHR ''0'' + n]"
| "print_token (RepNext x) = [rc CHR 0x5C, if x = Upper then rc CHR ''u'' else rc CHR ''l'']"
| "print_token (RepFollowing x) = [rc CHR 0x5C, if x = Upper then rc CHR ''U'' else rc CHR ''L'']"
| "print_token RepEnd = [rc CHR 0x5C, rc CHR ''e'']"

definition print_tokens :: "rep_token list \<Rightarrow> rstr" where
  "print_tokens tokens = concat (map print_token tokens)"

lemma push_token_text: "push_token tokens (RepText t) =
    (if tokens \<noteq> [] \<and> (\<exists>p. last tokens = RepText p)
     then butlast tokens @ [RepText ((case last tokens of RepText p \<Rightarrow> p | _ \<Rightarrow> []) @ t)] else tokens @ [RepText t])"
  by (cases tokens rule: rev_cases) (auto split: rep_token.splits)

lemma loop_plain:
  "c \<noteq> rc CHR 0x5C \<Longrightarrow> c \<noteq> rc CHR ''&'' \<Longrightarrow>
   replacement_loop tokens (c # s) = replacement_loop (push_token tokens (RepText [c])) s"
  by (cases s) auto

lemma loop_escape: "replacement_loop tokens (rc CHR 0x5C # e # s) = replacement_loop (push_token tokens (escape_token e)) s"
  by simp

lemma loop_print_char:
  "replacement_loop tokens (print_char c @ s) = replacement_loop (push_token tokens (RepText [c])) s"
  using loop_plain [of c tokens s]
  by (auto simp: print_char_def escape_token_def is_ascii_digit_def)

lemma push_text_text: "push_token (push_token tokens (RepText t)) (RepText u) = push_token tokens (RepText (t @ u))"
  by (auto simp: push_token_text simp del: push_token.simps)

lemma loop_print_text:
  "t \<noteq> [] \<Longrightarrow> replacement_loop tokens (concat (map print_char t) @ s) = replacement_loop (push_token tokens (RepText t)) s"
proof (induction t arbitrary: tokens)
  case (Cons c t)
  show ?case
  proof (cases "t = []")
    case True
    then show ?thesis by (simp add: loop_print_char del: push_token.simps)
  next
    case False
    then show ?thesis using Cons
      by (simp add: loop_print_char push_text_text del: push_token.simps)
  qed
qed simp

lemma not_upper [simp]: "x \<noteq> Upper \<longleftrightarrow> x = Lower"
  by (cases x) auto

lemma loop_print_tokens:
  "tokens_ok tokens \<Longrightarrow> (\<exists>p. acc \<noteq> [] \<and> last acc = RepText p) \<longrightarrow> (\<nexists>t ts. tokens = RepText t # ts) \<Longrightarrow>
   replacement_loop acc (print_tokens tokens @ s) = replacement_loop (acc @ tokens) s"
proof (induction tokens arbitrary: acc rule: tokens_ok.induct)
  case (2 t tokens)
  then have "push_token acc (RepText t) = acc @ [RepText t]"
    by (auto simp: push_token_text simp del: push_token.simps)
  then show ?case
    using 2 by (auto simp: print_tokens_def loop_print_text simp del: push_token.simps split: list.splits rep_token.splits)
next
  case (3 n tokens)
  then show ?case
    by (simp add: print_tokens_def escape_token_def is_ascii_digit_def)
qed (auto simp: print_tokens_def escape_token_def is_ascii_digit_def)

lemma parse_print_tokens: "tokens_ok tokens \<Longrightarrow> replacement_parse (print_tokens tokens) = tokens"
  using loop_print_tokens [of tokens "[]" "[]"] by (simp add: replacement_parse_def)

lemma parse_print_chars: "s \<noteq> [] \<Longrightarrow> replacement_parse (concat (map print_char s)) = [RepText s]"
  using parse_print_tokens [of "[RepText s]"] by (simp add: print_tokens_def)

lemma tokens_ok_snoc:
  "tokens_ok (tokens @ [token]) \<longleftrightarrow> tokens_ok tokens \<and>
    (case token of RepText t \<Rightarrow> t \<noteq> [] \<and> (tokens = [] \<or> (\<nexists>p. last tokens = RepText p)) | RepGroup n \<Rightarrow> n \<le> 9 | _ \<Rightarrow> True)"
proof (induction tokens rule: tokens_ok.induct)
  case 1
  show ?case by (cases token) auto
next
  case (2 t tokens)
  then show ?case by (cases token; cases tokens) (auto split: rep_token.splits)
qed (auto split: rep_token.splits)

definition token_ok :: "rep_token \<Rightarrow> bool" where
  "token_ok token \<longleftrightarrow> (case token of RepText t \<Rightarrow> t \<noteq> [] | RepGroup n \<Rightarrow> n \<le> 9 | _ \<Rightarrow> True)"

lemma push_token_ok: "tokens_ok tokens \<Longrightarrow> token_ok token \<Longrightarrow> tokens_ok (push_token tokens token)"
proof (cases token)
  case (RepText t)
  assume ok: "tokens_ok tokens" "token_ok token"
  show ?thesis
  proof (cases tokens rule: rev_cases)
    case (snoc before l)
    then show ?thesis
      using ok RepText tokens_ok_snoc [of "before @ [l]" token]
      by (cases l) (simp_all add: push_token_text tokens_ok_snoc token_ok_def del: push_token.simps)
  qed (use ok RepText in \<open>simp add: push_token_text token_ok_def del: push_token.simps\<close>)
qed (simp_all add: tokens_ok_snoc token_ok_def)

lemma loop_tokens_ok: "tokens_ok tokens \<Longrightarrow> tokens_ok (replacement_loop tokens s)"
proof (induction tokens s rule: replacement_loop.induct)
  case (2 tokens c)
  then show ?case by (auto intro!: push_token_ok simp: token_ok_def simp del: push_token.simps)
next
  case (3 tokens c e s)
  have "token_ok (escape_token e)" by (auto simp: escape_token_def token_ok_def is_ascii_digit_def)
  moreover have "token_ok (RepGroup 0)" "token_ok (RepText [c])" by (simp_all add: token_ok_def)
  ultimately have "tokens_ok (push_token tokens (escape_token e))" "tokens_ok (push_token tokens (RepGroup 0))"
    "tokens_ok (push_token tokens (RepText [c]))"
    using push_token_ok [OF "3.prems"] by blast+
  then show ?case using "3.IH" by (simp del: push_token.simps)
qed simp

section \<open>The case of the expansion\<close>

definition convert :: "(rchar \<Rightarrow> rstr) \<Rightarrow> (rchar \<Rightarrow> rstr) \<Rightarrow> letter_case \<Rightarrow> rchar \<Rightarrow> rstr" where
  "convert up low x c = (case x of Upper \<Rightarrow> up c | Lower \<Rightarrow> low c)"

text \<open>Tokens that insert text, and the text they insert.\<close>

fun inserts :: "rep_token \<Rightarrow> bool" where
  "inserts (RepText t) \<longleftrightarrow> True" | "inserts (RepGroup n) \<longleftrightarrow> True" | "inserts _ \<longleftrightarrow> False"

fun inserted :: "captures \<Rightarrow> rep_token \<Rightarrow> rstr" where
  "inserted caps (RepText t) = t"
| "inserted caps (RepGroup n) = (case caps n of Some found \<Rightarrow> found | None \<Rightarrow> [])"
| "inserted caps _ = []"

lemma expand_chars_following: "expand_chars up low None (Some x) s = (concat (map (convert up low x) s), None)"
  by (induction s) (auto simp: convert_def split: letter_case.splits)

lemma expand_chars_plain: "expand_chars up low None None s = (s, None)"
  by (induction s) auto

lemma expand_chars_next:
  "expand_chars up low (Some y) following (c # s) =
     (convert up low y c @ fst (expand_chars up low None following s), snd (expand_chars up low None following s))"
  by (simp add: convert_def case_prod_beta split: letter_case.splits)

lemma expand_inserts_following:
  "list_all inserts tokens \<Longrightarrow> expand_tokens up low caps None (Some x) (tokens @ rest) =
     concat (map (convert up low x) (concat (map (inserted caps) tokens))) @ expand_tokens up low caps None (Some x) rest"
proof (induction tokens)
  case (Cons token tokens)
  then show ?case by (cases token) (simp_all add: expand_chars_following split: option.splits)
qed simp

lemma expand_inserts_plain:
  "list_all inserts tokens \<Longrightarrow> expand_tokens up low caps None None (tokens @ rest) =
     concat (map (inserted caps) tokens) @ expand_tokens up low caps None None rest"
proof (induction tokens)
  case (Cons token tokens)
  then show ?case by (cases token) (simp_all add: expand_chars_plain split: option.splits)
qed simp

lemma expand_inserts_next:
  "list_all inserts tokens \<Longrightarrow> concat (map (inserted caps) tokens) = c # s \<Longrightarrow>
   expand_tokens up low caps (Some y) (Some x) (tokens @ rest) =
     convert up low y c @ concat (map (convert up low x) s) @ expand_tokens up low caps None (Some x) rest"
proof (induction tokens)
  case (Cons token tokens)
  show ?case
  proof (cases "inserted caps token")
    case Nil
    then show ?thesis using Cons by (cases token) (auto split: option.splits)
  next
    case (Cons c' s')
    then have "c' = c" and s: "s = s' @ concat (map (inserted caps) tokens)" using \<open>_ = c # s\<close> by simp_all
    moreover have "expand_tokens up low caps None (Some x) (tokens @ rest) =
        concat (map (convert up low x) (concat (map (inserted caps) tokens))) @ expand_tokens up low caps None (Some x) rest"
      using \<open>list_all inserts (token # tokens)\<close> by (intro expand_inserts_following) simp
    ultimately show ?thesis
      using Cons \<open>list_all inserts (token # tokens)\<close>
      by (cases token) (auto simp: expand_chars_next expand_chars_following simp del: expand_chars.simps split: option.splits)
  qed
qed simp

section \<open>Properties\<close>

text \<open>
  Expanding a replacement inserts its text and groups unchanged outside the case modifiers;
  after \<open>\U\<close> or \<open>\L\<close> every character up to \<open>\e\<close> is converted, except that the first one after
  \<open>\u\<close> or \<open>\l\<close> takes that case; groups that did not take part insert nothing.
\<close>

theorem replacement_expansion:
  assumes "list_all inserts before" and "list_all inserts inside"
    and "concat (map (inserted caps) inside) = c # s"
  shows "replacement_expand up low caps (before @ [RepFollowing x, RepNext y] @ inside @ RepEnd # rest) =
    concat (map (inserted caps) before) @ convert up low y c @ concat (map (convert up low x) s) @
      replacement_expand up low caps rest"
  using expand_inserts_next [OF assms(2,3), of up low y x "RepEnd # rest"]
  by (simp add: replacement_expand_def expand_inserts_plain [OF assms(1)])

text \<open>\<open>\L\u&\e!\<close> on a match HELLO.\<close>

theorem replacement_expansion_witness:
  "replacement_expand (\<lambda>c. [c]) (\<lambda>c. [to_ascii_lowercase c]) (\<lambda>n. if n = 0 then Some (rs ''HELLO'') else None)
     (replacement_parse (rs ''<'' @ [92] @ rs ''L'' @ [92] @ rs ''u&'' @ [92] @ rs ''e!'')) = rs ''<Hello!''"
proof -
  have "replacement_parse (rs ''<'' @ [92] @ rs ''L'' @ [92] @ rs ''u&'' @ [92] @ rs ''e!'') =
      [RepText (rs ''<'')] @ [RepFollowing Lower, RepNext Upper] @ [RepGroup 0] @ RepEnd # [RepText (rs ''!'')]"
    by (simp add: replacement_parse_def escape_token_def is_ascii_digit_def)
  then show ?thesis
    using replacement_expansion [where before = "[RepText (rs ''<'')]" and inside = "[RepGroup 0]" and c = 72
        and s = "rs ''ELLO''" and caps = "\<lambda>n. if n = 0 then Some (rs ''HELLO'') else None" and x = Lower and y = Upper
        and rest = "[RepText (rs ''!'')]" and up = "\<lambda>c. [c]" and low = "\<lambda>c. [to_ascii_lowercase c]"]
    by (simp add: convert_def to_ascii_lowercase_def is_ascii_uppercase_def replacement_expand_def)
qed

section \<open>The typed form of a substitution\<close>

lemma split_fields_print:
  "complete_pattern d p \<Longrightarrow> d \<noteq> rc CHR 0x5C \<Longrightarrow>
   split_fields d False (before @ [acc]) (print_pattern d p @ s) = split_fields d False (before @ [acc @ p]) s"
  by (induction d p arbitrary: acc rule: print_pattern.induct) (auto simp: push_last_def)

lemma split_fields_flags:
  "rc CHR 0x5C \<notin> set f \<Longrightarrow> length before = 2 \<Longrightarrow>
   split_fields d False (before @ [acc]) f = before @ [acc @ f]"
  by (induction f arbitrary: acc) (auto simp: push_last_def)

lemma print_digit: "n \<le> 9 \<Longrightarrow> is_ascii_digit (rc CHR ''0'' + n)"
  by (simp add: is_ascii_digit_def)

lemma complete_append_pair:
  "c \<noteq> rc CHR 0x5C \<Longrightarrow> complete_pattern d (c # s) = complete_pattern d s"
  "c = rc CHR 0x5C \<Longrightarrow> complete_pattern d (c # e # s) \<longleftrightarrow> e \<noteq> d \<and> complete_pattern d s"
  by (cases s; simp)+

lemma complete_print_chars:
  "complete_pattern d s \<Longrightarrow> d \<notin> {rc CHR ''r'', rc CHR ''t'', rc CHR ''&'', rc CHR 0x5C} \<Longrightarrow>
   complete_pattern d (concat (map print_char t) @ s)"
  by (induction t) (auto simp: print_char_def complete_append_pair)

lemma complete_print_tokens:
  assumes "\<not> bad_delimiter alnum d" "\<forall>c. is_ascii_alphanumeric c \<longrightarrow> alnum c" "d \<noteq> rc CHR ''&''"
  shows "tokens_ok tokens \<Longrightarrow> complete_pattern d (print_tokens tokens)"
proof -
  have letters: "d \<noteq> e" if "is_ascii_alphanumeric e" for e
    using assms that by (auto simp: bad_delimiter_def)
  have other: "d \<noteq> rc CHR 0x5C" using assms(1) by (simp add: bad_delimiter_def)
  show "tokens_ok tokens \<Longrightarrow> complete_pattern d (print_tokens tokens)"
  proof (induction tokens rule: tokens_ok.induct)
    case (2 t tokens)
    then show ?case
      using assms(3) other letters [of "rc CHR ''r''"] letters [of "rc CHR ''t''"]
        complete_print_chars [of d "print_tokens tokens" t]
      by (simp add: print_tokens_def ascii_defs)
  next
    case (3 n tokens)
    then show ?case
      using letters [OF disjI2 [THEN is_ascii_alphanumeric_def [THEN iffD2]], OF print_digit [of n]] other
      by (simp add: print_tokens_def complete_append_pair)
  qed (use other letters [of "rc CHR ''u''"] letters [of "rc CHR ''l''"] letters [of "rc CHR ''U''"]
        letters [of "rc CHR ''L''"] letters [of "rc CHR ''e''"]
       in \<open>simp_all add: print_tokens_def complete_append_pair ascii_defs\<close>)
qed

text \<open>
  C27. Every substitution can be typed: for a pattern in which no backslash stands before the
  delimiter, a replacement in the form the parser makes, and flags, printing them with the
  delimiter escaped and reading the body of \<open>:s\<close> back gives the three fields, and parsing the
  second gives the replacement. The parser produces no other form, so printing its result and
  parsing again changes nothing. The delimiter may be any that is accepted, except \<open>&\<close>.
\<close>

theorem substitution_roundtrip:
  assumes "\<not> bad_delimiter alnum d" and "\<forall>c. is_ascii_alphanumeric c \<longrightarrow> alnum c" and "d \<noteq> rc CHR ''&''"
    and "complete_pattern d p" and "tokens_ok tokens" and "rc CHR 0x5C \<notin> set f"
  shows "split_substitute_parts alnum (d # print_pattern d p @ d # print_pattern d (print_tokens tokens) @ d # f) =
      Some (p, print_tokens tokens, f) \<and>
    replacement_parse (print_tokens tokens) = tokens \<and>
    tokens_ok (replacement_parse typed) \<and>
    replacement_parse (print_tokens (replacement_parse typed)) = replacement_parse typed"
proof -
  have d: "d \<noteq> rc CHR 0x5C" using assms(1) by (simp add: bad_delimiter_def)
  have c: "complete_pattern d (print_tokens tokens)" using complete_print_tokens assms by blast
  have "split_fields d False [[]] (print_pattern d p @ d # print_pattern d (print_tokens tokens) @ d # f) =
      [p, print_tokens tokens, f]"
    using split_fields_print [OF assms(4) d, of "[]" "[]"] split_fields_print [OF c d, of "[p]" "[]"]
      split_fields_flags [OF assms(6), of "[p, print_tokens tokens]" d "[]"] d
    by simp
  then have "split_substitute_parts alnum (d # print_pattern d p @ d # print_pattern d (print_tokens tokens) @ d # f) =
      Some (p, print_tokens tokens, f)"
    using assms(1) by (simp add: split_substitute_parts_def)
  moreover have ok: "tokens_ok (replacement_parse typed)" for typed
    unfolding replacement_parse_def by (rule loop_tokens_ok) simp
  ultimately show ?thesis using parse_print_tokens [OF ok] parse_print_tokens [OF assms(5)] by simp
qed

text \<open>\<open>:s/a\/b/c\/\1\r/g\<close>\<close>

theorem substitution_roundtrip_witness:
  "split_substitute_parts is_ascii_alphanumeric
     (rs ''/a'' @ [92] @ rs ''/b/c'' @ [92] @ rs ''/'' @ [92] @ rs ''1'' @ [92] @ rs ''r/g'') =
   Some (rs ''a/b'', rs ''c/'' @ [92] @ rs ''1'' @ [92] @ rs ''r'', rs ''g'')"
  using substitution_roundtrip [of is_ascii_alphanumeric "rc CHR ''/''" "rs ''a/b''"
      "[RepText (rs ''c/''), RepGroup 1, RepText [10]]" "rs ''g''"]
  by (simp add: bad_delimiter_def ascii_defs print_tokens_def print_char_def)

end
