(* ===== verification/MarkedLines.thy ===== *)
theory MarkedLines
  imports TextBuffers
begin

text \<open>
  The lines \<open>:g\<close> still has to visit (ovim-core/src/commands/marked_lines.rs), followed through the
  edits each visit makes. A start is stored as the actual offset minus a shift common to all.

  The offsets are \<open>isize\<close> values far from its bounds (they index a text in memory) and are modelled
  as \<^typ>\<open>int\<close>. \<open>partition_point\<close> on a sequence split by the predicate is the length of the prefix
  that satisfies it; the starts are kept in ascending order, which is proved here.
\<close>

section \<open>State and operations\<close>

record marked_lines =
  ml_starts :: "int list"
  ml_shift :: int

definition marked_new :: "'r rope_ops \<Rightarrow> 'r \<Rightarrow> nat list \<Rightarrow> marked_lines" where
  "marked_new R rope ls = \<lparr>ml_starts = map (\<lambda>l. int (rope_line_to_char R rope l)) ls, ml_shift = 0\<rparr>"

fun marked_next_loop :: "'r rope_ops \<Rightarrow> 'r \<Rightarrow> int \<Rightarrow> int list \<Rightarrow> nat option \<times> int list" where
  "marked_next_loop R rope shift [] = (None, [])"
| "marked_next_loop R rope shift (stored # starts) =
     (let start = stored + shift
      in if start < 0 \<or> nat start > rope_len_chars R rope then marked_next_loop R rope shift starts
         else if nat start = 0 \<or> rope_char R rope (nat start - 1) = 10
              then (Some (rope_char_to_line R rope (nat start)), starts)
              else marked_next_loop R rope shift starts)"

definition marked_next :: "'r rope_ops \<Rightarrow> 'r \<Rightarrow> marked_lines \<Rightarrow> nat option \<times> marked_lines" where
  "marked_next R rope m =
     (case marked_next_loop R rope (ml_shift m) (ml_starts m) of
        (found, starts) \<Rightarrow> (found, m\<lparr>ml_starts := starts\<rparr>))"

text \<open>\<open>partition_point\<close>, by its result on a list that the predicate splits in two, as \<open>ml_starts\<close> is.\<close>

definition marked_count :: "(int \<Rightarrow> bool) \<Rightarrow> marked_lines \<Rightarrow> nat" where
  "marked_count before m = length (takeWhile (\<lambda>stored. before (stored + ml_shift m)) (ml_starts m))"

definition move_from :: "nat \<Rightarrow> int \<Rightarrow> marked_lines \<Rightarrow> marked_lines" where
  "move_from index delta m =
     (let starts = ml_starts m; len = length starts
      in if index \<ge> len then m
         else if len - index \<le> index
         then m\<lparr>ml_starts := take index starts @ map (\<lambda>s. s + delta) (drop index starts)\<rparr>
         else m\<lparr>ml_shift := ml_shift m + delta,
                ml_starts := map (\<lambda>s. s - delta) (take index starts) @ drop index starts\<rparr>)"

definition marked_insert :: "nat \<Rightarrow> rstr \<Rightarrow> marked_lines \<Rightarrow> marked_lines" where
  "marked_insert offset t m =
     (let unmoved = (if ends_with_char t 10 then marked_count (\<lambda>start. start < int offset) m
                     else marked_count (\<lambda>start. start \<le> int offset) m)
      in move_from unmoved (int (length t)) m)"

definition marked_delete :: "nat \<Rightarrow> rstr \<Rightarrow> marked_lines \<Rightarrow> marked_lines" where
  "marked_delete offset t m =
     (if length t = 0 then m
      else let e = int offset + int (length t);
               whole_lines = ends_with_char t 10;
               kept = marked_count (\<lambda>start. start < int offset \<or> start = int offset \<and> \<not> whole_lines) m;
               moved = marked_count (\<lambda>start. start < e) m;
               m = m\<lparr>ml_starts := take kept (ml_starts m) @ drop moved (ml_starts m)\<rparr>
           in move_from kept (- int (length t)) m)"

fun marked_follow_edit :: "edit \<Rightarrow> marked_lines \<Rightarrow> marked_lines" where
  "marked_follow_edit (Insert offset t) m = marked_insert offset t m"
| "marked_follow_edit (Delete offset t) m = marked_delete offset t m"

definition marked_follow :: "edit list \<Rightarrow> marked_lines \<Rightarrow> marked_lines" where
  "marked_follow es m = fold marked_follow_edit es m"

definition marked_follow_unknown :: "int \<Rightarrow> marked_lines \<Rightarrow> marked_lines" where
  "marked_follow_unknown delta m = m\<lparr>ml_shift := ml_shift m + delta\<rparr>"

section \<open>The starts as offsets\<close>

text \<open>The abstraction: the offsets the marks point at, and what an edit does to one of them.\<close>

definition marked_at :: "marked_lines \<Rightarrow> int list" where
  "marked_at m = map (\<lambda>s. s + ml_shift m) (ml_starts m)"

fun follow_start :: "edit \<Rightarrow> int \<Rightarrow> int option" where
  "follow_start (Insert offset t) s =
     (if s < int offset \<or> s = int offset \<and> \<not> ends_with_char t 10 then Some s else Some (s + int (length t)))"
| "follow_start (Delete offset t) s =
     (if t = [] \<or> s < int offset \<or> s = int offset \<and> \<not> ends_with_char t 10 then Some s
      else if s < int offset + int (length t) then None
      else Some (s - int (length t)))"

definition follow_starts :: "edit \<Rightarrow> int list \<Rightarrow> int list" where
  "follow_starts e ss = List.map_filter (follow_start e) ss"

lemma marked_at_move:
  "marked_at (move_from index delta m) = take index (marked_at m) @ map (\<lambda>s. s + delta) (drop index (marked_at m))"
  by (auto simp: move_from_def marked_at_def Let_def take_map drop_map comp_def algebra_simps)

lemma marked_count_at: "marked_count before m = length (takeWhile before (marked_at m))"
  by (simp add: marked_count_def marked_at_def takeWhile_map comp_def)

lemma marked_at_cut:
  "marked_at (m\<lparr>ml_starts := take i (ml_starts m) @ drop j (ml_starts m)\<rparr>) =
     take i (marked_at m) @ drop j (marked_at m)"
  by (simp add: marked_at_def take_map drop_map)

text \<open>A prefix of a sorted list that satisfies a downward closed predicate is all that satisfies it.\<close>

lemma takeWhile_sorted:
  assumes "sorted xs" "\<And>x y. x \<le> y \<Longrightarrow> P y \<Longrightarrow> P x"
  shows "take (length (takeWhile P xs)) xs = filter P xs \<and>
    drop (length (takeWhile P xs)) xs = filter (\<lambda>x. \<not> P x) xs"
  using assms(1)
proof (induction xs)
  case (Cons x xs)
  have "filter P xs = []" "filter (\<lambda>x. \<not> P x) xs = xs" if "\<not> P x"
    using that Cons.prems assms(2) by (auto simp: filter_empty_conv filter_id_conv)
  then show ?case using Cons by (cases "P x") auto
qed simp

lemma map_filter_parts:
  assumes "sorted xs" "\<And>x y. x \<le> y \<Longrightarrow> P y \<Longrightarrow> P x" "\<And>x y. x \<le> y \<Longrightarrow> Q y \<Longrightarrow> Q x" "\<And>x. P x \<Longrightarrow> Q x"
    and "\<And>x. f x = (if P x then Some x else if Q x then None else Some (g x))"
  shows "List.map_filter f xs = filter P xs @ map g (filter (\<lambda>x. \<not> Q x) xs)"
  using assms(1)
proof (induction xs)
  case (Cons x xs)
  have "filter P xs = []" if "\<not> P x"
    using that Cons.prems assms(2) by (auto simp: filter_empty_conv)
  then show ?case
    using Cons assms(4,5) by (auto simp: map_filter_simps)
qed (simp add: map_filter_simps)

lemma follow_edit_at:
  assumes "sorted (marked_at m)"
  shows "marked_at (marked_follow_edit e m) = follow_starts e (marked_at m)"
proof (cases e)
  case (Insert offset t)
  let ?P = "\<lambda>s. s < int offset \<or> s = int offset \<and> \<not> ends_with_char t 10"
  have closed: "\<And>x y. x \<le> y \<Longrightarrow> ?P y \<Longrightarrow> ?P x" by auto
  have "marked_at (marked_insert offset t m) =
      take (length (takeWhile ?P (marked_at m))) (marked_at m) @
      map (\<lambda>s. s + int (length t)) (drop (length (takeWhile ?P (marked_at m))) (marked_at m))"
    by (cases "ends_with_char t 10") (auto simp: marked_insert_def marked_at_move marked_count_at order_le_less)
  also have "\<dots> = filter ?P (marked_at m) @ map (\<lambda>s. s + int (length t)) (filter (\<lambda>x. \<not> ?P x) (marked_at m))"
    using takeWhile_sorted [OF assms closed] by simp
  also have "\<dots> = follow_starts e (marked_at m)"
    unfolding follow_starts_def Insert
    by (subst map_filter_parts [OF assms, where P = ?P and Q = ?P and g = "\<lambda>s. s + int (length t)"]) auto
  finally show ?thesis by (simp add: Insert)
next
  case (Delete offset t)
  show ?thesis
  proof (cases "t = []")
    case True
    then have "follow_starts e xs = xs" for xs
      by (induction xs) (auto simp: follow_starts_def Delete map_filter_simps)
    then show ?thesis using True by (simp add: Delete marked_delete_def)
  next
    case False
    let ?P = "\<lambda>s. s < int offset \<or> s = int offset \<and> \<not> ends_with_char t 10"
    let ?Q = "\<lambda>s. s < int offset + int (length t)"
    let ?k = "length (takeWhile ?P (marked_at m))" and ?l = "length (takeWhile ?Q (marked_at m))"
    have PQ: "\<And>s. ?P s \<Longrightarrow> ?Q s" using False by auto
    have closed: "\<And>x y. x \<le> y \<Longrightarrow> ?P y \<Longrightarrow> ?P x" "\<And>x y. x \<le> y \<Longrightarrow> ?Q y \<Longrightarrow> ?Q x" by auto
    have kept: "?k \<le> length (marked_at m)" by (rule length_takeWhile_le)
    have "marked_at (marked_delete offset t m) =
        take ?k (marked_at m) @ map (\<lambda>s. s - int (length t)) (drop ?l (marked_at m))"
      using False kept
      by (simp add: marked_delete_def Let_def marked_at_move marked_at_cut marked_count_at min_absorb2)
    also have "\<dots> = filter ?P (marked_at m) @ map (\<lambda>s. s - int (length t)) (filter (\<lambda>x. \<not> ?Q x) (marked_at m))"
      using takeWhile_sorted [OF assms closed(1)] takeWhile_sorted [OF assms closed(2)] by simp
    also have "\<dots> = follow_starts e (marked_at m)"
      unfolding follow_starts_def Delete using False PQ
      by (subst map_filter_parts [OF assms, where P = ?P and Q = ?Q and g = "\<lambda>s. s - int (length t)"]) auto
    finally show ?thesis by (simp add: Delete)
  qed
qed

lemma follow_start_mono:
  "s \<le> s' \<Longrightarrow> follow_start e s = Some u \<Longrightarrow> follow_start e s' = Some u' \<Longrightarrow> u \<le> u'"
  by (cases e) (auto split: if_splits)

lemma follow_starts_sorted: "sorted ss \<Longrightarrow> sorted (follow_starts e ss)"
proof (induction ss)
  case (Cons s ss)
  then show ?case
    by (auto simp: follow_starts_def List.map_filter_def intro: follow_start_mono)
qed (simp add: follow_starts_def map_filter_simps)

lemma marked_follow_at:
  "sorted (marked_at m) \<Longrightarrow>
   marked_at (marked_follow es m) = fold follow_starts es (marked_at m) \<and> sorted (marked_at (marked_follow es m))"
proof (induction es arbitrary: m)
  case (Cons e es)
  then have "sorted (marked_at (marked_follow_edit e m))"
    by (simp add: follow_edit_at follow_starts_sorted)
  from conjunct1 [OF Cons.IH [OF this]] conjunct2 [OF Cons.IH [OF this]] show ?case
    unfolding follow_edit_at [OF Cons.prems] marked_follow_def by simp
qed (simp add: marked_follow_def)

lemma follow_starts_fold_length: "length (fold follow_starts es ss) \<le> length ss"
proof (induction es arbitrary: ss)
  case (Cons e es)
  have "length (follow_starts e ss) \<le> length ss"
    by (simp add: follow_starts_def List.map_filter_def)
  with Cons [of "follow_starts e ss"] show ?case by simp
qed simp

text \<open>Where a mark goes, in terms of the text.\<close>

definition line_start_at :: "rstr \<Rightarrow> nat \<Rightarrow> bool" where
  "line_start_at t i \<longleftrightarrow> i \<le> length t \<and> (i = 0 \<or> t ! (i - 1) = 10)"

lemma follow_start_text:
  assumes "edit_valid t e" "line_start_at t i" "follow_start e (int i) = Some s"
  shows "0 \<le> s \<and> nat s \<le> length (edit_text_apply t e) \<and>
    (line_start_at (edit_text_apply t e) (nat s) \<or>
      (\<exists>offset u. e = Delete offset u \<and> i = offset + length u \<and> nat s = offset \<and> \<not> line_start_at t offset))"
proof (cases e)
  case (Insert offset u)
  have off: "offset \<le> length t" using assms(1) Insert by simp
  show ?thesis
  proof (cases "i < offset \<or> i = offset \<and> \<not> ends_with_char u 10")
    case True
    then have s: "s = int i" using assms(3) Insert by auto
    have same: "(take offset t @ u @ drop offset t) ! (i - Suc 0) = t ! (i - Suc 0)" if "0 < i"
    proof -
      have "i - Suc 0 < offset" using that True by auto
      then show ?thesis using off by (simp add: nth_append)
    qed
    show ?thesis
    proof (cases "i = 0")
      case pos: False
      then have "(take offset t @ u @ drop offset t) ! (i - Suc 0) = t ! (i - Suc 0)" by (intro same) simp
      then show ?thesis using pos s assms(2) Insert off by (simp add: line_start_at_def)
    qed (use s in \<open>simp add: line_start_at_def\<close>)
  next
    case False
    then have s: "s = int (i + length u)" and i: "offset \<le> i" using assms(3) Insert by auto
    have il: "i \<le> length t" using assms(2) by (simp add: line_start_at_def)
    have "(take offset t @ u @ drop offset t) ! (i + length u - 1) = 10" if "i + length u \<noteq> 0"
    proof (cases "i = offset")
      case True
      then have u: "u \<noteq> []" "last u = 10" using False by (auto simp: ends_with_char_def)
      then have "offset \<le> offset + length u - 1" "offset + length u - 1 - offset = length u - 1"
        by (cases u; simp)+
      then show ?thesis using True off u by (simp add: nth_append last_conv_nth)
    next
      case ne: False
      then have "i + length u - 1 - (offset + length u) = i - 1 - offset" "offset \<le> i - 1"
        "length u \<le> i + length u - Suc offset" using i by auto
      then have "(take offset t @ u @ drop offset t) ! (i + length u - 1) = t ! (i - 1)"
        using ne i il off by (simp add: nth_append)
      then show ?thesis using assms(2) ne i by (auto simp: line_start_at_def)
    qed
    moreover have "nat s = i + length u" "0 \<le> s" using s by simp_all
    ultimately show ?thesis
      using il Insert off by (cases "i + length u = 0") (simp_all add: line_start_at_def)
  qed
next
  case (Delete offset u)
  have fits: "offset + length u \<le> length t" and u: "take (length u) (drop offset t) = u"
    using assms(1) Delete by auto
  have il: "i \<le> length t" "i = 0 \<or> t ! (i - 1) = 10" using assms(2) by (auto simp: line_start_at_def)
  show ?thesis
  proof (cases "u = [] \<or> i < offset \<or> i = offset \<and> \<not> ends_with_char u 10")
    case True
    then have s: "s = int i" using assms(3) Delete by auto
    have "(take offset t @ drop (offset + length u) t) ! (i - 1) = t ! (i - 1)" if "i \<noteq> 0"
      using that True fits il by (cases "u = []") (auto simp: nth_append)
    moreover have "i \<le> offset + (length t - (offset + length u))"
      using True fits il by (cases "u = []") auto
    ultimately show ?thesis
      using s il fits Delete by (auto simp: line_start_at_def)
  next
    case False
    then have s: "s = int i - int (length u)" and i: "offset + length u \<le> i" and ne: "u \<noteq> []"
      using assms(3) Delete by (auto split: if_splits)
    show ?thesis
    proof (cases "i = offset + length u")
      case True
      then show ?thesis
        using s fits Delete il
        by (auto simp: line_start_at_def nth_append)
    next
      case i': False
      then have "(take offset t @ drop (offset + length u) t) ! (i - length u - 1) = t ! (i - 1)"
        using i il fits by (auto simp: nth_append)
      then show ?thesis
        using s i i' il fits Delete by (auto simp: line_start_at_def nat_diff_distrib')
    qed
  qed
qed

lemma follow_start_lost:
  "follow_start e s = None \<longleftrightarrow>
    (\<exists>offset u. e = Delete offset u \<and> int offset \<le> s \<and> s < int offset + int (length u) \<and>
      (s = int offset \<longrightarrow> ends_with_char u 10))"
  by (cases e) auto

section \<open>The marks follow their lines\<close>

text \<open>C23. The marks of :g stay with their lines. Replaying the edits of a command moves every mark as
it moves one mark alone, whichever side of the queue the shift touches, and keeps the queue in
ascending order. One edit of the text loses a mark exactly when it deletes the mark's position, or
whole lines from there on; a mark that survives is the start of a line again, except where the
deletion joined its line to the one before, and that one is skipped later.\<close>

theorem marks_of_g_follow_lines:
  assumes "sorted (marked_at m)"
  shows "marked_at (marked_follow es m) = fold follow_starts es (marked_at m) \<and>
    sorted (marked_at (marked_follow es m)) \<and>
    length (ml_starts (marked_follow es m)) \<le> length (ml_starts m) \<and>
    (\<forall>e s. follow_start e s = None \<longleftrightarrow> (\<exists>offset u. e = Delete offset u \<and> int offset \<le> s \<and>
       s < int offset + int (length u) \<and> (s = int offset \<longrightarrow> ends_with_char u 10))) \<and>
    (\<forall>e t i s'. edit_valid t e \<and> line_start_at t i \<and> follow_start e (int i) = Some s' \<longrightarrow>
       0 \<le> s' \<and> nat s' \<le> length (edit_text_apply t e) \<and>
       (line_start_at (edit_text_apply t e) (nat s') \<or>
         (\<exists>offset u. e = Delete offset u \<and> i = offset + length u \<and> nat s' = offset \<and> \<not> line_start_at t offset)))"
proof (intro conjI allI impI)
  show at: "marked_at (marked_follow es m) = fold follow_starts es (marked_at m)"
    and "sorted (marked_at (marked_follow es m))"
    using conjunct1 [OF marked_follow_at [OF assms]] conjunct2 [OF marked_follow_at [OF assms]] .
  from follow_starts_fold_length [of es "marked_at m"] at
  show "length (ml_starts (marked_follow es m)) \<le> length (ml_starts m)"
    by (metis length_map marked_at_def)
next
  fix e s
  show "follow_start e s = None \<longleftrightarrow> (\<exists>offset u. e = Delete offset u \<and> int offset \<le> s \<and>
       s < int offset + int (length u) \<and> (s = int offset \<longrightarrow> ends_with_char u 10))"
    by (rule follow_start_lost)
next
  fix e t i s'
  assume "edit_valid t e \<and> line_start_at t i \<and> follow_start e (int i) = Some s'"
  then have "edit_valid t e" "line_start_at t i" "follow_start e (int i) = Some s'" by simp_all
  note moved = follow_start_text [OF this]
  show "0 \<le> s'" "nat s' \<le> length (edit_text_apply t e)"
    "line_start_at (edit_text_apply t e) (nat s') \<or>
      (\<exists>offset u. e = Delete offset u \<and> i = offset + length u \<and> nat s' = offset \<and> \<not> line_start_at t offset)"
    using moved by simp_all
qed

text \<open>The lines a, b and c; the first is deleted while b and c are still to visit.\<close>

lemma marks_of_g_follow_lines_witness:
  "(let m = \<lparr>ml_starts = [2, 4], ml_shift = 0\<rparr>; e = Delete 0 (rs ''a'' @ [10]) in
    marked_at (marked_follow [e] m) = [0, 2] \<and> sorted (marked_at (marked_follow [e] m)) \<and>
    length (ml_starts (marked_follow [e] m)) \<le> 2 \<and>
    line_start_at (edit_text_apply (rs ''a'' @ [10] @ rs ''b'' @ [10] @ rs ''c'') e) 0)"
  using marks_of_g_follow_lines [where m = "\<lparr>ml_starts = [2, 4], ml_shift = 0\<rparr>" and es = "[Delete 0 (rs ''a'' @ [10])]"]
  by (simp add: marked_at_def follow_starts_def map_filter_simps line_start_at_def Let_def)

end
