(* ===== verification/ExPattern.thy ===== *)
theory ExPattern
  imports ExEdit Replacements MarkedLines
begin

text \<open>
  The pattern commands \<open>:s\<close>, \<open>:g\<close> and \<open>:v\<close> (ovim-core/src/commands/pattern.rs) with \<open>one_undo_step\<close>
  (commands/edit.rs) and the start of a confirmed substitution (editor/ui_features.rs).

  A handler returns \<open>None\<close> where the source panics. The search highlight that
  \<open>set_last_search_pattern\<close> also sets, and the pattern a confirmed substitution keeps for
  highlighting, are not modelled. \<open>:g\<close> runs its command through the parameter \<open>run\<close>, which stands for
  \<open>run_line\<close>.
\<close>

section \<open>Substitutions\<close>

record 'x substitution =
  sub_regex :: 'x
  sub_replacement :: "rep_token list"
  sub_typed :: rstr
  sub_global :: bool
  sub_pattern :: rstr

definition substitution_apply :: "'x regex_ops \<Rightarrow> unicode_ops \<Rightarrow> 'x substitution \<Rightarrow> rstr \<Rightarrow> rstr" where
  "substitution_apply E U s line =
     (let expand = (\<lambda>caps. replacement_expand (uni_uppercase U) (uni_lowercase U) caps (sub_replacement s))
      in if sub_global s then rx_replace_all E (sub_regex s) expand line
         else rx_replace E (sub_regex s) expand line)"

definition set_last_search_pattern :: "rstr \<Rightarrow> ('r, 'f, 'a, 'g) ex_editor \<Rightarrow> ('r, 'f, 'a, 'g) ex_editor" where
  "set_last_search_pattern pattern ed = upd_registers (\<lambda>m. register_set_last_search m pattern) ed"

definition parse_substitution ::
  "'x regex_ops \<Rightarrow> unicode_ops \<Rightarrow> rstr \<Rightarrow> ('r, 'f, 'a, 'g) ex_editor \<Rightarrow>
   (command_result + 'x substitution \<times> rstr) \<times> ('r, 'f, 'a, 'g) ex_editor" where
  "parse_substitution E U body ed =
     (if body = [] then (Inl (cmd_err (rs ''E33: No previous substitute regular expression'')), ed)
      else case split_substitute_parts (uni_alphanumeric U) body of
        None \<Rightarrow> (Inl (cmd_err (rs ''E146: Regular expressions can'' @ [39] @ rs ''t be delimited by letters'')), ed)
      | Some (raw_pattern, raw_replacement, flags) \<Rightarrow>
          (let previous = last_search (storage (ed_registers ed))
           in if raw_pattern = [] \<and> previous = []
              then (Inl (cmd_err (rs ''E35: No previous regular expression'')), ed)
              else let pattern = (if raw_pattern = [] then previous else raw_pattern);
                       forced = (if rc CHR ''I'' \<in> set flags then Some False
                                 else if rc CHR ''i'' \<in> set flags then Some True else None)
                   in case compile_pattern E pattern (view_case (ed_view ed)) forced of
                        None \<Rightarrow> (Inl (cmd_err (rs ''Invalid regex pattern: '' @ pattern)), ed)
                      | Some x \<Rightarrow>
                          (Inr (\<lparr>sub_regex = x, sub_replacement = replacement_parse raw_replacement,
                                 sub_typed = raw_replacement, sub_global = rc CHR ''g'' \<in> set flags,
                                 sub_pattern = pattern\<rparr>, flags),
                           set_last_search_pattern pattern ed)))"

definition line_feeds :: "rstr \<Rightarrow> nat" where
  "line_feeds t = length (filter (\<lambda>c. c = 10) t)"

fun substitute_loop ::
  "'r rope_ops \<Rightarrow> 'x regex_ops \<Rightarrow> unicode_ops \<Rightarrow> 'x substitution \<Rightarrow> nat list \<Rightarrow> nat option \<Rightarrow> nat \<Rightarrow> 'r buffer \<Rightarrow>
   (nat option \<times> nat) \<times> 'r buffer" where
  "substitute_loop R E U s [] last_changed changed b = ((last_changed, changed), b)"
| "substitute_loop R E U s (line # ls) last_changed changed b =
     (case buffer_line_text R b line of
        None \<Rightarrow> substitute_loop R E U s ls last_changed changed b
      | Some t \<Rightarrow>
          (let replaced = substitution_apply E U s t
           in if replaced \<noteq> t then
                (let b = snd (buffer_delete_range R b line 0 line (length t));
                     b = buffer_insert_text_at R b line 0 replaced;
                     added = line_feeds replaced;
                     last_changed = Some (case last_changed of None \<Rightarrow> line + added | Some final \<Rightarrow> final + added)
                 in substitute_loop R E U s ls last_changed (changed + 1) b)
              else substitute_loop R E U s ls last_changed changed b))"

definition substitute_lines ::
  "'r rope_ops \<Rightarrow> 'x regex_ops \<Rightarrow> unicode_ops \<Rightarrow> 'x substitution \<Rightarrow> nat list \<Rightarrow> ('r, 'f, 'a, 'g) ex_editor \<Rightarrow>
   nat \<times> ('r, 'f, 'a, 'g) ex_editor" where
  "substitute_lines R E U s ls ed =
     (let before = cursor_position (ed_doc ed);
          (((last_line, changed), edits), b) = buffer_record (substitute_loop R E U s (rev ls) None 0) (ed_buffer ed);
          ed = upd_buffer (\<lambda>_. b) ed
      in if edits \<noteq> [] then
           (let ed = (case last_line of Some line \<Rightarrow> cursor_to_first_non_blank R U line ed | None \<Rightarrow> ed);
                (_, d) = push_recorded_undo edits before (cursor_position (ed_doc ed)) (ed_doc ed)
            in (changed, ed\<lparr>ed_doc := d\<rparr>))
         else (changed, ed))"

definition line_match_count :: "'x regex_ops \<Rightarrow> 'x substitution \<Rightarrow> rstr \<Rightarrow> nat" where
  "line_match_count E s t =
     (if sub_global s then rx_count E (sub_regex s) t else if rx_is_match E (sub_regex s) t then 1 else 0)"

definition count_matches ::
  "'r rope_ops \<Rightarrow> 'x regex_ops \<Rightarrow> 'x substitution \<Rightarrow> nat list \<Rightarrow> bool \<Rightarrow> 'r buffer \<Rightarrow> command_result" where
  "count_matches R E s ls quiet b =
     (let found = filter (\<lambda>n. n > 0) (map (line_match_count E s) (List.map_filter (buffer_line_text R b) ls));
          matches = sum_list found; matching_lines = length found
      in if matches = 0
         then (if quiet then cmd_ok_silent else cmd_err (rs ''E486: Pattern not found: '' @ sub_pattern s))
         else cmd_ok (nat_digits 10 matches @ rs '' match'' @ (if matches = 1 then [] else rs ''es'') @ rs '' on '' @
                nat_digits 10 matching_lines @ rs '' line'' @ (if matching_lines = 1 then [] else rs ''s'')))"

section \<open>Confirmed substitutions\<close>

definition line_matches_to_confirm ::
  "'x regex_ops \<Rightarrow> unicode_ops \<Rightarrow> 'x substitution \<Rightarrow> nat \<Rightarrow> rstr \<Rightarrow> (nat \<times> nat \<times> nat \<times> rstr) list" where
  "line_matches_to_confirm E U s line t =
     map (\<lambda>((start, e), caps).
            (line, start, e, replacement_expand (uni_uppercase U) (uni_lowercase U) caps (sub_replacement s)))
       (if sub_global s then rx_captures_iter E (sub_regex s) t
        else case rx_captures E (sub_regex s) t of Some found \<Rightarrow> [found] | None \<Rightarrow> [])"

definition matches_to_confirm ::
  "'r rope_ops \<Rightarrow> 'x regex_ops \<Rightarrow> unicode_ops \<Rightarrow> 'x substitution \<Rightarrow> nat list \<Rightarrow> 'r buffer \<Rightarrow> (nat \<times> nat \<times> nat \<times> rstr) list" where
  "matches_to_confirm R E U s ls b =
     concat (map (\<lambda>line. case buffer_line_text R b line of
                           None \<Rightarrow> [] | Some t \<Rightarrow> line_matches_to_confirm E U s line t) ls)"

definition start_substitute_confirm ::
  "(nat \<times> nat \<times> nat \<times> rstr) list \<Rightarrow> ('r, 'f, 'a, 'g) ex_editor \<Rightarrow> ('r, 'f, 'a, 'g) ex_editor" where
  "start_substitute_confirm found ed =
     (let ed = ed\<lparr>ed_matches := found, ed_match_index := 0\<rparr>
      in case found of
           [] \<Rightarrow> ed
         | (line, col, _, _) # _ \<Rightarrow>
             upd_buffer (\<lambda>b. b\<lparr>buf_cursor := cursor_set_position (buf_cursor b) line col\<rparr>) (ed\<lparr>ed_confirming := True\<rparr>))"

section \<open>The command\<close>

definition ex_substitute ::
  "'r rope_ops \<Rightarrow> 'x regex_ops \<Rightarrow> unicode_ops \<Rightarrow> ex_call \<Rightarrow> ('r, 'f, 'a, 'g) ex_editor \<Rightarrow>
   (command_result \<times> ('r, 'f, 'a, 'g) ex_editor) option" where
  "ex_substitute R E U x ed =
     (case parse_substitution E U (call_args x) ed of
        (Inl error, ed) \<Rightarrow> Some (error, ed)
      | (Inr (s, flags), ed) \<Rightarrow>
          (case call_range x of
             None \<Rightarrow> None
           | Some r \<Rightarrow>
               (let (start, e) = line_range_indexes r;
                    e = min e (buffer_line_count R (ed_buffer ed) - 1);
                    not_found = cmd_err (rs ''E486: Pattern not found: '' @ sub_pattern s)
                in if rc CHR ''n'' \<in> set flags then
                     Some (count_matches R E s [start..<Suc e] (rc CHR ''e'' \<in> set flags) (ed_buffer ed), ed)
                   else if \<not> buf_modifiable (ed_buffer ed) then Some (unmodifiable, ed)
                   else if rc CHR ''c'' \<in> set flags then
                     (let found = matches_to_confirm R E U s [start..<Suc e] (ed_buffer ed)
                      in if found = [] then Some (not_found, ed)
                         else Some (cmd_ok (rs ''replace with '' @ sub_typed s @ rs '' ('' @ nat_digits 10 (length found) @
                                      rs '' matches) (y/n/a/q/l)''), start_substitute_confirm found ed))
                   else let (changed, ed) = substitute_lines R E U s [start..<Suc e] ed
                        in if changed = 0 \<and> rc CHR ''e'' \<notin> set flags then Some (not_found, ed)
                           else Some (cmd_ok_silent, ed))))"

section \<open>Commands on matching lines\<close>

fun global_delete_loop :: "'r rope_ops \<Rightarrow> nat list \<Rightarrow> rstr list \<Rightarrow> 'r buffer \<Rightarrow> rstr list \<times> 'r buffer" where
  "global_delete_loop R [] deleted b = (deleted, b)"
| "global_delete_loop R (line # ls) deleted b =
     (let (t, b) = buffer_delete_range R b line 0 (line + 1) 0
      in global_delete_loop R ls (if t \<noteq> [] then deleted @ [t] else deleted) b)"

definition global_delete ::
  "'r rope_ops \<Rightarrow> unicode_ops \<Rightarrow> 'g clipboard_backend \<Rightarrow> nat list \<Rightarrow> ('r, 'f, 'a, 'g) ex_editor \<Rightarrow>
   command_result \<times> ('r, 'f, 'a, 'g) ex_editor" where
  "global_delete R U C ls ed =
     (if \<not> buf_modifiable (ed_buffer ed) then (unmodifiable, ed)
      else let before = cursor_position (ed_doc ed);
               ((deleted, edits), b) = buffer_record (global_delete_loop R (rev ls) []) (ed_buffer ed);
               ed = upd_buffer (\<lambda>_. b) ed;
               ed = delete_to_register_with_type C (concat (rev deleted)) Line ed;
               ed = cursor_to_first_non_blank R U (last ls + 1 - length ls) ed;
               ed = (if edits \<noteq> [] then
                       ed\<lparr>ed_doc := snd (push_recorded_undo edits before (cursor_position (ed_doc ed)) (ed_doc ed))\<rparr>
                     else ed)
           in (cmd_ok (rs ''Deleted '' @ nat_digits 10 (length ls) @ rs '' line(s)''), ed))"

fun edit_change :: "edit \<Rightarrow> int" where
  "edit_change (Insert offset t) = int (length t)"
| "edit_change (Delete offset t) = - int (length t)"

definition net_change :: "edit list \<Rightarrow> int" where
  "net_change es = sum_list (map edit_change es)"

text \<open>How the lines still to visit follow what one visit did to the buffer.\<close>

definition follow_visit :: "'r rope_ops \<Rightarrow> nat \<Rightarrow> nat \<Rightarrow> 'r buffer \<Rightarrow> marked_lines \<Rightarrow> marked_lines" where
  "follow_visit R version chars_before b marked =
     (let change = int (rope_len_chars R (buf_rope b)) - int chars_before
      in case edit_log_edits_since (buf_edit_log b) version of
           Some edits \<Rightarrow> if net_change edits = change then marked_follow edits marked
                         else marked_follow_unknown change marked
         | None \<Rightarrow> marked_follow_unknown change marked)"

lemma marked_next_shorter:
  "marked_next R rope m = (Some line, m') \<Longrightarrow> length (ml_starts m') < length (ml_starts m)"
proof -
  have "marked_next_loop R rope shift starts = (Some line, starts') \<Longrightarrow> length starts' < length starts" for shift starts starts'
    by (induction starts) (auto simp: Let_def split: if_splits)
  then show "marked_next R rope m = (Some line, m') \<Longrightarrow> length (ml_starts m') < length (ml_starts m)"
    by (auto simp: marked_next_def split: prod.splits)
qed

lemma takeWhile_length_mono:
  "(\<And>x. P x \<Longrightarrow> Q x) \<Longrightarrow> length (takeWhile P xs) \<le> length (takeWhile Q xs)"
  by (induction xs) auto

lemma marked_follow_edit_length: "length (ml_starts (marked_follow_edit e m)) \<le> length (ml_starts m)"
proof -
  have move: "length (ml_starts (move_from i d m)) = length (ml_starts m)" for i d m
    by (simp add: move_from_def Let_def)
  show ?thesis
  proof (cases e)
    case (Delete offset t)
    define P where "P start \<longleftrightarrow> start < int offset \<or> start = int offset \<and> \<not> ends_with_char t 10" for start
    have "marked_count P m \<le> marked_count (\<lambda>start. start < int offset + int (length t)) m" if "t \<noteq> []"
      using that unfolding marked_count_def by (intro takeWhile_length_mono) (auto simp: P_def)
    then show ?thesis
      using Delete by (auto simp: marked_delete_def Let_def move P_def [abs_def] marked_count_def)
  qed (simp add: marked_insert_def Let_def move)
qed

lemma marked_follow_length: "length (ml_starts (marked_follow es m)) \<le> length (ml_starts m)"
  unfolding marked_follow_def by (induction es arbitrary: m) (auto intro: order_trans [OF _ marked_follow_edit_length])

lemma follow_visit_length: "length (ml_starts (follow_visit R version n b m)) \<le> length (ml_starts m)"
  by (auto simp: follow_visit_def Let_def marked_follow_unknown_def intro: marked_follow_length split: option.splits)

text \<open>
  The loop over the marked lines. It ends because every visit takes a mark and following edits adds
  none, whatever \<open>run\<close> does.
\<close>

function global_each_loop ::
  "'r rope_ops \<Rightarrow> (rstr \<Rightarrow> ('r, 'f, 'a, 'g) ex_editor \<Rightarrow> (command_result \<times> ('r, 'f, 'a, 'g) ex_editor) option) \<Rightarrow>
   rstr \<Rightarrow> nat \<Rightarrow> marked_lines \<Rightarrow> command_result \<Rightarrow> ('r, 'f, 'a, 'g) ex_editor \<Rightarrow>
   (command_result \<times> ('r, 'f, 'a, 'g) ex_editor) option" where
  "global_each_loop R run command buffer marked result ed =
     (case marked_next R (buf_rope (ed_buffer ed)) marked of
        (None, _) \<Rightarrow> Some (result, ed)
      | (Some line, marked) \<Rightarrow>
          (let ed = upd_buffer (buffer_set_cursor_line line) ed;
               version = buf_version (ed_buffer ed);
               chars_before = rope_len_chars R (buf_rope (ed_buffer ed))
           in case run command ed of
                None \<Rightarrow> None
              | Some (Failure message, ed) \<Rightarrow> Some (Failure message, ed)
              | Some (Success message, ed) \<Rightarrow>
                  if ed_buffer_id ed \<noteq> buffer then Some (result, ed)
                  else global_each_loop R run command buffer
                         (follow_visit R version chars_before (ed_buffer ed) marked)
                         (if message \<noteq> None then Success message else result) ed))"
  by pat_completeness auto

termination
  by (relation "measure (\<lambda>(R, run, command, buffer, marked, result, ed). length (ml_starts marked))")
    (auto dest!: marked_next_shorter sym [of "(Some _, _)"] intro: le_less_trans [OF follow_visit_length])

declare global_each_loop.simps [simp del]

definition global_each_line ::
  "'r rope_ops \<Rightarrow> (rstr \<Rightarrow> ('r, 'f, 'a, 'g) ex_editor \<Rightarrow> (command_result \<times> ('r, 'f, 'a, 'g) ex_editor) option) \<Rightarrow>
   nat list \<Rightarrow> rstr \<Rightarrow> ('r, 'f, 'a, 'g) ex_editor \<Rightarrow> (command_result \<times> ('r, 'f, 'a, 'g) ex_editor) option" where
  "global_each_line R run ls command ed =
     global_each_loop R run command (ed_buffer_id ed) (marked_new R (buf_rope (ed_buffer ed)) ls) cmd_ok_silent ed"

definition one_undo_step ::
  "(('r, 'f, 'a, 'g) ex_editor \<Rightarrow> (command_result \<times> ('r, 'f, 'a, 'g) ex_editor) option) \<Rightarrow>
   ('r, 'f, 'a, 'g) ex_editor \<Rightarrow> (command_result \<times> ('r, 'f, 'a, 'g) ex_editor) option" where
  "one_undo_step body ed =
     (let buffer = ed_buffer_id ed; mark = change_top_seq (doc_changes (ed_doc ed))
      in case body ed of
           None \<Rightarrow> None
         | Some (result, ed) \<Rightarrow>
             Some (result,
               if ed_buffer_id ed = buffer
               then ed\<lparr>ed_doc := (ed_doc ed)\<lparr>doc_changes := group_since mark (doc_changes (ed_doc ed))\<rparr>\<rparr>
               else ed))"

definition global_lines ::
  "'r rope_ops \<Rightarrow> 'x regex_ops \<Rightarrow> 'x \<Rightarrow> bool \<Rightarrow> line_range \<Rightarrow> 'r buffer \<Rightarrow> nat list" where
  "global_lines R E x invert r b =
     (let (start, e) = line_range_indexes r; e = min e (buffer_line_count R b - 1)
      in filter (\<lambda>line. case buffer_line_text R b line of Some t \<Rightarrow> rx_is_match E x t \<noteq> invert | None \<Rightarrow> False)
           [start..<Suc e])"

definition global_print ::
  "'r rope_ops \<Rightarrow> unicode_ops \<Rightarrow> nat list \<Rightarrow> ('r, 'f, 'a, 'g) ex_editor \<Rightarrow> command_result \<times> ('r, 'f, 'a, 'g) ex_editor" where
  "global_print R U ls ed =
     (let out = List.map_filter (\<lambda>line. map_option (\<lambda>t. nat_digits 10 (line + 1) @ rs '': '' @ t)
                  (buffer_line_text R (ed_buffer ed) line)) (take 10 ls);
          out = (if length ls > 10
                 then out @ [rs ''... and '' @ nat_digits 10 (length ls - 10) @ rs '' more lines''] else out)
      in (cmd_ok (join out), cursor_to_first_non_blank R U (last ls) ed))"

definition global_yank ::
  "'r rope_ops \<Rightarrow> 'g clipboard_backend \<Rightarrow> nat list \<Rightarrow> ('r, 'f, 'a, 'g) ex_editor \<Rightarrow>
   command_result \<times> ('r, 'f, 'a, 'g) ex_editor" where
  "global_yank R C ls ed =
     (let t = concat (map (\<lambda>l. l @ [10]) (List.map_filter (buffer_line_text R (ed_buffer ed)) ls))
      in (cmd_ok (rs ''Yanked '' @ nat_digits 10 (length ls) @ rs '' line(s)''), yank_to_register_with_type C t Line ed))"

definition global_substitute ::
  "'r rope_ops \<Rightarrow> 'x regex_ops \<Rightarrow> unicode_ops \<Rightarrow> nat list \<Rightarrow> rstr \<Rightarrow> ('r, 'f, 'a, 'g) ex_editor \<Rightarrow>
   command_result \<times> ('r, 'f, 'a, 'g) ex_editor" where
  "global_substitute R E U ls body ed =
     (case parse_substitution E U body ed of
        (Inl error, ed) \<Rightarrow> (error, ed)
      | (Inr (s, _), ed) \<Rightarrow>
          (let (changed, ed) = substitute_lines R E U s ls ed
           in (cmd_ok (rs ''Substituted on '' @ nat_digits 10 changed @ rs '' line(s)''), ed)))"

text \<open>What \<open>global\<close> runs on the lines it found.\<close>

definition global_run ::
  "'r rope_ops \<Rightarrow> 'x regex_ops \<Rightarrow> unicode_ops \<Rightarrow> 'g clipboard_backend \<Rightarrow>
   (rstr \<Rightarrow> ('r, 'f, 'a, 'g) ex_editor \<Rightarrow> (command_result \<times> ('r, 'f, 'a, 'g) ex_editor) option) \<Rightarrow>
   rstr \<Rightarrow> nat list \<Rightarrow> ('r, 'f, 'a, 'g) ex_editor \<Rightarrow> (command_result \<times> ('r, 'f, 'a, 'g) ex_editor) option" where
  "global_run R E U C run command ls ed =
     (case parse_ex (uni_alphanumeric U) command of
        Inl OffsetOverflow \<Rightarrow> None
      | Inl error \<Rightarrow> Some (cmd_err (parse_error_message command error), ed)
      | Inr sub \<Rightarrow>
          (let name = hd (ex_names (pc_command sub)); whole = (pc_range sub = None \<and> pc_next sub = None)
           in if name = ''g[lobal]'' \<or> name = ''v[global]'' then Some (cmd_err (rs ''E147: Cannot do :global recursive''), ed)
              else if name = ''d[elete]'' \<and> whole then Some (global_delete R U C ls ed)
              else if name = ''y[ank]'' \<and> whole then Some (global_yank R C ls ed)
              else if name = ''p[rint]'' \<and> whole then Some (global_print R U ls ed)
              else if name = ''s[ubstitute]'' \<and> whole then Some (global_substitute R E U ls (pc_args sub) ed)
              else one_undo_step (global_each_line R run ls command) ed))"

definition ex_global ::
  "'r rope_ops \<Rightarrow> 'x regex_ops \<Rightarrow> unicode_ops \<Rightarrow> 'g clipboard_backend \<Rightarrow>
   (rstr \<Rightarrow> ('r, 'f, 'a, 'g) ex_editor \<Rightarrow> (command_result \<times> ('r, 'f, 'a, 'g) ex_editor) option) \<Rightarrow>
   ex_call \<Rightarrow> ('r, 'f, 'a, 'g) ex_editor \<Rightarrow> (command_result \<times> ('r, 'f, 'a, 'g) ex_editor) option" where
  "ex_global R E U C run x ed =
     (let invert = (call_bang x \<or> prefix ''v'' (call_name x))
      in case split_global (uni_alphanumeric U) (call_args x) of
           None \<Rightarrow> Some (cmd_err (rs ''E476: Invalid command''), ed)
         | Some (typed, command) \<Rightarrow>
             (let previous = last_search (storage (ed_registers ed)); pattern = (if typed = [] then previous else typed)
              in if pattern = [] then Some (cmd_err (rs ''E35: No previous regular expression''), ed)
                 else case compile_pattern E pattern (view_case (ed_view ed)) None of
                        None \<Rightarrow> Some (cmd_err (rs ''Invalid regex pattern: '' @ pattern), ed)
                      | Some rx \<Rightarrow>
                          (let ed = set_last_search_pattern pattern ed
                           in case call_range x of
                                None \<Rightarrow> None
                              | Some r \<Rightarrow>
                                  (let ls = global_lines R E rx invert r (ed_buffer ed)
                                   in if ls = [] then
                                        Some (cmd_ok ((if invert then rs ''Pattern found in every line: ''
                                                       else rs ''Pattern not found: '') @ pattern), ed)
                                      else global_run R E U C run (if command = [] then rs ''p'' else command) ls ed))))"

end
