(* ===== verification/ExPatternLaws.thy ===== *)
theory ExPatternLaws
  imports ExPattern ExEditLaws
begin

text \<open>
  What the pattern commands do to the lines of the buffer: \<open>:s\<close> replaces each line of its range by the
  line with its matches replaced, \<open>:g/pattern/d\<close> removes exactly the matching lines, and the loop of
  \<open>:g\<close> visits no line twice.
\<close>

section \<open>Lines replaced one by one\<close>

definition map_lines :: "('a \<Rightarrow> 'a) \<Rightarrow> nat list \<Rightarrow> 'a list \<Rightarrow> 'a list" where
  "map_lines f ls S = map (\<lambda>i. if i \<in> set ls then f (S ! i) else S ! i) [0..<length S]"

lemma length_map_lines [simp]: "length (map_lines f ls S) = length S"
  by (simp add: map_lines_def)

lemma map_lines_Nil [simp]: "map_lines f [] S = S"
  by (simp add: map_lines_def map_nth)

lemma map_lines_append: "\<forall>l \<in> set ls. l < length S \<Longrightarrow> map_lines f ls (S @ T) = map_lines f ls S @ T"
  by (intro nth_equalityI) (auto simp: map_lines_def nth_append)

lemma map_lines_snoc:
  assumes "\<forall>l' \<in> set ls. l' < l" "l < length S"
  shows "map_lines f (ls @ [l]) S = map_lines f ls (take l S) @ f (S ! l) # drop (Suc l) S"
  using assms by (intro nth_equalityI) (auto simp: map_lines_def nth_append nth_Cons' min_def)

lemma map_lines_range:
  "s \<le> e \<Longrightarrow> e \<le> length S \<Longrightarrow> map_lines f [s..<e] S = take s S @ map f (take (e - s) (drop s S)) @ drop e S"
  by (intro nth_equalityI) (auto simp: map_lines_def nth_append)

text \<open>A line of a joined list may itself be a joined list.\<close>

lemma join_split_inside: "join (X @ split_lines t @ Y) = join (X @ t # Y)"
proof (cases "Y = []")
  case False
  have "terminate (split_lines t) = t @ [10]"
    using join_append [of "[[]]" "split_lines t"] join_split [of t]
    by (cases "split_lines t" rule: rev_cases) (simp_all add: join_append)
  then show ?thesis using False by (simp add: join_append join_Cons)
qed (simp add: join_append)

lemma split_join_line:
  assumes "unbroken S" "l < length S"
  shows "split_lines (join (take l S @ t # drop (Suc l) S)) = take l S @ split_lines t @ drop (Suc l) S"
proof -
  have "unbroken (take l S @ split_lines t @ drop (Suc l) S)"
    using assms(1) by (simp add: unbroken_parts)
  then show ?thesis
    using split_join [of "take l S @ split_lines t @ drop (Suc l) S"] by (simp add: join_split_inside)
qed

context lf_rope begin

lemma replace_line:
  assumes lf: "lf_only (chs (buf_rope b))" and mod: "buf_modifiable b" and l: "l < length (shown b)" and t: "lf_only t"
  defines "b' \<equiv> buffer_insert_text_at R (snd (buffer_delete_range R b l 0 l (length (shown b ! l)))) l 0 t"
  shows "chs (buf_rope b') = join (take l (raw b) @ t # drop (Suc l) (raw b))"
    and "raw b' = take l (raw b) @ split_lines t @ drop (Suc l) (raw b)"
    and "lf_only (chs (buf_rope b'))" and "buf_modifiable b'"
proof -
  let ?S = "raw b" and ?d = "snd (buffer_delete_range R b l 0 l (length (shown b ! l)))"
  have sl: "l < length ?S" using l shown_raw(1) [of b] by simp
  have S: "\<forall>x \<in> set ?S. lf_only x" "unbroken ?S" using lf lf_only_split [of "chs (buf_rope b)"] by auto
  have "chs (buf_rope ?d) = terminate (take l ?S) @ join ([] # drop (Suc l) ?S)"
    using delete_text(1) [OF lf mod l, of 0 l "length (shown b ! l)"] l by (simp add: shown_raw(2) pos_of_def)
  then have d: "chs (buf_rope ?d) = join (take l ?S @ [] # drop (Suc l) ?S)" by (simp add: join_append)
  have lfd: "lf_only (chs (buf_rope ?d))" unfolding d using S(1) by (auto dest: in_set_takeD in_set_dropD)
  have rawd: "raw ?d = take l ?S @ [[]] @ drop (Suc l) ?S"
    unfolding d using split_join_line [OF S(2) sl, of "[]"] by simp
  have "chs (buf_rope b') = terminate (take l (raw ?d)) @ take 0 (raw ?d ! l) @ t @ join (drop 0 (raw ?d ! l) # drop (Suc l) (raw ?d))"
    unfolding b'_def using sl mod by (intro insert_text [OF lfd]) (simp_all add: rawd)
  also have "\<dots> = join (take l ?S @ t # drop (Suc l) ?S)"
    using sl by (cases "drop (Suc l) ?S") (simp_all add: rawd nth_append join_append join_Cons)
  finally show c: "chs (buf_rope b') = join (take l ?S @ t # drop (Suc l) ?S)" .
  show "raw b' = take l ?S @ split_lines t @ drop (Suc l) ?S"
    unfolding c by (rule split_join_line [OF S(2) sl])
  show "lf_only (chs (buf_rope b'))" unfolding c using S(1) t by (auto dest: in_set_takeD in_set_dropD)
  show "buf_modifiable b'" using mod by (simp add: b'_def)
qed

lemma substitute_loop_text:
  fixes s :: "'x substitution" and E U
  defines "f \<equiv> substitution_apply E U s"
  assumes "lf_only (chs (buf_rope b))" "buf_modifiable b" "sorted ls" "distinct ls" "\<forall>l \<in> set ls. l < length (shown b)"
    and "\<forall>l \<in> set ls. lf_only (f (shown b ! l))"
  shows "chs (buf_rope (snd (substitute_loop R E U s (rev ls) last_changed n b))) = join (map_lines f ls (raw b)) \<and>
    snd (fst (substitute_loop R E U s (rev ls) last_changed n b)) =
      n + length (filter (\<lambda>l. f (shown b ! l) \<noteq> shown b ! l) ls)"
  using assms(2-)
proof (induction ls arbitrary: b last_changed n rule: rev_induct)
  case (snoc l ls)
  note lf = \<open>lf_only (chs (buf_rope b))\<close> and mod = \<open>buf_modifiable b\<close>
  have l: "l < length (shown b)" and less: "\<forall>l' \<in> set ls. l' < l"
    using snoc.prems by (auto simp: sorted_append less_le)
  have sl: "l < length (raw b)" using l shown_raw(1) [of b] by simp
  have text_b: "buffer_line_text R b l = Some (shown b ! l)" using l by (simp add: line_text [OF lf])
  show ?case
  proof (cases "f (shown b ! l) = shown b ! l")
    case True
    have "raw b ! l = f (raw b ! l)" using True l by (simp add: shown_raw(2))
    then have "map_lines f (ls @ [l]) (raw b) = map_lines f ls (raw b)"
      using less by (intro nth_equalityI) (auto simp: map_lines_def)
    then show ?thesis
      using snoc.IH [of b last_changed n] snoc.prems True text_b by (simp add: f_def sorted_append)
  next
    case False
    define t where "t = f (shown b ! l)"
    define b' where "b' = buffer_insert_text_at R (snd (buffer_delete_range R b l 0 l (length (shown b ! l)))) l 0 t"
    have "lf_only t" using snoc.prems(6) by (simp add: t_def)
    note r = replace_line [OF lf mod l this, folded b'_def]
    have same: "raw b' ! i = raw b ! i" if "i < l" for i
      using that sl by (simp add: r(2) nth_append)
    have "l < length (raw b')" using sl split_lines_ne [of t] by (cases "split_lines t") (simp_all add: r(2))
    moreover have "length (raw b') \<le> Suc (length (shown b'))" unfolding raw_shown [of b'] by simp
    ultimately have shown_len: "l \<le> length (shown b')" by linarith
    have shown_b': "i < length (shown b')" "shown b' ! i = shown b ! i" if "i < l" for i
      using that l same [OF that] shown_raw(2) [of i b] shown_raw(2) [of i b'] shown_len by simp_all
    have "chs (buf_rope (snd (substitute_loop R E U s (rev ls) last' (n + 1) b'))) = join (map_lines f ls (raw b')) \<and>
      snd (fst (substitute_loop R E U s (rev ls) last' (n + 1) b')) =
        n + 1 + length (filter (\<lambda>l. f (shown b' ! l) \<noteq> shown b' ! l) ls)" for last'
      using snoc.prems less shown_b' r(3,4) by (intro snoc.IH) (auto simp: sorted_append)
    moreover have "filter (\<lambda>l. f (shown b' ! l) \<noteq> shown b' ! l) ls = filter (\<lambda>l. f (shown b ! l) \<noteq> shown b ! l) ls"
      using less shown_b' by (intro filter_cong) auto
    moreover have "map_lines f ls (raw b') = map_lines f ls (take l (raw b)) @ split_lines t @ drop (Suc l) (raw b)"
      using less sl unfolding r(2) by (intro map_lines_append) simp
    moreover have "map_lines f (ls @ [l]) (raw b) = map_lines f ls (take l (raw b)) @ t # drop (Suc l) (raw b)"
      using map_lines_snoc [OF less sl, of f] l by (simp add: t_def shown_raw(2))
    ultimately show ?thesis
      using False text_b by (simp add: Let_def f_def [symmetric] t_def [symmetric] b'_def [symmetric] join_split_inside)
  qed
qed (simp add: f_def)

end


section \<open>Substituting in a range\<close>

lemma buffer_record_parts:
  "snd (buffer_record f b) = (snd (f (b\<lparr>buf_recording := Some recording_session_default\<rparr>)))\<lparr>buf_recording := None\<rparr>"
  "fst (fst (buffer_record f b)) = fst (f (b\<lparr>buf_recording := Some recording_session_default\<rparr>))"
  by (auto simp: buffer_record_def buffer_end_recording_def Let_def split: prod.splits option.splits)

lemma rope_kept [simp]:
  "buf_rope (ed_buffer (cursor_to_first_non_blank R U l ed)) = buf_rope (ed_buffer ed)"
  "buf_rope (ed_buffer (ed\<lparr>ed_doc := snd (push_recorded_undo es p q (ed_doc ed))\<rparr>)) = buf_rope (ed_buffer ed)"
  "buf_rope (ed_buffer (upd_buffer (\<lambda>_. b) ed)) = buf_rope b"
  by (simp_all add: cursor_to_first_non_blank_def upd_buffer_def ed_buffer_def push_recorded_undo_def Let_def
      split: prod.splits option.splits)

lemma parse_substitution_buffer:
  "parse_substitution E U body ed = (res, ed') \<Longrightarrow> ed_buffer ed' = ed_buffer ed"
  by (auto simp: parse_substitution_def set_last_search_pattern_def Let_def split: if_splits option.splits prod.splits)

lemma substitute_lines_rope:
  "buf_rope (ed_buffer (snd (substitute_lines R E U s ls ed))) =
     buf_rope (snd (substitute_loop R E U s (rev ls) None 0 ((ed_buffer ed)\<lparr>buf_recording := Some recording_session_default\<rparr>)))"
  "fst (substitute_lines R E U s ls ed) =
     snd (fst (substitute_loop R E U s (rev ls) None 0 ((ed_buffer ed)\<lparr>buf_recording := Some recording_session_default\<rparr>)))"
  by (auto simp: substitute_lines_def Let_def case_prod_beta buffer_record_parts split: option.split)

text \<open>
  C28. \<open>:s\<close> replaces every line of its range by that line with its matches replaced, in one pass
  from the bottom, and leaves all other lines and the final line feed as they are, also where a
  replacement breaks a line into several. It fails exactly when no line changed and \<open>e\<close> was not given.
\<close>

theorem substitute_replaces_lines:
  assumes "lf_rope R chs" and "lf_only (ed_text chs ed)" and "buf_modifiable (ed_buffer ed)"
    and "parse_substitution E U (call_args x) ed = (Inr (s, flags), ed1)"
    and "rc CHR ''n'' \<notin> set flags" and "rc CHR ''c'' \<notin> set flags"
    and "call_range x = Some r" and "1 \<le> lr_start r" "lr_start r \<le> lr_end r" "lr_end r \<le> length (ed_lines chs ed)"
    and "\<forall>l \<in> set (take (lr_end r - (lr_start r - 1)) (drop (lr_start r - 1) (ed_lines chs ed))).
           lf_only (substitution_apply E U s l)"
  shows "let old = split_lines (ed_text chs ed); f = substitution_apply E U s;
      selected = take (lr_end r - (lr_start r - 1)) (drop (lr_start r - 1) old)
    in \<exists>ed'. ex_substitute R E U x ed =
        Some (if map f selected = selected \<and> rc CHR ''e'' \<notin> set flags
              then Failure (rs ''E486: Pattern not found: '' @ sub_pattern s) else Success None, ed') \<and>
      ed_text chs ed' = join (take (lr_start r - 1) old @ map f selected @ drop (lr_end r) old)"
proof -
  let ?b = "ed_buffer ed" and ?s = "lr_start r - 1" and ?e = "lr_end r" and ?f = "substitution_apply E U s"
  let ?b' = "?b\<lparr>buf_recording := Some recording_session_default\<rparr>" and ?old = "split_lines (ed_text chs ed)"
  let ?shown = "shown_lines (chs (buf_rope ?b'))"
  have b1: "ed_buffer ed1 = ?b" by (rule parse_substitution_buffer [OF assms(4)])
  have lf: "lf_only (chs (buf_rope ?b'))" using assms(2) by (simp add: ed_text_def)
  note lines = lf_rope.line_count [OF assms(1) lf] lf_rope.shown_raw [OF assms(1), where b = ?b']
  have e: "?e \<le> length ?shown" "?shown = ed_lines chs ed" using assms(10) by (simp_all add: ed_lines_def)
  have raw: "length ?shown \<le> length ?old" "\<And>l. l < length ?shown \<Longrightarrow> ?shown ! l = ?old ! l"
    using lines(2,3) by (simp_all add: ed_text_def)
  have range_ends: "line_range_indexes r = (?s, ?e - 1)" "min (?e - 1) (buffer_line_count R ?b - 1) = ?e - 1" "Suc (?e - 1) = ?e"
    using assms(8-10) lines(1) e by (auto simp: line_range_indexes_pos buffer_line_count_def)
  have sel: "take (?e - ?s) (drop ?s ?old) = map ((!) ?shown) [?s..<?e]"
    using e raw by (intro nth_equalityI) auto
  have sel': "take (?e - ?s) (drop ?s (ed_lines chs ed)) = map ((!) ?shown) [?s..<?e]"
    using e by (intro nth_equalityI) auto
  have lf_sel: "\<forall>l \<in> set [?s..<?e]. lf_only (?f (?shown ! l))"
    using assms(11) unfolding sel' by simp
  note loop = lf_rope.substitute_loop_text [OF assms(1) lf, where ls = "[?s..<?e]" and s = s and U = U and E = E and n = 0
      and last_changed = None]
  have inside: "\<forall>l \<in> set [?s..<?e]. l < length ?shown" using e by auto
  define ed' where "ed' = snd (substitute_lines R E U s [?s..<?e] ed1)"
  have changed: "fst (substitute_lines R E U s [?s..<?e] ed1) = length (filter (\<lambda>l. ?f (?shown ! l) \<noteq> ?shown ! l) [?s..<?e])"
    using loop inside lf_sel assms(3) by (simp add: substitute_lines_rope b1)
  have none: "(fst (substitute_lines R E U s [?s..<?e] ed1) = 0) = (map ?f (take (?e - ?s) (drop ?s ?old)) = take (?e - ?s) (drop ?s ?old))"
    unfolding changed sel by (auto simp: filter_empty_conv)
  have "ex_substitute R E U x ed =
      Some (if map ?f (take (?e - ?s) (drop ?s ?old)) = take (?e - ?s) (drop ?s ?old) \<and> rc CHR ''e'' \<notin> set flags
            then Failure (rs ''E486: Pattern not found: '' @ sub_pattern s) else Success None, ed')"
    unfolding none [symmetric] ed'_def
    using assms(3,5,6)
    by (simp only: ex_substitute_def assms(4,7) prod.case sum.case option.case b1 range_ends Let_def case_prod_beta
        fst_conv snd_conv cmd_err_def cmd_ok_silent_def if_False not_True_eq_False not_False_eq_True if_True split: if_split) simp
  moreover have "ed_text chs ed' = join (map_lines ?f [?s..<?e] ?old)"
    using loop inside lf_sel assms(3) by (simp add: ed'_def ed_text_def substitute_lines_rope b1)
  moreover have "map_lines ?f [?s..<?e] ?old = take ?s ?old @ map ?f (take (?e - ?s) (drop ?s ?old)) @ drop ?e ?old"
    using assms(8-10) e raw(1) by (intro map_lines_range) auto
  ultimately show ?thesis by (simp add: Let_def)
qed

text \<open>\<open>:1,2s/a/b/g\<close> on three lines.\<close>

theorem substitute_replaces_lines_witness:
  "\<exists>ed'. ex_substitute list_rope literal_regex ascii_unicode (sample_call (rs ''/a/bb/g'') 1 2)
      (sample_editor (rs ''aa'' @ [10] @ rs ''c'' @ [10] @ rs ''a'')) = Some (Success None, ed') \<and>
    ed_text (\<lambda>t. t) ed' = rs ''bbbb'' @ [10] @ rs ''c'' @ [10] @ rs ''a''"
proof -
  let ?ed = "sample_editor (rs ''aa'' @ [10] @ rs ''c'' @ [10] @ rs ''a'')"
  let ?s = "\<lparr>sub_regex = (rs ''a'', False), sub_replacement = [RepText (rs ''bb'')], sub_typed = rs ''bb'',
    sub_global = True, sub_pattern = rs ''a''\<rparr>"
  have parsed: "parse_substitution literal_regex ascii_unicode (call_args (sample_call (rs ''/a/bb/g'') 1 2)) ?ed =
      (Inr (?s, rs ''g''), set_last_search_pattern (rs ''a'') ?ed)"
    by (simp add: parse_substitution_def sample_call_def split_substitute_parts_def bad_delimiter_def ascii_unicode_def
        ascii_defs push_last_def compile_pattern_def literal_regex_def sample_editor_def sample_view_def replacement_parse_def
        ed_registers_def Let_def)
  have applied: "substitution_apply literal_regex ascii_unicode ?s (rs ''aa'') = rs ''bbbb''"
    "substitution_apply literal_regex ascii_unicode ?s (rs ''c'') = rs ''c''"
    by (simp_all add: substitution_apply_def literal_regex_def replacement_expand_def expand_chars_plain)
  show ?thesis
    using substitute_replaces_lines [of list_rope "\<lambda>t. t" ?ed literal_regex ascii_unicode "sample_call (rs ''/a/bb/g'') 1 2"
        ?s "rs ''g''" _ "\<lparr>lr_start = 1, lr_end = 2\<rparr>", OF lfr.lf_rope_axioms _ _ parsed] applied
    by (simp add: shown_lines_def)
qed

section \<open>Deleting the matching lines\<close>

lemma nths_below:
  assumes "\<forall>l' \<in> set ls. l' < length X"
  shows "nths (X @ Y) (- set ls) = nths X (- set ls) @ Y"
proof -
  have "nths Y {j. j + length X \<in> - set ls} = Y" using assms by (intro nths_all) force
  then show ?thesis by (simp add: nths_append)
qed

lemma nths_below_snoc:
  assumes "\<forall>l' \<in> set ls. l' < l" "l < length S"
  shows "nths S (- set (ls @ [l])) = nths (take l S) (- set ls) @ drop (Suc l) S"
proof -
  have len: "length (take l S) = l" using assms(2) by simp
  have "nths S (- set (ls @ [l])) = nths (take l S @ S ! l # drop (Suc l) S) (- set (ls @ [l]))"
    using id_take_nth_drop [OF assms(2)] by simp
  also have "\<dots> = nths (take l S) (- set (ls @ [l])) @ nths (S ! l # drop (Suc l) S) {j. j + l \<in> - set (ls @ [l])}"
    using assms(2) by (simp add: nths_append)
  also have "nths (S ! l # drop (Suc l) S) {j. j + l \<in> - set (ls @ [l])} = drop (Suc l) S"
    using assms(1) by (simp add: nths_Cons) (rule nths_all, force)
  also have "nths (take l S) (- set (ls @ [l])) = nths (take l S) (- set ls)"
    using assms(2) by (simp add: nths_def) (intro arg_cong [where f = "map fst"] filter_cong; auto simp: set_zip)
  finally show ?thesis .
qed

context lf_rope begin

lemma delete_one_line:
  assumes lf: "lf_only (chs (buf_rope b))" and mod: "buf_modifiable b" and l: "l < length (shown b)"
  shows "fst (buffer_delete_range R b l 0 (l + 1) 0) =
    shown b ! l @ (if Suc l < length (shown b) \<or> terminated b then [10] else [])"
proof -
  let ?S = "raw b" and ?t = "fst (buffer_delete_range R b l 0 (l + 1) 0)"
  have sl: "l < length ?S" using l shown_raw(1) [of b] by simp
  have "pos_of b l 0 \<le> pos_of b (l + 1) 0" using sl by (simp add: pos_of_def take_Suc_conv_app_nth)
  then have t: "?t @ (if l + 1 < length (shown b) then join (drop 0 (?S ! (l + 1)) # drop (Suc (l + 1)) ?S) else []) = join (drop l ?S)"
    using delete_text(2) [OF lf mod l, of 0 "l + 1" 0] sl by (simp add: Cons_nth_drop_Suc)
  have d: "drop l ?S = ?S ! l # drop (Suc l) ?S" using sl by (simp add: Cons_nth_drop_Suc)
  show ?thesis
  proof (cases "Suc l < length (shown b)")
    case True
    then have "Suc l < length ?S" using shown_raw(1) [of b] by simp
    then have e: "?S ! Suc l # drop (Suc (Suc l)) ?S = drop (Suc l) ?S" and ne: "drop (Suc l) ?S \<noteq> []"
      by (simp_all add: Cons_nth_drop_Suc)
    have "?t @ join (drop (Suc l) ?S) = (?S ! l @ [10]) @ join (drop (Suc l) ?S)"
      using t True unfolding d by (simp add: e join_Cons [OF ne])
    then show ?thesis using True shown_raw(2) [OF l] by simp
  next
    case False
    then have "drop (Suc l) (shown b) = []" "length (shown b) - Suc l = 0" using l by simp_all
    then have "drop (Suc l) (shown b @ (if terminated b then [[]] else [])) = (if terminated b then [[]] else [])"
      using l by simp
    then have "drop (Suc l) ?S = (if terminated b then [[]] else [])" by (simp only: raw_shown [of b])
    then show ?thesis using t False shown_raw(2) [OF l] unfolding d by simp
  qed
qed

lemma global_delete_loop_acc:
  "snd (global_delete_loop R ls acc b) = snd (global_delete_loop R ls [] b)"
  "concat (rev (fst (global_delete_loop R ls acc b))) = concat (rev (fst (global_delete_loop R ls [] b))) @ concat (rev acc)"
proof (induction ls arbitrary: acc b)
  case (Cons l ls)
  { case (1 acc b)
    obtain t b' where d: "buffer_delete_range R b l 0 (l + 1) 0 = (t, b')" by fastforce
    show ?case
      unfolding global_delete_loop.simps(2) d prod.case
      using Cons.IH(1) [of "acc @ [t]" b'] Cons.IH(1) [of acc b'] Cons.IH(1) [of "[t]" b'] by simp }
  { case (2 acc b)
    obtain t b' where d: "buffer_delete_range R b l 0 (l + 1) 0 = (t, b')" by fastforce
    show ?case
      unfolding global_delete_loop.simps(2) d prod.case
      using Cons.IH(2) [of "acc @ [t]" b'] Cons.IH(2) [of acc b'] Cons.IH(2) [of "[t]" b'] by simp }
qed simp_all

lemma global_delete_loop_lines:
  assumes "lf_only (chs (buf_rope b))" "buf_modifiable b" "sorted ls" "distinct ls" "\<forall>l \<in> set ls. l < length (shown b)"
  shows "shown (snd (global_delete_loop R (rev ls) [] b)) =
      (let kept = nths (shown b) (- set ls) in if kept = [] then [[]] else kept) \<and>
    concat (rev (fst (global_delete_loop R (rev ls) [] b))) @
      (if length (shown b) - 1 \<in> set ls \<and> \<not> terminated b then [10] else []) =
    terminate (map ((!) (shown b)) ls)"
  using assms
proof (induction ls arbitrary: b rule: rev_induct)
  case Nil
  have "shown b \<noteq> []" by simp
  then show ?case by (simp add: nths_all Let_def)
next
  case (snoc l ls)
  note lf = \<open>lf_only (chs (buf_rope b))\<close> and mod = \<open>buf_modifiable b\<close>
  have l: "l < length (shown b)" and less: "\<forall>l' \<in> set ls. l' < l"
    using snoc.prems by (auto simp: sorted_append less_le)
  define t b' where "t = fst (buffer_delete_range R b l 0 (Suc l) 0)" and "b' = snd (buffer_delete_range R b l 0 (Suc l) 0)"
  have tb: "buffer_delete_range R b l 0 (l + 1) 0 = (t, b')" by (simp add: t_def b'_def)
  note d = shown_delete [OF lf mod l, of "Suc l", folded b'_def, simplified]
  have t: "t = shown b ! l @ (if Suc l < length (shown b) \<or> terminated b then [10] else [])"
    unfolding t_def using delete_one_line [OF lf mod l] by simp
  have final: "length (shown b) - 1 \<in> set (ls @ [l]) \<longleftrightarrow> Suc l = length (shown b)" using l less by auto
  have run: "snd (global_delete_loop R (rev (ls @ [l])) [] b) = snd (global_delete_loop R (rev ls) [] b')"
    "concat (rev (fst (global_delete_loop R (rev (ls @ [l])) [] b))) = concat (rev (fst (global_delete_loop R (rev ls) [] b'))) @ t"
    using global_delete_loop_acc [of "rev ls" "[t]" b']
    unfolding rev.simps rev_append append_Cons append_Nil global_delete_loop.simps(2) tb prod.case by simp_all
  show ?case
  proof (cases "ls = []")
    case True
    have "nths (shown b) (- {l}) = take l (shown b) @ drop (Suc l) (shown b)"
      using nths_below_snoc [of "[]" l "shown b"] l by (simp add: nths_all)
    then show ?thesis using True run d(1) t l by (auto simp: Let_def)
  next
    case False
    then have pos: "0 < l" using less by (cases l) auto
    have shown_b': "shown b' = take l (shown b) @ drop (Suc l) (shown b)" using d(1) pos by simp
    have "\<forall>l' \<in> set ls. l' < length (shown b')" using less l by (auto simp: shown_b')
    note IH = snoc.IH [OF d(3) _ _ _ this]
    have len: "length (take l (shown b)) = l" using l by simp
    have "nths (shown b') (- set ls) = nths (take l (shown b)) (- set ls) @ drop (Suc l) (shown b)"
      unfolding shown_b' using less len by (intro nths_below) simp
    moreover have "nths (shown b) (- set (ls @ [l])) = nths (take l (shown b)) (- set ls) @ drop (Suc l) (shown b)"
      by (rule nths_below_snoc [OF less l])
    moreover have no: "\<not> (length (shown b') - 1 \<in> set ls \<and> \<not> terminated b')"
      using d(2) pos less l by (auto simp: shown_b' split: if_splits)
    moreover have maps: "map ((!) (shown b')) ls = map ((!) (shown b)) ls"
      using less l by (auto simp: shown_b' nth_append)
    moreover have "terminate (map ((!) (shown b)) (ls @ [l])) = terminate (map ((!) (shown b)) ls) @ shown b ! l @ [10]"
      by simp
    moreover have "t @ (if Suc l = length (shown b) \<and> \<not> terminated b then [10] else []) = shown b ! l @ [10]"
      using t l by auto
    ultimately show ?thesis
      using IH snoc.prems d(4) unfolding run final maps if_not_P [OF no] by (simp add: sorted_append)
  qed
qed

end

lemma nths_indexes: "nths L {i. P i} = map ((!) L) (filter P [0..<length L])"
proof (induction L rule: rev_induct)
  case (snoc x L)
  have "map ((!) (L @ [x])) (filter P [0..<length L]) = map ((!) L) (filter P [0..<length L])"
    by (auto simp: nth_append)
  then show ?case using snoc by (simp add: nths_append)
qed simp

lemma nths_index_cong: "(\<And>i. i < length L \<Longrightarrow> i \<in> A \<longleftrightarrow> i \<in> B) \<Longrightarrow> nths L A = nths L B"
proof -
  assume "\<And>i. i < length L \<Longrightarrow> i \<in> A \<longleftrightarrow> i \<in> B"
  then have "filter (\<lambda>i. i \<in> A) [0..<length L] = filter (\<lambda>i. i \<in> B) [0..<length L]" by (intro filter_cong) auto
  then show ?thesis
    using nths_indexes [of L "\<lambda>i. i \<in> A"] nths_indexes [of L "\<lambda>i. i \<in> B"] by simp
qed

lemma filter_upt_range:
  assumes "s \<le> e" "e \<le> n"
  shows "filter P [s..<e] = filter (\<lambda>i. s \<le> i \<and> i < e \<and> P i) [0..<n]"
proof -
  have "[0..<n] = [0..<s] @ [s..<e] @ [e..<n]"
    using assms upt_add_eq_append [of 0 s "e - s"] upt_add_eq_append [of 0 e "n - e"] by simp
  moreover have "filter (\<lambda>i. s \<le> i \<and> i < e \<and> P i) [s..<e] = filter P [s..<e]" by (rule filter_cong) auto
  ultimately show ?thesis by (auto simp: filter_empty_conv)
qed

context lf_rope begin

lemma global_lines_hits:
  assumes lf: "lf_only (chs (buf_rope b))" and r: "1 \<le> lr_start r" "lr_start r \<le> lr_end r" "lr_end r \<le> length (shown b)"
  shows "global_lines R E rx invert r b =
    filter (\<lambda>i. lr_start r \<le> i + 1 \<and> i + 1 \<le> lr_end r \<and> rx_is_match E rx (shown b ! i) \<noteq> invert) [0..<length (shown b)]"
proof -
  let ?s = "lr_start r - 1" and ?e = "lr_end r"
  have ends: "line_range_indexes r = (?s, ?e - 1)" "min (?e - 1) (buffer_line_count R b - 1) = ?e - 1" "Suc (?e - 1) = ?e"
    using r by (auto simp: line_range_indexes_pos line_count [OF lf])
  have "global_lines R E rx invert r b = filter (\<lambda>i. rx_is_match E rx (shown b ! i) \<noteq> invert) [?s..<?e]"
    unfolding global_lines_def ends prod.case Let_def using r(3)
    by (intro filter_cong) (auto simp: line_text [OF lf])
  also have "\<dots> = filter (\<lambda>i. ?s \<le> i \<and> i < ?e \<and> rx_is_match E rx (shown b ! i) \<noteq> invert) [0..<length (shown b)]"
    using r by (intro filter_upt_range) auto
  finally show ?thesis using r by (auto intro: filter_cong)
qed

end

lemma delete_register_kept:
  "ed_registers (cursor_to_first_non_blank R U l ed) = ed_registers ed"
  "ed_registers (ed\<lparr>ed_doc := snd (push_recorded_undo es p q (ed_doc ed))\<rparr>) = ed_registers ed"
  "ed_pending_register (upd_buffer f ed) = ed_pending_register ed"
  by (simp_all add: cursor_to_first_non_blank_def upd_buffer_def ed_registers_def push_recorded_undo_def Let_def
      split: prod.splits option.splits)

text \<open>
  C29. \<open>:g/pattern/d\<close> removes exactly the lines of its range that match (\<open>:g!\<close> and \<open>:v\<close>: those that
  do not), keeps all others in their order, and leaves the text of the removed lines, in their
  order, in the unnamed register.
\<close>

theorem global_delete_removes_matching:
  fixes x :: ex_call
  defines "invert \<equiv> call_bang x \<or> prefix ''v'' (call_name x)"
  assumes "lf_rope R chs" and "lf_only (ed_text chs ed)" and "buf_modifiable (ed_buffer ed)"
    and "split_global (uni_alphanumeric U) (call_args x) = Some (typed, command)" and "command \<noteq> []"
    and "pattern = (if typed = [] then last_search (storage (ed_registers ed)) else typed)" and "pattern \<noteq> []"
    and "compile_pattern E pattern (view_case (ed_view ed)) None = Some rx"
    and "call_range x = Some r" and "1 \<le> lr_start r" "lr_start r \<le> lr_end r" "lr_end r \<le> length (ed_lines chs ed)"
    and "parse_ex (uni_alphanumeric U) command = Inr sub" and "hd (ex_names (pc_command sub)) = ''d[elete]''"
    and "pc_range sub = None" and "pc_next sub = None" and "ed_pending_register ed = None"
    and "\<exists>i. lr_start r \<le> i + 1 \<and> i + 1 \<le> lr_end r \<and> rx_is_match E rx (ed_lines chs ed ! i) \<noteq> invert"
  shows "let old = ed_lines chs ed; hit = (\<lambda>i. lr_start r \<le> i + 1 \<and> i + 1 \<le> lr_end r \<and> rx_is_match E rx (old ! i) \<noteq> invert);
      kept = nths old {i. \<not> hit i}
    in \<exists>message ed' t. ex_global R E U C run x ed = Some (Success (Some message), ed') \<and>
      ed_lines chs ed' = (if kept = [] then [[]] else kept) \<and>
      register_value C (ed_registers ed') None = (t, Line) \<and>
      t @ (if hit (length old - 1) \<and> \<not> ends_with_char (ed_text chs ed) 10 then [10] else []) = terminate (nths old {i. hit i})"
proof -
  define ed1 where "ed1 = set_last_search_pattern pattern ed"
  let ?b = "ed_buffer ed" and ?b' = "(ed_buffer ed)\<lparr>buf_recording := Some recording_session_default\<rparr>"
  define old where "old = ed_lines chs ed"
  define hit where "hit i \<longleftrightarrow> lr_start r \<le> i + 1 \<and> i + 1 \<le> lr_end r \<and> rx_is_match E rx (old ! i) \<noteq> invert" for i
  define ls where "ls = filter hit [0..<length old]"
  define ed' where "ed' = snd (global_delete R U C ls ed1)"
  have ed1: "ed_buffer ed1 = ?b" "ed_pending_register ed1 = None"
    using assms(18) by (simp_all add: ed1_def set_last_search_pattern_def upd_registers_def ed_buffer_def)
  have lf: "lf_only (chs (buf_rope ?b'))" "lf_only (chs (buf_rope ?b))" using assms(3) by (simp_all add: ed_text_def)
  have old: "shown_lines (chs (buf_rope ?b')) = old" "shown_lines (chs (buf_rope ?b)) = old" by (simp_all add: old_def ed_lines_def)
  have found: "global_lines R E rx invert r ?b = ls"
    using lf_rope.global_lines_hits [OF assms(2) lf(2) assms(11,12)] assms(13)
    by (simp add: old ls_def hit_def [abs_def] old_def [symmetric])
  obtain i where i: "hit i" using assms(19) by (auto simp: hit_def old_def)
  then have "i < length old" using assms(13) by (simp add: hit_def old_def)
  then have ne: "ls \<noteq> []" using i by (auto simp: ls_def filter_empty_conv)
  have in_ls: "l \<in> set ls \<longleftrightarrow> l < length old \<and> hit l" for l by (auto simp: ls_def)
  have "sorted ls" "distinct ls" by (simp_all add: ls_def sorted_wrt_filter)
  then have loop: "shown_lines (chs (buf_rope (snd (global_delete_loop R (rev ls) [] ?b')))) =
      (let kept = nths old (- set ls) in if kept = [] then [[]] else kept)"
    "concat (rev (fst (global_delete_loop R (rev ls) [] ?b'))) @
      (if length old - 1 \<in> set ls \<and> \<not> ends_with_char (ed_text chs ed) 10 then [10] else []) = terminate (map ((!) old) ls)"
    using lf_rope.global_delete_loop_lines [OF assms(2) lf(1), of ls] assms(4) in_ls
    by (simp_all add: old lf_rope.terminated_def [OF assms(2)] ed_text_def)
  have kept: "nths old (- set ls) = nths old {i. \<not> hit i}" using in_ls by (intro nths_index_cong) auto
  have "old \<noteq> []" by (simp add: old_def ed_lines_def)
  then have final: "length old - 1 \<in> set ls \<longleftrightarrow> hit (length old - 1)" by (simp add: in_ls)
  define t where "t = concat (rev (fst (global_delete_loop R (rev ls) [] ?b')))"
  have "ex_global R E U C run x ed = Some (global_delete R U C ls ed1)"
    unfolding ex_global_def global_run_def Let_def assms(5) option.case prod.case assms(7) [symmetric] assms(9)
      ed1_def [symmetric] assms(10) ed1 invert_def [symmetric] found
    using ne assms(6,8,14-17) by simp
  moreover have "fst (global_delete R U C ls ed1) = cmd_ok (rs ''Deleted '' @ nat_digits 10 (length ls) @ rs '' line(s)'')"
    using assms(4) by (simp add: global_delete_def ed1 Let_def case_prod_beta)
  ultimately have run: "\<exists>message. ex_global R E U C run x ed = Some (Success (Some message), ed')"
    by (simp add: ed'_def cmd_ok_def prod_eq_iff)
  have "buf_rope (ed_buffer ed') = buf_rope (snd (global_delete_loop R (rev ls) [] ?b'))"
    using assms(4) by (simp add: ed'_def global_delete_def ed1 Let_def case_prod_beta buffer_record_parts)
  then have lines: "ed_lines chs ed' = (let kept = nths old {i. \<not> hit i} in if kept = [] then [[]] else kept)"
    using loop(1) by (simp add: ed_lines_def kept)
  have "register_value C (ed_registers ed') None = (t, Line)"
    using assms(4) by (simp add: ed'_def global_delete_def ed1 Let_def case_prod_beta buffer_record_parts delete_register_kept
        deleted_to_unnamed t_def)
  moreover have "t @ (if hit (length old - 1) \<and> \<not> ends_with_char (ed_text chs ed) 10 then [10] else []) = terminate (nths old {i. hit i})"
    using loop(2) unfolding final t_def [symmetric] by (simp only: nths_indexes ls_def)
  ultimately show ?thesis
    using run lines unfolding Let_def old_def [symmetric] hit_def [symmetric] by blast
qed

text \<open>\<open>:1,3g/a/d\<close> on three lines.\<close>

theorem global_delete_removes_matching_witness:
  "\<exists>message ed'. ex_global list_rope literal_regex ascii_unicode memory_clipboard (\<lambda>_ _. None) (sample_call (rs ''/a/d'') 1 3)
      (sample_editor (rs ''a'' @ [10] @ rs ''b'' @ [10] @ rs ''ca'')) = Some (Success (Some message), ed') \<and>
    ed_lines (\<lambda>t. t) ed' = [rs ''b''] \<and>
    register_value memory_clipboard (ed_registers ed') None = (rs ''a'' @ [10] @ rs ''ca'', Line)"
proof -
  let ?ed = "sample_editor (rs ''a'' @ [10] @ rs ''b'' @ [10] @ rs ''ca'')" and ?x = "sample_call (rs ''/a/d'') 1 3"
  have "lookup_command (rs ''d'') \<noteq> None \<and> hd (ex_names (the (lookup_command (rs ''d'')))) = ''d[elete]'' \<and>
      ex_args (the (lookup_command (rs ''d''))) = ArgText \<and> ex_bang (the (lookup_command (rs ''d''))) = False"
    by (simp add: lookup_command_def commands_def text_commands_def accepts_def ex_builders name_matches_def split_once_def
        trim_end_matches_def)
  then obtain d where d: "lookup_command (rs ''d'') = Some d" "hd (ex_names d) = ''d[elete]''" "ex_args d = ArgText" "\<not> ex_bang d"
    by force
  have "parse_ex (uni_alphanumeric ascii_unicode) (rs ''d'') =
      Inr \<lparr>pc_range = None, pc_command = d, pc_bang = False, pc_args = [], pc_next = None\<rparr>"
    using d by (simp add: parse_ex_def parse_eval trim_colons_def name_length_def parse_bang_def split_args_def
        split_at_bar_def trim_end_def is_whitespace_def is_ascii_alphabetic_def is_ascii_lowercase_def is_ascii_uppercase_def)
  then obtain sub where sub: "parse_ex (uni_alphanumeric ascii_unicode) (rs ''d'') = Inr sub"
    "hd (ex_names (pc_command sub)) = ''d[elete]''" "pc_range sub = None" "pc_next sub = None"
    using d(2) by auto
  have split: "split_global (uni_alphanumeric ascii_unicode) (call_args ?x) = Some (rs ''a'', rs ''d'')"
    by (simp add: split_global_def bad_delimiter_def ascii_unicode_def ascii_defs str_trim_def is_whitespace_def)
  have lines: "ed_lines (\<lambda>t. t) ?ed = [rs ''a'', rs ''b'', rs ''ca'']" by (simp add: shown_lines_def)
  have built: "compile_pattern literal_regex (rs ''a'') (view_case (ed_view ?ed)) None = Some (rs ''a'', False)"
    by (simp add: compile_pattern_def literal_regex_def sample_editor_def sample_view_def)
  have hits: "rx_is_match literal_regex (rs ''a'', False) (rs ''a'')" "\<not> rx_is_match literal_regex (rs ''a'', False) (rs ''b'')"
    "rx_is_match literal_regex (rs ''a'', False) (rs ''ca'')"
    by (simp_all add: literal_regex_def)
  have pending: "ed_pending_register ?ed = None" by (simp add: sample_editor_def)
  have x: "call_range ?x = Some \<lparr>lr_start = 1, lr_end = 3\<rparr>" "call_bang ?x = False" "call_name ?x = []"
    by (simp_all add: sample_call_def)
  have "\<exists>i. 1 \<le> i + 1 \<and> i + 1 \<le> 3 \<and> rx_is_match literal_regex (rs ''a'', False) ([rs ''a'', rs ''b'', rs ''ca''] ! i) \<noteq> False"
    by (rule exI [of _ 0]) (use hits in simp)
  then show ?thesis
    using global_delete_removes_matching [where R = list_rope and chs = "\<lambda>t. t" and ed = ?ed and U = ascii_unicode and x = ?x
        and typed = "rs ''a''" and command = "rs ''d''" and pattern = "rs ''a''" and E = literal_regex and rx = "(rs ''a'', False)"
        and r = "\<lparr>lr_start = 1, lr_end = 3\<rparr>" and sub = sub and C = memory_clipboard and run = "\<lambda>_ _. None",
        OF lfr.lf_rope_axioms _ _ split _ _ _ built x(1) _ _ _ sub pending] hits
    unfolding lines x Let_def
    by (simp add: nths_indexes numeral_3_eq_3 ends_with_char_def)
qed

end
