(* ===== verification/SubstituteConfirm.thy ===== *)
theory SubstituteConfirm
  imports ExPatternLaws Macros
begin

text \<open>
  The confirmation of a substitution, \<open>:s/../../c\<close> (ovim-core/src/editor/ui_features.rs and the keys
  of editor/input/substitute_mode.rs): every match is shown in turn and replaced or skipped, while
  the positions of those still to come follow the replacements made before them.

  A match is its line, the columns of its start and end, and its replacement. The status message of
  an unknown key is not modelled. Once the confirmation has ended, keys go to another handler.
\<close>

section \<open>The session\<close>

type_synonym confirm_match = "nat \<times> nat \<times> nat \<times> rstr"

definition end_substitute_confirm :: "('r, 'f, 'a, 'g) ex_editor \<Rightarrow> ('r, 'f, 'a, 'g) ex_editor" where
  "end_substitute_confirm ed = ed\<lparr>ed_matches := [], ed_match_index := 0, ed_confirming := False\<rparr>"

text \<open>The end of \<open>confirm_substitute\<close> and \<open>skip_substitute\<close>: the next match, or the end of the session.\<close>

definition next_substitute_match :: "('r, 'f, 'a, 'g) ex_editor \<Rightarrow> ('r, 'f, 'a, 'g) ex_editor" where
  "next_substitute_match ed =
     (let ed = ed\<lparr>ed_match_index := ed_match_index ed + 1\<rparr>
      in if ed_match_index ed \<ge> length (ed_matches ed) then end_substitute_confirm ed
         else case ed_matches ed ! ed_match_index ed of
                (line, col, _, _) \<Rightarrow> upd_buffer (\<lambda>b. b\<lparr>buf_cursor := cursor_set_position (buf_cursor b) line col\<rparr>) ed)"

text \<open>Where a later match is after a match was replaced.\<close>

fun follow_confirmed :: "confirm_match \<Rightarrow> confirm_match \<Rightarrow> confirm_match" where
  "follow_confirmed (line, start_col, end_col, replacement) (l, s, e, r) =
     (let newlines = line_feeds replacement
      in if newlines = 0 then
           (let delta = int (length replacement) - (int end_col - int start_col)
            in if delta \<noteq> 0 \<and> l = line then (l, nat (max (int s + delta) 0), nat (max (int e + delta) 0), r)
               else (l, s, e, r))
         else let last_seg_len = length (takeWhile (\<lambda>c. c \<noteq> 10) (rev replacement))
              in if l = line then
                   (let len = e - s; s = last_seg_len + (s - end_col) in (line + newlines, s, s + len, r))
                 else if l > line then (l + newlines, s, e, r)
                 else (l, s, e, r))"

definition replace_match :: "'r rope_ops \<Rightarrow> confirm_match \<Rightarrow> 'r buffer \<Rightarrow> 'r buffer" where
  "replace_match R m b =
     (case m of (line, start_col, end_col, replacement) \<Rightarrow>
        (let b = snd (buffer_delete_range R b line start_col line end_col)
         in if replacement \<noteq> [] then buffer_insert_text_at R b line start_col replacement else b))"

definition confirm_substitute :: "'r rope_ops \<Rightarrow> ('r, 'f, 'a, 'g) ex_editor \<Rightarrow> ('r, 'f, 'a, 'g) ex_editor" where
  "confirm_substitute R ed =
     (let i = ed_match_index ed; ms = ed_matches ed
      in if i < length ms then
           (let m = ms ! i;
                (_, ed) = ed_record (\<lambda>b. ((), replace_match R m b)) ed
            in next_substitute_match
                 (ed\<lparr>ed_matches := take (i + 1) ms @ map (follow_confirmed m) (drop (i + 1) ms)\<rparr>))
         else ed)"

definition skip_substitute :: "('r, 'f, 'a, 'g) ex_editor \<Rightarrow> ('r, 'f, 'a, 'g) ex_editor" where
  "skip_substitute ed = next_substitute_match ed"

lemma next_match_measure:
  "ed_match_index ed < length (ed_matches ed) \<Longrightarrow>
   length (ed_matches (next_substitute_match ed)) - ed_match_index (next_substitute_match ed) <
     length (ed_matches ed) - ed_match_index ed"
  by (auto simp: next_substitute_match_def end_substitute_confirm_def upd_buffer_def Let_def split: prod.splits)

lemma ed_record_fields [simp]:
  "ed_matches (snd (ed_record f ed)) = ed_matches ed" "ed_match_index (snd (ed_record f ed)) = ed_match_index ed"
  "ed_confirming (snd (ed_record f ed)) = ed_confirming ed"
  by (simp_all add: ed_record_def split: prod.splits)

lemma confirm_measure:
  assumes "ed_match_index ed < length (ed_matches ed)"
  shows "length (ed_matches (confirm_substitute R ed)) - ed_match_index (confirm_substitute R ed) <
     length (ed_matches ed) - ed_match_index ed"
proof -
  define m where "m = ed_matches ed ! ed_match_index ed"
  define ed1 where "ed1 = (snd (ed_record (\<lambda>b. ((), replace_match R m b)) ed))
    \<lparr>ed_matches := take (ed_match_index ed + 1) (ed_matches ed) @ map (follow_confirmed m) (drop (ed_match_index ed + 1) (ed_matches ed))\<rparr>"
  have "confirm_substitute R ed = next_substitute_match ed1"
    using assms by (simp add: confirm_substitute_def ed1_def m_def Let_def case_prod_beta)
  moreover have "length (ed_matches ed1) = length (ed_matches ed)" "ed_match_index ed1 = ed_match_index ed"
    using assms by (simp_all add: ed1_def)
  ultimately show ?thesis using next_match_measure [of ed1] assms by simp
qed

function confirm_all_substitutes :: "'r rope_ops \<Rightarrow> ('r, 'f, 'a, 'g) ex_editor \<Rightarrow> ('r, 'f, 'a, 'g) ex_editor" where
  "confirm_all_substitutes R ed =
     (if ed_match_index ed < length (ed_matches ed) then confirm_all_substitutes R (confirm_substitute R ed) else ed)"
  by pat_completeness auto

termination
  by (relation "measure (\<lambda>(R, ed). length (ed_matches ed) - ed_match_index ed)") (simp_all add: confirm_measure)

declare confirm_all_substitutes.simps [simp del]

definition confirm_substitute_and_quit :: "'r rope_ops \<Rightarrow> ('r, 'f, 'a, 'g) ex_editor \<Rightarrow> ('r, 'f, 'a, 'g) ex_editor" where
  "confirm_substitute_and_quit R ed = end_substitute_confirm (confirm_substitute R ed)"

definition handle_substitute_confirm_mode ::
  "'r rope_ops \<Rightarrow> key_event \<Rightarrow> ('r, 'f, 'a, 'g) ex_editor \<Rightarrow> ('r, 'f, 'a, 'g) ex_editor" where
  "handle_substitute_confirm_mode R k ed =
     (case key_code k of
        KeyChar c \<Rightarrow>
          (if c = rc CHR ''y'' \<or> c = rc CHR ''Y'' then confirm_substitute R ed
           else if c = rc CHR ''n'' \<or> c = rc CHR ''N'' then skip_substitute ed
           else if c = rc CHR ''a'' \<or> c = rc CHR ''A'' then confirm_all_substitutes R ed
           else if c = rc CHR ''q'' \<or> c = rc CHR ''Q'' then end_substitute_confirm ed
           else if c = rc CHR ''l'' \<or> c = rc CHR ''L'' then confirm_substitute_and_quit R ed
           else ed)
      | KeyEsc \<Rightarrow> end_substitute_confirm ed
      | _ \<Rightarrow> ed)"

text \<open>The keys typed while the session lasts.\<close>

fun confirm_keys :: "'r rope_ops \<Rightarrow> key_event list \<Rightarrow> ('r, 'f, 'a, 'g) ex_editor \<Rightarrow> ('r, 'f, 'a, 'g) ex_editor" where
  "confirm_keys R [] ed = ed"
| "confirm_keys R (k # ks) ed =
     (if ed_confirming ed then confirm_keys R ks (handle_substitute_confirm_mode R k ed) else ed)"

section \<open>Lines and columns of a prefix\<close>

text \<open>The line and column at which a text ends.\<close>

definition end_of :: "rstr \<Rightarrow> nat \<times> nat" where
  "end_of t = (line_feeds t, length (takeWhile (\<lambda>c. c \<noteq> 10) (rev t)))"

lemma line_feeds_simps [simp]:
  "line_feeds [] = 0" "line_feeds (s @ t) = line_feeds s + line_feeds t" "line_feeds t = 0 \<longleftrightarrow> 10 \<notin> set t"
  "line_feeds (c # t) = (if c = 10 then 1 else 0) + line_feeds t"
  by (auto simp: line_feeds_def filter_empty_conv)

lemma end_of_append: "10 \<in> set t \<Longrightarrow> end_of (s @ t) = (line_feeds s + line_feeds t, snd (end_of t))"
  by (simp add: end_of_def takeWhile_append1)

lemma end_of_line: "10 \<notin> set t \<Longrightarrow> end_of (s @ t) = (fst (end_of s), snd (end_of s) + length t)"
proof -
  assume t: "10 \<notin> set t"
  then have "takeWhile (\<lambda>c. c \<noteq> 10) (rev t @ rev s) = rev t @ takeWhile (\<lambda>c. c \<noteq> 10) (rev s)"
    by (intro takeWhile_append2) auto
  then show ?thesis using t by (simp add: end_of_def)
qed

text \<open>
  The correction of a later match is the change of its line and column when the text before it
  changes from \<open>before @ old @ between\<close> to \<open>before @ new @ between\<close>.
\<close>

lemma follow_confirmed_moves:
  assumes "end_of before = (line, s0)" "10 \<notin> set old" "end_of (before @ old @ between) = (l, s)" "s \<le> e"
  shows "\<exists>l' s'. follow_confirmed (line, s0, s0 + length old, new) (l, s, e, r) = (l', s', s' + (e - s), r) \<and>
    end_of (before @ new @ between) = (l', s')"
proof (cases "10 \<in> set between")
  case True
  then have ends: "end_of (before @ old @ between) = (line_feeds before + line_feeds between, snd (end_of between))"
    "end_of (before @ new @ between) = (line_feeds before + line_feeds new + line_feeds between, snd (end_of between))"
    using end_of_append [of between "before @ old"] end_of_append [of between "before @ new"] assms(2) by simp_all
  have "0 < line_feeds between" using True line_feeds_simps(3) [of between] by (metis neq0_conv)
  then have "line < l" using ends(1) assms(1,3) by (simp add: end_of_def)
  then show ?thesis using ends assms by (auto simp: Let_def)
next
  case False
  then have ends: "l = line" "s = s0 + length old + length between"
    using assms(1,3) end_of_line [of "old @ between" before] assms(2) by simp_all
  show ?thesis
  proof (cases "10 \<in> set new")
    case True
    then have "0 < line_feeds new" using line_feeds_simps(3) [of new] by (metis neq0_conv)
    moreover have "end_of (before @ new @ between) =
        (line_feeds before + line_feeds new, length (takeWhile (\<lambda>c. c \<noteq> 10) (rev new)) + length between)"
      using end_of_line [OF False, of "before @ new"] end_of_append [OF True, of before] by (simp add: end_of_def)
    ultimately show ?thesis using ends assms(1,4) True by (auto simp: Let_def end_of_def)
  next
    case new: False
    then have "end_of (before @ new @ between) = (line, s0 + length new + length between)"
      using end_of_line [of "new @ between" before] False assms(1) by simp
    then show ?thesis using ends assms(4) new by (auto simp: Let_def)
  qed
qed

lemma split_prefix:
  "\<exists>ls x. unbroken ls \<and> 10 \<notin> set x \<and> A = terminate ls @ x \<and> end_of A = (length ls, length x) \<and>
    split_lines (A @ B) = ls @ (x @ hd (split_lines B)) # tl (split_lines B)"
proof -
  obtain ls x where s: "split_lines A = ls @ [x]" by (cases "split_lines A" rule: rev_cases) auto
  then have u: "unbroken ls" "10 \<notin> set x" using unbroken_split [of A] by simp_all
  have A: "A = terminate ls @ x" using join_split [of A] s by (simp add: join_append)
  have "line_feeds (terminate ls) = length ls" using u(1) by (induction ls) simp_all
  moreover have "snd (end_of (terminate ls)) = 0"
    by (cases ls rule: rev_cases) (simp_all add: end_of_def)
  ultimately have "end_of A = (length ls, length x)"
    using end_of_line [OF u(2), of "terminate ls"] by (simp add: A end_of_def)
  moreover have "split_lines (x @ B) = (x @ hd (split_lines B)) # tl (split_lines B)"
    using u(2) by (induction x) simp_all
  then have "split_lines (A @ B) = ls @ (x @ hd (split_lines B)) # tl (split_lines B)"
    using split_terminate_append [OF u(1), of "x @ B"] by (simp add: A)
  ultimately show ?thesis using u A by blast
qed

lemma hd_split_line: "10 \<notin> set Y \<Longrightarrow> hd (split_lines (Y @ Z)) = Y @ hd (split_lines Z) \<and> tl (split_lines (Y @ Z)) = tl (split_lines Z)"
  by (induction Y) simp_all

context lf_rope begin

lemma not_shown_empty: "l < length (raw b) \<Longrightarrow> \<not> l < length (shown b) \<Longrightarrow> raw b ! l = []"
  unfolding raw_shown [of b] by (auto simp: nth_append less_Suc_eq split: if_splits)

lemma delete_span:
  assumes lf: "lf_only (chs (buf_rope b))" and mod: "buf_modifiable b"
    and t: "chs (buf_rope b) = A @ Y @ Z" "10 \<notin> set Y" "end_of A = (l, s)"
  shows "chs (buf_rope (snd (buffer_delete_range R b l s l (s + length Y)))) = A @ Z"
proof -
  obtain ls x where A: "A = terminate ls @ x" "l = length ls" "s = length x"
    "raw b = ls @ (x @ hd (split_lines (Y @ Z))) # tl (split_lines (Y @ Z))"
    using split_prefix [of A "Y @ Z"] t(1,3) by auto
  then have raw: "raw b ! l = x @ Y @ hd (split_lines Z)" "drop (Suc l) (raw b) = tl (split_lines Z)" "take l (raw b) = ls"
    "l < length (raw b)"
    using hd_split_line [OF t(2), of Z] by (simp_all add: nth_append)
  show ?thesis
  proof (cases "l < length (shown b)")
    case True
    have "chs (buf_rope (snd (buffer_delete_range R b l s l (s + length Y)))) =
        terminate (take l (raw b)) @ take s (raw b ! l) @
        (if l < length (shown b) then join (drop (s + length Y) (raw b ! l) # drop (Suc l) (raw b)) else [])"
      using True A(2,3) raw(1) by (intro delete_text(1) [OF lf mod]) (auto simp: pos_of_def)
    also have "\<dots> = A @ join (split_lines Z)"
      using True A(1,3) raw by simp
    finally show ?thesis by simp
  next
    case False
    then have "x @ Y @ hd (split_lines Z) = []" using not_shown_empty [OF raw(4)] raw(1) by simp
    then show ?thesis
      using False t(1) mod by (simp add: buffer_delete_range_def buffer_accepts_edits_def line_count [OF lf])
  qed
qed

lemma insert_span:
  assumes lf: "lf_only (chs (buf_rope b))" and mod: "buf_modifiable b"
    and t: "chs (buf_rope b) = A @ Z" "end_of A = (l, s)"
  shows "chs (buf_rope (buffer_insert_text_at R b l s u)) = A @ u @ Z"
proof -
  obtain ls x where A: "A = terminate ls @ x" "l = length ls" "s = length x"
    "raw b = ls @ (x @ hd (split_lines Z)) # tl (split_lines Z)"
    using split_prefix [of A Z] t by auto
  then have raw: "raw b ! l = x @ hd (split_lines Z)" "drop (Suc l) (raw b) = tl (split_lines Z)" "take l (raw b) = ls"
    "l < length (raw b)"
    by (simp_all add: nth_append)
  have "s \<le> (if l < length (shown b) then length (raw b ! l) else 0)"
    using not_shown_empty [OF raw(4)] raw(1) A(3) by auto
  then have "chs (buf_rope (buffer_insert_text_at R b l s u)) =
      terminate (take l (raw b)) @ take s (raw b ! l) @ u @ join (drop s (raw b ! l) # drop (Suc l) (raw b))"
    by (rule insert_text [OF lf mod raw(4)])
  also have "\<dots> = A @ u @ join (split_lines Z)" using A(1,3) raw by simp
  finally show ?thesis by simp
qed

lemma replace_match_text:
  assumes lf: "lf_only (chs (buf_rope b))" and mod: "buf_modifiable b"
    and t: "chs (buf_rope b) = A @ Y @ Z" "10 \<notin> set Y" "end_of A = (l, s)"
  shows "chs (buf_rope (replace_match R (l, s, s + length Y, u) b)) = A @ u @ Z"
    and "buf_modifiable (replace_match R (l, s, s + length Y, u) b)"
proof -
  let ?d = "snd (buffer_delete_range R b l s l (s + length Y))"
  have d: "chs (buf_rope ?d) = A @ Z" by (rule delete_span [OF lf mod t])
  moreover have "lf_only (chs (buf_rope ?d))" unfolding d using lf by (simp add: t(1))
  moreover have "buf_modifiable ?d" using mod by simp
  ultimately show "chs (buf_rope (replace_match R (l, s, s + length Y, u) b)) = A @ u @ Z"
    using insert_span [of ?d A Z l s u] t(3) by (simp add: replace_match_def Let_def)
  show "buf_modifiable (replace_match R (l, s, s + length Y, u) b)"
    using mod by (simp add: replace_match_def Let_def)
qed

end


section \<open>What the answers mean\<close>

text \<open>
  A text cut at its matches: gap, matched text and replacement, in order. \<open>located\<close> says that a list
  of matches gives the line and columns of each matched text, after the text \<open>before\<close>.
\<close>

type_synonym cut = "rstr \<times> rstr \<times> rstr"

definition old_text :: "cut list \<Rightarrow> rstr" where
  "old_text cuts = concat (map (\<lambda>(gap, old, new). gap @ old) cuts)"

definition new_text :: "cut list \<Rightarrow> rstr" where
  "new_text cuts = concat (map (\<lambda>(gap, old, new). gap @ new) cuts)"

fun located :: "rstr \<Rightarrow> cut list \<Rightarrow> confirm_match list \<Rightarrow> bool" where
  "located before [] [] \<longleftrightarrow> True"
| "located before ((gap, old, new) # cuts) ((l, s, e, r) # ms) \<longleftrightarrow>
     end_of (before @ gap) = (l, s) \<and> 10 \<notin> set old \<and> e = s + length old \<and> r = new \<and>
     located (before @ gap @ old) cuts ms"
| "located before _ _ \<longleftrightarrow> False"

datatype answer = Yes | No | All | Quit | Final | Other

definition answer_of :: "key_event \<Rightarrow> answer" where
  "answer_of k =
     (case key_code k of
        KeyChar c \<Rightarrow> if c \<in> {rc CHR ''y'', rc CHR ''Y''} then Yes else if c \<in> {rc CHR ''n'', rc CHR ''N''} then No
          else if c \<in> {rc CHR ''a'', rc CHR ''A''} then All else if c \<in> {rc CHR ''q'', rc CHR ''Q''} then Quit
          else if c \<in> {rc CHR ''l'', rc CHR ''L''} then Final else Other
      | KeyEsc \<Rightarrow> Quit
      | _ \<Rightarrow> Other)"

text \<open>The text the answers ask for, and whether the session still waits for one.\<close>

fun answered :: "key_event list \<Rightarrow> cut list \<Rightarrow> rstr" where
  "answered ks [] = []"
| "answered [] cuts = old_text cuts"
| "answered (k # ks) ((gap, old, new) # cuts) =
     (case answer_of k of
        Yes \<Rightarrow> gap @ new @ answered ks cuts
      | No \<Rightarrow> gap @ old @ answered ks cuts
      | All \<Rightarrow> new_text ((gap, old, new) # cuts)
      | Quit \<Rightarrow> old_text ((gap, old, new) # cuts)
      | Final \<Rightarrow> gap @ new @ old_text cuts
      | Other \<Rightarrow> answered ks ((gap, old, new) # cuts))"

fun waiting :: "key_event list \<Rightarrow> nat \<Rightarrow> bool" where
  "waiting ks 0 \<longleftrightarrow> False"
| "waiting [] n \<longleftrightarrow> True"
| "waiting (k # ks) (Suc n) \<longleftrightarrow>
     (case answer_of k of Yes \<Rightarrow> waiting ks n | No \<Rightarrow> waiting ks n | Other \<Rightarrow> waiting ks (Suc n) | _ \<Rightarrow> False)"

lemma cut_texts [simp]:
  "old_text [] = []" "new_text [] = []"
  "old_text ((gap, old, new) # cuts) = gap @ old @ old_text cuts"
  "new_text ((gap, old, new) # cuts) = gap @ new @ new_text cuts"
  by (simp_all add: old_text_def new_text_def)

lemma located_length: "located before cuts ms \<Longrightarrow> length ms = length cuts"
  by (induction before cuts ms rule: located.induct) auto

lemma located_moves:
  assumes "end_of before = (line, s0)" "10 \<notin> set old"
  shows "located (before @ old @ between) cuts ms \<Longrightarrow>
    located (before @ new @ between) cuts (map (follow_confirmed (line, s0, s0 + length old, new)) ms)"
proof (induction cuts arbitrary: between ms)
  case (Cons c cuts)
  obtain g o' n where c: "c = (g, o', n)" by (cases c) auto
  from Cons.prems c obtain l s e ms' where m: "ms = (l, s, e, n) # ms'" and
    h: "end_of (before @ old @ between @ g) = (l, s)" "10 \<notin> set o'" "e = s + length o'"
      "located (before @ old @ between @ g @ o') cuts ms'"
    by (cases "(before @ old @ between, c # cuts, ms)" rule: located.cases) auto
  obtain l' s' where f: "follow_confirmed (line, s0, s0 + length old, new) (l, s, e, n) = (l', s', s' + (e - s), n)"
    "end_of (before @ new @ between @ g) = (l', s')"
    using follow_confirmed_moves [OF assms h(1), of e new n] h(3) by auto
  have "located (before @ new @ between @ g @ o') cuts (map (follow_confirmed (line, s0, s0 + length old, new)) ms')"
    using Cons.IH [of "between @ g @ o'" ms'] h(4) by simp
  then show ?case using m c f h(2,3) by (simp del: follow_confirmed.simps)
qed (auto elim: located.elims)

section \<open>The invariant of the session\<close>

definition cuts_ok :: "cut list \<Rightarrow> bool" where
  "cuts_ok cuts \<longleftrightarrow> (\<forall>(gap, old, new) \<in> set cuts. lf_only new)"

definition confirm_state ::
  "('r \<Rightarrow> rstr) \<Rightarrow> rstr \<Rightarrow> cut list \<Rightarrow> rstr \<Rightarrow> ('r, 'f, 'a, 'g) ex_editor \<Rightarrow> bool" where
  "confirm_state chs before cuts rest ed \<longleftrightarrow>
     ed_text chs ed = before @ old_text cuts @ rest \<and> lf_only (ed_text chs ed) \<and> buf_modifiable (ed_buffer ed) \<and>
     cuts_ok cuts \<and> ed_confirming ed = (cuts \<noteq> []) \<and>
     located before cuts (drop (ed_match_index ed) (ed_matches ed))"

lemma next_match_kept [simp]:
  "ed_text chs (next_substitute_match ed) = ed_text chs ed"
  "buf_modifiable (ed_buffer (next_substitute_match ed)) = buf_modifiable (ed_buffer ed)"
  by (auto simp: next_substitute_match_def end_substitute_confirm_def upd_buffer_def ed_text_def ed_buffer_def Let_def
      split: prod.splits)

lemma next_match_session:
  "ed_confirming ed \<Longrightarrow> ed_confirming (next_substitute_match ed) = (drop (Suc (ed_match_index ed)) (ed_matches ed) \<noteq> [])"
  "drop (ed_match_index (next_substitute_match ed)) (ed_matches (next_substitute_match ed)) =
     drop (Suc (ed_match_index ed)) (ed_matches ed)"
  by (auto simp: next_substitute_match_def end_substitute_confirm_def upd_buffer_def Let_def split: prod.splits)

lemma end_session [simp]:
  "ed_text chs (end_substitute_confirm ed) = ed_text chs ed" "\<not> ed_confirming (end_substitute_confirm ed)"
  by (simp_all add: end_substitute_confirm_def ed_text_def ed_buffer_def)

lemma located_Cons:
  assumes "located before ((gap, old, new) # cuts) (drop i ms)"
  shows "\<exists>l s. i < length ms \<and> ms ! i = (l, s, s + length old, new) \<and> end_of (before @ gap) = (l, s) \<and> 10 \<notin> set old \<and>
    located (before @ gap @ old) cuts (drop (Suc i) ms)"
proof -
  obtain m ms' where d: "drop i ms = m # ms'" using assms by (cases "drop i ms") auto
  then have i: "i < length ms" "ms ! i = m" "drop (Suc i) ms = ms'"
    by (metis drop_all list.discI not_le) (metis d nth_via_drop, metis d drop_Suc list.sel(3) tl_drop)
  then show ?thesis using assms d by (cases m) auto
qed

lemma handle_answer:
  "handle_substitute_confirm_mode R k ed =
     (case answer_of k of
        Yes \<Rightarrow> confirm_substitute R ed | No \<Rightarrow> skip_substitute ed | All \<Rightarrow> confirm_all_substitutes R ed
      | Quit \<Rightarrow> end_substitute_confirm ed | Final \<Rightarrow> confirm_substitute_and_quit R ed | Other \<Rightarrow> ed)"
  by (auto simp: handle_substitute_confirm_mode_def answer_of_def split: key_code.splits)

lemma confirm_keys_ended: "\<not> ed_confirming ed \<Longrightarrow> confirm_keys R ks ed = ed"
  by (cases ks) auto

context lf_rope begin

lemma confirm_yes:
  assumes "confirm_state chs before ((gap, old, new) # cuts) rest ed"
  shows "confirm_state chs (before @ gap @ new) cuts rest (confirm_substitute R ed)"
proof -
  let ?ms = "ed_matches ed" and ?i = "ed_match_index ed"
  have st: "ed_text chs ed = before @ (gap @ old @ old_text cuts) @ rest" "lf_only (ed_text chs ed)"
    "buf_modifiable (ed_buffer ed)" "lf_only new" "cuts_ok cuts" "ed_confirming ed"
    using assms by (auto simp: confirm_state_def cuts_ok_def)
  obtain l s where m: "?i < length ?ms" "?ms ! ?i = (l, s, s + length old, new)" "end_of (before @ gap) = (l, s)"
    "10 \<notin> set old" "located (before @ gap @ old) cuts (drop (Suc ?i) ?ms)"
    using located_Cons assms by (metis confirm_state_def)
  define m where "m = (l, s, s + length old, new)"
  define ed1 where "ed1 = (snd (ed_record (\<lambda>b. ((), replace_match R m b)) ed))
    \<lparr>ed_matches := take (?i + 1) ?ms @ map (follow_confirmed m) (drop (?i + 1) ?ms)\<rparr>"
  have run: "confirm_substitute R ed = next_substitute_match ed1"
    using m(1,2) by (simp add: confirm_substitute_def ed1_def m_def Let_def case_prod_beta)
  let ?b = "(ed_buffer ed)\<lparr>buf_recording := Some recording_session_default\<rparr>"
  have b: "chs (buf_rope ?b) = (before @ gap) @ old @ old_text cuts @ rest" "lf_only (chs (buf_rope ?b))" "buf_modifiable ?b"
    using st by (simp_all add: ed_text_def)
  have "ed_buffer ed1 = (replace_match R m ?b)\<lparr>buf_recording := None\<rparr>"
    by (simp add: ed1_def ed_record_buffer(1) [unfolded ed_buffer_def] ed_buffer_def)
  then have chars: "ed_text chs ed1 = (before @ gap @ new) @ old_text cuts @ rest" "buf_modifiable (ed_buffer ed1)"
    using replace_match_text [OF b(2,3,1) m(4,3), of new] by (simp_all add: ed_text_def m_def)
  have "located (before @ gap @ new) cuts (map (follow_confirmed m) (drop (Suc ?i) ?ms))"
    using located_moves [OF m(3,4), of "[]" cuts] m(5) by (simp add: m_def)
  moreover have "drop (Suc ?i) (ed_matches ed1) = map (follow_confirmed m) (drop (Suc ?i) ?ms)" "ed_match_index ed1 = ?i"
    "ed_confirming ed1"
    using m(1) st(6) by (simp_all add: ed1_def)
  moreover have "drop (Suc ?i) ?ms \<noteq> [] \<longleftrightarrow> cuts \<noteq> []"
    using located_length [OF m(5)] by (metis length_0_conv)
  moreover have "lf_only (ed_text chs ed1)" using st unfolding chars(1) by simp
  ultimately show ?thesis
    using chars st(5) next_match_session [of ed1] unfolding run by (simp add: confirm_state_def)
qed

lemma confirm_no:
  assumes "confirm_state chs before ((gap, old, new) # cuts) rest ed"
  shows "confirm_state chs (before @ gap @ old) cuts rest (skip_substitute ed)"
proof -
  obtain l s where "located (before @ gap @ old) cuts (drop (Suc (ed_match_index ed)) (ed_matches ed))"
    using located_Cons assms by (metis confirm_state_def)
  moreover from located_length [OF this] have "drop (Suc (ed_match_index ed)) (ed_matches ed) \<noteq> [] \<longleftrightarrow> cuts \<noteq> []"
    by (metis length_0_conv)
  ultimately show ?thesis
    using assms next_match_session [of ed] by (auto simp: confirm_state_def skip_substitute_def cuts_ok_def)
qed

lemma confirm_all:
  "confirm_state chs before cuts rest ed \<Longrightarrow>
   confirm_state chs (before @ new_text cuts) [] rest (confirm_all_substitutes R ed)"
proof (induction cuts arbitrary: before ed)
  case Nil
  then have "drop (ed_match_index ed) (ed_matches ed) = []"
    by (cases "drop (ed_match_index ed) (ed_matches ed)") (auto simp: confirm_state_def)
  then show ?case using Nil by (subst confirm_all_substitutes.simps) simp
next
  case (Cons c cuts)
  obtain g o' n where c: "c = (g, o', n)" by (cases c) auto
  have "ed_match_index ed < length (ed_matches ed)"
    using located_Cons Cons.prems c by (metis confirm_state_def)
  then show ?case
    using Cons.IH [OF confirm_yes [OF Cons.prems [unfolded c]]] c
    by (subst confirm_all_substitutes.simps) simp
qed

lemma confirm_session:
  "confirm_state chs before cuts rest ed \<Longrightarrow>
   ed_text chs (confirm_keys R ks ed) = before @ answered ks cuts @ rest \<and>
   ed_confirming (confirm_keys R ks ed) = waiting ks (length cuts)"
proof (induction ks arbitrary: before cuts ed)
  case Nil
  then show ?case by (cases cuts) (auto simp: confirm_state_def)
next
  case (Cons k ks)
  show ?case
  proof (cases cuts)
    case Nil
    then show ?thesis using Cons.prems by (simp add: confirm_state_def)
  next
    case (Cons c cuts')
    obtain g o' n where c: "cuts = (g, o', n) # cuts'" using Cons by (cases c) auto
    note st = Cons.prems [unfolded c]
    have on: "ed_confirming ed" using st by (simp add: confirm_state_def)
    note yes = confirm_yes [OF st] and no = confirm_no [OF st] and all = confirm_all [OF st]
    have chars: "ed_text chs ed = before @ g @ o' @ old_text cuts' @ rest" using st by (simp add: confirm_state_def)
    have yes_text: "ed_text chs (confirm_substitute R ed) = before @ g @ n @ old_text cuts' @ rest"
      using yes by (simp add: confirm_state_def)
    show ?thesis
    proof (cases "answer_of k")
      case Yes
      then show ?thesis using Cons.IH [OF yes] on c by (simp add: handle_answer)
    next
      case No
      then show ?thesis using Cons.IH [OF no] on c by (simp add: handle_answer)
    next
      case All
      then show ?thesis using all on c by (simp add: handle_answer confirm_keys_ended confirm_state_def)
    next
      case Quit
      then show ?thesis using chars on c by (simp add: handle_answer confirm_keys_ended)
    next
      case Final
      then show ?thesis using yes_text on c by (simp add: handle_answer confirm_keys_ended confirm_substitute_and_quit_def)
    next
      case Other
      then show ?thesis using Cons.IH [OF Cons.prems] on c by (simp add: handle_answer)
    qed
  qed
qed

end


section \<open>Properties\<close>

lemma started:
  assumes "ed_text chs ed = old_text cuts @ rest" "located [] cuts ms" "cuts \<noteq> []"
    "lf_only (ed_text chs ed)" "buf_modifiable (ed_buffer ed)" "cuts_ok cuts"
  shows "confirm_state chs [] cuts rest (start_substitute_confirm ms ed)"
proof -
  have "ms \<noteq> []" using assms(2,3) by (cases cuts; cases ms) auto
  then have "ed_text chs (start_substitute_confirm ms ed) = ed_text chs ed"
    "buf_modifiable (ed_buffer (start_substitute_confirm ms ed)) = buf_modifiable (ed_buffer ed)"
    "ed_confirming (start_substitute_confirm ms ed)" "ed_match_index (start_substitute_confirm ms ed) = 0"
    "ed_matches (start_substitute_confirm ms ed) = ms"
    by (cases ms; auto simp: start_substitute_confirm_def upd_buffer_def ed_text_def ed_buffer_def Let_def)+
  then show ?thesis using assms by (simp add: confirm_state_def)
qed

text \<open>
  C30. A confirmation replaces exactly the matches that were answered with yes, each at its place,
  whatever the earlier replacements did to lengths and line breaks, and leaves all others: for every
  sequence of keys the text is the original with the confirmed matches replaced. It waits for
  answers as long as matches are left and no answer ended it.
\<close>

theorem confirmed_answers_exact:
  assumes "lf_rope R chs" and "lf_only (ed_text chs ed)" and "buf_modifiable (ed_buffer ed)"
    and "ed_text chs ed = old_text cuts @ rest" and "located [] cuts ms" and "cuts \<noteq> []" and "cuts_ok cuts"
  shows "ed_text chs (confirm_keys R ks (start_substitute_confirm ms ed)) = answered ks cuts @ rest \<and>
    ed_confirming (confirm_keys R ks (start_substitute_confirm ms ed)) = waiting ks (length cuts)"
  using lf_rope.confirm_session [OF assms(1) started [OF assms(4,5,6,2,3,7)], of ks] by simp

text \<open>On the lines \<open>aba\<close> and \<open>a\<close>, every \<open>a\<close> is replaced by a line break and an \<open>x\<close>: yes, no, yes.\<close>

theorem confirmed_answers_exact_witness:
  "ed_text (\<lambda>t. t) (confirm_keys list_rope (map (\<lambda>c. key_event_new (KeyChar c) mod_none) (rs ''yny''))
     (start_substitute_confirm [(0, 0, 1, [10] @ rs ''x''), (0, 2, 3, [10] @ rs ''x''), (1, 0, 1, [10] @ rs ''x'')]
       (sample_editor (rs ''aba'' @ [10] @ rs ''a'')))) =
   [10] @ rs ''xba'' @ [10] @ [10] @ rs ''x''"
  using confirmed_answers_exact [of list_rope "\<lambda>t. t" "sample_editor (rs ''aba'' @ [10] @ rs ''a'')"
      "[([], rs ''a'', [10] @ rs ''x''), (rs ''b'', rs ''a'', [10] @ rs ''x''), ([10], rs ''a'', [10] @ rs ''x'')]" "[]"
      "[(0, 0, 1, [10] @ rs ''x''), (0, 2, 3, [10] @ rs ''x''), (1, 0, 1, [10] @ rs ''x'')]"
      "map (\<lambda>c. key_event_new (KeyChar c) mod_none) (rs ''yny'')", OF lfr.lf_rope_axioms]
  by (simp add: end_of_def cuts_ok_def answer_of_def key_event_new_def)

section \<open>Confirming everything\<close>

text \<open>
  What the regex engine documents of its replacement: a line with its matches replaced is the line
  with each match of the captures spliced out and its replacement spliced in.
\<close>

definition splices :: "'x regex_ops \<Rightarrow> unicode_ops \<Rightarrow> 'x substitution \<Rightarrow> rstr \<Rightarrow> bool" where
  "splices E U s t \<longleftrightarrow>
     (\<exists>cuts rest. t = old_text cuts @ rest \<and> substitution_apply E U s t = new_text cuts @ rest \<and>
        located [] cuts (line_matches_to_confirm E U s 0 t) \<and> cuts_ok cuts)"

lemma located_append:
  "located before c1 m1 \<Longrightarrow> located (before @ old_text c1) c2 m2 \<Longrightarrow> located before (c1 @ c2) (m1 @ m2)"
  by (induction before c1 m1 rule: located.induct) simp_all

lemma cuts_append:
  assumes "old1 = old_text c1 @ r1" "new1 = new_text c1 @ r1" "located [] c1 m1" "located old1 c2 m2" "cuts_ok c1" "cuts_ok c2"
  shows "\<exists>c r. old1 @ old_text c2 @ r2 = old_text c @ r \<and> new1 @ new_text c2 @ r2 = new_text c @ r \<and>
    located [] c (m1 @ m2) \<and> cuts_ok c"
proof (cases c2)
  case Nil
  then have "m2 = []" using assms(4) by (cases m2) auto
  then show ?thesis using Nil assms by (intro exI [of _ c1] exI [of _ "r1 @ r2"]) simp
next
  case (Cons c cs)
  obtain g o' n where c: "c = (g, o', n)" by (cases c) auto
  have "located (old_text c1) ((r1 @ g, o', n) # cs) m2"
    using assms(1,4) Cons c by (cases m2) auto
  then have "located [] (c1 @ (r1 @ g, o', n) # cs) (m1 @ m2)" using assms(3) by (simp add: located_append)
  moreover have "old_text (c1 @ (r1 @ g, o', n) # cs) = old1 @ old_text c2" "new_text (c1 @ (r1 @ g, o', n) # cs) = new1 @ new_text c2"
    using assms(1,2) Cons c by (simp_all add: old_text_def new_text_def)
  moreover have "cuts_ok (c1 @ (r1 @ g, o', n) # cs)" using assms(5,6) Cons c by (auto simp: cuts_ok_def)
  ultimately show ?thesis by (intro exI [of _ "c1 @ (r1 @ g, o', n) # cs"] exI [of _ r2]) simp
qed

lemma located_on_line:
  "located before c ms \<Longrightarrow> 10 \<notin> set (before @ old_text c) \<Longrightarrow> end_of pre = (k, 0) \<Longrightarrow>
   located (pre @ before) c (map (\<lambda>(l, s, e, r). (k, s, e, r)) ms)"
proof (induction before c ms rule: located.induct)
  case (2 before gap old new cuts l s e r ms)
  have "end_of (pre @ before @ gap) = (k, length (before @ gap))"
    using end_of_line [of "before @ gap" pre] 2 by simp
  moreover have "s = length (before @ gap)"
    using end_of_line [of "before @ gap" "[]"] 2 by (simp add: end_of_def)
  ultimately show ?case using 2 by simp
qed simp_all

lemma line_matches_line:
  "line_matches_to_confirm E U s k t = map (\<lambda>(l, s, e, r). (k, s, e, r)) (line_matches_to_confirm E U s 0 t)"
  by (auto simp: line_matches_to_confirm_def)

lemma end_of_terminate: "unbroken ls \<Longrightarrow> end_of (terminate ls) = (length ls, 0)"
proof -
  assume "unbroken ls"
  then have "line_feeds (terminate ls) = length ls" by (induction ls) simp_all
  then show ?thesis by (cases ls rule: rev_cases) (simp_all add: end_of_def)
qed

lemma cuts_of_lines:
  assumes "unbroken S" "s \<le> k" "k < length S" "\<forall>l \<in> {s..k}. splices E U sub (S ! l)"
  shows "\<exists>cuts rest. terminate (take k S) @ S ! k = old_text cuts @ rest \<and>
    terminate (take s S @ map (substitution_apply E U sub) (take (k - s) (drop s S))) @ substitution_apply E U sub (S ! k) =
      new_text cuts @ rest \<and>
    located [] cuts (concat (map (\<lambda>l. line_matches_to_confirm E U sub l (S ! l)) [s..<Suc k])) \<and> cuts_ok cuts"
  using assms(2,3,4)
proof (induction k rule: dec_induct)
  case base
  obtain c r where c: "S ! s = old_text c @ r" "substitution_apply E U sub (S ! s) = new_text c @ r"
    "located [] c (line_matches_to_confirm E U sub 0 (S ! s))" "cuts_ok c"
  proof -
    have "splices E U sub (S ! s)" using base(2) by simp
    then show ?thesis using that unfolding splices_def by blast
  qed
  have "10 \<notin> set (S ! s)" using assms(1) base(1) by (simp add: unbroken_def)
  then have "10 \<notin> set (old_text c)" unfolding c(1) by simp
  then have "located (terminate (take s S)) c (line_matches_to_confirm E U sub s (S ! s))"
    using located_on_line [OF c(3), of "terminate (take s S)" s] base(1) assms(1)
    unfolding line_matches_line [of E U sub s] by (simp add: end_of_terminate unbroken_parts)
  from cuts_append [of "terminate (take s S)" "[]" "terminate (take s S)" "terminate (take s S)" "[]" c _ r, OF _ _ _ this]
  show ?case using c(1,2,4) by (simp add: cuts_ok_def)
next
  case (step k)
  then obtain c1 r1 where c1: "terminate (take k S) @ S ! k = old_text c1 @ r1"
    "terminate (take s S @ map (substitution_apply E U sub) (take (k - s) (drop s S))) @ substitution_apply E U sub (S ! k) =
      new_text c1 @ r1"
    "located [] c1 (concat (map (\<lambda>l. line_matches_to_confirm E U sub l (S ! l)) [s..<Suc k]))" "cuts_ok c1"
    by auto
  obtain c r where c: "S ! Suc k = old_text c @ r" "substitution_apply E U sub (S ! Suc k) = new_text c @ r"
    "located [] c (line_matches_to_confirm E U sub 0 (S ! Suc k))" "cuts_ok c"
  proof -
    have "splices E U sub (S ! Suc k)" using step.prems(2) step.hyps(1) by simp
    then show ?thesis using that unfolding splices_def by blast
  qed
  have "10 \<notin> set (S ! Suc k)" using assms(1) step.prems(1) by (simp add: unbroken_def)
  then have "10 \<notin> set (old_text c)" unfolding c(1) by simp
  then have l: "located (terminate (take (Suc k) S)) c (line_matches_to_confirm E U sub (Suc k) (S ! Suc k))"
    using located_on_line [OF c(3), of "terminate (take (Suc k) S)" "Suc k"] step.prems(1) assms(1)
    unfolding line_matches_line [of E U sub "Suc k"] by (simp add: end_of_terminate unbroken_parts)
  have old: "terminate (take (Suc k) S) = old_text c1 @ r1 @ [10]"
    using c1(1) step.prems(1) by (simp add: take_Suc_conv_app_nth)
  have "take (Suc k - s) (drop s S) = take (k - s) (drop s S) @ [S ! k]"
    using step.hyps step.prems(1) by (simp add: Suc_diff_le take_Suc_conv_app_nth)
  then have new: "terminate (take s S @ map (substitution_apply E U sub) (take (Suc k - s) (drop s S))) = new_text c1 @ r1 @ [10]"
    using c1(2) by simp
  have "concat (map (\<lambda>l. line_matches_to_confirm E U sub l (S ! l)) [s..<Suc (Suc k)]) =
      concat (map (\<lambda>l. line_matches_to_confirm E U sub l (S ! l)) [s..<Suc k]) @ line_matches_to_confirm E U sub (Suc k) (S ! Suc k)"
    using step.hyps by simp
  then show ?case
    using cuts_append [OF old new c1(3) l c1(4) c(4), of r] c(1,2) by simp
qed

lemma parse_substitution_confirming:
  "parse_substitution E U body ed = (res, ed') \<Longrightarrow> ed_confirming ed' = ed_confirming ed"
  by (auto simp: parse_substitution_def set_last_search_pattern_def upd_registers_def Let_def
      split: if_splits option.splits prod.splits)

text \<open>
  C31. Answering \<open>a\<close> to a confirmed substitution gives the text the substitution gives without
  confirmation, for every engine whose replacement is the splicing of its matches.
\<close>

theorem confirm_all_equals_substitute:
  assumes "lf_rope R chs" and "lf_only (ed_text chs ed)" and "buf_modifiable (ed_buffer ed)" and "\<not> ed_confirming ed"
    and "parse_substitution E U (call_args x) ed = (Inr (s, flags), ed1)"
    and "rc CHR ''n'' \<notin> set flags" and "rc CHR ''c'' \<in> set flags"
    and "call_range x = Some r" and "1 \<le> lr_start r" "lr_start r \<le> lr_end r" "lr_end r \<le> length (ed_lines chs ed)"
    and "\<forall>l \<in> set (take (lr_end r - (lr_start r - 1)) (drop (lr_start r - 1) (ed_lines chs ed))). splices E U s l"
  shows "let old = split_lines (ed_text chs ed);
      selected = take (lr_end r - (lr_start r - 1)) (drop (lr_start r - 1) old)
    in \<exists>out ed'. ex_substitute R E U x ed = Some (out, ed') \<and>
      ed_text chs (confirm_keys R [key_event_new (KeyChar (rc CHR ''a'')) mod_none] ed') =
        join (take (lr_start r - 1) old @ map (substitution_apply E U s) selected @ drop (lr_end r) old) \<and>
      \<not> ed_confirming (confirm_keys R [key_event_new (KeyChar (rc CHR ''a'')) mod_none] ed')"
proof -
  let ?b = "ed_buffer ed" and ?s = "lr_start r - 1" and ?e = "lr_end r" and ?f = "substitution_apply E U s"
  let ?old = "split_lines (ed_text chs ed)" and ?shown = "ed_lines chs ed"
  have b1: "ed_buffer ed1 = ?b" "\<not> ed_confirming ed1"
    using parse_substitution_buffer [OF assms(5)] parse_substitution_confirming [OF assms(5)] assms(4) by simp_all
  have lf: "lf_only (chs (buf_rope ?b))" using assms(2) by (simp add: ed_text_def)
  note lines = lf_rope.line_count [OF assms(1) lf] lf_rope.shown_raw [OF assms(1), where b = ?b]
  have raw: "length ?shown \<le> length ?old" "\<And>l. l < length ?shown \<Longrightarrow> ?shown ! l = ?old ! l"
    using lines(2,3) by (simp_all add: ed_text_def ed_lines_def)
  have range_ends: "line_range_indexes r = (?s, ?e - 1)" "min (?e - 1) (buffer_line_count R ?b - 1) = ?e - 1" "Suc (?e - 1) = ?e"
    using assms(9-11) lines(1) by (auto simp: line_range_indexes_pos ed_lines_def)
  define ms where "ms = matches_to_confirm R E U s [?s..<?e] ?b"
  have found: "ms = concat (map (\<lambda>l. line_matches_to_confirm E U s l (?old ! l)) [?s..<?e])"
    unfolding ms_def matches_to_confirm_def using assms(11) raw(2)
    by (intro arg_cong [where f = concat] map_cong) (auto simp: lf_rope.line_text [OF assms(1) lf] ed_lines_def)
  have ok: "splices E U s (?old ! l)" if "?s \<le> l" "l \<le> ?e - 1" for l
  proof -
    have "l - ?s < length (take (?e - ?s) (drop ?s ?shown))" "take (?e - ?s) (drop ?s ?shown) ! (l - ?s) = ?shown ! l"
      using that assms(9-11) by auto
    from nth_mem [OF this(1)] this(2) have "?shown ! l \<in> set (take (?e - ?s) (drop ?s ?shown))" by simp
    with assms(12) have "splices E U s (?shown ! l)" by blast
    moreover have "l < length ?shown" using that assms(9-11) by linarith
    ultimately show ?thesis using raw(2) by simp
  qed
  have bounds: "?s \<le> ?e - 1" "?e - 1 < length ?old" using assms(9-11) raw(1) by auto
  from ok have "\<forall>l \<in> {?s..?e - 1}. splices E U s (?old ! l)" by auto
  from cuts_of_lines [OF unbroken_split bounds this, unfolded range_ends(3), folded found]
  obtain cuts rest where c: "terminate (take (?e - 1) ?old) @ ?old ! (?e - 1) = old_text cuts @ rest"
    "terminate (take ?s ?old @ map ?f (take (?e - 1 - ?s) (drop ?s ?old))) @ ?f (?old ! (?e - 1)) = new_text cuts @ rest"
    "located [] cuts ms" "cuts_ok cuts"
    by blast
  define tail where "tail = (if drop ?e ?old = [] then [] else 10 # join (drop ?e ?old))"
  have e: "?e - 1 < length ?old" "Suc (?e - 1) = ?e" "take (?e - ?s) (drop ?s ?old) = take (?e - 1 - ?s) (drop ?s ?old) @ [?old ! (?e - 1)]"
  proof -
    show e: "?e - 1 < length ?old" "Suc (?e - 1) = ?e" using assms(9-11) raw(1) by auto
    have "?e - ?s = Suc (?e - 1 - ?s)" "?e - 1 - ?s < length (drop ?s ?old)" "drop ?s ?old ! (?e - 1 - ?s) = ?old ! (?e - 1)"
      using assms(9,10) e by auto
    then show "take (?e - ?s) (drop ?s ?old) = take (?e - 1 - ?s) (drop ?s ?old) @ [?old ! (?e - 1)]"
      by (simp only: take_Suc_conv_app_nth)
  qed
  have joins: "join (X @ l # drop ?e ?old) = terminate X @ l @ tail" for X l
    by (cases "drop ?e ?old = []") (simp_all add: tail_def join_append join_Cons)
  have before: "ed_text chs ed = old_text cuts @ rest @ tail"
  proof -
    have "ed_text chs ed = join (take (?e - 1) ?old @ ?old ! (?e - 1) # drop ?e ?old)"
      using id_take_nth_drop [OF e(1)] e(2) join_split [of "ed_text chs ed"] by simp
    also have "\<dots> = (terminate (take (?e - 1) ?old) @ ?old ! (?e - 1)) @ tail" by (simp add: joins)
    finally show ?thesis unfolding c(1) by simp
  qed
  have after: "join (take ?s ?old @ map ?f (take (?e - ?s) (drop ?s ?old)) @ drop ?e ?old) = new_text cuts @ rest @ tail"
  proof -
    have "join (take ?s ?old @ map ?f (take (?e - ?s) (drop ?s ?old)) @ drop ?e ?old) =
        join ((take ?s ?old @ map ?f (take (?e - 1 - ?s) (drop ?s ?old))) @ ?f (?old ! (?e - 1)) # drop ?e ?old)"
      unfolding e(3) by simp
    also have "\<dots> = (terminate (take ?s ?old @ map ?f (take (?e - 1 - ?s) (drop ?s ?old))) @ ?f (?old ! (?e - 1))) @ tail"
      unfolding joins by simp
    finally show ?thesis unfolding c(2) by simp
  qed
  let ?a = "[key_event_new (KeyChar (rc CHR ''a'')) mod_none]"
  have run: "\<exists>out. ex_substitute R E U x ed = Some (out, if ms = [] then ed1 else start_substitute_confirm ms ed1)"
    using assms(3,6,7)
    by (simp only: ex_substitute_def assms(5,8) prod.case sum.case option.case b1 range_ends Let_def if_False not_True_eq_False
        not_False_eq_True if_True ms_def [symmetric]) simp
  have "ed_text chs (confirm_keys R ?a (if ms = [] then ed1 else start_substitute_confirm ms ed1)) = new_text cuts @ rest @ tail \<and>
      \<not> ed_confirming (confirm_keys R ?a (if ms = [] then ed1 else start_substitute_confirm ms ed1))"
  proof (cases "ms = []")
    case True
    then have "cuts = []" using located_length [OF c(3)] by simp
    then show ?thesis using True before b1 by (simp add: ed_text_def)
  next
    case False
    then have "cuts \<noteq> []" using located_length [OF c(3)] by auto
    moreover have "ed_text chs ed1 = ed_text chs ed" by (simp add: ed_text_def b1)
    moreover have "answered ?a cuts = new_text cuts" "\<not> waiting ?a (length cuts)"
      by (cases cuts; auto simp: answer_of_def key_event_new_def)+
    ultimately show ?thesis
      using lf_rope.confirm_session [OF assms(1) started [where cuts = cuts and ms = ms and chs = chs and ed = ed1 and rest = "rest @ tail"], of ?a] False
        assms(2,3) b1 c(3,4) before by simp
  qed
  then show ?thesis using run after unfolding Let_def by fastforce
qed

text \<open>\<open>:1,2s/a/bb/gc\<close> and \<open>a\<close>.\<close>

theorem confirm_all_equals_substitute_witness:
  "\<exists>out ed'. ex_substitute list_rope literal_regex ascii_unicode (sample_call (rs ''/a/bb/gc'') 1 2)
      (sample_editor (rs ''aa'' @ [10] @ rs ''c'' @ [10] @ rs ''a'')) = Some (out, ed') \<and>
    ed_text (\<lambda>t. t) (confirm_keys list_rope [key_event_new (KeyChar (rc CHR ''a'')) mod_none] ed') =
      rs ''bbbb'' @ [10] @ rs ''c'' @ [10] @ rs ''a''"
proof -
  let ?ed = "sample_editor (rs ''aa'' @ [10] @ rs ''c'' @ [10] @ rs ''a'')"
  let ?s = "\<lparr>sub_regex = (rs ''a'', False), sub_replacement = [RepText (rs ''bb'')], sub_typed = rs ''bb'',
    sub_global = True, sub_pattern = rs ''a''\<rparr>"
  have parsed: "parse_substitution literal_regex ascii_unicode (call_args (sample_call (rs ''/a/bb/gc'') 1 2)) ?ed =
      (Inr (?s, rs ''gc''), set_last_search_pattern (rs ''a'') ?ed)"
    by (simp add: parse_substitution_def sample_call_def split_substitute_parts_def bad_delimiter_def ascii_unicode_def
        ascii_defs push_last_def compile_pattern_def literal_regex_def sample_editor_def sample_view_def replacement_parse_def
        ed_registers_def Let_def)
  have applied: "substitution_apply literal_regex ascii_unicode ?s (rs ''aa'') = rs ''bbbb''"
    "substitution_apply literal_regex ascii_unicode ?s (rs ''c'') = rs ''c''"
    by (simp_all add: substitution_apply_def literal_regex_def replacement_expand_def expand_chars_plain)
  have found: "line_matches_to_confirm literal_regex ascii_unicode ?s 0 (rs ''aa'') = [(0, 0, 1, rs ''bb''), (0, 1, 2, rs ''bb'')]"
    "line_matches_to_confirm literal_regex ascii_unicode ?s 0 (rs ''c'') = []"
    by (simp_all add: line_matches_to_confirm_def literal_regex_def replacement_expand_def expand_chars_plain)
  have spliced: "splices literal_regex ascii_unicode ?s (rs ''aa'')" "splices literal_regex ascii_unicode ?s (rs ''c'')"
    unfolding splices_def applied found
    by (rule exI [of _ "[([], rs ''a'', rs ''bb''), ([], rs ''a'', rs ''bb'')]"], rule exI [of _ "[]"];
        simp add: end_of_def cuts_ok_def)
      (rule exI [of _ "[]"]; simp add: cuts_ok_def)
  have "\<not> ed_confirming ?ed" by (simp add: sample_editor_def)
  then show ?thesis
    using confirm_all_equals_substitute [of list_rope "\<lambda>t. t" ?ed literal_regex ascii_unicode
        "sample_call (rs ''/a/bb/gc'') 1 2" ?s "rs ''gc''" _ "\<lparr>lr_start = 1, lr_end = 2\<rparr>", OF lfr.lf_rope_axioms _ _ _ parsed]
      applied spliced
    by (auto simp add: shown_lines_def simp del: confirm_keys.simps)
qed

end
