(* ===== verification/ShellExpansion.thy ===== *)
theory ShellExpansion
  imports Prelude
begin

text \<open>
  File names in commands (ovim-core/src/editor/input/shell_expansion.rs): the references \<open>%\<close> and
  \<open>#\<close> with their modifiers, their expansion in a shell command and in a file argument, and the
  quoting of a file name for the shell. The functions of \<open>std::path\<close> that the modifiers call are
  written out for Unix paths; the working directory is a parameter (\<open>None\<close> when it cannot be read).
\<close>

section \<open>Paths\<close>

definition path_is_absolute :: "rstr \<Rightarrow> bool" where
  "path_is_absolute p \<longleftrightarrow> (case p of c # _ \<Rightarrow> c = 47 | [] \<Rightarrow> False)"

text \<open>The length of what precedes the components: the root, or a leading \<open>.\<close> that stands alone.\<close>

definition path_body_start :: "rstr \<Rightarrow> nat" where
  "path_body_start p =
     (case p of
        [] \<Rightarrow> 0
      | c # s \<Rightarrow> if c = 47 then 1
          else if c = 46 \<and> (case s of [] \<Rightarrow> True | d # _ \<Rightarrow> d = 47) then 1 else 0)"

definition last_component :: "rstr \<Rightarrow> rstr" where
  "last_component b = rev (takeWhile (\<lambda>c. c \<noteq> 47) (rev b))"

definition drop_component :: "rstr \<Rightarrow> rstr" where
  "drop_component b = rev (drop 1 (dropWhile (\<lambda>c. c \<noteq> 47) (rev b)))"

lemma drop_component_shorter: "b \<noteq> [] \<Longrightarrow> length (drop_component b) < length b"
proof -
  assume "b \<noteq> []"
  have "length (dropWhile (\<lambda>c. c \<noteq> 47) (rev b)) \<le> length b"
    using length_dropWhile_le [of _ "rev b"] by simp
  with \<open>b \<noteq> []\<close> show ?thesis
    by (cases "dropWhile (\<lambda>c. c \<noteq> 47) (rev b)") (simp_all add: drop_component_def del: dropWhile_eq_Nil_conv)
qed

text \<open>Empty components and \<open>.\<close> do not count.\<close>

function trim_components :: "rstr \<Rightarrow> rstr" where
  "trim_components b =
     (if b \<noteq> [] \<and> last_component b \<in> {[], [46]} then trim_components (drop_component b) else b)"
  by pat_completeness auto

termination
  by (relation "measure length") (simp_all add: drop_component_shorter)

declare trim_components.simps [simp del]

definition path_file_name :: "rstr \<Rightarrow> rstr option" where
  "path_file_name p =
     (let b = trim_components (drop (path_body_start p) p)
      in if b = [] \<or> last_component b = [46, 46] then None else Some (last_component b))"

definition path_parent :: "rstr \<Rightarrow> rstr option" where
  "path_parent p =
     (let start = path_body_start p; b = trim_components (drop start p)
      in if b \<noteq> [] then Some (take start p @ trim_components (drop_component b))
         else if path_is_absolute p then None
         else if start = 1 then Some []
         else None)"

text \<open>\<open>rsplit_file_at_dot\<close>: what precedes and what follows the last dot of a file name.\<close>

definition split_dot :: "rstr \<Rightarrow> rstr option \<times> rstr option" where
  "split_dot name =
     (if name = [46, 46] then (Some name, None)
      else if 46 \<notin> set name then (None, Some name)
      else let before = rev (drop 1 (dropWhile (\<lambda>c. c \<noteq> 46) (rev name)));
               after = rev (takeWhile (\<lambda>c. c \<noteq> 46) (rev name))
           in if before = [] then (Some name, None) else (Some before, Some after))"

definition path_file_stem :: "rstr \<Rightarrow> rstr option" where
  "path_file_stem p =
     (case path_file_name p of
        None \<Rightarrow> None
      | Some name \<Rightarrow> (case split_dot name of (Some before, _) \<Rightarrow> Some before | (None, after) \<Rightarrow> after))"

definition path_extension :: "rstr \<Rightarrow> rstr option" where
  "path_extension p =
     (case path_file_name p of
        None \<Rightarrow> None
      | Some name \<Rightarrow> (case split_dot name of (Some _, after) \<Rightarrow> after | (None, _) \<Rightarrow> None))"

definition path_join :: "rstr \<Rightarrow> rstr \<Rightarrow> rstr" where
  "path_join base p =
     (if path_is_absolute p then p
      else base @ (if base \<noteq> [] \<and> last base \<noteq> 47 then [47] else []) @ p)"

section \<open>Modifiers\<close>

definition make_absolute :: "rstr option \<Rightarrow> rstr \<Rightarrow> rstr" where
  "make_absolute cwd path =
     (if path = [] then []
      else if path_is_absolute path then path
      else case cwd of Some dir \<Rightarrow> path_join dir path | None \<Rightarrow> path)"

definition get_head :: "rstr \<Rightarrow> rstr" where
  "get_head path =
     (if path = [] then [46]
      else case path_parent path of
             Some parent \<Rightarrow> if parent \<noteq> [] then parent else [46]
           | None \<Rightarrow> [46])"

definition get_tail :: "rstr \<Rightarrow> rstr" where
  "get_tail path = (if path = [] then [] else case path_file_name path of Some name \<Rightarrow> name | None \<Rightarrow> [])"

definition get_root :: "rstr \<Rightarrow> rstr" where
  "get_root path =
     (if path = [] then []
      else let stem = (case path_file_stem path of Some stem \<Rightarrow> stem | None \<Rightarrow> [])
           in case path_parent path of
                Some parent \<Rightarrow> if parent \<noteq> [] then parent @ [47] @ stem else stem
              | None \<Rightarrow> stem)"

definition get_extension :: "rstr \<Rightarrow> rstr" where
  "get_extension path = (if path = [] then [] else case path_extension path of Some e \<Rightarrow> e | None \<Rightarrow> [])"

record reference =
  ref_text :: rstr
  ref_unnamed :: bool
  ref_absolute :: bool

text \<open>What one modifier makes of the name; \<open>None\<close> for an unknown one.\<close>

definition modifier :: "rstr option \<Rightarrow> rchar \<Rightarrow> rstr \<times> bool \<Rightarrow> (rstr \<times> bool) option" where
  "modifier cwd m r =
     (case r of (result, absolute) \<Rightarrow>
        if m = rc CHR ''p'' then Some (make_absolute cwd result, True)
        else if m = rc CHR ''h'' then Some (get_head result, absolute)
        else if m = rc CHR ''t'' then Some (get_tail result, absolute)
        else if m = rc CHR ''r'' then Some (get_root result, absolute)
        else if m = rc CHR ''e'' then Some (get_extension result, absolute)
        else None)"

text \<open>The modifiers that follow a reference, and the text left after them.\<close>

fun expand_modifiers :: "rstr option \<Rightarrow> rstr \<times> bool \<Rightarrow> rstr \<Rightarrow> (rstr \<times> bool) \<times> rstr" where
  "expand_modifiers cwd r [] = (r, [])"
| "expand_modifiers cwd r [c] =
     (if c \<noteq> rc CHR '':'' then (r, [c]) else ((fst r @ [c], snd r), []))"
| "expand_modifiers cwd r (c # m # s) =
     (if c \<noteq> rc CHR '':'' then (r, c # m # s)
      else case modifier cwd m r of
             Some r \<Rightarrow> expand_modifiers cwd r s
           | None \<Rightarrow> expand_modifiers cwd (fst r @ [c], snd r) (m # s))"

definition expand_with_modifiers :: "rstr option \<Rightarrow> rstr \<Rightarrow> rstr \<Rightarrow> reference \<times> rstr" where
  "expand_with_modifiers cwd filename s =
     (case expand_modifiers cwd (filename, False) s of
        ((t, absolute), rest) \<Rightarrow>
          (\<lparr>ref_text = t, ref_unnamed = (filename = []), ref_absolute = absolute\<rparr>, rest))"

lemma expand_modifiers_rest: "suffix (snd (expand_modifiers cwd r s)) s"
  by (induction cwd r s rule: expand_modifiers.induct) (auto simp: suffix_ConsI simp del: rc_simps split: option.splits)

lemma expand_with_modifiers_rest:
  "expand_with_modifiers cwd name s = (r, rest) \<Longrightarrow> length rest \<le> length s"
  using expand_modifiers_rest [of cwd "(name, False)" s]
  by (auto simp: expand_with_modifiers_def suffix_length_le split: prod.splits)

section \<open>References\<close>

definition push :: "rstr \<Rightarrow> 'e + rstr \<Rightarrow> 'e + rstr" where
  "push t result = (case result of Inl e \<Rightarrow> Inl e | Inr u \<Rightarrow> Inr (t @ u))"

lemma push_simps [simp]: "push t (Inr u) = Inr (t @ u)" "push t (Inl e) = Inl e"
  by (simp_all add: push_def)

lemma push_Inr: "push t r = Inr u \<longleftrightarrow> (\<exists>v. r = Inr v \<and> u = t @ v)"
  by (auto simp: push_def split: sum.splits)

function expand_references ::
  "rstr option \<Rightarrow> (rchar \<Rightarrow> reference \<Rightarrow> 'e + rstr) \<Rightarrow> rstr \<Rightarrow> rstr \<Rightarrow> rstr \<Rightarrow> 'e + rstr" where
  "expand_references cwd ins current alternate [] = Inr []"
| "expand_references cwd ins current alternate (c # s) =
     (if c = rc CHR 0x5C then
        (case s of
           n # s' \<Rightarrow>
             if n = rc CHR ''%'' \<or> n = rc CHR ''#'' \<or> n = rc CHR 0x5C
             then push [n] (expand_references cwd ins current alternate s')
             else push [c] (expand_references cwd ins current alternate s)
         | [] \<Rightarrow> push [c] (expand_references cwd ins current alternate []))
      else if c = rc CHR ''%'' \<or> c = rc CHR ''#'' then
        (case expand_with_modifiers cwd (if c = rc CHR ''%'' then current else alternate) s of
           (r, rest) \<Rightarrow>
             (case ins c r of
                Inl e \<Rightarrow> Inl e
              | Inr t \<Rightarrow> push t (expand_references cwd ins current alternate rest)))
      else push [c] (expand_references cwd ins current alternate s))"
  by pat_completeness auto

termination
  by (relation "measure (\<lambda>(_, _, _, _, s). length s)") (auto dest!: sym [of "(_, _)"] expand_with_modifiers_rest)

declare expand_references.simps(2) [simp del]

definition shell_quoted :: "rchar \<Rightarrow> bool" where
  "shell_quoted c \<longleftrightarrow> c \<in> set ([32, 9, 10, 33, 34, 35, 36, 38, 39, 40, 41, 42, 59, 60, 62, 63, 91, 92, 93, 94, 96,
     123, 124, 125, 126] :: nat list)"

definition shell_escape :: "rstr \<Rightarrow> rstr" where
  "shell_escape s =
     (if s = [] then [39, 39]
      else if \<not> list_ex shell_quoted s then s
      else [39] @ concat (map (\<lambda>c. if c = 39 then [39, 92, 39, 39] else [c]) s) @ [39])"

definition expand_shell_command :: "rstr option \<Rightarrow> rstr \<Rightarrow> rstr \<Rightarrow> rstr \<Rightarrow> rstr" where
  "expand_shell_command cwd cmd current alternate =
     (case expand_references cwd (\<lambda>_ r. Inr (shell_escape (ref_text r)) :: unit + rstr) current alternate cmd of
        Inr t \<Rightarrow> t | Inl _ \<Rightarrow> [])"

definition expand_file_argument :: "rstr option \<Rightarrow> rstr \<Rightarrow> rstr \<Rightarrow> rstr \<Rightarrow> rstr + rstr" where
  "expand_file_argument cwd arg current alternate =
     expand_references cwd
       (\<lambda>source r.
          if source = rc CHR ''#'' \<and> ref_unnamed r
          then Inl (rs ''E194: No alternate file name to substitute for '' @ [39] @ rs ''#'' @ [39])
          else if source = rc CHR ''%'' \<and> ref_unnamed r \<and> \<not> ref_absolute r
          then Inl (rs ''E499: Empty file name for '' @ [39] @ rs ''%'' @ [39] @ rs '' or '' @ [39] @ rs ''#'' @ [39] @
                 rs '', only works with '' @ [34] @ rs '':p:h'' @ [34])
          else Inr (ref_text r)) current alternate arg"


section \<open>Quoting against the shell\<close>

text \<open>
  How a POSIX shell reads tokens: blanks separate words, an operator character is a token of its own,
  a single quote runs to the next one, a double quote to the next one when nothing in it is expanded,
  and a backslash takes the character after it as it is. Any other special character has a meaning of
  its own outside quotes, for which the reading is \<open>None\<close>; so is a word that runs into a redirection,
  which the shell would take for a file descriptor if it is a number. What the shell does with a word
  by its place, an assignment \<open>a=b\<close> or a reserved word in front of a command, is not part of reading it.
\<close>

datatype sh_token = ShWord rstr | ShOperator rchar

definition sh_special :: "rchar \<Rightarrow> bool" where
  "sh_special c \<longleftrightarrow> c \<in> set (rs ''|&;<>()$`!*?[]#~{}^'' @ [92, 34, 39, 32, 9, 10])"

definition sh_blank :: "rchar \<Rightarrow> bool" where
  "sh_blank c \<longleftrightarrow> c = 32 \<or> c = 9"

definition sh_redirect :: "rchar \<Rightarrow> bool" where
  "sh_redirect c \<longleftrightarrow> c = 60 \<or> c = 62"

definition sh_operator :: "rchar \<Rightarrow> bool" where
  "sh_operator c \<longleftrightarrow> c \<in> {124, 38, 59, 40, 41, 10} \<or> sh_redirect c"

definition sh_expanded_in_quotes :: "rchar \<Rightarrow> bool" where
  "sh_expanded_in_quotes c \<longleftrightarrow> c \<in> {36, 96, 92}"

lemma after_quote: "length (tl (dropWhile P s)) \<le> length s" "length (dropWhile P s) - Suc 0 < Suc (length s)"
  using length_dropWhile_le [of P s] by simp_all

function sh_word :: "rstr \<Rightarrow> (rstr \<times> rstr) option" where
  "sh_word [] = Some ([], [])"
| "sh_word (c # s) =
     (if sh_blank c \<or> sh_operator c \<and> \<not> sh_redirect c then Some ([], c # s)
      else if c = 39 \<or> c = 34 then
        (let u = takeWhile (\<lambda>d. d \<noteq> c) s
         in if c \<notin> set s \<or> c = 34 \<and> list_ex sh_expanded_in_quotes u then None
            else map_option (apfst ((@) u)) (sh_word (tl (dropWhile (\<lambda>d. d \<noteq> c) s))))
      else if c = 92 then
        (case s of [] \<Rightarrow> None | d # s' \<Rightarrow> if d = 10 then None else map_option (apfst (Cons d)) (sh_word s'))
      else if sh_special c then None
      else map_option (apfst (Cons c)) (sh_word s))"
  by pat_completeness auto

termination
  by (relation "measure length") (auto simp: after_quote)

lemma sh_word_shorter:
  "sh_word s = Some (w, r) \<Longrightarrow>
   length r \<le> length s \<and> (\<forall>c u. s = c # u \<longrightarrow> \<not> sh_blank c \<longrightarrow> \<not> sh_operator c \<longrightarrow> length r < length s)"
proof (induction s arbitrary: w r rule: sh_word.induct)
  case (2 c s)
  consider "sh_blank c \<or> sh_operator c" | "\<not> sh_blank c" "\<not> sh_operator c" "c = 39 \<or> c = 34"
    | "\<not> sh_blank c" "\<not> sh_operator c" "c = 92" | "\<not> sh_blank c" "\<not> sh_operator c" "c \<notin> {39, 34, 92}"
    by auto
  then show ?case
  proof cases
    case 1
    then show ?thesis
      using "2.prems" by (auto simp: sh_blank_def sh_operator_def sh_redirect_def sh_special_def split: if_splits)
  next
    case 2
    then obtain w' where "sh_word (tl (dropWhile (\<lambda>d. d \<noteq> c) s)) = Some (w', r)"
      using "2.prems" by (auto simp: Let_def split: if_splits)
    then show ?thesis
      using 2 "2.prems" "2.IH"(1) [OF _ _ refl] after_quote(1) [of "\<lambda>d. d \<noteq> c" s] by (auto simp: Let_def split: if_splits)
  next
    case 3
    then show ?thesis
      using "2.prems" "2.IH"(2) by (fastforce split: if_splits list.splits)
  next
    case 4
    then show ?thesis
      using "2.prems" "2.IH"(3) by (auto split: if_splits)
  qed
qed simp

function sh_tokens :: "rstr \<Rightarrow> sh_token list option" where
  "sh_tokens [] = Some []"
| "sh_tokens (c # s) =
     (if sh_blank c then sh_tokens s
      else if sh_operator c then map_option (Cons (ShOperator c)) (sh_tokens s)
      else case sh_word (c # s) of
             None \<Rightarrow> None
           | Some (w, r) \<Rightarrow> map_option (Cons (ShWord w)) (sh_tokens r))"
  by pat_completeness auto

termination
proof (relation "measure length")
  fix c s p w r
  assume "\<not> sh_blank c" "\<not> sh_operator c" "sh_word (c # s) = Some p" "(w, r) = p"
  then show "(r, c # s) \<in> measure length"
    using sh_word_shorter [of "c # s" w r] by (auto simp del: sh_word.simps)
qed simp_all

text \<open>
  A command as a user types it: separators, which are blanks and operators, between words that are
  made of literal text, quoted text, \<open>\%\<close> and references with the modifiers after them.
\<close>

datatype piece = Literal rstr | SingleQuoted rstr | DoubleQuoted rstr | PercentSign | FileRef bool "rchar list"
datatype template_item = Separator rchar | Piece piece

fun piece_text :: "piece \<Rightarrow> rstr" where
  "piece_text (Literal t) = t"
| "piece_text (SingleQuoted t) = 39 # t @ [39]"
| "piece_text (DoubleQuoted t) = 34 # t @ [34]"
| "piece_text PercentSign = [92, rc CHR ''%'']"
| "piece_text (FileRef is_current ms) =
     (if is_current then rc CHR ''%'' else rc CHR ''#'') # concat (map (\<lambda>m. [rc CHR '':'', m]) ms)"

fun item_text :: "template_item \<Rightarrow> rstr" where
  "item_text (Separator c) = [c]"
| "item_text (Piece p) = piece_text p"

definition template :: "template_item list \<Rightarrow> rstr" where
  "template items = concat (map item_text items)"

definition verbatim :: "rchar \<Rightarrow> bool" where
  "verbatim c \<longleftrightarrow> c \<notin> {92, rc CHR ''%'', rc CHR ''#''}"

fun piece_ok :: "piece \<Rightarrow> bool" where
  "piece_ok (Literal t) \<longleftrightarrow> t \<noteq> [] \<and> (\<forall>c \<in> set t. \<not> sh_special c \<and> c \<noteq> rc CHR ''%'')"
| "piece_ok (SingleQuoted t) \<longleftrightarrow> (\<forall>c \<in> set t. verbatim c \<and> c \<noteq> 39)"
| "piece_ok (DoubleQuoted t) \<longleftrightarrow> (\<forall>c \<in> set t. verbatim c \<and> c \<noteq> 34 \<and> \<not> sh_expanded_in_quotes c)"
| "piece_ok PercentSign \<longleftrightarrow> True"
| "piece_ok (FileRef is_current ms) \<longleftrightarrow> set ms \<subseteq> set (rs ''phtre'')"

text \<open>What may follow a piece: no redirection, and after a reference no colon, which starts a modifier.\<close>

definition follows :: "piece \<Rightarrow> rstr \<Rightarrow> bool" where
  "follows p rest \<longleftrightarrow>
     (case rest of [] \<Rightarrow> True
      | c # _ \<Rightarrow> \<not> sh_redirect c \<and> (c = rc CHR '':'' \<longrightarrow> (\<nexists>is_current ms. p = FileRef is_current ms)))"

fun template_ok :: "template_item list \<Rightarrow> bool" where
  "template_ok [] \<longleftrightarrow> True"
| "template_ok (Separator c # items) \<longleftrightarrow> (sh_blank c \<or> sh_operator c) \<and> template_ok items"
| "template_ok (Piece p # items) \<longleftrightarrow> piece_ok p \<and> follows p (template items) \<and> template_ok items"

text \<open>The text a piece stands for, and the tokens of the command: adjacent pieces form one word.\<close>

fun piece_value :: "rstr option \<Rightarrow> rstr \<Rightarrow> rstr \<Rightarrow> piece \<Rightarrow> rstr" where
  "piece_value cwd current alternate (Literal t) = t"
| "piece_value cwd current alternate (SingleQuoted t) = t"
| "piece_value cwd current alternate (DoubleQuoted t) = t"
| "piece_value cwd current alternate PercentSign = rs ''%''"
| "piece_value cwd current alternate (FileRef is_current ms) =
     fst (fold (\<lambda>m r. the (modifier cwd m r)) ms (if is_current then current else alternate, False))"

fun template_tokens :: "rstr option \<Rightarrow> rstr \<Rightarrow> rstr \<Rightarrow> template_item list \<Rightarrow> sh_token list" where
  "template_tokens cwd current alternate [] = []"
| "template_tokens cwd current alternate (Separator c # items) =
     (if sh_blank c then [] else [ShOperator c]) @ template_tokens cwd current alternate items"
| "template_tokens cwd current alternate (Piece p # items) =
     (case (items, template_tokens cwd current alternate items) of
        (Piece _ # _, ShWord w # ts) \<Rightarrow> ShWord (piece_value cwd current alternate p @ w) # ts
      | (_, ts) \<Rightarrow> ShWord (piece_value cwd current alternate p) # ts)"

section \<open>The expanded command\<close>

lemma push_Nil [simp]: "push [] r = r"
  by (cases r) simp_all

lemma push_push: "push t (push u r) = push (t @ u) r"
  by (cases r) simp_all

lemma expand_modifiers_all:
  assumes "set ms \<subseteq> set (rs ''phtre'')" and "case rest of [] \<Rightarrow> True | c # _ \<Rightarrow> c \<noteq> rc CHR '':''"
  shows "expand_modifiers cwd r (concat (map (\<lambda>m. [rc CHR '':'', m]) ms) @ rest) =
    (fold (\<lambda>m r. the (modifier cwd m r)) ms r, rest)"
  using assms(1)
proof (induction ms arbitrary: r)
  case Nil
  show ?case
    using assms(2) by (cases rest; cases "tl rest") auto
next
  case (Cons m ms)
  then have "modifier cwd m r \<noteq> None"
    by (auto simp: modifier_def case_prod_beta)
  then obtain r' where "modifier cwd m r = Some r'"
    by auto
  with Cons show ?case by simp
qed

lemma expand_verbatim:
  "\<forall>c \<in> set t. verbatim c \<Longrightarrow>
   expand_references cwd ins current alternate (t @ rest) = push t (expand_references cwd ins current alternate rest)"
proof (induction t)
  case (Cons c t)
  then show ?case
    by (auto simp: expand_references.simps(2) verbatim_def push_push)
qed simp

text \<open>What a piece becomes in the expanded command.\<close>

fun piece_out :: "rstr option \<Rightarrow> rstr \<Rightarrow> rstr \<Rightarrow> piece \<Rightarrow> rstr" where
  "piece_out cwd current alternate PercentSign = rs ''%''"
| "piece_out cwd current alternate (FileRef is_current ms) =
     shell_escape (piece_value cwd current alternate (FileRef is_current ms))"
| "piece_out cwd current alternate p = piece_text p"

fun item_out :: "rstr option \<Rightarrow> rstr \<Rightarrow> rstr \<Rightarrow> template_item \<Rightarrow> rstr" where
  "item_out cwd current alternate (Separator c) = [c]"
| "item_out cwd current alternate (Piece p) = piece_out cwd current alternate p"

lemma expand_piece:
  assumes "piece_ok p" and "follows p rest"
  shows "expand_references cwd (\<lambda>_ r. Inr (shell_escape (ref_text r)) :: 'e + rstr) current alternate (piece_text p @ rest) =
    push (piece_out cwd current alternate p)
      (expand_references cwd (\<lambda>_ r. Inr (shell_escape (ref_text r))) current alternate rest)"
proof (cases p)
  case (Literal t)
  then have "\<forall>c \<in> set t. verbatim c" using assms(1) by (auto simp: verbatim_def sh_special_def)
  then show ?thesis using Literal expand_verbatim [of t] by simp
next
  case (SingleQuoted t)
  then show ?thesis using assms(1) expand_verbatim [of "39 # t @ [39]"] by (simp add: verbatim_def)
next
  case (DoubleQuoted t)
  then show ?thesis using assms(1) expand_verbatim [of "34 # t @ [34]"] by (simp add: verbatim_def)
next
  case PercentSign
  then show ?thesis by (simp add: expand_references.simps(2))
next
  case (FileRef is_current ms)
  then have "case rest of [] \<Rightarrow> True | c # _ \<Rightarrow> c \<noteq> rc CHR '':''"
    using assms(2) by (auto simp: follows_def split: list.splits)
  then show ?thesis
    using FileRef assms(1) expand_modifiers_all [of ms rest cwd "(current, False)"]
      expand_modifiers_all [of ms rest cwd "(alternate, False)"]
    by (simp add: expand_references.simps(2) expand_with_modifiers_def case_prod_beta)
qed

lemma expand_template:
  "template_ok items \<Longrightarrow>
   expand_references cwd (\<lambda>_ r. Inr (shell_escape (ref_text r)) :: 'e + rstr) current alternate (template items) =
     Inr (concat (map (item_out cwd current alternate) items))"
proof (induction items rule: template_ok.induct)
  case (2 c items)
  then have "\<forall>c \<in> set [c]. verbatim c"
    by (auto simp: verbatim_def sh_blank_def sh_operator_def sh_redirect_def)
  from expand_verbatim [OF this, of cwd "\<lambda>_ r. Inr (shell_escape (ref_text r)) :: 'e + rstr" current alternate "template items"]
  show ?case using 2 by (simp add: template_def)
next
  case (3 p items)
  then show ?case using expand_piece [where 'e = 'e, of p "template items"] by (simp add: template_def)
qed (simp add: template_def)

section \<open>Reading it\<close>

lemma sh_word_literal:
  "\<forall>c \<in> set t. \<not> sh_special c \<Longrightarrow> sh_word (t @ rest) = map_option (apfst ((@) t)) (sh_word rest)"
proof (induction t)
  case (Cons c t)
  then have "\<not> sh_special c" "c \<notin> {39, 34, 92}" "\<not> sh_blank c" "\<not> sh_operator c"
    by (auto simp: sh_special_def sh_blank_def sh_operator_def sh_redirect_def)
  with Cons show ?case by (cases "sh_word rest") auto
qed (cases "sh_word rest"; simp add: prod_eq_iff)

lemma shell_quoted_special: "sh_special c \<longleftrightarrow> shell_quoted c"
  by (auto simp: sh_special_def shell_quoted_def)

lemma quote_ends:
  "q \<notin> set u \<Longrightarrow> takeWhile (\<lambda>d. d \<noteq> q) (u @ q # r) = u \<and> dropWhile (\<lambda>d. d \<noteq> q) (u @ q # r) = q # r"
  by (induction u) auto

lemma quotes_plain [simp]:
  "\<not> sh_blank 39" "\<not> sh_operator 39" "\<not> sh_blank 34" "\<not> sh_operator 34" "\<not> sh_blank 92" "\<not> sh_operator 92"
  by (simp_all add: sh_blank_def sh_operator_def sh_redirect_def)

lemma sh_word_pieces:
  "39 \<notin> set u \<Longrightarrow> sh_word (39 # u @ 39 # r) = map_option (apfst ((@) u)) (sh_word r)"
  "34 \<notin> set u \<Longrightarrow> \<forall>c \<in> set u. \<not> sh_expanded_in_quotes c \<Longrightarrow>
     sh_word (34 # u @ 34 # r) = map_option (apfst ((@) u)) (sh_word r)"
  "sh_word (92 # 39 # r) = map_option (apfst (Cons 39)) (sh_word r)"
  by (simp_all add: quote_ends list_ex_iff)

lemma sh_word_quoted:
  "sh_word (39 # concat (map (\<lambda>c. if c = 39 then [39, 92, 39, 39] else [c]) s) @ 39 # rest) =
     map_option (apfst ((@) s)) (sh_word rest)"
proof (induction "length s" arbitrary: s rule: less_induct)
  case less
  define u v where "u = takeWhile (\<lambda>d. d \<noteq> 39) s" and "v = dropWhile (\<lambda>d. d \<noteq> 39) s"
  have s: "s = u @ v" by (simp add: u_def v_def)
  have u: "39 \<notin> set u" by (auto simp: u_def dest: set_takeWhileD)
  then have cu: "concat (map (\<lambda>c. if c = 39 then [39, 92, 39, 39] else [c]) u) = u"
    by (induction u) auto
  show ?case
  proof (cases v)
    case Nil
    then show ?thesis
      using u cu by (simp add: s quote_ends)
  next
    case (Cons c v')
    then have c: "c = 39" using hd_dropWhile [of "\<lambda>d. d \<noteq> 39" s] by (auto simp: v_def)
    have "length v' < length s" by (simp add: s Cons)
    note inner = less [OF this]
    have "39 # concat (map (\<lambda>c. if c = 39 then [39, 92, 39, 39] else [c]) s) @ 39 # rest =
        39 # u @ 39 # 92 # 39 # 39 # concat (map (\<lambda>c. if c = 39 then [39, 92, 39, 39] else [c]) v') @ 39 # rest"
      using cu c Cons by (simp add: s)
    then show ?thesis
      using c Cons by (cases "sh_word rest") (simp_all only: sh_word_pieces(1) [OF u] sh_word_pieces(3) inner, auto simp: s)
  qed
qed

lemma sh_word_escape: "sh_word (shell_escape s @ rest) = map_option (apfst ((@) s)) (sh_word rest)"
proof -
  consider "s = []" | "\<forall>c \<in> set s. \<not> sh_special c" "s \<noteq> []" | "list_ex shell_quoted s" "s \<noteq> []"
    by (auto simp: list_ex_iff shell_quoted_special)
  then show ?thesis
  proof cases
    case 1
    then show ?thesis by (cases "sh_word rest") (simp_all add: shell_escape_def)
  next
    case 2
    then show ?thesis using sh_word_literal [of s rest] by (auto simp: shell_escape_def list_ex_iff shell_quoted_special)
  next
    case 3
    then show ?thesis using sh_word_quoted [of s rest] by (simp add: shell_escape_def del: sh_word.simps)
  qed
qed

lemma sh_word_piece:
  "piece_ok p \<Longrightarrow>
   sh_word (piece_out cwd current alternate p @ rest) = map_option (apfst ((@) (piece_value cwd current alternate p))) (sh_word rest)"
proof (cases p)
  case PercentSign
  then show ?thesis
    using sh_word_literal [of "rs ''%''" rest] by (simp add: sh_special_def del: sh_word.simps)
next
  case (SingleQuoted t)
  moreover assume "piece_ok p"
  ultimately show ?thesis using sh_word_pieces(1) [of t rest] by (auto simp del: sh_word.simps)
next
  case (DoubleQuoted t)
  moreover assume "piece_ok p"
  ultimately show ?thesis using sh_word_pieces(2) [of t rest] by (auto simp del: sh_word.simps)
qed (simp_all add: sh_word_literal sh_word_escape del: sh_word.simps)

text \<open>A piece starts a word and is not empty in the text.\<close>

lemma piece_out_head:
  "piece_ok p \<Longrightarrow> \<exists>c u. piece_out cwd current alternate p = c # u \<and> \<not> sh_blank c \<and> \<not> sh_operator c"
proof (cases p)
  case (Literal t)
  moreover assume "piece_ok p"
  ultimately show ?thesis
    by (cases t) (auto simp: sh_special_def sh_blank_def sh_operator_def sh_redirect_def)
next
  case (FileRef is_current ms)
  have "\<exists>c u. shell_escape s = c # u \<and> \<not> sh_blank c \<and> \<not> sh_operator c" for s
  proof (cases "s \<noteq> [] \<and> \<not> list_ex shell_quoted s")
    case True
    then show ?thesis
      by (cases s) (auto simp: shell_escape_def shell_quoted_def sh_blank_def sh_operator_def sh_redirect_def)
  qed (auto simp: shell_escape_def)
  then show ?thesis using FileRef by simp
qed (auto simp: sh_blank_def sh_operator_def sh_redirect_def)

lemma sh_tokens_word:
  assumes "t = c # u" "\<not> sh_blank c" "\<not> sh_operator c"
  shows "sh_tokens t = (case sh_word t of None \<Rightarrow> None | Some (w, r) \<Rightarrow> map_option (Cons (ShWord w)) (sh_tokens r))"
  using assms by (simp del: sh_word.simps)

lemma follows_separator:
  "follows p (c # rest) \<Longrightarrow> sh_blank c \<or> sh_operator c \<Longrightarrow> sh_word (c # rest') = Some ([], c # rest')"
  by (simp add: follows_def)

lemma sh_tokens_template:
  "template_ok items \<Longrightarrow>
   sh_tokens (concat (map (item_out cwd current alternate) items)) = Some (template_tokens cwd current alternate items) \<and>
   (\<forall>p items'. items = Piece p # items' \<longrightarrow> (\<exists>w r ts. sh_word (concat (map (item_out cwd current alternate) items)) = Some (w, r) \<and>
      sh_tokens r = Some ts \<and> template_tokens cwd current alternate items = ShWord w # ts))"
proof (induction items rule: template_ok.induct)
  case (2 c items)
  then show ?case by auto
next
  case (3 p items)
  let ?rest = "concat (map (item_out cwd current alternate) items)"
  let ?v = "piece_value cwd current alternate p"
  from 3 have ok: "piece_ok p" "follows p (template items)" "template_ok items" by simp_all
  have "\<exists>w r ts. sh_word ?rest = Some (w, r) \<and> sh_tokens r = Some ts \<and>
      template_tokens cwd current alternate (Piece p # items) = ShWord (?v @ w) # ts"
  proof (cases items)
    case Nil
    then show ?thesis by simp
  next
    case (Cons i items')
    show ?thesis
    proof (cases i)
      case (Separator c)
      then have "sh_word ?rest = Some ([], ?rest)"
        using Cons ok follows_separator [of p c] by (simp add: template_def del: sh_word.simps)
      then show ?thesis using 3 ok Cons Separator by (simp del: sh_word.simps sh_tokens.simps)
    next
      case (Piece q)
      then show ?thesis using 3 ok Cons by (auto simp del: sh_word.simps sh_tokens.simps)
    qed
  qed
  then obtain w r ts where word: "sh_word (piece_out cwd current alternate p @ ?rest) = Some (?v @ w, r)"
    "sh_tokens r = Some ts" "template_tokens cwd current alternate (Piece p # items) = ShWord (?v @ w) # ts"
    using sh_word_piece [OF ok(1), of cwd current alternate ?rest] by (auto simp del: sh_word.simps template_tokens.simps)
  obtain c u where "piece_out cwd current alternate p = c # u" "\<not> sh_blank c" "\<not> sh_operator c"
    using piece_out_head [OF ok(1)] by blast
  then have "sh_tokens (piece_out cwd current alternate p @ ?rest) = Some (ShWord (?v @ w) # ts)"
    using sh_tokens_word [of "piece_out cwd current alternate p @ ?rest" c] word(1,2) by (simp del: sh_word.simps sh_tokens.simps)
  with word show ?case by (simp del: sh_word.simps sh_tokens.simps template_tokens.simps)
qed simp

section \<open>Properties\<close>

text \<open>
  C37. File names cannot break out of a shell command. A command is typed from blanks and operators
  and, between them, words of plain text, quoted text without an expansion or a reference in it, \<open>\%\<close>,
  and the references \<open>%\<close> and \<open>#\<close> outside quotes with any modifiers; a word does not run into \<open><\<close> or
  \<open>>\<close>, nor a reference into a colon. Whatever characters the names of the current and of the alternate
  file have, a shell that reads the expanded command sees the operators as they were typed and exactly
  the typed words, with the modified file name in the place of each reference. Inside quotes this does
  not hold: \<open>quoted_reference_splits\<close>.
\<close>

theorem file_names_are_single_words:
  assumes "template_ok items"
  shows "sh_tokens (expand_shell_command cwd (template items) current alternate) =
    Some (template_tokens cwd current alternate items)"
  using sh_tokens_template [OF assms] expand_template [OF assms, where 'e = unit]
  by (simp add: expand_shell_command_def del: sh_tokens.simps)

text \<open>\<open>cp %:t 'x y'# | wc\<close>\<close>

theorem file_names_are_single_words_witness:
  "sh_tokens (expand_shell_command None (rs ''cp %:t '' @ [39] @ rs ''x y'' @ [39] @ rs ''# | wc'') (rs ''d/a; b'' @ [39]) (rs ''$c'')) =
     Some [ShWord (rs ''cp''), ShWord (rs ''a; b'' @ [39]), ShWord (rs ''x y$c''), ShOperator (rc CHR ''|''), ShWord (rs ''wc'')]"
proof -
  let ?items = "[Piece (Literal (rs ''cp'')), Separator 32, Piece (FileRef True (rs ''t'')), Separator 32,
    Piece (SingleQuoted (rs ''x y'')), Piece (FileRef False []), Separator 32, Separator (rc CHR ''|''), Separator 32,
    Piece (Literal (rs ''wc''))]"
  have "template ?items = rs ''cp %:t '' @ [39] @ rs ''x y'' @ [39] @ rs ''# | wc''"
    "template_tokens None (rs ''d/a; b'' @ [39]) (rs ''$c'') ?items =
      [ShWord (rs ''cp''), ShWord (rs ''a; b'' @ [39]), ShWord (rs ''x y$c''), ShOperator (rc CHR ''|''), ShWord (rs ''wc'')]"
    by code_simp+
  moreover have "template_ok ?items"
    by (simp add: template_def follows_def sh_special_def sh_blank_def sh_operator_def sh_redirect_def verbatim_def)
  ultimately show ?thesis
    using file_names_are_single_words [of ?items None "rs ''d/a; b'' @ [39]" "rs ''$c''"] by (simp only:)
qed

text \<open>In \<open>echo '%'\<close> the name is quoted again, which ends the typed quotes: a name with a blank is two words.\<close>

lemma quoted_reference_splits:
  "sh_tokens (expand_shell_command None (rs ''echo '' @ [39, rc CHR ''%'', 39]) (rs ''a b'') []) =
     Some [ShWord (rs ''echo''), ShWord (rs ''a''), ShWord (rs ''b'')]"
  by code_simp

end
