(* ===== verification/ExRun.thy ===== *)
theory ExRun
  imports ExPattern ShellExpansion
begin

text \<open>
  Running ex command lines (ovim-core/src/commands.rs): the commands of a line one after the other,
  the checks in front of a handler, the dispatch to the handlers of ExEdit and ExPattern, and the
  limit on nested lines (\<open>nested\<close> of editor/execution.rs, \<open>finish_special\<close> and \<open>BufferKind::of\<close> of
  commands/contexts.rs).

  An outcome is \<open>None\<close> where the source panics. What the line needs of the rest of the editor is a
  record of operations: the kinds of special buffers and how they are left, the home directory, and
  \<open>env_other\<close>, which runs the handlers of other components and may run command lines itself (\<open>:source\<close>,
  \<open>:cdo\<close>, \<open>:normal\<close>), through the runner it is given.
\<close>

type_synonym ('r, 'f, 'a, 'g) outcome = "(command_result \<times> ('r, 'f, 'a, 'g) ex_editor) option"
type_synonym ('r, 'f, 'a, 'g) line_runner = "rstr \<Rightarrow> ('r, 'f, 'a, 'g) ex_editor \<Rightarrow> ('r, 'f, 'a, 'g) outcome"

record ('r, 'f, 'a, 'g, 'x) ex_env =
  env_rope :: "'r rope_ops"
  env_regex :: "'x regex_ops"
  env_unicode :: unicode_ops
  env_clipboard :: "'g clipboard_backend"
  env_fs :: "'f fs_ops"
  env_is_pseudocode :: "('r, 'f, 'a, 'g) ex_editor \<Rightarrow> bool"
  env_is_chat_scratch :: "('r, 'f, 'a, 'g) ex_editor \<Rightarrow> bool"
  env_is_commit_message :: "('r, 'f, 'a, 'g) ex_editor \<Rightarrow> bool"
  env_leave_pseudocode :: "('r, 'f, 'a, 'g) ex_editor \<Rightarrow> rstr option \<times> ('r, 'f, 'a, 'g) ex_editor"
  env_finish_chat :: "bool \<Rightarrow> ('r, 'f, 'a, 'g) ex_editor \<Rightarrow> rstr option \<times> ('r, 'f, 'a, 'g) ex_editor"
  env_finish_commit :: "bool \<Rightarrow> ('r, 'f, 'a, 'g) ex_editor \<Rightarrow> ('r, 'f, 'a, 'g) ex_editor"
  env_is_modified :: "('r, 'f, 'a, 'g) ex_editor \<Rightarrow> bool"
  env_home :: "rstr option"
  env_cwd :: "rstr option"
  env_other :: "('r, 'f, 'a, 'g) line_runner \<Rightarrow> handler \<Rightarrow> ex_call \<Rightarrow> ('r, 'f, 'a, 'g) ex_editor \<Rightarrow> ('r, 'f, 'a, 'g) outcome"

section \<open>Special buffers\<close>

definition buffer_kind_of :: "('r, 'f, 'a, 'g, 'x) ex_env \<Rightarrow> ('r, 'f, 'a, 'g) ex_editor \<Rightarrow> buffer_kind" where
  "buffer_kind_of W ed =
     (if env_is_pseudocode W ed then PseudocodeBuffer
      else if env_is_chat_scratch W ed then ChatScratchBuffer
      else if env_is_commit_message W ed then CommitMessageBuffer
      else NormalBuffer)"

fun finish_special ::
  "('r, 'f, 'a, 'g, 'x) ex_env \<Rightarrow> buffer_kind \<Rightarrow> lifecycle \<Rightarrow> bool \<Rightarrow> ('r, 'f, 'a, 'g) ex_editor \<Rightarrow>
   (command_result \<times> ('r, 'f, 'a, 'g) ex_editor) option" where
  "finish_special W NormalBuffer l bang ed = None"
| "finish_special W PseudocodeBuffer l bang ed =
     (if l = LifecycleQuit \<or> l = LifecycleDelete then
        (case env_leave_pseudocode W ed of
           (None, ed) \<Rightarrow> Some (cmd_ok_silent, ed)
         | (Some e, ed) \<Rightarrow> Some (cmd_err e, ed))
      else None)"
| "finish_special W ChatScratchBuffer l bang ed =
     (if l = LifecycleWrite then
        (case env_finish_chat W True ed of
           (None, ed) \<Rightarrow> Some (cmd_ok (rs ''Scratch content transferred to chat input''), ed)
         | (Some e, ed) \<Rightarrow> Some (cmd_err (rs ''Could not finish chat scratch: '' @ e), ed))
      else
        (case env_finish_chat W False ed of
           (None, ed) \<Rightarrow> Some (cmd_ok (rs ''Scratch buffer discarded''), ed)
         | (Some e, ed) \<Rightarrow> Some (cmd_err (rs ''Could not discard chat scratch: '' @ e), ed)))"
| "finish_special W CommitMessageBuffer l bang ed =
     (if l = LifecycleWrite then Some (cmd_ok_silent, env_finish_commit W True ed)
      else if (l = LifecycleQuit \<or> l = LifecycleDelete) \<and> \<not> bang \<and> env_is_modified W ed
      then Some (cmd_err (rs ''E37: No write since last change (:w commits, :q! aborts)''), ed)
      else Some (cmd_ok_silent, env_finish_commit W False ed))"

section \<open>File arguments\<close>

definition expand_tilde :: "rstr option \<Rightarrow> rstr \<Rightarrow> rstr + rstr" where
  "expand_tilde home path =
     (if path = rs ''~'' \<or> prefix (rs ''~/'') path then
        (case home of
           None \<Rightarrow> Inl (rs ''Could not determine home directory'')
         | Some dir \<Rightarrow> Inr (if path = rs ''~'' then dir else path_join dir (drop 2 path)))
      else Inr path)"

text \<open>The argument of a file command: what follows \<open>>>\<close> and blanks is the path.\<close>

definition marker_length :: "rstr \<Rightarrow> nat" where
  "marker_length args =
     (if prefix (rs ''>>'') args then length args - length (trim_start (drop 2 args)) else 0)"

definition expand_file_args ::
  "('r, 'f, 'a, 'g, 'x) ex_env \<Rightarrow> rstr \<Rightarrow> ('r, 'f, 'a, 'g) ex_editor \<Rightarrow> rstr + rstr" where
  "expand_file_args W args ed =
     (let marker = take (marker_length args) args; path = drop (marker_length args) args
      in case expand_tilde (env_home W) path of
           Inl error \<Rightarrow> Inl (rs ''Failed to expand path '' @ [39] @ path @ [39] @ rs '': '' @ error)
         | Inr home \<Rightarrow>
             push marker (expand_file_argument (env_cwd W) home
               (case view_file (ed_view ed) of Some name \<Rightarrow> name | None \<Rightarrow> [])
               (fst (register_get (env_clipboard W) (ed_registers ed) (Some (rc CHR ''#''))))))"

section \<open>Dispatch\<close>

definition run_handler ::
  "('r, 'f, 'a, 'g, 'x) ex_env \<Rightarrow> ('r, 'f, 'a, 'g) line_runner \<Rightarrow> handler \<Rightarrow> ex_call \<Rightarrow>
   ('r, 'f, 'a, 'g) ex_editor \<Rightarrow> ('r, 'f, 'a, 'g) outcome" where
  "run_handler W run h x ed =
     (let R = env_rope W; E = env_regex W; U = env_unicode W; C = env_clipboard W
      in if h = HandlerFn ''edit::goto_line'' then Some (goto_line R x ed)
         else if h = HandlerFn ''edit::delete'' then ex_delete R U C x ed
         else if h = HandlerFn ''edit::yank'' then ex_yank R C x ed
         else if h = HandlerFn ''edit::join'' then ex_join R U x ed
         else if h = HandlerFn ''edit::sort'' then ex_sort R U x ed
         else if h = HandlerFn ''edit::copy'' then ex_copy R E x ed
         else if h = HandlerFn ''edit::move_lines'' then ex_move R E x ed
         else if h = HandlerFn ''edit::print'' then ex_print R U x ed
         else if h = HandlerFn ''edit::undo'' then Some (ex_undo R (env_fs W) ed)
         else if h = HandlerFn ''edit::redo'' then Some (ex_redo R (env_fs W) ed)
         else if h = HandlerFn ''pattern::substitute'' then ex_substitute R E U x ed
         else if h = HandlerFn ''pattern::global'' then ex_global R E U C run x ed
         else env_other W run h x ed)"

definition parsed_call :: "parsed_cmd \<Rightarrow> rstr \<Rightarrow> line_range option \<Rightarrow> ex_call" where
  "parsed_call p args r =
     \<lparr>call_name = hd (ex_names (pc_command p)), call_bang = pc_bang p, call_args = args, call_range = r,
      call_explicit_range = (pc_range p \<noteq> None),
      call_addresses = (case pc_range p of None \<Rightarrow> 0 | Some spec \<Rightarrow> length spec)\<rparr>"

definition run_checked ::
  "('r, 'f, 'a, 'g, 'x) ex_env \<Rightarrow> ('r, 'f, 'a, 'g) line_runner \<Rightarrow> parsed_cmd \<Rightarrow>
   ('r, 'f, 'a, 'g) ex_editor \<Rightarrow> ('r, 'f, 'a, 'g) outcome" where
  "run_checked W run p ed =
     (let command = pc_command p
      in if \<not> contexts_allows (ex_contexts command) (buffer_kind_of W ed)
         then Some (cmd_err (rs (kind_refusal (buffer_kind_of W ed))), ed)
         else case resolve_range (env_rope W) (env_regex W) (ed_doc ed) (ed_view ed) (ex_range command) (pc_range p) of
                Inl AddressOverflow \<Rightarrow> None
              | Inl e \<Rightarrow> Some (cmd_err (range_error_message e), ed)
              | Inr r \<Rightarrow>
                  (case (if ex_args command = ArgFile \<and> pc_args p \<noteq> [] \<and> \<not> starts_with_any [rc CHR ''!''] (pc_args p)
                         then expand_file_args W (pc_args p) ed else Inr (pc_args p)) of
                     Inl message \<Rightarrow> Some (cmd_err message, ed)
                   | Inr args \<Rightarrow>
                       if ex_args command = ArgNone \<and> args \<noteq> []
                       then Some (cmd_err (rs ''E488: Trailing characters: '' @ args), ed)
                       else run_handler W run (ex_handler command) (parsed_call p args r) ed))"

definition run_parsed ::
  "('r, 'f, 'a, 'g, 'x) ex_env \<Rightarrow> ('r, 'f, 'a, 'g) line_runner \<Rightarrow> parsed_cmd \<Rightarrow>
   ('r, 'f, 'a, 'g) ex_editor \<Rightarrow> ('r, 'f, 'a, 'g) outcome" where
  "run_parsed W run p ed =
     (case (case ex_lifecycle (pc_command p) of
              Some l \<Rightarrow> finish_special W (buffer_kind_of W ed) l (pc_bang p) ed
            | None \<Rightarrow> None) of
        Some result \<Rightarrow> Some result
      | None \<Rightarrow> run_checked W run p ed)"

section \<open>Command lines\<close>

lemma parse_ex_next_shorter:
  assumes "parse_ex alnum line = Inr p" and "pc_next p = Some n"
  shows "length n < length line"
proof -
  obtain args where "suffix args line" "splits_text args (split_args alnum (ex_args (pc_command p)) args)"
    "snd (split_args alnum (ex_args (pc_command p)) args) = Some n"
    using parse_ex_result [OF assms(1)] assms(2) by metis
  then show ?thesis
    by (auto simp: splits_text_def dest!: suffix_length_le)
qed

lemma str_trim_length: "length (str_trim s) \<le> length s"
  unfolding str_trim_def
  using length_dropWhile_le [of is_whitespace s] length_dropWhile_le [of is_whitespace "rev (dropWhile is_whitespace s)"]
  by simp

text \<open>
  The loop of \<open>run_commands\<close> over the commands of a line. It ends because every command leaves a
  shorter rest, whatever \<open>run\<close> does.
\<close>

function run_commands_loop ::
  "(rchar \<Rightarrow> bool) \<Rightarrow> (parsed_cmd \<Rightarrow> 'e \<Rightarrow> (command_result \<times> 'e) option) \<Rightarrow> rstr \<Rightarrow> command_result \<Rightarrow> 'e \<Rightarrow>
   (command_result \<times> 'e) option" where
  "run_commands_loop alnum run rest result ed =
     (let t = str_trim rest
      in if t = [] then Some (result, ed)
         else case parse_ex alnum t of
                Inl OffsetOverflow \<Rightarrow> None
              | Inl e \<Rightarrow> Some (cmd_err (parse_error_message t e), ed)
              | Inr p \<Rightarrow>
                  (case run p ed of
                     None \<Rightarrow> None
                   | Some (Failure message, ed) \<Rightarrow> Some (Failure message, ed)
                   | Some (Success message, ed) \<Rightarrow>
                       (let result = (if message \<noteq> None then Success message else result)
                        in case pc_next p of
                             Some n \<Rightarrow> run_commands_loop alnum run n result ed
                           | None \<Rightarrow> Some (result, ed))))"
  by pat_completeness auto

termination
  by (relation "measure (\<lambda>(alnum, run, rest, result, ed). length rest)")
    (auto dest!: parse_ex_next_shorter intro: less_le_trans [OF _ str_trim_length])

declare run_commands_loop.simps [simp del]

definition ex_run_commands ::
  "('r, 'f, 'a, 'g, 'x) ex_env \<Rightarrow> ('r, 'f, 'a, 'g) line_runner \<Rightarrow> rstr \<Rightarrow> ('r, 'f, 'a, 'g) ex_editor \<Rightarrow>
   ('r, 'f, 'a, 'g) outcome" where
  "ex_run_commands W run line ed =
     run_commands_loop (uni_alphanumeric (env_unicode W)) (run_parsed W run) line cmd_ok_silent ed"

definition max_ex_line_depth :: nat where
  "max_ex_line_depth = 100"

text \<open>\<open>nested\<close> for command lines; \<open>Inl\<close> when the nesting is already too deep.\<close>

definition nested_ex_line ::
  "(('r, 'f, 'a, 'g) ex_editor \<Rightarrow> ('r, 'f, 'a, 'g) outcome) \<Rightarrow> ('r, 'f, 'a, 'g) ex_editor \<Rightarrow>
   unit + ('r, 'f, 'a, 'g) outcome" where
  "nested_ex_line body ed =
     (if ed_ex_depth ed \<ge> max_ex_line_depth then Inl ()
      else Inr (case body (ed\<lparr>ed_ex_depth := ed_ex_depth ed + 1\<rparr>) of
                  None \<Rightarrow> None
                | Some (result, ed) \<Rightarrow> Some (result, ed\<lparr>ed_ex_depth := ed_ex_depth ed - 1\<rparr>)))"

text \<open>
  \<open>run_line\<close> and \<open>run_commands\<close> call each other through the handlers. The first argument bounds the
  number of nested calls; without any left the outcome is \<open>None\<close>. 101 calls are enough: the 101st
  finds the depth at its limit.
\<close>

primrec run_line_within ::
  "nat \<Rightarrow> ('r, 'f, 'a, 'g, 'x) ex_env \<Rightarrow> ('r, 'f, 'a, 'g) line_runner" where
  "run_line_within 0 W line ed = None"
| "run_line_within (Suc fuel) W line ed =
     (case nested_ex_line (ex_run_commands W (run_line_within fuel W) line) ed of
        Inl _ \<Rightarrow> Some (cmd_err (rs ''E169: Command too recursive''), ed)
      | Inr outcome \<Rightarrow> outcome)"

definition run_line :: "('r, 'f, 'a, 'g, 'x) ex_env \<Rightarrow> ('r, 'f, 'a, 'g) line_runner" where
  "run_line W = run_line_within (Suc max_ex_line_depth) W"

text \<open>\<open>execute_command\<close> runs the line in one clipboard scope.\<close>

definition execute_command :: "('r, 'f, 'a, 'g, 'x) ex_env \<Rightarrow> ('r, 'f, 'a, 'g) line_runner" where
  "execute_command W line ed =
     (let ed = upd_registers (\<lambda>m. m\<lparr>reg_clipboard := clipboard_begin_execution (reg_clipboard m)\<rparr>) ed
      in case run_line W line ed of
           None \<Rightarrow> None
         | Some (result, ed) \<Rightarrow>
             (case clipboard_end_execution (env_clipboard W) (reg_clipboard (ed_registers ed)) of
                None \<Rightarrow> None
              | Some cb \<Rightarrow> Some (result, upd_registers (\<lambda>m. m\<lparr>reg_clipboard := cb\<rparr>) ed)))"

end
