(* ===== verification/ExRunLaws.thy ===== *)
theory ExRunLaws
  imports ExRun ExPatternLaws ExUndo
begin

text \<open>
  Laws of the runner of command lines: every handler keeps the nesting depth, two runners that agree
  at a depth cannot be told apart by a command run at that depth, enough nested calls are as good as
  any number, and a line is the list of its commands, run in order.
\<close>

section \<open>The nesting depth\<close>

definition keeps_depth :: "(('r, 'f, 'a, 'g) ex_editor \<Rightarrow> ('r, 'f, 'a, 'g) outcome) \<Rightarrow> bool" where
  "keeps_depth f \<longleftrightarrow> (\<forall>ed result ed'. f ed = Some (result, ed') \<longrightarrow> ed_ex_depth ed' = ed_ex_depth ed)"

lemma keeps_depthD: "keeps_depth f \<Longrightarrow> f ed = Some (result, ed') \<Longrightarrow> ed_ex_depth ed' = ed_ex_depth ed"
  by (auto simp: keeps_depth_def)

named_theorems depth_kept

lemma depth_upd [depth_kept]:
  "ed_ex_depth (upd_buffer f ed) = ed_ex_depth ed"
  "ed_ex_depth (upd_registers g ed) = ed_ex_depth ed"
  "ed_ex_depth (set_pending_register c ed) = ed_ex_depth ed"
  "ed_ex_depth (cursor_to_first_non_blank R U line ed) = ed_ex_depth ed"
  "ed_ex_depth (set_last_search_pattern t ed) = ed_ex_depth ed"
  by (simp_all add: upd_buffer_def upd_registers_def set_pending_register_def cursor_to_first_non_blank_def
      set_last_search_pattern_def Let_def)

lemma depth_record [depth_kept]: "ed_ex_depth (snd (ed_record f ed)) = ed_ex_depth ed"
  by (simp add: ed_record_def split: prod.splits)

lemma depth_registers [depth_kept]:
  "ed_ex_depth (sync_clipboard_option C t ed) = ed_ex_depth ed"
  "ed_ex_depth (yank_to_register_with_type C t ty ed) = ed_ex_depth ed"
  "ed_ex_depth (delete_to_register_with_type C t ty ed) = ed_ex_depth ed"
  by (simp_all add: sync_clipboard_option_def yank_to_register_with_type_def delete_to_register_with_type_def
      Let_def depth_kept split: option.splits)

lemma depth_substitute_lines [depth_kept]: "ed_ex_depth (snd (substitute_lines R E U s ls ed)) = ed_ex_depth ed"
  by (simp add: substitute_lines_def Let_def depth_kept split: prod.splits option.splits)

lemma depth_parse_substitution [depth_kept]: "ed_ex_depth (snd (parse_substitution E U body ed)) = ed_ex_depth ed"
  by (simp add: parse_substitution_def Let_def depth_kept split: prod.splits option.splits)

lemma depth_confirm [depth_kept]: "ed_ex_depth (start_substitute_confirm found ed) = ed_ex_depth ed"
  by (simp add: start_substitute_confirm_def Let_def depth_kept split: list.splits prod.splits)

lemma depth_edit_commands:
  "keeps_depth (ex_delete R U C x)" "keeps_depth (ex_yank R C x)" "keeps_depth (ex_join R U x)"
  "keeps_depth (ex_sort R U x)" "keeps_depth (ex_copy R E x)" "keeps_depth (ex_move R E x)"
  "keeps_depth (ex_print R U x)"
  by (auto simp: keeps_depth_def ex_delete_def ex_yank_def ex_join_def ex_sort_def ex_copy_def ex_move_def ex_print_def
      Let_def case_prod_beta depth_kept split: option.splits sum.splits if_splits)

lemma depth_other_edits:
  "keeps_depth (\<lambda>ed. Some (goto_line R x ed))" "keeps_depth (\<lambda>ed. Some (ex_undo R F ed))" "keeps_depth (\<lambda>ed. Some (ex_redo R F ed))"
  by (auto simp: keeps_depth_def goto_line_def ex_undo_def ex_redo_def Let_def depth_kept split: option.splits)


lemma depth_substitute: "keeps_depth (ex_substitute R E U x)"
proof -
  have start: "ed_ex_depth ed' = ed_ex_depth ed" if "parse_substitution E U body ed = (p, ed')" for body ed p ed'
    using depth_parse_substitution [of E U body ed] that by simp
  have lines: "ed_ex_depth ed' = ed_ex_depth ed" if "substitute_lines R E U s ls ed = (n, ed')" for s ls ed n ed'
    using depth_substitute_lines [of R E U s ls ed] that by simp
  show ?thesis
    by (auto simp: keeps_depth_def ex_substitute_def Let_def depth_kept dest!: start lines
        split: sum.splits option.splits prod.splits if_splits)
qed

text \<open>
  Two line runners that keep the depth and agree on the editors at depth \<open>n\<close>: no handler that runs
  lines at that depth tells them apart.
\<close>

definition runners_agree :: "nat \<Rightarrow> ('r, 'f, 'a, 'g) line_runner \<Rightarrow> ('r, 'f, 'a, 'g) line_runner \<Rightarrow> bool" where
  "runners_agree n run run' \<longleftrightarrow>
     (\<forall>line. keeps_depth (run line)) \<and> (\<forall>line ed. ed_ex_depth ed = n \<longrightarrow> run line ed = run' line ed)"

lemma global_each_loop_agree:
  "runners_agree n run run' \<Longrightarrow> ed_ex_depth ed = n \<Longrightarrow>
   global_each_loop R run command buffer marked result ed = global_each_loop R run' command buffer marked result ed \<and>
   (\<forall>r ed'. global_each_loop R run command buffer marked result ed = Some (r, ed') \<longrightarrow> ed_ex_depth ed' = n)"
proof (induction R run command buffer marked result ed rule: global_each_loop.induct)
  case (1 R run command buffer marked result ed)
  note unfold = global_each_loop.simps [of R run command buffer marked result ed]
    global_each_loop.simps [of R run' command buffer marked result ed]
  let ?m = "marked_next R (buf_rope (ed_buffer ed)) marked"
  show ?case
  proof (cases "fst ?m")
    case None
    then show ?thesis using "1.prems" unfolding unfold by (auto split: prod.splits)
  next
    case (Some line)
    obtain marked' where m: "?m = (Some line, marked')" using Some by (cases ?m) auto
    let ?ed = "upd_buffer (buffer_set_cursor_line line) ed"
    have depth: "ed_ex_depth ?ed = n" using "1.prems" by (simp add: depth_kept)
    then have same: "run' command ?ed = run command ?ed" using "1.prems"(1) by (simp add: runners_agree_def)
    show ?thesis
    proof (cases "run command ?ed")
      case None
      then show ?thesis unfolding unfold by (simp add: m same Let_def)
    next
      case (Some p)
      obtain r ed1 where p: "p = (r, ed1)" by (cases p)
      have depth1: "ed_ex_depth ed1 = n"
        using "1.prems"(1) Some p depth keeps_depthD unfolding runners_agree_def by metis
      show ?thesis
      proof (cases r)
        case (Success message)
        show ?thesis
        proof (cases "ed_buffer_id ed1 = buffer")
          case True
          then have "\<not> ed_buffer_id ed1 \<noteq> buffer" by simp
          note IH = "1.IH" [OF m [symmetric] refl refl refl refl Some [unfolded p Success] refl refl this "1.prems"(1) depth1]
          show ?thesis
            using IH True Some p Success same by (simp add: unfold m Let_def)
        qed (use depth1 Some p Success same in \<open>simp add: unfold m Let_def\<close>)
      qed (use depth1 Some p same in \<open>simp add: unfold m Let_def\<close>)
    qed
  qed
qed

lemma one_undo_step_depth:
  "ed_ex_depth ed = n \<Longrightarrow> \<forall>r ed'. body ed = Some (r, ed') \<longrightarrow> ed_ex_depth ed' = n \<Longrightarrow>
   one_undo_step body ed = Some (r, ed') \<Longrightarrow> ed_ex_depth ed' = n"
  by (auto simp: one_undo_step_def Let_def split: option.splits if_splits)

text \<open>\<open>same_at n f g\<close>: from an editor at depth \<open>n\<close> both give the same outcome, at the same depth.\<close>

definition same_at ::
  "nat \<Rightarrow> (('r, 'f, 'a, 'g) ex_editor \<Rightarrow> ('r, 'f, 'a, 'g) outcome) \<Rightarrow>
   (('r, 'f, 'a, 'g) ex_editor \<Rightarrow> ('r, 'f, 'a, 'g) outcome) \<Rightarrow> bool" where
  "same_at n f g \<longleftrightarrow>
     (\<forall>ed. ed_ex_depth ed = n \<longrightarrow> f ed = g ed \<and> (\<forall>r ed'. f ed = Some (r, ed') \<longrightarrow> ed_ex_depth ed' = n))"

lemma same_atI: "keeps_depth f \<Longrightarrow> same_at n f f"
  by (auto simp: same_at_def keeps_depth_def)

lemma same_atD:
  "same_at n f g \<Longrightarrow> ed_ex_depth ed = n \<Longrightarrow> f ed = g ed"
  "same_at n f g \<Longrightarrow> ed_ex_depth ed = n \<Longrightarrow> f ed = Some (r, ed') \<Longrightarrow> ed_ex_depth ed' = n"
  unfolding same_at_def by blast+

lemma depth_global_parts:
  "ed_ex_depth (snd (global_delete R U C ls ed)) = ed_ex_depth ed"
  "ed_ex_depth (snd (global_yank R C ls ed)) = ed_ex_depth ed"
  "ed_ex_depth (snd (global_print R U ls ed)) = ed_ex_depth ed"
  "ed_ex_depth (snd (global_substitute R E U ls body ed)) = ed_ex_depth ed"
proof -
  show "ed_ex_depth (snd (global_delete R U C ls ed)) = ed_ex_depth ed"
    by (simp add: global_delete_def Let_def depth_kept case_prod_beta)
  show "ed_ex_depth (snd (global_yank R C ls ed)) = ed_ex_depth ed"
    by (simp add: global_yank_def Let_def depth_kept)
  show "ed_ex_depth (snd (global_print R U ls ed)) = ed_ex_depth ed"
    by (simp add: global_print_def Let_def depth_kept)
  show "ed_ex_depth (snd (global_substitute R E U ls body ed)) = ed_ex_depth ed"
    using depth_parse_substitution [of E U body ed]
    by (auto simp: global_substitute_def depth_kept case_prod_beta split: prod.splits sum.splits)
qed

lemma global_run_agree:
  fixes run :: "('r, 'f, 'a, 'g) line_runner"
  assumes "runners_agree n run run'"
  shows "same_at n (global_run R E U C run command ls) (global_run R E U C run' command ls)"
  unfolding same_at_def
proof (intro allI impI)
  fix ed :: "('r, 'f, 'a, 'g) ex_editor"
  assume depth: "ed_ex_depth ed = n"
  have each: "global_each_line R run' ls command ed = global_each_line R run ls command ed"
    "\<forall>r ed'. global_each_line R run ls command ed = Some (r, ed') \<longrightarrow> ed_ex_depth ed' = n"
    using global_each_loop_agree [OF assms depth] by (auto simp: global_each_line_def)
  then have "one_undo_step (global_each_line R run' ls command) ed = one_undo_step (global_each_line R run ls command) ed"
    by (simp add: one_undo_step_def)
  moreover have "ed_ex_depth ed' = n" if "one_undo_step (global_each_line R run ls command) ed = Some (r, ed')" for r ed'
    using one_undo_step_depth [where body = "global_each_line R run ls command", OF depth each(2) that] .
  moreover have parts:
    "global_delete R U C ls ed = (r, ed') \<Longrightarrow> ed_ex_depth ed' = n"
    "global_yank R C ls ed = (r, ed') \<Longrightarrow> ed_ex_depth ed' = n"
    "global_print R U ls ed = (r, ed') \<Longrightarrow> ed_ex_depth ed' = n"
    "global_substitute R E U ls body ed = (r, ed') \<Longrightarrow> ed_ex_depth ed' = n" for body r ed'
    using depth_global_parts(1) [of R U C ls ed] depth_global_parts(2) [of R C ls ed] depth_global_parts(3) [of R U ls ed]
      depth_global_parts(4) [of R E U ls body ed] depth by simp_all
  ultimately show "global_run R E U C run command ls ed = global_run R E U C run' command ls ed \<and>
      (\<forall>r ed'. global_run R E U C run command ls ed = Some (r, ed') \<longrightarrow> ed_ex_depth ed' = n)"
    using depth unfolding global_run_def Let_def
    by (auto simp del: rs_simps rc_simps split: sum.split parse_error.split)
qed

lemma ex_global_agree:
  fixes run :: "('r, 'f, 'a, 'g) line_runner"
  assumes "runners_agree n run run'"
  shows "same_at n (ex_global R E U C run x) (ex_global R E U C run' x)"
  unfolding same_at_def
proof (intro allI impI)
  fix ed :: "('r, 'f, 'a, 'g) ex_editor"
  assume depth: "ed_ex_depth ed = n"
  have run: "global_run R E U C run command ls (set_last_search_pattern pat ed) =
      global_run R E U C run' command ls (set_last_search_pattern pat ed)"
    "global_run R E U C run command ls (set_last_search_pattern pat ed) = Some (r, ed') \<Longrightarrow> ed_ex_depth ed' = n"
    for command ls pat r ed'
    using same_atD [OF global_run_agree [OF assms, of R E U C command ls], of "set_last_search_pattern pat ed"] depth
    by (simp_all add: depth_kept)
  show "ex_global R E U C run x ed = ex_global R E U C run' x ed \<and>
      (\<forall>r ed'. ex_global R E U C run x ed = Some (r, ed') \<longrightarrow> ed_ex_depth ed' = n)"
    using depth by (auto simp: ex_global_def Let_def run depth_kept dest!: run(2) split: option.splits prod.splits if_splits)
qed


section \<open>The recursion of command lines\<close>

text \<open>
  What is asked of the operations that are parameters: leaving a special buffer and the other
  handlers keep the depth (every \<open>nested\<close> undoes its own step), and a handler that runs lines does
  so at the depth it was called at.
\<close>

definition env_ok :: "('r, 'f, 'a, 'g, 'x) ex_env \<Rightarrow> bool" where
  "env_ok W \<longleftrightarrow>
     (\<forall>ed. ed_ex_depth (snd (env_leave_pseudocode W ed)) = ed_ex_depth ed) \<and>
     (\<forall>keep ed. ed_ex_depth (snd (env_finish_chat W keep ed)) = ed_ex_depth ed) \<and>
     (\<forall>keep ed. ed_ex_depth (env_finish_commit W keep ed) = ed_ex_depth ed) \<and>
     (\<forall>n run run' h x. runners_agree n run run' \<longrightarrow> same_at n (env_other W run h x) (env_other W run' h x))"

lemma same_at_if:
  "same_at n f g \<Longrightarrow> same_at n f' g' \<Longrightarrow> same_at n (\<lambda>ed. if c then f ed else f' ed) (\<lambda>ed. if c then g ed else g' ed)"
  by (cases c) simp_all

lemma run_handler_agree:
  assumes "env_ok W" and "runners_agree n run run'"
  shows "same_at n (run_handler W run h x) (run_handler W run' h x)"
proof -
  have other: "same_at n (env_other W run h x) (env_other W run' h x)"
    using assms by (auto simp: env_ok_def)
  show ?thesis
    unfolding run_handler_def [abs_def] Let_def
    by (intro same_at_if other ex_global_agree [OF assms(2)]
        depth_edit_commands [THEN same_atI] depth_other_edits [THEN same_atI] depth_substitute [THEN same_atI])
qed

lemma finish_special_depth:
  assumes "env_ok W" and "finish_special W kind l bang ed = Some (r, ed')"
  shows "ed_ex_depth ed' = ed_ex_depth ed"
proof -
  have "env_leave_pseudocode W ed = (e, ed1) \<Longrightarrow> ed_ex_depth ed1 = ed_ex_depth ed"
    "env_finish_chat W keep ed = (e, ed1) \<Longrightarrow> ed_ex_depth ed1 = ed_ex_depth ed"
    "ed_ex_depth (env_finish_commit W keep ed) = ed_ex_depth ed" for e ed1 keep
    using assms(1) unfolding env_ok_def by (metis snd_conv)+
  then show ?thesis
    using assms(2) by (cases kind) (auto simp del: rs_simps split: if_splits option.splits prod.splits)
qed

lemma run_parsed_agree:
  fixes run :: "('r, 'f, 'a, 'g) line_runner"
  assumes "env_ok W" and "runners_agree n run run'"
  shows "same_at n (run_parsed W run p) (run_parsed W run' p)"
  unfolding same_at_def
proof (intro allI impI)
  fix ed :: "('r, 'f, 'a, 'g) ex_editor"
  assume depth: "ed_ex_depth ed = n"
  have same: "run_handler W run' h x ed = run_handler W run h x ed"
    and keep: "run_handler W run h x ed = Some (r, ed') \<Longrightarrow> ed_ex_depth ed' = n" for h x r ed'
    using same_atD [OF run_handler_agree [OF assms, of h x] depth] by auto
  have checked: "run_checked W run' p ed = run_checked W run p ed"
    unfolding run_checked_def same by (rule refl)
  have "ed_ex_depth ed' = n" if "run_checked W run p ed = Some (r, ed')" for r ed'
    using that depth keep unfolding run_checked_def Let_def
    by (auto simp del: rs_simps rc_simps split: sum.splits range_error.splits if_splits)
  moreover have "ed_ex_depth ed' = n" if "finish_special W kind l bang ed = Some (r, ed')" for kind l bang r ed'
    using finish_special_depth [OF assms(1) that] depth by simp
  ultimately show "run_parsed W run p ed = run_parsed W run' p ed \<and>
      (\<forall>r ed'. run_parsed W run p ed = Some (r, ed') \<longrightarrow> ed_ex_depth ed' = n)"
    by (simp add: run_parsed_def checked split: option.split)
qed

lemma run_commands_loop_agree:
  fixes run :: "parsed_cmd \<Rightarrow> ('r, 'f, 'a, 'g) ex_editor \<Rightarrow> ('r, 'f, 'a, 'g) outcome"
  assumes "\<And>p. same_at n (run p) (run' p)"
  shows "same_at n (run_commands_loop alnum run line result) (run_commands_loop alnum run' line result)"
proof (induction "length line" arbitrary: line result rule: less_induct)
  case less
  show ?case
    unfolding same_at_def
  proof (intro allI impI)
    fix ed :: "('r, 'f, 'a, 'g) ex_editor"
    assume depth: "ed_ex_depth ed = n"
    note step = run_commands_loop.simps [of alnum run line result ed] run_commands_loop.simps [of alnum run' line result ed]
    show "run_commands_loop alnum run line result ed = run_commands_loop alnum run' line result ed \<and>
        (\<forall>r ed'. run_commands_loop alnum run line result ed = Some (r, ed') \<longrightarrow> ed_ex_depth ed' = n)"
    proof (cases "parse_ex alnum (str_trim line)")
      case (Inl e)
      then show ?thesis using depth unfolding step by (simp add: Let_def split: parse_error.splits)
    next
      case (Inr p)
      have same: "run' p ed = run p ed" and keep: "\<And>r ed'. run p ed = Some (r, ed') \<Longrightarrow> ed_ex_depth ed' = n"
        using same_atD [OF assms depth] by auto
      have rest: "same_at n (run_commands_loop alnum run m result) (run_commands_loop alnum run' m result)"
        if "pc_next p = Some m" for m result
        using less parse_ex_next_shorter [OF Inr that] str_trim_length [of line] by simp
      show ?thesis
      proof (cases "run p ed")
        case None
        then show ?thesis using Inr same depth unfolding step by (simp add: Let_def)
      next
        case (Some q)
        obtain r ed1 where q: "q = (r, ed1)" by (cases q)
        with Some keep have depth1: "ed_ex_depth ed1 = n" by blast
        note facts = Inr same depth Some q depth1
        show ?thesis
        proof (cases "\<exists>message m. r = Success message \<and> pc_next p = Some m")
          case True
          then obtain message m where m: "r = Success message" "pc_next p = Some m" by blast
          show ?thesis
            using same_atD [OF rest [OF m(2)] depth1] facts m unfolding step by (simp add: Let_def)
        next
          case False
          then show ?thesis
            using facts unfolding step by (cases r; cases "pc_next p") (auto simp: Let_def)
        qed
      qed
    qed
  qed
qed

lemma run_commands_agree:
  "env_ok W \<Longrightarrow> runners_agree n run run' \<Longrightarrow> same_at n (ex_run_commands W run line) (ex_run_commands W run' line)"
  unfolding ex_run_commands_def [abs_def] by (intro run_commands_loop_agree run_parsed_agree)


lemma run_line_within_step:
  "ed_ex_depth ed < max_ex_line_depth \<Longrightarrow>
   run_line_within (Suc fuel) W line ed =
     (case ex_run_commands W (run_line_within fuel W) line (ed\<lparr>ed_ex_depth := ed_ex_depth ed + 1\<rparr>) of
        None \<Rightarrow> None
      | Some (result, ed) \<Rightarrow> Some (result, ed\<lparr>ed_ex_depth := ed_ex_depth ed - 1\<rparr>))"
  "\<not> ed_ex_depth ed < max_ex_line_depth \<Longrightarrow>
   run_line_within (Suc fuel) W line ed = Some (cmd_err (rs ''E169: Command too recursive''), ed)"
  by (simp_all add: nested_ex_line_def)

lemma run_line_within_keeps:
  assumes "env_ok W"
  shows "keeps_depth (run_line_within fuel W line)"
proof (induction fuel arbitrary: line)
  case 0
  show ?case by (simp add: keeps_depth_def)
next
  case (Suc fuel)
  then have agree: "runners_agree n (run_line_within fuel W) (run_line_within fuel W)" for n
    by (simp add: runners_agree_def)
  show ?case
    unfolding keeps_depth_def
  proof (intro allI impI)
    fix ed r ed'
    assume run: "run_line_within (Suc fuel) W line ed = Some (r, ed')"
    show "ed_ex_depth ed' = ed_ex_depth ed"
    proof (cases "ed_ex_depth ed < max_ex_line_depth")
      case True
      let ?ed = "ed\<lparr>ed_ex_depth := ed_ex_depth ed + 1\<rparr>"
      have "\<exists>ed1. ex_run_commands W (run_line_within fuel W) line ?ed = Some (r, ed1) \<and>
          ed' = ed1\<lparr>ed_ex_depth := ed_ex_depth ed1 - 1\<rparr>"
        using run unfolding run_line_within_step(1) [OF True]
        by (cases "ex_run_commands W (run_line_within fuel W) line ?ed") (simp_all split: prod.splits)
      then obtain ed1 where ed1: "ex_run_commands W (run_line_within fuel W) line ?ed = Some (r, ed1)"
        "ed' = ed1\<lparr>ed_ex_depth := ed_ex_depth ed1 - 1\<rparr>" by blast
      have "ed_ex_depth ?ed = Suc (ed_ex_depth ed)" by simp
      from same_atD(2) [OF run_commands_agree [OF assms agree] this ed1(1)]
      have "ed_ex_depth ed1 = Suc (ed_ex_depth ed)" .
      then show ?thesis by (simp add: ed1(2))
    next
      case False
      then show ?thesis using run by (simp add: run_line_within_step del: run_line_within.simps)
    qed
  qed
qed

lemma run_line_within_enough:
  assumes "env_ok W"
  shows "0 < fuel \<Longrightarrow> 0 < fuel' \<Longrightarrow> max_ex_line_depth < fuel + n \<Longrightarrow> max_ex_line_depth < fuel' + n \<Longrightarrow>
    ed_ex_depth ed = n \<Longrightarrow> run_line_within fuel W line ed = run_line_within fuel' W line ed"
proof (induction fuel arbitrary: fuel' n ed line)
  case (Suc fuel)
  then obtain k where k: "fuel' = Suc k" by (cases fuel') auto
  show ?case
  proof (cases "n < max_ex_line_depth")
    case True
    then have "runners_agree (Suc n) (run_line_within fuel W) (run_line_within k W)"
      using Suc.IH [of k "Suc n"] Suc.prems k run_line_within_keeps [OF assms] by (simp add: runners_agree_def)
    from same_atD(1) [OF run_commands_agree [OF assms this], of "ed\<lparr>ed_ex_depth := ed_ex_depth ed + 1\<rparr>" line]
    show ?thesis
      using True k Suc.prems(5) by (simp add: run_line_within_step del: run_line_within.simps(2))
  next
    case False
    then show ?thesis
      using Suc.prems(5) k by (simp add: run_line_within_step del: run_line_within.simps(2))
  qed
qed simp

section \<open>Lines as lists of commands\<close>

text \<open>The commands of a line, parsed one after the other, and what stopped the parser.\<close>

function line_commands :: "(rchar \<Rightarrow> bool) \<Rightarrow> rstr \<Rightarrow> parsed_cmd list \<times> (rstr \<times> parse_error) option" where
  "line_commands alnum rest =
     (let t = str_trim rest
      in if t = [] then ([], None)
         else case parse_ex alnum t of
                Inl e \<Rightarrow> ([], Some (t, e))
              | Inr p \<Rightarrow>
                  (case pc_next p of
                     None \<Rightarrow> ([p], None)
                   | Some n \<Rightarrow> apfst (Cons p) (line_commands alnum n)))"
  by pat_completeness auto

termination
  by (relation "measure (\<lambda>(alnum, rest). length rest)")
    (auto dest!: parse_ex_next_shorter intro: less_le_trans [OF _ str_trim_length])

declare line_commands.simps [simp del]

text \<open>Running commands in order: the last message is the result, the first failure ends the run.\<close>

fun run_in_order ::
  "(parsed_cmd \<Rightarrow> 'e \<Rightarrow> (command_result \<times> 'e) option) \<Rightarrow> (rstr \<times> parse_error) option \<Rightarrow> command_result \<Rightarrow>
   parsed_cmd list \<Rightarrow> 'e \<Rightarrow> (command_result \<times> 'e) option" where
  "run_in_order run stop result [] ed =
     (case stop of
        None \<Rightarrow> Some (result, ed)
      | Some (t, e) \<Rightarrow> if e = OffsetOverflow then None else Some (Failure (parse_error_message t e), ed))"
| "run_in_order run stop result (p # ps) ed =
     (case run p ed of
        None \<Rightarrow> None
      | Some (Failure message, ed) \<Rightarrow> Some (Failure message, ed)
      | Some (Success None, ed) \<Rightarrow> run_in_order run stop result ps ed
      | Some (Success (Some message), ed) \<Rightarrow> run_in_order run stop (Success (Some message)) ps ed)"

lemma run_commands_loop_order:
  "run_commands_loop alnum run line result ed =
   (case line_commands alnum line of (ps, stop) \<Rightarrow> run_in_order run stop result ps ed)"
proof (induction "length line" arbitrary: line result ed rule: less_induct)
  case less
  note step = run_commands_loop.simps [of alnum run line result ed] line_commands.simps [of alnum line]
  show ?case
  proof (cases "parse_ex alnum (str_trim line)")
    case (Inl e)
    then show ?thesis unfolding step by (simp add: Let_def cmd_err_def split: parse_error.splits)
  next
    case (Inr p)
    have rest: "run_commands_loop alnum run n result ed =
        (case line_commands alnum n of (ps, stop) \<Rightarrow> run_in_order run stop result ps ed)"
      if "pc_next p = Some n" for n result ed
      using less parse_ex_next_shorter [OF Inr that] str_trim_length [of line] by simp
    show ?thesis
    proof (cases "pc_next p")
      case None
      then show ?thesis using Inr unfolding step
        by (simp add: Let_def split: option.split prod.split command_result.split)
    next
      case (Some n)
      obtain ps stop where "line_commands alnum n = (ps, stop)" by (cases "line_commands alnum n")
      then show ?thesis using Inr Some rest [OF Some] unfolding step
        by (simp add: Let_def split: option.split prod.split command_result.split)
    qed
  qed
qed

end
