(* ===== verification/ExLines.thy ===== *)
theory ExLines
  imports ExRunLaws
begin

text \<open>
  What running a command line guarantees: every line comes to an end with an answer, its commands run
  in order up to the first failure, a rejected command leaves the editor alone, and a typed deletion
  removes the lines it names.
\<close>

section \<open>Properties\<close>

definition sample_env :: "(rstr, unit, unit, rstr option, rstr \<times> bool) ex_env" where
  "sample_env =
     \<lparr>env_rope = list_rope, env_regex = literal_regex, env_unicode = ascii_unicode, env_clipboard = memory_clipboard,
      env_fs = no_fs, env_is_pseudocode = \<lambda>_. False, env_is_chat_scratch = \<lambda>_. False,
      env_is_commit_message = \<lambda>_. False, env_leave_pseudocode = \<lambda>ed. (None, ed), env_finish_chat = \<lambda>_ ed. (None, ed),
      env_finish_commit = \<lambda>_ ed. ed, env_is_modified = \<lambda>_. False, env_home = None, env_cwd = None,
      env_other = \<lambda>run h x ed. run (rs ''norm x'') ed\<rparr>"

lemma runners_agree_same: "runners_agree n run run' \<Longrightarrow> same_at n (run line) (run' line)"
  unfolding runners_agree_def same_at_def keeps_depth_def by blast

lemma sample_env_ok: "env_ok sample_env"
  by (simp add: env_ok_def sample_env_def runners_agree_same)

lemma run_line_more:
  assumes "env_ok W" and "max_ex_line_depth < fuel"
  shows "run_line_within fuel W line ed = run_line W line ed"
  unfolding run_line_def by (rule run_line_within_enough [OF assms(1)]) (use assms(2) in auto)

lemma run_line_unfold:
  assumes "env_ok W"
  shows "run_line W line ed =
    (case nested_ex_line (ex_run_commands W (run_line W) line) ed of
       Inl _ \<Rightarrow> Some (cmd_err (rs ''E169: Command too recursive''), ed)
     | Inr outcome \<Rightarrow> outcome)"
proof -
  have "run_line W line ed = run_line_within (Suc (Suc max_ex_line_depth)) W line ed"
    by (rule run_line_more [OF assms, symmetric]) simp
  then show ?thesis
    by (simp only: run_line_within.simps(2) [of "Suc max_ex_line_depth"] run_line_def [symmetric])
qed

lemma run_line_keeps: "env_ok W \<Longrightarrow> keeps_depth (run_line W line)"
  unfolding run_line_def by (rule run_line_within_keeps)

text \<open>
  C32. Command lines come to an end. Lines may run further lines without limit (\<open>:g\<close>, \<open>:source\<close>,
  \<open>:normal\<close> through a mapping), yet the runner with 101 nested calls satisfies the equation of the
  source, in which \<open>run_line\<close> is called again by the handlers; more calls change nothing; and an
  outcome leaves the nesting depth as it was.
\<close>

theorem command_lines_end:
  assumes "env_ok W"
  shows "run_line W line ed =
      (case nested_ex_line (ex_run_commands W (run_line W) line) ed of
         Inl _ \<Rightarrow> Some (cmd_err (rs ''E169: Command too recursive''), ed)
       | Inr outcome \<Rightarrow> outcome) \<and>
    (\<forall>fuel. max_ex_line_depth < fuel \<longrightarrow> run_line_within fuel W line ed = run_line W line ed) \<and>
    (\<forall>result ed'. run_line W line ed = Some (result, ed') \<longrightarrow> ed_ex_depth ed' = ed_ex_depth ed)"
  using run_line_unfold [OF assms] run_line_more [OF assms] keeps_depthD [OF run_line_keeps [OF assms]] by blast

theorem command_lines_end_witness:
  "run_line_within 200 sample_env (rs ''norm x'') (sample_editor (rs ''a'')) =
     run_line sample_env (rs ''norm x'') (sample_editor (rs ''a'')) \<and>
   run_line sample_env (rs ''norm x'') (sample_editor (rs ''a'')) =
     (case nested_ex_line (ex_run_commands sample_env (run_line sample_env) (rs ''norm x'')) (sample_editor (rs ''a'')) of
        Inl _ \<Rightarrow> Some (cmd_err (rs ''E169: Command too recursive''), sample_editor (rs ''a''))
      | Inr outcome \<Rightarrow> outcome)"
proof -
  have "max_ex_line_depth < 200" by (simp add: max_ex_line_depth_def)
  then show ?thesis
    using command_lines_end [OF sample_env_ok, of "rs ''norm x''" "sample_editor (rs ''a'')"] by blast
qed

lemma run_in_order_answers:
  "\<forall>p \<in> set ps. \<forall>ed. run p ed \<noteq> None \<Longrightarrow> \<forall>t. stop \<noteq> Some (t, OffsetOverflow) \<Longrightarrow> run_in_order run stop result ps ed \<noteq> None"
proof (induction ps arbitrary: result ed)
  case Nil
  then show ?case by (auto split: option.splits)
next
  case (Cons p ps)
  moreover obtain q where "run p ed = Some q" using Cons.prems(1) by fastforce
  ultimately show ?case by (cases q) (auto split: command_result.splits option.splits)
qed

lemma nested_depth_induct [consumes 1, case_names step]:
  fixes n N :: nat
  assumes "n \<le> N" and "\<And>n. (\<And>m. m > n \<Longrightarrow> m \<le> N \<Longrightarrow> P m) \<Longrightarrow> n \<le> N \<Longrightarrow> P n"
  shows "P n"
  using assms(1) by (induction "N - n" arbitrary: n rule: less_induct) (use assms(2) in auto)

text \<open>
  C33. A command line always answers. Take a set of lines whose commands run no other lines than
  those of the set and that return whenever the lines they run return: every line of the set then
  returns a result, also where the lines run each other in a cycle, which the depth limit cuts.
\<close>

theorem command_lines_answer:
  fixes W :: "('r, 'f, 'a, 'g, 'x) ex_env"
  assumes "env_ok W" and "line \<in> L"
    and "\<forall>l \<in> L. \<forall>t. snd (line_commands (uni_alphanumeric (env_unicode W)) l) \<noteq> Some (t, OffsetOverflow)"
    and "\<forall>l \<in> L. \<forall>p \<in> set (fst (line_commands (uni_alphanumeric (env_unicode W)) l)). \<forall>run.
      (\<forall>l \<in> L. \<forall>ed. run l ed \<noteq> None) \<longrightarrow> (\<forall>ed. run_parsed W run p ed \<noteq> None)"
  shows "run_line W line ed \<noteq> None"
proof -
  let ?alnum = "uni_alphanumeric (env_unicode W)"
  have "\<forall>line \<in> L. \<forall>ed. ed_ex_depth ed = n \<longrightarrow> run_line W line ed \<noteq> None" if "n \<le> max_ex_line_depth" for n
    using that
  proof (induction n rule: nested_depth_induct)
    case (step n)
    show ?case
    proof (intro ballI allI impI)
      fix line and ed :: "('r, 'f, 'a, 'g) ex_editor"
      assume line: "line \<in> L" and depth: "ed_ex_depth ed = n"
      show "run_line W line ed \<noteq> None"
      proof (cases "n < max_ex_line_depth")
        case True
        define run where "run l e = (if ed_ex_depth e = Suc n then run_line W l e else Some (cmd_ok_silent, e))" for l e
        have "\<forall>l \<in> L. \<forall>e. run l e \<noteq> None"
          using step.IH [of "Suc n"] True by (simp add: run_def del: not_None_eq)
        then have "\<forall>p \<in> set (fst (line_commands ?alnum line)). \<forall>e. run_parsed W run p e \<noteq> None"
          using assms(4) line by blast
        then have "run_in_order (run_parsed W run) (snd (line_commands ?alnum line)) result (fst (line_commands ?alnum line)) e \<noteq> None"
          for result e
          by (rule run_in_order_answers) (rule bspec [OF assms(3) line])
        then have "ex_run_commands W run line e \<noteq> None" for e
          by (simp add: ex_run_commands_def run_commands_loop_order case_prod_beta)
        moreover have "runners_agree (Suc n) (run_line W) run"
          using run_line_keeps [OF assms(1)] by (simp add: runners_agree_def run_def)
        ultimately have "ex_run_commands W (run_line W) line (ed\<lparr>ed_ex_depth := ed_ex_depth ed + 1\<rparr>) \<noteq> None"
          using same_atD(1) [OF run_commands_agree [OF assms(1)], of "Suc n" _ _ "ed\<lparr>ed_ex_depth := ed_ex_depth ed + 1\<rparr>"] depth
          by simp
        then show ?thesis
          unfolding run_line_unfold [OF assms(1), of line ed] using True depth
          by (auto simp: nested_ex_line_def)
      next
        case False
        then show ?thesis
          unfolding run_line_unfold [OF assms(1), of line ed] using depth by (simp add: nested_ex_line_def)
      qed
    qed
  qed
  then have within: "run_line W line ed \<noteq> None" if "ed_ex_depth ed \<le> max_ex_line_depth"
    using assms(2) that by blast
  show ?thesis
  proof (cases "ed_ex_depth ed \<le> max_ex_line_depth")
    case False
    then show ?thesis
      unfolding run_line_unfold [OF assms(1), of line ed] by (simp add: nested_ex_line_def)
  qed (rule within)
qed


lemma lookup_norm:
  "lookup_command (rs ''norm'') =
     Some (with_args ArgRest (with_range RangeLine (with_bang (ex [''norm[al]''] (HandlerFn ''edit::normal'')))))"
  by (simp add: lookup_command_def commands_def text_commands_def accepts_def ex_builders name_matches_def split_once_def
      trim_end_matches_def)

lemma lookup_d:
  "lookup_command (rs ''d'') = Some (with_args ArgText (with_range RangeLine (ex [''d[elete]''] (HandlerFn ''edit::delete''))))"
  by (simp add: lookup_command_def commands_def text_commands_def accepts_def ex_builders name_matches_def split_once_def
      trim_end_matches_def)

lemma norm_commands:
  "line_commands alnum (rs ''norm x'') =
     ([\<lparr>pc_range = None, pc_command = with_args ArgRest (with_range RangeLine (with_bang (ex [''norm[al]''] (HandlerFn ''edit::normal'')))),
        pc_bang = False, pc_args = rs ''x'', pc_next = None\<rparr>], None)"
proof -
  have "str_trim (rs ''norm x'') = rs ''norm x''" by (simp add: str_trim_def is_whitespace_def)
  moreover have "parse_ex alnum (rs ''norm x'') =
      Inr \<lparr>pc_range = None, pc_command = with_args ArgRest (with_range RangeLine (with_bang (ex [''norm[al]''] (HandlerFn ''edit::normal'')))),
        pc_bang = False, pc_args = rs ''x'', pc_next = None\<rparr>"
    using lookup_norm
    by (simp add: parse_ex_def parse_eval trim_colons_def name_length_def parse_bang_def split_args_def ex_builders
        trim_end_def is_ascii_alphabetic_def is_ascii_lowercase_def is_ascii_uppercase_def)
  ultimately show ?thesis
    by (subst line_commands.simps) (simp add: Let_def)
qed

theorem command_lines_answer_witness:
  "run_line sample_env (rs ''norm x'') (sample_editor (rs ''a'')) \<noteq> None"
proof -
  have "run_parsed sample_env run \<lparr>pc_range = None,
      pc_command = with_args ArgRest (with_range RangeLine (with_bang (ex [''norm[al]''] (HandlerFn ''edit::normal'')))),
      pc_bang = False, pc_args = rs ''x'', pc_next = None\<rparr> ed = run (rs ''norm x'') ed" for run ed
    by (simp add: run_parsed_def run_checked_def ex_builders resolve_range_def run_handler_def buffer_kind_of_def
        contexts_allows_def contexts_editable_def sample_env_def Let_def)
  then show ?thesis
    by (intro command_lines_answer [OF sample_env_ok, of _ "{rs ''norm x''}"]) (simp_all add: norm_commands del: rs_simps not_None_eq)
qed

text \<open>
  C34. The commands of a line do not depend on what the commands before them did: running a line is
  parsing all of it first and then running its commands in order, with the last message as the
  result, where the first failing command, or the point at which the line does not parse, ends the
  run and keeps what the commands before it did.
\<close>

theorem line_runs_in_order:
  "ex_run_commands W run line ed =
     (case line_commands (uni_alphanumeric (env_unicode W)) line of
        (ps, stop) \<Rightarrow> run_in_order (run_parsed W run) stop (Success None) ps ed)"
  by (simp add: ex_run_commands_def run_commands_loop_order cmd_ok_silent_def)

text \<open>
  What makes \<open>run_parsed\<close> refuse a command before its handler is called, and where the arithmetic of
  an address overflows instead. In front of both, a command that writes or leaves its buffer ends a
  special buffer, whatever its range and arguments are.
\<close>

definition range_overflows :: "('r, 'f, 'a, 'g, 'x) ex_env \<Rightarrow> parsed_cmd \<Rightarrow> ('r, 'f, 'a, 'g) ex_editor \<Rightarrow> bool" where
  "range_overflows W p ed \<longleftrightarrow>
     contexts_allows (ex_contexts (pc_command p)) (buffer_kind_of W ed) \<and> ex_range (pc_command p) \<noteq> RangeNone \<and>
     (\<exists>spec. pc_range p = Some spec \<and>
        eval_range (env_rope W) (env_regex W) (ed_doc ed) (ed_view ed) spec = Inl AddressOverflow)"

definition refused :: "('r, 'f, 'a, 'g, 'x) ex_env \<Rightarrow> parsed_cmd \<Rightarrow> ('r, 'f, 'a, 'g) ex_editor \<Rightarrow> bool" where
  "refused W p ed \<longleftrightarrow>
     \<not> range_overflows W p ed \<and>
     (\<not> contexts_allows (ex_contexts (pc_command p)) (buffer_kind_of W ed) \<or>
      (\<exists>spec. pc_range p = Some spec \<and>
         (ex_range (pc_command p) = RangeNone \<or>
          (case eval_range (env_rope W) (env_regex W) (ed_doc ed) (ed_view ed) spec of
             Inl _ \<Rightarrow> True
           | Inr r \<Rightarrow> ex_range (pc_command p) \<noteq> RangeGoto \<and> lr_end r > ex_last_line (env_rope W) (ed_buffer ed)))) \<or>
      ex_args (pc_command p) = ArgNone \<and> pc_args p \<noteq> [] \<or>
      ex_args (pc_command p) = ArgFile \<and> pc_args p \<noteq> [] \<and> hd (pc_args p) \<noteq> rc CHR ''!'' \<and>
        (\<exists>message. expand_file_args W (pc_args p) ed = Inl message))"

definition ends_special_buffer :: "('r, 'f, 'a, 'g, 'x) ex_env \<Rightarrow> parsed_cmd \<Rightarrow> ('r, 'f, 'a, 'g) ex_editor \<Rightarrow> bool" where
  "ends_special_buffer W p ed \<longleftrightarrow>
     (\<exists>l. ex_lifecycle (pc_command p) = Some l \<and> finish_special W (buffer_kind_of W ed) l (pc_bang p) ed \<noteq> None)"

lemma run_parsed_checked: "\<not> ends_special_buffer W p ed \<Longrightarrow> run_parsed W run p ed = run_checked W run p ed"
  by (auto simp: ends_special_buffer_def run_parsed_def split: option.split)

text \<open>What \<open>resolve_range\<close> gives in these terms.\<close>

lemma resolve_range_refused:
  fixes W p ed
  defines "resolved \<equiv> resolve_range (env_rope W) (env_regex W) (ed_doc ed) (ed_view ed) (ex_range (pc_command p)) (pc_range p)"
  assumes "contexts_allows (ex_contexts (pc_command p)) (buffer_kind_of W ed)"
  shows "range_overflows W p ed \<longleftrightarrow> resolved = Inl AddressOverflow"
    and "(\<exists>spec. pc_range p = Some spec \<and>
         (ex_range (pc_command p) = RangeNone \<or>
          (case eval_range (env_rope W) (env_regex W) (ed_doc ed) (ed_view ed) spec of
             Inl _ \<Rightarrow> True
           | Inr r \<Rightarrow> ex_range (pc_command p) \<noteq> RangeGoto \<and> lr_end r > ex_last_line (env_rope W) (ed_buffer ed)))) \<longleftrightarrow>
      (\<exists>e. resolved = Inl e)"
  using assms(2) unfolding resolved_def
  by (cases "ex_range (pc_command p)";
      auto simp: range_overflows_def resolve_range_def ed_buffer_def Let_def split: option.split sum.split)+

lemma run_checked_cases:
  "range_overflows W p ed \<Longrightarrow> run_checked W run p ed = None"
  "refused W p ed \<Longrightarrow> \<exists>message. run_checked W run p ed = Some (Failure message, ed)"
  "\<not> range_overflows W p ed \<Longrightarrow> \<not> refused W p ed \<Longrightarrow>
     \<exists>args r. run_checked W run p ed = run_handler W run (ex_handler (pc_command p)) (parsed_call p args r) ed"
proof -
  let ?allowed = "contexts_allows (ex_contexts (pc_command p)) (buffer_kind_of W ed)"
  let ?resolved = "resolve_range (env_rope W) (env_regex W) (ed_doc ed) (ed_view ed) (ex_range (pc_command p)) (pc_range p)"
  show "range_overflows W p ed \<Longrightarrow> run_checked W run p ed = None"
    using resolve_range_refused(1) [of p W ed]
    by (simp add: range_overflows_def run_checked_def Let_def)
  have at_bang: "hd (pc_args p) \<noteq> rc CHR ''!'' \<longleftrightarrow> \<not> starts_with_any [rc CHR ''!''] (pc_args p)" if "pc_args p \<noteq> []"
    using that by (cases "pc_args p") (simp_all add: starts_with_any_def)
  have cases: "refused W p ed \<longleftrightarrow> \<not> ?allowed \<or>
      (case ?resolved of
         Inl e \<Rightarrow> e \<noteq> AddressOverflow
       | Inr r \<Rightarrow> ex_args (pc_command p) = ArgNone \<and> pc_args p \<noteq> [] \<or>
           ex_args (pc_command p) = ArgFile \<and> pc_args p \<noteq> [] \<and> \<not> starts_with_any [rc CHR ''!''] (pc_args p) \<and>
           (\<exists>message. expand_file_args W (pc_args p) ed = Inl message))"
  proof (cases ?allowed)
    case True
    show ?thesis
      unfolding refused_def resolve_range_refused [OF True]
      using True at_bang by (cases ?resolved) auto
  qed (simp add: refused_def range_overflows_def)
  show "refused W p ed \<Longrightarrow> \<exists>message. run_checked W run p ed = Some (Failure message, ed)"
    unfolding cases
    by (auto simp: run_checked_def cmd_err_def Let_def split: sum.splits range_error.splits if_splits)
  show "\<not> range_overflows W p ed \<Longrightarrow> \<not> refused W p ed \<Longrightarrow>
     \<exists>args r. run_checked W run p ed = run_handler W run (ex_handler (pc_command p)) (parsed_call p args r) ed"
    using resolve_range_refused(1) [of p W ed] unfolding cases
    by (auto simp: run_checked_def Let_def split: sum.splits range_error.splits if_splits)
qed

text \<open>
  C35. A refused command line changes nothing. When command lines are nested 100 deep, the line does
  not parse, or its first command is refused, the answer is an error and the editor, with its text,
  cursor, registers and undo history, is exactly what it was. A command is refused when it is not
  allowed in the kind of buffer, takes no range but has one, has a range that does not evaluate or
  ends below the last line, has arguments where it takes none, with or without a range, or has a
  file argument that does not expand; when it is not refused its handler is called
  (\<open>run_checked_cases\<close>). An offset or an address that overflows is neither: the code panics. In a
  special buffer the commands that end it do so before any of these checks.
\<close>

theorem refused_line_changes_nothing:
  fixes W :: "('r, 'f, 'a, 'g, 'x) ex_env" and line ed
  defines "inner \<equiv> ed\<lparr>ed_ex_depth := ed_ex_depth ed + 1\<rparr>"
  shows "if ed_ex_depth ed \<ge> max_ex_line_depth
    then run_line W line ed = Some (Failure (rs ''E169: Command too recursive''), ed)
    else str_trim line \<noteq> [] \<longrightarrow>
      (case parse_ex (uni_alphanumeric (env_unicode W)) (str_trim line) of
         Inl e \<Rightarrow>
           if e = OffsetOverflow then run_line W line ed = None
           else run_line W line ed = Some (Failure (parse_error_message (str_trim line) e), ed)
       | Inr p \<Rightarrow>
           \<not> ends_special_buffer W p inner \<longrightarrow>
             (range_overflows W p inner \<longrightarrow> run_line W line ed = None) \<and>
             (refused W p inner \<longrightarrow> (\<exists>message. run_line W line ed = Some (Failure message, ed))))"
proof (cases "ed_ex_depth ed \<ge> max_ex_line_depth")
  case True
  then show ?thesis by (simp add: run_line_def nested_ex_line_def cmd_err_def)
next
  case False
  then have depth: "ed_ex_depth ed < max_ex_line_depth" by simp
  let ?run = "run_line_within max_ex_line_depth W"
  note line = run_line_within_step(1) [OF depth, of max_ex_line_depth W line, folded run_line_def inner_def]
  have unparsed: "ex_run_commands W ?run line inner =
      (if e = OffsetOverflow then None else Some (Failure (parse_error_message (str_trim line) e), inner))"
    if "str_trim line \<noteq> []" "parse_ex (uni_alphanumeric (env_unicode W)) (str_trim line) = Inl e" for e
    using that unfolding ex_run_commands_def
    by (subst run_commands_loop.simps) (simp add: Let_def cmd_err_def split: parse_error.split)
  have first: "ex_run_commands W ?run line inner = run_checked W ?run p inner"
    if "str_trim line \<noteq> []" "parse_ex (uni_alphanumeric (env_unicode W)) (str_trim line) = Inr p"
      "\<not> ends_special_buffer W p inner" "run_checked W ?run p inner = None \<or> (\<exists>m e. run_checked W ?run p inner = Some (Failure m, e))" for p
    using that(1,2,4) run_parsed_checked [OF that(3), of ?run] unfolding ex_run_commands_def
    by (subst run_commands_loop.simps) (auto simp: Let_def)
  have restored: "inner\<lparr>ed_ex_depth := ed_ex_depth inner - 1\<rparr> = ed" by (simp add: inner_def)
  show ?thesis
  proof (cases "parse_ex (uni_alphanumeric (env_unicode W)) (str_trim line)")
    case (Inl e)
    then show ?thesis using depth unparsed restored unfolding line by auto
  next
    case (Inr p)
    have "run_line W line ed = None"
      if "str_trim line \<noteq> []" "\<not> ends_special_buffer W p inner" "range_overflows W p inner"
      using first [OF that(1) Inr that(2)] run_checked_cases(1) [OF that(3), of ?run] unfolding line by simp
    moreover have "\<exists>message. run_line W line ed = Some (Failure message, ed)"
      if "str_trim line \<noteq> []" "\<not> ends_special_buffer W p inner" and refused: "refused W p inner"
    proof -
      obtain message where "run_checked W ?run p inner = Some (Failure message, inner)"
        using run_checked_cases(2) [OF refused] by blast
      then show ?thesis using first [OF that(1) Inr that(2)] restored unfolding line by simp
    qed
    ultimately show ?thesis using depth Inr by simp
  qed
qed

text \<open>\<open>:9d\<close> in a buffer of one line.\<close>

theorem refused_line_changes_nothing_witness:
  "\<exists>message. run_line sample_env (rs ''9d'') (sample_editor (rs ''a'')) = Some (Failure message, sample_editor (rs ''a''))"
proof -
  let ?ed = "(sample_editor (rs ''a''))\<lparr>ed_ex_depth := ed_ex_depth (sample_editor (rs ''a'')) + 1\<rparr>"
  define spec where "spec = [(\<lparr>addr_base = Number 9, addr_offset = 0\<rparr>, False)]"
  define p where "p = \<lparr>pc_range = Some spec,
      pc_command = with_args ArgText (with_range RangeLine (ex [''d[elete]''] (HandlerFn ''edit::delete''))),
      pc_bang = False, pc_args = [], pc_next = None\<rparr>"
  have parse: "parse_ex alnum (rs ''9d'') = Inr p" for alnum
    using lookup_d
    by (simp add: p_def spec_def parse_ex_def parse_eval trim_colons_def name_length_def parse_bang_def split_args_def ex_builders
        split_at_bar_def trim_end_def is_ascii_alphabetic_def is_ascii_lowercase_def is_ascii_uppercase_def)
  have range: "eval_range R E d v spec = Inr \<lparr>lr_start = 9, lr_end = 9\<rparr>" for R E d v
    by (simp add: spec_def eval_range_def eval_address_def checked_add_def i64_wrap_def i64_range_def)
  have "ex_last_line list_rope (ed_buffer ?ed) = 1"
    by (simp add: ex_last_line_def buffer_line_count_def ed_buffer_def sample_editor_def sample_buffer_def list_rope_def Let_def)
  then have "refused sample_env p ?ed"
    by (simp add: refused_def range_overflows_def p_def range ex_builders sample_env_def)
  moreover have "\<not> ends_special_buffer sample_env p ?ed"
    by (simp add: ends_special_buffer_def p_def ex_builders)
  moreover have trim: "str_trim (rs ''9d'') = rs ''9d''" by (simp add: str_trim_def is_whitespace_def)
  moreover have "\<not> max_ex_line_depth \<le> ed_ex_depth (sample_editor (rs ''a''))" "rs ''9d'' \<noteq> []"
    by (simp_all add: sample_editor_def max_ex_line_depth_def)
  ultimately show ?thesis
    using refused_line_changes_nothing [of "sample_editor (rs ''a'')" sample_env "rs ''9d''"]
    by (simp only: parse sum.case if_False simp_thms)
qed

section \<open>A typed deletion\<close>

lemma print_range_ends:
  "spec \<noteq> [] \<Longrightarrow> \<exists>c u. print_range spec = c # u \<and> \<not> is_whitespace c \<and> c \<noteq> rc CHR '':''"
proof -
  assume "spec \<noteq> []"
  then obtain a s spec' where spec: "spec = (a, s) # spec'" by (cases spec) auto
  obtain c u where c: "print_address a = c # u" "\<not> is_whitespace c" using print_address_head by blast
  have "c \<noteq> rc CHR '':''"
  proof (cases "addr_base a")
    case (Number n)
    then obtain v where "nat_digits 10 n = c # v"
      using c(1) nat_digits_ne [of 10 n] by (cases "nat_digits 10 n") (auto simp: print_address_def)
    then show ?thesis using nat_digits_decimal [of n] by (auto simp: is_ascii_digit_def)
  qed (use c(1) in \<open>auto simp: print_address_def delimiter_def split: if_splits\<close>)
  then show ?thesis using c spec by (cases spec') auto
qed

lemma parse_typed_delete:
  assumes "spec \<noteq> []" and "\<not> snd (hd spec)" and "\<forall>(a, _) \<in> set spec. address_ok a"
  shows "parse_ex alnum (print_range spec @ rs ''d'') =
    Inr \<lparr>pc_range = Some spec, pc_command = with_args ArgText (with_range RangeLine (ex [''d[elete]''] (HandlerFn ''edit::delete''))),
      pc_bang = False, pc_args = [], pc_next = None\<rparr>"
    "str_trim (print_range spec @ rs ''d'') = print_range spec @ rs ''d''"
proof -
  obtain c u where c: "print_range spec = c # u" "\<not> is_whitespace c" "c \<noteq> rc CHR '':''"
    using print_range_ends [OF assms(1)] by blast
  have "range_ends (rs ''d'')"
    by (simp add: range_ends_def stops_def is_ascii_digit_def is_whitespace_def)
  note range = parse_range_print [OF assms this]
  have "trim_colons (print_range spec @ rs ''d'') = print_range spec @ rs ''d''"
    using c by (simp add: trim_colons_def)
  then show "parse_ex alnum (print_range spec @ rs ''d'') =
    Inr \<lparr>pc_range = Some spec, pc_command = with_args ArgText (with_range RangeLine (ex [''d[elete]''] (HandlerFn ''edit::delete''))),
      pc_bang = False, pc_args = [], pc_next = None\<rparr>"
    using lookup_d range
    by (simp add: parse_ex_def trim_colons_def name_length_def parse_bang_def split_args_def ex_builders trim_start_def
        split_at_bar_def trim_end_def is_ascii_alphabetic_def is_ascii_lowercase_def is_ascii_uppercase_def is_whitespace_def
        starts_with_any_def)
  show "str_trim (print_range spec @ rs ''d'') = print_range spec @ rs ''d''"
    using c by (simp add: str_trim_def) (simp add: is_whitespace_def)
qed

text \<open>
  C36. A typed deletion removes the lines it names. Whatever addresses are typed in front of \<open>:d\<close>
  (numbers, marks, patterns, offsets, either separator), when they denote lines of the buffer then
  running the text removes exactly these lines, leaves one empty line when none is left, and puts
  the removed lines in the unnamed register, linewise and each with its line feed.
\<close>

theorem typed_delete_removes_lines:
  assumes "lf_rope (env_rope W) chs" and "lf_only (ed_text chs ed)" and "buf_modifiable (ed_buffer ed)"
    and "ed_pending_register ed = None" and "ed_ex_depth ed < max_ex_line_depth"
    and "\<not> env_is_pseudocode W (ed\<lparr>ed_ex_depth := ed_ex_depth ed + 1\<rparr>)"
    and "spec \<noteq> []" and "\<not> snd (hd spec)" and "\<forall>(a, _) \<in> set spec. address_ok a"
    and "eval_range (env_rope W) (env_regex W) (ed_doc ed) (ed_view ed) spec = Inr r"
    and "lr_end r \<le> length (ed_lines chs ed)"
    and "s = max (lr_start r) 1" and "e = max (lr_end r) 1"
  shows "\<exists>ed'. run_line W (print_range spec @ rs ''d'') ed = Some (Success None, ed') \<and>
    ed_lines chs ed' =
      (if s = 1 \<and> e = length (ed_lines chs ed) then [[]]
       else take (s - 1) (ed_lines chs ed) @ drop e (ed_lines chs ed)) \<and>
    register_value (env_clipboard W) (ed_registers ed') None =
      (terminate (take (e - (s - 1)) (drop (s - 1) (ed_lines chs ed))), Line)"
proof -
  let ?ed = "ed\<lparr>ed_ex_depth := ed_ex_depth ed + 1\<rparr>" and ?r = "\<lparr>lr_start = s, lr_end = e\<rparr>" and ?L = "ed_lines chs ed"
  define p where "p = \<lparr>pc_range = Some spec, pc_command = with_args ArgText (with_range RangeLine (ex [''d[elete]''] (HandlerFn ''edit::delete''))),
      pc_bang = False, pc_args = [], pc_next = None\<rparr>"
  let ?x = "parsed_call p [] (Some ?r)"
  have parse: "parse_ex alnum (print_range spec @ rs ''d'') = Inr p" for alnum
    using parse_typed_delete(1) [OF assms(7-9)] by (simp add: p_def)
  have lifted: "ed_text chs ?ed = ed_text chs ed" "ed_buffer ?ed = ed_buffer ed" "ed_lines chs ?ed = ?L"
    by (simp_all add: ed_text_def ed_buffer_def ed_lines_def)
  have order: "lr_start r \<le> lr_end r"
    using assms(10) by (auto simp: eval_range_def Let_def split: sum.splits)
  have count: "ex_last_line (env_rope W) (ed_buffer ed) = length ?L"
    using assms(2) lf_rope.line_count [OF assms(1)] by (simp add: ex_last_line_def ed_lines_def ed_text_def)
  have "?L \<noteq> []" by (simp add: ed_lines_def)
  then have bounds: "1 \<le> s" "s \<le> e" "e \<le> length ?L"
    using order assms(11-13) by (auto simp: Suc_le_eq)
  have "register_and_count ?x = Some (Inr (None, ?r))"
    by (simp add: register_and_count_def parsed_call_def str_trim_def)
  then obtain ed1 where ed1: "ex_delete (env_rope W) (env_unicode W) (env_clipboard W) ?x ?ed = Some (Success None, ed1)"
    "ed_lines chs ed1 = (if s = 1 \<and> length ?L \<le> e then [[]] else take (s - 1) ?L @ drop e ?L)"
    "register_value (env_clipboard W) (ed_registers ed1) None = (terminate (take (e - (s - 1)) (drop (s - 1) ?L)), Line)"
    using ex_delete_lines [OF assms(1), of ?ed ?x ?r "env_unicode W" "env_clipboard W"] assms(2-4) bounds
    unfolding lifted by auto
  have "resolve_range (env_rope W) (env_regex W) (ed_doc ?ed) (ed_view ?ed) RangeLine (Some spec) = Inr (Some ?r)"
    using assms(10-13) count by (simp add: resolve_range_def ed_buffer_def)
  then have "run_parsed W run p ?ed = ex_delete (env_rope W) (env_unicode W) (env_clipboard W) ?x ?ed" for run
    using assms(6)
    by (simp add: run_parsed_def run_checked_def p_def ex_builders run_handler_def buffer_kind_of_def contexts_allows_def
        contexts_editable_def Let_def)
  then have "ex_run_commands W run (print_range spec @ rs ''d'') ?ed = Some (Success None, ed1)" for run
    using ed1(1) parse parse_typed_delete(2) [OF assms(7-9)]
    unfolding ex_run_commands_def
    by (subst run_commands_loop.simps) (simp add: Let_def p_def cmd_ok_silent_def)
  then have "run_line W (print_range spec @ rs ''d'') ed = Some (Success None, ed1\<lparr>ed_ex_depth := ed_ex_depth ed1 - 1\<rparr>)"
    unfolding run_line_def run_line_within_step(1) [OF assms(5)] by simp
  moreover have "ed_lines chs (ed1\<lparr>ed_ex_depth := n\<rparr>) = ed_lines chs ed1" "ed_registers (ed1\<lparr>ed_ex_depth := n\<rparr>) = ed_registers ed1" for n
    by (simp_all add: ed_lines_def ed_buffer_def ed_registers_def)
  ultimately show ?thesis
    using ed1(2,3) bounds by (intro exI [of _ "ed1\<lparr>ed_ex_depth := ed_ex_depth ed1 - 1\<rparr>"]) auto
qed

text \<open>\<open>:2,$d\<close> on the lines a, b and c without a final line feed.\<close>

theorem typed_delete_removes_lines_witness:
  "\<exists>ed'. run_line sample_env (rs ''2,$d'') (sample_editor (rs ''a'' @ [10] @ rs ''b'' @ [10] @ rs ''c'')) = Some (Success None, ed') \<and>
    ed_lines (\<lambda>t. t) ed' = [rs ''a''] \<and>
    register_value memory_clipboard (ed_registers ed') None = (rs ''b'' @ [10] @ rs ''c'' @ [10], Line)"
proof -
  let ?ed = "sample_editor (rs ''a'' @ [10] @ rs ''b'' @ [10] @ rs ''c'')"
  let ?spec = "[(\<lparr>addr_base = Number 2, addr_offset = 0\<rparr>, False), (\<lparr>addr_base = Last, addr_offset = 0\<rparr>, False)]"
  have lines: "ed_lines (\<lambda>t. t) ?ed = [rs ''a'', rs ''b'', rs ''c'']" by (simp add: shown_lines_def)
  have "ex_last_line list_rope (ed_buffer ?ed) = 3"
    by (simp add: ex_last_line_def buffer_line_count_def ed_buffer_def sample_editor_def sample_buffer_def list_rope_def Let_def)
  then have range: "eval_range list_rope literal_regex (ed_doc ?ed) (ed_view ?ed) ?spec = Inr \<lparr>lr_start = 2, lr_end = 3\<rparr>"
    by (simp add: eval_range_def eval_address_def checked_add_def i64_wrap_def i64_range_def ed_buffer_def)
  have env: "env_rope sample_env = list_rope" "env_regex sample_env = literal_regex" "env_clipboard sample_env = memory_clipboard"
    "env_is_pseudocode sample_env ed = False" for ed
    by (simp_all add: sample_env_def)
  have plain: "ed_pending_register (sample_editor t) = None" "ed_ex_depth (sample_editor t) = 0" for t
    by (simp_all add: sample_editor_def)
  have "print_range ?spec @ rs ''d'' = rs ''2,$d''"
    by (simp add: print_address_def print_offset_def nat_digits.simps digit_char_def)
  then show ?thesis
    using typed_delete_removes_lines [of sample_env "\<lambda>t. t" ?ed ?spec "\<lparr>lr_start = 2, lr_end = 3\<rparr>" 2 3] lfr.lf_rope_axioms range
    unfolding env lines
    by (simp add: address_ok_def shown_lines_def max_ex_line_depth_def plain)
qed

end
