(* ===== verification/FileText.thy ===== *)
theory FileText
  imports Prelude
begin

text \<open>
  What turns the bytes of a file into the text of a buffer and back: line endings
  (ovim-core/src/buffer/line_ending.rs), encodings (buffer/encoding.rs) and the reading and writing
  of contents (buffer/file_io.rs).

  A byte is a \<^typ>\<open>nat\<close> below 256 and a unit of UTF-16 one below 65536. The conversions of the
  standard library between strings and UTF-8 and UTF-16 are written out. The guesser for files that
  are not UTF-8 (the crate chardetng) and the tables of the other encodings (encoding_rs) are the
  parameter \<open>legacy_ops\<close>. Opening, truncating and syncing the file are left to the caller.
\<close>

section \<open>Line endings\<close>

fun normalize_for_buffer :: "rstr \<Rightarrow> rstr" where
  "normalize_for_buffer [] = []"
| "normalize_for_buffer (c # s) =
     (if c = 13 then 10 # (case s of d # s' \<Rightarrow> if d = 10 then normalize_for_buffer s' else normalize_for_buffer s
                                   | [] \<Rightarrow> normalize_for_buffer [])
      else c # normalize_for_buffer s)"

datatype line_ending = Lf | Crlf | Cr | Mixed

text \<open>The loop of \<open>detect\<close>: whether a line feed, a pair and a carriage return alone were seen.\<close>

fun scan_breaks :: "bool \<times> bool \<times> bool \<Rightarrow> nat list \<Rightarrow> bool \<times> bool \<times> bool" where
  "scan_breaks seen [] = seen"
| "scan_breaks (lf, crlf, cr) (c # s) =
     (if c = 13 then
        (case s of
           d # s' \<Rightarrow> if d = 10 then scan_breaks (lf, True, cr) s' else scan_breaks (lf, crlf, True) (d # s')
         | [] \<Rightarrow> (lf, crlf, True))
      else if c = 10 then scan_breaks (True, crlf, cr) s
      else scan_breaks (lf, crlf, cr) s)"

definition line_ending_detect :: "nat list \<Rightarrow> line_ending" where
  "line_ending_detect content =
     (case scan_breaks (False, False, False) content of
        (lf, crlf, cr) \<Rightarrow>
          if \<not> crlf \<and> \<not> cr then Lf
          else if \<not> lf \<and> crlf \<and> \<not> cr then Crlf
          else if \<not> lf \<and> \<not> crlf \<and> cr then Cr
          else Mixed)"

definition line_ending_str :: "line_ending \<Rightarrow> rstr" where
  "line_ending_str e = (case e of Lf \<Rightarrow> [10] | Crlf \<Rightarrow> [13, 10] | Cr \<Rightarrow> [13] | Mixed \<Rightarrow> [10])"

text \<open>\<open>str::replace\<close> of a line feed.\<close>

definition replace_lf :: "rstr \<Rightarrow> rstr \<Rightarrow> rstr" where
  "replace_lf by_text s = concat (map (\<lambda>c. if c = 10 then by_text else [c]) s)"

section \<open>Unicode encodings\<close>

definition scalar :: "rchar \<Rightarrow> bool" where
  "scalar c \<longleftrightarrow> c < 0xD800 \<or> 0xE000 \<le> c \<and> c < 0x110000"

definition utf8_char :: "rchar \<Rightarrow> nat list" where
  "utf8_char c =
     (if c < 0x80 then [c]
      else if c < 0x800 then [0xC0 + c div 64, 0x80 + c mod 64]
      else if c < 0x10000 then [0xE0 + c div 4096, 0x80 + c div 64 mod 64, 0x80 + c mod 64]
      else [0xF0 + c div 262144, 0x80 + c div 4096 mod 64, 0x80 + c div 64 mod 64, 0x80 + c mod 64])"

definition utf8_encode :: "rstr \<Rightarrow> nat list" where
  "utf8_encode s = concat (map utf8_char s)"

definition utf8_cont :: "nat \<Rightarrow> bool" where
  "utf8_cont b \<longleftrightarrow> 0x80 \<le> b \<and> b < 0xC0"

fun utf8_decode :: "nat list \<Rightarrow> rstr option" where
  "utf8_decode [] = Some []"
| "utf8_decode (b # bs) =
     (if b < 0x80 then map_option (Cons b) (utf8_decode bs)
      else if 0xC2 \<le> b \<and> b < 0xE0 then
        (case bs of
           c # bs \<Rightarrow>
             if utf8_cont c then map_option (Cons ((b - 0xC0) * 64 + (c - 0x80))) (utf8_decode bs) else None
         | _ \<Rightarrow> None)
      else if 0xE0 \<le> b \<and> b < 0xF0 then
        (case bs of
           c # d # bs \<Rightarrow>
             (let v = (b - 0xE0) * 4096 + (c - 0x80) * 64 + (d - 0x80)
              in if utf8_cont c \<and> utf8_cont d \<and> 0x800 \<le> v \<and> scalar v
                 then map_option (Cons v) (utf8_decode bs) else None)
         | _ \<Rightarrow> None)
      else if 0xF0 \<le> b \<and> b < 0xF5 then
        (case bs of
           c # d # e # bs \<Rightarrow>
             (let v = (b - 0xF0) * 262144 + (c - 0x80) * 4096 + (d - 0x80) * 64 + (e - 0x80)
              in if utf8_cont c \<and> utf8_cont d \<and> utf8_cont e \<and> 0x10000 \<le> v \<and> scalar v
                 then map_option (Cons v) (utf8_decode bs) else None)
         | _ \<Rightarrow> None)
      else None)"

definition utf16_char :: "rchar \<Rightarrow> nat list" where
  "utf16_char c =
     (if c < 0x10000 then [c]
      else [0xD800 + (c - 0x10000) div 1024, 0xDC00 + (c - 0x10000) mod 1024])"

definition utf16_encode :: "rstr \<Rightarrow> nat list" where
  "utf16_encode s = concat (map utf16_char s)"

fun utf16_decode :: "nat list \<Rightarrow> rstr option" where
  "utf16_decode [] = Some []"
| "utf16_decode (u # us) =
     (if u < 0xD800 \<or> 0xE000 \<le> u then map_option (Cons u) (utf16_decode us)
      else if u < 0xDC00 then
        (case us of
           v # us \<Rightarrow>
             if 0xDC00 \<le> v \<and> v < 0xE000
             then map_option (Cons (0x10000 + (u - 0xD800) * 1024 + (v - 0xDC00))) (utf16_decode us) else None
         | [] \<Rightarrow> None)
      else None)"

text \<open>\<open>as_chunks::<2>().0\<close> as units: a byte left over at the end is dropped.\<close>

fun units_of_bytes :: "(nat \<Rightarrow> nat \<Rightarrow> nat) \<Rightarrow> nat list \<Rightarrow> nat list" where
  "units_of_bytes unit_of (a # b # bs) = unit_of a b # units_of_bytes unit_of bs"
| "units_of_bytes unit_of _ = []"

definition from_le_bytes :: "nat \<Rightarrow> nat \<Rightarrow> nat" where
  "from_le_bytes a b = a + 256 * b"

definition from_be_bytes :: "nat \<Rightarrow> nat \<Rightarrow> nat" where
  "from_be_bytes a b = 256 * a + b"

definition to_le_bytes :: "nat \<Rightarrow> nat list" where
  "to_le_bytes u = [u mod 256, u div 256]"

definition to_be_bytes :: "nat \<Rightarrow> nat list" where
  "to_be_bytes u = [u div 256, u mod 256]"

section \<open>File encodings\<close>

datatype file_encoding =
  Utf8 | Utf8Bom | Utf16Le | Utf16Be | Windows1252 | Latin1 | ShiftJis | EucJp | Gbk | Big5 | EucKr

record legacy_ops =
  legacy_guess :: "nat list \<Rightarrow> string"
  legacy_decode :: "file_encoding \<Rightarrow> nat list \<Rightarrow> rstr"
  legacy_encode :: "file_encoding \<Rightarrow> rstr \<Rightarrow> nat list option"

definition encoding_of_name :: "string \<Rightarrow> file_encoding" where
  "encoding_of_name name =
     (if name = ''UTF-8'' then Utf8
      else if name = ''windows-1252'' then Windows1252
      else if name = ''ISO-8859-1'' then Latin1
      else if name = ''Shift_JIS'' then ShiftJis
      else if name = ''EUC-JP'' then EucJp
      else if name = ''GBK'' \<or> name = ''gb18030'' then Gbk
      else if name = ''Big5'' then Big5
      else if name = ''EUC-KR'' then EucKr
      else if name = ''UTF-16LE'' then Utf16Le
      else if name = ''UTF-16BE'' then Utf16Be
      else Latin1)"

definition encoding_detect :: "legacy_ops \<Rightarrow> nat list \<Rightarrow> file_encoding \<times> nat" where
  "encoding_detect G bytes =
     (if take 3 bytes = [0xEF, 0xBB, 0xBF] then (Utf8Bom, 3)
      else if take 2 bytes = [0xFE, 0xFF] then (Utf16Be, 2)
      else if take 2 bytes = [0xFF, 0xFE] then (Utf16Le, 2)
      else if utf8_decode bytes \<noteq> None then (Utf8, 0)
      else (encoding_of_name (legacy_guess G bytes), 0))"

definition encoding_decode :: "legacy_ops \<Rightarrow> file_encoding \<Rightarrow> nat list \<Rightarrow> nat \<Rightarrow> rstr option" where
  "encoding_decode G enc bytes bom_offset =
     (let bytes = drop bom_offset bytes
      in case enc of
           Utf8 \<Rightarrow> utf8_decode bytes
         | Utf8Bom \<Rightarrow> utf8_decode bytes
         | Utf16Le \<Rightarrow> utf16_decode (units_of_bytes from_le_bytes bytes)
         | Utf16Be \<Rightarrow> utf16_decode (units_of_bytes from_be_bytes bytes)
         | _ \<Rightarrow> Some (legacy_decode G enc bytes))"

definition encoding_encode :: "legacy_ops \<Rightarrow> file_encoding \<Rightarrow> rstr \<Rightarrow> nat list option" where
  "encoding_encode G enc content =
     (case enc of
        Utf8 \<Rightarrow> Some (utf8_encode content)
      | Utf8Bom \<Rightarrow> Some ([0xEF, 0xBB, 0xBF] @ utf8_encode content)
      | Utf16Le \<Rightarrow> Some ([0xFF, 0xFE] @ concat (map to_le_bytes (utf16_encode content)))
      | Utf16Be \<Rightarrow> Some ([0xFE, 0xFF] @ concat (map to_be_bytes (utf16_encode content)))
      | _ \<Rightarrow> legacy_encode G enc content)"

section \<open>Contents of files\<close>

record file_text =
  ft_encoding :: file_encoding
  ft_line_ending :: line_ending
  ft_text :: rstr

definition normalize_decoded_content :: "rstr \<Rightarrow> rstr" where
  "normalize_decoded_content content = (if 13 \<in> set content then normalize_for_buffer content else content)"

text \<open>What \<open>load_file_async\<close> and the reloads make of the bytes they read.\<close>

definition load_contents :: "legacy_ops \<Rightarrow> nat list \<Rightarrow> file_text option" where
  "load_contents G bytes =
     (let (enc, bom_offset) = encoding_detect G bytes
      in case encoding_decode G enc bytes bom_offset of
           None \<Rightarrow> None
         | Some content \<Rightarrow>
             Some \<lparr>ft_encoding = enc, ft_line_ending = line_ending_detect (drop bom_offset bytes),
                   ft_text = normalize_decoded_content content\<rparr>)"

definition encode_for_file :: "legacy_ops \<Rightarrow> file_text \<Rightarrow> rstr \<Rightarrow> nat list option" where
  "encode_for_file G f content =
     encoding_encode G (ft_encoding f)
       (case ft_line_ending f of
          Lf \<Rightarrow> content | Mixed \<Rightarrow> content | Crlf \<Rightarrow> replace_lf [13, 10] content | Cr \<Rightarrow> replace_lf [13] content)"

definition file_bytes :: "legacy_ops \<Rightarrow> file_text \<Rightarrow> nat list option" where
  "file_bytes G f = encode_for_file G f (ft_text f)"

text \<open>\<open>write_lines\<close>: the bytes and characters of the lines, and the file after writing or appending them.\<close>

definition write_lines :: "legacy_ops \<Rightarrow> file_text \<Rightarrow> rstr list \<Rightarrow> bool \<Rightarrow> nat list \<Rightarrow> (nat \<times> nat list) option" where
  "write_lines G f ls appending old =
     (let content = concat (map (\<lambda>l. l @ [10]) ls)
      in case encode_for_file G f content of
           None \<Rightarrow> None
         | Some bytes \<Rightarrow> Some (length content, if appending then old @ bytes else bytes))"


section \<open>Bytes and text\<close>

text \<open>A continuation byte as its six bits, and the digits of a code point in base 64.\<close>

lemma utf8_contE: "utf8_cont c \<Longrightarrow> (\<And>y. c = 0x80 + y \<Longrightarrow> y < 64 \<Longrightarrow> P) \<Longrightarrow> P"
  unfolding utf8_cont_def by (drule_tac x = "c - 0x80" in meta_spec) auto

lemma low64: "w < 64 \<Longrightarrow> (n * 64 + w) div 64 = n" "w < 64 \<Longrightarrow> (n * 64 + w) mod 64 = w" for n w :: nat
  by simp_all

lemma div64: "n div 4096 = n div 64 div 64" "n div 262144 = n div 64 div 64 div 64" for n :: nat
  by (simp_all add: div_mult2_eq [symmetric])

lemma utf8_char2:
  assumes "0xC2 \<le> b" "b < 0xE0" "utf8_cont c"
  shows "utf8_char ((b - 0xC0) * 64 + (c - 0x80)) = [b, c]"
proof -
  obtain x y where b: "b = 0xC0 + x" and c: "c = 0x80 + y" and y: "y < 64"
    using assms by (auto simp: le_iff_add elim!: utf8_contE)
  have "2 \<le> x" "x < 32" using assms b by auto
  then have "\<not> x * 64 + y < 0x80" "x * 64 + y < 0x800" using y by linarith+
  then show ?thesis by (simp only: utf8_char_def b c add_diff_cancel_left' if_True if_False low64 [OF y])
qed

lemma utf8_char3:
  assumes "0xE0 \<le> b" "b < 0xF0" "utf8_cont c" "utf8_cont d"
    and "0x800 \<le> (b - 0xE0) * 4096 + (c - 0x80) * 64 + (d - 0x80)"
  shows "utf8_char ((b - 0xE0) * 4096 + (c - 0x80) * 64 + (d - 0x80)) = [b, c, d]"
proof -
  obtain y z where c: "c = 0x80 + y" and y: "y < 64" and d: "d = 0x80 + z" and z: "z < 64"
    using assms(3,4) utf8_contE by metis
  obtain x where b: "b = 0xE0 + x" and x: "x < 16" using assms(1,2) by (auto simp: le_iff_add)
  have e: "(b - 0xE0) * 4096 + (c - 0x80) * 64 + (d - 0x80) = (x * 64 + y) * 64 + z" by (simp add: b c d)
  have "\<not> (x * 64 + y) * 64 + z < 0x80" "\<not> (x * 64 + y) * 64 + z < 0x800" 
    using assms(5) unfolding e by linarith+
  moreover have "x * 64 + y \<le> 1023" using x y by linarith
  then have "(x * 64 + y) * 64 \<le> 1023 * 64" by (rule mult_right_mono) simp
  then have "(x * 64 + y) * 64 + z < 0x10000" using z by simp
  ultimately show ?thesis unfolding e by (simp only: utf8_char_def if_True if_False div64 low64 [OF y] low64 [OF z] b c d)
qed

lemma utf8_char4:
  assumes "0xF0 \<le> b" "b < 0xF5" "utf8_cont c" "utf8_cont d" "utf8_cont e"
    and "0x10000 \<le> (b - 0xF0) * 262144 + (c - 0x80) * 4096 + (d - 0x80) * 64 + (e - 0x80)"
  shows "utf8_char ((b - 0xF0) * 262144 + (c - 0x80) * 4096 + (d - 0x80) * 64 + (e - 0x80)) = [b, c, d, e]"
proof -
  obtain y z w where c: "c = 0x80 + y" and y: "y < 64" and d: "d = 0x80 + z" and z: "z < 64"
    and w: "w < 64" "e = 0x80 + w"
    using assms(3-5) utf8_contE by metis
  obtain x where b: "b = 0xF0 + x" using assms(1) by (auto simp: le_iff_add)
  have n: "(b - 0xF0) * 262144 + (c - 0x80) * 4096 + (d - 0x80) * 64 + (e - 0x80) = ((x * 64 + y) * 64 + z) * 64 + w"
    by (simp add: b c d w(2))
  have "\<not> ((x * 64 + y) * 64 + z) * 64 + w < 0x80" "\<not> ((x * 64 + y) * 64 + z) * 64 + w < 0x800"
    "\<not> ((x * 64 + y) * 64 + z) * 64 + w < 0x10000"
    using assms(6) unfolding n by linarith+
  then show ?thesis
    unfolding n by (simp only: utf8_char_def if_False div64 low64 [OF y] low64 [OF z] low64 [OF w(1)] b c d w(2))
qed

lemma utf8_decode_encode: "utf8_decode bs = Some t \<Longrightarrow> utf8_encode t = bs"
proof (induction bs arbitrary: t rule: utf8_decode.induct)
  case (2 b bs)
  consider "b < 0x80" | "0xC2 \<le> b" "b < 0xE0" | "0xE0 \<le> b" "b < 0xF0" | "0xF0 \<le> b" "b < 0xF5"
    using "2.prems" by (auto split: if_splits)
  then show ?case
  proof cases
    case 1
    then show ?thesis using "2.prems" "2.IH"(1) by (auto simp: utf8_encode_def utf8_char_def)
  next
    case 2
    then show ?thesis
      using "2.prems" "2.IH"(2) by (auto simp: utf8_encode_def utf8_char2 split: list.splits if_splits)
  next
    case 3
    then show ?thesis
      using "2.prems" "2.IH"(3) by (auto simp: utf8_encode_def utf8_char3 Let_def split: list.splits if_splits)
  next
    case 4
    then show ?thesis
      using "2.prems" "2.IH"(4) by (auto simp: utf8_encode_def utf8_char4 Let_def split: list.splits if_splits)
  qed
qed (simp add: utf8_encode_def)

lemma utf16_decode_encode: "utf16_decode us = Some t \<Longrightarrow> \<forall>u \<in> set us. u < 0x10000 \<Longrightarrow> utf16_encode t = us"
proof (induction us arbitrary: t rule: utf16_decode.induct)
  case (2 u us)
  have pair: "utf16_char (0x10000 + (u - 0xD800) * 1024 + (v - 0xDC00)) = [u, v]"
    if h: "0xD800 \<le> u" "u < 0xDC00" "0xDC00 \<le> v" "v < 0xE000" for v
  proof -
    obtain x where u: "u = 0xD800 + x" using le_Suc_ex [OF h(1)] by blast
    obtain y where v: "v = 0xDC00 + y" using le_Suc_ex [OF h(3)] by blast
    note uv = u v
    then have "y < 1024" using h by simp
    then show ?thesis by (simp add: utf16_char_def uv)
  qed
  show ?case
  proof (cases "u < 0xD800 \<or> 0xE000 \<le> u")
    case True
    then show ?thesis using 2 by (auto simp: utf16_encode_def utf16_char_def)
  next
    case False
    then show ?thesis
      using "2.prems" "2.IH"(2) pair by (auto simp: utf16_encode_def split: list.splits if_splits)
  qed
qed (simp add: utf16_encode_def)

lemma units_bytes:
  "even (length bs) \<Longrightarrow> \<forall>b \<in> set bs. b < 256 \<Longrightarrow>
   concat (map to_le_bytes (units_of_bytes from_le_bytes bs)) = bs \<and>
   concat (map to_be_bytes (units_of_bytes from_be_bytes bs)) = bs \<and>
   (\<forall>u \<in> set (units_of_bytes from_le_bytes bs). u < 0x10000) \<and>
   (\<forall>u \<in> set (units_of_bytes from_be_bytes bs). u < 0x10000)"
  by (induction from_le_bytes bs rule: units_of_bytes.induct)
    (auto simp: to_le_bytes_def from_le_bytes_def to_be_bytes_def from_be_bytes_def)

section \<open>Breaks\<close>

text \<open>Both loops distinguish the same five beginnings.\<close>

declare scan_breaks.simps(2) [simp del]

lemma scan_steps [simp]:
  "scan_breaks (lf, crlf, cr) [13] = (lf, crlf, True)"
  "scan_breaks (lf, crlf, cr) (13 # 10 # s) = scan_breaks (lf, True, cr) s"
  "d \<noteq> 10 \<Longrightarrow> scan_breaks (lf, crlf, cr) (13 # d # s) = scan_breaks (lf, crlf, True) (d # s)"
  "scan_breaks (lf, crlf, cr) (10 # s) = scan_breaks (True, crlf, cr) s"
  "c \<noteq> 13 \<Longrightarrow> c \<noteq> 10 \<Longrightarrow> scan_breaks (lf, crlf, cr) (c # s) = scan_breaks (lf, crlf, cr) s"
  by (simp_all add: scan_breaks.simps(2))

declare normalize_for_buffer.simps(2) [simp del]

lemma normalize_steps [simp]:
  "normalize_for_buffer [13] = [10]"
  "normalize_for_buffer (13 # 10 # s) = 10 # normalize_for_buffer s"
  "d \<noteq> 10 \<Longrightarrow> normalize_for_buffer (13 # d # s) = 10 # normalize_for_buffer (d # s)"
  "c \<noteq> 13 \<Longrightarrow> normalize_for_buffer (c # s) = c # normalize_for_buffer s"
  by (simp_all add: normalize_for_buffer.simps(2))

lemma breaks_induct [case_names empty last_cr pair alone feed other]:
  fixes P :: "nat list \<Rightarrow> bool"
  assumes "P []" and "P [13]" and "\<And>s. P s \<Longrightarrow> P (13 # 10 # s)" and "\<And>d s. d \<noteq> 10 \<Longrightarrow> P (d # s) \<Longrightarrow> P (13 # d # s)"
    and "\<And>s. P s \<Longrightarrow> P (10 # s)" and "\<And>c s. c \<noteq> 13 \<Longrightarrow> c \<noteq> 10 \<Longrightarrow> P s \<Longrightarrow> P (c # s)"
  shows "P s"
proof (induction s rule: length_induct)
  case (1 s)
  then have IH: "length r < length s \<Longrightarrow> P r" for r by blast
  consider "s = []" | "s = [13]" | r where "s = 13 # 10 # r" | d r where "s = 13 # d # r" "d \<noteq> 10"
    | r where "s = 10 # r" | c r where "s = c # r" "c \<noteq> 13" "c \<noteq> 10"
    by (cases s; cases "tl s"; cases "hd s = 13"; cases "hd s = 10"; cases "hd (tl s) = 10"; auto)
  then show ?case
    by cases (use IH assms in auto)
qed

lemma scan_no_cr: "scan_breaks (lf, crlf, cr) s = (lf', False, False) \<Longrightarrow> 13 \<notin> set s \<and> \<not> crlf \<and> \<not> cr"
  by (induction s arbitrary: lf crlf cr rule: breaks_induct) fastforce+

lemma scan_crlf:
  "scan_breaks (lf, crlf, cr) s = (False, crlf', False) \<Longrightarrow>
   replace_lf [13, 10] (normalize_for_buffer s) = s \<and> \<not> lf \<and> \<not> cr"
  by (induction s arbitrary: lf crlf cr rule: breaks_induct) (fastforce simp: replace_lf_def)+

lemma scan_cr:
  "scan_breaks (lf, crlf, cr) s = (False, False, cr') \<Longrightarrow>
   replace_lf [13] (normalize_for_buffer s) = s \<and> \<not> lf \<and> \<not> crlf"
  by (induction s arbitrary: lf crlf cr rule: breaks_induct) (fastforce simp: replace_lf_def)+

lemma normalize_same: "13 \<notin> set s \<Longrightarrow> normalize_for_buffer s = s"
  by (induction s) auto


lemma normalize_no_cr: "13 \<notin> set (normalize_for_buffer s)"
  by (induction s rule: breaks_induct) auto

lemma scan_skip: "\<forall>b \<in> set bs. b \<noteq> 13 \<and> b \<noteq> 10 \<Longrightarrow> scan_breaks seen (bs @ s) = scan_breaks seen s"
  by (cases seen) (induction bs, auto)

lemma utf8_char_plain: "c \<noteq> 13 \<Longrightarrow> c \<noteq> 10 \<Longrightarrow> utf8_char c \<noteq> [] \<and> (\<forall>b \<in> set (utf8_char c). b \<noteq> 13 \<and> b \<noteq> 10)"
  by (auto simp: utf8_char_def)

lemma scan_utf8: "scan_breaks (lf, crlf, cr) (utf8_encode s) = scan_breaks (lf, crlf, cr) s"
proof (induction s arbitrary: lf crlf cr rule: breaks_induct)
  case (alone d s)
  have d: "utf8_char 13 = [13]" by (simp add: utf8_char_def)
  show ?case
  proof (cases "d = 13")
    case True
    then show ?thesis using alone by (simp add: utf8_encode_def d)
  next
    case False
    obtain b bs where "utf8_char d = b # bs" "b \<noteq> 10"
      using utf8_char_plain [OF False alone(1)] by (cases "utf8_char d") auto
    then show ?thesis using alone by (simp add: utf8_encode_def d)
  qed
next
  case (other c s)
  then show ?case using scan_skip [OF conjunct2 [OF utf8_char_plain]] by (simp add: utf8_encode_def)
qed (simp_all add: utf8_encode_def utf8_char_def)

lemma detect_utf8: "utf8_decode bs = Some t \<Longrightarrow> line_ending_detect bs = line_ending_detect t"
  using scan_utf8 [of False False False t] utf8_decode_encode by (simp add: line_ending_detect_def)

text \<open>Giving the breaks back that were normalised, for a text with one kind of them.\<close>

lemma restore_breaks:
  "line_ending_detect t = Lf \<Longrightarrow> 13 \<notin> set t"
  "line_ending_detect t = Crlf \<Longrightarrow> replace_lf [13, 10] (normalize_decoded_content t) = t"
  "line_ending_detect t = Cr \<Longrightarrow> replace_lf [13] (normalize_decoded_content t) = t"
proof -
  obtain lf crlf cr where s: "scan_breaks (False, False, False) t = (lf, crlf, cr)" by (cases "scan_breaks (False, False, False) t")
  have n: "normalize_decoded_content t = normalize_for_buffer t"
    by (simp add: normalize_decoded_content_def normalize_same)
  show "line_ending_detect t = Lf \<Longrightarrow> 13 \<notin> set t"
    using s scan_no_cr by (auto simp: line_ending_detect_def split: if_splits)
  show "line_ending_detect t = Crlf \<Longrightarrow> replace_lf [13, 10] (normalize_decoded_content t) = t"
    unfolding n using s scan_crlf by (auto simp: line_ending_detect_def split: if_splits)
  show "line_ending_detect t = Cr \<Longrightarrow> replace_lf [13] (normalize_decoded_content t) = t"
    unfolding n using s scan_cr by (auto simp: line_ending_detect_def split: if_splits)
qed

lemma utf16_char_unit: "u \<in> set (utf16_char c) \<Longrightarrow> u < 0xD800 \<Longrightarrow> u = c"
  by (auto simp: utf16_char_def split: if_splits)

lemma utf16_encode_unit: "13 \<in> set t \<longleftrightarrow> 13 \<in> set (utf16_encode t)"
proof
  show "13 \<in> set t \<Longrightarrow> 13 \<in> set (utf16_encode t)"
    by (auto simp: utf16_encode_def utf16_char_def intro!: bexI [of _ 13])
  show "13 \<in> set (utf16_encode t) \<Longrightarrow> 13 \<in> set t"
    by (auto simp: utf16_encode_def dest: utf16_char_unit [of 13])
qed

lemma scan_without_cr: "13 \<notin> set s \<Longrightarrow> snd (scan_breaks (lf, crlf, cr) s) = (crlf, cr)"
  by (induction s arbitrary: lf) (auto simp: scan_breaks.simps)

lemma detect_without_cr: "13 \<notin> set s \<Longrightarrow> line_ending_detect s = Lf"
  using scan_without_cr [of s False False False]
  by (auto simp: line_ending_detect_def split: prod.split)

lemma unit_byte:
  "a + 256 * b = n \<Longrightarrow> n < 256 \<Longrightarrow> a = n \<and> b = 0" for a b n :: nat
  by (cases b) simp_all

lemma units_in_bytes:
  "13 \<in> set (units_of_bytes from_le_bytes bs) \<Longrightarrow> 13 \<in> set bs"
  "13 \<in> set (units_of_bytes from_be_bytes bs) \<Longrightarrow> 13 \<in> set bs"
proof (induction from_le_bytes bs rule: units_of_bytes.induct)
  case (1 a b bs)
  have "a + 256 * b = 13 \<Longrightarrow> a = 13" "b + 256 * a = 13 \<Longrightarrow> b = 13"
    using unit_byte [of a b 13] unit_byte [of b a 13] by simp_all
  with 1 show "13 \<in> set (units_of_bytes from_le_bytes (a # b # bs)) \<Longrightarrow> 13 \<in> set (a # b # bs)"
    "13 \<in> set (units_of_bytes from_be_bytes (a # b # bs)) \<Longrightarrow> 13 \<in> set (a # b # bs)"
    by (auto simp: from_le_bytes_def from_be_bytes_def add.commute)
qed simp_all

section \<open>Properties\<close>

text \<open>
  C38. Opening a file and saving it unchanged writes the bytes that were read, byte for byte: for
  UTF-8, with or without a byte order mark, whenever the line breaks are of one kind, and for
  UTF-16 with its mark when the bytes are of even number and none of them is 13. Such a byte need not
  be a carriage return, and then the file may be changed too: see \<open>utf16_cr_added\<close> and, for a pair of
  carriage return and line feed, \<open>utf16_crlf_lost\<close>.
\<close>

theorem unchanged_file_saved_identically:
  assumes "load_contents G bs = Some f" and "\<forall>b \<in> set bs. b < 256"
    and "ft_encoding f \<in> {Utf8, Utf8Bom} \<and> ft_line_ending f \<noteq> Mixed \<or>
      take 2 bs \<in> {[0xFF, 0xFE], [0xFE, 0xFF]} \<and> 13 \<notin> set bs \<and> even (length bs)"
  shows "file_bytes G f = Some bs"
proof -
  obtain enc off t where det: "encoding_detect G bs = (enc, off)" and dec: "encoding_decode G enc bs off = Some t"
    and f: "f = \<lparr>ft_encoding = enc, ft_line_ending = line_ending_detect (drop off bs), ft_text = normalize_decoded_content t\<rparr>"
    using assms(1) by (auto simp: load_contents_def split: prod.splits option.splits)
  let ?n = "normalize_decoded_content t"
  have lf: "13 \<notin> set bs \<Longrightarrow> ft_line_ending f = Lf"
    using set_drop_subset [of off bs] by (auto simp: f intro: detect_without_cr)
  have restored: "(case line_ending_detect t of
      Lf \<Rightarrow> ?n | Crlf \<Rightarrow> replace_lf [13, 10] ?n | Cr \<Rightarrow> replace_lf [13] ?n | Mixed \<Rightarrow> ?n) = t"
    if "line_ending_detect t \<noteq> Mixed"
    using that restore_breaks [of t]
    by (cases "line_ending_detect t") (simp_all add: normalize_decoded_content_def)
  show ?thesis
  proof (cases "enc \<in> {Utf8, Utf8Bom}")
    case True
    then have bytes: "utf8_decode (drop off bs) = Some t" using dec by (auto simp: encoding_decode_def)
    then have "utf8_encode t = drop off bs" by (rule utf8_decode_encode)
    moreover have "take 3 bs = [0xEF, 0xBB, 0xBF] \<Longrightarrow> [0xEF, 0xBB, 0xBF] @ drop 3 bs = bs"
      by (metis append_take_drop_id)
    moreover have "enc = Utf8Bom \<Longrightarrow> off = 3 \<and> take 3 bs = [0xEF, 0xBB, 0xBF]" "enc = Utf8 \<Longrightarrow> off = 0"
      using det by (auto simp: encoding_detect_def encoding_of_name_def split: if_splits)
    moreover have "ft_line_ending f \<noteq> Mixed" using assms(3) lf by auto
    ultimately show ?thesis
      using restored detect_utf8 [OF bytes] True
      by (auto simp: file_bytes_def encode_for_file_def f encoding_encode_def)
  next
    case False
    then have marked: "take 2 bs \<in> {[0xFF, 0xFE], [0xFE, 0xFF]}" "13 \<notin> set bs" "even (length bs)"
      using assms(3) by (auto simp: f)
    have lf: "ft_line_ending f = Lf" by (rule lf [OF marked(2)])
    define r where "r = drop 2 bs"
    have small: "even (length r)" "\<forall>b \<in> set r. b < 256"
      using marked(3) assms(2) set_drop_subset [of 2 bs] by (auto simp: r_def)
    have long: "take 3 bs \<noteq> [0xEF, 0xBB, 0xBF]" using marked(1) by (cases bs; cases "tl bs") auto
    have off: "off = 2" and enc: "enc = (if take 2 bs = [0xFE, 0xFF] then Utf16Be else Utf16Le)"
      using det marked(1) long by (auto simp: encoding_detect_def split: if_splits)
    note units = units_bytes [OF small]
    have "13 \<notin> set r" using marked(2) set_drop_subset [of 2 bs] by (auto simp: r_def)
    have le: "utf16_decode (units_of_bytes from_le_bytes r) = Some t \<Longrightarrow> concat (map to_le_bytes (utf16_encode t)) = r \<and> 13 \<notin> set t"
      using utf16_decode_encode [of "units_of_bytes from_le_bytes r" t] units units_in_bytes(1) [of r] \<open>13 \<notin> set r\<close>
      by (metis utf16_encode_unit)
    have be: "utf16_decode (units_of_bytes from_be_bytes r) = Some t \<Longrightarrow> concat (map to_be_bytes (utf16_encode t)) = r \<and> 13 \<notin> set t"
      using utf16_decode_encode [of "units_of_bytes from_be_bytes r" t] units units_in_bytes(2) [of r] \<open>13 \<notin> set r\<close>
      by (metis utf16_encode_unit)
    have bs: "take 2 bs = m \<Longrightarrow> m @ r = bs" for m
      unfolding r_def by (metis append_take_drop_id)
    have "encoding_encode G enc t = Some bs \<and> 13 \<notin> set t"
    proof (cases "take 2 bs = [0xFE, 0xFF]")
      case True
      then show ?thesis
        using dec be bs [OF True] by (simp add: enc off encoding_decode_def encoding_encode_def r_def)
    next
      case False
      then have m: "take 2 bs = [0xFF, 0xFE]" using marked(1) by simp
      then show ?thesis
        using dec le bs [OF m] by (simp add: enc off encoding_decode_def encoding_encode_def r_def)
    qed
    then show ?thesis
      using lf by (simp add: file_bytes_def encode_for_file_def f normalize_decoded_content_def)
  qed
qed

text \<open>A file with a mark, two Windows lines and a character of two bytes.\<close>

definition latin1_ops :: legacy_ops where
  "latin1_ops =
     \<lparr>legacy_guess = \<lambda>_. ''ISO-8859-1'', legacy_decode = \<lambda>_ bytes. bytes,
      legacy_encode = \<lambda>_ t. if list_all (\<lambda>c. c < 256) t then Some t else None\<rparr>"

theorem unchanged_file_saved_identically_witness:
  "\<exists>f. load_contents latin1_ops [0xEF, 0xBB, 0xBF, 97, 13, 10, 0xC3, 0xA9, 13, 10] = Some f \<and>
     ft_text f = [97, 10, 233, 10] \<and> ft_line_ending f = Crlf \<and>
     file_bytes latin1_ops f = Some [0xEF, 0xBB, 0xBF, 97, 13, 10, 0xC3, 0xA9, 13, 10]"
proof -
  let ?f = "\<lparr>ft_encoding = Utf8Bom, ft_line_ending = Crlf, ft_text = [97, 10, 233, 10]\<rparr>"
  have "load_contents latin1_ops [0xEF, 0xBB, 0xBF, 97, 13, 10, 0xC3, 0xA9, 13, 10] = Some ?f"
    by (simp add: load_contents_def encoding_detect_def encoding_decode_def utf8_cont_def line_ending_detect_def
        normalize_decoded_content_def)
  then show ?thesis
    using unchanged_file_saved_identically [of latin1_ops "[0xEF, 0xBB, 0xBF, 97, 13, 10, 0xC3, 0xA9, 13, 10]" ?f] by simp
qed

section \<open>What is not kept\<close>

text \<open>
  The line ending is detected on the bytes of the file, not on the decoded text. In UTF-16 a
  carriage return and the line feed after it are four bytes, so a pair counts as one of each alone:
  a file with Windows line ends is \<open>Mixed\<close>, and saving it drops its carriage returns.
\<close>

lemma scan_mono: "scan_breaks (True, crlf, True) s = (lf', crlf', cr') \<Longrightarrow> lf' \<and> cr'"
  by (induction s arbitrary: crlf rule: breaks_induct) auto

lemma scan_utf16_pair: "\<exists>crlf'. scan_breaks (lf, crlf, cr) (p @ 13 # 0 # 10 # s) = (True, crlf', True)"
proof -
  have start: "\<exists>crlf'. scan_breaks (lf, crlf, cr) (13 # 0 # 10 # s) = (True, crlf', True)" for lf crlf cr
    using scan_mono [of crlf s] by (cases "scan_breaks (True, crlf, True) s") auto
  show ?thesis
    by (induction p arbitrary: lf crlf cr rule: breaks_induct) (use start in auto)
qed

lemma le_pair_bytes:
  "units_of_bytes from_le_bytes bs = p @ 13 # 10 # q \<Longrightarrow> \<forall>b \<in> set bs. b < 256 \<Longrightarrow>
   \<exists>r s. bs = r @ 13 # 0 # 10 # 0 # s"
proof (induction p arbitrary: bs)
  case Nil
  then obtain a b c d s where bs: "bs = a # b # c # d # s"
    by (cases "(from_le_bytes, bs)" rule: units_of_bytes.cases; cases "(from_le_bytes, tl (tl bs))" rule: units_of_bytes.cases) auto
  with Nil have "a + 256 * b = 13" "c + 256 * d = 10" by (auto simp: from_le_bytes_def)
  then have "a = 13" "b = 0" "c = 10" "d = 0"
    using unit_byte [of a b 13] unit_byte [of c d 10] by simp_all
  with bs have "bs = [] @ 13 # 0 # 10 # 0 # s" by simp
  then show ?case by blast
next
  case (Cons u p)
  then obtain a b s where bs: "bs = a # b # s" by (cases "(from_le_bytes, bs)" rule: units_of_bytes.cases) auto
  with Cons obtain r s' where "s = r @ 13 # 0 # 10 # 0 # s'" by fastforce
  with bs have "bs = (a # b # r) @ 13 # 0 # 10 # 0 # s'" by simp
  then show ?case by blast
qed

lemma units_small: "\<forall>b \<in> set bs. b < 256 \<Longrightarrow> \<forall>u \<in> set (units_of_bytes from_le_bytes bs). u < 0x10000"
  by (induction from_le_bytes bs rule: units_of_bytes.induct) (auto simp: from_le_bytes_def)

lemma units_to_le: "units_of_bytes from_le_bytes (concat (map to_le_bytes us)) = us"
  by (induction us) (simp_all add: to_le_bytes_def from_le_bytes_def)

lemma utf16_crlf_lost:
  assumes "load_contents G bs = Some f" and "\<forall>b \<in> set bs. b < 256" and "take 2 bs = [0xFF, 0xFE]"
    and "encoding_decode G Utf16Le bs 2 = Some (p @ 13 # 10 # q)"
  shows "ft_line_ending f = Mixed \<and> file_bytes G f \<noteq> Some bs"
proof -
  let ?r = "drop 2 bs" and ?t = "p @ 13 # 10 # q"
  have dec: "utf16_decode (units_of_bytes from_le_bytes ?r) = Some ?t" using assms(4) by (simp add: encoding_decode_def)
  have f: "f = \<lparr>ft_encoding = Utf16Le, ft_line_ending = line_ending_detect ?r, ft_text = normalize_decoded_content ?t\<rparr>"
    using assms by (cases bs; cases "tl bs") (auto simp: load_contents_def encoding_detect_def)
  have small: "\<forall>b \<in> set ?r. b < 256" using assms(2) set_drop_subset [of 2 bs] by blast
  have units: "utf16_encode ?t = units_of_bytes from_le_bytes ?r"
    by (rule utf16_decode_encode [OF dec units_small [OF small]])
  then have split: "units_of_bytes from_le_bytes ?r = utf16_encode p @ 13 # 10 # utf16_encode q"
    by (simp add: utf16_encode_def utf16_char_def)
  obtain r s where rs: "?r = r @ 13 # 0 # 10 # 0 # s" using le_pair_bytes [OF split small] by blast
  have mixed: "ft_line_ending f = Mixed"
    using scan_utf16_pair [of False False False r "0 # s"] unfolding rs [symmetric] by (auto simp: f line_ending_detect_def)
  have "file_bytes G f \<noteq> Some bs"
  proof
    assume "file_bytes G f = Some bs"
    then have "bs = [0xFF, 0xFE] @ concat (map to_le_bytes (utf16_encode (normalize_decoded_content ?t)))"
      using mixed by (simp add: f file_bytes_def encode_for_file_def encoding_encode_def)
    then have "?r = concat (map to_le_bytes (utf16_encode (normalize_decoded_content ?t)))"
      by (metis append_eq_conv_conj length_Cons list.size(3) numeral_2_eq_2)
    then have "utf16_encode ?t = utf16_encode (normalize_decoded_content ?t)"
      using units units_to_le by metis
    then show False
      using utf16_encode_unit [of ?t] utf16_encode_unit [of "normalize_decoded_content ?t"] normalize_no_cr
      by (simp add: normalize_decoded_content_def)
  qed
  with mixed show ?thesis ..
qed

text \<open>
  A byte 13 may also be half of another character. U+0D05 and a line feed in UTF-16 with its mark are
  the bytes 05 0D 0A 00, which count as Windows line ends: saving the file adds a carriage return.
\<close>

lemma utf16_cr_added:
  fixes bs :: "nat list" and f :: file_text
  defines "bs \<equiv> [0xFF, 0xFE, 0x05, 0x0D, 0x0A, 0x00]"
    and "f \<equiv> \<lparr>ft_encoding = Utf16Le, ft_line_ending = Crlf, ft_text = [0x0D05, 10]\<rparr>"
  shows "load_contents G bs = Some f \<and> file_bytes G f = Some [0xFF, 0xFE, 0x05, 0x0D, 0x0D, 0x00, 0x0A, 0x00]"
  by (simp add: bs_def f_def load_contents_def file_bytes_def encode_for_file_def encoding_detect_def encoding_decode_def encoding_encode_def
      line_ending_detect_def line_ending_str_def normalize_decoded_content_def from_le_bytes_def to_le_bytes_def utf16_encode_def utf16_char_def
      replace_lf_def scalar_def)

text \<open>
  \<open>:w >> file\<close> encodes the lines it appends as it would a whole file: with a byte order mark, which
  then stands in the middle of the file.
\<close>

lemma appended_mark:
  assumes "ft_encoding f = Utf8Bom" and "write_lines G f ls True old = Some (n, new)"
  shows "\<exists>rest. new = old @ [0xEF, 0xBB, 0xBF] @ rest"
  using assms by (auto simp: write_lines_def encode_for_file_def encoding_encode_def Let_def)

end
