(* ===== verification/Conflicts.thy ===== *)
theory Conflicts
  imports ExPatternLaws
begin

text \<open>
  Merge conflicts in the text of a buffer: finding the marked blocks and what replaces one
  (ovim-core/src/git/conflict.rs), and the command that resolves the block at the cursor
  (\<open>resolve_conflict\<close> of editor/git_tools.rs). A status message is part of the result.
\<close>

section \<open>Blocks\<close>

record conflict =
  cf_start :: nat
  cf_base :: "nat option"
  cf_separator :: nat
  cf_end :: nat
  cf_ours_label :: rstr
  cf_theirs_label :: rstr

definition conflict_contains :: "conflict \<Rightarrow> nat \<Rightarrow> bool" where
  "conflict_contains c line \<longleftrightarrow> cf_start c \<le> line \<and> line \<le> cf_end c"

definition conflict_ours :: "conflict \<Rightarrow> nat \<times> nat" where
  "conflict_ours c = (cf_start c + 1, case cf_base c of Some b \<Rightarrow> b | None \<Rightarrow> cf_separator c)"

definition conflict_theirs :: "conflict \<Rightarrow> nat \<times> nat" where
  "conflict_theirs c = (cf_separator c + 1, cf_end c)"

datatype resolution = Ours | Theirs | Both | Neither

definition resolution_label :: "resolution \<Rightarrow> rstr" where
  "resolution_label r =
     (case r of Ours \<Rightarrow> rs ''ours'' | Theirs \<Rightarrow> rs ''theirs'' | Both \<Rightarrow> rs ''both sides'' | Neither \<Rightarrow> rs ''neither side'')"

definition marker :: "rstr \<Rightarrow> rchar \<Rightarrow> rstr option" where
  "marker line symbol =
     (if \<not> prefix (replicate 7 symbol) line then None
      else case drop 7 line of
             [] \<Rightarrow> Some []
           | c # s \<Rightarrow> if c = symbol then None else if c = 32 then Some (str_trim s) else None)"

text \<open>The inner loop: the base, the separator and the end of the block, and the label at its end.\<close>

fun scan_conflict ::
  "nat \<Rightarrow> nat option \<Rightarrow> nat option \<Rightarrow> rstr list \<Rightarrow> nat option \<times> nat option \<times> nat option \<times> rstr" where
  "scan_conflict cursor base separator [] = (base, separator, None, [])"
| "scan_conflict cursor base separator (line # ls) =
     (if marker line (rc CHR ''<'') \<noteq> None then (base, separator, None, [])
      else if separator = None \<and> base = None \<and> marker line (rc CHR ''|'') \<noteq> None
      then scan_conflict (cursor + 1) (Some cursor) separator ls
      else if separator = None \<and> marker line (rc CHR ''='') \<noteq> None
      then scan_conflict (cursor + 1) base (Some cursor) ls
      else if separator \<noteq> None then
        (case marker line (rc CHR ''>'') of
           Some label \<Rightarrow> (base, separator, Some cursor, label)
         | None \<Rightarrow> scan_conflict (cursor + 1) base separator ls)
      else scan_conflict (cursor + 1) base separator ls)"

text \<open>The outer loop at the line with the given index; the list holds the lines from it on.\<close>

function find_conflicts_from :: "nat \<Rightarrow> rstr list \<Rightarrow> conflict list" where
  "find_conflicts_from index [] = []"
| "find_conflicts_from index (line # ls) =
     (case marker line (rc CHR ''<'') of
        None \<Rightarrow> find_conflicts_from (index + 1) ls
      | Some ours_label \<Rightarrow>
          (case scan_conflict (index + 1) None None ls of
             (base, Some separator, Some e, theirs_label) \<Rightarrow>
               \<lparr>cf_start = index, cf_base = base, cf_separator = separator, cf_end = e,
                cf_ours_label = ours_label, cf_theirs_label = theirs_label\<rparr>
               # find_conflicts_from (e + 1) (drop (e - index) ls)
           | _ \<Rightarrow> find_conflicts_from (index + 1) ls))"
  by pat_completeness auto

termination
  by (relation "measure (\<lambda>(_, ls). length ls)") auto

declare find_conflicts_from.simps(2) [simp del]

definition find_conflicts :: "rstr list \<Rightarrow> conflict list" where
  "find_conflicts ls = find_conflicts_from 0 ls"

definition resolved_lines :: "rstr list \<Rightarrow> conflict \<Rightarrow> resolution \<Rightarrow> rstr list" where
  "resolved_lines ls c r =
     (let part = (\<lambda>(from, to). take (to - from) (drop from ls))
      in case r of
           Ours \<Rightarrow> part (conflict_ours c)
         | Theirs \<Rightarrow> part (conflict_theirs c)
         | Both \<Rightarrow> part (conflict_ours c) @ part (conflict_theirs c)
         | Neither \<Rightarrow> [])"

definition conflict_at_or_after :: "conflict list \<Rightarrow> nat \<Rightarrow> conflict option" where
  "conflict_at_or_after cs line =
     (case find (\<lambda>c. conflict_contains c line) cs of
        Some c \<Rightarrow> Some c
      | None \<Rightarrow> find (\<lambda>c. cf_start c > line) cs)"

section \<open>Resolving a block\<close>

definition trim_breaks :: "rstr \<Rightarrow> rstr" where
  "trim_breaks t = rev (dropWhile (\<lambda>c. c = 10 \<or> c = 13) (rev t))"

definition conflict_buffer_lines :: "'r rope_ops \<Rightarrow> 'r buffer \<Rightarrow> rstr list" where
  "conflict_buffer_lines R b =
     map (\<lambda>line. case buffer_line_text R b line of Some t \<Rightarrow> trim_breaks t | None \<Rightarrow> []) [0..<buffer_line_count R b]"

definition buffer_conflicts :: "'r rope_ops \<Rightarrow> 'r buffer \<Rightarrow> conflict list" where
  "buffer_conflicts R b = find_conflicts (conflict_buffer_lines R b)"

text \<open>Where \<open>goto_conflict\<close> jumps.\<close>

definition conflict_jump :: "conflict list \<Rightarrow> bool \<Rightarrow> nat \<Rightarrow> conflict option" where
  "conflict_jump cs forward line =
     (if cs = [] then None
      else if forward then
        (case find (\<lambda>c. cf_start c > line) cs of Some c \<Rightarrow> Some c | None \<Rightarrow> Some (hd cs))
      else
        (case find (\<lambda>c. cf_end c < line \<or> cf_start c < line) (rev cs) of Some c \<Rightarrow> Some c | None \<Rightarrow> Some (last cs)))"

definition resolve_conflict ::
  "'r rope_ops \<Rightarrow> resolution \<Rightarrow> ('r, 'f, 'a, 'g) ex_editor \<Rightarrow> rstr \<times> ('r, 'f, 'a, 'g) ex_editor" where
  "resolve_conflict R r ed =
     (let ls = conflict_buffer_lines R (ed_buffer ed);
          line = cur_line (buf_cursor (ed_buffer ed))
      in case conflict_at_or_after (find_conflicts ls) line of
           None \<Rightarrow> (rs ''No merge conflict at or below the cursor'', ed)
         | Some target \<Rightarrow>
             (let replacement = resolved_lines ls target r;
                  t = join replacement @ (if replacement \<noteq> [] then [10] else []);
                  before = cursor_position (ed_doc ed);
                  ((_, edits), b) = buffer_record
                    (\<lambda>b. ((), buffer_insert_text_at R
                       (snd (buffer_delete_range R b (cf_start target) 0 (cf_end target + 1) 0)) (cf_start target) 0 t))
                    (ed_buffer ed);
                  ed = upd_buffer (\<lambda>_. b) ed;
                  ed = (if edits \<noteq> [] then
                          (let ed = upd_buffer (\<lambda>b. buffer_validate_cursor_position R
                                 (b\<lparr>buf_cursor := cursor_set_position (buf_cursor b) (cf_start target) 0\<rparr>)) ed
                           in ed\<lparr>ed_doc := snd (push_recorded_undo edits before (cursor_position (ed_doc ed)) (ed_doc ed))\<rparr>)
                        else ed);
                  remaining = length (buffer_conflicts R (ed_buffer ed))
              in (rs ''Kept '' @ resolution_label r @ rs ''; '' @ nat_digits 10 remaining @ rs '' conflict'' @
                    (if remaining = 1 then [] else rs ''s'') @ rs '' left in this buffer'', ed)))"

section \<open>Documents with conflicts\<close>

text \<open>
  A document is plain lines and blocks. A side may hold what would be a marker elsewhere, as long as
  the search does not look for it there.
\<close>

datatype conflict_part =
  PlainPart "rstr list"
| BlockPart rstr "rstr list" "(rstr \<times> rstr list) option" "rstr list" rstr

definition marker_line :: "rchar \<Rightarrow> rstr \<Rightarrow> rstr" where
  "marker_line c label = replicate 7 c @ (if label = [] then [] else 32 # label)"

fun part_lines :: "conflict_part \<Rightarrow> rstr list" where
  "part_lines (PlainPart ls) = ls"
| "part_lines (BlockPart l ours base theirs l') =
     marker_line (rc CHR ''<'') l # ours @
     (case base of None \<Rightarrow> [] | Some (m, bs) \<Rightarrow> marker_line (rc CHR ''|'') m # bs) @
     marker_line (rc CHR ''='') [] # theirs @ [marker_line (rc CHR ''>'') l']"

definition unmarked :: "rchar list \<Rightarrow> rstr list \<Rightarrow> bool" where
  "unmarked cs ls \<longleftrightarrow> (\<forall>l \<in> set ls. \<forall>c \<in> set cs. marker l c = None)"

fun part_ok :: "conflict_part \<Rightarrow> bool" where
  "part_ok (PlainPart ls) \<longleftrightarrow> unmarked [rc CHR ''<''] ls"
| "part_ok (BlockPart l ours base theirs l') \<longleftrightarrow>
     str_trim l = l \<and> str_trim l' = l' \<and> unmarked [rc CHR ''<'', rc CHR ''|'', rc CHR ''=''] ours \<and>
     (case base of None \<Rightarrow> True | Some (m, bs) \<Rightarrow> str_trim m = m \<and> unmarked [rc CHR ''<'', rc CHR ''=''] bs) \<and>
     unmarked [rc CHR ''<'', rc CHR ''>''] theirs"

fun part_conflict :: "nat \<Rightarrow> conflict_part \<Rightarrow> conflict option" where
  "part_conflict n (PlainPart ls) = None"
| "part_conflict n (BlockPart l ours base theirs l') =
     (let b = n + 1 + length ours; s = b + (case base of None \<Rightarrow> 0 | Some (_, bs) \<Rightarrow> 1 + length bs)
      in Some \<lparr>cf_start = n, cf_base = (if base = None then None else Some b), cf_separator = s,
               cf_end = s + 1 + length theirs, cf_ours_label = l, cf_theirs_label = l'\<rparr>)"

fun part_conflicts :: "nat \<Rightarrow> conflict_part list \<Rightarrow> conflict list" where
  "part_conflicts n [] = []"
| "part_conflicts n (p # ps) =
     (case part_conflict n p of None \<Rightarrow> [] | Some c \<Rightarrow> [c]) @ part_conflicts (n + length (part_lines p)) ps"

fun part_side :: "resolution \<Rightarrow> conflict_part \<Rightarrow> rstr list" where
  "part_side r (PlainPart ls) = ls"
| "part_side r (BlockPart l ours base theirs l') =
     (case r of Ours \<Rightarrow> ours | Theirs \<Rightarrow> theirs | Both \<Rightarrow> ours @ theirs | Neither \<Rightarrow> [])"

lemma marker_marker_line: "str_trim l = l \<Longrightarrow> c \<noteq> 32 \<Longrightarrow> marker (marker_line c l) c = Some l"
  by (auto simp: marker_def marker_line_def)

lemma marker_other: "c \<noteq> d \<Longrightarrow> marker (marker_line c l) d = None"
  by (auto simp: marker_def marker_line_def numeral_eq_Suc)

lemma scan_theirs:
  "unmarked [rc CHR ''<'', rc CHR ''>''] theirs \<Longrightarrow> str_trim l = l \<Longrightarrow>
   scan_conflict n base (Some s) (theirs @ marker_line (rc CHR ''>'') l # rest) = (base, Some s, Some (n + length theirs), l)"
  by (induction theirs arbitrary: n) (auto simp: unmarked_def marker_marker_line marker_other)

lemma scan_base:
  "unmarked [rc CHR ''<'', rc CHR ''=''] bs \<Longrightarrow>
   scan_conflict n (Some b) None (bs @ marker_line (rc CHR ''='') [] # rest) =
     scan_conflict (n + length bs + 1) (Some b) (Some (n + length bs)) rest"
  by (induction bs arbitrary: n) (auto simp: unmarked_def marker_marker_line marker_other str_trim_def)

lemma scan_ours:
  "unmarked [rc CHR ''<'', rc CHR ''|'', rc CHR ''=''] ours \<Longrightarrow>
   scan_conflict n None None (ours @ rest) = scan_conflict (n + length ours) None None rest"
  by (induction ours arbitrary: n) (auto simp: unmarked_def)


lemma block_marks:
  "marker (marker_line (rc CHR ''='') []) (rc CHR ''='') = Some []" "marker (marker_line (rc CHR ''='') []) (rc CHR ''<'') = None"
  "marker (marker_line (rc CHR ''='') []) (rc CHR ''|'') = None" "marker (marker_line (rc CHR ''|'') l) (rc CHR ''<'') = None"
  "str_trim l = l \<Longrightarrow> marker (marker_line (rc CHR ''|'') l) (rc CHR ''|'') = Some l"
  "str_trim l = l \<Longrightarrow> marker (marker_line (rc CHR ''<'') l) (rc CHR ''<'') = Some l"
  by (simp_all add: marker_marker_line marker_other) (simp add: marker_marker_line str_trim_def)

lemma find_skip: "find P xs = None \<Longrightarrow> find P (xs @ ys) = find P ys"
  by (induction xs) (auto split: if_splits)

lemma scan_block:
  assumes "part_ok (BlockPart l ours base theirs l')"
  shows "scan_conflict (Suc n) None None (tl (part_lines (BlockPart l ours base theirs l')) @ rest) =
    (let c = the (part_conflict n (BlockPart l ours base theirs l')) in (cf_base c, Some (cf_separator c), Some (cf_end c), l'))"
proof (cases base)
  case None
  then show ?thesis
    using assms by (simp add: scan_ours scan_theirs block_marks Let_def del: rc_simps)
next
  case (Some p)
  obtain m bs where p: "p = (m, bs)" by (cases p)
  have "unmarked [rc CHR ''<'', rc CHR ''=''] bs" "str_trim m = m" using assms Some p by simp_all
  then show ?thesis
    using assms scan_base [of bs] Some p
    by (simp add: scan_ours scan_theirs block_marks Let_def del: rc_simps)
qed

lemma find_plain:
  "unmarked [rc CHR ''<''] ls \<Longrightarrow> find_conflicts_from n (ls @ rest) = find_conflicts_from (n + length ls) rest"
  by (induction ls arbitrary: n) (auto simp: unmarked_def find_conflicts_from.simps(2))

lemma block_lines_length:
  "part_conflict n (BlockPart l ours base theirs l') = Some c \<Longrightarrow>
   n + length (part_lines (BlockPart l ours base theirs l')) = cf_end c + 1"
  by (cases base) (auto simp: Let_def)

lemma find_parts: "\<forall>p \<in> set ps. part_ok p \<Longrightarrow> find_conflicts_from n (concat (map part_lines ps)) = part_conflicts n ps"
proof (induction ps arbitrary: n)
  case (Cons p ps)
  let ?rest = "concat (map part_lines ps)"
  show ?case
  proof (cases p)
    case (PlainPart ls)
    then show ?thesis using Cons by (simp add: find_plain)
  next
    case (BlockPart l ours base theirs l')
    define c where "c = the (part_conflict n p)"
    have c: "part_conflict n p = Some c" by (simp add: c_def BlockPart Let_def)
    have len: "n + length (part_lines p) = cf_end c + 1"
      using c block_lines_length unfolding BlockPart by blast
    obtain t where t: "part_lines p = marker_line (rc CHR ''<'') l # t" by (simp add: BlockPart)
    then have drop: "drop (cf_end c - n) (t @ ?rest) = ?rest" using len by simp
    have scan: "scan_conflict (Suc n) None None (t @ ?rest) = (cf_base c, Some (cf_separator c), Some (cf_end c), l')"
      using scan_block [of l ours base theirs l' n ?rest] Cons.prems t unfolding BlockPart
      by (simp add: c_def BlockPart Let_def del: part_lines.simps)
    have "marker (marker_line (rc CHR ''<'') l) (rc CHR ''<'') = Some l"
      using Cons.prems BlockPart by (intro marker_marker_line) auto
    moreover have "cf_start c = n" "cf_ours_label c = l" "cf_theirs_label c = l'"
      by (simp_all add: c_def BlockPart Let_def)
    ultimately have "find_conflicts_from n (part_lines p @ ?rest) = c # find_conflicts_from (Suc (cf_end c)) ?rest"
      using scan drop by (simp add: t find_conflicts_from.simps(2))
    then show ?thesis using Cons c len by simp
  qed
qed simp

lemma resolved_part:
  assumes "part_conflict (length pre) (BlockPart l ours base theirs l') = Some c"
  shows "resolved_lines (pre @ part_lines (BlockPart l ours base theirs l') @ post) c r =
    part_side r (BlockPart l ours base theirs l')"
  using assms by (cases base; cases r) (auto simp: resolved_lines_def conflict_ours_def conflict_theirs_def numeral_3_eq_3 Let_def)

lemma part_conflicts_append:
  "part_conflicts n (ps @ qs) = part_conflicts n ps @ part_conflicts (n + length (concat (map part_lines ps))) qs"
  by (induction ps arbitrary: n) (simp_all add: add.assoc split: option.splits)

lemma part_conflicts_bounds:
  "c \<in> set (part_conflicts n ps) \<Longrightarrow> n \<le> cf_start c \<and> cf_end c < n + length (concat (map part_lines ps))"
proof (induction ps arbitrary: n)
  case (Cons p ps)
  consider "part_conflict n p = Some c" | "c \<in> set (part_conflicts (n + length (part_lines p)) ps)"
    using Cons.prems by (auto split: option.splits)
  then show ?case
  proof cases
    case 1
    then show ?thesis
      by (cases p) (use block_lines_length in \<open>auto simp: Let_def split: option.splits\<close>)
  next
    case 2
    then show ?thesis using Cons.IH [OF 2] by auto
  qed
qed simp

lemma conflict_at_part:
  assumes "part_conflict (length (concat (map part_lines ps))) p = Some c" and "conflict_contains c line"
  shows "conflict_at_or_after (part_conflicts 0 (ps @ p # qs)) line = Some c"
proof -
  have start: "cf_start c = length (concat (map part_lines ps))"
    using assms(1) by (cases p) (auto simp: Let_def)
  have "find (\<lambda>c. conflict_contains c line) (part_conflicts 0 ps) = None"
    using part_conflicts_bounds [of _ 0 ps] assms(2) start
    by (fastforce simp: find_None_iff conflict_contains_def)
  then have "find (\<lambda>c. conflict_contains c line) (part_conflicts 0 (ps @ p # qs)) = Some c"
    using assms by (simp add: part_conflicts_append find_skip)
  then show ?thesis by (simp add: conflict_at_or_after_def)
qed

section \<open>The text after a resolution\<close>

context lf_rope begin

lemma replace_lines:
  assumes lf: "lf_only (chs (buf_rope b))" and mod: "buf_modifiable b" and s: "s < length (shown b)" "s < e"
    and ls: "unbroken ls" "\<forall>x \<in> set ls. lf_only x"
  defines "i \<equiv> buffer_insert_text_at R (snd (buffer_delete_range R b s 0 e 0)) s 0 (terminate ls)"
    and "kept \<equiv> take s (shown b) @ ls @ drop e (shown b)"
  shows "shown i = (if kept = [] then [[]] else kept)" and "lf_only (chs (buf_rope i))"
proof -
  let ?d = "snd (buffer_delete_range R b s 0 e 0)"
  note del = delete_lines [OF lf mod s]
  have mod': "buf_modifiable ?d" using mod by simp
  have fits: "s < length (raw ?d)" using del(1) s shown_raw(1) [of b] by (auto simp: min_def)
  have take: "take s (raw b) = take s (shown b)" using s by (simp add: raw_shown)
  have "raw i = take s (raw ?d) @ ls @ drop s (raw ?d)"
    unfolding i_def by (rule insert_lines(1) [OF del(2) mod' fits ls])
  also have "\<dots> = take s (shown b) @ ls @ (if e < length (shown b) then drop e (raw b) else [[]])"
    using del(1) s take by (simp add: min_def)
  finally have raw: "raw i = take s (shown b) @ ls @ (if e < length (shown b) then drop e (raw b) else [[]])" .
  show "lf_only (chs (buf_rope i))" unfolding i_def by (rule insert_lines(2) [OF del(2) mod' fits ls])
  show "shown i = (if kept = [] then [[]] else kept)"
  proof (cases "e < length (shown b) \<and> \<not> terminated b")
    case True
    then have r: "raw i = kept" using raw by (simp add: kept_def raw_shown)
    have "last kept = last (shown b)" using True by (simp add: kept_def)
    moreover have "shown b \<noteq> [[]]" using True s by auto
    ultimately have "last kept \<noteq> []" using unterminated_last [of b] True by auto
    then show ?thesis using shown_of_raw(2) [OF r] True by (auto simp: kept_def)
  next
    case False
    then have r: "raw i = kept @ [[]]" using raw s by (auto simp: kept_def raw_shown)
    show ?thesis
    proof (cases "kept = []")
      case True
      then have "chs (buf_rope i) = []" using r join_split [of "chs (buf_rope i)"] by simp
      then show ?thesis using True by (simp add: shown_lines_def)
    next
      case False
      then show ?thesis using shown_of_raw(1) [OF r] by simp
    qed
  qed
qed

lemma conflict_lines:
  assumes lf: "lf_only (chs (buf_rope b))"
  shows "conflict_buffer_lines R b = shown b"
proof (rule nth_equalityI)
  show "length (conflict_buffer_lines R b) = length (shown b)"
    by (simp add: conflict_buffer_lines_def line_count [OF lf])
next
  fix l
  assume "l < length (conflict_buffer_lines R b)"
  then have l: "l < length (shown b)" by (simp add: conflict_buffer_lines_def line_count [OF lf])
  have "lf_only (shown b ! l)" "10 \<notin> set (shown b ! l)"
    using shown_lf [OF lf] shown_unbroken [of b] l by (auto simp: unbroken_def)
  then have "\<forall>c \<in> set (rev (shown b ! l)). c \<noteq> 10 \<and> c \<noteq> 13" by (auto simp: lf_only_def)
  then have "trim_breaks (shown b ! l) = shown b ! l"
    by (cases "rev (shown b ! l)") (auto simp: trim_breaks_def)
  then show "conflict_buffer_lines R b ! l = shown b ! l"
    using l by (simp add: conflict_buffer_lines_def line_count [OF lf] line_text [OF lf])
qed

end

lemma join_terminate: "join ls @ (if ls \<noteq> [] then [10] else []) = terminate ls"
  by (induction ls rule: join.induct) auto

lemma block_of:
  assumes "part_conflict n p = Some c"
  shows "cf_start c = n" "cf_end c + 1 = n + length (part_lines p)" "0 < length (part_lines p)"
    "\<exists>l ours base theirs l'. p = BlockPart l ours base theirs l'"
  using assms by (cases p; force simp: Let_def split: option.splits)+

lemma replicate_7: "replicate 7 x = [x, x, x, x, x, x, x]"
  by (simp add: numeral_eq_Suc)

lemma side_in_block: "x \<in> set (part_side r p) \<Longrightarrow> x \<in> set (part_lines p)"
  by (cases p; cases r) auto

lemma side_ok: "part_ok p \<Longrightarrow> part_ok (PlainPart (part_side r p))"
  by (cases p; cases r) (auto simp: unmarked_def)


lemma resolve_conflict_text:
  fixes ed :: "('r, 'f, 'a, 'g) ex_editor"
  assumes "conflict_at_or_after (find_conflicts (conflict_buffer_lines R (ed_buffer ed))) (cur_line (buf_cursor (ed_buffer ed))) = Some c"
  shows "buf_rope (ed_buffer (snd (resolve_conflict R r ed))) =
    buf_rope (buffer_insert_text_at R (snd (buffer_delete_range R ((ed_buffer ed)\<lparr>buf_recording := Some recording_session_default\<rparr>)
      (cf_start c) 0 (cf_end c + 1) 0)) (cf_start c) 0
      (terminate (resolved_lines (conflict_buffer_lines R (ed_buffer ed)) c r)))"
proof -
  have "ed_buffer (upd_buffer f e) = f (ed_buffer e)" "ed_buffer (e\<lparr>ed_doc := snd (push_recorded_undo es u v (ed_doc e))\<rparr>) = ed_buffer e"
    for f es u v and e :: "('r, 'f, 'a, 'g) ex_editor"
    by (simp_all add: upd_buffer_def ed_buffer_def push_recorded_undo_def Let_def case_prod_beta)
  moreover have "buf_rope (buffer_validate_cursor_position R b) = buf_rope b" for b
    by (simp add: buffer_validate_cursor_position_def Let_def)
  ultimately show ?thesis
    by (simp add: resolve_conflict_def assms join_terminate buffer_record_def buffer_end_recording_def Let_def case_prod_beta
        del: rc_simps rs_simps split: option.split)
qed

text \<open>
  C39. Resolving a conflict replaces the block the cursor is in by the chosen side: the lines before and
  after it stay as they are, whatever other blocks they hold, and afterwards the buffer has
  exactly the other conflicts, each at its new place. A text that would have no line keeps an
  empty one.
\<close>

theorem resolve_conflict_keeps_side:
  assumes "lf_rope R chs" and "lf_only (ed_text chs ed)" and "buf_modifiable (ed_buffer ed)"
    and "ed_lines chs ed = concat (map part_lines (ps @ p # qs))" and "\<forall>q \<in> set (ps @ p # qs). part_ok q"
    and "part_conflict (length (concat (map part_lines ps))) p = Some c"
    and "conflict_contains c (cur_line (buf_cursor (ed_buffer ed)))"
  shows "ed_lines chs (snd (resolve_conflict R r ed)) =
      (let kept = concat (map part_lines ps) @ part_side r p @ concat (map part_lines qs)
       in if kept = [] then [[]] else kept) \<and>
    buffer_conflicts R (ed_buffer (snd (resolve_conflict R r ed))) =
      part_conflicts 0 (ps @ PlainPart (part_side r p) # qs)"
proof -
  let ?b = "(ed_buffer ed)\<lparr>buf_recording := Some recording_session_default\<rparr>"
  let ?pre = "concat (map part_lines ps)" and ?post = "concat (map part_lines qs)" and ?side = "part_side r p"
  let ?kept = "?pre @ ?side @ ?post"
  have lf: "lf_only (chs (buf_rope ?b))" and mod: "buf_modifiable ?b" using assms(2,3) by (simp_all add: ed_text_def)
  have sh: "shown_lines (chs (buf_rope ?b)) = ?pre @ part_lines p @ ?post"
    "shown_lines (chs (buf_rope (ed_buffer ed))) = ?pre @ part_lines p @ ?post"
    using assms(4) by (simp_all add: ed_lines_def)
  have c: "cf_start c = length ?pre" "cf_end c + 1 = length ?pre + length (part_lines p)" "0 < length (part_lines p)"
    using block_of(1-3) [OF assms(6)] by simp_all
  have ls: "conflict_buffer_lines R (ed_buffer ed) = ?pre @ part_lines p @ ?post"
    using lf_rope.conflict_lines [OF assms(1)] lf sh(2) by simp
  have found: "find_conflicts (?pre @ part_lines p @ ?post) = part_conflicts 0 (ps @ p # qs)"
    using find_parts [OF assms(5), of 0] by (simp add: find_conflicts_def)
  have target: "conflict_at_or_after (part_conflicts 0 (ps @ p # qs)) (cur_line (buf_cursor (ed_buffer ed))) = Some c"
    by (rule conflict_at_part [OF assms(6,7)])
  have side: "resolved_lines (?pre @ part_lines p @ ?post) c r = ?side"
    using block_of(4) [OF assms(6)] resolved_part assms(6) by blast
  define i where "i = buffer_insert_text_at R (snd (buffer_delete_range R ?b (cf_start c) 0 (cf_end c + 1) 0)) (cf_start c) 0 (terminate ?side)"
  have "unbroken (?pre @ part_lines p @ ?post)" "\<forall>x \<in> set (?pre @ part_lines p @ ?post). lf_only x"
    using lf_rope.shown_unbroken [OF assms(1), of ?b] lf_rope.shown_lf [OF assms(1) lf] unfolding sh by simp_all
  then have "unbroken ?side" "\<forall>x \<in> set ?side. lf_only x"
    using side_in_block unfolding unbroken_def by fastforce+
  moreover have "cf_start c < length (shown_lines (chs (buf_rope ?b)))" "cf_start c < cf_end c + 1"
    using c unfolding sh by simp_all
  ultimately have i: "shown_lines (chs (buf_rope i)) = (if ?kept = [] then [[]] else ?kept)" "lf_only (chs (buf_rope i))"
    using lf_rope.replace_lines [OF assms(1) lf mod, of "cf_start c" "cf_end c + 1" ?side] c sh
    unfolding i_def by simp_all
  have rope: "chs (buf_rope (ed_buffer (snd (resolve_conflict R r ed)))) = chs (buf_rope i)"
    using resolve_conflict_text [of R ed c r] target side unfolding ls found i_def by simp
  have lines: "shown_lines (chs (buf_rope (ed_buffer (snd (resolve_conflict R r ed))))) = (if ?kept = [] then [[]] else ?kept)"
    unfolding rope by (rule i(1))
  have "find_conflicts (if ?kept = [] then [[]] else ?kept) = part_conflicts 0 (ps @ PlainPart ?side # qs)"
  proof -
    have "find_conflicts ?kept = part_conflicts 0 (ps @ PlainPart ?side # qs)"
      using find_parts [of "ps @ PlainPart ?side # qs" 0] assms(5) side_ok by (simp add: find_conflicts_def)
    moreover have "find_conflicts [[]] = find_conflicts []"
      by (simp add: find_conflicts_def find_conflicts_from.simps(2) marker_def)
    ultimately show ?thesis by (cases "?kept = []") (simp_all only: if_True if_False refl)
  qed
  then show ?thesis
    using lines lf_rope.conflict_lines [OF assms(1), of "ed_buffer (snd (resolve_conflict R r ed))"] i(2)
    unfolding ed_lines_def buffer_conflicts_def Let_def rope by simp
qed

text \<open>The second of two blocks of a buffer, the first with a base, is resolved to their side.\<close>

theorem resolve_conflict_keeps_side_witness:
  "\<exists>ed. ed_lines (\<lambda>t. t) (ed :: (rstr, unit, unit, rstr option) ex_editor) =
      [rs ''<<<<<<< a'', rs ''1'', rs ''||||||| m'', rs ''2'', rs ''======='', rs ''3'', rs ''>>>>>>> b'', rs ''4'',
       rs ''<<<<<<< a'', rs ''5'', rs ''======='', rs ''6'', rs ''>>>>>>> b'', rs ''7''] \<and>
    ed_lines (\<lambda>t. t) (snd (resolve_conflict list_rope Theirs ed)) =
      [rs ''<<<<<<< a'', rs ''1'', rs ''||||||| m'', rs ''2'', rs ''======='', rs ''3'', rs ''>>>>>>> b'', rs ''4'',
       rs ''6'', rs ''7'']"
proof -
  let ?p1 = "BlockPart (rs ''a'') [rs ''1''] (Some (rs ''m'', [rs ''2''])) [rs ''3''] (rs ''b'')"
  let ?p2 = "BlockPart (rs ''a'') [rs ''5''] None [rs ''6''] (rs ''b'')"
  let ?ls = "concat (map part_lines ([?p1, PlainPart [rs ''4'']] @ ?p2 # [PlainPart [rs ''7'']]))"
  let ?ed = "upd_buffer (\<lambda>b. b\<lparr>buf_cursor := cursor_set_position (buf_cursor b) 9 0\<rparr>) (sample_editor (join ?ls))"
  have fresh: "ed_text (\<lambda>t. t) ?ed = join ?ls" "buf_modifiable (ed_buffer ?ed)" "cur_line (buf_cursor (ed_buffer ?ed)) = 9"
    by (simp_all add: ed_text_def ed_buffer_def upd_buffer_def sample_editor_def sample_buffer_def cursor_set_position_def del: rc_simps rs_simps)
  have lines: "ed_lines (\<lambda>t. t) ?ed = ?ls"
  proof -
    have "split_lines (join ?ls) = ?ls" by (rule split_join) (simp_all add: marker_line_def unbroken_def)
    then show ?thesis unfolding ed_lines_def fresh(1) [unfolded ed_text_def] shown_lines_def Let_def by simp
  qed
  have short: "\<not> prefix (replicate 7 c) [d]" for c d :: rchar by (auto dest: prefix_length_le)
  have ok: "\<forall>q \<in> set ([?p1, PlainPart [rs ''4'']] @ ?p2 # [PlainPart [rs ''7'']]). part_ok q"
    by (simp add: unmarked_def marker_def str_trim_def is_whitespace_def short)
  let ?c = "\<lparr>cf_start = 8, cf_base = None, cf_separator = 10, cf_end = 12, cf_ours_label = rs ''a'', cf_theirs_label = rs ''b''\<rparr>"
  have block: "part_conflict (length (concat (map part_lines [?p1, PlainPart [rs ''4'']]))) ?p2 = Some ?c" by simp
  have lf: "lf_only (ed_text (\<lambda>t. t) ?ed)" unfolding fresh(1) by (simp add: marker_line_def replicate_7)
  have inside: "conflict_contains ?c (cur_line (buf_cursor (ed_buffer ?ed)))"
    unfolding fresh(3) by (simp add: conflict_contains_def)
  note kept = resolve_conflict_keeps_side [OF lfr.lf_rope_axioms lf fresh(2) lines ok block inside, of Theirs, THEN conjunct1]
  show ?thesis
    by (intro exI [of _ ?ed] conjI; (unfold lines kept)?) (simp_all add: marker_line_def replicate_7 Let_def)
qed

end
