(* ===== verification/LineIndexes.thy ===== *)
theory LineIndexes
  imports TextLines CommandLine
begin

text \<open>
  Coordinates within a line (ovim-core/src/text_index.rs), with the direct conversions they replace
  (unicode/mod.rs, display.rs): grapheme columns, character columns and display columns. A line has
  an index with sparse checkpoints and with the clusters whose width is not their length; an edit
  updates the index of its line, and the buffer keeps the indexes of the lines it has looked at.

  Where graphemes begin is the crate unicode-segmentation, how wide characters and strings are the
  crate unicode-width; both are fields of \<open>text_ops\<close>. A rope snapshot is its characters, and the
  protocol by which GraphemeCursor asks for chunks and context is left out: its documented result
  is that of the whole text. The cache of display checkpoints per tab width, which only stores what
  \<open>display_checkpoints\<close> computes, is left out too.
\<close>

section \<open>Conversions on a whole string\<close>

record text_ops =
  tx_boundary :: "rstr \<Rightarrow> nat \<Rightarrow> bool"
  tx_char_width :: "rchar \<Rightarrow> nat option"
  tx_str_width :: "rstr \<Rightarrow> nat"

text \<open>The end of the grapheme that begins at character \<open>k\<close>, and \<open>str::graphemes\<close>.\<close>

definition next_boundary :: "text_ops \<Rightarrow> rstr \<Rightarrow> nat \<Rightarrow> nat" where
  "next_boundary T t k = Suc k + length (takeWhile (\<lambda>e. \<not> tx_boundary T t e) [Suc k..<length t])"

function graphemes_at :: "text_ops \<Rightarrow> rstr \<Rightarrow> nat \<Rightarrow> rstr list" where
  "graphemes_at T t k =
     (if k < length t then take (next_boundary T t k - k) (drop k t) # graphemes_at T t (next_boundary T t k) else [])"
  by pat_completeness auto

termination
  by (relation "measure (\<lambda>(T, t, k). length t - k)") (auto simp: next_boundary_def)

declare graphemes_at.simps [simp del]

definition graphemes :: "text_ops \<Rightarrow> rstr \<Rightarrow> rstr list" where
  "graphemes T t = graphemes_at T t 0"

fun grapheme_offset :: "rstr list \<Rightarrow> nat \<Rightarrow> nat \<Rightarrow> nat" where
  "grapheme_offset [] col char_offset = char_offset"
| "grapheme_offset (g # gs) col char_offset =
     (if col = 0 then char_offset else grapheme_offset gs (col - 1) (char_offset + length g))"

definition grapheme_to_char_col :: "text_ops \<Rightarrow> rstr \<Rightarrow> nat \<Rightarrow> nat" where
  "grapheme_to_char_col T s grapheme_col = grapheme_offset (graphemes T s) grapheme_col 0"

fun grapheme_of_char :: "rstr list \<Rightarrow> nat \<Rightarrow> nat \<Rightarrow> nat \<Rightarrow> nat" where
  "grapheme_of_char [] char_col i chars_seen = i"
| "grapheme_of_char (g # gs) char_col i chars_seen =
     (if char_col < chars_seen + length g then i else grapheme_of_char gs char_col (i + 1) (chars_seen + length g))"

definition char_to_grapheme_col :: "text_ops \<Rightarrow> rstr \<Rightarrow> nat \<Rightarrow> nat" where
  "char_to_grapheme_col T s char_col = grapheme_of_char (graphemes T s) char_col 0 0"

definition is_control_char :: "rchar \<Rightarrow> bool" where
  "is_control_char c \<longleftrightarrow> c \<le> 0x1F \<and> c \<noteq> 9 \<and> c \<noteq> 10 \<or> c = 0x7F"

definition char_display_width :: "text_ops \<Rightarrow> rchar \<Rightarrow> nat" where
  "char_display_width T c =
     (if is_control_char c then 2 else case tx_char_width T c of Some w \<Rightarrow> w | None \<Rightarrow> 1)"

definition grapheme_display_width :: "text_ops \<Rightarrow> rstr \<Rightarrow> nat" where
  "grapheme_display_width T g = (case g of [c] \<Rightarrow> char_display_width T c | _ \<Rightarrow> tx_str_width T g)"

definition display_advance :: "text_ops \<Rightarrow> nat \<Rightarrow> rstr \<Rightarrow> nat \<Rightarrow> nat" where
  "display_advance T tab_width g display_col =
     (if g = [9] then display_col + (tab_width - display_col mod tab_width)
      else display_col + grapheme_display_width T g)"

fun display_of_char :: "text_ops \<Rightarrow> nat \<Rightarrow> rstr list \<Rightarrow> nat \<Rightarrow> nat \<Rightarrow> nat \<Rightarrow> nat" where
  "display_of_char T tab_width [] char_col display_col chars_seen = display_col"
| "display_of_char T tab_width (g # gs) char_col display_col chars_seen =
     (if chars_seen \<ge> char_col then display_col
      else display_of_char T tab_width gs char_col (display_advance T tab_width g display_col) (chars_seen + length g))"

definition char_col_to_display_col :: "text_ops \<Rightarrow> rstr \<Rightarrow> nat \<Rightarrow> nat \<Rightarrow> nat" where
  "char_col_to_display_col T s char_col tab_width = display_of_char T tab_width (graphemes T s) char_col 0 0"

fun char_of_display :: "text_ops \<Rightarrow> nat \<Rightarrow> rstr list \<Rightarrow> nat \<Rightarrow> nat \<Rightarrow> nat \<Rightarrow> nat" where
  "char_of_display T tab_width [] display_col current_display chars_seen = chars_seen"
| "char_of_display T tab_width (g # gs) display_col current_display chars_seen =
     (if current_display \<ge> display_col then chars_seen
      else let next_display = display_advance T tab_width g current_display
           in if next_display > display_col then chars_seen
              else char_of_display T tab_width gs display_col next_display (chars_seen + length g))"

definition display_col_to_char_col :: "text_ops \<Rightarrow> rstr \<Rightarrow> nat \<Rightarrow> nat \<Rightarrow> nat" where
  "display_col_to_char_col T s display_col tab_width = char_of_display T tab_width (graphemes T s) display_col 0 0"

definition display_width :: "text_ops \<Rightarrow> rstr \<Rightarrow> nat \<Rightarrow> nat" where
  "display_width T s tab_width = fold (display_advance T tab_width) (graphemes T s) 0"

definition trim_line_terminator :: "rstr \<Rightarrow> rstr" where
  "trim_line_terminator line =
     (let n = length line
      in if n = 0 then line
         else if line ! (n - 1) = 10 \<and> n \<ge> 2 \<and> line ! (n - 2) = 13 then take (n - 2) line
         else if line ! (n - 1) = 10 \<or> line ! (n - 1) = 13 then take (n - 1) line
         else line)"

section \<open>The index of a line\<close>

record checkpoint =
  cp_byte :: nat
  cp_char :: nat
  cp_grapheme :: nat

record display_special =
  ds_start :: nat
  ds_end :: nat
  ds_width :: "nat option"

record display_checkpoint =
  dc_start :: nat
  dc_end :: nat
  dc_display_start :: nat
  dc_display_end :: nat

record line_index =
  lx_text :: rstr
  lx_ascii :: bool
  lx_checkpoints :: "checkpoint list"
  lx_specials :: "display_special list"
  lx_graphemes :: nat

definition checkpoint_stride :: nat where
  "checkpoint_stride = 256"

definition checkpoint_default :: checkpoint where
  "checkpoint_default = \<lparr>cp_byte = 0, cp_char = 0, cp_grapheme = 0\<rparr>"

text \<open>One step of the iterator: a grapheme and the position after it.\<close>

definition indexed_next :: "text_ops \<Rightarrow> rstr \<Rightarrow> bool \<Rightarrow> checkpoint \<Rightarrow> (rstr \<times> checkpoint) option" where
  "indexed_next T t ascii p =
     (if cp_byte p \<ge> byte_len t \<or> cp_char p \<ge> length t then None
      else let e = (if ascii then cp_char p + 1 else next_boundary T t (cp_char p));
               g = take (e - cp_char p) (drop (cp_char p) t)
           in Some (g, \<lparr>cp_byte = cp_byte p + byte_len g, cp_char = e, cp_grapheme = cp_grapheme p + 1\<rparr>))"

lemma next_boundary_less [simp]: "k < next_boundary T t k"
  by (simp add: next_boundary_def)

lemma indexed_next_forward:
  "indexed_next T t ascii p = Some (g, q) \<Longrightarrow> cp_char p < length t \<and> cp_char p < cp_char q \<and> cp_grapheme q = Suc (cp_grapheme p)"
  by (auto simp: indexed_next_def Let_def split: if_splits)

lemma indexed_next_measure:
  "indexed_next T t ascii p = Some (g, q) \<Longrightarrow> length t - cp_char q < length t - cp_char p"
  using indexed_next_forward [of T t ascii p g q] by (auto intro: diff_less_mono2)

definition is_ascii_control :: "rchar \<Rightarrow> bool" where
  "is_ascii_control c \<longleftrightarrow> c < 32 \<or> c = 127"

definition ascii_special :: "text_ops \<Rightarrow> nat \<Rightarrow> rchar \<Rightarrow> display_special list" where
  "ascii_special T col c =
     (if is_ascii_control c \<or> char_display_width T c \<noteq> 1
      then [\<lparr>ds_start = col, ds_end = col + 1, ds_width = (if c \<noteq> 9 then Some (char_display_width T c) else None)\<rparr>]
      else [])"

definition ascii_specials :: "text_ops \<Rightarrow> nat \<Rightarrow> rstr \<Rightarrow> display_special list" where
  "ascii_specials T start s = concat (map (\<lambda>(i, c). ascii_special T (start + i) c) (enumerate 0 s))"

function build_suffix_loop :: "text_ops \<Rightarrow> checkpoint \<Rightarrow> line_index \<Rightarrow> line_index" where
  "build_suffix_loop T p idx =
     (case indexed_next T (lx_text idx) (lx_ascii idx) p of
        None \<Rightarrow> idx\<lparr>lx_graphemes := cp_grapheme p\<rparr>
      | Some (g, e) \<Rightarrow>
          (let chars = cp_char e - cp_char p; width = grapheme_display_width T g;
               specials = (if g = [9] \<or> width \<noteq> chars
                 then lx_specials idx @ [\<lparr>ds_start = cp_char p, ds_end = cp_char e, ds_width = (if g \<noteq> [9] then Some width else None)\<rparr>]
                 else lx_specials idx);
               checkpoints = (if cp_grapheme e mod checkpoint_stride = 0 then lx_checkpoints idx @ [e] else lx_checkpoints idx)
           in build_suffix_loop T e (idx\<lparr>lx_specials := specials, lx_checkpoints := checkpoints\<rparr>)))"
  by pat_completeness auto

termination
  by (relation "measure (\<lambda>(T, p, idx). length (lx_text idx) - cp_char p)") (auto dest: indexed_next_measure)

declare build_suffix_loop.simps [simp del]

definition build_suffix :: "text_ops \<Rightarrow> line_index \<Rightarrow> checkpoint \<Rightarrow> line_index" where
  "build_suffix T idx start = build_suffix_loop T start idx"

definition line_index_new :: "text_ops \<Rightarrow> rstr \<Rightarrow> line_index" where
  "line_index_new T line =
     (let t = trim_line_terminator line;
          idx = \<lparr>lx_text = t, lx_ascii = (byte_len t = length t), lx_checkpoints = [checkpoint_default],
                 lx_specials = [], lx_graphemes = 0\<rparr>
      in if lx_ascii idx then idx\<lparr>lx_graphemes := length t, lx_specials := ascii_specials T 0 t\<rparr>
         else build_suffix T idx checkpoint_default)"

text \<open>
  What \<open>partition_point\<close> of the standard library promises for a list that the predicate splits in two,
  which the sorted lists here are. On other lists its binary search is unspecified.
\<close>

definition partition_point :: "('a \<Rightarrow> bool) \<Rightarrow> 'a list \<Rightarrow> nat" where
  "partition_point P xs = length (takeWhile P xs)"

definition line_index_edited :: "text_ops \<Rightarrow> line_index \<Rightarrow> rstr \<Rightarrow> nat \<Rightarrow> nat \<Rightarrow> rstr \<Rightarrow> line_index" where
  "line_index_edited T idx line a b inserted =
     (let t = trim_line_terminator line; ascii = (byte_len t = length t);
          result = \<lparr>lx_text = t, lx_ascii = ascii, lx_checkpoints = [checkpoint_default], lx_specials = [], lx_graphemes = 0\<rparr>
      in if lx_ascii idx \<and> ascii then
           (let removed = b - a
            in result\<lparr>lx_specials := filter (\<lambda>s. ds_end s \<le> a) (lx_specials idx) @ ascii_specials T a inserted @
                   map (\<lambda>s. \<lparr>ds_start = ds_start s - removed + byte_len inserted,
                            ds_end = ds_end s - removed + byte_len inserted, ds_width = ds_width s\<rparr>)
                     (filter (\<lambda>s. ds_start s \<ge> b) (lx_specials idx)),
                 lx_graphemes := length t\<rparr>)
         else
           (let start = (if lx_ascii idx then \<lparr>cp_byte = a - 1, cp_char = a - 1, cp_grapheme = a - 1\<rparr>
                         else lx_checkpoints idx ! (partition_point (\<lambda>p. cp_char p < a) (lx_checkpoints idx) - 1));
                checkpoints =
                  (if lx_ascii idx
                   then map (\<lambda>col. \<lparr>cp_byte = col, cp_char = col, cp_grapheme = col\<rparr>)
                     (filter (\<lambda>col. col mod checkpoint_stride = 0) [0..<cp_char start])
                   else takeWhile (\<lambda>p. cp_char p < cp_char start) (lx_checkpoints idx))
            in build_suffix T
                 (result\<lparr>lx_checkpoints := checkpoints @ [start],
                         lx_specials := takeWhile (\<lambda>s. ds_end s \<le> cp_char start) (lx_specials idx)\<rparr>) start))"

section \<open>Questions to an index\<close>

function walk_to_grapheme :: "text_ops \<Rightarrow> rstr \<Rightarrow> nat \<Rightarrow> checkpoint \<Rightarrow> checkpoint" where
  "walk_to_grapheme T t col p =
     (if cp_grapheme p < col then
        (case indexed_next T t False p of None \<Rightarrow> p | Some (_, q) \<Rightarrow> walk_to_grapheme T t col q)
      else p)"
  by pat_completeness auto

termination
  by (relation "measure (\<lambda>(T, t, col, p). length t - cp_char p)") (auto dest: indexed_next_measure)

declare walk_to_grapheme.simps [simp del]

definition position_for_grapheme :: "text_ops \<Rightarrow> line_index \<Rightarrow> nat \<Rightarrow> checkpoint" where
  "position_for_grapheme T idx col =
     (let col = min col (lx_graphemes idx)
      in if lx_ascii idx then \<lparr>cp_byte = col, cp_char = col, cp_grapheme = col\<rparr>
         else walk_to_grapheme T (lx_text idx) col
           (lx_checkpoints idx ! (partition_point (\<lambda>p. cp_grapheme p \<le> col) (lx_checkpoints idx) - 1)))"

definition grapheme_to_char :: "text_ops \<Rightarrow> line_index \<Rightarrow> nat \<Rightarrow> nat" where
  "grapheme_to_char T idx col = cp_char (position_for_grapheme T idx col)"

function walk_to_char :: "text_ops \<Rightarrow> line_index \<Rightarrow> nat \<Rightarrow> checkpoint \<Rightarrow> nat" where
  "walk_to_char T idx col p =
     (case indexed_next T (lx_text idx) False p of
        None \<Rightarrow> lx_graphemes idx
      | Some (_, q) \<Rightarrow> if col < cp_char q then cp_grapheme p else walk_to_char T idx col q)"
  by pat_completeness auto

termination
  by (relation "measure (\<lambda>(T, idx, col, p). length (lx_text idx) - cp_char p)") (auto dest: indexed_next_measure)

declare walk_to_char.simps [simp del]

definition char_to_grapheme :: "text_ops \<Rightarrow> line_index \<Rightarrow> nat \<Rightarrow> nat" where
  "char_to_grapheme T idx col =
     (let col = min col (length (lx_text idx))
      in if lx_ascii idx then col
         else walk_to_char T idx col
           (lx_checkpoints idx ! (partition_point (\<lambda>p. cp_char p \<le> col) (lx_checkpoints idx) - 1)))"

definition grapheme_first_char :: "text_ops \<Rightarrow> line_index \<Rightarrow> nat \<Rightarrow> rchar option" where
  "grapheme_first_char T idx col =
     (let char_col = grapheme_to_char T idx col
      in if char_col < length (lx_text idx) then Some (lx_text idx ! char_col) else None)"

definition slice_chars :: "line_index \<Rightarrow> nat \<Rightarrow> nat \<Rightarrow> rstr" where
  "slice_chars idx a b =
     (let start = min a (length (lx_text idx)); e = max (min b (length (lx_text idx))) start
      in take (e - start) (drop start (lx_text idx)))"

definition char_to_byte :: "line_index \<Rightarrow> nat \<Rightarrow> nat" where
  "char_to_byte idx col = byte_len (take (min col (length (lx_text idx))) (lx_text idx))"

text \<open>The graphemes from a column on, with where they begin, and those before a column, nearest first.\<close>

record indexed_grapheme =
  ig_text :: rstr
  ig_byte_start :: nat
  ig_char_start :: nat
  ig_col :: nat

function indexed_graphemes :: "text_ops \<Rightarrow> rstr \<Rightarrow> bool \<Rightarrow> checkpoint \<Rightarrow> indexed_grapheme list" where
  "indexed_graphemes T t ascii p =
     (case indexed_next T t ascii p of
        None \<Rightarrow> []
      | Some (g, q) \<Rightarrow> \<lparr>ig_text = g, ig_byte_start = cp_byte p, ig_char_start = cp_char p, ig_col = cp_grapheme p\<rparr>
          # indexed_graphemes T t ascii q)"
  by pat_completeness auto

termination
  by (relation "measure (\<lambda>(T, t, ascii, p). length t - cp_char p)") (auto dest: indexed_next_measure)

declare indexed_graphemes.simps [simp del]

definition graphemes_from :: "text_ops \<Rightarrow> line_index \<Rightarrow> nat \<Rightarrow> indexed_grapheme list" where
  "graphemes_from T idx col = indexed_graphemes T (lx_text idx) (lx_ascii idx) (position_for_grapheme T idx col)"

definition grapheme_at :: "text_ops \<Rightarrow> line_index \<Rightarrow> nat \<Rightarrow> rstr option" where
  "grapheme_at T idx col = (case graphemes_from T idx col of [] \<Rightarrow> None | g # _ \<Rightarrow> Some (ig_text g))"

definition prev_boundary :: "text_ops \<Rightarrow> rstr \<Rightarrow> nat \<Rightarrow> nat" where
  "prev_boundary T t k = k - 1 - length (takeWhile (\<lambda>e. \<not> tx_boundary T t e) (rev [1..<k]))"

function reverse_graphemes :: "text_ops \<Rightarrow> rstr \<Rightarrow> bool \<Rightarrow> nat \<Rightarrow> nat \<Rightarrow> (nat \<times> rchar) list" where
  "reverse_graphemes T t ascii k grapheme =
     (if k = 0 then []
      else let start = (if ascii then k - 1 else prev_boundary T t k)
           in (grapheme - 1, t ! start) # reverse_graphemes T t ascii start (grapheme - 1))"
  by pat_completeness auto

termination
  by (relation "measure (\<lambda>(T, t, ascii, k, grapheme). k)") (auto simp: prev_boundary_def)

declare reverse_graphemes.simps [simp del]

definition graphemes_before :: "text_ops \<Rightarrow> line_index \<Rightarrow> nat \<Rightarrow> (nat \<times> rchar) list" where
  "graphemes_before T idx col =
     (let p = position_for_grapheme T idx col
      in reverse_graphemes T (lx_text idx) (lx_ascii idx) (cp_char p) (cp_grapheme p))"

section \<open>Display columns\<close>

fun display_points :: "nat \<Rightarrow> nat \<Rightarrow> nat \<Rightarrow> display_special list \<Rightarrow> display_checkpoint list" where
  "display_points tab_width chars display [] = []"
| "display_points tab_width chars display (s # ss) =
     (let display = display + (ds_start s - chars);
          width = (case ds_width s of Some w \<Rightarrow> w | None \<Rightarrow> tab_width - display mod tab_width)
      in \<lparr>dc_start = ds_start s, dc_end = ds_end s, dc_display_start = display, dc_display_end = display + width\<rparr>
         # display_points tab_width (ds_end s) (display + width) ss)"

definition display_checkpoints :: "line_index \<Rightarrow> nat \<Rightarrow> display_checkpoint list" where
  "display_checkpoints idx tab_width = display_points (max tab_width 1) 0 0 (lx_specials idx)"

definition char_to_display :: "text_ops \<Rightarrow> line_index \<Rightarrow> nat \<Rightarrow> nat \<Rightarrow> nat" where
  "char_to_display T idx col tab_width =
     (let col = min col (length (lx_text idx));
          g = char_to_grapheme T idx col;
          col = (if \<not> lx_ascii idx \<and> grapheme_to_char T idx g \<noteq> col then grapheme_to_char T idx (g + 1) else col);
          points = display_checkpoints idx tab_width;
          pos = partition_point (\<lambda>p. dc_end p \<le> col) points
      in if pos = 0 then col else let p = points ! (pos - 1) in dc_display_end p + col - dc_end p)"

definition display_to_char :: "text_ops \<Rightarrow> line_index \<Rightarrow> nat \<Rightarrow> nat \<Rightarrow> nat" where
  "display_to_char T idx col tab_width =
     (let points = display_checkpoints idx tab_width;
          pos = partition_point (\<lambda>p. dc_display_end p < col \<or> dc_display_end p = col \<and> dc_display_start p < col) points
      in if pos < length points \<and> col \<ge> dc_display_start (points ! pos) then dc_start (points ! pos)
         else let result = (if pos = 0 then col
                            else let p = points ! (pos - 1) in dc_end p + (col - dc_display_end p));
                  result = min result (length (lx_text idx))
              in grapheme_to_char T idx (char_to_grapheme T idx result))"

definition index_display_width :: "text_ops \<Rightarrow> line_index \<Rightarrow> nat \<Rightarrow> nat" where
  "index_display_width T idx tab_width = char_to_display T idx (length (lx_text idx)) tab_width"

text \<open>A viewport-sized piece of the line and where it begins.\<close>

record line_slice =
  sl_text :: rstr
  sl_byte_start :: nat
  sl_char_start :: nat
  sl_grapheme_start :: nat
  sl_display_start :: nat

definition visible_slice :: "text_ops \<Rightarrow> line_index \<Rightarrow> nat \<Rightarrow> nat \<Rightarrow> nat \<Rightarrow> line_slice" where
  "visible_slice T idx start width tab_width =
     (let char_start = display_to_char T idx start tab_width;
          grapheme_start = char_to_grapheme T idx char_start;
          display_start = char_to_display T idx char_start tab_width;
          edge = start + width;
          char_end = display_to_char T idx edge tab_width;
          char_end = (if width > 0 \<and> char_end < length (lx_text idx) \<and> char_to_display T idx char_end tab_width < edge
                      then grapheme_to_char T idx (char_to_grapheme T idx char_end + 1) else char_end);
          char_end = (if width = 0 then char_start else char_end)
      in \<lparr>sl_text = slice_chars idx char_start char_end, sl_byte_start = char_to_byte idx char_start,
          sl_char_start = char_start, sl_grapheme_start = grapheme_start, sl_display_start = display_start\<rparr>)"

section \<open>The indexes a buffer keeps\<close>

record line_change =
  lc_version :: nat
  lc_start_line :: nat
  lc_old_line_count :: nat
  lc_new_line_count :: nat

record line_change_log =
  lcl_changes :: "line_change list"
  lcl_base_version :: nat

definition change_history :: nat where
  "change_history = 256"

definition line_change_log_default :: line_change_log where
  "line_change_log_default = \<lparr>lcl_changes = [], lcl_base_version = 0\<rparr>"

definition changes_since :: "line_change_log \<Rightarrow> nat \<Rightarrow> nat \<Rightarrow> line_change list option" where
  "changes_since g version current =
     (if version < lcl_base_version g \<or> version > current then None
      else Some (filter (\<lambda>change. lc_version change > version) (lcl_changes g)))"

definition line_changes_reset :: "nat \<Rightarrow> line_change_log" where
  "line_changes_reset version = \<lparr>lcl_changes = [], lcl_base_version = version\<rparr>"

definition line_changes_push :: "line_change_log \<Rightarrow> line_change \<Rightarrow> line_change_log" where
  "line_changes_push g change =
     (let g = (if length (lcl_changes g) = change_history
               then g\<lparr>lcl_base_version := lc_version (hd (lcl_changes g)), lcl_changes := tl (lcl_changes g)\<rparr> else g)
      in g\<lparr>lcl_changes := lcl_changes g @ [change]\<rparr>)"

record pending_text_edit =
  pe_start_line :: nat
  pe_end_line :: nat
  pe_start_col :: nat
  pe_end_col :: nat
  pe_old_lines :: nat

definition pending_text_edit_new :: "'r rope_ops \<Rightarrow> 'r \<Rightarrow> nat \<Rightarrow> nat \<Rightarrow> pending_text_edit" where
  "pending_text_edit_new R r a b =
     (let start_line = rope_char_to_line R r a; end_line = rope_char_to_line R r b
      in \<lparr>pe_start_line = start_line, pe_end_line = end_line, pe_start_col = a - rope_line_to_char R r start_line,
          pe_end_col = b - rope_line_to_char R r end_line, pe_old_lines = rope_len_lines R r\<rparr>)"

type_synonym text_index_cache = "nat \<rightharpoonup> line_index"

definition cache_line :: "text_ops \<Rightarrow> 'r rope_ops \<Rightarrow> 'r \<Rightarrow> nat \<Rightarrow> text_index_cache \<Rightarrow> line_index \<times> text_index_cache" where
  "cache_line T R r line c =
     (case c line of
        Some idx \<Rightarrow> (idx, c)
      | None \<Rightarrow> (let idx = line_index_new T (if line < rope_len_lines R r then rope_line R r line else [])
                in (idx, c(line \<mapsto> idx))))"

text \<open>
  What an edit does to the kept indexes, for the rope after it. Where rows were added or removed,
  those of the edit are dropped and the ones below it move by the difference of the counts.
\<close>

definition cache_edited ::
  "text_ops \<Rightarrow> 'r rope_ops \<Rightarrow> 'r \<Rightarrow> pending_text_edit \<Rightarrow> rstr \<Rightarrow> nat \<Rightarrow> text_index_cache \<Rightarrow> line_change \<times> text_index_cache" where
  "cache_edited T R r e inserted version c =
     (let old_line_count = pe_end_line e - pe_start_line e + 1;
          new_line_count = (if rope_len_lines R r \<ge> pe_old_lines e
                            then old_line_count + (rope_len_lines R r - pe_old_lines e)
                            else old_line_count - (pe_old_lines e - rope_len_lines R r));
          old = c (pe_start_line e); c = c(pe_start_line e := None);
          c = (if old_line_count = 1 \<and> new_line_count = 1 then
                 (case old of
                    Some idx \<Rightarrow>
                      if pe_end_col e \<le> length (lx_text idx) \<and> 13 \<notin> set inserted \<and> 10 \<notin> set inserted
                      then c(pe_start_line e \<mapsto> line_index_edited T idx (rope_line R r (pe_start_line e))
                                                  (pe_start_col e) (pe_end_col e) inserted)
                      else c
                  | None \<Rightarrow> c)
               else (\<lambda>line. if line < pe_start_line e then c line
                            else if line < pe_start_line e + new_line_count then None
                            else c (line + old_line_count - new_line_count)))
      in (\<lparr>lc_version = version, lc_start_line = pe_start_line e, lc_old_line_count = old_line_count,
           lc_new_line_count = new_line_count\<rparr>, c))"

text \<open>The part of a buffer that the mutations keep together: the rope, the indexes and the change log.\<close>

record 'r indexed_text =
  it_rope :: 'r
  it_index :: text_index_cache
  it_changes :: line_change_log
  it_version :: nat

definition buffer_line_index :: "text_ops \<Rightarrow> 'r rope_ops \<Rightarrow> 'r indexed_text \<Rightarrow> nat \<Rightarrow> line_index \<times> 'r indexed_text" where
  "buffer_line_index T R x line =
     (let (idx, c) = cache_line T R (it_rope x) line (it_index x) in (idx, x\<lparr>it_index := c\<rparr>))"

definition line_changes_since :: "'r indexed_text \<Rightarrow> nat \<Rightarrow> line_change list option" where
  "line_changes_since x version = changes_since (it_changes x) version (it_version x)"

definition finish_text_edit :: "text_ops \<Rightarrow> 'r rope_ops \<Rightarrow> pending_text_edit \<Rightarrow> rstr \<Rightarrow> 'r indexed_text \<Rightarrow> 'r indexed_text" where
  "finish_text_edit T R e inserted x =
     (let (change, c) = cache_edited T R (it_rope x) e inserted (it_version x + 1) (it_index x)
      in x\<lparr>it_index := c, it_changes := line_changes_push (it_changes x) change\<rparr>)"

definition invalidate_text_index :: "'r indexed_text \<Rightarrow> 'r indexed_text" where
  "invalidate_text_index x = x\<lparr>it_index := Map.empty, it_changes := line_changes_reset (it_version x)\<rparr>"

text \<open>The steps of \<open>insert_text_at\<close>, of the deletions and of the replacements of the rope that concern it.\<close>

definition indexed_insert :: "text_ops \<Rightarrow> 'r rope_ops \<Rightarrow> nat \<Rightarrow> rstr \<Rightarrow> 'r indexed_text \<Rightarrow> 'r indexed_text" where
  "indexed_insert T R insert_pos s x =
     (let e = pending_text_edit_new R (it_rope x) insert_pos insert_pos;
          x = finish_text_edit T R e s (x\<lparr>it_rope := rope_insert R (it_rope x) insert_pos s\<rparr>)
      in x\<lparr>it_version := it_version x + 1\<rparr>)"

definition indexed_remove :: "text_ops \<Rightarrow> 'r rope_ops \<Rightarrow> nat \<Rightarrow> nat \<Rightarrow> 'r indexed_text \<Rightarrow> 'r indexed_text" where
  "indexed_remove T R start_pos end_pos x =
     (let e = pending_text_edit_new R (it_rope x) start_pos end_pos;
          x = finish_text_edit T R e [] (x\<lparr>it_rope := rope_remove R (it_rope x) start_pos end_pos\<rparr>)
      in x\<lparr>it_version := it_version x + 1\<rparr>)"

definition indexed_replace :: "'r \<Rightarrow> 'r indexed_text \<Rightarrow> 'r indexed_text" where
  "indexed_replace r x = invalidate_text_index (x\<lparr>it_rope := r, it_version := it_version x + 1\<rparr>)"

datatype 'r index_op = InsertChars nat rstr | RemoveChars nat nat | LineAt nat | ReplaceRope 'r

fun index_step :: "text_ops \<Rightarrow> 'r rope_ops \<Rightarrow> 'r index_op \<Rightarrow> 'r indexed_text \<Rightarrow> 'r indexed_text" where
  "index_step T R (InsertChars i s) x = indexed_insert T R i s x"
| "index_step T R (RemoveChars a b) x = indexed_remove T R a b x"
| "index_step T R (LineAt l) x = snd (buffer_line_index T R x l)"
| "index_step T R (ReplaceRope r) x = indexed_replace r x"

end
