(* ===== verification/LineIndexLaws.thy ===== *)
theory LineIndexLaws
  imports LineIndexes
begin

text \<open>
  The index of a line answers as the conversions on the whole line, whatever edits it went through.
  What the proofs use of Unicode's rules for grapheme clusters (UAX 29) is the locale
  \<open>grapheme_rules\<close>: a boundary depends on the text up to the character after it only, and two ASCII
  characters are always separated, a carriage return and its line feed excepted.
\<close>

section \<open>Graphemes\<close>

locale grapheme_rules =
  fixes T :: text_ops
  assumes boundary_local:
      "take (Suc k) t = take (Suc k) u \<Longrightarrow> k < length t \<Longrightarrow> k < length u \<Longrightarrow> tx_boundary T t k = tx_boundary T u k"
    and boundary_ascii:
      "0 < k \<Longrightarrow> k < length t \<Longrightarrow> t ! (k - 1) < 128 \<Longrightarrow> t ! k < 128 \<Longrightarrow> \<not> (t ! (k - 1) = 13 \<and> t ! k = 10) \<Longrightarrow>
       tx_boundary T t k"

definition is_next :: "text_ops \<Rightarrow> rstr \<Rightarrow> nat \<Rightarrow> nat \<Rightarrow> bool" where
  "is_next T t k e \<longleftrightarrow> k < e \<and> e \<le> length t \<and> (\<forall>j. k < j \<and> j < e \<longrightarrow> \<not> tx_boundary T t j) \<and> (e < length t \<longrightarrow> tx_boundary T t e)"

lemma next_boundary_simps [simp]:
  "\<not> next_boundary T t k \<le> k" "next_boundary T t k - k + k = next_boundary T t k"
  "k + (next_boundary T t k - k) = next_boundary T t k"
  using next_boundary_less [of k T t] by linarith+

lemma next_boundary_is_next:
  assumes "k < length t"
  shows "is_next T t k (next_boundary T t k)"
proof -
  let ?P = "\<lambda>e. \<not> tx_boundary T t e" and ?xs = "[Suc k..<length t]"
  let ?n = "length (takeWhile ?P ?xs)"
  have le: "?n \<le> length ?xs" by (rule length_takeWhile_le)
  have inside: "\<not> tx_boundary T t j" if "k < j" "j < Suc k + ?n" for j
  proof -
    have "j - Suc k < ?n" using that by simp
    then have "?P (?xs ! (j - Suc k))"
      using nth_mem [of "j - Suc k" "takeWhile ?P ?xs"] set_takeWhileD takeWhile_nth by metis
    then show ?thesis using that le by auto
  qed
  moreover have "tx_boundary T t (Suc k + ?n)" if "Suc k + ?n < length t"
    using nth_length_takeWhile [of ?P ?xs] that by simp
  ultimately show ?thesis using le assms by (auto simp: is_next_def next_boundary_def)
qed

lemma is_next_unique: "is_next T t k e \<Longrightarrow> is_next T t k e' \<Longrightarrow> e = e'"
proof (rule ccontr)
  assume e: "is_next T t k e" "is_next T t k e'" and "e \<noteq> e'"
  then consider "e < e'" | "e' < e" by linarith
  then show False by cases (use e in \<open>auto simp: is_next_def\<close>)
qed

lemma next_boundary_eq: "is_next T t k e \<Longrightarrow> next_boundary T t k = e"
  using is_next_unique [OF next_boundary_is_next, of k t T e] by (simp add: is_next_def)

lemma next_boundary_le: "k < length t \<Longrightarrow> next_boundary T t k \<le> length t"
  using next_boundary_is_next [of k t T] by (simp add: is_next_def)

lemma graphemes_at_end [simp]: "length t \<le> k \<Longrightarrow> graphemes_at T t k = []"
  by (simp add: graphemes_at.simps)

lemma graphemes_at_step:
  "k < length t \<Longrightarrow> graphemes_at T t k = take (next_boundary T t k - k) (drop k t) # graphemes_at T t (next_boundary T t k)"
  by (simp add: graphemes_at.simps)

lemma concat_graphemes_at [simp]: "concat (graphemes_at T t k) = drop k t"
proof (induction T t k rule: graphemes_at.induct)
  case (1 T t k)
  show ?case
  proof (cases "k < length t")
    case True
    have "take (next_boundary T t k - k) (drop k t) @ drop (next_boundary T t k) t = drop k t"
      using append_take_drop_id [of "next_boundary T t k - k" "drop k t"] by simp
    then show ?thesis using 1 True by (simp add: graphemes_at_step)
  qed simp
qed

lemma graphemes_at_ne: "g \<in> set (graphemes_at T t k) \<Longrightarrow> g \<noteq> []"
proof (induction T t k rule: graphemes_at.induct)
  case (1 T t k)
  then show ?case
    by (cases "k < length t") (auto simp: graphemes_at_step)
qed

lemma concat_graphemes [simp]: "concat (graphemes T t) = t"
  by (simp add: graphemes_def)

section \<open>Positions\<close>

text \<open>A position of a text: so many graphemes, characters and bytes lie before it.\<close>

definition position_ok :: "text_ops \<Rightarrow> rstr \<Rightarrow> checkpoint \<Rightarrow> bool" where
  "position_ok T t p \<longleftrightarrow> cp_byte p = byte_len (take (cp_char p) t) \<and>
     (\<exists>before. graphemes T t = before @ graphemes_at T t (cp_char p) \<and> length before = cp_grapheme p \<and>
        length (concat before) = cp_char p)"

lemma position_start [simp]: "position_ok T t checkpoint_default"
  by (simp add: position_ok_def checkpoint_default_def graphemes_def)

lemma position_bounds:
  assumes "position_ok T t p"
  shows "cp_char p \<le> length t" "cp_grapheme p \<le> length (graphemes T t)"
    "cp_char p = length (concat (take (cp_grapheme p) (graphemes T t)))"
    "graphemes_at T t (cp_char p) = drop (cp_grapheme p) (graphemes T t)"
proof -
  obtain before where b: "graphemes T t = before @ graphemes_at T t (cp_char p)" "length before = cp_grapheme p"
    "length (concat before) = cp_char p"
    using assms unfolding position_ok_def by blast
  have "concat before @ drop (cp_char p) t = t"
    using arg_cong [OF b(1), of concat] by simp
  then have "length (concat before) + length (drop (cp_char p) t) = length t"
    by (metis length_append)
  then show "cp_char p \<le> length t" unfolding b(3) by simp
  show "cp_grapheme p \<le> length (graphemes T t)" "cp_char p = length (concat (take (cp_grapheme p) (graphemes T t)))"
    "graphemes_at T t (cp_char p) = drop (cp_grapheme p) (graphemes T t)"
    using b(2,3) unfolding b(1) by simp_all
qed

text \<open>Positions with as many characters, or as many graphemes, are the same.\<close>

lemma grapheme_lengths_mono:
  assumes "m < n" "n \<le> length gs" "\<forall>g \<in> set gs. g \<noteq> []"
  shows "length (concat (take m gs)) < length (concat (take n gs))"
proof -
  have "take n gs = take (Suc m) gs @ take (n - Suc m) (drop (Suc m) gs)"
    using assms(1) by (simp flip: take_add)
  then have "take n gs = take m gs @ gs ! m # take (n - Suc m) (drop (Suc m) gs)"
    using assms(1,2) by (simp add: take_Suc_conv_app_nth)
  moreover have "gs ! m \<noteq> []" using assms by auto
  ultimately show ?thesis by simp
qed

lemma position_next:
  assumes p: "position_ok T t p" and a: "cp_char p < length t"
    and e: "(if ascii then cp_char p + 1 else next_boundary T t (cp_char p)) = next_boundary T t (cp_char p)"
  defines "g \<equiv> take (next_boundary T t (cp_char p) - cp_char p) (drop (cp_char p) t)"
  defines "q \<equiv> \<lparr>cp_byte = cp_byte p + byte_len g, cp_char = next_boundary T t (cp_char p), cp_grapheme = cp_grapheme p + 1\<rparr>"
  shows "indexed_next T t ascii p = Some (g, q)" and "position_ok T t q"
    and "graphemes_at T t (cp_char p) = g # graphemes_at T t (cp_char q)" and "cp_char q = cp_char p + length g"
proof -
  let ?k = "cp_char p" and ?e = "next_boundary T t (cp_char p)"
  have le: "?k < ?e" "?e \<le> length t" using next_boundary_le [OF a] by simp_all
  have g: "take ?e t = take ?k t @ g"
    using le by (simp add: g_def flip: take_add)
  have "byte_len t = byte_len (take ?k t) + byte_len (drop ?k t)"
    by (metis append_take_drop_id byte_len_simps(3))
  moreover have "0 < byte_len (drop ?k t)" using a byte_len_0 [of "drop ?k t"] by (simp del: byte_len_0)
  ultimately have "cp_byte p < byte_len t" using p by (simp add: position_ok_def)
  then show "indexed_next T t ascii p = Some (g, q)"
    using a e unfolding indexed_next_def by (simp add: g_def q_def Let_def)
  show step: "graphemes_at T t ?k = g # graphemes_at T t (cp_char q)" using a by (simp add: graphemes_at_step g_def q_def)
  show len: "cp_char q = ?k + length g" using le by (simp add: g_def q_def)
  obtain before where b: "graphemes T t = before @ graphemes_at T t ?k" "length before = cp_grapheme p"
    "length (concat before) = ?k" "cp_byte p = byte_len (take ?k t)"
    using p unfolding position_ok_def by blast
  have "cp_byte q = byte_len (take (cp_char q) t)" using b(4) by (simp add: q_def g)
  moreover have "graphemes T t = (before @ [g]) @ graphemes_at T t (cp_char q)" using b(1) step by simp
  ultimately show "position_ok T t q"
    unfolding position_ok_def using b(2,3) len by (intro conjI exI [of _ "before @ [g]"]) (simp_all add: q_def)
qed

lemma indexed_next_end: "position_ok T t p \<Longrightarrow> cp_char p \<ge> length t \<Longrightarrow> indexed_next T t ascii p = None"
  by (simp add: indexed_next_def)

section \<open>What an edit leaves alone\<close>

lemma length_le_byte_len: "length t \<le> byte_len t"
  by (induction t) (simp_all add: utf8_len_def)

lemma byte_len_ascii: "byte_len t = length t \<longleftrightarrow> (\<forall>c \<in> set t. c < 128)"
proof (induction t)
  case (Cons c t)
  then show ?case using length_le_byte_len [of t] by (auto simp: utf8_len_def)
qed simp

context grapheme_rules begin

lemma next_boundary_ascii:
  assumes "\<forall>c \<in> set t. c < 128" "13 \<notin> set t" "k < length t"
  shows "next_boundary T t k = Suc k"
proof (rule next_boundary_eq)
  have "t ! k \<noteq> 13" using assms(2,3) by (metis nth_mem)
  then have "tx_boundary T t (Suc k)" if "Suc k < length t"
    using boundary_ascii [of "Suc k" t] assms(1) that by simp
  then show "is_next T t k (Suc k)" using assms(3) by (auto simp: is_next_def)
qed

lemma graphemes_at_ascii:
  assumes "\<forall>c \<in> set t. c < 128" "13 \<notin> set t"
  shows "graphemes_at T t k = map (\<lambda>c. [c]) (drop k t)"
proof (induction "length t - k" arbitrary: k rule: less_induct)
  case less
  show ?case
  proof (cases "k < length t")
    case True
    have "graphemes_at T t (Suc k) = map (\<lambda>c. [c]) (drop (Suc k) t)" using less True by simp
    moreover have "take 1 (drop k t) = [t ! k]" using True by (simp add: Cons_nth_drop_Suc [symmetric])
    ultimately show ?thesis
      using True by (simp add: graphemes_at_step next_boundary_ascii [OF assms True] Cons_nth_drop_Suc [symmetric])
  qed simp
qed

lemma next_boundary_local:
  assumes "take n t = take n u" "n \<le> length t" "n \<le> length u" and "next_boundary T t k < n"
  shows "next_boundary T u k = next_boundary T t k"
proof (rule next_boundary_eq)
  let ?e = "next_boundary T t k"
  have k: "k < length t" using assms(2,4) next_boundary_less [of k T t] by linarith
  have same: "tx_boundary T t j = tx_boundary T u j" if "j \<le> ?e" for j
  proof (rule boundary_local)
    have "min (Suc j) n = Suc j" using that assms(4) by simp
    then show "take (Suc j) t = take (Suc j) u" using arg_cong [OF assms(1), of "take (Suc j)"] by simp
  qed (use that assms in simp_all)
  have "is_next T t k ?e" by (rule next_boundary_is_next [OF k])
  then show "is_next T u k ?e" using assms same by (auto simp: is_next_def)
qed

lemma graphemes_at_local:
  assumes same: "take n t = take n u" "n \<le> length t" "n \<le> length u"
  shows "graphemes_at T t k = before @ rest \<Longrightarrow> k + length (concat before) < n \<Longrightarrow>
    graphemes_at T u k = before @ graphemes_at T u (k + length (concat before))"
proof (induction before arbitrary: k)
  case (Cons g before)
  let ?e = "next_boundary T t k"
  have k: "k < length t" using Cons.prems(1) by (cases "k < length t") auto
  then have g: "g = take (?e - k) (drop k t)" and rest: "graphemes_at T t ?e = before @ rest"
    using Cons.prems(1) by (simp_all add: graphemes_at_step)
  have "?e \<le> length t" by (rule next_boundary_le [OF k])
  then have len: "k + length g = ?e" using g by simp
  then have e: "?e < n" using Cons.prems(2) by simp
  have u: "next_boundary T u k = ?e" by (rule next_boundary_local [OF same e])
  have "take (?e - k) (drop k u) = drop k (take ?e (take n u))" using e by (simp add: drop_take min_def)
  also have "\<dots> = take (?e - k) (drop k t)" unfolding same(1) [symmetric] using e by (simp add: drop_take min_def)
  finally have "take (?e - k) (drop k u) = g" using g by simp
  moreover have "k < length u" using same(3) e next_boundary_less [of k T t] by linarith
  moreover have "graphemes_at T u ?e = before @ graphemes_at T u (?e + length (concat before))"
    using Cons.IH [OF rest] Cons.prems(2) len by (simp add: add.assoc)
  ultimately show ?case using len u by (simp add: graphemes_at_step add.assoc [symmetric])
qed simp

lemma position_local:
  assumes same: "take n t = take n u" "n \<le> length t" "n \<le> length u" and p: "position_ok T t p" "cp_char p < n"
  shows "position_ok T u p" and "take (cp_grapheme p) (graphemes T u) = take (cp_grapheme p) (graphemes T t)"
proof -
  obtain before where b: "graphemes T t = before @ graphemes_at T t (cp_char p)" "length before = cp_grapheme p"
    "length (concat before) = cp_char p" "cp_byte p = byte_len (take (cp_char p) t)"
    using p(1) unfolding position_ok_def by blast
  have u: "graphemes T u = before @ graphemes_at T u (cp_char p)"
    using graphemes_at_local [OF same, of 0 before] b p(2) by (simp add: graphemes_def)
  have "take (cp_char p) t = take (cp_char p) u"
    using arg_cong [OF same(1), of "take (cp_char p)"] p(2) by (simp add: min_def)
  then show "position_ok T u p" using b u unfolding position_ok_def by auto
  show "take (cp_grapheme p) (graphemes T u) = take (cp_grapheme p) (graphemes T t)"
    unfolding u b(1) using b(2) by simp
qed

end

section \<open>Clusters of other widths\<close>

text \<open>
  The list of special clusters of a line: each is a grapheme of the line with its width, and the
  graphemes it leaves out are as wide as they are long.
\<close>

definition plain :: "text_ops \<Rightarrow> rstr \<Rightarrow> bool" where
  "plain T g \<longleftrightarrow> g \<noteq> [9] \<and> grapheme_display_width T g = length g"

definition special :: "text_ops \<Rightarrow> nat \<Rightarrow> rstr \<Rightarrow> display_special" where
  "special T k g =
     \<lparr>ds_start = k, ds_end = k + length g, ds_width = (if g = [9] then None else Some (grapheme_display_width T g))\<rparr>"

inductive marked :: "text_ops \<Rightarrow> nat \<Rightarrow> rstr list \<Rightarrow> display_special list \<Rightarrow> bool" for T where
  marked_end: "marked T k [] []"
| marked_plain: "plain T g \<Longrightarrow> marked T (k + length g) gs sp \<Longrightarrow> marked T k (g # gs) sp"
| marked_special: "marked T (k + length g) gs sp \<Longrightarrow> marked T k (g # gs) (special T k g # sp)"

inductive_cases marked_NilE: "marked T k [] sp"
inductive_cases marked_ConsE: "marked T k (g # gs) sp"

lemma marked_append:
  "marked T k gs sp \<Longrightarrow> marked T (k + length (concat gs)) hs tp \<Longrightarrow> marked T k (gs @ hs) (sp @ tp)"
  by (induction rule: marked.induct) (auto intro: marked.intros simp: add.assoc)

lemma marked_split:
  "marked T k (gs @ hs) sp \<Longrightarrow>
   \<exists>sp1 sp2. sp = sp1 @ sp2 \<and> marked T k gs sp1 \<and> marked T (k + length (concat gs)) hs sp2"
proof (induction gs arbitrary: k sp)
  case Nil
  then show ?case by (auto intro: marked.intros)
next
  case (Cons g gs)
  from Cons.prems consider "plain T g" "marked T (k + length g) (gs @ hs) sp"
    | sp' where "sp = special T k g # sp'" "marked T (k + length g) (gs @ hs) sp'"
    by (auto elim: marked_ConsE)
  then show ?case
  proof cases
    case 1
    from Cons.IH [OF 1(2)] 1(1) show ?thesis by (auto intro: marked.intros simp: add.assoc)
  next
    case 2
    from Cons.IH [OF 2(2)] obtain sp1 sp2 where "sp' = sp1 @ sp2" "marked T (k + length g) gs sp1"
      "marked T (k + length g + length (concat gs)) hs sp2" by blast
    then show ?thesis
      using 2(1) marked_special by (intro exI [of _ "special T k g # sp1"] exI [of _ sp2]) (auto simp: add.assoc)
  qed
qed

lemma marked_bounds:
  "marked T k gs sp \<Longrightarrow> \<forall>g \<in> set gs. g \<noteq> [] \<Longrightarrow>
   \<forall>s \<in> set sp. k \<le> ds_start s \<and> ds_start s < ds_end s \<and> ds_end s \<le> k + length (concat gs)"
  by (induction rule: marked.induct) (fastforce simp: special_def)+

lemma marked_shift:
  "marked T k gs sp \<Longrightarrow>
   marked T (k + d) gs (map (\<lambda>s. \<lparr>ds_start = ds_start s + d, ds_end = ds_end s + d, ds_width = ds_width s\<rparr>) sp)"
proof (induction rule: marked.induct)
  case (marked_special k g gs sp)
  then show ?case
    using marked.marked_special [of T "k + d" g gs] by (simp add: special_def ac_simps)
qed (auto intro: marked.intros simp: ac_simps)

section \<open>Indexes that are right\<close>

definition checkpoints_ok :: "text_ops \<Rightarrow> rstr \<Rightarrow> checkpoint list \<Rightarrow> bool" where
  "checkpoints_ok T t ps \<longleftrightarrow> ps \<noteq> [] \<and> hd ps = checkpoint_default \<and> (\<forall>p \<in> set ps. position_ok T t p) \<and>
     sorted_wrt (\<lambda>p q. cp_char p < cp_char q) ps"

definition index_ok :: "text_ops \<Rightarrow> rstr \<Rightarrow> line_index \<Rightarrow> bool" where
  "index_ok T t idx \<longleftrightarrow> lx_text idx = t \<and> (lx_ascii idx \<longleftrightarrow> (\<forall>c \<in> set t. c < 128)) \<and>
     lx_graphemes idx = length (graphemes T t) \<and> (\<not> lx_ascii idx \<longrightarrow> checkpoints_ok T t (lx_checkpoints idx)) \<and>
     marked T 0 (graphemes T t) (lx_specials idx)"

lemma position_zero:
  assumes "position_ok T t p" "cp_char p = 0"
  shows "p = checkpoint_default"
proof -
  obtain before where b: "graphemes T t = before @ graphemes_at T t (cp_char p)" "length before = cp_grapheme p"
    "length (concat before) = cp_char p" "cp_byte p = byte_len (take (cp_char p) t)"
    using assms(1) unfolding position_ok_def by blast
  have "before = []"
  proof (cases before)
    case (Cons g gs)
    then have "g \<in> set (graphemes_at T t 0)" using b(1) by (simp add: graphemes_def)
    then show ?thesis using b(3) assms(2) Cons graphemes_at_ne by auto
  qed simp
  then show ?thesis using b assms(2) by (simp add: checkpoint_default_def)
qed

lemma ascii_specials_Cons: "ascii_specials T k (c # s) = ascii_special T k c @ ascii_specials T (Suc k) s"
  by (simp add: ascii_specials_def enumerate_Suc_eq comp_def split_def)

lemma marked_ascii: "marked T k (map (\<lambda>c. [c]) s) (ascii_specials T k s)"
proof (induction s arbitrary: k)
  case Nil
  then show ?case by (simp add: ascii_specials_def marked_end)
next
  case (Cons c s)
  note rest = Cons.IH [of "Suc k"]
  show ?case
  proof (cases "is_ascii_control c \<or> char_display_width T c \<noteq> 1")
    case True
    then have "ascii_special T k c = [special T k [c]]"
      by (simp add: ascii_special_def special_def grapheme_display_width_def)
    then show ?thesis using marked_special [of T k "[c]"] rest by (simp add: ascii_specials_Cons)
  next
    case False
    then have "plain T [c]" by (auto simp: plain_def grapheme_display_width_def is_ascii_control_def)
    then show ?thesis
      using marked_plain [of T "[c]" k] rest False by (simp add: ascii_specials_Cons ascii_special_def)
  qed
qed

context grapheme_rules begin

lemma graphemes_ascii: "\<forall>c \<in> set t. c < 128 \<Longrightarrow> 13 \<notin> set t \<Longrightarrow> graphemes T t = map (\<lambda>c. [c]) t"
  by (simp add: graphemes_def graphemes_at_ascii)

lemma position_ascii:
  assumes "\<forall>c \<in> set t. c < 128" "13 \<notin> set t" "col \<le> length t"
  shows "position_ok T t \<lparr>cp_byte = col, cp_char = col, cp_grapheme = col\<rparr>"
proof -
  have "byte_len (take col t) = length (take col t)"
    unfolding byte_len_ascii using assms(1) by (auto dest: in_set_takeD)
  then have "byte_len (take col t) = col" using assms(3) by simp
  moreover have "graphemes T t = map (\<lambda>c. [c]) (take col t) @ graphemes_at T t col"
    using assms(1,2) by (simp add: graphemes_ascii graphemes_at_ascii flip: map_append)
  ultimately show ?thesis
    unfolding position_ok_def using assms(3)
    by (intro conjI exI [of _ "map (\<lambda>c. [c]) (take col t)"]) (simp_all add: length_concat comp_def sum_list_triv)
qed

lemma iterate:
  assumes "13 \<notin> set t" "ascii \<longrightarrow> (\<forall>c \<in> set t. c < 128)" "position_ok T t p" "cp_char p < length t"
  obtains g q where "indexed_next T t ascii p = Some (g, q)" "position_ok T t q" "g \<noteq> []"
    "graphemes_at T t (cp_char p) = g # graphemes_at T t (cp_char q)" "cp_char q = cp_char p + length g"
    "cp_grapheme q = Suc (cp_grapheme p)"
proof -
  have e: "(if ascii then cp_char p + 1 else next_boundary T t (cp_char p)) = next_boundary T t (cp_char p)"
    using assms next_boundary_ascii by simp
  note step = position_next [OF assms(3,4) e]
  have "take (next_boundary T t (cp_char p) - cp_char p) (drop (cp_char p) t) \<noteq> []" using assms(4) by simp
  then show ?thesis using that [OF step(1,2) _ step(3,4)] by simp
qed

lemma iterate_unicode:
  assumes "13 \<notin> set t" "position_ok T t p" "cp_char p < length t"
  obtains g q where "indexed_next T t False p = Some (g, q)" "position_ok T t q" "g \<noteq> []"
    "graphemes_at T t (cp_char p) = g # graphemes_at T t (cp_char q)" "cp_char q = cp_char p + length g"
    "cp_grapheme q = Suc (cp_grapheme p)"
proof -
  have "False \<longrightarrow> (\<forall>c \<in> set t. c < 128)" by simp
  from iterate [OF assms(1) this assms(2,3)] that show ?thesis by blast
qed

lemma build_suffix_ok:
  assumes "13 \<notin> set t" "ascii \<longrightarrow> (\<forall>c \<in> set t. c < 128)"
  shows "position_ok T t p \<Longrightarrow> lx_text idx = t \<Longrightarrow> lx_ascii idx = ascii \<Longrightarrow>
    marked T 0 (take (cp_grapheme p) (graphemes T t)) (lx_specials idx) \<Longrightarrow>
    \<exists>sp cs. build_suffix_loop T p idx =
        idx\<lparr>lx_graphemes := length (graphemes T t), lx_specials := sp, lx_checkpoints := lx_checkpoints idx @ cs\<rparr> \<and>
      marked T 0 (graphemes T t) sp \<and> (\<forall>c \<in> set cs. position_ok T t c \<and> cp_char p < cp_char c) \<and>
      sorted_wrt (\<lambda>p q. cp_char p < cp_char q) cs"
proof (induction "length t - cp_char p" arbitrary: p idx rule: less_induct)
  case less
  note p = less.prems(1) and idx = less.prems(2,3) and sp = less.prems(4)
  note bounds = position_bounds [OF p]
  show ?case
  proof (cases "cp_char p < length t")
    case False
    then have "drop (cp_grapheme p) (graphemes T t) = []" using bounds(1,4) by simp
    then have "cp_grapheme p = length (graphemes T t)" using bounds(2) by simp
    then show ?thesis
      using False sp indexed_next_end [OF p, of ascii] idx
      by (intro exI [of _ "lx_specials idx"] exI [of _ "[]"]) (simp add: build_suffix_loop.simps)
  next
    case True
    obtain g q where step: "indexed_next T t ascii p = Some (g, q)" "position_ok T t q" "g \<noteq> []"
      "graphemes_at T t (cp_char p) = g # graphemes_at T t (cp_char q)" "cp_char q = cp_char p + length g"
      "cp_grapheme q = Suc (cp_grapheme p)"
      by (rule iterate [OF assms p True])
    define sp' where "sp' = (if g = [9] \<or> grapheme_display_width T g \<noteq> length g
      then lx_specials idx @ [special T (cp_char p) g] else lx_specials idx)"
    define cs where "cs = (if cp_grapheme q mod checkpoint_stride = 0 then [q] else [])"
    have run: "build_suffix_loop T p idx =
        build_suffix_loop T q (idx\<lparr>lx_specials := sp', lx_checkpoints := lx_checkpoints idx @ cs\<rparr>)"
      by (subst build_suffix_loop.simps) (simp add: idx step(1,5) sp'_def cs_def special_def Let_def)
    have drop: "drop (cp_grapheme p) (graphemes T t) = g # graphemes_at T t (cp_char q)" using bounds(4) step(4) by simp
    then have less: "cp_grapheme p < length (graphemes T t)" by (metis drop_eq_Nil list.distinct(1) not_le)
    have "graphemes T t ! cp_grapheme p = g" using drop less by (metis hd_drop_conv_nth list.sel(1))
    then have snoc: "take (cp_grapheme q) (graphemes T t) = take (cp_grapheme p) (graphemes T t) @ [g]"
      using less step(6) by (simp add: take_Suc_conv_app_nth)
    let ?tp = "if g = [9] \<or> grapheme_display_width T g \<noteq> length g then [special T (cp_char p) g] else []"
    have "marked T (cp_char p) [g] ?tp" by (auto intro!: marked.intros simp: plain_def)
    then have "marked T 0 (take (cp_grapheme p) (graphemes T t) @ [g]) (lx_specials idx @ ?tp)"
      by (intro marked_append [OF sp]) (simp add: bounds(3) [symmetric])
    moreover have "sp' = lx_specials idx @ ?tp" by (simp add: sp'_def)
    ultimately have marked: "marked T 0 (take (cp_grapheme q) (graphemes T t)) sp'" unfolding snoc by simp
    have "length t - cp_char q < length t - cp_char p" using True step(3,5) by (cases g) auto
    from less.hyps [OF this step(2), of "idx\<lparr>lx_specials := sp', lx_checkpoints := lx_checkpoints idx @ cs\<rparr>"]
    obtain sp2 cs2 where rec: "build_suffix_loop T q (idx\<lparr>lx_specials := sp', lx_checkpoints := lx_checkpoints idx @ cs\<rparr>) =
        idx\<lparr>lx_graphemes := length (graphemes T t), lx_specials := sp2, lx_checkpoints := (lx_checkpoints idx @ cs) @ cs2\<rparr>"
      "marked T 0 (graphemes T t) sp2" "\<forall>c \<in> set cs2. position_ok T t c \<and> cp_char q < cp_char c"
      "sorted_wrt (\<lambda>p q. cp_char p < cp_char q) cs2"
      using idx marked by auto
    have "cp_char p < cp_char q" using step(3,5) by (cases g) auto
    then have "\<forall>c \<in> set (cs @ cs2). position_ok T t c \<and> cp_char p < cp_char c"
      "sorted_wrt (\<lambda>p q. cp_char p < cp_char q) (cs @ cs2)"
      using rec(3,4) step(2) by (auto simp: cs_def sorted_wrt_append)
    then show ?thesis unfolding run rec(1) using rec(2) by (intro exI [of _ sp2] exI [of _ "cs @ cs2"]) simp
  qed
qed

lemma index_new_ok:
  assumes "13 \<notin> set (trim_line_terminator line)"
  shows "index_ok T (trim_line_terminator line) (line_index_new T line)"
proof -
  let ?t = "trim_line_terminator line"
  show ?thesis
  proof (cases "\<forall>c \<in> set ?t. c < 128")
    case True
    then show ?thesis
      using assms marked_ascii [of T 0 ?t]
      by (simp add: line_index_new_def index_ok_def byte_len_ascii graphemes_ascii Let_def)
  next
    case False
    let ?idx = "\<lparr>lx_text = ?t, lx_ascii = False, lx_checkpoints = [checkpoint_default], lx_specials = [], lx_graphemes = 0\<rparr>"
    have flag: "(byte_len ?t = length ?t) = False" using False byte_len_ascii by blast
    have new: "line_index_new T line = build_suffix_loop T checkpoint_default ?idx"
      unfolding line_index_new_def Let_def flag build_suffix_def by simp
    have base: "marked T 0 (take (cp_grapheme checkpoint_default) (graphemes T ?t)) []"
      by (simp add: checkpoint_default_def marked_end)
    obtain sp cs where "build_suffix_loop T checkpoint_default ?idx =
        ?idx\<lparr>lx_graphemes := length (graphemes T ?t), lx_specials := sp, lx_checkpoints := lx_checkpoints ?idx @ cs\<rparr>"
      "marked T 0 (graphemes T ?t) sp" "\<forall>c \<in> set cs. position_ok T ?t c \<and> cp_char checkpoint_default < cp_char c"
      "sorted_wrt (\<lambda>p q. cp_char p < cp_char q) cs"
      using build_suffix_ok [OF assms, of False checkpoint_default ?idx] base by simp blast
    then show ?thesis
      using False by (simp add: new index_ok_def checkpoints_ok_def)
  qed
qed

end

section \<open>An edit of an index\<close>

lemma marked_move:
  "marked T k gs sp \<Longrightarrow> d \<le> k \<Longrightarrow>
   marked T (k - d + e) gs (map (\<lambda>s. \<lparr>ds_start = ds_start s - d + e, ds_end = ds_end s - d + e, ds_width = ds_width s\<rparr>) sp)"
proof (induction rule: marked.induct)
  case (marked_plain g k gs sp)
  then show ?case by (intro marked.marked_plain) (simp_all add: ac_simps)
next
  case (marked_special k g gs sp)
  then show ?case
    using marked.marked_special [of T "k - d + e" g gs] by (simp add: special_def ac_simps)
qed (auto intro: marked.intros)

lemma takeWhile_two: "\<forall>x \<in> set xs. P x \<Longrightarrow> \<forall>y \<in> set ys. \<not> P y \<Longrightarrow> takeWhile P (xs @ ys) = xs"
  by (cases ys) (auto simp: takeWhile_append)

lemma filter_all_none: "\<forall>x \<in> set xs. P x \<Longrightarrow> \<forall>y \<in> set ys. \<not> P y \<Longrightarrow> filter P (xs @ ys) = xs"
  by (simp add: filter_empty_conv)

lemma last_below:
  fixes f :: "'a \<Rightarrow> nat" and a :: nat
  assumes "ps \<noteq> []" and "f (hd ps) = 0" and "sorted_wrt (\<lambda>p q. f p < f q) ps"
  defines "p \<equiv> ps ! (partition_point (\<lambda>p. f p < a) ps - 1)"
  shows "p \<in> set ps" and "p = hd ps \<or> f p < a" and "f p < a \<or> a = 0"
proof -
  let ?n = "partition_point (\<lambda>p. f p < a) ps"
  have n: "?n \<le> length ps" by (simp add: partition_point_def length_takeWhile_le)
  show "p \<in> set ps" unfolding p_def using n assms(1) by (intro nth_mem) (cases ps; auto)
  show "p = hd ps \<or> f p < a"
  proof (cases "?n = 0")
    case True
    then show ?thesis using assms(1) by (simp add: p_def hd_conv_nth)
  next
    case False
    then have "?n - 1 < length (takeWhile (\<lambda>p. f p < a) ps)" by (simp add: partition_point_def)
    then have "f p < a" unfolding p_def by (metis nth_mem set_takeWhileD takeWhile_nth)
    then show ?thesis ..
  qed
  then show "f p < a \<or> a = 0" using assms(2) by auto
qed

context grapheme_rules begin

lemma edited_ascii:
  assumes ok: "index_ok T t idx" and t: "13 \<notin> set t" "\<forall>c \<in> set t. c < 128"
    and u: "trim_line_terminator line = take a t @ inserted @ drop b t" "13 \<notin> set (trim_line_terminator line)"
      "\<forall>c \<in> set (trim_line_terminator line). c < 128"
    and ab: "a \<le> b" "b \<le> length t"
  shows "index_ok T (trim_line_terminator line) (line_index_edited T idx line a b inserted)"
proof -
  let ?u = "trim_line_terminator line" and ?m = "map (\<lambda>c. [c :: rchar])"
  have len: "length (concat (?m s)) = length s" for s by simp
  have parts: "t = take a t @ take (b - a) (drop a t) @ drop b t"
    using ab by (metis append_take_drop_id drop_drop le_add_diff_inverse2)
  have gs: "graphemes T t = ?m (take a t) @ ?m (take (b - a) (drop a t)) @ ?m (drop b t)"
    unfolding graphemes_ascii [OF t(2,1)] by (subst parts) simp
  have "marked T 0 (?m (take a t) @ (?m (take (b - a) (drop a t)) @ ?m (drop b t))) (lx_specials idx)"
    using ok unfolding index_ok_def gs by simp
  from marked_split [OF this] obtain s1 r where
    s1: "lx_specials idx = s1 @ r" "marked T 0 (?m (take a t)) s1"
      "marked T a (?m (take (b - a) (drop a t)) @ ?m (drop b t)) r"
    using ab by auto
  from marked_split [OF s1(3)] obtain s2 s3 where
    s2: "r = s2 @ s3" "marked T a (?m (take (b - a) (drop a t))) s2" "marked T b (?m (drop b t)) s3"
    using ab by auto
  have bounds: "\<forall>s \<in> set s1. ds_start s < ds_end s \<and> ds_end s \<le> a" "\<forall>s \<in> set s2. a \<le> ds_start s \<and> ds_start s < ds_end s \<and> ds_end s \<le> b"
    "\<forall>s \<in> set s3. b \<le> ds_start s \<and> ds_start s < ds_end s"
    using marked_bounds [OF s1(2)] marked_bounds [OF s2(2)] marked_bounds [OF s2(3)] ab by auto
  have low: "filter (\<lambda>s. ds_end s \<le> a) (lx_specials idx) = s1"
    unfolding s1(1) s2(1) by (rule filter_all_none) (use bounds ab in force)+
  have high: "filter (\<lambda>s. b \<le> ds_start s) (lx_specials idx) = s3"
    unfolding s1(1) s2(1) using bounds ab by (fastforce simp: filter_empty_conv filter_id_conv)
  have "byte_len inserted = length inserted"
    unfolding byte_len_ascii using u(1,3) by simp
  then have moved: "marked T (a + length inserted) (?m (drop b t))
      (map (\<lambda>s. \<lparr>ds_start = ds_start s - (b - a) + byte_len inserted, ds_end = ds_end s - (b - a) + byte_len inserted,
                 ds_width = ds_width s\<rparr>) s3)"
    using marked_move [OF s2(3), of "b - a" "byte_len inserted"] ab by simp
  have "marked T 0 (?m (take a t) @ ?m inserted @ ?m (drop b t)) (s1 @ ascii_specials T a inserted @
      map (\<lambda>s. \<lparr>ds_start = ds_start s - (b - a) + byte_len inserted, ds_end = ds_end s - (b - a) + byte_len inserted,
                 ds_width = ds_width s\<rparr>) s3)"
    by (intro marked_append s1(2)) (use marked_ascii [of T a inserted] moved ab in simp_all)
  moreover have "graphemes T ?u = ?m (take a t) @ ?m inserted @ ?m (drop b t)"
    unfolding graphemes_ascii [OF u(3,2)] by (subst u(1)) simp
  moreover have "byte_len ?u = length ?u" using u(3) by (simp add: byte_len_ascii)
  moreover have "lx_ascii idx" using ok t(2) by (simp add: index_ok_def)
  ultimately show ?thesis
    using u(3) arg_cong [OF u(1), of length] by (simp add: line_index_edited_def index_ok_def low high Let_def)
qed

text \<open>Where the scan after an edit starts, and the checkpoints before that.\<close>

lemma restart:
  assumes ok: "index_ok T t idx" and t: "13 \<notin> set t" and a: "a \<le> length t"
  defines "start \<equiv> (if lx_ascii idx then \<lparr>cp_byte = a - 1, cp_char = a - 1, cp_grapheme = a - 1\<rparr>
      else lx_checkpoints idx ! (partition_point (\<lambda>p. cp_char p < a) (lx_checkpoints idx) - 1))"
  defines "before \<equiv> (if lx_ascii idx
      then map (\<lambda>col. \<lparr>cp_byte = col, cp_char = col, cp_grapheme = col\<rparr>)
        (filter (\<lambda>col. col mod checkpoint_stride = 0) [0..<cp_char start])
      else takeWhile (\<lambda>p. cp_char p < cp_char start) (lx_checkpoints idx))"
  shows "\<forall>p \<in> set (before @ [start]). position_ok T t p \<and> (cp_char p < a \<or> cp_char p = 0)"
    and "sorted_wrt (\<lambda>p q. cp_char p < cp_char q) (before @ [start])" and "cp_char (hd (before @ [start])) = 0"
proof -
  have all: "(\<forall>p \<in> set (before @ [start]). position_ok T t p \<and> (cp_char p < a \<or> cp_char p = 0)) \<and>
    sorted_wrt (\<lambda>p q. cp_char p < cp_char q) (before @ [start]) \<and> cp_char (hd (before @ [start])) = 0"
  proof (cases "lx_ascii idx")
    case True
    then have ascii: "\<forall>c \<in> set t. c < 128" using ok by (simp add: index_ok_def)
    have start: "start = \<lparr>cp_byte = a - 1, cp_char = a - 1, cp_grapheme = a - 1\<rparr>" by (simp add: start_def True)
    have before: "before = map (\<lambda>col. \<lparr>cp_byte = col, cp_char = col, cp_grapheme = col\<rparr>)
        (filter (\<lambda>col. col mod checkpoint_stride = 0) [0..<a - 1])"
      by (simp add: before_def True start)
    have "sorted_wrt (<) (filter (\<lambda>col. col mod checkpoint_stride = 0) [0..<a - 1])" by (rule sorted_wrt_filter) simp
    then have "sorted_wrt (\<lambda>p q. cp_char p < cp_char q) (before @ [start])"
      by (simp add: before start sorted_wrt_append sorted_wrt_map)
    moreover have "cp_char (hd (before @ [start])) = 0"
      by (cases "a - 1 = 0") (simp_all add: before start upt_conv_Cons del: One_nat_def)
    ultimately show ?thesis using position_ascii [OF ascii t] a by (auto simp: before start)
  next
    case False
    then have cps: "lx_checkpoints idx \<noteq> []" "cp_char (hd (lx_checkpoints idx)) = 0" "\<forall>p \<in> set (lx_checkpoints idx). position_ok T t p"
      "sorted_wrt (\<lambda>p q. cp_char p < cp_char q) (lx_checkpoints idx)"
      using ok by (simp_all add: index_ok_def checkpoints_ok_def checkpoint_default_def)
    note below = last_below [OF cps(1,2,4), of a]
    have start: "start \<in> set (lx_checkpoints idx)" "cp_char start < a \<or> cp_char start = 0"
      using below cps(2) by (auto simp: start_def False)
    have before: "before = takeWhile (\<lambda>p. cp_char p < cp_char start) (lx_checkpoints idx)" by (simp add: before_def False)
    have inside: "p \<in> set (lx_checkpoints idx) \<and> cp_char p < cp_char start" if "p \<in> set before" for p
      using that set_takeWhileD unfolding before by fastforce
    have "sorted_wrt (\<lambda>p q. cp_char p < cp_char q) before"
      unfolding before by (subst takeWhile_eq_take) (rule sorted_wrt_take [OF cps(4)])
    then have ordered: "sorted_wrt (\<lambda>p q. cp_char p < cp_char q) (before @ [start])"
      using inside by (auto simp: sorted_wrt_append)
    have first: "cp_char (hd (before @ [start])) = 0"
    proof (cases "cp_char start = 0")
      case False
      then show ?thesis using cps(1,2) by (cases "lx_checkpoints idx") (simp_all add: before)
    next
      case True
      then show ?thesis by (cases "lx_checkpoints idx") (simp_all add: before)
    qed
    have each: "position_ok T t p \<and> (cp_char p < a \<or> cp_char p = 0)" if "p \<in> set (before @ [start])" for p
    proof (cases "p = start")
      case True
      show ?thesis unfolding True using start cps(3) by auto
    next
      case False
      then have "p \<in> set before" using that by simp
      from inside [OF this] show ?thesis using cps(3) start(2) by auto
    qed
    show ?thesis by (intro conjI ballI each ordered first)
  qed
  show "\<forall>p \<in> set (before @ [start]). position_ok T t p \<and> (cp_char p < a \<or> cp_char p = 0)"
    by (rule conjunct1 [OF all])
  show "sorted_wrt (\<lambda>p q. cp_char p < cp_char q) (before @ [start])"
    by (rule conjunct1 [OF conjunct2 [OF all]])
  show "cp_char (hd (before @ [start])) = 0" by (rule conjunct2 [OF conjunct2 [OF all]])
qed

end

context grapheme_rules begin

lemma index_edited_ok:
  assumes ok: "index_ok T t idx" and t: "13 \<notin> set t"
    and u: "trim_line_terminator line = take a t @ inserted @ drop b t" "13 \<notin> set (trim_line_terminator line)"
    and ab: "a \<le> b" "b \<le> length t"
  shows "index_ok T (trim_line_terminator line) (line_index_edited T idx line a b inserted)"
proof (cases "(\<forall>c \<in> set t. c < 128) \<and> (\<forall>c \<in> set (trim_line_terminator line). c < 128)")
  case True
  then show ?thesis using edited_ascii [OF ok t _ u _ ab] by simp
next
  case False
  let ?u = "trim_line_terminator line"
  define ascii where "ascii \<longleftrightarrow> byte_len ?u = length ?u"
  define start where "start = (if lx_ascii idx then \<lparr>cp_byte = a - 1, cp_char = a - 1, cp_grapheme = a - 1\<rparr>
      else lx_checkpoints idx ! (partition_point (\<lambda>p. cp_char p < a) (lx_checkpoints idx) - 1))"
  define before where "before = (if lx_ascii idx
      then map (\<lambda>col. \<lparr>cp_byte = col, cp_char = col, cp_grapheme = col\<rparr>)
        (filter (\<lambda>col. col mod checkpoint_stride = 0) [0..<cp_char start])
      else takeWhile (\<lambda>p. cp_char p < cp_char start) (lx_checkpoints idx))"
  define low where "low = takeWhile (\<lambda>s. ds_end s \<le> cp_char start) (lx_specials idx)"
  let ?idx = "\<lparr>lx_text = ?u, lx_ascii = ascii, lx_checkpoints = before @ [start], lx_specials = low, lx_graphemes = 0\<rparr>"
  have not_both: "\<not> (lx_ascii idx \<and> ascii)"
    using False ok by (auto simp: ascii_def byte_len_ascii index_ok_def)
  have edited: "line_index_edited T idx line a b inserted = build_suffix_loop T start ?idx"
    using not_both unfolding line_index_edited_def build_suffix_def Let_def
    by (simp add: ascii_def start_def before_def low_def)
  have "a \<le> length t" using ab by simp
  note restart = restart [OF ok t this, folded start_def, folded before_def]
  have len: "a \<le> length ?u" unfolding u(1) using ab by simp
  have same: "take a t = take a ?u" unfolding u(1) using ab by simp
  have local: "position_ok T ?u p \<and> take (cp_grapheme p) (graphemes T ?u) = take (cp_grapheme p) (graphemes T t)"
    if "p \<in> set (before @ [start])" for p
  proof (cases "cp_char p < a")
    case True
    then show ?thesis using position_local [OF same _ len, of p] restart(1) that ab by auto
  next
    case False
    then have "cp_char p = 0" "position_ok T t p" using restart(1) that by auto
    then have "p = checkpoint_default" by (intro position_zero)
    then show ?thesis by simp (simp add: checkpoint_default_def)
  qed
  have start_t: "position_ok T t start" using restart(1) by simp
  note bounds = position_bounds [OF start_t]
  have "marked T 0 (take (cp_grapheme start) (graphemes T t) @ graphemes_at T t (cp_char start)) (lx_specials idx)"
    using ok bounds(4) by (simp add: index_ok_def)
  from marked_split [OF this] obtain s1 s2 where s: "lx_specials idx = s1 @ s2"
    "marked T 0 (take (cp_grapheme start) (graphemes T t)) s1" "marked T (cp_char start) (graphemes_at T t (cp_char start)) s2"
    using bounds(3) by auto
  have ne: "\<forall>g \<in> set (graphemes T t). g \<noteq> []" using graphemes_at_ne by (auto simp: graphemes_def)
  then have ne1: "\<forall>g \<in> set (take (cp_grapheme start) (graphemes T t)). g \<noteq> []"
    and ne2: "\<forall>g \<in> set (graphemes_at T t (cp_char start)). g \<noteq> []"
    using graphemes_at_ne by (auto dest: in_set_takeD)
  have "low = s1"
    unfolding low_def s(1)
  proof (rule takeWhile_two)
    show "\<forall>s \<in> set s1. ds_end s \<le> cp_char start"
      using marked_bounds [OF s(2) ne1] bounds(3) by simp
    show "\<forall>s \<in> set s2. \<not> ds_end s \<le> cp_char start"
      using marked_bounds [OF s(3) ne2] by fastforce
  qed
  then have "marked T 0 (take (cp_grapheme start) (graphemes T ?u)) (lx_specials ?idx)"
    using s(2) local [of start] by simp
  moreover have "ascii \<longrightarrow> (\<forall>c \<in> set ?u. c < 128)" by (simp add: ascii_def byte_len_ascii)
  ultimately obtain sp cs where built: "build_suffix_loop T start ?idx =
        ?idx\<lparr>lx_graphemes := length (graphemes T ?u), lx_specials := sp, lx_checkpoints := lx_checkpoints ?idx @ cs\<rparr>"
      "marked T 0 (graphemes T ?u) sp" "\<forall>c \<in> set cs. position_ok T ?u c \<and> cp_char start < cp_char c"
      "sorted_wrt (\<lambda>p q. cp_char p < cp_char q) cs"
    using build_suffix_ok [OF u(2), of ascii start ?idx] local [of start] by simp blast
  let ?ps = "(before @ [start]) @ cs"
  have "\<forall>p \<in> set ?ps. position_ok T ?u p" using local built(3) by auto
  moreover have "sorted_wrt (\<lambda>p q. cp_char p < cp_char q) ?ps"
    using restart(2) built(3,4) by (fastforce simp: sorted_wrt_append)
  moreover have "hd ?ps = checkpoint_default"
    using restart(3) local [of "hd (before @ [start])"] hd_in_set [of "before @ [start]"]
    by (intro position_zero [of T ?u]) (auto simp: hd_append)
  ultimately have "checkpoints_ok T ?u ?ps" by (simp add: checkpoints_ok_def)
  then show ?thesis
    unfolding edited built(1) using built(2) by (simp add: index_ok_def ascii_def byte_len_ascii)
qed

end

section \<open>The answers of an index\<close>

lemma grapheme_offset_eq: "grapheme_offset gs col off = off + length (concat (take col gs))"
  by (induction gs col off rule: grapheme_offset.induct) (auto simp: take_Cons')

lemma grapheme_of_char_skip:
  "seen + length (concat gs1) \<le> c \<Longrightarrow>
   grapheme_of_char (gs1 @ gs2) c i seen = grapheme_of_char gs2 c (i + length gs1) (seen + length (concat gs1))"
proof (induction gs1 arbitrary: i seen)
  case (Cons g gs1)
  then show ?case using Cons.IH [of "seen + length g" "i + 1"] by (simp add: add.assoc)
qed simp

lemma grapheme_of_char_end: "seen + length (concat gs) \<le> c \<Longrightarrow> grapheme_of_char gs c i seen = i + length gs"
  using grapheme_of_char_skip [of seen gs c "[]" i] by simp

lemma grapheme_of_char_ascii:
  "seen \<le> c \<Longrightarrow> grapheme_of_char (map (\<lambda>c. [c]) s) c i seen = i + min (c - seen) (length s)"
  by (induction s arbitrary: i seen) auto

lemma positions_ordered:
  assumes "position_ok T t p" "position_ok T t q" "cp_char p < cp_char q"
  shows "cp_grapheme p < cp_grapheme q"
proof (rule ccontr)
  assume "\<not> cp_grapheme p < cp_grapheme q"
  then have "take (cp_grapheme p) (graphemes T t) =
      take (cp_grapheme q) (graphemes T t) @ take (cp_grapheme p - cp_grapheme q) (drop (cp_grapheme q) (graphemes T t))"
    by (simp flip: take_add)
  then have "cp_char q \<le> cp_char p"
    unfolding position_bounds(3) [OF assms(1)] position_bounds(3) [OF assms(2)] by simp
  then show False using assms(3) by simp
qed

context grapheme_rules begin

lemma walk_to_grapheme_ok:
  assumes "13 \<notin> set t"
  shows "position_ok T t p \<Longrightarrow> cp_grapheme p \<le> col \<Longrightarrow> col \<le> length (graphemes T t) \<Longrightarrow>
    position_ok T t (walk_to_grapheme T t col p) \<and> cp_grapheme (walk_to_grapheme T t col p) = col"
proof (induction "length t - cp_char p" arbitrary: p rule: less_induct)
  case less
  show ?case
  proof (cases "cp_grapheme p < col")
    case False
    then show ?thesis using less.prems by (simp add: walk_to_grapheme.simps)
  next
    case True
    have "cp_char p < length t"
      using position_bounds(4) [OF less.prems(1)] True less.prems(3) by (cases "cp_char p < length t") auto
    from iterate_unicode [OF assms less.prems(1) this] obtain g q where
      q: "indexed_next T t False p = Some (g, q)" "position_ok T t q" "g \<noteq> []" "cp_char q = cp_char p + length g"
        "cp_grapheme q = Suc (cp_grapheme p)" by blast
    have "length t - cp_char q < length t - cp_char p" using q(3,4) \<open>cp_char p < length t\<close> by (cases g) auto
    from less.hyps [OF this q(2)] True less.prems(3) q(5)
    have "position_ok T t (walk_to_grapheme T t col q) \<and> cp_grapheme (walk_to_grapheme T t col q) = col" by simp
    moreover have "walk_to_grapheme T t col p = walk_to_grapheme T t col q"
      using True q(1) by (simp add: walk_to_grapheme.simps [of T t col p])
    ultimately show ?thesis by simp
  qed
qed

lemma position_for_grapheme_ok:
  assumes ok: "index_ok T t idx" and t: "13 \<notin> set t"
  shows "position_ok T t (position_for_grapheme T idx col)"
    and "cp_grapheme (position_for_grapheme T idx col) = min col (length (graphemes T t))"
proof -
  let ?col = "min col (length (graphemes T t))"
  have "position_ok T t (position_for_grapheme T idx col) \<and> cp_grapheme (position_for_grapheme T idx col) = ?col"
  proof (cases "lx_ascii idx")
    case True
    then have ascii: "\<forall>c \<in> set t. c < 128" using ok by (simp add: index_ok_def)
    show ?thesis
      using ok True position_ascii [OF ascii t] graphemes_ascii [OF ascii t]
      by (simp add: position_for_grapheme_def index_ok_def Let_def)
  next
    case False
    let ?ps = "lx_checkpoints idx"
    have ps: "checkpoints_ok T t ?ps" using ok False by (simp add: index_ok_def)
    then have sorted: "sorted_wrt (\<lambda>p q. cp_grapheme p < cp_grapheme q) ?ps"
      using sorted_wrt_mono_rel [of ?ps "\<lambda>p q. cp_char p < cp_char q" "\<lambda>p q. cp_grapheme p < cp_grapheme q"]
        positions_ordered unfolding checkpoints_ok_def by metis
    have hd: "?ps \<noteq> []" "cp_grapheme (hd ?ps) = 0" using ps by (simp_all add: checkpoints_ok_def checkpoint_default_def)
    let ?p = "?ps ! (partition_point (\<lambda>p. cp_grapheme p \<le> ?col) ?ps - 1)"
    have "?p \<in> set ?ps \<and> cp_grapheme ?p \<le> ?col"
      using last_below [OF hd sorted, of "Suc ?col"] by (simp add: less_Suc_eq_le)
    moreover have "position_for_grapheme T idx col = walk_to_grapheme T t ?col ?p"
      using ok False by (simp add: position_for_grapheme_def index_ok_def Let_def)
    ultimately show ?thesis
      using walk_to_grapheme_ok [OF t, of ?p ?col] ps by (simp add: checkpoints_ok_def)
  qed
  then show "position_ok T t (position_for_grapheme T idx col)"
    and "cp_grapheme (position_for_grapheme T idx col) = ?col" by simp_all
qed

lemma grapheme_to_char_ok:
  assumes "index_ok T t idx" "13 \<notin> set t"
  shows "grapheme_to_char T idx col = grapheme_to_char_col T t col"
  using position_bounds(3) [OF position_for_grapheme_ok(1) [OF assms, of col]] position_for_grapheme_ok(2) [OF assms, of col]
  by (simp add: grapheme_to_char_def grapheme_to_char_col_def grapheme_offset_eq min_def)

lemma walk_to_char_ok:
  assumes "13 \<notin> set t" "lx_text idx = t" "lx_graphemes idx = length (graphemes T t)"
  shows "position_ok T t p \<Longrightarrow>
    walk_to_char T idx col p = grapheme_of_char (graphemes_at T t (cp_char p)) col (cp_grapheme p) (cp_char p)"
proof (induction "length t - cp_char p" arbitrary: p rule: less_induct)
  case less
  note bounds = position_bounds [OF less.prems]
  show ?case
  proof (cases "cp_char p < length t")
    case False
    then have "cp_grapheme p = length (graphemes T t)" using bounds(2,4) by simp
    then show ?thesis
      using False indexed_next_end [OF less.prems, of False] assms(2,3) by (simp add: walk_to_char.simps)
  next
    case True
    from iterate_unicode [OF assms(1) less.prems True] obtain g q where
      q: "indexed_next T t False p = Some (g, q)" "position_ok T t q" "g \<noteq> []"
        "graphemes_at T t (cp_char p) = g # graphemes_at T t (cp_char q)" "cp_char q = cp_char p + length g"
        "cp_grapheme q = Suc (cp_grapheme p)" by blast
    have "length t - cp_char q < length t - cp_char p" using q(3,5) True by (cases g) auto
    from less.hyps [OF this q(2)] show ?thesis
      using q assms(2) by (simp add: walk_to_char.simps [of T idx col p])
  qed
qed

lemma char_to_grapheme_ok:
  assumes ok: "index_ok T t idx" and t: "13 \<notin> set t"
  shows "char_to_grapheme T idx col = char_to_grapheme_col T t col"
proof (cases "lx_ascii idx")
  case True
  then have ascii: "\<forall>c \<in> set t. c < 128" using ok by (simp add: index_ok_def)
  show ?thesis
    using ok True grapheme_of_char_ascii [of 0 col t 0]
    by (simp add: char_to_grapheme_def char_to_grapheme_col_def index_ok_def graphemes_ascii [OF ascii t])
next
  case False
  let ?ps = "lx_checkpoints idx" and ?col = "min col (length t)"
  have ps: "checkpoints_ok T t ?ps" using ok False by (simp add: index_ok_def)
  then have hd: "?ps \<noteq> []" "cp_char (hd ?ps) = 0" "sorted_wrt (\<lambda>p q. cp_char p < cp_char q) ?ps"
    by (simp_all add: checkpoints_ok_def checkpoint_default_def)
  let ?p = "?ps ! (partition_point (\<lambda>p. cp_char p \<le> ?col) ?ps - 1)"
  have p: "?p \<in> set ?ps" "cp_char ?p \<le> ?col"
    using last_below [OF hd, of "Suc ?col"] by (simp_all add: less_Suc_eq_le)
  then have pos: "position_ok T t ?p" using ps by (simp add: checkpoints_ok_def)
  note bounds = position_bounds [OF pos]
  have "char_to_grapheme T idx col = walk_to_char T idx ?col ?p"
    using ok False by (simp add: char_to_grapheme_def index_ok_def Let_def)
  also have "\<dots> = grapheme_of_char (graphemes_at T t (cp_char ?p)) ?col (cp_grapheme ?p) (cp_char ?p)"
    using ok by (intro walk_to_char_ok [OF t _ _ pos]) (simp_all add: index_ok_def)
  also have "\<dots> = grapheme_of_char (take (cp_grapheme ?p) (graphemes T t) @ graphemes_at T t (cp_char ?p)) ?col 0 0"
    using grapheme_of_char_skip [of 0 "take (cp_grapheme ?p) (graphemes T t)" ?col "graphemes_at T t (cp_char ?p)" 0]
      p(2) bounds(2,3) by simp
  also have "\<dots> = grapheme_of_char (graphemes T t) ?col 0 0" using bounds(4) by simp
  also have "\<dots> = grapheme_of_char (graphemes T t) col 0 0"
    using grapheme_of_char_end [of 0 "graphemes T t"] by (cases "col \<le> length t") (simp_all add: min_def)
  finally show ?thesis by (simp add: char_to_grapheme_col_def)
qed

end

section \<open>Display columns\<close>

lemma marked_starts: "marked T k gs sp \<Longrightarrow> s \<in> set sp \<Longrightarrow> k \<le> ds_start s"
  by (induction rule: marked.induct) (auto simp: special_def)

lemma display_points_append:
  "display_points tab c d (sp1 @ sp2) =
     display_points tab c d sp1 @
     (let ps = display_points tab c d sp1
      in if ps = [] then display_points tab c d sp2
         else display_points tab (dc_end (last ps)) (dc_display_end (last ps)) sp2)"
  by (induction tab c d sp1 rule: display_points.induct) (auto simp: Let_def split: option.splits)

lemma display_points_ends [simp]: "map dc_end (display_points tab c d sp) = map ds_end sp"
  by (induction tab c d sp rule: display_points.induct) (simp_all add: Let_def)

lemma display_points_Nil [simp]: "display_points tab c d sp = [] \<longleftrightarrow> sp = []"
  by (cases sp) (simp_all add: Let_def)

text \<open>The display column after graphemes, from the last special cluster among them.\<close>

lemma display_after:
  assumes "marked T k gs sp" "c \<le> k"
  shows "(if sp = [] then d + (k + length (concat gs) - c)
      else let p = last (display_points tab c d sp) in dc_display_end p + (k + length (concat gs) - dc_end p)) =
    fold (display_advance T tab) gs (d + (k - c))"
  using assms
proof (induction arbitrary: c d rule: marked.induct)
  case (marked_plain g k gs sp)
  have "display_advance T tab g (d + (k - c)) = d + (k + length g - c)"
    using marked_plain.hyps(1) marked_plain.prems by (simp add: plain_def display_advance_def)
  then show ?case
    using marked_plain.IH [of c d] marked_plain.prems by (cases "sp = []") (simp_all add: add.assoc Let_def)
next
  case (marked_special k g gs sp)
  let ?d = "d + (k - c)"
  let ?e = "display_advance T tab g ?d"
  have points: "display_points tab c d (special T k g # sp) =
      \<lparr>dc_start = k, dc_end = k + length g, dc_display_start = ?d, dc_display_end = ?e\<rparr>
      # display_points tab (k + length g) ?e sp"
    by (simp add: special_def display_advance_def Let_def)
  show ?case
    unfolding points using marked_special.IH [of "k + length g" ?e]
    by (cases "sp = []") (simp_all add: Let_def add.assoc)
qed simp

lemma display_of_char_at:
  "\<forall>n < length gs1. seen + length (concat (take n gs1)) < c \<Longrightarrow> gs2 = [] \<or> c \<le> seen + length (concat gs1) \<Longrightarrow>
   display_of_char T tab (gs1 @ gs2) c d seen = fold (display_advance T tab) gs1 d"
proof (induction gs1 arbitrary: d seen)
  case Nil
  then show ?case by (cases gs2) auto
next
  case (Cons g gs1)
  have "seen < c" using Cons.prems(1) by (auto dest: spec [of _ 0])
  moreover have "\<forall>n < length gs1. seen + length g + length (concat (take n gs1)) < c"
    using Cons.prems(1) by (auto dest: spec [of _ "Suc _"] simp: add.assoc)
  ultimately show ?case
    using Cons.IH [of "seen + length g"] Cons.prems(2) by (simp add: add.assoc)
qed

lemma grapheme_of_char_spec:
  assumes "seen \<le> c"
  shows "\<exists>m. grapheme_of_char gs c i seen = i + m \<and> m \<le> length gs \<and> seen + length (concat (take m gs)) \<le> c \<and>
    (m < length gs \<longrightarrow> c < seen + length (concat (take (Suc m) gs)))"
  using assms
proof (induction gs arbitrary: i seen)
  case (Cons g gs)
  show ?case
  proof (cases "c < seen + length g")
    case True
    then show ?thesis using Cons.prems by (intro exI [of _ 0]) simp
  next
    case False
    then obtain m where "grapheme_of_char gs c (Suc i) (seen + length g) = Suc i + m" "m \<le> length gs"
      "seen + length g + length (concat (take m gs)) \<le> c"
      "m < length gs \<longrightarrow> c < seen + length g + length (concat (take (Suc m) gs))"
      using Cons.IH [of "seen + length g" "Suc i"] by auto
    then show ?thesis using False by (intro exI [of _ "Suc m"]) (simp add: add.assoc)
  qed
qed simp

context grapheme_rules begin

lemma graphemes_ne: "\<forall>g \<in> set (graphemes T t). g \<noteq> []"
  using graphemes_at_ne by (auto simp: graphemes_def)

text \<open>The grapheme a character belongs to, and the character column rounded up to a boundary.\<close>

lemma rounded_up:
  fixes col :: nat
  assumes ok: "index_ok T t idx" and t: "13 \<notin> set t"
  defines "col0 \<equiv> min col (length t)"
  defines "g \<equiv> char_to_grapheme T idx col0"
  defines "col1 \<equiv> (if \<not> lx_ascii idx \<and> grapheme_to_char T idx g \<noteq> col0 then grapheme_to_char T idx (g + 1) else col0)"
  obtains n where "n \<le> length (graphemes T t)" "col1 = length (concat (take n (graphemes T t)))"
    "\<forall>m < n. length (concat (take m (graphemes T t))) < col" "n = length (graphemes T t) \<or> col \<le> col1"
proof -
  let ?gs = "graphemes T t" and ?C = "\<lambda>n. length (concat (take n (graphemes T t)))"
  have to_char: "grapheme_to_char T idx n = ?C n" for n
    by (simp add: grapheme_to_char_ok [OF ok t] grapheme_to_char_col_def grapheme_offset_eq)
  have g: "g = grapheme_of_char ?gs col0 0 0"
    by (simp add: g_def char_to_grapheme_ok [OF ok t] char_to_grapheme_col_def)
  from grapheme_of_char_spec [of 0 col0 ?gs 0] have spec: "g \<le> length ?gs" "?C g \<le> col0" "g < length ?gs \<longrightarrow> col0 < ?C (Suc g)"
    unfolding g by auto
  have "grapheme_to_char T idx g = col0" if "lx_ascii idx"
  proof -
    have "\<forall>c \<in> set t. c < 128" using ok that by (simp add: index_ok_def)
    then have "?gs = map (\<lambda>c. [c]) t" by (rule graphemes_ascii [OF _ t])
    moreover have "g = col0" using ok that by (simp add: g_def char_to_grapheme_def index_ok_def col0_def)
    ultimately show ?thesis
      unfolding to_char by (simp add: col0_def take_map comp_def sum_list_triv length_concat)
  qed
  then have col1: "col1 = (if ?C g \<noteq> col0 then ?C (Suc g) else col0)" unfolding col1_def to_char by auto
  have all: "?C (length ?gs) = length t" by simp
  have mono: "?C m < ?C n" if "m < n" "n \<le> length ?gs" for m n
    by (rule grapheme_lengths_mono [OF that graphemes_ne])
  show ?thesis
  proof (cases "?C g = col0")
    case True
    show ?thesis
    proof (rule that [of g])
      show "\<forall>m < g. ?C m < col" using mono spec(1,2) by (fastforce simp: col0_def)
      show "g = length ?gs \<or> col \<le> col1"
      proof (cases "col \<le> length t")
        case False
        then have "?C g = length t" using True by (simp add: col0_def)
        then show ?thesis using mono [of g "length ?gs"] spec(1) by (cases "g = length ?gs") auto
      qed (simp add: col1 True col0_def)
    qed (use True spec in \<open>simp_all add: col1\<close>)
  next
    case False
    then have less: "?C g < col0" using spec(2) by simp
    then have g: "g < length ?gs" using spec(1) by (cases "g = length ?gs") (simp_all add: col0_def)
    have top: "?C (Suc g) \<le> length t"
      using mono [of "Suc g" "length ?gs"] g by (cases "Suc g = length ?gs") auto
    show ?thesis
    proof (rule that [of "Suc g"])
      show "\<forall>m < Suc g. ?C m < col"
        using mono [of _ g] spec(1) less by (fastforce simp: less_Suc_eq col0_def)
      have "col \<le> length t" using spec(3) g top by (auto simp: col0_def min_def split: if_splits)
      then show "Suc g = length ?gs \<or> col \<le> col1" using spec(3) g False by (simp add: col1 col0_def)
    qed (use g False in \<open>simp_all add: col1\<close>)
  qed
qed

lemma char_to_display_ok:
  assumes ok: "index_ok T t idx" and t: "13 \<notin> set t" and tab: "0 < tab_width"
  shows "char_to_display T idx col tab_width = char_col_to_display_col T t col tab_width"
proof -
  let ?gs = "graphemes T t" and ?C = "\<lambda>n. length (concat (take n (graphemes T t)))"
  define col0 where "col0 = min col (length t)"
  define g where "g = char_to_grapheme T idx col0"
  define col1 where "col1 = (if \<not> lx_ascii idx \<and> grapheme_to_char T idx g \<noteq> col0 then grapheme_to_char T idx (g + 1) else col0)"
  obtain n where n: "n \<le> length ?gs" "col1 = ?C n" "\<forall>m < n. ?C m < col" "n = length ?gs \<or> col \<le> col1"
    using rounded_up [OF ok t, of col] unfolding col0_def g_def col1_def by blast
  have "marked T 0 (take n ?gs @ drop n ?gs) (lx_specials idx)" using ok by (simp add: index_ok_def)
  from marked_split [OF this] obtain s1 s2 where
    s: "lx_specials idx = s1 @ s2" "marked T 0 (take n ?gs) s1" "marked T col1 (drop n ?gs) s2"
    unfolding n(2) by auto
  let ?P = "display_points tab_width 0 0"
  obtain rest where points: "?P (lx_specials idx) = ?P s1 @ rest" "map dc_end rest = map ds_end s2"
    unfolding s(1) by (auto simp: display_points_append Let_def)
  have ends1: "\<forall>p \<in> set (?P s1). dc_end p \<le> col1"
  proof
    fix p
    assume "p \<in> set (?P s1)"
    then have "dc_end p \<in> set (map dc_end (?P s1))" unfolding set_map by (rule imageI)
    then obtain s where "s \<in> set s1" "dc_end p = ds_end s" unfolding display_points_ends by auto
    then show "dc_end p \<le> col1"
      using marked_bounds [OF s(2)] graphemes_ne n(2) by (auto dest: in_set_takeD)
  qed
  have ends2: "\<forall>p \<in> set rest. \<not> dc_end p \<le> col1"
  proof
    fix p
    assume "p \<in> set rest"
    then have "dc_end p \<in> set (map dc_end rest)" unfolding set_map by (rule imageI)
    then obtain s where "s \<in> set s2" "dc_end p = ds_end s" unfolding points(2) by auto
    then show "\<not> dc_end p \<le> col1"
      using marked_bounds [OF s(3)] graphemes_ne [of t] by (fastforce dest: in_set_dropD)
  qed
  have pos: "partition_point (\<lambda>p. dc_end p \<le> col1) (?P (lx_specials idx)) = length (?P s1)"
    unfolding partition_point_def points(1) by (subst takeWhile_two [OF ends1 ends2]) simp
  have at_least: "max tab_width 1 = tab_width" and content: "lx_text idx = t" using tab ok by (simp_all add: index_ok_def)
  have unfolded: "char_to_display T idx col tab_width =
      (if partition_point (\<lambda>p. dc_end p \<le> col1) (?P (lx_specials idx)) = 0 then col1
       else let p = ?P (lx_specials idx) ! (partition_point (\<lambda>p. dc_end p \<le> col1) (?P (lx_specials idx)) - 1)
            in dc_display_end p + col1 - dc_end p)"
    unfolding char_to_display_def display_checkpoints_def Let_def content at_least
      col0_def [symmetric] g_def [symmetric] col1_def [symmetric] ..
  have "char_to_display T idx col tab_width =
      (if ?P s1 = [] then col1 else let p = last (?P s1) in dc_display_end p + col1 - dc_end p)"
    unfolding unfolded pos by (simp add: points(1) nth_append last_conv_nth Let_def del: display_points_Nil)
  also have "\<dots> = (if s1 = [] then col1 else let p = last (?P s1) in dc_display_end p + (col1 - dc_end p))"
    using ends1 by (auto simp: Let_def)
  also have "\<dots> = fold (display_advance T tab_width) (take n ?gs) 0"
    using display_after [OF s(2), of 0 0 tab_width] n(2) by (cases "s1 = []") simp_all
  also have "\<dots> = display_of_char T tab_width (take n ?gs @ drop n ?gs) col 0 0"
    using n by (intro display_of_char_at [symmetric]) (auto simp: min_def)
  finally show ?thesis by (simp add: char_col_to_display_col_def)
qed

end

section \<open>From display columns to characters\<close>

text \<open>
  The search of \<open>display_to_char\<close> from a place where the display column \<open>d\<close> is that of the character
  \<open>c\<close>; \<open>down\<close> rounds a character column down to a grapheme boundary.
\<close>

definition before_column :: "nat \<Rightarrow> display_checkpoint \<Rightarrow> bool" where
  "before_column col p \<longleftrightarrow> dc_display_end p < col \<or> dc_display_end p = col \<and> dc_display_start p < col"

definition locate :: "(nat \<Rightarrow> nat) \<Rightarrow> nat \<Rightarrow> nat \<Rightarrow> nat \<Rightarrow> nat \<Rightarrow> display_checkpoint list \<Rightarrow> nat" where
  "locate down len col c d ps =
     (let pos = partition_point (before_column col) ps
      in if pos < length ps \<and> col \<ge> dc_display_start (ps ! pos) then dc_start (ps ! pos)
         else down (min (if pos = 0 then c + (col - d)
                         else let p = ps ! (pos - 1) in dc_end p + (col - dc_display_end p)) len))"

lemma locate_Nil: "locate down len col c d [] = down (min (c + (col - d)) len)"
  by (simp add: locate_def partition_point_def)

lemma locate_stop:
  "\<not> before_column col p \<Longrightarrow>
   locate down len col c d (p # ps) = (if col \<ge> dc_display_start p then dc_start p else down (min (c + (col - d)) len))"
  by (simp add: locate_def partition_point_def)

lemma locate_go:
  "before_column col p \<Longrightarrow> locate down len col c d (p # ps) = locate down len col (dc_end p) (dc_display_end p) ps"
proof -
  assume "before_column col p"
  then have pos: "partition_point (before_column col) (p # ps) = Suc (partition_point (before_column col) ps)"
    by (simp add: partition_point_def)
  show ?thesis
    unfolding locate_def pos by (cases "partition_point (before_column col) ps") (simp_all add: Let_def)
qed

lemma locate_far:
  assumes "ps \<noteq> [] \<Longrightarrow> col < dc_display_start (hd ps) \<and> col < dc_display_end (hd ps)"
  shows "locate down len col c d ps = down (min (c + (col - d)) len)"
proof (cases ps)
  case (Cons p qs)
  then have "\<not> before_column col p" using assms by (auto simp: before_column_def)
  then show ?thesis using assms Cons by (simp add: locate_stop)
qed (simp add: locate_Nil)

lemma first_point:
  assumes "marked T k gs sp" "sp \<noteq> []" "c \<le> k"
  shows "d + (k - c) \<le> dc_display_start (hd (display_points tab c d sp))"
    "dc_display_start (hd (display_points tab c d sp)) \<le> dc_display_end (hd (display_points tab c d sp))"
  using assms marked_starts [OF assms(1)] by (cases sp; force simp: Let_def)+

lemma locate_marked:
  assumes down: "\<And>before g rest r. all = before @ g # rest \<Longrightarrow> length (concat before) \<le> r \<Longrightarrow>
      r < length (concat before) + length g \<Longrightarrow> down r = length (concat before)"
    and down_end: "down (length (concat all)) = length (concat all)"
  shows "marked T k gs sp \<Longrightarrow> c \<le> k \<Longrightarrow> \<forall>g \<in> set gs. g \<noteq> [] \<Longrightarrow> all = before @ gs \<Longrightarrow> length (concat before) = k \<Longrightarrow>
    d + (k - c) \<le> col \<Longrightarrow>
    locate down (length (concat all)) col c d (display_points tab c d sp) = char_of_display T tab gs col (d + (k - c)) k"
proof (induction arbitrary: c d before rule: marked.induct)
  case (marked_end k)
  then have "min (c + (col - d)) (length (concat all)) = length (concat all)" by simp
  then show ?case using marked_end down_end by (simp add: locate_Nil)
next
  case (marked_plain g k gs sp)
  let ?d = "d + (k - c)"
  have adv: "display_advance T tab g ?d = d + (k + length g - c)"
    using marked_plain.hyps(1) marked_plain.prems(1) by (simp add: plain_def display_advance_def)
  have g: "0 < length g" using marked_plain.prems(2) by simp
  have all: "all = before @ g # gs" by (rule marked_plain.prems(3))
  show ?case
  proof (cases "d + (k + length g - c) \<le> col")
    case True
    have "?d < col" using True marked_plain.prems(1) g by linarith
    then show ?thesis
      using True marked_plain.IH [of c "before @ [g]" d] marked_plain.prems adv by simp
  next
    case False
    have "locate down (length (concat all)) col c d (display_points tab c d sp) =
        down (min (c + (col - d)) (length (concat all)))"
    proof (rule locate_far)
      assume "display_points tab c d sp \<noteq> []"
      then have "sp \<noteq> []" by simp
      then show "col < dc_display_start (hd (display_points tab c d sp)) \<and> col < dc_display_end (hd (display_points tab c d sp))"
        using first_point [OF marked_plain.hyps(2), where c = c and d = d and tab = tab] marked_plain.prems(1) False
        by (intro conjI) linarith+
    qed
    also have "\<dots> = k"
    proof -
      have r: "k \<le> c + (col - d)" "c + (col - d) < k + length g" using False marked_plain.prems(1,5) by linarith+
      moreover have "k + length g \<le> length (concat all)" using all marked_plain.prems(4) by simp
      ultimately have "min (c + (col - d)) (length (concat all)) = c + (col - d)" by simp
      then show ?thesis using down [OF all, of "c + (col - d)"] r marked_plain.prems(4) by simp
    qed
    finally have "locate down (length (concat all)) col c d (display_points tab c d sp) = k" .
    moreover have "char_of_display T tab (g # gs) col ?d k = k"
      using False by (simp only: char_of_display.simps(2) adv Let_def not_le if_True if_cancel)
    ultimately show ?thesis by simp
  qed
next
  case (marked_special k g gs sp)
  let ?d = "d + (k - c)" and ?e = "display_advance T tab g (d + (k - c))"
  let ?p = "\<lparr>dc_start = k, dc_end = k + length g, dc_display_start = ?d, dc_display_end = ?e\<rparr>"
  have points: "display_points tab c d (special T k g # sp) = ?p # display_points tab (k + length g) ?e sp"
    by (simp add: special_def display_advance_def Let_def)
  have le: "?d \<le> ?e" by (simp add: display_advance_def)
  show ?case
  proof (cases "?d < col \<and> ?e \<le> col")
    case True
    then have "before_column col ?p" by (auto simp: before_column_def)
    then show ?thesis
      unfolding points using True marked_special.IH [of "k + length g" "before @ [g]" ?e] marked_special.prems
      by (simp add: locate_go Let_def)
  next
    case False
    then have "\<not> before_column col ?p" using le by (auto simp: before_column_def)
    then show ?thesis
      unfolding points using False marked_special.prems(5) by (auto simp: locate_stop Let_def)
  qed
qed

context grapheme_rules begin

lemma display_to_char_ok:
  assumes ok: "index_ok T t idx" and t: "13 \<notin> set t" and tab: "0 < tab_width"
  shows "display_to_char T idx col tab_width = display_col_to_char_col T t col tab_width"
proof -
  let ?gs = "graphemes T t"
  define down where "down r = grapheme_to_char T idx (char_to_grapheme T idx r)" for r
  have down_eq: "down r = length (concat (take (grapheme_of_char ?gs r 0 0) ?gs))" for r
    by (simp add: down_def grapheme_to_char_ok [OF ok t] char_to_grapheme_ok [OF ok t] grapheme_to_char_col_def
        char_to_grapheme_col_def grapheme_offset_eq)
  have inner: "down r = length (concat before)"
    if "?gs = before @ g # rest" "length (concat before) \<le> r" "r < length (concat before) + length g" for before g rest r
  proof -
    have "grapheme_of_char ?gs r 0 0 = length before"
      unfolding that(1) using grapheme_of_char_skip [of 0 before r "g # rest" 0] that(2,3) by simp
    then show ?thesis unfolding down_eq by (simp add: that(1))
  qed
  have all: "down (length (concat ?gs)) = length (concat ?gs)"
    unfolding down_eq by (subst grapheme_of_char_end) simp_all
  have at_least: "max tab_width 1 = tab_width" and content: "lx_text idx = t" using tab ok by (simp_all add: index_ok_def)
  have "display_to_char T idx col tab_width =
      locate down (length (concat ?gs)) col 0 0 (display_points tab_width 0 0 (lx_specials idx))"
    unfolding display_to_char_def display_checkpoints_def locate_def Let_def content at_least down_def before_column_def
    by (simp cong: if_cong)
  also have "\<dots> = char_of_display T tab_width ?gs col 0 0"
    using locate_marked [where down = down and all = ?gs and k = 0 and gs = ?gs and sp = "lx_specials idx" and c = 0
        and before = "[]" and d = 0 and col = col and tab = tab_width and T = T, OF inner all] ok graphemes_ne
    by (simp add: index_ok_def)
  finally show ?thesis by (simp add: display_col_to_char_col_def)
qed

end

section \<open>Graphemes of an index, forward and backward\<close>

lemma next_length: "k < length t \<Longrightarrow> k + length (take (next_boundary T t k - k) (drop k t)) = next_boundary T t k"
  using next_boundary_le [of k t T] next_boundary_less [of k T t] by (simp add: min_def) linarith

lemma graphemes_at_drop:
  "n \<le> length (graphemes_at T t k) \<Longrightarrow>
   graphemes_at T t (k + length (concat (take n (graphemes_at T t k)))) = drop n (graphemes_at T t k) \<and>
   (n = 0 \<or> k + length (concat (take n (graphemes_at T t k))) = length t \<or>
    tx_boundary T t (k + length (concat (take n (graphemes_at T t k)))))"
proof (induction n arbitrary: k)
  case (Suc n)
  let ?e = "next_boundary T t k" and ?g = "take (next_boundary T t k - k) (drop k t)"
  have k: "k < length t" using Suc.prems by (cases "k < length t") auto
  have next_e: "is_next T t k ?e" by (rule next_boundary_is_next [OF k])
  have len: "k + length ?g = ?e" by (rule next_length [OF k])
  have n: "n \<le> length (graphemes_at T t ?e)" using Suc.prems k by (simp add: graphemes_at_step)
  have "k + length (concat (take (Suc n) (graphemes_at T t k))) = ?e + length (concat (take n (graphemes_at T t ?e)))"
    using len k by (simp add: graphemes_at_step add.assoc [symmetric] del: length_take)
  moreover have "drop (Suc n) (graphemes_at T t k) = drop n (graphemes_at T t ?e)" using k by (simp add: graphemes_at_step)
  moreover have "?e = length t \<or> tx_boundary T t ?e" using next_e by (auto simp: is_next_def)
  ultimately show ?case using Suc.IH [OF n] by (cases "n = 0") auto
qed simp

text \<open>The boundary before a position is where its last grapheme begins.\<close>

lemma prev_boundary_eq:
  assumes "is_next T t s k" "s = 0 \<or> tx_boundary T t s"
  shows "prev_boundary T t k = s"
proof -
  have k: "s < k" and inside: "\<forall>e \<in> set (rev [Suc s..<k]). \<not> tx_boundary T t e"
    using assms(1) by (auto simp: is_next_def)
  have "rev [1..<k] = rev [Suc s..<k] @ rev [1..<Suc s]"
    using k upt_add_eq_append [of 1 "Suc s" "k - Suc s"] by simp
  moreover have "takeWhile (\<lambda>e. \<not> tx_boundary T t e) (rev [1..<Suc s]) = []"
    using assms(2) by (cases s) auto
  ultimately have "takeWhile (\<lambda>e. \<not> tx_boundary T t e) (rev [1..<k]) = rev [Suc s..<k]"
    using takeWhile_append2 [of "rev [Suc s..<k]" "\<lambda>e. \<not> tx_boundary T t e" "rev [1..<Suc s]"] inside by simp
  then show ?thesis using k by (simp add: prev_boundary_def)
qed

context grapheme_rules begin

lemma indexed_graphemes_ok:
  assumes "13 \<notin> set t" "ascii \<longrightarrow> (\<forall>c \<in> set t. c < 128)"
  shows "position_ok T t p \<Longrightarrow> map ig_text (indexed_graphemes T t ascii p) = graphemes_at T t (cp_char p)"
proof (induction "length t - cp_char p" arbitrary: p rule: less_induct)
  case less
  show ?case
  proof (cases "cp_char p < length t")
    case False
    then show ?thesis using indexed_next_end [OF less.prems, of ascii] by (simp add: indexed_graphemes.simps)
  next
    case True
    from iterate [OF assms less.prems True] obtain g q where
      q: "indexed_next T t ascii p = Some (g, q)" "position_ok T t q" "g \<noteq> []"
        "graphemes_at T t (cp_char p) = g # graphemes_at T t (cp_char q)" "cp_char q = cp_char p + length g" by blast
    have "length t - cp_char q < length t - cp_char p" using q(3,5) True by (cases g) auto
    from less.hyps [OF this q(2)] show ?thesis using q by (simp add: indexed_graphemes.simps [of T t ascii p])
  qed
qed

lemma graphemes_from_ok:
  assumes ok: "index_ok T t idx" and t: "13 \<notin> set t"
  shows "map ig_text (graphemes_from T idx col) = drop col (graphemes T t)"
proof -
  note pos = position_for_grapheme_ok [OF ok t, of col]
  have "map ig_text (graphemes_from T idx col) = graphemes_at T t (cp_char (position_for_grapheme T idx col))"
    using indexed_graphemes_ok [OF t _ pos(1), of "lx_ascii idx"] ok by (simp add: graphemes_from_def index_ok_def)
  then show ?thesis using position_bounds(4) [OF pos(1)] pos(2) by (cases "col \<le> length (graphemes T t)") simp_all
qed

lemma reverse_graphemes_ok:
  assumes t: "13 \<notin> set t" "ascii \<longrightarrow> (\<forall>c \<in> set t. c < 128)"
  shows "n \<le> length (graphemes T t) \<Longrightarrow>
    reverse_graphemes T t ascii (length (concat (take n (graphemes T t)))) n =
    rev (zip [0..<n] (map hd (take n (graphemes T t))))"
proof (induction n)
  case 0
  show ?case by (simp add: reverse_graphemes.simps)
next
  case (Suc n)
  let ?gs = "graphemes T t" and ?C = "\<lambda>n. length (concat (take n (graphemes T t)))"
  have n: "n < length ?gs" using Suc.prems by simp
  have rest: "graphemes_at T t (?C n) = drop n ?gs" "n = 0 \<or> ?C n = length t \<or> tx_boundary T t (?C n)"
    using graphemes_at_drop [of n T t 0] n by (simp_all add: graphemes_def)
  have more: "?C n < length t" using rest(1) n by (cases "?C n < length t") auto
  have ne: "?gs ! n \<noteq> []" using n graphemes_at_ne nth_mem unfolding graphemes_def by blast
  have "drop n ?gs = ?gs ! n # drop (Suc n) ?gs" using n by (simp add: Cons_nth_drop_Suc)
  then have g: "?gs ! n = take (next_boundary T t (?C n) - ?C n) (drop (?C n) t)"
    using graphemes_at_step [OF more, of T] rest(1) by simp
  have next_n: "is_next T t (?C n) (next_boundary T t (?C n))" by (rule next_boundary_is_next [OF more])
  have C: "?C (Suc n) = ?C n + length (?gs ! n)" using n by (simp add: take_Suc_conv_app_nth)
  then have next_C: "next_boundary T t (?C n) = ?C (Suc n)" using next_length [OF more, of T] unfolding g by simp
  have start: "(if ascii then ?C (Suc n) - 1 else prev_boundary T t (?C (Suc n))) = ?C n"
  proof (cases ascii)
    case True
    then have "?gs = map (\<lambda>c. [c]) t" using t by (simp add: graphemes_ascii)
    then have "length (?gs ! n) = 1" using n by simp
    then show ?thesis using True C by simp
  next
    case False
    have "?C n = 0 \<or> tx_boundary T t (?C n)" using rest(2) more by auto
    then show ?thesis using False prev_boundary_eq [OF next_n] unfolding next_C by simp
  qed
  have "t ! ?C n = hd (?gs ! n)" using more next_n unfolding g by (simp add: hd_take hd_drop_conv_nth is_next_def)
  moreover have "?C (Suc n) \<noteq> 0" using C ne by simp
  ultimately have "reverse_graphemes T t ascii (?C (Suc n)) (Suc n) = (n, hd (?gs ! n)) # reverse_graphemes T t ascii (?C n) n"
    by (simp add: reverse_graphemes.simps [of T t ascii "?C (Suc n)"] start Let_def)
  then show ?case using Suc.IH n by (simp add: take_Suc_conv_app_nth)
qed

lemma graphemes_before_ok:
  assumes ok: "index_ok T t idx" and t: "13 \<notin> set t"
  shows "graphemes_before T idx col =
    rev (zip [0..<min col (length (graphemes T t))] (map hd (take col (graphemes T t))))"
proof -
  note pos = position_for_grapheme_ok [OF ok t, of col]
  have "graphemes_before T idx col = reverse_graphemes T t (lx_ascii idx)
      (length (concat (take (min col (length (graphemes T t))) (graphemes T t)))) (min col (length (graphemes T t)))"
    using ok position_bounds(3) [OF pos(1)] pos(2) by (simp add: graphemes_before_def index_ok_def Let_def)
  also have "\<dots> = rev (zip [0..<min col (length (graphemes T t))]
      (map hd (take (min col (length (graphemes T t))) (graphemes T t))))"
    using ok by (intro reverse_graphemes_ok [OF t]) (simp_all add: index_ok_def)
  finally show ?thesis by (cases "col \<le> length (graphemes T t)") (simp_all add: min_def)
qed

end

lemma display_of_all: "seen + length (concat gs) = col \<Longrightarrow> \<forall>g \<in> set gs. g \<noteq> [] \<Longrightarrow>
  display_of_char T tab gs col d seen = fold (display_advance T tab) gs d"
  by (induction T tab gs col d seen rule: display_of_char.induct) (auto simp: ac_simps)

context grapheme_rules begin

lemma display_width_ok:
  assumes ok: "index_ok T t idx" and t: "13 \<notin> set t" and tab: "0 < tab_width"
  shows "index_display_width T idx tab_width = display_width T t tab_width"
  using char_to_display_ok [OF assms, of "length t"] display_of_all [of 0 "graphemes T t" "length t" T tab_width 0]
    graphemes_ne [of t] ok
  by (simp add: index_display_width_def char_col_to_display_col_def display_width_def index_ok_def)

end

end
