(* ===== verification/LineIndexSessions.thy ===== *)
theory LineIndexSessions
  imports LineIndexLaws
begin

text \<open>
  The indexes a buffer keeps through a session of edits and questions: every line answers from its
  index as the conversions on the whole line do, and the change log names every edit it covers. The
  locale \<open>cached_lines\<close> joins what the buffer relies on, the rope and Unicode's rules.
\<close>

section \<open>The line at a row\<close>

definition text_line :: "rstr \<Rightarrow> nat \<Rightarrow> rstr" where
  "text_line t l = (if l < length (split_lines t) then split_lines t ! l else [])"

lemma text_line_simps [simp]:
  "text_line [] l = []"
  "text_line (c # t) l =
     (if c = 10 then (if l = 0 then [] else text_line t (l - 1))
      else if l = 0 then c # text_line t 0 else text_line t l)"
  by (auto simp: text_line_def hd_conv_nth nth_tl Suc_less_eq2 nth_Cons split: nat.splits)

lemma text_line_below: "l < count_breaks x \<Longrightarrow> text_line (x @ z) l = text_line x l"
  by (induction x arbitrary: l) (auto split: if_splits)

lemma text_line_above: "count_breaks x < l \<Longrightarrow> text_line (x @ z) l = text_line z (l - count_breaks x)"
  by (induction x arbitrary: l) (auto split: if_splits)

lemma text_line_at: "text_line (x @ z) (count_breaks x) = text_line x (count_breaks x) @ text_line z 0"
  by (induction x) (auto split: if_splits)

lemma text_line_whole: "count_breaks s = 0 \<Longrightarrow> text_line s 0 = s"
  by (induction s) (auto split: if_splits)

lemma line_start_at: "line_start (x @ z) (count_breaks x) + length (text_line x (count_breaks x)) = length x"
proof (induction x)
  case (Cons c x)
  then show ?case by (cases "count_breaks x") auto
qed simp

lemma text_line_same: "10 \<notin> set (text_line t l)" "lf_only t \<Longrightarrow> lf_only (text_line t l)"
  using unbroken_split [of t] lf_only_split [of t] by (auto simp: text_line_def unbroken_def)

lemma line_of_char_unique:
  "line_start t k \<le> i \<Longrightarrow> i < line_start t (Suc k) \<Longrightarrow> count_breaks (take i t) = k"
proof (induction t arbitrary: i k)
  case (Cons c t)
  show ?case
  proof (cases i)
    case 0
    then show ?thesis using Cons.prems by (cases k) auto
  next
    case (Suc j)
    then show ?thesis
      using Cons.prems Cons.IH [of "if c = 10 then k - 1 else k" j] by (cases k) (auto split: if_splits)
  qed
qed simp

lemma count_breaks_append [simp]: "count_breaks (s @ t) = count_breaks s + count_breaks t"
  by (simp add: count_breaks_def)

lemma trim_clean:
  assumes "10 \<notin> set s" "13 \<notin> set s"
  shows "trim_line_terminator s = s" "trim_line_terminator (s @ [10]) = s"
proof -
  show "trim_line_terminator s = s"
  proof (cases "s = []")
    case False
    then have "s ! (length s - 1) \<in> set s" by simp
    then have "s ! (length s - 1) \<noteq> 10" "s ! (length s - 1) \<noteq> 13" using assms by metis+
    then show ?thesis by (simp add: trim_line_terminator_def Let_def)
  qed (simp add: trim_line_terminator_def)
  have "s ! (length s - 1) \<noteq> 13" if "s \<noteq> []" using that assms by (metis last_conv_nth last_in_set)
  then show "trim_line_terminator (s @ [10]) = s"
    by (cases "s = []") (simp_all add: trim_line_terminator_def nth_append Let_def)
qed

context lf_rope begin

lemma char_to_line:
  assumes lf: "lf_only (chs r)" and i: "i \<le> length (chs r)"
  shows "rope_char_to_line R r i = count_breaks (take i (chs r))"
proof (cases "i < length (chs r)")
  case True
  let ?k = "rope_char_to_line R r i"
  have k: "?k \<le> count_breaks (chs r)" using char_to_line_less [OF i] lf by (simp add: lf_lines)
  have "rope_line_to_char R r (Suc ?k) = line_start (chs r) (Suc ?k)"
  proof (cases "?k = count_breaks (chs r)")
    case True
    then show ?thesis using line_to_char_end [of r] lf by (simp add: lf_lines line_start_all)
  qed (use k lf in \<open>simp add: lf_starts\<close>)
  then show ?thesis
    using line_of_char_unique [of "chs r" ?k i] char_to_line_start [OF i] char_to_line_end [OF True] k lf
    by (simp add: lf_starts)
next
  case False
  then show ?thesis using i lf char_to_line_last [of r] by (simp add: lf_lines)
qed

lemma line_content:
  assumes lf: "lf_only (chs r)"
  shows "trim_line_terminator (if l < rope_len_lines R r then rope_line R r l else []) = text_line (chs r) l"
proof (cases "l < rope_len_lines R r")
  case True
  then have l: "l < length (split_lines (chs r))" using lf by (simp add: lf_lines length_split)
  let ?s = "text_line (chs r) l"
  have no: "10 \<notin> set ?s" by (rule text_line_same)
  have "13 \<notin> set ?s" using text_line_same(2) [OF lf, of l] by (auto simp only: lf_only_def)
  note no = no this
  obtain b :: "'r buffer" where b: "buf_rope b = r" using that [of "undefined\<lparr>buf_rope := r\<rparr>"] by simp
  have s: "rope_line R r l = ?s @ (if Suc l < length (split_lines (chs r)) then [10] else [])"
    using line_chars [of b l, unfolded b, OF lf l] l by (simp only: text_line_def if_True)
  then show ?thesis using True trim_clean [OF no] unfolding s by simp
next
  case False
  then have "text_line (chs r) l = []" using lf by (simp add: text_line_def lf_lines length_split)
  then show ?thesis using False by (simp add: trim_line_terminator_def)
qed

end

section \<open>An edit of the text\<close>

definition cache_ok :: "text_ops \<Rightarrow> rstr \<Rightarrow> text_index_cache \<Rightarrow> bool" where
  "cache_ok T t c \<longleftrightarrow> (\<forall>l idx. c l = Some idx \<longrightarrow> index_ok T (text_line t l) idx)"

lemma cache_okD: "cache_ok T t c \<Longrightarrow> c l = Some idx \<Longrightarrow> index_ok T (text_line t l) idx"
  by (simp add: cache_ok_def)

lemma cache_ok_empty [simp]: "cache_ok T t Map.empty"
  by (simp add: cache_ok_def)

locale cached_lines = grapheme_rules T + lf_rope R chs for T :: text_ops and R :: "'r rope_ops" and chs :: "'r \<Rightarrow> rstr"
begin

lemma pending_edit:
  assumes lf: "lf_only (chs r)" and t: "chs r = x @ m @ y"
  shows "pending_text_edit_new R r (length x) (length (x @ m)) =
    \<lparr>pe_start_line = count_breaks x, pe_end_line = count_breaks x + count_breaks m,
     pe_start_col = length (text_line x (count_breaks x)),
     pe_end_col = length (text_line (x @ m) (count_breaks (x @ m))),
     pe_old_lines = Suc (count_breaks (x @ m @ y))\<rparr>"
proof -
  have lines: "rope_char_to_line R r (length x) = count_breaks x"
    "rope_char_to_line R r (length (x @ m)) = count_breaks (x @ m)"
    using char_to_line [OF lf, of "length x"] char_to_line [OF lf, of "length (x @ m)"] by (simp_all add: t)
  have starts: "rope_line_to_char R r (count_breaks x) = line_start (x @ m @ y) (count_breaks x)"
    "rope_line_to_char R r (count_breaks (x @ m)) = line_start ((x @ m) @ y) (count_breaks (x @ m))"
    using lf by (simp_all add: lf_starts t)
  have cols: "length x - line_start (x @ m @ y) (count_breaks x) = length (text_line x (count_breaks x))"
    "length (x @ m) - line_start ((x @ m) @ y) (count_breaks (x @ m)) = length (text_line (x @ m) (count_breaks (x @ m)))"
    using line_start_at [of x "m @ y"] line_start_at [of "x @ m" y] by linarith+
  have "rope_len_lines R r = Suc (count_breaks (x @ m @ y))" using lf t by (simp add: lf_lines)
  then show ?thesis
    unfolding pending_text_edit_new_def Let_def lines starts cols by simp
qed

lemma cache_edited_cases:
  assumes lf: "lf_only (chs r)" "lf_only (chs r')" and t: "chs r = x @ m @ y" and u: "chs r' = x @ s @ y"
  shows "snd (cache_edited T R r' (pending_text_edit_new R r (length x) (length (x @ m))) s v c) =
    (if count_breaks m = 0 \<and> count_breaks s = 0 then
       (case c (count_breaks x) of
          Some idx \<Rightarrow>
            if length (text_line (x @ m) (count_breaks (x @ m))) \<le> length (lx_text idx) \<and> 13 \<notin> set s \<and> 10 \<notin> set s
            then c(count_breaks x \<mapsto> line_index_edited T idx (rope_line R r' (count_breaks x))
                     (length (text_line x (count_breaks x))) (length (text_line (x @ m) (count_breaks (x @ m)))) s)
            else c(count_breaks x := None)
        | None \<Rightarrow> c(count_breaks x := None))
     else (\<lambda>l. if l < count_breaks x then c l else if l < count_breaks x + Suc (count_breaks s) then None
                else c (l + Suc (count_breaks m) - Suc (count_breaks s))))"
proof -
  let ?n = "count_breaks x" and ?old = "Suc (count_breaks m)" and ?new = "Suc (count_breaks s)"
  have lines: "rope_len_lines R r' = Suc (count_breaks (x @ s @ y))" using lf(2) u by (simp add: lf_lines)
  have old: "?n + count_breaks m - ?n + 1 = ?old" by simp
  have new: "(if rope_len_lines R r' \<ge> Suc (count_breaks (x @ m @ y))
      then ?old + (rope_len_lines R r' - Suc (count_breaks (x @ m @ y)))
      else ?old - (Suc (count_breaks (x @ m @ y)) - rope_len_lines R r')) = ?new"
    unfolding lines by auto
  have one: "?old = 1 \<and> ?new = 1 \<longleftrightarrow> count_breaks m = 0 \<and> count_breaks s = 0" by simp
  have moved: "(\<lambda>l. if l < ?n then (c(?n := None)) l else if l < ?n + ?new then None else (c(?n := None)) (l + ?old - ?new)) =
      (\<lambda>l. if l < ?n then c l else if l < ?n + ?new then None else c (l + ?old - ?new))"
    by (intro ext) auto
  show ?thesis
    unfolding cache_edited_def pending_edit [OF lf(1) t] pending_text_edit.select_convs Let_def
    unfolding old new one moved fun_upd_upd snd_conv ..
qed

lemma edited_cache_ok:
  assumes lf: "lf_only (chs r)" "lf_only (chs r')" and t: "chs r = x @ m @ y" and u: "chs r' = x @ s @ y"
    and ok: "cache_ok T (chs r) c"
  shows "cache_ok T (chs r') (snd (cache_edited T R r' (pending_text_edit_new R r (length x) (length (x @ m))) s v c))"
proof -
  let ?n = "count_breaks x" and ?old = "Suc (count_breaks m)" and ?new = "Suc (count_breaks s)"
  have above: "text_line (chs r') l = text_line (chs r) (l + ?old - ?new)" if "?n + ?new \<le> l" for l
  proof -
    have "text_line (chs r') l = text_line y (l - (?n + count_breaks s))"
      using text_line_above [of "x @ s" l y] that by (simp add: u)
    moreover have "text_line (chs r) (l + ?old - ?new) = text_line y (l + ?old - ?new - (?n + count_breaks m))"
      using text_line_above [of "x @ m" "l + ?old - ?new" y] that by (simp add: t)
    moreover have "l + ?old - ?new - (?n + count_breaks m) = l - (?n + count_breaks s)" using that by linarith
    ultimately show ?thesis by simp
  qed
  have below: "text_line (chs r') l = text_line (chs r) l" if "l < ?n" for l
    using that by (simp add: t u text_line_below)
  show ?thesis
  proof (cases "count_breaks m = 0 \<and> count_breaks s = 0")
    case False
    then show ?thesis
      using ok above below unfolding cache_edited_cases [OF lf t u] if_not_P [OF False] cache_ok_def by simp
  next
    case True
    let ?a = "text_line x ?n" and ?rest = "text_line y 0"
    have old_line: "text_line (chs r) ?n = ?a @ m @ ?rest"
      using True text_line_at [of x "m @ y"] text_line_at [of m y] by (simp add: t text_line_whole)
    have new_line: "text_line (chs r') ?n = ?a @ s @ ?rest"
      using True text_line_at [of x "s @ y"] text_line_at [of s y] by (simp add: u text_line_whole)
    have cols: "text_line (x @ m) (count_breaks (x @ m)) = ?a @ m"
      using True text_line_at [of x m] by (simp add: text_line_whole)
    have content: "trim_line_terminator (rope_line R r' ?n) = text_line (chs r') ?n"
      using line_content [OF lf(2), of ?n] lf_lines [OF lf(2)] by (simp add: u)
    have no_cr: "13 \<notin> set (text_line (chs r) l)" "13 \<notin> set (text_line (chs r') l)" for l
      using text_line_same(2) [OF lf(1), of l] text_line_same(2) [OF lf(2), of l] by (auto simp only: lf_only_def)
    have edited: "index_ok T (text_line (chs r') ?n)
        (line_index_edited T idx (rope_line R r' ?n) (length ?a) (length (?a @ m)) s)" if "c ?n = Some idx" for idx
      using index_edited_ok [OF cache_okD [OF ok that] no_cr(1), of "rope_line R r' ?n" "length ?a" s "length (?a @ m)"] no_cr(2) [of ?n]
      unfolding content by (simp add: old_line new_line)
    have others: "text_line (chs r') l = text_line (chs r) l" if "l \<noteq> ?n" for l
      using that above [of l] below [of l] True by (cases "l < ?n") simp_all
    show ?thesis
      unfolding cache_edited_cases [OF lf t u] if_P [OF True] cache_ok_def cols
      using True edited others cache_okD [OF ok] by (auto split: option.splits if_splits)
  qed
qed

lemma cache_line_ok:
  assumes lf: "lf_only (chs r)" and ok: "cache_ok T (chs r) c"
  shows "index_ok T (text_line (chs r) l) (fst (cache_line T R r l c))" "cache_ok T (chs r) (snd (cache_line T R r l c))"
proof -
  have "13 \<notin> set (text_line (chs r) l)" using text_line_same(2) [OF lf, of l] by (auto simp only: lf_only_def)
  then have new: "index_ok T (text_line (chs r) l)
      (line_index_new T (if l < rope_len_lines R r then rope_line R r l else []))"
    using index_new_ok [of "if l < rope_len_lines R r then rope_line R r l else []"] unfolding line_content [OF lf] by simp
  show "index_ok T (text_line (chs r) l) (fst (cache_line T R r l c))"
    using new cache_okD [OF ok] by (auto simp: cache_line_def Let_def split: option.split)
  show "cache_ok T (chs r) (snd (cache_line T R r l c))"
    using new ok by (auto simp: cache_line_def cache_ok_def Let_def split: option.split)
qed

end

section \<open>Sessions\<close>

text \<open>What an operation does to the text, and the operations it takes: positions within it, no other line breaks.\<close>

fun text_after :: "('r \<Rightarrow> rstr) \<Rightarrow> 'r index_op \<Rightarrow> rstr \<Rightarrow> rstr" where
  "text_after chs (InsertChars i s) t = take i t @ s @ drop i t"
| "text_after chs (RemoveChars a b) t = take a t @ drop b t"
| "text_after chs (LineAt l) t = t"
| "text_after chs (ReplaceRope r) t = chs r"

fun op_fits :: "('r \<Rightarrow> rstr) \<Rightarrow> 'r index_op \<Rightarrow> rstr \<Rightarrow> bool" where
  "op_fits chs (InsertChars i s) t \<longleftrightarrow> i \<le> length t \<and> lf_only s"
| "op_fits chs (RemoveChars a b) t \<longleftrightarrow> a \<le> b \<and> b \<le> length t"
| "op_fits chs (LineAt l) t \<longleftrightarrow> True"
| "op_fits chs (ReplaceRope r) t \<longleftrightarrow> lf_only (chs r)"

fun ops_fit :: "('r \<Rightarrow> rstr) \<Rightarrow> 'r index_op list \<Rightarrow> rstr \<Rightarrow> bool" where
  "ops_fit chs [] t \<longleftrightarrow> True"
| "ops_fit chs (op # ops) t \<longleftrightarrow> op_fits chs op t \<and> ops_fit chs ops (text_after chs op t)"

definition session_ok :: "text_ops \<Rightarrow> ('r \<Rightarrow> rstr) \<Rightarrow> 'r indexed_text \<Rightarrow> bool" where
  "session_ok T chs x \<longleftrightarrow> lf_only (chs (it_rope x)) \<and> cache_ok T (chs (it_rope x)) (it_index x)"

context cached_lines begin

lemma finish_edit_ok:
  assumes x: "session_ok T chs x" and t: "chs (it_rope x) = a @ m @ b" and u: "chs r = a @ s @ b" and s: "lf_only s"
  shows "session_ok T chs (finish_text_edit T R (pending_text_edit_new R (it_rope x) (length a) (length (a @ m))) s
    (x\<lparr>it_rope := r\<rparr>))"
proof -
  have lf: "lf_only (chs (it_rope x))" "lf_only (chs r)" using x s t u by (simp_all add: session_ok_def)
  show ?thesis
    using edited_cache_ok [OF lf t u, of "it_index x" "it_version x + 1"] x lf(2)
    by (simp add: session_ok_def finish_text_edit_def Let_def split_def)
qed

lemma session_ok_version [simp]: "session_ok T chs (x\<lparr>it_version := v\<rparr>) \<longleftrightarrow> session_ok T chs x"
  by (simp add: session_ok_def)

lemma finish_edit_rope [simp]: "it_rope (finish_text_edit T R e s x) = it_rope x"
  by (simp add: finish_text_edit_def Let_def split_def)

lemma step_ok:
  assumes x: "session_ok T chs x" and fits: "op_fits chs op (chs (it_rope x))"
  shows "session_ok T chs (index_step T R op x) \<and> chs (it_rope (index_step T R op x)) = text_after chs op (chs (it_rope x))"
proof (cases op)
  case (InsertChars i s)
  let ?t = "chs (it_rope x)"
  have i: "i \<le> length ?t" "lf_only s" using fits InsertChars by simp_all
  then show ?thesis
    using finish_edit_ok [OF x, of "take i ?t" "[]" "drop i ?t" "rope_insert R (it_rope x) i s" s]
    by (simp add: InsertChars indexed_insert_def Let_def insert min_absorb2)
next
  case (RemoveChars a b)
  let ?t = "chs (it_rope x)"
  have ab: "a \<le> b" "b \<le> length ?t" using fits RemoveChars by simp_all
  have t: "?t = take a ?t @ take (b - a) (drop a ?t) @ drop b ?t"
    using ab by (metis append.assoc append_take_drop_id le_add_diff_inverse take_add)
  have len: "length (take a ?t) = a" "length (take a ?t @ take (b - a) (drop a ?t)) = b" using ab by simp_all
  show ?thesis
    using finish_edit_ok [OF x t, of "rope_remove R (it_rope x) a b" "[]"] ab unfolding len
    by (simp add: RemoveChars indexed_remove_def Let_def remove)
next
  case (LineAt l)
  then show ?thesis
    using x cache_line_ok(2) [of "it_rope x" "it_index x" l]
    by (simp add: session_ok_def buffer_line_index_def Let_def split_def)
next
  case (ReplaceRope r)
  then show ?thesis using fits by (simp add: session_ok_def indexed_replace_def invalidate_text_index_def)
qed

lemma steps_ok:
  "session_ok T chs x \<Longrightarrow> ops_fit chs ops (chs (it_rope x)) \<Longrightarrow>
   session_ok T chs (fold (index_step T R) ops x) \<and>
   chs (it_rope (fold (index_step T R) ops x)) = fold (text_after chs) ops (chs (it_rope x))"
  by (induction ops arbitrary: x) (use step_ok in \<open>simp_all\<close>)

lemma session_answers:
  fixes l :: nat
  assumes x: "session_ok T chs x" and tab: "0 < tab"
  defines "t \<equiv> text_line (chs (it_rope x)) l" and "idx \<equiv> fst (buffer_line_index T R x l)"
  shows "lx_text idx = t \<and> grapheme_to_char T idx col = grapheme_to_char_col T t col \<and>
    char_to_grapheme T idx col = char_to_grapheme_col T t col \<and>
    char_to_display T idx col tab = char_col_to_display_col T t col tab \<and>
    display_to_char T idx col tab = display_col_to_char_col T t col tab \<and>
    index_display_width T idx tab = display_width T t tab \<and>
    map ig_text (graphemes_from T idx col) = drop col (graphemes T t) \<and>
    graphemes_before T idx col = rev (zip [0..<min col (length (graphemes T t))] (map hd (take col (graphemes T t))))"
proof -
  have lf: "lf_only (chs (it_rope x))" using x by (simp add: session_ok_def)
  have ok: "index_ok T t idx"
    using cache_line_ok(1) [OF lf, of "it_index x" l] x
    by (simp add: t_def idx_def session_ok_def buffer_line_index_def Let_def split_def)
  have t: "13 \<notin> set t" using text_line_same(2) [OF lf, of l] unfolding t_def by (auto simp only: lf_only_def)
  show ?thesis
    using ok grapheme_to_char_ok [OF ok t] char_to_grapheme_ok [OF ok t] char_to_display_ok [OF ok t tab]
      display_to_char_ok [OF ok t tab] display_width_ok [OF ok t tab] graphemes_from_ok [OF ok t] graphemes_before_ok [OF ok t]
    by (simp add: index_ok_def)
qed

end

section \<open>The change log\<close>

text \<open>The log holds the last changes without a gap, so whoever asks for those since a version gets all of them.\<close>

definition log_ok :: "line_change_log \<Rightarrow> nat \<Rightarrow> bool" where
  "log_ok g version \<longleftrightarrow> map lc_version (lcl_changes g) = [Suc (lcl_base_version g)..<Suc version] \<and>
     length (lcl_changes g) \<le> change_history \<and> lcl_base_version g \<le> version"

lemma log_push:
  assumes "log_ok g version" and "lc_version change = Suc version"
  shows "log_ok (line_changes_push g change) (Suc version)"
proof (cases "length (lcl_changes g) = change_history")
  case True
  then obtain c cs where g: "lcl_changes g = c # cs" by (cases "lcl_changes g") (auto simp: change_history_def)
  then have "[Suc (lcl_base_version g)..<Suc version] = lc_version c # map lc_version cs"
    using assms(1) by (simp add: log_ok_def)
  then have "lcl_base_version g < version" "lc_version c = Suc (lcl_base_version g)"
    "map lc_version cs = [Suc (Suc (lcl_base_version g))..<Suc version]"
    unfolding upt_eq_Cons_conv Suc_eq_plus1 by auto
  then show ?thesis using True g assms(2) by (simp add: log_ok_def line_changes_push_def)
next
  case False
  then show ?thesis using assms by (auto simp: log_ok_def line_changes_push_def)
qed

lemma log_step:
  "log_ok (it_changes x) (it_version x) \<Longrightarrow>
   log_ok (it_changes (index_step T R op x)) (it_version (index_step T R op x))"
  by (cases op)
    (auto simp: indexed_insert_def indexed_remove_def finish_text_edit_def cache_edited_def buffer_line_index_def
       Let_def split_def intro!: log_push,
     simp add: indexed_replace_def invalidate_text_index_def line_changes_reset_def log_ok_def)

lemma changes_since_complete:
  assumes "log_ok (it_changes x) (it_version x)" and y: "y = fold (index_step T R) ops x"
    and "line_changes_since y v = Some cs"
  shows "map lc_version cs = [Suc v..<Suc (it_version y)]"
proof -
  have ok: "log_ok (it_changes (fold (index_step T R) ops x)) (it_version (fold (index_step T R) ops x))"
    using assms(1) by (induction ops arbitrary: x) (simp_all add: log_step)
  let ?b = "lcl_base_version (it_changes y)"
  have v: "?b \<le> v" "v \<le> it_version y" and cs: "cs = filter (\<lambda>c. lc_version c > v) (lcl_changes (it_changes y))"
    using assms(3) by (auto simp: line_changes_since_def changes_since_def split: if_splits)
  have "map lc_version cs = filter (\<lambda>n. n > v) (map lc_version (lcl_changes (it_changes y)))"
    unfolding cs by (simp add: filter_map o_def)
  also have "\<dots> = filter (\<lambda>n. n > v) [Suc ?b..<Suc (it_version y)]"
    using ok by (simp add: y log_ok_def)
  also have "[Suc ?b..<Suc (it_version y)] = [Suc ?b..<Suc v] @ [Suc v..<Suc (it_version y)]"
    using v by (metis Suc_le_mono le_Suc_ex upt_add_eq_append)
  finally show ?thesis by simp
qed

section \<open>Every line answers from its index\<close>

text \<open>
  C40. Through any session of edits and questions, however the lines were indexed before and wherever
  the edits fell, the index a buffer gives for a line holds that line's text and answers the four
  coordinate conversions (grapheme to character column, character to grapheme column, character to
  display column, display column to character) as the direct conversions on the whole line do. So do
  its display width and its iterators: forward from a column it yields the graphemes from there on,
  backward the columns and leading characters of those before it, nearest first. An edit within a
  line reuses the index up to the edit, and the rows below an edit keep theirs.
\<close>
theorem kept_indexes_answer:
  fixes l :: nat
  assumes "grapheme_rules T" and "lf_rope R chs"
    and "lf_only (chs (it_rope x))" and "it_index x = Map.empty" and "ops_fit chs ops (chs (it_rope x))" and "0 < tab"
  defines "y \<equiv> fold (index_step T R) ops x"
  defines "t \<equiv> text_line (fold (text_after chs) ops (chs (it_rope x))) l"
    and "idx \<equiv> fst (buffer_line_index T R y l)"
  shows "lx_text idx = t \<and> grapheme_to_char T idx col = grapheme_to_char_col T t col \<and>
    char_to_grapheme T idx col = char_to_grapheme_col T t col \<and>
    char_to_display T idx col tab = char_col_to_display_col T t col tab \<and>
    display_to_char T idx col tab = display_col_to_char_col T t col tab \<and>
    index_display_width T idx tab = display_width T t tab \<and>
    map ig_text (graphemes_from T idx col) = drop col (graphemes T t) \<and>
    graphemes_before T idx col = rev (zip [0..<min col (length (graphemes T t))] (map hd (take col (graphemes T t))))"
proof -
  have lines: "cached_lines T R chs" by (intro cached_lines.intro assms)
  have "session_ok T chs x" using assms(3,4) by (simp add: session_ok_def)
  from cached_lines.steps_ok [OF lines this assms(5)] show ?thesis
    using cached_lines.session_answers [OF lines, of y tab l col] assms(6) by (simp add: y_def t_def idx_def)
qed

text \<open>Combining marks extend the character before them, and a carriage return keeps its line feed.\<close>

definition sample_text :: text_ops where
  "sample_text =
     \<lparr>tx_boundary = \<lambda>t k. \<not> (0 < k \<and> k < length t \<and>
        (0x300 \<le> t ! k \<and> t ! k < 0x370 \<or> t ! (k - 1) = 13 \<and> t ! k = 10)),
      tx_char_width = \<lambda>c. Some (if 0x300 \<le> c \<and> c < 0x370 then 0 else if 0x4E00 \<le> c \<and> c < 0xA000 then 2 else 1),
      tx_str_width = \<lambda>s. sum_list (map (\<lambda>c. if 0x300 \<le> c \<and> c < 0x370 then 0
        else if 0x4E00 \<le> c \<and> c < 0xA000 then 2 else 1) s)\<rparr>"

interpretation gr: grapheme_rules sample_text
proof (unfold_locales, goal_cases)
  case (1 k t u)
  have "t ! j = u ! j" if "j \<le> k" for j
    using nth_take [of j "Suc k" t] nth_take [of j "Suc k" u] that 1(1) by simp
  then show ?case using 1 by (auto simp: sample_text_def)
qed (auto simp: sample_text_def)

interpretation cl: cached_lines sample_text list_rope "\<lambda>t. t"
  by (intro cached_lines.intro gr.grapheme_rules_axioms lfr.lf_rope_axioms)

definition sample_session :: "rstr index_op list" where
  "sample_session = [LineAt 0, LineAt 1, InsertChars 2 [0x301, 0x4E2D], LineAt 0, RemoveChars 0 1, InsertChars 0 [98, 10]]"

lemma kept_indexes_answer_witness:
  "let y = fold (index_step sample_text list_rope) sample_session
         \<lparr>it_rope = [97, 101, 9, 122, 10, 99], it_index = Map.empty, it_changes = line_changes_reset 0, it_version = 0\<rparr>;
       idx = fst (buffer_line_index sample_text list_rope y 1)
   in lx_text idx = [101, 0x301, 0x4E2D, 9, 122] \<and> grapheme_to_char sample_text idx 2 = 3 \<and>
      char_to_grapheme sample_text idx 2 = 1 \<and> char_to_display sample_text idx 2 8 = 1 \<and> display_to_char sample_text idx 2 8 = 2 \<and>
      index_display_width sample_text idx 8 = 9"
proof -
  let ?x = "\<lparr>it_rope = [97, 101, 9, 122, 10, 99], it_index = Map.empty, it_changes = line_changes_reset 0, it_version = 0\<rparr>"
  let ?t = "[101, 0x301, 0x4E2D, 9, 122]"
  have fits: "lf_only (it_rope ?x)" "it_index ?x = Map.empty" "ops_fit (\<lambda>t. t) sample_session (it_rope ?x)" "0 < (8 :: nat)"
    by (simp_all add: sample_session_def)
  have t: "text_line (fold (text_after (\<lambda>t. t)) sample_session (it_rope ?x)) 1 = ?t"
    by (simp add: sample_session_def)
  note answers = kept_indexes_answer [OF gr.grapheme_rules_axioms lfr.lf_rope_axioms fits, of 1, unfolded t]
  have direct: "grapheme_to_char_col sample_text ?t 2 = 3" "char_to_grapheme_col sample_text ?t 2 = 1"
    "char_col_to_display_col sample_text ?t 2 8 = 1" "display_col_to_char_col sample_text ?t 2 8 = 2"
    "display_width sample_text ?t 8 = 9"
    by (simp_all add: grapheme_to_char_col_def char_to_grapheme_col_def char_col_to_display_col_def display_width_def
        display_col_to_char_col_def graphemes_def graphemes_at.simps next_boundary_def display_advance_def
        grapheme_display_width_def char_display_width_def is_control_char_def sample_text_def upt_rec Let_def)
  show ?thesis
    using answers [of 2] unfolding direct Let_def by blast
qed

end
