(* ===== verification/Spec2Isabelle.thy ===== *)
theory Spec2Isabelle
  imports Macros UndoLaws Numbers CommandLine Marks FoldTheorems WindowLaws Tabs ExTable ExUndo SubstituteConfirm
    ExLines FileText Conflicts LineIndexSessions
begin

text \<open>
  A verification development of the editing core of ovim, a Vim-like editor written in Rust.

  \<^bold>\<open>The program.\<close> The crate ovim-core holds the editor: buffers over a rope, the edits and the
  history of each buffer, registers and the clipboard, marks, folds, windows and tab pages, macros,
  the command line and the ex commands. The other crates and the rest of ovim-core (front ends,
  language servers, agents, debug adapters) drive this core or are driven by it. Paths below are
  relative to ovim-core/src.

  \<^bold>\<open>How the parts interact.\<close> A key or an ex command changes a buffer through the two mutation
  primitives of buffer/text\_ops.rs. Each emits an edit. The edit goes into the edit log, from which
  views catch up, and into the recording session of the command, whose edits become one entry of the
  undo stack of the change manager. Deleted and yanked text goes to the registers, and from there to
  the clipboard. Marks, folds and the lines that \<open>:g\<close> still has to visit follow the edits.

  \<^bold>\<open>Conventions.\<close> Source structs are records, enums are datatypes, one function or definition per
  operation. A panic of the source is \<^const>\<open>None\<close> (or a field that counts it), an error is a
  value. \<open>usize\<close> and \<open>u64\<close> counters that only count what is in memory are natural numbers;
  arithmetic on typed numbers is kept at its width, with its checks, wraps and overflows. A Rust
  \<open>char\<close> is its code point and a \<open>String\<close> a list of them, except where the code uses byte offsets.

  \<^bold>\<open>Theories.\<close>
  \<^item> Prelude: Rust's types and standard library functions used by several parts; shared lemmas; the
    locale \<open>step_refinement\<close> of an operation-by-operation simulation.
  \<^item> Clipboard (editor/clipboard.rs): execution scopes that write the system clipboard at the
    end of the outermost scope and before an external command, and read it once between; the locale \<open>faithful_backend\<close> is what a
    backend promises.
  \<^item> Registers (editor/register.rs): every register and its routing, with the invariant that every
    operation keeps.
  \<^item> Macros (key.rs, editor/macros.rs): keys as text, recording and playback. The input handler is
    a parameter; playback gets its depth bound as a measure.
  \<^item> Edits (edit.rs, edit\_log.rs): the effect of an edit on a text, and the ring of edit groups.
  \<^item> TextBuffers (buffer/mod.rs, text\_ops.rs, cursor.rs): the locale \<open>rope_contract\<close> is what the code
    uses of the rope crate, interpreted on lists; line geometry, the mutation primitives and the
    recording of edits, as a refinement of edits on the plain text.
  \<^item> TextLines (buffer/mod.rs, text\_ops.rs): the locale \<open>lf_rope\<close> extends it by the line structure of
    texts broken by line feeds: the text is a list of lines, and insertion and deletion at line
    starts are insertion and deletion in that list; joining lines.
  \<^item> Undo, UndoLaws (change.rs, editor/change\_tracking.rs, change\_building.rs, input/insert\_mode.rs):
    the change manager with groups, file operations and save points. \<open>undo_reach\<close> is the relation of
    the states a session can reach from a text; its laws say that undo restores and redo repeats.
  \<^item> Numbers (number\_ops.rs, editor/input/numbers.rs): \<open>Ctrl-A\<close> and \<open>Ctrl-X\<close> at their widths.
  \<^item> CommandLine (editor/single\_line\_input.rs, command\_history.rs): the text field with a byte cursor
    refines a zipper of characters; history navigation.
  \<^item> Marks (buffer/marks.rs, editor/marks.rs): local marks under edits, global marks, the jump list
    and the tag stack.
  \<^item> Folds, FoldLaws, FoldSessions, FoldTheorems (fold.rs): folds, their index of closed ranges and
    the z commands, with every session of operations as a list of steps.
  \<^item> Windows, WindowLaws (editor/window.rs): windows, the tree of splits, layout, focus, scrolling.
  \<^item> Tabs (editor/tabpage.rs): tab pages and their sessions.
  \<^item> ExTable (commands/table.rs, contexts.rs): the table of ex commands, evaluated as it is.
  \<^item> ExParse (commands/parse.rs): the parser of one command line.
  \<^item> ExRange (commands/range.rs, search\_pattern.rs, commands.rs): ranges against the editor; the
    regex engine is a parameter.
  \<^item> ExEdit, ExEditLaws, ExUndo (commands/edit.rs, editor/register\_ops.rs): the line editing commands,
    their effect on the list of lines, and that each is one undo step.
  \<^item> Replacements (commands/replacement.rs, pattern.rs): the replacement string of \<open>:s\<close>.
  \<^item> MarkedLines (commands/marked\_lines.rs): the lines \<open>:g\<close> still has to visit.
  \<^item> ExPattern, ExPatternLaws (commands/pattern.rs): \<open>:s\<close> and \<open>:g\<close> on the lines of the buffer.
  \<^item> SubstituteConfirm (editor/ui\_features.rs, input/substitute\_mode.rs): the dialogue of \<open>:s///c\<close>
    refines a list of matches with an answer each.
  \<^item> ShellExpansion (editor/input/shell\_expansion.rs): \<open>%\<close>, \<open>#\<close> and their modifiers, shell quoting
    against a reader of shell tokens, and the parts of std::path they use.
  \<^item> ExRun, ExRunLaws, ExLines (commands.rs, commands/contexts.rs, editor/execution.rs): a typed line
    from its text to the handlers of its commands, which may run further lines. What it reads of the
    editor outside the model, and the handlers that are not modelled, are the record \<open>ex_env\<close>;
    \<open>env_ok\<close> says that those handlers respect the nesting depth.
  \<^item> FileText (buffer/line\_ending.rs, encoding.rs, file\_io.rs): from the bytes of a file to the text
    of the buffer and back.
  \<^item> Conflicts (git/conflict.rs, editor/git\_tools.rs): conflict markers and their resolution.
  \<^item> LineIndexes, LineIndexLaws, LineIndexSessions (text\_index.rs, display.rs, unicode/mod.rs): grapheme,
    character and display columns of a line, by direct conversion and by an index that edits update;
    the indexes and the change log a buffer keeps. The locale \<open>grapheme_rules\<close> is what the incremental
    update needs of Unicode's segmentation; \<open>index_ok\<close> says that an index is right for a text.

  \<^bold>\<open>Parameters.\<close> Code outside the repository is an argument of the definitions: the rope
  (\<open>rope_ops\<close>, with the locale \<open>rope_contract\<close>), the regex engine (\<open>regex_ops\<close>), Unicode tables and
  grapheme counts (\<open>unicode_ops\<close>), grapheme boundaries and display widths (\<open>text_ops\<close>), the clipboard (\<open>clipboard_backend\<close>), the file system
  (\<open>fs_ops\<close>), the legacy character encodings (\<open>legacy_ops\<close>), the rest of the editor as a command line
  sees it (\<open>ex_env\<close>), and a key dispatcher. Where a property assumes anything of them, its witness
  instantiates them by concrete functions.

  \<^bold>\<open>Bounds.\<close> Loops are structural or have a measure. The one function that takes fuel is
  \<open>run_line_within\<close>: the source stops at 100 nested command lines, so the 101st call never starts
  another, and \<open>command_lines_end\<close> shows that 101 calls meet the recursive equation of the source
  and that more change nothing. The depth of nested macro playback, the number of undo entries,
  jumps and edit groups are the source's constants.

  \<^bold>\<open>Not modelled.\<close> Normal-mode dispatch, motions and text objects, which call into nearly the whole
  editor; rendering and line wrapping; tree-sitter, language servers, debug
  adapters, agents, git objects, Lua and the front ends, which are protocols, processes and foreign
  libraries; of files, everything but the translation between bytes and text and the save points of
  the history; the ex commands outside line editing, \<open>:s\<close>, \<open>:g\<close>, undo and redo, which enter as
  parameters of ExRun.
\<close>

end
